(* ===== verification/Prelude.thy ===== *)
theory Prelude
  imports Main "HOL-Library.Word"
begin

text \<open>
  Shared vocabulary of the development: the machine types of the 32-bit big-endian
  target (SPARC LEON3, on which the project runs its real workloads), the error values
  that stand for a failed assertion, a panic or an access outside a buffer, sequencing of
  fallible steps, and the generic lemmas on lists and words the components share.
\<close>

unbundle bit_operations_syntax

section \<open>Machine types\<close>

type_synonym u8 = "8 word"
type_synonym u16 = "16 word"
type_synonym u32 = "32 word"
type_synonym u64 = "64 word"

lemma u8_less [simp]: "unat (x::u8) < 256"
  using unsigned_less [of x] by simp

lemma u32_less: "unat (x::u32) < 2 ^ 32"
  using unsigned_less [of x] by simp

section \<open>Failures as values\<close>

text \<open>
  \<open>Assert_failed\<close> is a failed \<open>wassert\<close> or \<open>assert\<close> (the build with \<open>DEBUG\<close>, in which
  both stop execution), \<open>Panic\<close> a call of \<open>panic\<close>, and \<open>Bad_access\<close> a read or write
  outside the object the code owns, which C leaves undefined.
\<close>

datatype err = Assert_failed | Panic | Bad_access

type_synonym 'a res = "err + 'a"

definition res_bind :: "'a res \<Rightarrow> ('a \<Rightarrow> 'b res) \<Rightarrow> 'b res" where
  "res_bind m f = (case m of Inl e \<Rightarrow> Inl e | Inr x \<Rightarrow> f x)"

definition wassert :: "bool \<Rightarrow> unit res" where
  "wassert b = (if b then Inr () else Inl Assert_failed)"

lemma res_bind_simps [simp]:
  "res_bind (Inl e) f = Inl e"
  "res_bind (Inr x) f = f x"
  by (simp_all add: res_bind_def)

lemma res_bind_Inr_iff [simp]:
  "res_bind m f = Inr y \<longleftrightarrow> (\<exists>x. m = Inr x \<and> f x = Inr y)"
  by (cases m) auto

lemma wassert_simps [simp]:
  "wassert True = Inr ()"
  "wassert False = Inl Assert_failed"
  "wassert b = Inr u \<longleftrightarrow> b"
  by (auto simp: wassert_def)

lemma res_bind_assoc: "res_bind (res_bind m f) g = res_bind m (\<lambda>x. res_bind (f x) g)"
  by (cases m) auto

lemma res_bind_cong [fundef_cong]:
  "m = m' \<Longrightarrow> (\<And>x. m' = Inr x \<Longrightarrow> f x = f' x) \<Longrightarrow> res_bind m f = res_bind m' f'"
  by (cases m') auto

section \<open>Lists\<close>

lemma find_SomeD: "find P xs = Some x \<Longrightarrow> x \<in> set xs \<and> P x"
  by (induction xs) (auto split: if_splits)

lemma take_min_length [simp]:
  "take (min (length xs) k) xs = take k xs"
  "take (min k (length xs)) xs = take k xs"
  by (simp_all add: min_def)

text \<open>A write of a block into an array, as \<open>memcpy (buf + off, xs, length xs)\<close> does it.\<close>

definition blit :: "'a list \<Rightarrow> nat \<Rightarrow> 'a list \<Rightarrow> 'a list" where
  "blit buf off xs = take off buf @ xs @ drop (off + length xs) buf"

lemma length_blit [simp]:
  "off + length xs \<le> length buf \<Longrightarrow> length (blit buf off xs) = length buf"
  by (simp add: blit_def)

lemma blit_Nil [simp]: "blit buf off [] = buf"
  by (simp add: blit_def)

lemma nth_blit:
  "off + length xs \<le> length buf \<Longrightarrow> i < length buf \<Longrightarrow>
   blit buf off xs ! i = (if off \<le> i \<and> i < off + length xs then xs ! (i - off) else buf ! i)"
  by (auto simp: blit_def nth_append min_def)

lemma take_blit_le [simp]: "n \<le> off \<Longrightarrow> off \<le> length buf \<Longrightarrow> take n (blit buf off xs) = take n buf"
  by (simp add: blit_def min_def)

lemma drop_blit_ge [simp]:
  "off + length xs \<le> n \<Longrightarrow> off + length xs \<le> length buf \<Longrightarrow>
   drop n (blit buf off xs) = drop n buf"
  by (simp add: blit_def)

text \<open>The half-open segment \<open>[i, j)\<close> of an array.\<close>

definition seg :: "nat \<Rightarrow> nat \<Rightarrow> 'a list \<Rightarrow> 'a list" where
  "seg i j xs = drop i (take j xs)"

lemma length_seg [simp]: "length (seg i j xs) = min j (length xs) - i"
  by (simp add: seg_def)

lemma seg_empty [simp]: "j \<le> i \<Longrightarrow> seg i j xs = []"
  by (simp add: seg_def)

lemma seg_nth: "k < j - i \<Longrightarrow> j \<le> length xs \<Longrightarrow> seg i j xs ! k = xs ! (i + k)"
  by (simp add: seg_def)

lemma seg_append:
  assumes "i \<le> j" "j \<le> k"
  shows "seg i j xs @ seg j k xs = seg i k xs"
proof -
  obtain d where "k = j + d" using assms(2) le_Suc_ex by blast
  moreover have "take (j + d) xs = take j xs @ take d (drop j xs)" by (rule take_add)
  ultimately show ?thesis
    using assms by (cases "length xs \<le> j") (simp_all add: seg_def min_def)
qed

lemma take_seg: "take n (seg i j xs) = seg i (min j (i + n)) xs"
  by (simp add: seg_def take_drop min.commute add.commute)

lemma drop_seg: "drop n (seg i j xs) = seg (i + n) j xs"
  by (simp add: seg_def add.commute)

lemma seg_blit_out:
  "off + length xs \<le> length buf \<Longrightarrow> j \<le> off \<or> off + length xs \<le> i \<Longrightarrow>
   seg i j (blit buf off xs) = seg i j buf"
  by (cases "j \<le> off") (auto simp: seg_def drop_take)

lemma seg_blit_to:
  "off + length xs \<le> length buf \<Longrightarrow> i \<le> off \<Longrightarrow> j = off + length xs \<Longrightarrow>
   seg i j (blit buf off xs) = seg i off buf @ xs"
  by (simp add: seg_def blit_def)

lemma seg_blit_in:
  "off + length xs \<le> length buf \<Longrightarrow> seg off (off + length xs) (blit buf off xs) = xs"
  by (simp add: seg_def blit_def)

text \<open>
  \<open>memcpy\<close> into an array the code owns, with the bound written out: a block that does not
  fit is an access outside the object.
\<close>

definition blit_chk :: "'a list \<Rightarrow> nat \<Rightarrow> 'a list \<Rightarrow> 'a list res" where
  "blit_chk buf off xs =
     (if off + length xs \<le> length buf then Inr (blit buf off xs) else Inl Bad_access)"

text \<open>\<open>memcpy\<close> out of an array, with the same bound.\<close>

definition seg_chk :: "'a list \<Rightarrow> nat \<Rightarrow> nat \<Rightarrow> 'a list res" where
  "seg_chk buf off n = (if off + n \<le> length buf then Inr (seg off (off + n) buf) else Inl Bad_access)"

lemma blit_chk_fits [simp]:
  "off + length xs \<le> length buf \<Longrightarrow> blit_chk buf off xs = Inr (blit buf off xs)"
  by (simp add: blit_chk_def)

lemma seg_chk_fits [simp]:
  "off + n \<le> length buf \<Longrightarrow> seg_chk buf off n = Inr (seg off (off + n) buf)"
  by (simp add: seg_chk_def)


section \<open>Bit fields\<close>

text \<open>
  A C bit field of width \<open>n\<close> whose least significant bit is bit \<open>off\<close> of its word. The big-endian
  ABI allocates the fields of a struct from the most significant bit down.
\<close>

named_theorems bf_simps \<open>reading and writing bit fields\<close>

definition bf_get :: "nat \<Rightarrow> nat \<Rightarrow> 'a::len word \<Rightarrow> 'a word" where
  "bf_get off n w = take_bit n (drop_bit off w)"

definition bf_set :: "nat \<Rightarrow> nat \<Rightarrow> 'a::len word \<Rightarrow> 'a word \<Rightarrow> 'a word" where
  "bf_set off n v w = (w AND NOT (push_bit off (mask n))) OR push_bit off (take_bit n v)"

text \<open>A field declared \<open>long\<close> is read with its sign.\<close>

definition bf_sget :: "nat \<Rightarrow> nat \<Rightarrow> 'a::len word \<Rightarrow> int" where
  "bf_sget off n w = signed_take_bit (n - 1) (uint (bf_get off n w))"

lemma bit_bf_get: "bit (bf_get off n w) i \<longleftrightarrow> i < n \<and> bit w (off + i)"
  for w :: "'a::len word"
  by (auto simp: bf_get_def bit_take_bit_iff bit_drop_bit_eq add.commute)

lemma bit_bf_set:
  "bit (bf_set off n v w) i \<longleftrightarrow> i < LENGTH('a) \<and> (if off \<le> i \<and> i < off + n then bit v (i - off) else bit w i)"
  for w :: "'a::len word"
  by (auto simp: bf_set_def bit_or_iff bit_and_iff bit_not_iff bit_push_bit_iff bit_take_bit_iff
      bit_mask_iff dest: bit_imp_le_length)

lemma bf_get_set_same [bf_simps]:
  "off + n \<le> LENGTH('a) \<Longrightarrow> bf_get off n (bf_set off n v w) = take_bit n v"
  for w :: "'a::len word"
  by (rule bit_word_eqI) (auto simp: bit_bf_get bit_bf_set bit_take_bit_iff)

lemma bf_get_set_other [bf_simps]:
  "off + n \<le> off' \<or> off' + n' \<le> off \<Longrightarrow> bf_get off n (bf_set off' n' v w) = bf_get off n w"
  for w :: "'a::len word"
  by (rule bit_word_eqI) (auto simp: bit_bf_get bit_bf_set dest: bit_imp_le_length)

lemma bf_get_less: "n < LENGTH('a) \<Longrightarrow> unat (bf_get off n w) < 2 ^ n"
  for w :: "'a::len word"
  by (simp add: bf_get_def unsigned_take_bit_eq)

lemma take_bit_small [bf_simps]: "unat v < 2 ^ n \<Longrightarrow> take_bit n v = v"
  for v :: "'a::len word"
  by (metis take_bit_nat_eq_self_iff unsigned_take_bit_eq word_unat_eq_iff)

lemma bf_get_set_sub [bf_simps]:
  "off' \<le> off \<Longrightarrow> off + n \<le> off' + n' \<Longrightarrow> off' + n' \<le> LENGTH('a) \<Longrightarrow>
   bf_get off n (bf_set off' n' v w) = bf_get (off - off') n v"
  for w :: "'a::len word"
  by (rule bit_word_eqI) (auto simp: bit_bf_get bit_bf_set)

lemma bf_get_0 [simp]: "bf_get off n 0 = 0"
  by (simp add: bf_get_def)

text \<open>A signed field gives back a value that fits its width.\<close>

lemma bf_sget_fits:
  fixes w :: "'a::len word"
  assumes "bf_get off n w = take_bit n (word_of_int v)" "0 < n" "n < LENGTH('a)"
    and "- (2 ^ (n - 1)) \<le> v" "v < 2 ^ (n - 1)"
  shows "bf_sget off n w = v"
proof -
  obtain k where k: "n = Suc k" using assms(2) not0_implies_Suc by blast
  have "uint (bf_get off n w) = take_bit n v"
    using assms(1,3) by (simp add: unsigned_take_bit_eq uint_word_of_int_eq min_def)
  then have "bf_sget off n w = signed_take_bit k (take_bit (Suc k) v)"
    by (simp add: bf_sget_def k)
  also have "\<dots> = signed_take_bit k v" by (simp add: signed_take_bit_take_bit)
  also have "\<dots> = v" using assms(4,5) k by (simp add: signed_take_bit_int_eq_self_iff)
  finally show ?thesis .
qed

end
