(* ===== verification/Fifo.thy ===== *)
theory Fifo
  imports Prelude
begin

text \<open>
  The contract of a bounded byte queue, as the drivers use \<open>Cbuf_t\<close>: \<open>put\<close> accepts a prefix
  of what it is given, as much as there is room for, and \<open>get\<close> takes bytes from the front.
  A run of puts and gets loses, duplicates and reorders nothing.
\<close>

datatype 'b fifo_op = Put "'b list" | Get nat

text \<open>
  Running a sequence of operations collects the bytes accepted and the bytes delivered.
\<close>

fun fifo_run :: "('q \<Rightarrow> 'b list \<Rightarrow> (nat \<times> 'q) res) \<Rightarrow> ('q \<Rightarrow> nat \<Rightarrow> ('b list \<times> 'q) res) \<Rightarrow>
    'b fifo_op list \<Rightarrow> 'q \<Rightarrow> ('b list \<times> 'b list \<times> 'q) res" where
  "fifo_run put get [] q = Inr ([], [], q)"
| "fifo_run put get (Put xs # ops) q =
     res_bind (put q xs) (\<lambda>(n, q1).
     res_bind (fifo_run put get ops q1) (\<lambda>(acc, del, q2). Inr (take n xs @ acc, del, q2)))"
| "fifo_run put get (Get n # ops) q =
     res_bind (get q n) (\<lambda>(ys, q1).
     res_bind (fifo_run put get ops q1) (\<lambda>(acc, del, q2). Inr (acc, ys @ del, q2)))"

locale byte_fifo =
  fixes put :: "'q \<Rightarrow> 'b list \<Rightarrow> (nat \<times> 'q) res"
    and get :: "'q \<Rightarrow> nat \<Rightarrow> ('b list \<times> 'q) res"
    and contents :: "'q \<Rightarrow> 'b list"
    and capacity :: "'q \<Rightarrow> nat"
    and inv :: "'q \<Rightarrow> bool"
  assumes put_ok: "inv q \<Longrightarrow> \<exists>q'. put q xs = Inr (min (length xs) (capacity q - length (contents q)), q')
      \<and> inv q' \<and> capacity q' = capacity q
      \<and> contents q' = contents q @ take (capacity q - length (contents q)) xs"
    and get_ok: "inv q \<Longrightarrow> \<exists>q'. get q n = Inr (take n (contents q), q')
      \<and> inv q' \<and> capacity q' = capacity q \<and> contents q' = drop n (contents q)"
    and fits: "inv q \<Longrightarrow> length (contents q) \<le> capacity q"
begin

lemma run_conserves:
  "inv q \<Longrightarrow> \<exists>acc del q'. fifo_run put get ops q = Inr (acc, del, q') \<and> inv q'
     \<and> contents q @ acc = del @ contents q' \<and> length (contents q') \<le> capacity q"
proof (induction ops arbitrary: q)
  case Nil
  then show ?case using fits by simp
next
  case (Cons op ops)
  show ?case
  proof (cases op)
    case (Put xs)
    obtain q1 where p: "put q xs = Inr (min (length xs) (capacity q - length (contents q)), q1)"
      and q1: "inv q1" "capacity q1 = capacity q"
        "contents q1 = contents q @ take (capacity q - length (contents q)) xs"
      using put_ok [OF Cons.prems] by blast
    obtain acc del q' where r: "fifo_run put get ops q1 = Inr (acc, del, q')" "inv q'"
      "contents q1 @ acc = del @ contents q'" "length (contents q') \<le> capacity q1"
      using Cons.IH [OF q1(1)] by blast
    have "take (min (length xs) k) xs = take k xs" for k
      by (metis min.cobounded1 min_def take_all)
    with r q1 p Put show ?thesis by simp
  next
    case (Get n)
    obtain q1 where g: "get q n = Inr (take n (contents q), q1)"
      and q1: "inv q1" "capacity q1 = capacity q" "contents q1 = drop n (contents q)"
      using get_ok [OF Cons.prems] by blast
    obtain acc del q' where r: "fifo_run put get ops q1 = Inr (acc, del, q')" "inv q'"
      "contents q1 @ acc = del @ contents q'" "length (contents q') \<le> capacity q1"
      using Cons.IH [OF q1(1)] by blast
    have "contents q @ acc = take n (contents q) @ contents q1 @ acc"
      by (simp add: q1)
    with r q1 g Get show ?thesis by simp
  qed
qed

lemma put_then_get:
  assumes "inv q" "length (contents q) + length xs \<le> capacity q"
  shows "\<exists>q1 q2. put q xs = Inr (length xs, q1)
    \<and> get q1 (length (contents q) + length xs) = Inr (contents q @ xs, q2) \<and> contents q2 = []"
proof -
  obtain q1 where p: "put q xs = Inr (min (length xs) (capacity q - length (contents q)), q1)"
    and q1: "inv q1" "contents q1 = contents q @ take (capacity q - length (contents q)) xs"
    using put_ok [OF assms(1)] by blast
  have c: "contents q1 = contents q @ xs" using q1 assms(2) by simp
  obtain q2 where "get q1 (length (contents q) + length xs)
      = Inr (take (length (contents q) + length xs) (contents q1), q2)"
    "contents q2 = drop (length (contents q) + length xs) (contents q1)"
    using get_ok [OF q1(1)] by blast
  then show ?thesis using p c assms(2) by simp
qed

end

end
