(* ===== verification/Cbuf.thy ===== *)
theory Cbuf
  imports Fifo
begin

text \<open>
  The circular byte buffer \<open>Cbuf_t\<close> of \<open>lib/containers/cbuf.h\<close>: its four fields, the
  operations \<open>init\<close>, \<open>clear\<close>, \<open>empty\<close>, \<open>write\<close>, \<open>read\<close> and \<open>overwrite\<close>, and the proof that
  \<open>write\<close> and \<open>read\<close> implement a bounded byte queue of capacity \<open>_sz - 1\<close>. The buffer the
  caller hands to \<open>init\<close> is the list of its bytes; every \<open>memcpy\<close> checks its bounds.
\<close>

section \<open>State and operations\<close>

record cbuf =
  cb_buf :: "u8 list option"   \<comment> \<open>\<open>_buf\<close>, \<open>None\<close> for the null pointer\<close>
  cb_sz :: nat                 \<comment> \<open>\<open>_sz\<close>; the capacity is \<open>_sz - 1\<close>\<close>
  cb_wp :: nat                 \<comment> \<open>\<open>_wp\<close>\<close>
  cb_rp :: nat                 \<comment> \<open>\<open>_rp\<close>\<close>

definition cbuf_new :: cbuf where
  "cbuf_new = \<lparr>cb_buf = None, cb_sz = 0, cb_wp = 0, cb_rp = 0\<rparr>"

definition cbuf_init :: "cbuf \<Rightarrow> u8 list \<Rightarrow> nat \<Rightarrow> bool \<times> cbuf" where
  "cbuf_init c buf sz =
     (if cb_buf c \<noteq> None then (False, c)
      else (True, \<lparr>cb_buf = Some buf, cb_sz = sz, cb_wp = 0, cb_rp = 0\<rparr>))"

definition cbuf_clear :: "cbuf \<Rightarrow> cbuf" where
  "cbuf_clear c = c\<lparr>cb_wp := 0, cb_rp := 0\<rparr>"

definition cbuf_empty :: "cbuf \<Rightarrow> bool" where
  "cbuf_empty c = (cb_wp c = cb_rp c)"

text \<open>
  \<open>memcpy (_buf + off, xs, length xs)\<close> on the buffer of \<open>c\<close>.
\<close>

definition cbuf_put :: "cbuf \<Rightarrow> nat \<Rightarrow> u8 list \<Rightarrow> cbuf res" where
  "cbuf_put c off xs =
     (case cb_buf c of
        None \<Rightarrow> Inl Bad_access
      | Some b \<Rightarrow> res_bind (blit_chk b off xs) (\<lambda>b'. Inr (c\<lparr>cb_buf := Some b'\<rparr>)))"

text \<open>\<open>memcpy (dst, _buf + off, n)\<close>: the bytes copied out.\<close>

definition cbuf_get :: "cbuf \<Rightarrow> nat \<Rightarrow> nat \<Rightarrow> u8 list res" where
  "cbuf_get c off n =
     (case cb_buf c of None \<Rightarrow> (if n = 0 then Inr [] else Inl Bad_access) | Some b \<Rightarrow> seg_chk b off n)"

definition cbuf_write :: "cbuf \<Rightarrow> u8 list \<Rightarrow> (nat \<times> cbuf) res" where
  "cbuf_write c src =
     (let sz = cb_sz c; wp = cb_wp c; rp = cb_rp c; len = length src in
      if cb_buf c = None \<or> sz = 0 then Inr (0, c)
      else if rp = wp then
        (let bytes = min len (sz - 1) in
         res_bind (cbuf_put c 0 (take bytes src)) (\<lambda>c1.
         Inr (bytes, c1\<lparr>cb_rp := 0, cb_wp := bytes\<rparr>)))
      else if wp + 1 = rp \<or> (wp + 1 = sz \<and> rp = 0) then Inr (0, c)
      else if rp > wp then
        (let bytes = min len (rp - wp - 1) in
         res_bind (cbuf_put c wp (take bytes src)) (\<lambda>c1.
         Inr (bytes, c1\<lparr>cb_wp := wp + bytes\<rparr>)))
      else if wp \<noteq> 0 \<and> rp = 0 then
        (let bytes = min len (sz - wp - 1) in
         res_bind (cbuf_put c wp (take bytes src)) (\<lambda>c1.
         Inr (bytes, c1\<lparr>cb_wp := wp + bytes\<rparr>)))
      else
        (let bytes = min len (sz - wp) in
         res_bind (cbuf_put c wp (take bytes src)) (\<lambda>c1.
         let wp1 = (if wp + bytes = sz then 0 else wp + bytes) in
         if bytes \<noteq> len then
           res_bind (wassert (wp1 = 0)) (\<lambda>_.
           let l = min (len - bytes) (rp - 1) in
           res_bind (cbuf_put c1 0 (take l (drop bytes src))) (\<lambda>c2.
           Inr (bytes + l, c2\<lparr>cb_wp := l\<rparr>)))
         else Inr (bytes, c1\<lparr>cb_wp := wp1\<rparr>))))"

definition cbuf_read :: "cbuf \<Rightarrow> nat \<Rightarrow> (u8 list \<times> cbuf) res" where
  "cbuf_read c len =
     (let sz = cb_sz c; wp = cb_wp c; rp = cb_rp c in
      if wp = rp then Inr ([], c)
      else if rp < wp then
        (let bytes = min len (wp - rp) in
         res_bind (cbuf_get c rp bytes) (\<lambda>xs.
         Inr (xs, c\<lparr>cb_rp := rp + bytes\<rparr>)))
      else
        (let bytes = min len (sz - rp) in
         res_bind (cbuf_get c rp bytes) (\<lambda>xs.
         let rp1 = (if rp + bytes = sz then 0 else rp + bytes) in
         if bytes \<noteq> len then
           res_bind (wassert (rp1 = 0)) (\<lambda>_.
           let l = min (len - bytes) wp in
           res_bind (cbuf_get c 0 l) (\<lambda>ys.
           Inr (xs @ ys, c\<lparr>cb_rp := l\<rparr>)))
         else Inr (xs, c\<lparr>cb_rp := rp1\<rparr>))))"

definition cbuf_overwrite :: "cbuf \<Rightarrow> u8 list \<Rightarrow> (nat \<times> cbuf) res" where
  "cbuf_overwrite c src =
     (let sz = cb_sz c; wp = cb_wp c; rp = cb_rp c; len = length src in
      if cb_buf c = None \<or> sz = 0 then Inr (0, c)
      else if len \<ge> sz - 1 then
        (let offset = len - (sz - 1) in
         res_bind (cbuf_put c 0 (drop offset src)) (\<lambda>c1.
         Inr (len, c1\<lparr>cb_rp := 0, cb_wp := wp + (sz - 1)\<rparr>)))
      else if rp = wp then
        (let l = min len (sz - 1) in
         res_bind (cbuf_put c 0 (take l src)) (\<lambda>c1.
         Inr (len, c1\<lparr>cb_rp := 0, cb_wp := l\<rparr>)))
      else
        (let l1 = min len (sz - wp) in
         res_bind (cbuf_put c wp (take l1 src)) (\<lambda>c1.
         let over = (wp < rp \<and> wp + l1 \<ge> rp);
             wp1 = (if wp + l1 = sz then 0 else wp + l1);
             rp1 = (if over then (if wp1 + 1 = sz then 0 else wp1 + 1) else rp) in
         if l1 \<noteq> len then
           res_bind (wassert (wp1 = 0)) (\<lambda>_.
           let l2 = len - l1 in
           res_bind (cbuf_put c1 0 (drop l1 src)) (\<lambda>c2.
           let over2 = (wp1 + l2 \<ge> rp1);
               wp2 = l2;
               rp2 = (if over2 then (if wp2 + 1 = sz then 0 else wp2 + 1) else rp1) in
           Inr (len, c2\<lparr>cb_wp := wp2, cb_rp := rp2\<rparr>)))
         else Inr (len, c1\<lparr>cb_wp := wp1, cb_rp := rp1\<rparr>))))"

section \<open>Invariant and abstraction\<close>

definition cbuf_inv :: "cbuf \<Rightarrow> bool" where
  "cbuf_inv c =
     (case cb_buf c of
        None \<Rightarrow> cb_wp c = 0 \<and> cb_rp c = 0
      | Some b \<Rightarrow> length b = cb_sz c \<and>
          (cb_sz c = 0 \<and> cb_wp c = 0 \<and> cb_rp c = 0 \<or> cb_wp c < cb_sz c \<and> cb_rp c < cb_sz c))"

definition cbuf_list :: "cbuf \<Rightarrow> u8 list" where
  "cbuf_list c =
     (case cb_buf c of
        None \<Rightarrow> []
      | Some b \<Rightarrow>
          (if cb_rp c \<le> cb_wp c then seg (cb_rp c) (cb_wp c) b
           else seg (cb_rp c) (cb_sz c) b @ seg 0 (cb_wp c) b))"

definition cbuf_cap :: "cbuf \<Rightarrow> nat" where
  "cbuf_cap c = (if cb_buf c = None then 0 else cb_sz c - 1)"

lemma cbuf_fits: "cbuf_inv c \<Longrightarrow> length (cbuf_list c) \<le> cbuf_cap c"
  by (auto simp: cbuf_inv_def cbuf_list_def cbuf_cap_def split: option.splits)


lemma cbuf_read_ok:
  assumes "cbuf_inv c"
  shows "\<exists>c'. cbuf_read c n = Inr (take n (cbuf_list c), c') \<and> cbuf_inv c'
     \<and> cbuf_cap c' = cbuf_cap c \<and> cbuf_list c' = drop n (cbuf_list c)"
proof (cases "cb_wp c = cb_rp c")
  case True
  then show ?thesis using assms
    by (auto simp: cbuf_read_def cbuf_list_def cbuf_inv_def split: option.splits)
next
  case ne: False
  then obtain b where "cb_buf c = Some b" "length b = cb_sz c" "cb_wp c < cb_sz c" "cb_rp c < cb_sz c"
    using assms by (auto simp: cbuf_inv_def split: option.splits)
  then show ?thesis using ne
    by (cases "cb_rp c < cb_wp c")
      (auto simp: cbuf_read_def cbuf_get_def Let_def cbuf_list_def cbuf_inv_def cbuf_cap_def
          take_seg drop_seg min_def)
qed

lemma cbuf_write_ok:
  assumes "cbuf_inv c"
  shows "\<exists>c'. cbuf_write c xs = Inr (min (length xs) (cbuf_cap c - length (cbuf_list c)), c')
     \<and> cbuf_inv c' \<and> cbuf_cap c' = cbuf_cap c
     \<and> cbuf_list c' = cbuf_list c @ take (cbuf_cap c - length (cbuf_list c)) xs"
proof (cases "cb_buf c = None \<or> cb_sz c = 0")
  case True
  then show ?thesis using assms
    by (auto simp: cbuf_write_def cbuf_list_def cbuf_inv_def cbuf_cap_def split: option.splits)
next
  case False
  then obtain b where b: "cb_buf c = Some b" "length b = cb_sz c" "cb_wp c < cb_sz c" "cb_rp c < cb_sz c"
    using assms by (auto simp: cbuf_inv_def split: option.splits)
  note defs = cbuf_write_def cbuf_put_def Let_def cbuf_list_def cbuf_inv_def cbuf_cap_def
  consider "cb_rp c = cb_wp c" | "cb_rp c > cb_wp c" | "cb_rp c < cb_wp c" "cb_rp c = 0"
    | "cb_rp c < cb_wp c" "cb_rp c > 0" by linarith
  then show ?thesis
  proof cases
    case 1
    then show ?thesis using b by (auto simp: defs seg_blit_to)
  next
    case 2
    then show ?thesis using b by (auto simp: defs seg_blit_out seg_blit_to)
  next
    case 3
    then show ?thesis using b by (auto simp: defs seg_blit_out seg_blit_to)
  next
    case 4
    let ?a = "cb_sz c - cb_wp c"
    have k: "cb_sz c + cb_rp c - Suc (cb_wp c) = ?a + (cb_rp c - Suc 0)"
      using 4 b by simp
    have "take ?a xs @ take (min (length xs + cb_wp c - cb_sz c) (cb_rp c - Suc 0)) (drop ?a xs)
        = take (cb_sz c + cb_rp c - Suc (cb_wp c)) xs"
      if "min (length xs) ?a \<noteq> length xs"
      using that b take_min_length(1) [of "drop ?a xs" "cb_rp c - Suc 0"]
      unfolding k take_add by simp
    then show ?thesis using 4 b by (auto simp: defs seg_blit_out seg_blit_to)
  qed
qed


interpretation cb: byte_fifo cbuf_write cbuf_read cbuf_list cbuf_cap cbuf_inv
  using cbuf_write_ok cbuf_read_ok cbuf_fits by unfold_locales blast+


section \<open>Overwriting\<close>

text \<open>
  What \<open>overwrite\<close> is for: the whole input is taken and the buffer keeps the newest
  \<open>_sz - 1\<close> bytes.
\<close>

definition overwrite_keeps_newest :: "cbuf \<Rightarrow> u8 list \<Rightarrow> bool" where
  "overwrite_keeps_newest c xs =
     (case cbuf_overwrite c xs of
        Inl _ \<Rightarrow> False
      | Inr (n, c') \<Rightarrow> n = length xs \<and> cbuf_inv c' \<and> cbuf_cap c' = cbuf_cap c
          \<and> cbuf_list c' = drop (length (cbuf_list c) + length xs - cbuf_cap c) (cbuf_list c @ xs))"

lemmas overwrite_defs = overwrite_keeps_newest_def cbuf_overwrite_def cbuf_put_def Let_def
  cbuf_list_def cbuf_inv_def cbuf_cap_def

lemmas overwrite_segs = seg_blit_to seg_blit_out drop_seg

text \<open>The writer is ahead of the reader and reaches the end of the array.\<close>

lemma overwrite_wraps_behind:
  assumes b: "cb_buf c = Some b" "length b = cb_sz c" "cb_wp c < cb_sz c"
    and len: "length xs < cb_sz c - 1" "cb_wp c + length xs \<ge> cb_sz c"
    and rp: "cb_rp c < cb_wp c"
    and edge: "cb_rp c = 0 \<Longrightarrow> cb_wp c + length xs \<noteq> cb_sz c"
  shows "overwrite_keeps_newest c xs"
proof -
  let ?l1 = "cb_sz c - cb_wp c"
  let ?l2 = "cb_wp c + length xs - cb_sz c"
  have l1: "min (length xs) ?l1 = ?l1" "length (take ?l1 xs) = ?l1" "length (drop ?l1 xs) = ?l2"
    "take ?l1 xs @ drop ?l1 xs = xs" using len b by auto
  consider "?l2 = 0" "cb_rp c > 0" | "?l2 > 0" "?l2 < cb_rp c" | "?l2 > 0" "?l2 \<ge> cb_rp c"
    using edge len by linarith
  then show ?thesis
  proof cases
    case 1
    then show ?thesis using rp len b l1 by (simp add: overwrite_defs overwrite_segs)
  next
    case 2
    have "?l1 \<noteq> length xs" using 2 len b by linarith
    with 2 show ?thesis using rp len b l1 by (simp add: overwrite_defs overwrite_segs)
  next
    case 3
    have "?l1 \<noteq> length xs" "Suc ?l2 \<noteq> cb_sz c" "Suc ?l2 < cb_sz c" "?l2 < cb_sz c"
      "Suc (cb_wp c + length xs) - cb_sz c = Suc ?l2" using 3 len b by linarith+
    with 3 show ?thesis using rp len b l1 by (simp add: overwrite_defs overwrite_segs)
  qed
qed

text \<open>The writer is behind the reader and runs over it.\<close>

lemma overwrite_runs_over:
  assumes b: "cb_buf c = Some b" "length b = cb_sz c" "cb_rp c < cb_sz c"
    and len: "length xs < cb_sz c - 1" "cb_wp c + length xs \<ge> cb_rp c"
    and rp: "cb_wp c < cb_rp c"
  shows "overwrite_keeps_newest c xs"
proof -
  consider "cb_wp c + length xs < cb_sz c" | "cb_wp c + length xs = cb_sz c"
    | "cb_wp c + length xs > cb_sz c" by linarith
  then show ?thesis
  proof cases
    case 1
    then have "min (length xs) (cb_sz c - cb_wp c) = length xs" by simp
    then show ?thesis using 1 rp len b by (auto simp: overwrite_defs overwrite_segs)
  next
    case 2
    then have "min (length xs) (cb_sz c - cb_wp c) = length xs" "Suc 0 \<noteq> cb_sz c" using len by auto
    then show ?thesis using 2 rp len b by (auto simp: overwrite_defs overwrite_segs)
  next
    case 3
    let ?l1 = "cb_sz c - cb_wp c"
    let ?l2 = "cb_wp c + length xs - cb_sz c"
    have l1: "min (length xs) ?l1 = ?l1" "length (take ?l1 xs) = ?l1" "length (drop ?l1 xs) = ?l2"
      "take ?l1 xs @ drop ?l1 xs = xs" using 3 b rp by auto
    have "?l1 \<noteq> length xs" "Suc ?l2 \<noteq> cb_sz c" "Suc ?l2 < cb_sz c" "?l2 < cb_sz c"
      "Suc (cb_wp c + length xs) - cb_sz c = Suc ?l2" "Suc 0 \<noteq> cb_sz c" "0 < ?l2" "Suc 0 \<le> ?l2"
      using 3 rp len b by linarith+
    with 3 show ?thesis using rp len b l1 by (simp add: overwrite_defs overwrite_segs)
  qed
qed

section \<open>Properties\<close>

text \<open>
  C38. Any sequence of writes and reads on a well-formed circular buffer runs without a failed
  assertion or an access outside the array, and is first-in first-out: what was in the buffer
  followed by the bytes the writes accepted is exactly the bytes the reads delivered followed
  by what is left.
\<close>

theorem cbuf_fifo:
  assumes "cbuf_inv c"
  shows "\<exists>acc del c'. fifo_run cbuf_write cbuf_read ops c = Inr (acc, del, c') \<and> cbuf_inv c'
     \<and> cbuf_list c @ acc = del @ cbuf_list c' \<and> length (cbuf_list c') \<le> cbuf_cap c"
  using assms by (rule cb.run_conserves)

theorem cbuf_fifo_witness:
  "\<exists>acc del c'. fifo_run cbuf_write cbuf_read [Put [1, 2, 3], Get 2, Put [4, 5], Get 9]
      (snd (cbuf_init cbuf_new [0, 0, 0, 0] 4)) = Inr (acc, del, c') \<and> cbuf_inv c'
     \<and> cbuf_list (snd (cbuf_init cbuf_new [0, 0, 0, 0] 4)) @ acc = del @ cbuf_list c'
     \<and> length (cbuf_list c') \<le> cbuf_cap (snd (cbuf_init cbuf_new [0, 0, 0, 0] 4))"
  by (rule cbuf_fifo) (simp add: cbuf_init_def cbuf_new_def cbuf_inv_def)

text \<open>
  On an initialised buffer \<open>overwrite\<close> accepts every byte and keeps the newest
  \<open>_sz - 1\<close> bytes of the old contents followed by the input, in all cases but two: an input of
  at least \<open>_sz - 1\<close> bytes while \<open>_wp\<close> is not 0, and an input that ends exactly at the end of
  the array while \<open>_rp\<close> is 0.
\<close>

theorem cbuf_overwrite_newest:
  assumes inv: "cbuf_inv c" and buf: "cb_buf c \<noteq> None" "cb_sz c > 0"
    and wrap: "length xs \<ge> cb_sz c - 1 \<Longrightarrow> cb_wp c = 0"
    and edge: "cb_rp c = 0 \<Longrightarrow> cb_wp c > 0 \<Longrightarrow> cb_wp c + length xs \<noteq> cb_sz c"
  shows "overwrite_keeps_newest c xs"
proof -
  obtain b where b: "cb_buf c = Some b" "length b = cb_sz c" "cb_wp c < cb_sz c" "cb_rp c < cb_sz c"
    using inv buf by (auto simp: cbuf_inv_def split: option.splits)
  consider "length xs \<ge> cb_sz c - 1" | "length xs < cb_sz c - 1" "cb_rp c = cb_wp c"
    | "length xs < cb_sz c - 1" "cb_rp c < cb_wp c" "cb_wp c + length xs < cb_sz c"
    | "length xs < cb_sz c - 1" "cb_rp c < cb_wp c" "cb_wp c + length xs \<ge> cb_sz c"
    | "length xs < cb_sz c - 1" "cb_rp c > cb_wp c" "cb_wp c + length xs < cb_rp c"
    | "length xs < cb_sz c - 1" "cb_rp c > cb_wp c" "cb_wp c + length xs \<ge> cb_rp c" by linarith
  then show ?thesis
  proof cases
    case 4
    then show ?thesis using b edge overwrite_wraps_behind by simp
  next
    case 6
    then show ?thesis using b overwrite_runs_over by blast
  qed (use b wrap in \<open>auto simp: overwrite_defs seg_blit_to seg_blit_out\<close>)
qed

theorem cbuf_overwrite_newest_witness:
  "overwrite_keeps_newest \<lparr>cb_buf = Some [7, 8, 9, 0], cb_sz = 4, cb_wp = 3, cb_rp = 1\<rparr> [5, 6]"
  by (rule cbuf_overwrite_newest) (simp_all add: cbuf_inv_def)

text \<open>
  In each of the two remaining cases \<open>overwrite\<close> is wrong. After \<open>init\<close> with eight bytes
  and a write of five, an overwrite of three bytes reports success and leaves the buffer
  empty; after a write of one byte, an overwrite of seven leaves \<open>_wp\<close> on the array's end,
  outside the invariant.
\<close>

theorem cbuf_overwrite_flaws:
  "\<exists>c1 c2. cbuf_write (snd (cbuf_init cbuf_new (replicate 8 0) 8)) [1, 2, 3, 4, 5] = Inr (5, c1)
     \<and> cbuf_overwrite c1 [6, 7, 8] = Inr (3, c2) \<and> cbuf_list c2 = []
   \<and> (\<exists>c3 c4. cbuf_write (snd (cbuf_init cbuf_new (replicate 8 0) 8)) [1] = Inr (1, c3)
     \<and> cbuf_overwrite c3 [1, 2, 3, 4, 5, 6, 7] = Inr (7, c4) \<and> \<not> cbuf_inv c4)"
  by (simp add: cbuf_write_def cbuf_overwrite_def cbuf_init_def cbuf_new_def cbuf_put_def
      cbuf_list_def cbuf_inv_def blit_chk_def blit_def Let_def numeral_eq_Suc)

end
