(* ===== verification/Bitmap.thy ===== *)
theory Bitmap
  imports Prelude
begin

text \<open>
  The bit map \<open>bitmap_t\<close> of \<open>lib/containers/bitmap.h\<close> and the static object pool
  \<open>Static_pool_t\<close> of \<open>lib/containers/static_pool.h\<close> that allocates with it. \<open>long\<close> has 32 bits
  on the target, so \<open>Bits_per_word\<close> is 32 and the shifted literal \<open>1\<close> has the word's width.
\<close>

section \<open>The bit map\<close>

record bitmap =
  bm_words :: "u32 list"   \<comment> \<open>\<open>_words [MAX_BITS / Bits_per_word + 1]\<close>\<close>
  bm_capacity :: nat       \<comment> \<open>\<open>_capacity\<close>\<close>
  bm_count :: nat          \<comment> \<open>\<open>_count\<close>\<close>

definition bitmap_new :: "nat \<Rightarrow> bitmap" where
  "bitmap_new max_bits = \<lparr>bm_words = replicate (max_bits div 32 + 1) 0, bm_capacity = 0, bm_count = 0\<rparr>"

definition bitmap_init :: "nat \<Rightarrow> bitmap \<Rightarrow> nat \<Rightarrow> int \<times> bitmap" where
  "bitmap_init max_bits m capacity =
     (if capacity > max_bits then (-1, m)
      else (0, m\<lparr>bm_capacity := capacity, bm_count := 0\<rparr>))"

definition bitmap_get :: "bitmap \<Rightarrow> nat \<Rightarrow> int" where
  "bitmap_get m pos =
     (if pos \<ge> bm_capacity m then -1
      else uint (drop_bit (pos mod 32) (bm_words m ! (pos div 32)) AND 1))"

definition bitmap_set :: "bitmap \<Rightarrow> nat \<Rightarrow> int \<times> bitmap" where
  "bitmap_set m pos =
     (if pos \<ge> bm_capacity m then (-1, m)
      else if bitmap_get m pos = 1 then (0, m)
      else (0, m\<lparr>bm_count := bm_count m + 1,
             bm_words := (bm_words m)[pos div 32 := (bm_words m ! (pos div 32)) OR push_bit (pos mod 32) 1]\<rparr>))"

definition bitmap_clear :: "bitmap \<Rightarrow> nat \<Rightarrow> int \<times> bitmap" where
  "bitmap_clear m pos =
     (if pos \<ge> bm_capacity m then (-1, m)
      else if bitmap_get m pos = 0 then (0, m)
      else (0, m\<lparr>bm_count := bm_count m - 1,
             bm_words := (bm_words m)[pos div 32 := (bm_words m ! (pos div 32)) AND NOT (push_bit (pos mod 32) 1)]\<rparr>))"

text \<open>
  The scan of one word for the first bit with value \<open>v\<close>: \<open>for (j=0; j<n; ++j) if (...)\<close>.
\<close>

definition scan_word :: "bool \<Rightarrow> u32 \<Rightarrow> nat \<Rightarrow> nat option" where
  "scan_word v w n = List.find (\<lambda>j. (w AND push_bit j 1 \<noteq> 0) = v) [0..<n]"

text \<open>
  The loops of \<open>getfree\<close> (\<open>v = False\<close>) and \<open>getbusy\<close> (\<open>v = True\<close>): the full words first,
  skipping a word that is all ones (all zeros), then the \<open>_capacity % Bits_per_word\<close> bits of the
  tail word.
\<close>

function scan_words :: "bool \<Rightarrow> u32 list \<Rightarrow> nat \<Rightarrow> nat \<Rightarrow> nat option" where
  "scan_words v ws i n =
     (if i < n then
        (if ws ! i \<noteq> (if v then 0 else -1) then
           (case scan_word v (ws ! i) 32 of
              Some j \<Rightarrow> Some (i * 32 + j)
            | None \<Rightarrow> scan_words v ws (i + 1) n)
         else scan_words v ws (i + 1) n)
      else None)"
  by pat_completeness auto
termination
  by (relation "measure (\<lambda>(v, ws, i, n). n - i)") auto

declare scan_words.simps [simp del]

definition scan_bitmap :: "bool \<Rightarrow> bitmap \<Rightarrow> nat option" where
  "scan_bitmap v m =
     (let words_count = bm_capacity m div 32; bits_count = bm_capacity m mod 32 in
      case scan_words v (bm_words m) 0 words_count of
        Some pos \<Rightarrow> Some pos
      | None \<Rightarrow> map_option (\<lambda>i. words_count * 32 + i) (scan_word v (bm_words m ! words_count) bits_count))"

definition bitmap_getfree :: "bitmap \<Rightarrow> int \<times> bitmap" where
  "bitmap_getfree m =
     (case scan_bitmap False m of Some pos \<Rightarrow> (int pos, snd (bitmap_set m pos)) | None \<Rightarrow> (-1, m))"

definition bitmap_getbusy :: "bitmap \<Rightarrow> int \<times> bitmap" where
  "bitmap_getbusy m =
     (case scan_bitmap True m of Some pos \<Rightarrow> (int pos, snd (bitmap_clear m pos)) | None \<Rightarrow> (-1, m))"

definition bitmap_getany :: "bitmap \<Rightarrow> int \<Rightarrow> int \<times> bitmap" where
  "bitmap_getany m val = (if val \<noteq> 0 then bitmap_getbusy m else bitmap_getfree m)"

section \<open>Invariant and abstraction to a set of positions\<close>

definition bitmap_bit :: "bitmap \<Rightarrow> nat \<Rightarrow> bool" where
  "bitmap_bit m pos = bit (bm_words m ! (pos div 32)) (pos mod 32)"

definition bitmap_abs :: "bitmap \<Rightarrow> nat set" where
  "bitmap_abs m = {pos. pos < bm_capacity m \<and> bitmap_bit m pos}"

definition bitmap_inv :: "bitmap \<Rightarrow> bool" where
  "bitmap_inv m \<longleftrightarrow> bm_capacity m div 32 < length (bm_words m) \<and> bm_count m = card (bitmap_abs m)"

lemma finite_bitmap_abs [simp]: "finite (bitmap_abs m)"
  by (simp add: bitmap_abs_def)

lemma bit_and_1: "uint (drop_bit k w AND (1::u32)) = (if bit w k then 1 else 0)"
  by (simp add: and_one_eq bit_iff_odd_drop_bit mod_2_eq_odd)

lemma and_push_bit_nonzero: "k < 32 \<Longrightarrow> ((w::u32) AND push_bit k 1 \<noteq> 0) = bit w k"
  by (metis and_exp_eq_0_iff_not_bit push_bit_of_1)

lemma bitmap_get_eq:
  "bitmap_get m pos = (if pos \<ge> bm_capacity m then -1 else if pos \<in> bitmap_abs m then 1 else 0)"
  by (simp add: bitmap_get_def bit_and_1 bitmap_abs_def bitmap_bit_def)

lemma pos_word: "pos < cap \<Longrightarrow> cap div 32 < n \<Longrightarrow> pos div 32 < (n::nat)"
  by (metis div_le_mono le_less_trans less_imp_le_nat)

lemma same_word: "q div 32 = pos div 32 \<Longrightarrow> q mod 32 = pos mod 32 \<Longrightarrow> q = (pos::nat)"
  by (metis div_mult_mod_eq)

lemma bitmap_set_abs:
  assumes "bitmap_inv m"
  shows "fst (bitmap_set m pos) = (if pos < bm_capacity m then 0 else -1)"
    and "bitmap_inv (snd (bitmap_set m pos))"
    and "bm_capacity (snd (bitmap_set m pos)) = bm_capacity m"
    and "bitmap_abs (snd (bitmap_set m pos)) =
      (if pos < bm_capacity m then insert pos (bitmap_abs m) else bitmap_abs m)"
proof -
  show "fst (bitmap_set m pos) = (if pos < bm_capacity m then 0 else -1)"
    "bm_capacity (snd (bitmap_set m pos)) = bm_capacity m"
    by (auto simp: bitmap_set_def)
  show abs: "bitmap_abs (snd (bitmap_set m pos)) =
      (if pos < bm_capacity m then insert pos (bitmap_abs m) else bitmap_abs m)"
    using assms pos_word [of pos "bm_capacity m" "length (bm_words m)"]
    by (auto simp: bitmap_set_def bitmap_get_eq bitmap_abs_def bitmap_bit_def bitmap_inv_def
        nth_list_update bit_or_iff bit_exp_iff dest: same_word)
  show "bitmap_inv (snd (bitmap_set m pos))"
    using assms abs by (auto simp: bitmap_inv_def) (auto simp: bitmap_set_def bitmap_get_eq)
qed


lemma bitmap_clear_abs:
  assumes "bitmap_inv m"
  shows "fst (bitmap_clear m pos) = (if pos < bm_capacity m then 0 else -1)"
    and "bitmap_inv (snd (bitmap_clear m pos))"
    and "bm_capacity (snd (bitmap_clear m pos)) = bm_capacity m"
    and "bitmap_abs (snd (bitmap_clear m pos)) = bitmap_abs m - {pos}"
proof -
  show "fst (bitmap_clear m pos) = (if pos < bm_capacity m then 0 else -1)"
    "bm_capacity (snd (bitmap_clear m pos)) = bm_capacity m"
    by (auto simp: bitmap_clear_def)
  show abs: "bitmap_abs (snd (bitmap_clear m pos)) = bitmap_abs m - {pos}"
    using assms pos_word [of pos "bm_capacity m" "length (bm_words m)"]
    by (auto simp: bitmap_clear_def bitmap_get_eq bitmap_abs_def bitmap_bit_def bitmap_inv_def
        nth_list_update bit_and_iff bit_not_iff bit_exp_iff dest: same_word)
  show "bitmap_inv (snd (bitmap_clear m pos))"
    using assms
    by (cases "pos \<in> bitmap_abs m")
      (auto simp: bitmap_inv_def abs card_Diff_singleton,
       auto simp: bitmap_clear_def bitmap_get_eq bitmap_abs_def)
qed

subsection \<open>Scanning finds the lowest position\<close>

lemma scan_word_eq: "n \<le> 32 \<Longrightarrow> scan_word v w n = find (\<lambda>j. bit w j = v) [0..<n]"
  unfolding scan_word_def by (rule find_cong) (auto simp: and_exp_eq_0_iff_not_bit)

lemma scan_word_Some:
  "n \<le> 32 \<Longrightarrow> scan_word v w n = Some j \<longleftrightarrow> j < n \<and> bit w j = v \<and> (\<forall>k<j. bit w k \<noteq> v)"
  by (auto simp: scan_word_eq find_Some_iff)

lemma scan_word_None: "n \<le> 32 \<Longrightarrow> scan_word v w n = None \<longleftrightarrow> (\<forall>k<n. bit w k \<noteq> v)"
  by (auto simp: scan_word_eq find_None_iff)

lemma pos_in_word: "k < 32 \<Longrightarrow> (i * 32 + k) div 32 = i \<and> (i * 32 + k) mod 32 = (k::nat)"
  by simp

text \<open>\<open>first_hit P lo hi r\<close>: \<open>r\<close> is the least position of \<open>[lo, hi)\<close> with \<open>P\<close>, if there is one.\<close>

definition first_hit :: "(nat \<Rightarrow> bool) \<Rightarrow> nat \<Rightarrow> nat \<Rightarrow> nat option \<Rightarrow> bool" where
  "first_hit P lo hi r =
     (case r of
        Some p \<Rightarrow> lo \<le> p \<and> p < hi \<and> P p \<and> (\<forall>q. lo \<le> q \<and> q < p \<longrightarrow> \<not> P q)
      | None \<Rightarrow> \<forall>q. lo \<le> q \<and> q < hi \<longrightarrow> \<not> P q)"

lemma first_hit_extend:
  assumes "first_hit P mid hi r" "lo \<le> mid" "\<And>q. lo \<le> q \<Longrightarrow> q < mid \<Longrightarrow> \<not> P q"
  shows "first_hit P lo hi r"
  using assms by (auto simp: first_hit_def split: option.splits) (metis linorder_not_less)+

lemma scan_words_spec:
  "first_hit (\<lambda>q. bit (ws ! (q div 32)) (q mod 32) = v) (i * 32) (n * 32) (scan_words v ws i n)"
proof (induction v ws i n rule: scan_words.induct)
  case (1 v ws i n)
  let ?B = "\<lambda>q. bit (ws ! (q div 32)) (q mod 32) = v"
  show ?case
  proof (cases "i < n")
    case False
    then have "\<not> (i * 32 \<le> q \<and> q < n * 32)" for q by linarith
    then show ?thesis using False by (auto simp: scan_words.simps [of v ws i n] first_hit_def)
  next
    case True
    have here: "?B (i * 32 + k) = (bit (ws ! i) k = v)" if "k < 32" for k
      using pos_in_word [OF that, of i] by simp
    have part: "\<exists>k<d. q = i * 32 + k" if "i * 32 \<le> q" "q < i * 32 + d" for q d
      using that by (metis le_Suc_ex nat_add_left_cancel_less)
    show ?thesis
    proof (cases "scan_word v (ws ! i) 32")
      case (Some j)
      then have j: "j < 32" "bit (ws ! i) j = v" "\<forall>k<j. bit (ws ! i) k \<noteq> v"
        by (simp_all add: scan_word_Some)
      have "ws ! i \<noteq> (if v then 0 else -1)" using j by auto
      then have "scan_words v ws i n = Some (i * 32 + j)"
        using True Some by (simp add: scan_words.simps [of v ws i n])
      moreover have "i * 32 + j < n * 32" using True j(1) by linarith
      moreover have "\<not> ?B q" if "i * 32 \<le> q" "q < i * 32 + j" for q
        using part [OF that] here j by auto
      ultimately show ?thesis using j here [of j] by (simp add: first_hit_def)
    next
      case None
      then have no: "\<forall>k<32. bit (ws ! i) k \<noteq> v" by (simp add: scan_word_None)
      have IH: "first_hit ?B ((i + 1) * 32) (n * 32) (scan_words v ws (i + 1) n)"
        by (cases "ws ! i \<noteq> (if v then 0 else -1)") (use "1.IH" True None in simp_all)
      have eq: "scan_words v ws i n = scan_words v ws (i + 1) n"
        using True None by (simp add: scan_words.simps [of v ws i n])
      have "\<not> ?B q" if "i * 32 \<le> q" "q < (i + 1) * 32" for q
        using part [of q 32] that here no by auto
      then show ?thesis unfolding eq by (intro first_hit_extend [OF IH]) auto
    qed
  qed
qed

lemma scan_bitmap_spec: "first_hit (\<lambda>q. bitmap_bit m q = v) 0 (bm_capacity m) (scan_bitmap v m)"
proof -
  let ?n = "bm_capacity m div 32" and ?k = "bm_capacity m mod 32"
  let ?B = "\<lambda>q. bitmap_bit m q = v"
  have cap: "bm_capacity m = ?n * 32 + ?k" "?k < 32" by simp_all
  have low: "first_hit ?B 0 (?n * 32) (scan_words v (bm_words m) 0 ?n)"
    using scan_words_spec [of "bm_words m" v 0 ?n] by (simp add: bitmap_bit_def)
  show ?thesis
  proof (cases "scan_words v (bm_words m) 0 ?n")
    case (Some pos)
    have "?n * 32 \<le> bm_capacity m" by simp
    then show ?thesis using low Some by (auto simp: scan_bitmap_def first_hit_def)
  next
    case None
    have tail: "?B (?n * 32 + j) = (bit (bm_words m ! ?n) j = v)" if "j < 32" for j
      using that pos_in_word [of j ?n] by (simp add: bitmap_bit_def)
    have part: "\<exists>j<d. q = ?n * 32 + j" if "?n * 32 \<le> q" "q < ?n * 32 + d" for q d
      using that by (metis le_Suc_ex nat_add_left_cancel_less)
    let ?r = "map_option (\<lambda>i. ?n * 32 + i) (scan_word v (bm_words m ! ?n) ?k)"
    have "first_hit ?B (?n * 32) (?n * 32 + ?k) ?r"
    proof (cases "scan_word v (bm_words m ! ?n) ?k")
      case none: None
      then have no: "\<forall>j<?k. bit (bm_words m ! ?n) j \<noteq> v" using cap(2) by (simp add: scan_word_None)
      have "\<not> ?B q" if "?n * 32 \<le> q" "q < ?n * 32 + ?k" for q
        using part [OF that] tail no cap(2) by auto
      then show ?thesis using none by (simp add: first_hit_def)
    next
      case (Some j)
      then have j: "j < ?k" "bit (bm_words m ! ?n) j = v" "\<forall>i<j. bit (bm_words m ! ?n) i \<noteq> v"
        using cap(2) by (simp_all add: scan_word_Some)
      have "\<not> ?B q" if "?n * 32 \<le> q" "q < ?n * 32 + j" for q
        using part [OF that] tail j cap(2) by auto
      moreover have "?n * 32 + j < bm_capacity m" using j(1) cap(1) by linarith
      ultimately show ?thesis using Some j tail [of j] cap(2) by (simp add: first_hit_def)
    qed
    then have "first_hit ?B 0 (bm_capacity m) ?r"
      unfolding cap(1) [symmetric] by (rule first_hit_extend) (use low None in \<open>simp_all add: first_hit_def\<close>)
    then show ?thesis using None by (simp add: scan_bitmap_def Let_def)
  qed
qed

lemma bitmap_getfree_spec:
  assumes "bitmap_inv m"
  shows "bitmap_inv (snd (bitmap_getfree m)) \<and> bm_capacity (snd (bitmap_getfree m)) = bm_capacity m
    \<and> (if bitmap_abs m = {..<bm_capacity m} then bitmap_getfree m = (-1, m)
       else \<exists>pos<bm_capacity m. fst (bitmap_getfree m) = int pos \<and> pos \<notin> bitmap_abs m
         \<and> {..<pos} \<subseteq> bitmap_abs m \<and> bitmap_abs (snd (bitmap_getfree m)) = insert pos (bitmap_abs m))"
proof (cases "scan_bitmap False m")
  case None
  then have "bitmap_abs m = {..<bm_capacity m}"
    using scan_bitmap_spec [of m False] by (auto simp: bitmap_abs_def first_hit_def)
  then show ?thesis using None assms by (simp add: bitmap_getfree_def)
next
  case (Some pos)
  then have pos: "pos < bm_capacity m" "pos \<notin> bitmap_abs m" "{..<pos} \<subseteq> bitmap_abs m"
    using scan_bitmap_spec [of m False] by (auto simp: bitmap_abs_def first_hit_def)
  then have "bitmap_abs m \<noteq> {..<bm_capacity m}" by blast
  then show ?thesis
    using Some pos bitmap_set_abs [OF assms, of pos] by (auto simp: bitmap_getfree_def)
qed

lemma bitmap_getbusy_spec:
  assumes "bitmap_inv m"
  shows "bitmap_inv (snd (bitmap_getbusy m)) \<and> bm_capacity (snd (bitmap_getbusy m)) = bm_capacity m
    \<and> (if bitmap_abs m = {} then bitmap_getbusy m = (-1, m)
       else \<exists>pos\<in>bitmap_abs m. fst (bitmap_getbusy m) = int pos
         \<and> {..<pos} \<inter> bitmap_abs m = {} \<and> bitmap_abs (snd (bitmap_getbusy m)) = bitmap_abs m - {pos})"
proof (cases "scan_bitmap True m")
  case None
  then have "bitmap_abs m = {}"
    using scan_bitmap_spec [of m True] by (auto simp: bitmap_abs_def first_hit_def)
  then show ?thesis using None assms by (simp add: bitmap_getbusy_def)
next
  case (Some pos)
  then have pos: "pos \<in> bitmap_abs m" "{..<pos} \<inter> bitmap_abs m = {}"
    using scan_bitmap_spec [of m True] by (auto simp: bitmap_abs_def first_hit_def)
  then show ?thesis
    using Some bitmap_clear_abs [OF assms, of pos] by (auto simp: bitmap_getbusy_def)
qed


section \<open>Slot allocation\<close>

text \<open>
  What a pool relies on: taking a slot yields a free one below the capacity, or fails exactly
  when every slot is busy, and releasing a busy slot frees it and no other.
\<close>

fun take_many :: "('m \<Rightarrow> int \<times> 'm) \<Rightarrow> nat \<Rightarrow> 'm \<Rightarrow> int list \<times> 'm" where
  "take_many tk 0 m = ([], m)"
| "take_many tk (Suc n) m =
     (let (p, m1) = tk m; (ps, m2) = take_many tk n m1 in (p # ps, m2))"

locale slot_alloc =
  fixes tk :: "'m \<Rightarrow> int \<times> 'm"
    and rel :: "'m \<Rightarrow> nat \<Rightarrow> 'm"
    and busy :: "'m \<Rightarrow> nat set"
    and cap :: "'m \<Rightarrow> nat"
    and inv :: "'m \<Rightarrow> bool"
  assumes tk_ok: "inv m \<Longrightarrow> inv (snd (tk m)) \<and> cap (snd (tk m)) = cap m
      \<and> (if busy m = {..<cap m} then tk m = (-1, m)
         else \<exists>pos<cap m. fst (tk m) = int pos \<and> pos \<notin> busy m
           \<and> {..<pos} \<subseteq> busy m \<and> busy (snd (tk m)) = insert pos (busy m))"
    and rel_ok: "inv m \<Longrightarrow> inv (rel m pos) \<and> cap (rel m pos) = cap m \<and> busy (rel m pos) = busy m - {pos}"
    and busy_cap: "busy m \<subseteq> {..<cap m}"
begin

lemma full_iff: "busy m = {..<cap m} \<longleftrightarrow> card (busy m) = cap m"
  by (metis busy_cap card_lessThan card_subset_eq finite_lessThan)

lemma tk_fails_iff: "inv m \<Longrightarrow> fst (tk m) = -1 \<longleftrightarrow> card (busy m) = cap m"
  using tk_ok [of m] full_iff [of m] by (auto split: if_splits)

lemma tk_rel:
  assumes "inv m" "fst (tk m) \<noteq> -1"
  shows "busy (rel (snd (tk m)) (nat (fst (tk m)))) = busy m"
proof -
  obtain pos where "pos \<notin> busy m" "fst (tk m) = int pos" "busy (snd (tk m)) = insert pos (busy m)"
    "inv (snd (tk m))" using tk_ok [OF assms(1)] assms(2) by (auto split: if_splits)
  then show ?thesis using rel_ok by auto
qed

lemma take_many_distinct:
  "inv m \<Longrightarrow> card (busy m) + n \<le> cap m \<Longrightarrow>
   \<exists>ps m'. take_many tk n m = (map int ps, m') \<and> inv m' \<and> cap m' = cap m \<and> length ps = n
     \<and> distinct ps \<and> set ps \<subseteq> {..<cap m} - busy m \<and> busy m' = busy m \<union> set ps"
proof (induction n arbitrary: m)
  case 0
  then show ?case by simp
next
  case (Suc n)
  then have "busy m \<noteq> {..<cap m}" using full_iff [of m] by simp
  then obtain pos where pos: "pos < cap m" "fst (tk m) = int pos" "pos \<notin> busy m"
    "busy (snd (tk m)) = insert pos (busy m)" and i: "inv (snd (tk m))" "cap (snd (tk m)) = cap m"
    using tk_ok [OF Suc.prems(1)] by (auto split: if_splits)
  have "finite (busy m)" using busy_cap finite_subset by blast
  then have "card (busy (snd (tk m))) + n \<le> cap (snd (tk m))" using pos i Suc.prems(2) by simp
  from Suc.IH [OF i(1) this] obtain ps m' where IH: "take_many tk n (snd (tk m)) = (map int ps, m')"
    "inv m'" "cap m' = cap m" "length ps = n" "distinct ps"
    "set ps \<subseteq> {..<cap m} - insert pos (busy m)" "busy m' = insert pos (busy m) \<union> set ps"
    using i pos by auto
  have "take_many tk (Suc n) m = (map int (pos # ps), m')"
    using IH(1) pos(2) by (simp add: case_prod_beta)
  then show ?case using IH pos by (intro exI [of _ "pos # ps"] exI [of _ m']) auto
qed

end

interpretation bm: slot_alloc bitmap_getfree "\<lambda>m pos. snd (bitmap_clear m pos)" bitmap_abs bm_capacity bitmap_inv
proof unfold_locales
  show "bitmap_abs m \<subseteq> {..<bm_capacity m}" for m by (auto simp: bitmap_abs_def)
qed (use bitmap_getfree_spec bitmap_clear_abs in auto)

section \<open>The static pool\<close>

record spool =
  sp_base :: nat     \<comment> \<open>the address of \<open>pool\<close>\<close>
  sp_S :: nat        \<comment> \<open>\<open>S\<close>, the size of an object\<close>
  sp_N :: nat        \<comment> \<open>\<open>N\<close>, the number of objects\<close>
  sp_bmap :: bitmap

definition item_words :: "spool \<Rightarrow> nat" where
  "item_words p = (sp_S p + 3) div 4"

definition item_bytes :: "spool \<Rightarrow> nat" where
  "item_bytes p = 4 * item_words p"

definition spool_new :: "nat \<Rightarrow> nat \<Rightarrow> nat \<Rightarrow> spool" where
  "spool_new base S N =
     \<lparr>sp_base = base, sp_S = S, sp_N = N, sp_bmap = snd (bitmap_init N (bitmap_new N) N)\<rparr>"

definition spool_alloc :: "spool \<Rightarrow> (nat \<times> spool) res" where
  "spool_alloc p =
     (let (pos, bm) = bitmap_getfree (sp_bmap p); p1 = p\<lparr>sp_bmap := bm\<rparr> in
      if pos < 0 then Inr (0, p1)
      else res_bind (wassert (nat pos < sp_N p)) (\<lambda>_.
        Inr (sp_base p + 4 * (nat pos * item_words p), p1)))"

definition spool_free :: "spool \<Rightarrow> nat \<Rightarrow> (bool \<times> spool) res" where
  "spool_free p a =
     (if a < sp_base p \<or> a \<ge> sp_base p + 4 * (item_words p * sp_N p) then Inr (False, p)
      else let pos = (a - sp_base p) div item_bytes p in
        res_bind (wassert (bitmap_get (sp_bmap p) pos = 1)) (\<lambda>_.
        Inr (True, p\<lparr>sp_bmap := snd (bitmap_clear (sp_bmap p) pos)\<rparr>)))"

definition spool_inv :: "spool \<Rightarrow> bool" where
  "spool_inv p \<longleftrightarrow> bitmap_inv (sp_bmap p) \<and> bm_capacity (sp_bmap p) = sp_N p \<and> sp_S p > 0 \<and> sp_base p > 0"

text \<open>The byte range of an object of the pool, and the objects now allocated.\<close>

definition spool_addr :: "spool \<Rightarrow> nat \<Rightarrow> nat" where
  "spool_addr p pos = sp_base p + item_bytes p * pos"

definition spool_live :: "spool \<Rightarrow> nat set" where
  "spool_live p = spool_addr p ` bitmap_abs (sp_bmap p)"

lemma spool_new_inv:
  assumes "S > 0" "base > 0"
  shows "spool_inv (spool_new base S N)" "spool_live (spool_new base S N) = {}"
  using assms
  by (auto simp: spool_inv_def spool_new_def bitmap_init_def bitmap_new_def bitmap_inv_def
      bitmap_abs_def bitmap_bit_def spool_live_def nth_Cons less_Suc_eq_le div_le_mono
      split: nat.splits)


lemma item_bytes_S: "sp_S p \<le> item_bytes p"
  by (auto simp: item_bytes_def item_words_def)

lemma item_bytes_pos: "sp_S p > 0 \<Longrightarrow> item_bytes p > 0"
  by (auto simp: item_bytes_def item_words_def)

lemma spool_addr_inj: "sp_S p > 0 \<Longrightarrow> inj (spool_addr p)"
  using item_bytes_pos [of p] by (auto simp: inj_def spool_addr_def)

lemma spool_addr_disjoint:
  assumes "i \<noteq> j"
  shows "spool_addr p i + sp_S p \<le> spool_addr p j \<or> spool_addr p j + sp_S p \<le> spool_addr p i"
proof -
  have *: "spool_addr p a + sp_S p \<le> spool_addr p b" if "a < b" for a b
  proof -
    have "item_bytes p * a + item_bytes p \<le> item_bytes p * b"
      by (metis Suc_leI add.commute mult_Suc_right mult_le_mono2 that)
    then show ?thesis using item_bytes_S [of p] by (simp add: spool_addr_def)
  qed
  show ?thesis using * [of i j] * [of j i] assms by linarith
qed

lemma spool_free_addr:
  assumes "spool_inv p" "pos < sp_N p"
  shows "spool_free p (spool_addr p pos) =
    (if pos \<in> bitmap_abs (sp_bmap p)
     then Inr (True, p\<lparr>sp_bmap := snd (bitmap_clear (sp_bmap p) pos)\<rparr>) else Inl Assert_failed)"
proof -
  have pos: "item_bytes p > 0" using assms by (simp add: spool_inv_def item_bytes_pos)
  have "item_bytes p * pos < item_bytes p * sp_N p" using pos assms by simp
  then have "spool_addr p pos < sp_base p + 4 * (item_words p * sp_N p)"
    by (simp add: spool_addr_def item_bytes_def mult.assoc)
  moreover have "(spool_addr p pos - sp_base p) div item_bytes p = pos"
    using pos by (simp add: spool_addr_def)
  ultimately show ?thesis
    using assms by (auto simp: spool_free_def bitmap_get_eq spool_inv_def spool_addr_def Let_def)
qed

text \<open>
  C39. An allocation from a well-formed static pool never fails an assertion. It returns the null
  pointer, changing nothing, exactly when all \<open>N\<close> objects are allocated; otherwise it returns
  an object that was free, lies inside the pool and shares no byte with an allocated object.
\<close>

theorem spool_alloc_fresh:
  assumes inv: "spool_inv p"
  shows "\<exists>a p'. spool_alloc p = Inr (a, p') \<and> spool_inv p'
    \<and> (if card (spool_live p) = sp_N p then a = 0 \<and> spool_live p' = spool_live p
       else a \<notin> spool_live p \<and> spool_live p' = insert a (spool_live p)
         \<and> sp_base p \<le> a \<and> a + sp_S p \<le> sp_base p + item_bytes p * sp_N p
         \<and> (\<forall>b\<in>spool_live p. a + sp_S p \<le> b \<or> b + sp_S p \<le> a))"
proof -
  let ?m = "sp_bmap p"
  have m: "bitmap_inv ?m" "bm_capacity ?m = sp_N p" "sp_S p > 0" using inv by (auto simp: spool_inv_def)
  have card: "card (spool_live p) = card (bitmap_abs ?m)"
    using spool_addr_inj [OF m(3)] by (simp add: spool_live_def card_image inj_on_subset)
  note spec = bitmap_getfree_spec [OF m(1)]
  show ?thesis
  proof (cases "card (spool_live p) = sp_N p")
    case True
    then have "bitmap_getfree ?m = (-1, ?m)" using spec m card bm.full_iff [of ?m] by simp
    then show ?thesis using True inv by (simp add: spool_alloc_def spool_inv_def)
  next
    case False
    then obtain pos where pos: "pos < sp_N p" "fst (bitmap_getfree ?m) = int pos" "pos \<notin> bitmap_abs ?m"
      "bitmap_abs (snd (bitmap_getfree ?m)) = insert pos (bitmap_abs ?m)"
      using spec m card bm.full_iff [of ?m] by (auto split: if_splits)
    let ?p' = "p\<lparr>sp_bmap := snd (bitmap_getfree ?m)\<rparr>"
    have alloc: "spool_alloc p = Inr (spool_addr p pos, ?p')"
      using pos by (simp add: spool_alloc_def case_prod_beta spool_addr_def item_bytes_def mult.commute)
    have same: "spool_addr ?p' = spool_addr p"
      by (simp add: fun_eq_iff spool_addr_def item_bytes_def item_words_def)
    have "item_bytes p * Suc pos \<le> item_bytes p * sp_N p" using pos(1) by (simp add: Suc_leI del: mult_Suc_right)
    then have range: "spool_addr p pos + sp_S p \<le> sp_base p + item_bytes p * sp_N p"
      using item_bytes_S [of p] by (simp add: spool_addr_def)
    have apart: "\<forall>b\<in>spool_live p. spool_addr p pos + sp_S p \<le> b \<or> b + sp_S p \<le> spool_addr p pos"
      using spool_addr_disjoint [of pos _ p] pos(3) by (auto simp: spool_live_def) (metis order.refl)
    have fresh: "spool_addr p pos \<notin> spool_live p"
      using spool_addr_inj [OF m(3)] pos(3) by (auto simp: spool_live_def inj_eq)
    have "spool_live ?p' = insert (spool_addr p pos) (spool_live p)"
      using pos(4) same by (simp add: spool_live_def)
    moreover have "spool_inv ?p'" using inv spec by (simp add: spool_inv_def)
    ultimately show ?thesis
      using alloc False range apart fresh by (simp add: spool_addr_def)
  qed
qed

theorem spool_alloc_fresh_witness:
  "let p = spool_new 4096 6 3 in \<exists>a p'. spool_alloc p = Inr (a, p') \<and> spool_inv p'
    \<and> (if card (spool_live p) = sp_N p then a = 0 \<and> spool_live p' = spool_live p
       else a \<notin> spool_live p \<and> spool_live p' = insert a (spool_live p)
         \<and> sp_base p \<le> a \<and> a + sp_S p \<le> sp_base p + item_bytes p * sp_N p
         \<and> (\<forall>b\<in>spool_live p. a + sp_S p \<le> b \<or> b + sp_S p \<le> a))"
  unfolding Let_def by (rule spool_alloc_fresh) (simp add: spool_new_inv)

text \<open>
  Freeing an allocated object succeeds and frees exactly that object; freeing it again fails
  the assertion instead of corrupting the map; a pointer outside the pool is refused.
\<close>

theorem spool_free_exact:
  assumes inv: "spool_inv p" and live: "a \<in> spool_live p"
    and out: "x < sp_base p \<or> x \<ge> sp_base p + item_bytes p * sp_N p"
  shows "\<exists>p'. spool_free p a = Inr (True, p') \<and> spool_inv p' \<and> spool_live p' = spool_live p - {a}
    \<and> spool_free p' a = Inl Assert_failed \<and> spool_free p x = Inr (False, p)"
proof -
  obtain pos where pos: "pos \<in> bitmap_abs (sp_bmap p)" "a = spool_addr p pos"
    using live by (auto simp: spool_live_def)
  have m: "bitmap_inv (sp_bmap p)" "bm_capacity (sp_bmap p) = sp_N p" "sp_S p > 0"
    using inv by (auto simp: spool_inv_def)
  have lt: "pos < sp_N p" using pos m by (auto simp: bitmap_abs_def)
  let ?p' = "p\<lparr>sp_bmap := snd (bitmap_clear (sp_bmap p) pos)\<rparr>"
  have same: "spool_addr ?p' = spool_addr p"
    by (simp add: fun_eq_iff spool_addr_def item_bytes_def item_words_def)
  have clr: "bitmap_abs (sp_bmap ?p') = bitmap_abs (sp_bmap p) - {pos}"
    using bitmap_clear_abs [OF m(1), of pos] by simp
  have inv': "spool_inv ?p'" using inv bitmap_clear_abs [OF m(1), of pos] by (simp add: spool_inv_def)
  have "spool_live ?p' = spool_live p - {a}"
    unfolding spool_live_def clr same pos(2) using spool_addr_inj [OF m(3)]
    by (simp add: image_set_diff)
  moreover have "spool_free ?p' a = Inl Assert_failed"
    using spool_free_addr [OF inv', of pos] lt clr same pos(2) by simp
  moreover have "spool_free p x = Inr (False, p)"
    using out by (auto simp: spool_free_def item_bytes_def mult.assoc)
  ultimately show ?thesis
    using spool_free_addr [OF inv lt] pos inv' by simp
qed


theorem spool_free_exact_witness:
  "let p = \<lparr>sp_base = 4096, sp_S = 6, sp_N = 3, sp_bmap = \<lparr>bm_words = [1], bm_capacity = 3, bm_count = 1\<rparr>\<rparr>
   in \<exists>p'. spool_free p 4096 = Inr (True, p') \<and> spool_inv p' \<and> spool_live p' = spool_live p - {4096}
    \<and> spool_free p' 4096 = Inl Assert_failed \<and> spool_free p 12 = Inr (False, p)"
proof -
  let ?m = "\<lparr>bm_words = [1], bm_capacity = 3, bm_count = 1\<rparr>"
  have "bitmap_abs ?m = {0}"
    by (auto simp: bitmap_abs_def bitmap_bit_def bit_1_iff)
  then show ?thesis
    unfolding Let_def
    by (intro spool_free_exact) (simp_all add: spool_inv_def bitmap_inv_def spool_live_def spool_addr_def)
qed

text \<open>
  \<open>getfree\<close> returns the lowest free position and marks it busy, or \<open>-1\<close> exactly when every
  position below the capacity is busy; \<open>_count\<close> stays the number of busy positions.
\<close>

theorem bitmap_getfree_lowest:
  assumes "bitmap_inv m"
  shows "bitmap_inv (snd (bitmap_getfree m))
    \<and> (if bitmap_abs m = {..<bm_capacity m} then bitmap_getfree m = (-1, m)
       else \<exists>pos<bm_capacity m. fst (bitmap_getfree m) = int pos \<and> pos \<notin> bitmap_abs m
         \<and> {..<pos} \<subseteq> bitmap_abs m \<and> bitmap_abs (snd (bitmap_getfree m)) = insert pos (bitmap_abs m))"
  using bitmap_getfree_spec [OF assms] by blast

theorem bitmap_getfree_lowest_witness:
  "let m = snd (bitmap_init 40 (bitmap_new 40) 40) in bitmap_inv (snd (bitmap_getfree m))
    \<and> (if bitmap_abs m = {..<bm_capacity m} then bitmap_getfree m = (-1, m)
       else \<exists>pos<bm_capacity m. fst (bitmap_getfree m) = int pos \<and> pos \<notin> bitmap_abs m
         \<and> {..<pos} \<subseteq> bitmap_abs m \<and> bitmap_abs (snd (bitmap_getfree m)) = insert pos (bitmap_abs m))"
  unfolding Let_def using spool_new_inv [of 1 1 40]
  by (intro bitmap_getfree_lowest) (simp add: spool_inv_def spool_new_def)

end
