(* ===== verification/Klist.thy ===== *)
theory Klist
  imports Prelude
begin

text \<open>
  The doubly linked list \<open>list_t\<close> of \<open>lib/containers/list.h\<close>, on which the kernel's thread
  queues rest. Items live in an explicit store indexed by address; \<open>Xlist\<close> is the pointer
  structure, and a \<open>list_t\<close> holds two of them, the busy items and the free ones. A segment
  predicate says which addresses a pointer structure links, and every operation is shown to
  implement the corresponding operation on the sequence of values. The consistency checks that the debug
  build runs inside \<open>add\<close> and \<open>remove\<close> are modelled apart from them, as \<open>do_check\<close>: they
  change nothing, and they pass on every well-formed list.
\<close>

section \<open>Items and Xlist\<close>

record 'a item =
  it_prev :: "nat option"
  it_next :: "nat option"
  it_data :: 'a

type_synonym 'a store = "nat \<Rightarrow> 'a item"

record xlist =
  xl_begin :: "nat option"
  xl_last :: "nat option"
  xl_sz :: nat

datatype where_t = Next | Prev

definition xlist_new :: xlist where
  "xlist_new = \<lparr>xl_begin = None, xl_last = None, xl_sz = 0\<rparr>"

definition set_prev :: "'a store \<Rightarrow> nat \<Rightarrow> nat option \<Rightarrow> 'a store" where
  "set_prev h a p = h(a := (h a)\<lparr>it_prev := p\<rparr>)"

definition set_next :: "'a store \<Rightarrow> nat \<Rightarrow> nat option \<Rightarrow> 'a store" where
  "set_next h a n = h(a := (h a)\<lparr>it_next := n\<rparr>)"

text \<open>The guarded forms: \<open>if (item->next) item->next->prev = ...\<close> and its mirror image.\<close>

definition link_prev :: "'a store \<Rightarrow> nat option \<Rightarrow> nat option \<Rightarrow> 'a store" where
  "link_prev h a p = (case a of Some n \<Rightarrow> set_prev h n p | None \<Rightarrow> h)"

definition link_next :: "'a store \<Rightarrow> nat option \<Rightarrow> nat option \<Rightarrow> 'a store" where
  "link_next h a n = (case a of Some p \<Rightarrow> set_next h p n | None \<Rightarrow> h)"

definition xl_remove :: "'a store \<Rightarrow> xlist \<Rightarrow> nat \<Rightarrow> ('a store \<times> xlist) res" where
  "xl_remove h l item =
     res_bind (wassert (xl_sz l \<noteq> 0)) (\<lambda>_.
     let h1 = link_prev h (it_next (h item)) (it_prev (h item));
         h2 = link_next h1 (it_prev (h1 item)) (it_next (h1 item));
         b = (if xl_begin l = Some item then it_next (h2 item) else xl_begin l);
         e = (if xl_last l = Some item then it_prev (h2 item) else xl_last l)
     in Inr (h2, \<lparr>xl_begin = b, xl_last = e, xl_sz = xl_sz l - 1\<rparr>))"

text \<open>
  \<open>Xlist::add\<close>: on an empty list \<open>pos\<close> is not read; otherwise a null \<open>pos\<close> is dereferenced.
\<close>

definition xl_add :: "'a store \<Rightarrow> xlist \<Rightarrow> nat option \<Rightarrow> where_t \<Rightarrow> nat \<Rightarrow> ('a store \<times> xlist) res" where
  "xl_add h l pos w item =
     (if xl_sz l = 0 then
        Inr (set_next (set_prev h item None) item None,
             \<lparr>xl_begin = Some item, xl_last = Some item, xl_sz = 1\<rparr>)
      else case pos of
        None \<Rightarrow> Inl Bad_access
      | Some p \<Rightarrow>
        (case w of
           Next \<Rightarrow>
             let h1 = link_prev h (it_next (h p)) (Some item);
                 h2 = set_next h1 item (it_next (h1 p));
                 h3 = set_next h2 p (Some item);
                 h4 = set_prev h3 item (Some p)
             in Inr (h4, l\<lparr>xl_last := (if xl_last l = Some p then Some item else xl_last l),
                           xl_sz := xl_sz l + 1\<rparr>)
         | Prev \<Rightarrow>
             let h1 = link_next h (it_prev (h p)) (Some item);
                 h2 = set_prev h1 item (it_prev (h1 p));
                 h3 = set_prev h2 p (Some item);
                 h4 = set_next h3 item (Some p)
             in Inr (h4, l\<lparr>xl_begin := (if xl_begin l = Some p then Some item else xl_begin l),
                           xl_sz := xl_sz l + 1\<rparr>)))"

text \<open>
  \<open>Xlist::find_pos\<close>: the first item whose data is not below \<open>val\<close>. The walk has no bound of its
  own, so not returning is \<open>None\<close>; \<open>lt\<close> is the element type's \<open>operator <\<close>.
\<close>

partial_function (option) find_pos_from ::
    "('a \<Rightarrow> 'a \<Rightarrow> bool) \<Rightarrow> 'a store \<Rightarrow> 'a \<Rightarrow> nat option \<Rightarrow> nat option option" where
  "find_pos_from lt h val item =
     (case item of
        None \<Rightarrow> Some None
      | Some a \<Rightarrow> if \<not> lt (it_data (h a)) val then Some (Some a)
                 else find_pos_from lt h val (it_next (h a)))"

definition find_pos :: "('a \<Rightarrow> 'a \<Rightarrow> bool) \<Rightarrow> 'a store \<Rightarrow> xlist \<Rightarrow> 'a \<Rightarrow> nat option option" where
  "find_pos lt h l val = (if xl_sz l = 0 then Some None else find_pos_from lt h val (xl_begin l))"

text \<open>
  \<open>Xlist::do_check\<close>, run before and after every operation of the debug build: the walk in one
  direction returns the number of items, the last item and whether \<open>pos\<close> was met.
\<close>

partial_function (option) check_walk ::
    "(nat \<Rightarrow> nat option) \<Rightarrow> nat option \<Rightarrow> nat option \<Rightarrow> nat \<Rightarrow> nat option \<Rightarrow> bool \<Rightarrow>
     (nat \<times> nat option \<times> bool) option" where
  "check_walk step pos item cnt last_item found =
     (case item of
        None \<Rightarrow> Some (cnt, last_item, found)
      | Some a \<Rightarrow> check_walk step pos (step a) (cnt + 1) (Some a) (found \<or> pos = Some a))"

definition do_check :: "'a store \<Rightarrow> xlist \<Rightarrow> nat option \<Rightarrow> bool option" where
  "do_check h l pos =
     (case check_walk (\<lambda>a. it_next (h a)) pos (xl_begin l) 0 None False of
        None \<Rightarrow> None
      | Some (cnt, lst, found) \<Rightarrow>
        (case check_walk (\<lambda>a. it_prev (h a)) pos (xl_last l) 0 None False of
           None \<Rightarrow> None
         | Some (cnt2, fst2, found2) \<Rightarrow>
             Some ((xl_sz l \<noteq> 0 \<or> (xl_begin l = None \<and> xl_last l = None))
               \<and> (xl_sz l \<le> 1 \<or> xl_begin l \<noteq> xl_last l) \<and> (xl_sz l > 1 \<or> xl_begin l = xl_last l)
               \<and> xl_last l = lst \<and> xl_sz l = cnt \<and> (found \<or> (xl_sz l = 0 \<and> pos = None))
               \<and> xl_begin l = fst2 \<and> xl_sz l = cnt2 \<and> (found2 \<or> (xl_sz l = 0 \<and> pos = None)))))"

section \<open>Linked segments\<close>

text \<open>
  \<open>dseg h p xs q\<close>: the addresses \<open>xs\<close> are linked in this order, the first one's \<open>prev\<close> is \<open>p\<close>
  and the last one's \<open>next\<close> is \<open>q\<close>.
\<close>

definition ohd :: "'a list \<Rightarrow> 'a option \<Rightarrow> 'a option" where
  "ohd xs q = (case xs of [] \<Rightarrow> q | x # _ \<Rightarrow> Some x)"

definition olast :: "'a option \<Rightarrow> 'a list \<Rightarrow> 'a option" where
  "olast p xs = (if xs = [] then p else Some (last xs))"

fun dseg :: "'a store \<Rightarrow> nat option \<Rightarrow> nat list \<Rightarrow> nat option \<Rightarrow> bool" where
  "dseg h p [] q = True"
| "dseg h p (x # xs) q = (it_prev (h x) = p \<and> it_next (h x) = ohd xs q \<and> dseg h (Some x) xs q)"

definition xl_repr :: "'a store \<Rightarrow> xlist \<Rightarrow> nat list \<Rightarrow> bool" where
  "xl_repr h l ps \<longleftrightarrow> distinct ps \<and> dseg h None ps None
     \<and> xl_begin l = ohd ps None \<and> xl_last l = olast None ps \<and> xl_sz l = length ps"

lemma ohd_simps [simp]: "ohd [] q = q" "ohd (x # xs) q = Some x"
  by (simp_all add: ohd_def)

lemma ohd_append [simp]: "ohd (xs @ ys) q = ohd xs (ohd ys q)"
  by (cases xs) auto

lemma olast_simps [simp]: "olast p [] = p" "olast p (x # xs) = olast (Some x) xs"
  by (simp_all add: olast_def)

lemma olast_append [simp]: "olast p (xs @ ys) = olast (olast p xs) ys"
  by (auto simp: olast_def)

lemma dseg_append: "dseg h p (xs @ ys) q \<longleftrightarrow> dseg h p xs (ohd ys q) \<and> dseg h (olast p xs) ys q"
  by (induction xs arbitrary: p) auto

lemma dseg_frame: "\<forall>x\<in>set xs. h' x = h x \<Longrightarrow> dseg h' p xs q = dseg h p xs q"
  by (induction xs arbitrary: p) auto

lemma dseg_frameI: "dseg h p xs q \<Longrightarrow> (\<And>a. a \<in> set xs \<Longrightarrow> h' a = h a) \<Longrightarrow> dseg h' p xs q"
  using dseg_frame [of xs h' h p q] by blast

lemma xl_repr_frame: "\<forall>x\<in>set ps. h' x = h x \<Longrightarrow> xl_repr h l ps \<Longrightarrow> xl_repr h' l ps"
  unfolding xl_repr_def using dseg_frame by blast

lemma olast_in: "olast None xs = Some a \<Longrightarrow> a \<in> set xs"
  by (auto simp: olast_def split: if_splits)

lemma ohd_in: "ohd xs None = Some a \<Longrightarrow> a \<in> set xs"
  by (cases xs) auto


lemma link_frame [simp]:
  "a \<noteq> Some x \<Longrightarrow> link_prev h a p x = h x"
  "a \<noteq> Some x \<Longrightarrow> link_next h a p x = h x"
  by (auto simp: link_prev_def link_next_def set_prev_def set_next_def split: option.splits)

lemma set_frame [simp]:
  "a \<noteq> x \<Longrightarrow> set_prev h a p x = h x"
  "a \<noteq> x \<Longrightarrow> set_next h a p x = h x"
  by (auto simp: set_prev_def set_next_def)

lemma set_fields [simp]:
  "it_prev (set_prev h a p a) = p" "it_next (set_prev h a p a) = it_next (h a)"
  "it_next (set_next h a n a) = n" "it_prev (set_next h a n a) = it_prev (h a)"
  "it_data (set_prev h a p x) = it_data (h x)" "it_data (set_next h a n x) = it_data (h x)"
  by (auto simp: set_prev_def set_next_def)

lemma link_data [simp]:
  "it_data (link_prev h a p x) = it_data (h x)" "it_data (link_next h a p x) = it_data (h x)"
  by (auto simp: link_prev_def link_next_def split: option.splits)

lemma dseg_link_prev:
  "distinct ys \<Longrightarrow> dseg h p ys q \<Longrightarrow> dseg (link_prev h (ohd ys None) p') p' ys q"
proof (cases ys)
  case (Cons y zs)
  assume *: "distinct ys" "dseg h p ys q"
  have "dseg (set_prev h y p') (Some y) zs q = dseg h (Some y) zs q"
    using * Cons by (intro dseg_frame) (auto simp: set_prev_def)
  then show ?thesis using * Cons by (simp add: link_prev_def)
qed simp

lemma dseg_link_next:
  "distinct xs \<Longrightarrow> dseg h p xs q \<Longrightarrow> dseg (link_next h (olast None xs) q') p xs q'"
proof (cases xs rule: rev_cases)
  case (snoc zs y)
  assume *: "distinct xs" "dseg h p xs q"
  have "dseg (set_next h y q') p zs (Some y) = dseg h p zs (Some y)"
    using * snoc by (intro dseg_frame) (auto simp: set_next_def)
  then show ?thesis using * snoc by (simp add: link_next_def dseg_append)
qed simp

text \<open>What an operation on one pointer structure leaves alone: other items, and all data.\<close>

definition store_keeps :: "'a store \<Rightarrow> 'a store \<Rightarrow> nat set \<Rightarrow> bool" where
  "store_keeps h h' A \<longleftrightarrow> (\<forall>x. x \<notin> A \<longrightarrow> h' x = h x) \<and> (\<forall>x. it_data (h' x) = it_data (h x))"

lemma xl_remove_repr:
  assumes "xl_repr h l (as @ x # bs)"
  shows "\<exists>h' l'. xl_remove h l x = Inr (h', l') \<and> xl_repr h' l' (as @ bs)
    \<and> store_keeps h h' (set as \<union> set bs)"
proof -
  let ?h1 = "link_prev h (ohd bs None) (olast None as)"
  let ?h2 = "link_next ?h1 (olast None as) (ohd bs None)"
  have d: "distinct as" "distinct bs" "x \<notin> set as" "x \<notin> set bs" "set as \<inter> set bs = {}"
    and segs: "dseg h None as (Some x)" "dseg h (Some x) bs None"
    and x: "it_prev (h x) = olast None as" "it_next (h x) = ohd bs None"
    and l: "xl_begin l = ohd as (Some x)" "xl_last l = olast (Some x) bs" "xl_sz l = length as + length bs + 1"
    using assms by (auto simp: xl_repr_def dseg_append)
  have nb: "ohd bs None \<noteq> Some a" if "a \<notin> set bs" for a using that by (auto dest: ohd_in)
  have na: "olast None as \<noteq> Some a" if "a \<notin> set as" for a using that by (auto dest: olast_in)
  have nab: "\<forall>a\<in>set bs. olast None as \<noteq> Some a" "\<forall>a\<in>set as. ohd bs None \<noteq> Some a"
    using d by (auto dest: ohd_in olast_in)
  have hx: "?h1 x = h x" "?h2 x = h x" using d nb na by simp_all
  have "dseg ?h1 (olast None as) bs None" using d segs by (simp add: dseg_link_prev)
  then have b: "dseg ?h2 (olast None as) bs None"
    using nab by (subst dseg_frame) auto
  have "dseg ?h1 None as (Some x)" using nab segs by (subst dseg_frame) auto
  then have a: "dseg ?h2 None as (ohd bs None)" using d by (simp add: dseg_link_next)
  have "xl_remove h l x = Inr (?h2,
      \<lparr>xl_begin = (if xl_begin l = Some x then ohd bs None else xl_begin l),
       xl_last = (if xl_last l = Some x then olast None as else xl_last l), xl_sz = xl_sz l - 1\<rparr>)"
    using l x hx by (simp add: xl_remove_def Let_def)
  moreover have "ohd as (Some x) = Some x \<longleftrightarrow> as = []" using d by (cases as) auto
  moreover have "olast (Some x) bs = Some x \<longleftrightarrow> bs = []" using d by (cases bs rule: rev_cases) auto
  moreover have "olast (olast None as) bs = (if bs = [] then olast None as else olast (Some x) bs)"
    by (auto simp: olast_def)
  moreover have "ohd as (ohd bs None) = (if as = [] then ohd bs None else ohd as (Some x))"
    by (cases as) auto
  moreover have "store_keeps h ?h2 (set as \<union> set bs)" using nb na by (auto simp: store_keeps_def)
  ultimately show ?thesis
    using a b d l by (auto simp: xl_repr_def dseg_append)
qed

lemma xl_add_empty:
  assumes "xl_repr h l []"
  shows "\<exists>h' l'. xl_add h l pos w x = Inr (h', l') \<and> xl_repr h' l' [x] \<and> store_keeps h h' {x}"
  using assms by (auto simp: xl_add_def xl_repr_def store_keeps_def)

lemma xl_add_next:
  assumes "xl_repr h l (as @ p # bs)" "x \<notin> set (as @ p # bs)"
  shows "\<exists>h' l'. xl_add h l (Some p) Next x = Inr (h', l') \<and> xl_repr h' l' (as @ p # x # bs)
    \<and> store_keeps h h' (insert x (set (as @ p # bs)))"
proof -
  let ?h1 = "link_prev h (ohd bs None) (Some x)"
  let ?h2 = "set_next ?h1 x (it_next (?h1 p))"
  let ?h3 = "set_next ?h2 p (Some x)"
  let ?h4 = "set_prev ?h3 x (Some p)"
  have d: "distinct as" "distinct bs" "p \<notin> set as" "p \<notin> set bs" "set as \<inter> set bs = {}" "x \<noteq> p"
      "x \<notin> set as" "x \<notin> set bs"
    and segs: "dseg h None as (Some p)" "dseg h (Some p) bs None"
    and p: "it_prev (h p) = olast None as" "it_next (h p) = ohd bs None"
    and l: "xl_begin l = ohd as (Some p)" "xl_last l = olast (Some p) bs" "xl_sz l = length as + length bs + 1"
    using assms by (auto simp: xl_repr_def dseg_append)
  have nb: "ohd bs None \<noteq> Some a" if "a \<notin> set bs" for a using that by (auto dest: ohd_in)
  have nab: "\<forall>a\<in>set as. ohd bs None \<noteq> Some a" using d by (auto dest: ohd_in)
  have out: "?h4 a = ?h1 a" if "a \<noteq> x" "a \<noteq> p" for a using that by simp
  have hp: "?h1 p = h p" using d nb by simp
  have "dseg ?h1 (Some x) bs None" using d segs by (simp add: dseg_link_prev)
  then have b: "dseg ?h4 (Some x) bs None" by (rule dseg_frameI) (metis d(4,8) out)
  from segs(1) have a: "dseg ?h4 None as (Some p)" by (rule dseg_frameI) (metis d(3,7) out nab link_frame(1))
  have "xl_add h l (Some p) Next x = Inr (?h4,
      l\<lparr>xl_last := (if xl_last l = Some p then Some x else xl_last l), xl_sz := xl_sz l + 1\<rparr>)"
    using l p by (simp add: xl_add_def Let_def)
  moreover have "it_next (?h4 p) = Some x" "it_prev (?h4 p) = olast None as"
    "it_prev (?h4 x) = Some p" "it_next (?h4 x) = ohd bs None"
    using d p hp by simp_all
  moreover have "olast (Some p) bs = Some p \<longleftrightarrow> bs = []" using d by (cases bs rule: rev_cases) auto
  moreover have "olast (Some x) bs = (if bs = [] then Some x else olast (Some p) bs)"
    by (auto simp: olast_def)
  moreover have "store_keeps h ?h4 (insert x (set (as @ p # bs)))" using nb by (auto simp: store_keeps_def)
  ultimately show ?thesis
    using a b d l by (auto simp: xl_repr_def dseg_append)
qed

lemma xl_add_prev:
  assumes "xl_repr h l (as @ p # bs)" "x \<notin> set (as @ p # bs)"
  shows "\<exists>h' l'. xl_add h l (Some p) Prev x = Inr (h', l') \<and> xl_repr h' l' (as @ x # p # bs)
    \<and> store_keeps h h' (insert x (set (as @ p # bs)))"
proof -
  let ?h1 = "link_next h (olast None as) (Some x)"
  let ?h2 = "set_prev ?h1 x (it_prev (?h1 p))"
  let ?h3 = "set_prev ?h2 p (Some x)"
  let ?h4 = "set_next ?h3 x (Some p)"
  have d: "distinct as" "distinct bs" "p \<notin> set as" "p \<notin> set bs" "set as \<inter> set bs = {}" "x \<noteq> p"
      "x \<notin> set as" "x \<notin> set bs"
    and segs: "dseg h None as (Some p)" "dseg h (Some p) bs None"
    and p: "it_prev (h p) = olast None as" "it_next (h p) = ohd bs None"
    and l: "xl_begin l = ohd as (Some p)" "xl_last l = olast (Some p) bs" "xl_sz l = length as + length bs + 1"
    using assms by (auto simp: xl_repr_def dseg_append)
  have na: "olast None as \<noteq> Some a" if "a \<notin> set as" for a using that by (auto dest: olast_in)
  have nab: "\<forall>a\<in>set bs. olast None as \<noteq> Some a" using d by (auto dest: olast_in)
  have out: "?h4 a = ?h1 a" if "a \<noteq> x" "a \<noteq> p" for a using that by simp
  have hp: "?h1 p = h p" using d na by simp
  have "dseg ?h1 None as (Some x)" using d segs by (simp add: dseg_link_next)
  then have a: "dseg ?h4 None as (Some x)" by (rule dseg_frameI) (metis d(3,7) out)
  from segs(2) have b: "dseg ?h4 (Some p) bs None" by (rule dseg_frameI) (metis d(4,8) out nab link_frame(2))
  have "xl_add h l (Some p) Prev x = Inr (?h4,
      l\<lparr>xl_begin := (if xl_begin l = Some p then Some x else xl_begin l), xl_sz := xl_sz l + 1\<rparr>)"
    using l p by (simp add: xl_add_def Let_def)
  moreover have "it_next (?h4 p) = ohd bs None" "it_prev (?h4 p) = Some x"
    "it_prev (?h4 x) = olast None as" "it_next (?h4 x) = Some p"
    using d p hp by simp_all
  moreover have "ohd as (Some p) = Some p \<longleftrightarrow> as = []" using d by (cases as) auto
  moreover have "ohd as (Some x) = (if as = [] then Some x else ohd as (Some p))"
    by (cases as) auto
  moreover have "store_keeps h ?h4 (insert x (set (as @ p # bs)))" using na by (auto simp: store_keeps_def)
  ultimately show ?thesis
    using a b d l by (auto simp: xl_repr_def dseg_append)
qed


section \<open>The list\<close>

text \<open>
  \<open>kl_arena\<close> stands for \<open>malloc_func\<close>: \<open>None\<close> is the null pointer, and \<open>Some rs\<close> gives the
  replies \<open>(address, size)\<close> of its next calls, an exhausted list being a null reply.
  \<open>kl_isz\<close> is \<open>sizeof(Item)\<close>.
\<close>

record 'a klist =
  kl_heap :: "'a store"
  kl_busy :: xlist
  kl_free :: xlist
  kl_arena :: "(nat \<times> nat) list option"
  kl_isz :: nat

text \<open>
  The loop of \<open>add_mem\<close> runs \<open>sz / sizeof(Item)\<close> times, one item per round.
\<close>

fun kl_add_items :: "'a klist \<Rightarrow> nat \<Rightarrow> nat \<Rightarrow> 'a klist res" where
  "kl_add_items kl addr 0 = Inr kl"
| "kl_add_items kl addr (Suc n) =
     res_bind (xl_add (kl_heap kl) (kl_free kl) (xl_last (kl_free kl)) Next addr) (\<lambda>(h, f).
     kl_add_items (kl\<lparr>kl_heap := h, kl_free := f\<rparr>) (addr + kl_isz kl) n)"

definition kl_add_mem :: "'a klist \<Rightarrow> nat \<Rightarrow> nat \<Rightarrow> 'a klist res" where
  "kl_add_mem kl base sz = kl_add_items kl base (sz div kl_isz kl)"

definition kl_init :: "'a store \<Rightarrow> nat \<Rightarrow> nat \<Rightarrow> nat \<Rightarrow> 'a klist res" where
  "kl_init h isz local_buf n =
     kl_add_mem \<lparr>kl_heap = h, kl_busy = xlist_new, kl_free = xlist_new, kl_arena = None, kl_isz = isz\<rparr>
       local_buf (isz * n)"

definition kl_check_for_alloc :: "'a klist \<Rightarrow> 'a klist res" where
  "kl_check_for_alloc kl =
     (if xl_sz (kl_free kl) = 0 then
        (case kl_arena kl of
           Some ((mem, sz) # rs) \<Rightarrow> kl_add_mem (kl\<lparr>kl_arena := Some rs\<rparr>) mem sz
         | _ \<Rightarrow> Inl Panic)
      else Inr kl)"

text \<open>
  \<open>Item* item = free.begin; free.remove(item);\<close> after \<open>check_for_alloc\<close>. An empty free list
  (an allocator reply smaller than one item) fails \<open>wassert(sz)\<close> of \<open>remove\<close>.
\<close>

definition kl_take_free :: "'a klist \<Rightarrow> (nat \<times> 'a klist) res" where
  "kl_take_free kl =
     res_bind (kl_check_for_alloc kl) (\<lambda>kl1.
     case xl_begin (kl_free kl1) of
       None \<Rightarrow> Inl Assert_failed
     | Some item \<Rightarrow> res_bind (xl_remove (kl_heap kl1) (kl_free kl1) item) (\<lambda>(h, f).
         Inr (item, kl1\<lparr>kl_heap := h, kl_free := f\<rparr>)))"

definition kl_set_data :: "'a klist \<Rightarrow> nat \<Rightarrow> 'a \<Rightarrow> 'a klist" where
  "kl_set_data kl item v = kl\<lparr>kl_heap := (kl_heap kl)(item := (kl_heap kl item)\<lparr>it_data := v\<rparr>)\<rparr>"

definition kl_link_busy :: "'a klist \<Rightarrow> nat option \<Rightarrow> where_t \<Rightarrow> nat \<Rightarrow> 'a klist res" where
  "kl_link_busy kl pos w item =
     res_bind (xl_add (kl_heap kl) (kl_busy kl) pos w item) (\<lambda>(h, b).
     Inr (kl\<lparr>kl_heap := h, kl_busy := b\<rparr>))"

definition kl_push_back :: "'a klist \<Rightarrow> 'a \<Rightarrow> 'a klist res" where
  "kl_push_back kl val =
     res_bind (kl_take_free kl) (\<lambda>(item, kl1).
     res_bind (kl_link_busy kl1 (xl_last (kl_busy kl1)) Next item) (\<lambda>kl2.
     Inr (kl_set_data kl2 item val)))"

definition kl_insert_before :: "'a klist \<Rightarrow> nat option \<Rightarrow> 'a \<Rightarrow> (nat \<times> 'a klist) res" where
  "kl_insert_before kl pos val =
     res_bind (kl_take_free kl) (\<lambda>(item, kl1).
     res_bind (kl_link_busy kl1 pos Prev item) (\<lambda>kl2. Inr (item, kl_set_data kl2 item val)))"

definition kl_insert_after :: "'a klist \<Rightarrow> nat option \<Rightarrow> 'a \<Rightarrow> (nat \<times> 'a klist) res" where
  "kl_insert_after kl pos val =
     res_bind (kl_take_free kl) (\<lambda>(item, kl1).
     res_bind (kl_link_busy kl1 pos Next item) (\<lambda>kl2. Inr (item, kl_set_data kl2 item val)))"

text \<open>
  \<open>insert_sort\<close> looks the position up before it takes a free item and writes the data before
  it links; \<open>None\<close> is a walk that does not return.
\<close>

definition kl_insert_sort :: "('a \<Rightarrow> 'a \<Rightarrow> bool) \<Rightarrow> 'a klist \<Rightarrow> 'a \<Rightarrow> (nat \<times> 'a klist) res option" where
  "kl_insert_sort lt kl val =
     (case kl_check_for_alloc kl of
        Inl e \<Rightarrow> Some (Inl e)
      | Inr kl0 \<Rightarrow>
        (case find_pos lt (kl_heap kl0) (kl_busy kl0) val of
           None \<Rightarrow> None
         | Some pos_item \<Rightarrow> Some (
             res_bind (kl_take_free kl0) (\<lambda>(item, kl1).
             let kl2 = kl_set_data kl1 item val in
             res_bind (case pos_item of
                 Some p \<Rightarrow> kl_link_busy kl2 (Some p) Prev item
               | None \<Rightarrow> kl_link_busy kl2 (xl_last (kl_busy kl2)) Next item) (\<lambda>kl3.
             Inr (item, kl3))))))"

definition kl_erase :: "'a klist \<Rightarrow> nat \<Rightarrow> (nat option \<times> 'a klist) res" where
  "kl_erase kl item =
     res_bind (wassert (xl_sz (kl_busy kl) \<noteq> 0)) (\<lambda>_.
     let ret = it_next (kl_heap kl item) in
     res_bind (xl_remove (kl_heap kl) (kl_busy kl) item) (\<lambda>(h1, b).
     res_bind (xl_add h1 (kl_free kl) (xl_begin (kl_free kl)) Prev item) (\<lambda>(h2, f).
     Inr (ret, kl\<lparr>kl_heap := h2, kl_busy := b, kl_free := f\<rparr>))))"

partial_function (option) kl_clear_from :: "'a klist \<Rightarrow> nat option \<Rightarrow> 'a klist res option" where
  "kl_clear_from kl it =
     (case it of
        None \<Rightarrow> Some (Inr kl)
      | Some a \<Rightarrow> (case kl_erase kl a of
                    Inl e \<Rightarrow> Some (Inl e)
                  | Inr r \<Rightarrow> kl_clear_from (snd r) (fst r)))"

definition kl_clear :: "'a klist \<Rightarrow> 'a klist res option" where
  "kl_clear kl = kl_clear_from kl (xl_begin (kl_busy kl))"

definition kl_front :: "'a klist \<Rightarrow> 'a res" where
  "kl_front kl = res_bind (wassert (xl_sz (kl_busy kl) \<noteq> 0)) (\<lambda>_.
     case xl_begin (kl_busy kl) of None \<Rightarrow> Inl Bad_access | Some a \<Rightarrow> Inr (it_data (kl_heap kl a)))"

definition kl_back :: "'a klist \<Rightarrow> 'a res" where
  "kl_back kl = res_bind (wassert (xl_sz (kl_busy kl) \<noteq> 0)) (\<lambda>_.
     case xl_last (kl_busy kl) of None \<Rightarrow> Inl Bad_access | Some a \<Rightarrow> Inr (it_data (kl_heap kl a)))"

definition kl_size :: "'a klist \<Rightarrow> nat" where
  "kl_size kl = xl_sz (kl_busy kl)"

definition kl_capacity :: "'a klist \<Rightarrow> nat" where
  "kl_capacity kl = xl_sz (kl_busy kl) + xl_sz (kl_free kl)"

section \<open>Representation of a sequence\<close>

definition kl_repr :: "'a klist \<Rightarrow> nat list \<Rightarrow> nat list \<Rightarrow> bool" where
  "kl_repr kl ps fs \<longleftrightarrow> xl_repr (kl_heap kl) (kl_busy kl) ps \<and> xl_repr (kl_heap kl) (kl_free kl) fs
     \<and> set ps \<inter> set fs = {}"

definition kl_vals :: "'a klist \<Rightarrow> nat list \<Rightarrow> 'a list" where
  "kl_vals kl ps = map (\<lambda>a. it_data (kl_heap kl a)) ps"

lemma store_keepsD:
  "store_keeps h h' A \<Longrightarrow> x \<notin> A \<Longrightarrow> h' x = h x"
  "store_keeps h h' A \<Longrightarrow> it_data (h' x) = it_data (h x)"
  by (simp_all add: store_keeps_def)

lemma xl_repr_keep: "store_keeps h h' A \<Longrightarrow> set ps \<inter> A = {} \<Longrightarrow> xl_repr h l ps \<Longrightarrow> xl_repr h' l ps"
  by (erule xl_repr_frame [rotated]) (auto simp: store_keeps_def)

lemma dseg_data: "dseg (h(a := (h a)\<lparr>it_data := v\<rparr>)) p xs q = dseg h p xs q"
  by (induction xs arbitrary: p) auto

lemma xl_repr_data [simp]: "xl_repr (h(a := (h a)\<lparr>it_data := v\<rparr>)) l ps = xl_repr h l ps"
  by (simp add: xl_repr_def dseg_data)

lemma kl_repr_set_data [simp]: "kl_repr (kl_set_data kl a v) ps fs = kl_repr kl ps fs"
  by (simp add: kl_repr_def kl_set_data_def)

lemma kl_set_data_fields [simp]:
  "kl_busy (kl_set_data kl a v) = kl_busy kl" "kl_free (kl_set_data kl a v) = kl_free kl"
  "kl_arena (kl_set_data kl a v) = kl_arena kl" "kl_isz (kl_set_data kl a v) = kl_isz kl"
  by (simp_all add: kl_set_data_def)

lemma kl_take_free_repr:
  assumes "kl_repr kl ps (f # fs)"
  shows "\<exists>kl'. kl_take_free kl = Inr (f, kl') \<and> kl_repr kl' ps fs \<and> f \<notin> set ps \<and> f \<notin> set fs
    \<and> kl_busy kl' = kl_busy kl \<and> (\<forall>a. it_data (kl_heap kl' a) = it_data (kl_heap kl a))"
proof -
  have fr: "xl_repr (kl_heap kl) (kl_free kl) ([] @ f # fs)" using assms by (simp add: kl_repr_def)
  then obtain h l where r: "xl_remove (kl_heap kl) (kl_free kl) f = Inr (h, l)" "xl_repr h l fs"
    "store_keeps (kl_heap kl) h (set fs)" using xl_remove_repr [OF fr] by auto
  have "xl_repr h (kl_busy kl) ps"
    by (rule xl_repr_keep [OF r(3)]) (use assms in \<open>auto simp: kl_repr_def\<close>)
  moreover have "kl_take_free kl = Inr (f, kl\<lparr>kl_heap := h, kl_free := l\<rparr>)"
    using fr r(1) by (simp add: kl_take_free_def kl_check_for_alloc_def xl_repr_def)
  ultimately show ?thesis
    using assms r by (auto simp: kl_repr_def store_keepsD xl_repr_def)
qed


lemma kl_link_busy_repr:
  assumes "kl_repr kl ps fs" "x \<notin> set ps" "x \<notin> set fs"
    and "pos = olast None ps \<and> w = Next \<and> qs = ps @ [x]
      \<or> (\<exists>as p bs. ps = as @ p # bs \<and> pos = Some p
           \<and> (w = Next \<and> qs = as @ p # x # bs \<or> w = Prev \<and> qs = as @ x # p # bs))"
  shows "\<exists>kl'. kl_link_busy kl pos w x = Inr kl' \<and> kl_repr kl' qs fs
    \<and> (\<forall>a. it_data (kl_heap kl' a) = it_data (kl_heap kl a))"
proof -
  let ?h = "kl_heap kl"
  have b: "xl_repr ?h (kl_busy kl) ps" and f: "xl_repr ?h (kl_free kl) fs" and d: "set ps \<inter> set fs = {}"
    using assms by (auto simp: kl_repr_def)
  have "\<exists>h' l'. xl_add ?h (kl_busy kl) pos w x = Inr (h', l') \<and> xl_repr h' l' qs
      \<and> store_keeps ?h h' (insert x (set ps))"
    using assms(4)
  proof
    assume *: "pos = olast None ps \<and> w = Next \<and> qs = ps @ [x]"
    show ?thesis
    proof (cases ps rule: rev_cases)
      case Nil
      then show ?thesis using * xl_add_empty [of ?h "kl_busy kl"] b by simp
    next
      case (snoc as p)
      then show ?thesis using * xl_add_next [of ?h "kl_busy kl" as p "[]" x] b assms(2) by simp
    qed
  next
    assume "\<exists>as p bs. ps = as @ p # bs \<and> pos = Some p
      \<and> (w = Next \<and> qs = as @ p # x # bs \<or> w = Prev \<and> qs = as @ x # p # bs)"
    then show ?thesis
      using xl_add_next [of ?h "kl_busy kl" _ _ _ x] xl_add_prev [of ?h "kl_busy kl" _ _ _ x] b assms(2)
      by auto
  qed
  then obtain h' l' where r: "xl_add ?h (kl_busy kl) pos w x = Inr (h', l')" "xl_repr h' l' qs"
    "store_keeps ?h h' (insert x (set ps))" by blast
  have "xl_repr h' (kl_free kl) fs"
    by (rule xl_repr_keep [OF r(3) _ f]) (use d assms(3) in auto)
  moreover have "set qs \<subseteq> insert x (set ps)" using assms(4) by auto
  ultimately show ?thesis
    using r d assms(3) by (auto simp: kl_link_busy_def kl_repr_def store_keepsD)
qed

lemma kl_vals_set_data:
  "distinct (as @ x # bs) \<Longrightarrow> kl_vals (kl_set_data kl x v) (as @ x # bs) = kl_vals kl as @ v # kl_vals kl bs"
  by (auto simp: kl_vals_def kl_set_data_def)

lemma kl_vals_cong: "(\<And>a. a \<in> set ps \<Longrightarrow> it_data (kl_heap kl' a) = it_data (kl_heap kl a)) \<Longrightarrow> kl_vals kl' ps = kl_vals kl ps"
  by (simp add: kl_vals_def)

lemma kl_repr_distinct: "kl_repr kl ps fs \<Longrightarrow> distinct ps"
  by (simp add: kl_repr_def xl_repr_def)

lemma kl_push_back_repr:
  assumes "kl_repr kl ps (f # fs)"
  shows "\<exists>kl'. kl_push_back kl v = Inr kl' \<and> kl_repr kl' (ps @ [f]) fs
    \<and> kl_vals kl' (ps @ [f]) = kl_vals kl ps @ [v]"
proof -
  obtain kl1 where t: "kl_take_free kl = Inr (f, kl1)" "kl_repr kl1 ps fs" "f \<notin> set ps" "f \<notin> set fs"
    "\<forall>a. it_data (kl_heap kl1 a) = it_data (kl_heap kl a)"
    using kl_take_free_repr [OF assms] by blast
  have "xl_last (kl_busy kl1) = olast None ps" using t(2) by (simp add: kl_repr_def xl_repr_def)
  then obtain kl2 where l: "kl_link_busy kl1 (xl_last (kl_busy kl1)) Next f = Inr kl2"
    "kl_repr kl2 (ps @ [f]) fs" "\<forall>a. it_data (kl_heap kl2 a) = it_data (kl_heap kl1 a)"
    using kl_link_busy_repr [OF t(2-4)] by blast
  then have "kl_vals (kl_set_data kl2 f v) (ps @ [f]) = kl_vals kl ps @ [v]"
    using t kl_vals_set_data [of ps f "[]" kl2 v] kl_repr_distinct [OF l(2)]
    by (simp add: kl_vals_def)
  then show ?thesis using t l by (simp add: kl_push_back_def)
qed

lemma kl_insert_repr:
  assumes "kl_repr kl (as @ p # bs) (f # fs)"
  shows "\<exists>kl'. kl_insert_before kl (Some p) v = Inr (f, kl') \<and> kl_repr kl' (as @ f # p # bs) fs
      \<and> kl_vals kl' (as @ f # p # bs) = kl_vals kl as @ v # kl_vals kl (p # bs)"
    and "\<exists>kl'. kl_insert_after kl (Some p) v = Inr (f, kl') \<and> kl_repr kl' (as @ p # f # bs) fs
      \<and> kl_vals kl' (as @ p # f # bs) = kl_vals kl (as @ [p]) @ v # kl_vals kl bs"
proof -
  obtain kl1 where t: "kl_take_free kl = Inr (f, kl1)" "kl_repr kl1 (as @ p # bs) fs"
    "f \<notin> set (as @ p # bs)" "f \<notin> set fs" "\<forall>a. it_data (kl_heap kl1 a) = it_data (kl_heap kl a)"
    using kl_take_free_repr [OF assms] by blast
  obtain kl2 where l: "kl_link_busy kl1 (Some p) Prev f = Inr kl2" "kl_repr kl2 (as @ f # p # bs) fs"
    "\<forall>a. it_data (kl_heap kl2 a) = it_data (kl_heap kl1 a)"
    using kl_link_busy_repr [OF t(2-4)] by blast
  have "kl_vals (kl_set_data kl2 f v) (as @ f # p # bs) = kl_vals kl as @ v # kl_vals kl (p # bs)"
    using t(5) l(3) kl_vals_set_data [of as f "p # bs" kl2 v] kl_repr_distinct [OF l(2)]
    by (simp add: kl_vals_def)
  then show "\<exists>kl'. kl_insert_before kl (Some p) v = Inr (f, kl') \<and> kl_repr kl' (as @ f # p # bs) fs
      \<and> kl_vals kl' (as @ f # p # bs) = kl_vals kl as @ v # kl_vals kl (p # bs)"
    using t l by (simp add: kl_insert_before_def)
  obtain kl3 where l: "kl_link_busy kl1 (Some p) Next f = Inr kl3" "kl_repr kl3 (as @ p # f # bs) fs"
    "\<forall>a. it_data (kl_heap kl3 a) = it_data (kl_heap kl1 a)"
    using kl_link_busy_repr [OF t(2-4)] by blast
  have "kl_vals (kl_set_data kl3 f v) (as @ p # f # bs) = kl_vals kl (as @ [p]) @ v # kl_vals kl bs"
    using t(5) l(3) kl_vals_set_data [of "as @ [p]" f bs kl3 v] kl_repr_distinct [OF l(2)]
    by (simp add: kl_vals_def)
  then show "\<exists>kl'. kl_insert_after kl (Some p) v = Inr (f, kl') \<and> kl_repr kl' (as @ p # f # bs) fs
      \<and> kl_vals kl' (as @ p # f # bs) = kl_vals kl (as @ [p]) @ v # kl_vals kl bs"
    using t l by (simp add: kl_insert_after_def)
qed


lemma kl_erase_repr:
  assumes "kl_repr kl (as @ x # bs) fs"
  shows "\<exists>kl'. kl_erase kl x = Inr (ohd bs None, kl') \<and> kl_repr kl' (as @ bs) (x # fs)
    \<and> kl_vals kl' (as @ bs) = kl_vals kl as @ kl_vals kl bs"
proof -
  let ?h = "kl_heap kl"
  have b: "xl_repr ?h (kl_busy kl) (as @ x # bs)" and f: "xl_repr ?h (kl_free kl) fs"
    and d: "set (as @ x # bs) \<inter> set fs = {}" using assms by (auto simp: kl_repr_def)
  obtain h1 l1 where r: "xl_remove ?h (kl_busy kl) x = Inr (h1, l1)" "xl_repr h1 l1 (as @ bs)"
    "store_keeps ?h h1 (set as \<union> set bs)" using xl_remove_repr [OF b] by blast
  have f1: "xl_repr h1 (kl_free kl) fs" by (rule xl_repr_keep [OF r(3) _ f]) (use d in auto)
  have "\<exists>h2 l2. xl_add h1 (kl_free kl) (xl_begin (kl_free kl)) Prev x = Inr (h2, l2)
      \<and> xl_repr h2 l2 (x # fs) \<and> store_keeps h1 h2 (insert x (set fs))"
  proof (cases fs)
    case Nil
    then show ?thesis using xl_add_empty [of h1 "kl_free kl" _ Prev x] f1 by simp
  next
    case (Cons g gs)
    then have "xl_begin (kl_free kl) = Some g" using f1 by (simp add: xl_repr_def)
    then show ?thesis using Cons xl_add_prev [of h1 "kl_free kl" "[]" g gs x] f1 d by auto
  qed
  then obtain h2 l2 where a: "xl_add h1 (kl_free kl) (xl_begin (kl_free kl)) Prev x = Inr (h2, l2)"
    "xl_repr h2 l2 (x # fs)" "store_keeps h1 h2 (insert x (set fs))" by blast
  have "x \<notin> set (as @ bs)" using b by (auto simp: xl_repr_def)
  then have b2: "xl_repr h2 l1 (as @ bs)" by (intro xl_repr_keep [OF a(3) _ r(2)]) (use d in auto)
  have "it_next (?h x) = ohd bs None" "xl_sz (kl_busy kl) \<noteq> 0"
    using b by (auto simp: xl_repr_def dseg_append)
  then have "kl_erase kl x = Inr (ohd bs None, kl\<lparr>kl_heap := h2, kl_busy := l1, kl_free := l2\<rparr>)"
    using r a by (simp add: kl_erase_def)
  moreover have "\<forall>y. it_data (h2 y) = it_data (?h y)" using r(3) a(3) by (simp add: store_keepsD)
  ultimately show ?thesis
    using b2 a(2) d \<open>x \<notin> set (as @ bs)\<close> by (auto simp: kl_repr_def kl_vals_def)
qed

lemma kl_clear_from_repr:
  "kl_repr kl ps fs \<Longrightarrow> \<exists>kl'. kl_clear_from kl (ohd ps None) = Some (Inr kl') \<and> kl_repr kl' [] (rev ps @ fs)"
proof (induction ps arbitrary: kl fs)
  case Nil
  then show ?case by (simp add: kl_clear_from.simps)
next
  case (Cons x ps)
  then obtain kl1 where e: "kl_erase kl x = Inr (ohd ps None, kl1)" "kl_repr kl1 ps (x # fs)"
    using kl_erase_repr [of kl "[]" x ps fs] by auto
  then show ?case using Cons.IH [OF e(2)] by (simp add: kl_clear_from.simps [of kl "Some x"])
qed

lemma find_pos_from_dseg:
  "dseg h p xs None \<Longrightarrow> find_pos_from lt h v (ohd xs None) =
     Some (find (\<lambda>a. \<not> lt (it_data (h a)) v) xs)"
proof (induction xs arbitrary: p)
  case Nil
  then show ?case by (simp add: find_pos_from.simps)
next
  case (Cons x xs)
  then show ?case by (auto simp: find_pos_from.simps [of lt h v "Some x"])
qed

lemma find_pos_repr:
  "xl_repr h l ps \<Longrightarrow> find_pos lt h l v = Some (find (\<lambda>a. \<not> lt (it_data (h a)) v) ps)"
  using find_pos_from_dseg [of h None ps lt v] by (auto simp: find_pos_def xl_repr_def)

text \<open>The sequence \<open>insert_sort\<close> leaves: \<open>v\<close> before the first element not below it.\<close>

fun insort_before :: "('a \<Rightarrow> 'a \<Rightarrow> bool) \<Rightarrow> 'a \<Rightarrow> 'a list \<Rightarrow> 'a list" where
  "insort_before lt v [] = [v]"
| "insort_before lt v (x # xs) = (if \<not> lt x v then v # x # xs else x # insort_before lt v xs)"

lemma insort_before_split:
  "(\<forall>x\<in>set as. lt x v) \<Longrightarrow> insort_before lt v (as @ bs) = as @ insort_before lt v bs"
  by (induction as) auto

lemma mset_insort_before: "set (insort_before lt v xs) = insert v (set xs)"
  by (induction xs) auto

lemma sorted_insort_before:
  assumes asym: "\<And>x y. lt x y \<Longrightarrow> \<not> lt y x"
    and trans: "\<And>x y z. \<not> lt y x \<Longrightarrow> \<not> lt z y \<Longrightarrow> \<not> lt z x"
  shows "sorted_wrt (\<lambda>x y. \<not> lt y x) xs \<Longrightarrow> sorted_wrt (\<lambda>x y. \<not> lt y x) (insort_before lt v xs)"
proof (induction xs)
  case (Cons x xs)
  show ?case
  proof (cases "lt x v")
    case True
    then show ?thesis using Cons asym by (simp add: mset_insort_before)
  next
    case False
    then have "\<forall>y\<in>set xs. \<not> lt y v" using Cons.prems trans by (metis sorted_wrt.simps(2))
    then show ?thesis using False Cons.prems by simp
  qed
qed simp

lemma kl_insert_sort_repr:
  assumes r: "kl_repr kl ps (f # fs)"
  shows "\<exists>kl' qs. kl_insert_sort lt kl v = Some (Inr (f, kl')) \<and> kl_repr kl' qs fs
    \<and> kl_vals kl' qs = insort_before lt v (kl_vals kl ps)"
proof -
  let ?P = "\<lambda>a. \<not> lt (it_data (kl_heap kl a)) v"
  have b: "xl_repr (kl_heap kl) (kl_busy kl) ps" and sz: "xl_sz (kl_free kl) \<noteq> 0"
    using r by (auto simp: kl_repr_def xl_repr_def)
  obtain kl1 where t: "kl_take_free kl = Inr (f, kl1)" "kl_repr kl1 ps fs" "f \<notin> set ps" "f \<notin> set fs"
    "\<forall>a. it_data (kl_heap kl1 a) = it_data (kl_heap kl a)" "kl_busy kl1 = kl_busy kl"
    using kl_take_free_repr [OF r] by blast
  let ?kl2 = "kl_set_data kl1 f v"
  have k2: "kl_repr ?kl2 ps fs" using t by simp
  have data: "it_data (kl_heap ?kl2 a) = (if a = f then v else it_data (kl_heap kl a))" for a
    using t(5) by (simp add: kl_set_data_def)
  have start: "kl_insert_sort lt kl v = Some (res_bind
      (case find ?P ps of Some p \<Rightarrow> kl_link_busy ?kl2 (Some p) Prev f
       | None \<Rightarrow> kl_link_busy ?kl2 (olast None ps) Next f) (\<lambda>kl3. Inr (f, kl3)))"
    using t(1,6) sz b find_pos_repr [OF b, of lt v]
    by (simp add: kl_insert_sort_def kl_check_for_alloc_def Let_def xl_repr_def cong: option.case_cong)
  show ?thesis
  proof (cases "find ?P ps")
    case None
    then have below: "\<forall>x\<in>set (kl_vals kl ps). lt x v" by (auto simp: find_None_iff kl_vals_def)
    obtain kl3 where l: "kl_link_busy ?kl2 (olast None ps) Next f = Inr kl3" "kl_repr kl3 (ps @ [f]) fs"
      "\<forall>a. it_data (kl_heap kl3 a) = it_data (kl_heap ?kl2 a)"
      using kl_link_busy_repr [OF k2 t(3,4)] by blast
    have "kl_vals kl3 (ps @ [f]) = kl_vals kl ps @ [v]"
      using l(3) data t(3) by (auto simp: kl_vals_def)
    then show ?thesis
      using start None l insort_before_split [of "kl_vals kl ps" lt v "[]"] below by auto
  next
    case (Some p)
    then obtain i where i: "i < length ps" "p = ps ! i" "?P p" "\<forall>j<i. \<not> ?P (ps ! j)"
      unfolding find_Some_iff by auto
    let ?as = "take i ps" and ?bs = "drop (Suc i) ps"
    have ps: "ps = ?as @ p # ?bs" using i by (simp add: id_take_nth_drop)
    have below: "\<forall>x\<in>set (kl_vals kl ?as). lt x v" using i by (auto simp: kl_vals_def in_set_conv_nth)
    obtain kl3 where l: "kl_link_busy ?kl2 (Some p) Prev f = Inr kl3" "kl_repr kl3 (?as @ f # p # ?bs) fs"
      "\<forall>a. it_data (kl_heap kl3 a) = it_data (kl_heap ?kl2 a)"
      using kl_link_busy_repr [OF k2 t(3,4)] ps by blast
    have nf: "f \<notin> set ?as" "f \<noteq> p" "f \<notin> set ?bs" using t(3) i(1,2) by (auto dest: in_set_takeD in_set_dropD)
    have "kl_vals kl3 (?as @ f # p # ?bs) = kl_vals kl ?as @ v # kl_vals kl (p # ?bs)"
      using l(3) data nf by (auto simp: kl_vals_def)
    moreover have "kl_vals kl ps = kl_vals kl ?as @ kl_vals kl (p # ?bs)"
      by (subst ps) (simp add: kl_vals_def)
    ultimately show ?thesis
      using start Some l i(3) insort_before_split [of "kl_vals kl ?as" lt v "kl_vals kl (p # ?bs)"] below
      by (auto simp: kl_vals_def)
  qed
qed


subsection \<open>The debug check, construction and exhaustion\<close>

lemma check_walk_next:
  "dseg h p xs None \<Longrightarrow> check_walk (\<lambda>a. it_next (h a)) pos (ohd xs None) cnt lst found =
     Some (cnt + length xs, olast lst xs, found \<or> (\<exists>a\<in>set xs. pos = Some a))"
proof (induction xs arbitrary: p cnt lst found)
  case Nil
  then show ?case by (simp add: check_walk.simps)
next
  case (Cons x xs)
  then show ?case by (auto simp: check_walk.simps [of _ _ "Some x"])
qed

lemma check_walk_prev:
  "dseg h None xs q \<Longrightarrow> check_walk (\<lambda>a. it_prev (h a)) pos (olast None xs) cnt lst found =
     Some (cnt + length xs, ohd xs lst, found \<or> (\<exists>a\<in>set xs. pos = Some a))"
proof (induction xs arbitrary: q cnt lst found rule: rev_induct)
  case Nil
  then show ?case by (simp add: check_walk.simps)
next
  case (snoc x xs)
  then have d: "dseg h None xs (Some x)" "it_prev (h x) = olast None xs" by (auto simp: dseg_append)
  show ?case using snoc.IH [OF d(1)] d(2) by (auto simp: check_walk.simps [of _ _ "Some x"])
qed

lemma do_check_repr:
  assumes "xl_repr h l ps" "ps = [] \<and> pos = None \<or> (\<exists>a\<in>set ps. pos = Some a)"
  shows "do_check h l pos = Some True"
proof -
  have d: "dseg h None ps None" and l: "xl_begin l = ohd ps None" "xl_last l = olast None ps"
    "xl_sz l = length ps" "distinct ps" using assms by (auto simp: xl_repr_def)
  have ends: "(length ps \<le> 1 \<or> ohd ps None \<noteq> olast None ps) \<and> (length ps > 1 \<or> ohd ps None = olast None ps)
      \<and> (length ps \<noteq> 0 \<or> ohd ps None = None \<and> olast None ps = None)"
    using l(4) by (cases ps; cases "tl ps" rule: rev_cases) auto
  show ?thesis
    unfolding do_check_def l check_walk_next [OF d] check_walk_prev [OF d]
    using assms(2) ends by auto
qed

lemma kl_add_items_repr:
  assumes "kl_isz kl > 0"
  shows "kl_repr kl ps fs \<Longrightarrow> (\<forall>i<n. addr + kl_isz kl * i \<notin> set ps \<union> set fs) \<Longrightarrow>
    \<exists>kl'. kl_add_items kl addr n = Inr kl' \<and> kl_isz kl' = kl_isz kl \<and> kl_busy kl' = kl_busy kl
      \<and> kl_arena kl' = kl_arena kl \<and> kl_repr kl' ps (fs @ map (\<lambda>i. addr + kl_isz kl * i) [0..<n])
      \<and> kl_vals kl' ps = kl_vals kl ps"
  using assms
proof (induction n arbitrary: kl addr fs)
  case 0
  then show ?case by simp
next
  case (Suc n)
  let ?z = "kl_isz kl"
  have a: "addr \<notin> set ps" "addr \<notin> set fs" using Suc.prems(2) by fastforce+
  have b: "xl_repr (kl_heap kl) (kl_busy kl) ps" and f: "xl_repr (kl_heap kl) (kl_free kl) fs"
    and d: "set ps \<inter> set fs = {}" using Suc.prems(1) by (auto simp: kl_repr_def)
  have "\<exists>h l. xl_add (kl_heap kl) (kl_free kl) (xl_last (kl_free kl)) Next addr = Inr (h, l)
      \<and> xl_repr h l (fs @ [addr]) \<and> store_keeps (kl_heap kl) h (insert addr (set fs))"
  proof (cases fs rule: rev_cases)
    case Nil
    then show ?thesis using xl_add_empty f by auto
  next
    case (snoc gs g)
    then have "xl_last (kl_free kl) = Some g" using f by (simp add: xl_repr_def)
    then show ?thesis using snoc xl_add_next [of "kl_heap kl" "kl_free kl" gs g "[]" addr] f a by auto
  qed
  then obtain h l where x: "xl_add (kl_heap kl) (kl_free kl) (xl_last (kl_free kl)) Next addr = Inr (h, l)"
    "xl_repr h l (fs @ [addr])" "store_keeps (kl_heap kl) h (insert addr (set fs))" by blast
  let ?kl1 = "kl\<lparr>kl_heap := h, kl_free := l\<rparr>"
  have "xl_repr h (kl_busy kl) ps" by (rule xl_repr_keep [OF x(3) _ b]) (use a d in auto)
  then have r1: "kl_repr ?kl1 ps (fs @ [addr])" using x(2) a d by (auto simp: kl_repr_def)
  have "\<forall>i<n. (addr + ?z) + ?z * i \<notin> set ps \<union> set (fs @ [addr])"
  proof (intro allI impI)
    fix i assume "i < n"
    then have "addr + ?z * Suc i \<notin> set ps \<union> set fs" using Suc.prems(2) by blast
    then show "(addr + ?z) + ?z * i \<notin> set ps \<union> set (fs @ [addr])" using Suc.prems(3) by (simp add: add.assoc)
  qed
  with r1 Suc.prems(3) Suc.IH [of ?kl1 "fs @ [addr]" "addr + ?z"] obtain kl' where
    IH: "kl_add_items ?kl1 (addr + ?z) n = Inr kl'" "kl_isz kl' = ?z" "kl_busy kl' = kl_busy kl"
      "kl_arena kl' = kl_arena kl"
      "kl_repr kl' ps ((fs @ [addr]) @ map (\<lambda>i. (addr + ?z) + ?z * i) [0..<n])" "kl_vals kl' ps = kl_vals ?kl1 ps"
    by auto
  have "map (\<lambda>i. addr + ?z * i) [0..<Suc n] = addr # map (\<lambda>i. (addr + ?z) + ?z * i) [0..<n]"
    by (simp add: upt_conv_Cons map_Suc_upt [symmetric] add.assoc del: upt_Suc)
  then show ?case
    using IH x by (auto simp: kl_vals_def store_keepsD)
qed

lemma kl_init_repr:
  assumes "isz > 0"
  shows "\<exists>kl. kl_init h isz base n = Inr kl \<and> kl_repr kl [] (map (\<lambda>i. base + isz * i) [0..<n])
    \<and> kl_arena kl = None"
proof -
  let ?k = "\<lparr>kl_heap = h, kl_busy = xlist_new, kl_free = xlist_new, kl_arena = None, kl_isz = isz\<rparr>"
  have "kl_repr ?k [] []" by (simp add: kl_repr_def xl_repr_def xlist_new_def)
  then show ?thesis
    using kl_add_items_repr [of ?k "[]" "[]" n base] assms by (auto simp: kl_init_def kl_add_mem_def)
qed

lemma kl_full_panics:
  "kl_repr kl ps [] \<Longrightarrow> kl_arena kl = None \<Longrightarrow>
   kl_push_back kl v = Inl Panic \<and> kl_insert_before kl pos v = Inl Panic
   \<and> kl_insert_after kl pos v = Inl Panic \<and> kl_insert_sort lt kl v = Some (Inl Panic)"
  by (simp add: kl_push_back_def kl_insert_before_def kl_insert_after_def kl_insert_sort_def
      kl_take_free_def kl_check_for_alloc_def kl_repr_def xl_repr_def)


section \<open>The queue contract\<close>

text \<open>
  What the kernel's thread queues ask of the list: appending at the back and erasing an item
  by its iterator, on a sequence with a number of spare items.
\<close>

locale item_queue =
  fixes repr :: "'q \<Rightarrow> 'p list \<Rightarrow> 'p list \<Rightarrow> bool"
    and vals :: "'q \<Rightarrow> 'p list \<Rightarrow> 'a list"
    and push :: "'q \<Rightarrow> 'a \<Rightarrow> 'q res"
    and del :: "'q \<Rightarrow> 'p \<Rightarrow> ('p option \<times> 'q) res"
  assumes push_ok: "repr q ps (f # fs) \<Longrightarrow>
      \<exists>q'. push q v = Inr q' \<and> repr q' (ps @ [f]) fs \<and> vals q' (ps @ [f]) = vals q ps @ [v]"
    and del_ok: "repr q (as @ x # bs) fs \<Longrightarrow>
      \<exists>r q'. del q x = Inr (r, q') \<and> repr q' (as @ bs) (x # fs) \<and> vals q' (as @ bs) = vals q as @ vals q bs"
    and vals_append: "vals q (as @ bs) = vals q as @ vals q bs"
    and vals_length: "length (vals q ps) = length ps"
begin

text \<open>Appending the value of an item and erasing the item moves it to the back.\<close>

lemma move_to_back:
  assumes "repr q (as @ x # bs) (f # fs)" "vals q [x] = [v]"
  shows "\<exists>q1 r q2 ps. push q v = Inr q1 \<and> del q1 x = Inr (r, q2) \<and> repr q2 ps (x # fs)
    \<and> vals q2 ps = vals q as @ vals q bs @ [v]"
proof -
  obtain q1 where p: "push q v = Inr q1" "repr q1 (as @ x # (bs @ [f])) fs"
    "vals q1 ((as @ x # bs) @ [f]) = vals q (as @ x # bs) @ [v]"
    using push_ok [OF assms(1), of v] by auto
  obtain r q2 where d: "del q1 x = Inr (r, q2)" "repr q2 (as @ bs @ [f]) (x # fs)"
    "vals q2 (as @ bs @ [f]) = vals q1 as @ vals q1 (bs @ [f])"
    using del_ok [OF p(2)] by auto
  have split: "vals k (as @ x # zs) = vals k as @ vals k [x] @ vals k zs" for k zs
    using vals_append [of k as "[x] @ zs"] vals_append [of k "[x]" zs] by simp
  have "vals q1 as @ vals q1 [x] @ vals q1 (bs @ [f]) = vals q as @ vals q [x] @ vals q bs @ [v]"
    using p(3) split [of q1 "bs @ [f]"] split [of q bs] by simp
  then have "vals q1 as = vals q as" "vals q1 (bs @ [f]) = vals q bs @ [v]"
    using vals_length by auto
  then show ?thesis using p(1) d by auto
qed

lemma push_all:
  "repr q ps fs \<Longrightarrow> length vs \<le> length fs \<Longrightarrow>
   \<exists>q' qs gs. foldl (\<lambda>r v. res_bind r (\<lambda>k. push k v)) (Inr q) vs = Inr q' \<and> repr q' qs gs
     \<and> length gs = length fs - length vs \<and> vals q' qs = vals q ps @ vs"
proof (induction vs arbitrary: q ps fs)
  case Nil
  then show ?case by auto
next
  case (Cons v vs)
  then obtain f gs where fs: "fs = f # gs" by (cases fs) auto
  obtain q1 where p: "push q v = Inr q1" "repr q1 (ps @ [f]) gs" "vals q1 (ps @ [f]) = vals q ps @ [v]"
    using push_ok [of q ps f gs v] Cons.prems fs by auto
  show ?case using Cons.IH [OF p(2)] Cons.prems(2) p fs by auto
qed

end

text \<open>
  The kernel's queues have no allocator: the contract holds with \<open>malloc_func\<close> null throughout.
\<close>

definition kl_static :: "'a klist \<Rightarrow> nat list \<Rightarrow> nat list \<Rightarrow> bool" where
  "kl_static kl ps fs \<longleftrightarrow> kl_repr kl ps fs \<and> kl_arena kl = None"

lemma kl_push_back_arena:
  "xl_sz (kl_free kl) \<noteq> 0 \<Longrightarrow> kl_push_back kl v = Inr kl' \<Longrightarrow> kl_arena kl' = kl_arena kl"
  by (auto simp: kl_push_back_def kl_take_free_def kl_check_for_alloc_def kl_link_busy_def
      split: option.splits)

lemma kl_erase_arena: "kl_erase kl x = Inr (r, kl') \<Longrightarrow> kl_arena kl' = kl_arena kl"
  by (auto simp: kl_erase_def Let_def)

interpretation kl: item_queue kl_static kl_vals kl_push_back kl_erase
proof (unfold_locales, goal_cases)
  case (1 q ps f fs v)
  then have "kl_repr q ps (f # fs)" "xl_sz (kl_free q) \<noteq> 0"
    by (auto simp: kl_static_def kl_repr_def xl_repr_def)
  then show ?case using kl_push_back_repr [of q ps f fs v] kl_push_back_arena [of q v] 1
    by (auto simp: kl_static_def)
next
  case (2 q as x bs fs)
  then show ?case using kl_erase_repr [of q as x bs fs] kl_erase_arena [of q x]
    by (auto simp: kl_static_def)
qed (simp_all add: kl_vals_def)

section \<open>Properties\<close>

text \<open>
  C36. Erasing an item of a well-formed list returns the iterator of its successor, removes
  exactly that value from the sequence and gives the item back to the free list; the links stay
  consistent in both directions.
\<close>

theorem klist_erase:
  assumes "kl_repr kl (as @ x # bs) fs"
  shows "\<exists>kl'. kl_erase kl x = Inr (ohd bs None, kl') \<and> kl_repr kl' (as @ bs) (x # fs)
    \<and> kl_vals kl' (as @ bs) = kl_vals kl as @ kl_vals kl bs"
  using assms by (rule kl_erase_repr)

text \<open>A two-item list in a store of its own, on which the list theorems are exercised.\<close>

definition sample_klist :: "nat klist" where
  "sample_klist = \<lparr>kl_heap = (\<lambda>a. if a = 8 then \<lparr>it_prev = None, it_next = Some 16, it_data = 5\<rparr>
       else if a = 16 then \<lparr>it_prev = Some 8, it_next = None, it_data = 9\<rparr>
       else \<lparr>it_prev = None, it_next = None, it_data = 0\<rparr>),
     kl_busy = \<lparr>xl_begin = Some 8, xl_last = Some 16, xl_sz = 2\<rparr>,
     kl_free = \<lparr>xl_begin = Some 24, xl_last = Some 24, xl_sz = 1\<rparr>, kl_arena = None, kl_isz = 8\<rparr>"

lemma sample_klist_repr: "kl_repr sample_klist [8, 16] [24]"
  by (simp add: kl_repr_def xl_repr_def sample_klist_def)

theorem klist_erase_witness:
  "\<exists>kl'. kl_erase sample_klist 8 = Inr (ohd [16] None, kl') \<and> kl_repr kl' ([] @ [16]) [8, 24]
    \<and> kl_vals kl' ([] @ [16]) = kl_vals sample_klist [] @ kl_vals sample_klist [16]"
  by (rule klist_erase) (simp add: sample_klist_repr)

text \<open>
  \<open>insert_sort\<close> on a list with a free item returns, puts the value before the first element
  that is not below it, and so keeps a sorted list sorted, for any strict weak order
  \<open>operator <\<close>.
\<close>

theorem klist_insert_sort:
  assumes "kl_repr kl ps (f # fs)" "sorted_wrt (\<lambda>x y. \<not> lt y x) (kl_vals kl ps)"
    and "\<And>x y. lt x y \<Longrightarrow> \<not> lt y x" and "\<And>x y z. \<not> lt y x \<Longrightarrow> \<not> lt z y \<Longrightarrow> \<not> lt z x"
  shows "\<exists>kl' qs. kl_insert_sort lt kl v = Some (Inr (f, kl')) \<and> kl_repr kl' qs fs
    \<and> kl_vals kl' qs = insort_before lt v (kl_vals kl ps) \<and> sorted_wrt (\<lambda>x y. \<not> lt y x) (kl_vals kl' qs)"
  using kl_insert_sort_repr [OF assms(1), of lt v] sorted_insort_before [OF assms(3,4,2)] by fastforce

theorem klist_insert_sort_witness:
  "\<exists>kl' qs. kl_insert_sort (<) sample_klist 7 = Some (Inr (24, kl')) \<and> kl_repr kl' qs []
    \<and> kl_vals kl' qs = insort_before (<) 7 (kl_vals sample_klist [8, 16])
    \<and> sorted_wrt (\<lambda>x y. \<not> y < x) (kl_vals kl' qs)"
  by (rule klist_insert_sort [OF sample_klist_repr]) (auto simp: kl_vals_def sample_klist_def)

text \<open>
  A list built over its local buffer of \<open>N\<close> items takes \<open>N\<close> values, in order, and the next
  append panics: the bound of a list without allocator is exactly \<open>N\<close>.
\<close>

theorem klist_bound:
  assumes "isz > 0" "length vs = n"
  shows "\<exists>kl kl' qs. kl_init h isz base n = Inr kl
    \<and> foldl (\<lambda>r v. res_bind r (\<lambda>k. kl_push_back k v)) (Inr kl) vs = Inr kl'
    \<and> kl_repr kl' qs [] \<and> kl_vals kl' qs = vs \<and> kl_push_back kl' v = Inl Panic"
proof -
  obtain kl where i: "kl_init h isz base n = Inr kl" "kl_static kl [] (map (\<lambda>i. base + isz * i) [0..<n])"
    using kl_init_repr [OF assms(1)] kl_static_def by blast
  obtain kl' qs gs where r: "foldl (\<lambda>r v. res_bind r (\<lambda>k. kl_push_back k v)) (Inr kl) vs = Inr kl'"
    "kl_static kl' qs gs" "length gs = 0" "kl_vals kl' qs = vs"
    using kl.push_all [OF i(2), of vs] assms(2) by (auto simp: kl_vals_def)
  then show ?thesis using i kl_full_panics [of kl' qs v] by (auto simp: kl_static_def)
qed

theorem klist_bound_witness:
  "\<exists>kl kl' qs. kl_init (kl_heap sample_klist) 8 64 2 = Inr kl
    \<and> foldl (\<lambda>r v. res_bind r (\<lambda>k. kl_push_back k v)) (Inr kl) [3, 4] = Inr kl'
    \<and> kl_repr kl' qs [] \<and> kl_vals kl' qs = [3, 4] \<and> kl_push_back kl' 5 = Inl Panic"
  by (rule klist_bound) simp_all

text \<open>
  C37. The consistency check the debug build runs before and after every list operation never
  fails on a well-formed list, for every item it can be asked about, and always returns.
\<close>

theorem klist_check_passes:
  assumes "xl_repr h l ps" "ps = [] \<and> pos = None \<or> (\<exists>a\<in>set ps. pos = Some a)"
  shows "do_check h l pos = Some True"
  using assms by (rule do_check_repr)

theorem klist_check_passes_witness:
  "do_check (kl_heap sample_klist) (kl_busy sample_klist) (Some 16) = Some True"
  using sample_klist_repr by (intro klist_check_passes [of _ _ "[8, 16]"]) (auto simp: kl_repr_def)

end
