(* ===== verification/L4_Types.thy ===== *)
theory L4_Types
  imports Prelude
begin

text \<open>
  The L4 data types of \<open>lib/l4/inc/l4_types.h\<close> for the 32-bit big-endian target: thread
  identifiers, times and timeouts, flexpages, typed items, the acceptor, message tags, IPC error
  codes and the user-level thread control block. Every type is the machine word the kernel and
  its clients exchange; the accessors read and write its bit fields.
\<close>

section \<open>Thread identifiers\<close>

type_synonym thrid = u32

definition thrid_Nil :: thrid where "thrid_Nil = 0"
definition thrid_Any :: thrid where "thrid_Any = -1"
definition thrid_Any_local :: thrid where "thrid_Any_local = -1 AND NOT 0x3f"

definition thrid_is_nil :: "thrid \<Rightarrow> bool" where "thrid_is_nil t = (t = thrid_Nil)"
definition thrid_is_any :: "thrid \<Rightarrow> bool" where "thrid_is_any t = (t = thrid_Any)"
definition thrid_is_any_local :: "thrid \<Rightarrow> bool" where "thrid_is_any_local t = (t = thrid_Any_local)"

definition thrid_is_single :: "thrid \<Rightarrow> bool" where
  "thrid_is_single t = (\<not> thrid_is_nil t \<and> \<not> thrid_is_any t \<and> \<not> thrid_is_any_local t)"

text \<open>\<open>_local.nulls\<close> is the low six bits, \<open>_local.number\<close> the rest.\<close>

definition thrid_is_local :: "thrid \<Rightarrow> bool" where
  "thrid_is_local t = (thrid_is_single t \<and> bf_get 0 6 t = 0)"

definition thrid_is_global :: "thrid \<Rightarrow> bool" where
  "thrid_is_global t = (thrid_is_single t \<and> bf_get 0 6 t \<noteq> 0)"

definition thrid_number :: "thrid \<Rightarrow> u32" where
  "thrid_number t = (if thrid_is_global t then bf_get 14 18 t else bf_get 6 26 t)"

definition thrid_version :: "thrid \<Rightarrow> u32" where
  "thrid_version t = bf_get 0 14 t"

definition create_global :: "u32 \<Rightarrow> u32 \<Rightarrow> thrid" where
  "create_global num ver = bf_set 0 14 ver (bf_set 14 18 num 0)"

definition Def_glob_ver :: u32 where "Def_glob_ver = 2"

definition create_irq :: "u32 \<Rightarrow> thrid" where
  "create_irq num = bf_set 0 14 1 (bf_set 14 18 num 0)"

section \<open>Times and timeouts\<close>

type_synonym l4time = u16

definition time_Never :: l4time where "time_Never = 0"
definition time_Zero :: l4time where "time_Zero = 0x0400"

definition time_is_never :: "l4time \<Rightarrow> bool" where "time_is_never t = (t = time_Never)"
definition time_is_zero :: "l4time \<Rightarrow> bool" where "time_is_zero t = (t = time_Zero)"
definition time_is_abs :: "l4time \<Rightarrow> bool" where "time_is_abs t = (bf_get 15 1 t \<noteq> 0)"
definition time_is_rel :: "l4time \<Rightarrow> bool" where "time_is_rel t = (bf_get 15 1 t = 0)"
definition time_rel_man :: "l4time \<Rightarrow> u16" where "time_rel_man t = bf_get 0 10 t"
definition time_rel_exp :: "l4time \<Rightarrow> u16" where "time_rel_exp t = bf_get 10 5 t"

definition time_rel_usec :: "l4time \<Rightarrow> u64" where
  "time_rel_usec t =
     (if t = time_Never then 0 else push_bit (unat (time_rel_exp t)) (ucast (time_rel_man t)))"

text \<open>\<open>while (!((usec >> --pos) && 0x1));\<close> from \<open>pos = 64\<close>.\<close>

fun msb_from :: "u64 \<Rightarrow> nat \<Rightarrow> nat" where
  "msb_from usec 0 = 0"
| "msb_from usec (Suc pos) = (if drop_bit pos usec \<noteq> 0 then pos else msb_from usec pos)"

definition period :: "u16 \<Rightarrow> u16 \<Rightarrow> l4time" where
  "period ex man = bf_set 0 10 man (bf_set 10 5 ex (bf_set 15 1 0 time_Zero))"

definition time_create_rel :: "u64 \<Rightarrow> l4time" where
  "time_create_rel usec =
     (if usec = 0 then time_Zero
      else if usec \<le> 1023 then period 0 (ucast usec)
      else
        let pos = msb_from usec 64; ex = int pos + 1 - 10 in
        if ex > 31 then time_Zero
        else period (word_of_int ex) (ucast (drop_bit (nat ex) usec)))"

definition timeouts_snd :: "u32 \<Rightarrow> l4time" where "timeouts_snd raw = ucast (drop_bit 16 raw)"
definition timeouts_rcv :: "u32 \<Rightarrow> l4time" where "timeouts_rcv raw = ucast (raw AND 0xffff)"

definition timeouts_create :: "l4time \<Rightarrow> l4time \<Rightarrow> u32" where
  "timeouts_create s r = push_bit 16 (ucast s) OR ucast r"

section \<open>Flexpages\<close>

type_synonym fpage = u32

definition Acc_r :: u32 where "Acc_r = 4"
definition Acc_w :: u32 where "Acc_w = 2"
definition Acc_x :: u32 where "Acc_x = 1"
definition Acc_rw :: u32 where "Acc_rw = Acc_r OR Acc_w"
definition Acc_rwx :: u32 where "Acc_rwx = Acc_r OR Acc_w OR Acc_x"

definition fpage_Nil :: fpage where "fpage_Nil = 0"

definition fpage_is_io :: "fpage \<Rightarrow> bool" where "fpage_is_io p = (bf_get 0 10 p = 0x26)"
definition fpage_is_nil :: "fpage \<Rightarrow> bool" where "fpage_is_nil p = (p = fpage_Nil)"
definition fpage_is_complete :: "fpage \<Rightarrow> bool" where
  "fpage_is_complete p = (bf_sget 10 22 p = 0 \<and> bf_get 4 6 p = 1)"
definition fpage_addr :: "fpage \<Rightarrow> u32" where "fpage_addr p = push_bit 10 (word_of_int (bf_sget 10 22 p))"
definition fpage_log2sz :: "fpage \<Rightarrow> nat" where "fpage_log2sz p = unat (bf_get 4 6 p)"
definition fpage_size :: "fpage \<Rightarrow> u32" where "fpage_size p = push_bit (fpage_log2sz p) 1"
definition fpage_access :: "fpage \<Rightarrow> u32" where "fpage_access p = bf_get 0 3 p"
definition fpage_end :: "fpage \<Rightarrow> u32" where "fpage_end p = fpage_addr p + fpage_size p"
definition fpage_io_port :: "fpage \<Rightarrow> u32" where "fpage_io_port p = word_of_int (bf_sget 16 16 p)"
definition fpage_io_log2sz :: "fpage \<Rightarrow> nat" where "fpage_io_log2sz p = unat (bf_get 10 6 p)"
definition fpage_io_size :: "fpage \<Rightarrow> u32" where "fpage_io_size p = push_bit (fpage_io_log2sz p) 1"

text \<open>
  The loop that finds the single bit of a size: \<open>while (!(bytes & 1)) { bytes >>= 1; size += 1; }\<close>.
  It ends for every nonzero size; 32 rounds are enough. \<open>_mem.size\<close> is a six-bit field.
\<close>

fun low_bit :: "nat \<Rightarrow> u32 \<Rightarrow> nat \<Rightarrow> nat" where
  "low_bit 0 bytes sz = sz"
| "low_bit (Suc fuel) bytes sz =
     (if bytes AND 1 = 0 then low_bit fuel (drop_bit 1 bytes) (sz + 1) else sz)"

definition is_aligned :: "u32 \<Rightarrow> u32 \<Rightarrow> bool" where
  "is_aligned n a = (n AND (a - 1) = 0)"

text \<open>
  \<open>set\<close> writes \<open>base\<close>, \<open>size\<close> and \<open>rwx\<close> into the flexpage it is called on and leaves the bit
  \<open>null\<close>; \<open>create\<close> calls it on an object without constructor, whose old contents \<open>g\<close> are whatever
  the stack held. \<open>Size_min\<close> is the page size, 4096.
\<close>

definition fpage_set :: "fpage \<Rightarrow> u32 \<Rightarrow> u32 \<Rightarrow> u32 \<Rightarrow> fpage" where
  "fpage_set g adr sz_bytes acc =
     (if sz_bytes < 4096 \<or> \<not> is_aligned adr sz_bytes then fpage_Nil
      else
        let p1 = bf_set 10 22 (drop_bit 10 adr) g;
            p2 = bf_set 0 3 (acc AND Acc_rwx) p1;
            p3 = bf_set 4 6 (of_nat (low_bit 32 sz_bytes 0)) p2
        in if fpage_size p3 \<noteq> sz_bytes then fpage_Nil else p3)"

definition fpage_set_io :: "fpage \<Rightarrow> u32 \<Rightarrow> u32 \<Rightarrow> fpage" where
  "fpage_set_io g port sz_ports =
     (if sz_ports = 0 \<or> port > 0xffff \<or> port + sz_ports > 0xffff \<or> \<not> is_aligned port sz_ports then fpage_Nil
      else
        let p1 = bf_set 16 16 port g;
            p2 = bf_set 0 10 0x26 p1;
            p3 = bf_set 10 6 (of_nat (low_bit 32 sz_ports 0)) p2
        in if fpage_io_size p3 \<noteq> sz_ports then fpage_Nil else p3)"

definition fpage_set_complete :: "fpage \<Rightarrow> fpage" where
  "fpage_set_complete g = bf_set 4 6 1 (bf_set 10 22 0 g)"

definition fpage_is_cross :: "fpage \<Rightarrow> fpage \<Rightarrow> bool" where
  "fpage_is_cross q p = (\<not> (fpage_end q \<le> fpage_addr p \<or> fpage_addr q \<ge> fpage_end p))"

definition fpage_is_inside :: "fpage \<Rightarrow> fpage \<Rightarrow> bool" where
  "fpage_is_inside q p = (fpage_addr p \<ge> fpage_addr q \<and> fpage_end p \<le> fpage_end q)"

definition fpage_is_acc_fit :: "fpage \<Rightarrow> u32 \<Rightarrow> bool" where
  "fpage_is_acc_fit q acc = (acc AND fpage_access q = acc)"

definition fpage_is_inside_acc :: "fpage \<Rightarrow> fpage \<Rightarrow> bool" where
  "fpage_is_inside_acc q p = (fpage_is_inside q p \<and> fpage_is_acc_fit q (fpage_access p))"

section \<open>Typed items and the acceptor\<close>

type_synonym item2 = "u32 \<times> u32"

definition titem_type :: "u32 \<Rightarrow> u32" where "titem_type w0 = bf_get 1 3 w0"
definition titem_is_last :: "u32 \<Rightarrow> bool" where "titem_is_last w0 = (bf_get 0 1 w0 = 0)"
definition titem_is_map :: "u32 \<Rightarrow> bool" where "titem_is_map w0 = (titem_type w0 = 4)"
definition titem_is_grant :: "u32 \<Rightarrow> bool" where "titem_is_grant w0 = (titem_type w0 = 5)"
definition titem_is_string :: "u32 \<Rightarrow> bool" where "titem_is_string w0 = (titem_type w0 \<le> 3)"

definition mitem_set :: "u32 \<Rightarrow> fpage \<Rightarrow> bool \<Rightarrow> item2" where
  "mitem_set g fpg cont =
     (bf_set 0 1 (of_bool cont) (bf_set 1 3 4 (bf_set 4 6 0 (bf_set 10 22 0 g))), fpg)"

definition mitem_set_grant :: "item2 \<Rightarrow> item2" where
  "mitem_set_grant it = (bf_set 1 3 5 (fst it), snd it)"

definition sitem_substring_number :: "u32 \<Rightarrow> u32" where "sitem_substring_number w0 = bf_get 4 5 w0 + 1"
definition sitem_length :: "u32 \<Rightarrow> u32" where "sitem_length w0 = bf_get 10 22 w0"

definition sitem_simple :: "u32 \<Rightarrow> u32 \<Rightarrow> u32 \<Rightarrow> bool \<Rightarrow> item2" where
  "sitem_simple g ptr len c =
     (bf_set 0 1 (of_bool c) (bf_set 1 2 0 (bf_set 3 7 0 (bf_set 10 22 len g))), ptr)"

definition acceptor_create :: "fpage \<Rightarrow> bool \<Rightarrow> u32" where
  "acceptor_create fp str = bf_set 0 1 (of_bool str) (fp AND NOT 7)"

definition acceptor_string :: "u32 \<Rightarrow> bool" where "acceptor_string a = (bf_get 0 1 a \<noteq> 0)"

section \<open>Message tags\<close>

type_synonym msgtag = u32

definition tag_ipc_label :: "msgtag \<Rightarrow> int" where "tag_ipc_label t = bf_sget 18 14 t"
definition tag_failed :: "msgtag \<Rightarrow> bool" where "tag_failed t = (bf_get 17 1 t \<noteq> 0)"
definition tag_set_ok :: "msgtag \<Rightarrow> msgtag" where "tag_set_ok t = bf_set 17 1 0 t"
definition tag_set_failed :: "msgtag \<Rightarrow> msgtag" where "tag_set_failed t = bf_set 17 1 1 t"
definition tag_propagated :: "msgtag \<Rightarrow> bool" where "tag_propagated t = (bf_get 14 1 t \<noteq> 0)"
definition tag_set_propagated :: "bool \<Rightarrow> msgtag \<Rightarrow> msgtag" where
  "tag_set_propagated v t = bf_set 14 1 (of_bool v) t"
definition tag_typed :: "msgtag \<Rightarrow> u32" where "tag_typed t = bf_get 8 6 t"
definition tag_untyped :: "msgtag \<Rightarrow> u32" where "tag_untyped t = bf_get 0 8 t"
definition tag_set_typed :: "u32 \<Rightarrow> msgtag \<Rightarrow> msgtag" where "tag_set_typed v t = bf_set 8 6 v t"
definition tag_set_untyped :: "u32 \<Rightarrow> msgtag \<Rightarrow> msgtag" where "tag_set_untyped v t = bf_set 0 8 v t"
definition tag_proto_label :: "msgtag \<Rightarrow> int" where "tag_proto_label t = bf_sget 22 10 t"
definition tag_set_proto_label :: "int \<Rightarrow> msgtag \<Rightarrow> msgtag" where
  "tag_set_proto_label v t = bf_set 22 10 (word_of_int v) t"
definition tag_proto_nulls :: "msgtag \<Rightarrow> msgtag" where "tag_proto_nulls t = bf_set 14 8 0 t"
definition tag_pfault_access :: "msgtag \<Rightarrow> u32" where "tag_pfault_access t = bf_get 18 3 t"

definition tag_set_ipc :: "int \<Rightarrow> u32 \<Rightarrow> u32 \<Rightarrow> msgtag" where
  "tag_set_ipc label untyped typed =
     bf_set 0 8 untyped (bf_set 8 6 typed (bf_set 18 14 (word_of_int label) 0))"

definition tag_set_proto :: "msgtag \<Rightarrow> int \<Rightarrow> u32 \<Rightarrow> u32 \<Rightarrow> msgtag" where
  "tag_set_proto t label untyped typed =
     bf_set 0 8 untyped (bf_set 8 6 typed (bf_set 14 8 0 (bf_set 22 10 (word_of_int label) t)))"

definition tag_set_proto_pf :: "msgtag \<Rightarrow> int \<Rightarrow> u32 \<Rightarrow> u32 \<Rightarrow> u32 \<Rightarrow> msgtag" where
  "tag_set_proto_pf t label access untyped typed =
     bf_set 0 8 untyped (bf_set 8 6 typed (bf_set 14 4 0 (bf_set 18 3 access (bf_set 21 1 0
       (bf_set 22 10 (word_of_int label) t)))))"

definition tag_Interrupt :: int where "tag_Interrupt = -1"
definition tag_Pagefault :: int where "tag_Pagefault = -2"
definition tag_Io_pagefault :: int where "tag_Io_pagefault = -3"
definition tag_System_exception :: int where "tag_System_exception = -4"
definition tag_Arch_exception :: int where "tag_Arch_exception = -5"
definition tag_Force_exception :: int where "tag_Force_exception = -6"
definition tag_Mmu_exception :: int where "tag_Mmu_exception = -7"

definition tag_is_thread_start :: "msgtag \<Rightarrow> bool" where
  "tag_is_thread_start t = (tag_ipc_label t = 0 \<and> tag_typed t = 0 \<and> tag_untyped t = 3)"
definition tag_is_pf_request :: "msgtag \<Rightarrow> bool" where
  "tag_is_pf_request t = (tag_proto_label t = tag_Pagefault \<and> tag_typed t = 2 \<and> tag_untyped t = 0)"
definition tag_is_pf_reply :: "msgtag \<Rightarrow> bool" where
  "tag_is_pf_reply t = (tag_ipc_label t = 0 \<and> tag_typed t = 2 \<and> tag_untyped t = 0)"
definition tag_is_io_pf_request :: "msgtag \<Rightarrow> bool" where
  "tag_is_io_pf_request t = (tag_proto_label t = tag_Io_pagefault \<and> tag_typed t = 2 \<and> tag_untyped t = 0)"
definition tag_is_io_pf_reply :: "msgtag \<Rightarrow> bool" where
  "tag_is_io_pf_reply t = (tag_ipc_label t = 0 \<and> tag_typed t = 2 \<and> tag_untyped t = 0)"
definition tag_is_exc_request :: "msgtag \<Rightarrow> bool" where
  "tag_is_exc_request t = ((tag_proto_label t = tag_System_exception \<or> tag_proto_label t = tag_Arch_exception \<or>
     tag_proto_label t = tag_Force_exception \<or> tag_proto_label t = tag_Mmu_exception) \<and> tag_typed t = 0)"
definition tag_is_exc_reply :: "msgtag \<Rightarrow> bool" where
  "tag_is_exc_reply t = (tag_ipc_label t = 0 \<and> tag_typed t = 0 \<and> tag_untyped t = 133)"

section \<open>IPC error codes\<close>

datatype ipc_phase = Snd_phase | Rcv_phase

definition L4_ipc_timeout :: u32 where "L4_ipc_timeout = 1"
definition L4_ipc_no_partner :: u32 where "L4_ipc_no_partner = 2"
definition L4_ipc_overflow :: u32 where "L4_ipc_overflow = 4"

definition ipcerr :: "ipc_phase \<Rightarrow> u32 \<Rightarrow> u32 \<Rightarrow> u32" where
  "ipcerr p e o' =
     bf_set 4 28 o' (bf_set 1 3 e (bf_set 0 1 (case p of Snd_phase \<Rightarrow> 0 | Rcv_phase \<Rightarrow> 1) 0))"

definition ipcerr_transferred :: "u32 \<Rightarrow> u32" where "ipcerr_transferred r = bf_get 4 28 r"
definition ipcerr_error :: "u32 \<Rightarrow> u32" where "ipcerr_error r = bf_get 1 3 r"
definition ipcerr_is_snd_error :: "u32 \<Rightarrow> bool" where "ipcerr_is_snd_error r = (bf_get 0 1 r = 0)"
definition ipcerr_is_rcv_error :: "u32 \<Rightarrow> bool" where "ipcerr_is_rcv_error r = (bf_get 0 1 r = 1)"

section \<open>The user-level thread control block\<close>

record utcb =
  u_global_id :: u32
  u_pager :: u32
  u_exc_handler :: u32
  u_user_defined_handle :: u32
  u_xfer_timeouts :: u32
  u_error :: u32
  u_receiver :: u32
  u_sender :: u32
  u_proc_no :: u32
  u_tls :: "u32 list"       \<comment> \<open>21 words\<close>
  u_br :: "u32 list"        \<comment> \<open>33 words\<close>
  u_mr :: "u32 list"        \<comment> \<open>256 words\<close>

definition utcb_msgtag :: "utcb \<Rightarrow> msgtag" where "utcb_msgtag u = u_mr u ! 0"
definition utcb_set_msgtag :: "msgtag \<Rightarrow> utcb \<Rightarrow> utcb" where "utcb_set_msgtag t u = u\<lparr>u_mr := (u_mr u)[0 := t]\<rparr>"
definition utcb_acceptor :: "utcb \<Rightarrow> u32" where "utcb_acceptor u = u_br u ! 0"

definition utcb_wf :: "utcb \<Rightarrow> bool" where
  "utcb_wf u \<longleftrightarrow> length (u_tls u) = 21 \<and> length (u_br u) = 33 \<and> length (u_mr u) = 256"


section \<open>Thread identifiers round-trip\<close>

lemma single_by_field:
  assumes "bf_get 0 6 (t::u32) \<noteq> 0" "bf_get 0 14 t \<noteq> mask 14"
  shows "thrid_is_single t"
proof -
  have "t \<noteq> 0" using assms(1) by auto
  moreover have "t \<noteq> -1" using assms(2) by (auto simp: bf_get_def)
  moreover have "t \<noteq> -1 AND NOT 0x3f" using assms(1) by (auto simp: bf_get_def)
  ultimately show ?thesis
    by (simp add: thrid_is_single_def thrid_is_nil_def thrid_is_any_def thrid_is_any_local_def
        thrid_Nil_def thrid_Any_def thrid_Any_local_def)
qed

text \<open>
  A global thread identifier built from a number below \<open>2^18\<close> and a version below \<open>2^14 - 1\<close>
  whose low six bits are not all zero is a global, single identifier and gives back exactly that
  number and version; so two such identifiers are equal only if both parts are.
\<close>

theorem create_global_roundtrip:
  assumes "unat num < 2 ^ 18" "unat ver < 2 ^ 14 - 1" "bf_get 0 6 ver \<noteq> 0"
  shows "thrid_is_global (create_global num ver) \<and> thrid_number (create_global num ver) = num
    \<and> thrid_version (create_global num ver) = ver"
proof -
  have v: "bf_get 0 14 (create_global num ver) = ver" "bf_get 14 18 (create_global num ver) = num"
    "bf_get 0 6 (create_global num ver) = bf_get 0 6 ver"
    using assms by (simp_all add: create_global_def bf_simps)
  have "unat (mask 14 :: u32) = 16383" by (simp add: mask_eq_exp_minus_1)
  then have "ver \<noteq> mask 14" using assms(2) by auto
  then have "thrid_is_single (create_global num ver)" using v assms(3) by (intro single_by_field) auto
  then show ?thesis using v assms(3)
    by (simp add: thrid_is_global_def thrid_number_def thrid_version_def)
qed

theorem create_global_roundtrip_witness:
  "thrid_is_global (create_global 129 Def_glob_ver) \<and> thrid_number (create_global 129 Def_glob_ver) = 129
    \<and> thrid_version (create_global 129 Def_glob_ver) = Def_glob_ver"
  by (rule create_global_roundtrip) (simp_all add: Def_glob_ver_def bf_get_def)

section \<open>Times\<close>

lemma unat_drop_bit: "unat (drop_bit n (u::'a::len word)) = unat u div 2 ^ n"
  unfolding unat_drop_bit_eq by (rule drop_bit_eq_div)

lemma drop_bit_nonzero: "drop_bit n (u::'a::len word) \<noteq> 0 \<longleftrightarrow> 2 ^ n \<le> unat u"
proof -
  have "drop_bit n u = 0 \<longleftrightarrow> unat (drop_bit n u) = 0" by (simp add: unat_eq_zero)
  also have "\<dots> \<longleftrightarrow> unat u < 2 ^ n" unfolding unat_drop_bit by (simp add: div_eq_0_iff)
  finally show ?thesis by auto
qed

lemma msb_from_spec:
  "unat u < 2 ^ n \<Longrightarrow> u \<noteq> 0 \<Longrightarrow> 2 ^ msb_from u n \<le> unat u \<and> unat u < 2 ^ Suc (msb_from u n)"
proof (induction n)
  case 0
  then show ?case by (simp add: unat_eq_zero)
next
  case (Suc n)
  then show ?case using drop_bit_nonzero [of n u] by auto
qed

lemma period_fields:
  assumes "unat ex < 32" "unat man < 1024"
  shows "time_rel_exp (period ex man) = ex" "time_rel_man (period ex man) = man" "time_is_rel (period ex man)"
  using assms
  by (simp_all add: period_def time_rel_exp_def time_rel_man_def time_is_rel_def bf_simps)

lemma period_not_special:
  assumes "unat ex < 32" "unat man < 1024" "man \<noteq> 0"
  shows "period ex man \<noteq> time_Never" "period ex man \<noteq> time_Zero"
  using period_fields(2) [OF assms(1,2)] assms(3)
  by (auto simp: time_rel_man_def time_Never_def time_Zero_def bf_get_def)

lemma period_usec:
  assumes "unat ex < 32" "unat man < 1024" "man \<noteq> 0"
  shows "unat (time_rel_usec (period ex man)) = unat man * 2 ^ unat ex"
proof -
  have "(2::nat) ^ unat ex \<le> 2 ^ 31" using assms(1) by (intro power_increasing) auto
  then have "unat man * 2 ^ unat ex \<le> 1024 * 2 ^ 31" using assms(2) by (intro mult_le_mono) auto
  then have "unat man * 2 ^ unat ex < 2 ^ 64" by (rule le_less_trans) simp
  moreover have "unat (ucast man :: u64) = unat man"
    using assms(2) by (simp add: unsigned_ucast_eq take_bit_nat_eq_self)
  ultimately have "unat (push_bit (unat ex) (ucast man :: u64)) = unat man * 2 ^ unat ex"
    unfolding unsigned_push_bit_eq by (simp add: push_bit_eq_mult take_bit_nat_eq_self)
  then show ?thesis
    using period_not_special [OF assms] period_fields [OF assms(1,2)] by (simp add: time_rel_usec_def)
qed

text \<open>The exponent and mantissa chosen for a time beyond the mantissa's range.\<close>

lemma create_rel_large:
  assumes "unat usec \<ge> 1024" "unat usec < 2 ^ 41"
  obtains e where "1 \<le> e" "e \<le> 31" "512 * 2 ^ e \<le> unat usec" "unat usec < 1024 * 2 ^ e"
    "time_create_rel usec = period (of_nat e) (of_nat (unat usec div 2 ^ e))"
proof -
  have nz: "usec \<noteq> 0" using assms(1) by auto
  let ?p = "msb_from usec 64"
  have p: "2 ^ ?p \<le> unat usec" "unat usec < 2 ^ Suc ?p"
    using msb_from_spec [of usec 64] nz unsigned_less [of usec] by auto
  have "?p \<ge> 10"
  proof (rule ccontr)
    assume "\<not> ?p \<ge> 10"
    then have "(2::nat) ^ Suc ?p \<le> 2 ^ 10" by (intro power_increasing) auto
    then show False using p(2) assms(1) by simp
  qed
  moreover have "?p \<le> 40"
  proof (rule ccontr)
    assume "\<not> ?p \<le> 40"
    then have "(2::nat) ^ 41 \<le> 2 ^ ?p" by (intro power_increasing) auto
    then show False using p(1) assms(2) by simp
  qed
  ultimately have e0: "?p = (?p - 9) + 9" "1 \<le> ?p - 9" "?p - 9 \<le> 31" by linarith+
  define e where "e = ?p - 9"
  have e: "?p = e + 9" "1 \<le> e" "e \<le> 31" using e0 by (simp_all add: e_def)
  have big: "\<not> usec \<le> 1023" using assms(1) by (simp add: word_le_nat_alt)
  have "word_of_int (int e) = (of_nat e :: u16)" by simp
  moreover have "(ucast (drop_bit e usec) :: u16) = of_nat (unat usec div 2 ^ e)"
    by (metis unat_drop_bit of_nat_unat [symmetric])
  ultimately have "time_create_rel usec = period (of_nat e) (of_nat (unat usec div 2 ^ e))"
    using nz big e by (simp add: time_create_rel_def Let_def)
  then show ?thesis using that [of e] e p by (simp add: power_add)
qed

lemma create_rel_huge:
  assumes "unat usec \<ge> 2 ^ 41"
  shows "time_create_rel usec = time_Zero"
proof -
  let ?p = "msb_from usec 64"
  have nz: "usec \<noteq> 0" using assms by auto
  have p: "unat usec < 2 ^ Suc ?p"
    using msb_from_spec [of usec 64] nz unsigned_less [of usec] by auto
  have "?p \<ge> 41"
  proof (rule ccontr)
    assume "\<not> ?p \<ge> 41"
    then have "(2::nat) ^ Suc ?p \<le> 2 ^ 41" by (intro power_increasing) auto
    then show False using p assms by simp
  qed
  moreover have "\<not> usec \<le> 1023" using assms by (simp add: word_le_nat_alt)
  ultimately show ?thesis using nz by (simp add: time_create_rel_def Let_def)
qed

lemma create_rel_small:
  assumes "usec \<noteq> 0" "unat usec \<le> 1023"
  obtains m where "unat m = unat usec" "unat m < 1024" "m \<noteq> 0" "time_create_rel usec = period 0 m"
proof
  let ?m = "ucast usec :: u16"
  show m: "unat ?m = unat usec" using assms(2) by (simp add: unsigned_ucast_eq take_bit_nat_eq_self)
  then show "unat ?m < 1024" using assms(2) by linarith
  have "unat usec \<noteq> 0" using assms(1) by (simp add: unat_eq_zero)
  then show "?m \<noteq> 0" using m by auto
  show "time_create_rel usec = period 0 ?m"
    using assms by (simp add: time_create_rel_def word_le_nat_alt)
qed

lemma create_rel_coded:
  assumes "usec \<noteq> 0" "unat usec < 2 ^ 41"
  obtains ex man where "unat ex < 32" "unat man < 1024" "man \<noteq> 0" "time_create_rel usec = period ex man"
    "unat man * 2 ^ unat ex \<le> unat usec" "512 * (unat usec - unat man * 2 ^ unat ex) < unat usec"
    "unat usec \<le> 1023 \<longrightarrow> unat man * 2 ^ unat ex = unat usec"
proof (cases "unat usec \<le> 1023")
  case True
  obtain m where m: "unat m = unat usec" "unat m < 1024" "m \<noteq> 0" "time_create_rel usec = period 0 m"
    by (rule create_rel_small [OF assms(1) True])
  have "unat usec > 0" using assms(1) by (simp add: unat_gt_0)
  then show ?thesis using that [of 0 m] m by simp
next
  case False
  then obtain e where e: "1 \<le> e" "e \<le> 31" "512 * 2 ^ e \<le> unat usec" "unat usec < 1024 * 2 ^ e"
    "time_create_rel usec = period (of_nat e) (of_nat (unat usec div 2 ^ e))"
    using create_rel_large [of usec] assms(2) by auto
  let ?k = "unat usec div 2 ^ e"
  have k: "512 \<le> ?k" "?k < 1024"
    using e(3,4) by (auto simp: less_eq_div_iff_mult_less_eq div_less_iff_less_mult)
  have ex: "unat (of_nat e :: u16) = e" using e(2) by (simp add: unat_of_nat take_bit_nat_eq_self)
  have man: "unat (of_nat ?k :: u16) = ?k" using k(2) by (simp add: unat_of_nat take_bit_nat_eq_self)
  have mz: "(of_nat ?k :: u16) \<noteq> 0" using man k(1) by auto
  have "unat usec - ?k * 2 ^ e = unat usec mod 2 ^ e" by (simp add: minus_div_mult_eq_mod)
  then have "512 * (unat usec - ?k * 2 ^ e) < 512 * 2 ^ e" by simp
  then have "512 * (unat usec - ?k * 2 ^ e) < unat usec" using e(3) by linarith
  then show ?thesis
    using that [of "of_nat e" "of_nat ?k"] ex man mz e False k(2) by simp
qed

text \<open>
  C40. The encoding of a relative time: 0 and every time of \<open>2^41\<close> microseconds or more become
  \<open>Zero\<close>; any other time is a relative time, neither \<open>Zero\<close> nor \<open>Never\<close>, that decodes to at most
  the time asked for, exactly up to 1023 microseconds and with an error below one part in 512
  above.
\<close>

theorem create_rel_precision:
  "if usec = 0 \<or> unat usec \<ge> 2 ^ 41 then time_create_rel usec = time_Zero
   else time_is_rel (time_create_rel usec) \<and> \<not> time_is_zero (time_create_rel usec)
     \<and> \<not> time_is_never (time_create_rel usec)
     \<and> unat (time_rel_usec (time_create_rel usec)) \<le> unat usec
     \<and> 512 * (unat usec - unat (time_rel_usec (time_create_rel usec))) < unat usec
     \<and> (unat usec > 1023 \<or> time_rel_usec (time_create_rel usec) = usec)"
proof (cases "usec = 0 \<or> unat usec \<ge> 2 ^ 41")
  case True
  then show ?thesis using create_rel_huge [of usec] by (auto simp: time_create_rel_def)
next
  case False
  then have nz: "usec \<noteq> 0" and lt: "unat usec < 2 ^ 41" by auto
  obtain ex man where c: "unat ex < 32" "unat man < 1024" "man \<noteq> 0" "time_create_rel usec = period ex man"
    "unat man * 2 ^ unat ex \<le> unat usec" "512 * (unat usec - unat man * 2 ^ unat ex) < unat usec"
    "unat usec \<le> 1023 \<longrightarrow> unat man * 2 ^ unat ex = unat usec"
    by (rule create_rel_coded [OF nz lt])
  have "time_is_rel (period ex man)" by (rule period_fields(3) [OF c(1,2)])
  moreover have "\<not> time_is_zero (period ex man)" "\<not> time_is_never (period ex man)"
    using period_not_special [OF c(1-3)] by (simp_all add: time_is_zero_def time_is_never_def)
  moreover have u: "unat (time_rel_usec (period ex man)) = unat man * 2 ^ unat ex"
    by (rule period_usec [OF c(1-3)])
  moreover have "unat usec > 1023 \<or> time_rel_usec (period ex man) = usec"
    using c(7) u by (auto simp: word_unat_eq_iff)
  ultimately show ?thesis using c(4-6) False by simp
qed

section \<open>Flexpages\<close>

lemma fpage_addr_eq: "fpage_addr p = p AND NOT (mask 10)"
proof (rule bit_word_eqI)
  fix i assume "i < LENGTH(32)"
  then consider "i < 31" | "i = 31" by fastforce
  then show "bit (fpage_addr p) i = bit (p AND NOT (mask 10)) i"
    by cases (auto simp: fpage_addr_def bit_push_bit_iff bit_word_of_int_iff bf_sget_def bit_signed_take_bit_iff
        bit_uint_iff bit_bf_get bit_and_iff bit_not_iff bit_mask_iff min_def)
qed

lemma low_bit_le: "low_bit fuel b s \<le> s + fuel"
proof (induction fuel arbitrary: b s)
  case (Suc n)
  show ?case using Suc [of "drop_bit 1 b" "s + 1"] by auto
qed simp

lemma low_bit_exp: "k < 32 \<Longrightarrow> k < fuel \<Longrightarrow> low_bit fuel (push_bit k 1) s = s + k"
proof (induction k arbitrary: fuel s)
  case 0
  then show ?case by (cases fuel) simp_all
next
  case (Suc k)
  then obtain f where f: "fuel = Suc f" by (cases fuel) auto
  have "push_bit (Suc k) (1::u32) AND 1 = 0" by (simp add: and_one_eq mod_2_eq_odd)
  moreover have "drop_bit 1 (push_bit (Suc k) (1::u32)) = push_bit k 1"
    using Suc.prems by (intro bit_word_eqI) (auto simp: bit_simps)
  ultimately show ?case using Suc f by simp
qed

lemma unat_push_bit_1: "k < 32 \<Longrightarrow> unat (push_bit k (1::u32)) = 2 ^ k"
  unfolding unsigned_push_bit_eq by (simp add: take_bit_nat_eq_self)

lemma is_aligned_exp: "k < 32 \<Longrightarrow> is_aligned n (push_bit k 1) \<longleftrightarrow> take_bit k n = 0"
  by (simp add: is_aligned_def take_bit_eq_mask mask_eq_exp_minus_1 push_bit_of_1)

text \<open>The fields \<open>fpage_set\<close> writes before it compares the size.\<close>

lemma fpage_fields:
  fixes g adr acc :: u32
  assumes "k < 64"
  defines "p \<equiv> bf_set 4 6 (of_nat k) (bf_set 0 3 (acc AND Acc_rwx) (bf_set 10 22 (drop_bit 10 adr) g))"
  shows "fpage_log2sz p = k" "fpage_access p = acc AND Acc_rwx" "fpage_addr p = adr AND NOT (mask 10)"
proof -
  have "unat (of_nat k :: u32) = k" using assms(1) by (simp add: unat_of_nat take_bit_nat_eq_self)
  then show "fpage_log2sz p = k" using assms(1) by (simp add: p_def fpage_log2sz_def bf_simps)
  have m: "Acc_rwx = mask 3" by (simp add: Acc_rwx_def Acc_r_def Acc_w_def Acc_x_def mask_eq_exp_minus_1)
  have "take_bit 3 (acc AND Acc_rwx) = acc AND Acc_rwx"
    unfolding m by (intro bit_word_eqI) (auto simp: bit_take_bit_iff bit_and_iff bit_mask_iff)
  then show "fpage_access p = acc AND Acc_rwx" by (simp add: p_def fpage_access_def bf_simps)
  show "fpage_addr p = adr AND NOT (mask 10)" unfolding fpage_addr_eq p_def
    by (intro bit_word_eqI) (auto simp: bit_bf_set bit_and_iff bit_not_iff bit_mask_iff bit_drop_bit_eq)
qed

lemma fpage_set_nil:
  assumes "\<nexists>k. 12 \<le> k \<and> k < 32 \<and> sz = push_bit k 1 \<and> is_aligned adr sz"
  shows "fpage_set g adr sz acc = fpage_Nil"
proof (rule ccontr)
  let ?k = "low_bit 32 sz 0"
  let ?p = "bf_set 4 6 (of_nat ?k) (bf_set 0 3 (acc AND Acc_rwx) (bf_set 10 22 (drop_bit 10 adr) g))"
  assume n: "fpage_set g adr sz acc \<noteq> fpage_Nil"
  then have a: "\<not> sz < 4096" "is_aligned adr sz" "fpage_size ?p = sz"
    by (auto simp: fpage_set_def Let_def split: if_splits)
  have "?k \<le> 32" using low_bit_le [of 32 sz 0] by simp
  then have sz: "sz = push_bit ?k 1" using a(3) fpage_fields(1) [of ?k] by (simp add: fpage_size_def)
  have "?k < 32"
  proof (rule ccontr)
    assume "\<not> ?k < 32"
    then have "push_bit ?k (1::u32) = 0" by (intro bit_word_eqI) (simp add: bit_exp_iff)
    with sz have "sz = 0" by (rule trans)
    then show False using a(1) by simp
  qed
  moreover have "12 \<le> ?k"
  proof (rule ccontr)
    assume "\<not> 12 \<le> ?k"
    then have lt: "?k < 12" by simp
    have "(2::nat) ^ ?k < 2 ^ 12" using lt by (intro power_strict_increasing) simp_all
    moreover have "unat sz = 2 ^ ?k" using unat_push_bit_1 [of ?k] lt arg_cong [OF sz, of unat] by linarith
    ultimately show False using a(1) by (simp add: word_less_nat_alt)
  qed
  ultimately show False using assms sz a(2) by blast
qed

lemma fpage_set_made:
  fixes g acc adr sz :: u32
  assumes "12 \<le> k" "k < 32" "sz = push_bit k 1" "is_aligned adr sz"
  defines "p \<equiv> fpage_set g adr sz acc"
  shows "\<not> fpage_is_nil p" "fpage_addr p = adr" "fpage_size p = sz" "fpage_access p = acc AND Acc_rwx"
proof -
  let ?p = "bf_set 4 6 (of_nat k) (bf_set 0 3 (acc AND Acc_rwx) (bf_set 10 22 (drop_bit 10 adr) g))"
  note f = fpage_fields [of k acc adr g]
  have l: "low_bit 32 sz 0 = k" using low_bit_exp [of k 32 0] assms by simp
  have "(2::nat) ^ 12 \<le> 2 ^ k" using assms(1) by (intro power_increasing) auto
  then have "\<not> sz < 4096" using assms(2,3) by (simp add: word_less_nat_alt unat_push_bit_1 del: push_bit_of_1)
  then have e: "p = ?p" using assms l f(1) by (simp add: fpage_set_def Let_def fpage_size_def)
  have "take_bit k adr = 0" using is_aligned_exp assms by blast
  then have "\<not> bit adr i" if "i < 10" for i using that assms(1) bit_take_bit_iff [of k adr i] by simp
  then have "adr AND NOT (mask 10) = adr"
    by (intro bit_word_eqI) (auto simp: bit_and_iff bit_not_iff bit_mask_iff)
  moreover have "?p \<noteq> 0" using f(1) assms by (auto simp: fpage_log2sz_def)
  ultimately show "\<not> fpage_is_nil p" "fpage_addr p = adr" "fpage_size p = sz" "fpage_access p = acc AND Acc_rwx"
    using f assms(1-3) unfolding e by (simp_all add: fpage_is_nil_def fpage_Nil_def fpage_size_def)
qed

text \<open>
  \<open>fpage_t::set\<close> makes a flexpage exactly when the size is a power of two of at least a page
  and the address is aligned to it; then the flexpage has that address and size and the access
  bits asked for, and it is neither \<open>Nil\<close> nor changed by what the object held before except in
  the bit \<open>null\<close>. In every other case the result is the \<open>Nil\<close> flexpage.
\<close>

theorem fpage_set_exact:
  "if \<exists>k. 12 \<le> k \<and> k < 32 \<and> sz = push_bit k 1 \<and> is_aligned adr sz
   then \<not> fpage_is_nil (fpage_set g adr sz acc) \<and> fpage_addr (fpage_set g adr sz acc) = adr
     \<and> fpage_size (fpage_set g adr sz acc) = sz \<and> fpage_access (fpage_set g adr sz acc) = acc AND Acc_rwx
   else fpage_is_nil (fpage_set g adr sz acc)"
proof (cases "\<exists>k. 12 \<le> k \<and> k < 32 \<and> sz = push_bit k 1 \<and> is_aligned adr sz")
  case False
  show ?thesis unfolding if_not_P [OF False] by (simp add: fpage_is_nil_def fpage_set_nil [OF False])
next
  case True
  then obtain k where k: "12 \<le> k" "k < 32" "sz = push_bit k 1" "is_aligned adr sz" by blast
  show ?thesis unfolding if_P [OF True] using fpage_set_made [OF k] by simp
qed

text \<open>
  Reading back an I/O flexpage is not always what was put in: the field \<open>base\<close> is declared \<open>long\<close>,
  so \<open>io_port()\<close> sign-extends the port numbers from \<open>0x8000\<close> on.
\<close>

lemma io_port_high: "fpage_io_port (fpage_set_io 0 0x8000 16) = 0xffff8000"
  by code_simp

section \<open>Message tags and error codes\<close>

text \<open>
  A message tag built by \<open>set_ipc\<close> gives back its label (with its sign), its number of untyped
  and typed words, says nothing failed, and is not propagated; setting one of its fields later
  changes that field only.
\<close>

theorem tag_ipc_roundtrip:
  assumes "- (2 ^ 13) \<le> label" "label < 2 ^ 13" "unat untyped < 256" "unat typed < 64" "unat v < 64"
  defines "t \<equiv> tag_set_ipc label untyped typed"
  shows "tag_ipc_label t = label \<and> tag_untyped t = untyped \<and> tag_typed t = typed
    \<and> \<not> tag_failed t \<and> \<not> tag_propagated t
    \<and> tag_typed (tag_set_failed (tag_set_typed v t)) = v \<and> tag_failed (tag_set_failed (tag_set_typed v t))
    \<and> tag_untyped (tag_set_failed (tag_set_typed v t)) = untyped
    \<and> tag_ipc_label (tag_set_failed (tag_set_typed v t)) = label"
proof -
  have l: "bf_get 18 14 t = take_bit 14 (word_of_int label)" by (simp add: t_def tag_set_ipc_def bf_simps)
  have "tag_ipc_label t = label" unfolding tag_ipc_label_def
    by (rule bf_sget_fits [OF l]) (use assms in simp_all)
  moreover have "tag_ipc_label (tag_set_failed (tag_set_typed v t)) = label" unfolding tag_ipc_label_def
    by (rule bf_sget_fits) (use assms l in \<open>simp_all add: tag_set_failed_def tag_set_typed_def bf_simps\<close>)
  moreover have "tag_untyped t = untyped" "tag_typed t = typed"
    using assms by (simp_all add: tag_untyped_def tag_typed_def tag_set_ipc_def bf_simps)
  moreover have "\<not> tag_failed t" "\<not> tag_propagated t"
    by (simp_all add: tag_failed_def tag_propagated_def t_def tag_set_ipc_def bf_simps)
  ultimately show ?thesis using assms(5)
    by (simp add: tag_typed_def tag_untyped_def tag_failed_def tag_set_failed_def tag_set_typed_def bf_simps)
qed

theorem tag_ipc_roundtrip_witness:
  "tag_ipc_label (tag_set_ipc (-2) 3 2) = -2 \<and> tag_typed (tag_set_failed (tag_set_typed 4 (tag_set_ipc (-2) 3 2))) = 4"
  using tag_ipc_roundtrip [of "-2" 3 2 4] by simp

lemma ipcerr_fields:
  assumes "unat e < 8" "unat n < 2 ^ 28"
  shows "ipcerr_error (ipcerr p e n) = e" "ipcerr_transferred (ipcerr p e n) = n"
    "ipcerr_is_snd_error (ipcerr p e n) \<longleftrightarrow> p = Snd_phase"
    "ipcerr_is_rcv_error (ipcerr p e n) \<longleftrightarrow> p = Rcv_phase"
  using assms
  by (cases p; simp add: ipcerr_def ipcerr_error_def ipcerr_transferred_def ipcerr_is_snd_error_def
      ipcerr_is_rcv_error_def bf_simps)+

end
