(* ===== verification/Threads.thy ===== *)
theory Threads
  imports L4_Types
begin

text \<open>
  Threads and the scheduler: \<open>krn/thread.h\<close>, \<open>krn/threads.h\<close>, \<open>krn/sched.h\<close>, \<open>krn/thrid.h\<close>,
  \<open>krn/kconfig.h\<close> and the timer and interrupt entries of \<open>krn/kentry.cpp\<close>. A thread is named by
  its index in \<open>_threads\<close>. The kernel's thread lists (\<open>list_t<Thread_t*, Threads_max>\<close>) are
  sequences of such indices with the capacity of the list written out; the theory of
  \<open>lib/containers/list.h\<close> shows that its operations are these on the pointer level. A thread's
  iterator \<open>_iter\<close> is the item of the list its state puts it in, so a list item is named by the
  thread it holds. Debug output, time accounting and the FPU context are left out.
\<close>

section \<open>Configuration and thread identifiers of the kernel\<close>

definition Ints_max :: nat where "Ints_max = 128"
definition Kthreads_max :: nat where "Kthreads_max = 1"
definition Thr_num_width :: nat where "Thr_num_width = 8"
definition Uthreads_max :: nat where "Uthreads_max = 2 ^ Thr_num_width - (Ints_max + Kthreads_max)"
definition Threads_max :: nat where "Threads_max = Kthreads_max + Uthreads_max"
definition Kip_thrid_user_base :: nat where "Kip_thrid_user_base = Ints_max + Kthreads_max"
definition Kip_thrid_number_max :: nat where "Kip_thrid_number_max = 2 ^ Thr_num_width - 1"
definition Timeslice_usec :: u32 where "Timeslice_usec = 50000"
definition Thread_number_min :: nat where "Thread_number_min = Ints_max"
definition Thread_number_max :: nat where "Thread_number_max = Ints_max + Threads_max - 1"

lemmas kcfg = Ints_max_def Kthreads_max_def Thr_num_width_def Uthreads_max_def Threads_max_def
  Kip_thrid_user_base_def Kip_thrid_number_max_def Thread_number_min_def Thread_number_max_def

lemma Threads_max_128 [simp]: "Threads_max = 128"
  by (simp add: kcfg)

definition thrid_sigma0 :: thrid where
  "thrid_sigma0 = create_global (of_nat (Kip_thrid_user_base + 0)) Def_glob_ver"

definition thrid_roottask :: thrid where
  "thrid_roottask = create_global (of_nat (Kip_thrid_user_base + 1)) Def_glob_ver"

definition thrid_int :: "nat \<Rightarrow> thrid res" where
  "thrid_int irq = res_bind (wassert (irq < Ints_max)) (\<lambda>_. Inr (create_irq (of_nat irq)))"

definition thrid_is_int :: "thrid \<Rightarrow> bool" where
  "thrid_is_int i = (thrid_is_global i \<and> unat (thrid_number i) < Ints_max \<and> thrid_version i = 1)"

definition thrid_is_global_user :: "thrid \<Rightarrow> bool" where
  "thrid_is_global_user i =
     (thrid_is_global i \<and> Kip_thrid_user_base \<le> unat (thrid_number i)
      \<and> unat (thrid_number i) \<le> Kip_thrid_number_max)"

section \<open>Threads\<close>

datatype tstate = Idle | Inactive | Active | Ready | Send_ipc | Send_pfault | Send_exception
  | Receive_ipc | Receive_pfault | Receive_exception

text \<open>The states with the bits \<open>Snd_mask\<close> and \<open>Rcv_mask\<close>.\<close>

definition is_snd_state :: "tstate \<Rightarrow> bool" where
  "is_snd_state s = (s \<in> {Send_ipc, Send_pfault, Send_exception})"

definition is_rcv_state :: "tstate \<Rightarrow> bool" where
  "is_rcv_state s = (s \<in> {Receive_ipc, Receive_pfault, Receive_exception})"

text \<open>
  \<open>Thread_t\<close>. Pointers to threads are indices; \<open>_task\<close> is the number of a task; the thread's UTCB,
  which the kernel reads through one of two virtual addresses, is part of the record; the entry
  frame is its 132 words.
\<close>

record thread =
  t_id :: nat
  t_flags :: u32
  t_task :: nat
  t_utcb_uva :: u32
  t_utcb_pa :: u64
  t_glob_id :: thrid
  t_sched_id :: thrid
  t_pager_id :: thrid
  t_sched :: "nat option"
  t_pager :: "nat option"
  t_state :: tstate
  t_timeout :: u64
  t_to :: thrid
  t_from_spec :: thrid
  t_pf_addr :: u32
  t_pf_inst :: u32
  t_pf_access :: u32
  t_exc_type :: int
  t_exc_pf :: u32
  t_prio :: u8
  t_inherited :: "(thrid \<times> nat) list"
  t_prio_heir :: thrid
  t_signal_pending :: bool
  t_update_point :: u64
  t_timeslice :: u32
  t_utcb :: utcb
  t_frame :: "u32 list"
  t_entry_type :: nat

text \<open>\<open>SystemClock_t::sys_clock\<close> is the field \<open>k_now\<close>; the interrupt threads are \<open>k_ints\<close>.\<close>

record int_thread =
  i_globid :: thrid
  i_handler :: thrid
  i_pending :: bool

record kernel =
  k_thr :: "nat \<Rightarrow> thread"
  k_bits :: "u32 list"
  k_ready :: "nat \<Rightarrow> nat list"
  k_send :: "nat list"
  k_snd_wait :: "nat list"
  k_rcv_wait :: "nat list"
  k_ints :: "int_thread list"
  k_now :: u64
  k_current :: nat

definition thr_upd :: "nat \<Rightarrow> (thread \<Rightarrow> thread) \<Rightarrow> kernel \<Rightarrow> kernel" where
  "thr_upd t f k = k\<lparr>k_thr := (k_thr k)(t := f (k_thr k t))\<rparr>"

definition t_localid :: "thread \<Rightarrow> thrid" where "t_localid th = t_utcb_uva th"
definition t_is_active :: "thread \<Rightarrow> bool" where "t_is_active th = (t_state th \<noteq> Inactive)"

definition Timeout_never :: u64 where "Timeout_never = -1"

subsection \<open>Time slices\<close>

text \<open>\<open>min\<close> takes \<open>size_t\<close> arguments, 32 bits here: the execution time is truncated.\<close>

definition timeslice_spend :: "u64 \<Rightarrow> thread \<Rightarrow> thread" where
  "timeslice_spend now th =
     th\<lparr>t_timeslice := t_timeslice th - min (ucast (now - t_update_point th)) (t_timeslice th)\<rparr>"

definition timeslice_start :: "u64 \<Rightarrow> thread \<Rightarrow> thread" where
  "timeslice_start now th = th\<lparr>t_update_point := now\<rparr>"

definition timeslice_stop :: "u64 \<Rightarrow> thread \<Rightarrow> thread" where
  "timeslice_stop now th = (timeslice_spend now th)\<lparr>t_update_point := 0\<rparr>"

definition timeslice_update :: "u64 \<Rightarrow> thread \<Rightarrow> thread" where
  "timeslice_update now th = (timeslice_spend now th)\<lparr>t_update_point := now\<rparr>"

subsection \<open>Inherited priorities\<close>

text \<open>\<open>inhprios_t\<close> is a sorted \<open>list_t\<close> of two items: a third entry panics.\<close>

fun insort_inh :: "thrid \<times> nat \<Rightarrow> (thrid \<times> nat) list \<Rightarrow> (thrid \<times> nat) list" where
  "insort_inh e [] = [e]"
| "insort_inh e (x # xs) = (if \<not> snd x < snd e then e # x # xs else x # insort_inh e xs)"

definition inherit_prio_find :: "thrid \<Rightarrow> thread \<Rightarrow> (thrid \<times> nat) option" where
  "inherit_prio_find owner th = find (\<lambda>e. fst e = owner) (t_inherited th)"

definition inherit_prio_add :: "thrid \<Rightarrow> nat \<Rightarrow> thread \<Rightarrow> thread res" where
  "inherit_prio_add owner priority th =
     res_bind (wassert (owner \<noteq> t_glob_id th)) (\<lambda>_.
     res_bind (wassert (inherit_prio_find owner th = None)) (\<lambda>_.
     if length (t_inherited th) < 2
     then Inr (th\<lparr>t_inherited := insort_inh (owner, priority) (t_inherited th)\<rparr>)
     else Inl Panic))"

definition inherit_prio_del :: "thrid \<Rightarrow> nat \<Rightarrow> thread \<Rightarrow> thread res" where
  "inherit_prio_del owner priority th =
     (let it = inherit_prio_find owner th in
      res_bind (wassert (owner \<noteq> t_glob_id th)) (\<lambda>_.
      case it of
        None \<Rightarrow> Inl Assert_failed
      | Some e \<Rightarrow> res_bind (wassert (snd e = priority)) (\<lambda>_.
          Inr (th\<lparr>t_inherited := remove1 e (t_inherited th)\<rparr>))))"

definition prio_max :: "thread \<Rightarrow> nat" where
  "prio_max th =
     (if t_inherited th = [] then unat (t_prio th)
      else max (unat (t_prio th)) (snd (last (t_inherited th))))"

section \<open>Thread lists\<close>

definition q_push :: "nat list \<Rightarrow> nat \<Rightarrow> nat list res" where
  "q_push q t = (if length q < Threads_max then Inr (q @ [t]) else Inl Panic)"

definition add_ready :: "nat \<Rightarrow> kernel \<Rightarrow> kernel res" where
  "add_ready t k =
     (let prio = unat (t_prio (k_thr k t)); que = k_ready k prio in
      res_bind (wassert (t \<notin> set que)) (\<lambda>_.
      res_bind (q_push que t) (\<lambda>que'.
      let g = prio div 32 in
      Inr (k\<lparr>k_ready := (k_ready k)(prio := que'),
             k_bits := (k_bits k)[g := k_bits k ! g OR push_bit (prio - g * 32) 1]\<rparr>))))"

definition del_ready :: "nat \<Rightarrow> kernel \<Rightarrow> kernel res" where
  "del_ready t k =
     (let prio = unat (t_prio (k_thr k t)); que = k_ready k prio in
      res_bind (wassert (t \<in> set que)) (\<lambda>_.
      let que' = remove1 t que; g = prio div 32 in
      Inr (k\<lparr>k_ready := (k_ready k)(prio := que'),
             k_bits := (if que' = [] then (k_bits k)[g := k_bits k ! g AND NOT (push_bit (prio - g * 32) 1)]
                        else k_bits k)\<rparr>)))"

definition add_send :: "nat \<Rightarrow> kernel \<Rightarrow> kernel res" where
  "add_send t k =
     res_bind (wassert (t \<notin> set (k_send k))) (\<lambda>_.
     res_bind (q_push (k_send k) t) (\<lambda>q. Inr (k\<lparr>k_send := q\<rparr>)))"

definition del_send :: "nat \<Rightarrow> kernel \<Rightarrow> kernel res" where
  "del_send t k =
     res_bind (wassert (t \<in> set (k_send k))) (\<lambda>_. Inr (k\<lparr>k_send := remove1 t (k_send k)\<rparr>))"

text \<open>Ordered by timeout, then by descending priority; insertion before the first later item.\<close>

definition waits_after :: "kernel \<Rightarrow> nat \<Rightarrow> nat \<Rightarrow> bool" where
  "waits_after k it t =
     (t_timeout (k_thr k it) > t_timeout (k_thr k t)
      \<or> (t_timeout (k_thr k it) = t_timeout (k_thr k t) \<and> t_prio (k_thr k it) < t_prio (k_thr k t)))"

fun insert_waiting :: "kernel \<Rightarrow> nat \<Rightarrow> nat list \<Rightarrow> nat list" where
  "insert_waiting k t [] = [t]"
| "insert_waiting k t (it # q) = (if waits_after k it t then t # it # q else it # insert_waiting k t q)"

definition add_timeout_waiting :: "kernel \<Rightarrow> nat \<Rightarrow> nat list \<Rightarrow> nat list res" where
  "add_timeout_waiting k t q =
     res_bind (wassert (t \<notin> set q)) (\<lambda>_.
     if length q < Threads_max then Inr (insert_waiting k t q) else Inl Panic)"

definition del_timeout_waiting :: "nat \<Rightarrow> nat list \<Rightarrow> nat list res" where
  "del_timeout_waiting t q = res_bind (wassert (t \<in> set q)) (\<lambda>_. Inr (remove1 t q))"

definition add_rcv_timeout_waiting :: "nat \<Rightarrow> kernel \<Rightarrow> kernel res" where
  "add_rcv_timeout_waiting t k =
     res_bind (wassert (t_state (k_thr k t) = Receive_ipc)) (\<lambda>_.
     res_bind (add_timeout_waiting k t (k_rcv_wait k)) (\<lambda>q. Inr (k\<lparr>k_rcv_wait := q\<rparr>)))"

definition add_snd_timeout_waiting :: "nat \<Rightarrow> kernel \<Rightarrow> kernel res" where
  "add_snd_timeout_waiting t k =
     res_bind (wassert (t_state (k_thr k t) = Send_ipc)) (\<lambda>_.
     res_bind (add_timeout_waiting k t (k_snd_wait k)) (\<lambda>q. Inr (k\<lparr>k_snd_wait := q\<rparr>)))"

definition del_rcv_timeout_waiting :: "nat \<Rightarrow> kernel \<Rightarrow> kernel res" where
  "del_rcv_timeout_waiting t k =
     res_bind (wassert (t_state (k_thr k t) = Receive_ipc)) (\<lambda>_.
     res_bind (del_timeout_waiting t (k_rcv_wait k)) (\<lambda>q. Inr (k\<lparr>k_rcv_wait := q\<rparr>)))"

definition del_snd_timeout_waiting :: "nat \<Rightarrow> kernel \<Rightarrow> kernel res" where
  "del_snd_timeout_waiting t k =
     res_bind (wassert (t_state (k_thr k t) = Send_ipc)) (\<lambda>_.
     res_bind (del_timeout_waiting t (k_snd_wait k)) (\<lambda>q. Inr (k\<lparr>k_snd_wait := q\<rparr>)))"

section \<open>Finding threads\<close>

definition find_num :: "kernel \<Rightarrow> nat \<Rightarrow> nat option" where
  "find_num k num =
     (if Thread_number_min \<le> num \<and> num \<le> Thread_number_max
      then (let t = num - Thread_number_min in
            if t_state (k_thr k t) = Idle then None else Some t)
      else None)"

definition find_by_utcb :: "kernel \<Rightarrow> u32 \<Rightarrow> nat option res" where
  "find_by_utcb k utcb =
     (case find (\<lambda>t. t_task (k_thr k t) = t_task (k_thr k (k_current k)) \<and> utcb = t_utcb_uva (k_thr k t))
             [0..<Threads_max] of
        None \<Rightarrow> Inl Panic
      | Some t \<Rightarrow> Inr (if t_state (k_thr k t) = Idle then None else Some t))"

definition find_thr :: "kernel \<Rightarrow> thrid \<Rightarrow> nat option res" where
  "find_thr k i =
     (if thrid_is_global i then Inr (find_num k (unat (thrid_number i)))
      else if thrid_is_local i then find_by_utcb k i
      else Inr None)"

section \<open>Thread state changes\<close>

definition leave_list :: "nat \<Rightarrow> kernel \<Rightarrow> kernel res" where
  "leave_list t k =
     (let th = k_thr k t; s = t_state th in
      if s = Ready then del_ready t k
      else if s = Send_ipc \<and> t_timeout th \<noteq> Timeout_never then del_snd_timeout_waiting t k
      else if s = Send_ipc \<or> s = Send_pfault \<or> s = Send_exception then del_send t k
      else if s = Receive_ipc \<and> t_timeout th \<noteq> Timeout_never then del_rcv_timeout_waiting t k
      else Inr k)"

definition clear_ipc :: "thread \<Rightarrow> thread" where
  "clear_ipc th =
     th\<lparr>t_timeout := 0, t_to := thrid_Nil, t_from_spec := thrid_Nil,
        t_pf_addr := 0, t_pf_inst := 0, t_pf_access := 0, t_timeslice := Timeslice_usec\<rparr>"

definition enter_list :: "nat \<Rightarrow> kernel \<Rightarrow> kernel res" where
  "enter_list t k =
     (let th = k_thr k t; s = t_state th in
      if s = Ready then add_ready t (thr_upd t clear_ipc k)
      else if s = Send_ipc \<and> t_timeout th \<noteq> Timeout_never then add_snd_timeout_waiting t k
      else if s = Send_ipc \<or> s = Send_pfault \<or> s = Send_exception then add_send t k
      else if s = Receive_ipc \<and> t_timeout th \<noteq> Timeout_never then add_rcv_timeout_waiting t k
      else Inr k)"

definition drop_heir :: "nat \<Rightarrow> kernel \<Rightarrow> kernel res" where
  "drop_heir t k =
     (let th = k_thr k t in
      if thrid_is_nil (t_prio_heir th) then Inr k
      else res_bind (find_thr k (t_prio_heir th)) (\<lambda>f.
        case f of
          None \<Rightarrow> Inl Assert_failed
        | Some h \<Rightarrow> res_bind (inherit_prio_del (t_glob_id th) (prio_max th) (k_thr k h)) (\<lambda>th'.
            Inr (thr_upd t (\<lambda>x. x\<lparr>t_prio_heir := thrid_Nil\<rparr>) (thr_upd h (\<lambda>_. th') k)))))"

definition set_state :: "nat \<Rightarrow> tstate \<Rightarrow> kernel \<Rightarrow> kernel res" where
  "set_state t s k =
     res_bind (wassert (t_state (k_thr k t) \<noteq> s)) (\<lambda>_.
     res_bind (leave_list t k) (\<lambda>k1.
     res_bind (enter_list t (thr_upd t (\<lambda>x. x\<lparr>t_state := s\<rparr>) k1)) (\<lambda>k2.
     drop_heir t k2)))"

definition set_prio :: "nat \<Rightarrow> u8 \<Rightarrow> kernel \<Rightarrow> kernel res" where
  "set_prio t v k =
     res_bind (if t_state (k_thr k t) = Ready then del_ready t k else Inr k) (\<lambda>k1.
     let k2 = thr_upd t (\<lambda>x. x\<lparr>t_prio := v\<rparr>) k1 in
     if t_state (k_thr k2 t) = Ready then add_ready t k2 else Inr k2)"

definition abs_timeout :: "kernel \<Rightarrow> l4time \<Rightarrow> u64" where
  "abs_timeout k timeout = (if time_is_never timeout then Timeout_never else k_now k + time_rel_usec timeout)"

definition save_rcv_phase :: "nat \<Rightarrow> l4time \<Rightarrow> thrid \<Rightarrow> kernel \<Rightarrow> kernel res" where
  "save_rcv_phase t timeout from_spec k =
     res_bind (wassert (time_is_rel timeout)) (\<lambda>_.
     set_state t Receive_ipc
       (thr_upd t (\<lambda>x. x\<lparr>t_timeout := abs_timeout k timeout, t_from_spec := from_spec\<rparr>) k))"

definition save_snd_phase :: "nat \<Rightarrow> l4time \<Rightarrow> thrid \<Rightarrow> kernel \<Rightarrow> kernel res" where
  "save_snd_phase t timeout to k =
     res_bind (wassert (time_is_rel timeout)) (\<lambda>_.
     set_state t Send_ipc
       (thr_upd t (\<lambda>x. x\<lparr>t_timeout := abs_timeout k timeout, t_to := to\<rparr>) k))"

section \<open>Scheduling\<close>

text \<open>\<open>timeslice_expired\<close> with the queue of priority \<open>prio\<close> as its argument \<open>que\<close>, and without one.\<close>

definition timeslice_expired_in :: "nat \<Rightarrow> nat \<Rightarrow> kernel \<Rightarrow> (nat \<times> kernel) res" where
  "timeslice_expired_in prio t k =
     res_bind (wassert (t_timeslice (k_thr k t) = 0)) (\<lambda>_.
     res_bind (wassert (t_state (k_thr k t) = Ready)) (\<lambda>_.
     let que = k_ready k prio; k1 = thr_upd t (\<lambda>x. x\<lparr>t_timeslice := Timeslice_usec\<rparr>) k in
     if length que > 1 then
       res_bind (q_push que t) (\<lambda>que'.
       let que'' = remove1 t que' in
       Inr (hd que'', k1\<lparr>k_ready := (k_ready k)(prio := que'')\<rparr>))
     else if que = [] then Inl Bad_access
     else Inr (hd que, k1)))"

definition timeslice_expired :: "nat \<Rightarrow> kernel \<Rightarrow> (nat \<times> kernel) res" where
  "timeslice_expired t k = timeslice_expired_in (unat (t_prio (k_thr k t))) t k"

definition top_bit :: "u32 \<Rightarrow> nat option" where
  "top_bit w = find (\<lambda>j. drop_bit j w AND 1 \<noteq> 0) (rev [0..<32])"

definition get_highest_prio_ready_thread :: "kernel \<Rightarrow> (nat \<times> kernel) res" where
  "get_highest_prio_ready_thread k =
     (case find (\<lambda>i. k_bits k ! i \<noteq> 0) (rev [0..<length (k_bits k)]) of
        None \<Rightarrow> Inl Panic
      | Some i \<Rightarrow>
          (case top_bit (k_bits k ! i) of
             None \<Rightarrow> Inl Panic
           | Some j \<Rightarrow>
               let prio = 32 * i + j; que = k_ready k prio in
               res_bind (wassert (que \<noteq> [])) (\<lambda>_.
               if t_timeslice (k_thr k (hd que)) = 0 then timeslice_expired_in prio (hd que) k
               else Inr (hd que, k))))"

text \<open>
  \<open>Sched_t::switch_to\<close> with \<open>Thread_t::context_switch\<close>: the processor and the address space are
  changed by assembly and MMU code; what stays in the kernel's data is the current thread and the
  time slices.
\<close>

definition switch_to :: "nat \<Rightarrow> kernel \<Rightarrow> kernel" where
  "switch_to nxt k =
     (let cur = k_current k in
      if cur \<noteq> nxt
      then thr_upd nxt (timeslice_start (k_now k)) (thr_upd cur (timeslice_stop (k_now k)) (k\<lparr>k_current := nxt\<rparr>))
      else k)"

definition switch_to_next :: "kernel \<Rightarrow> kernel res" where
  "switch_to_next k = res_bind (get_highest_prio_ready_thread k) (\<lambda>(nxt, k'). Inr (switch_to nxt k'))"

section \<open>Timeouts\<close>

definition timeout_error :: "thread \<Rightarrow> thread" where
  "timeout_error th =
     (let phase = (if t_state th = Send_ipc then Snd_phase else Rcv_phase); u = t_utcb th in
      th\<lparr>t_utcb := utcb_set_msgtag (tag_set_failed (utcb_msgtag u)) (u\<lparr>u_error := ipcerr phase L4_ipc_timeout 0\<rparr>)\<rparr>)"

text \<open>
  The loop over a waiting list. \<open>it + 1\<close> is taken before \<open>state(Ready)\<close> erases the current item
  and nothing else of the list, so the items visited are those of the list at entry, in order.
  The last block repeats what \<open>state(Ready)\<close> did with \<open>_prio_heir\<close>, which is \<open>Nil\<close> by then.
\<close>

fun expire_list :: "u64 \<Rightarrow> nat list \<Rightarrow> nat option \<Rightarrow> kernel \<Rightarrow> (nat option \<times> kernel) res" where
  "expire_list now [] next k = Inr (next, k)"
| "expire_list now (t # ts) next k =
     res_bind (wassert (t_state (k_thr k t) = Send_ipc \<or> t_state (k_thr k t) = Receive_ipc)) (\<lambda>_.
     if t_timeout (k_thr k t) > now then Inr (next, k)
     else
       res_bind (set_state t Ready (thr_upd t timeout_error k)) (\<lambda>k1.
       res_bind (drop_heir t k1) (\<lambda>k2.
       expire_list now ts (if next = None then Some t else next) k2)))"

definition check_ipc_timeouts :: "u64 \<Rightarrow> kernel \<Rightarrow> (nat option \<times> kernel) res" where
  "check_ipc_timeouts now k =
     res_bind (expire_list now (k_snd_wait k) None k) (\<lambda>(next1, k1).
     res_bind (expire_list now (k_rcv_wait k1) None k1) (\<lambda>(next2, k2).
     Inr (case (next1, next2) of
            (Some a, Some b) \<Rightarrow> Some (if prio_max (k_thr k2 a) > prio_max (k_thr k2 b) then a else b)
          | (Some a, None) \<Rightarrow> Some a
          | (None, Some b) \<Rightarrow> Some b
          | (None, None) \<Rightarrow> None, k2)))"

text \<open>\<open>kern_timer_tick\<close>; \<open>clk\<close> is the system clock after \<open>SystemClock_t::tick\<close>.\<close>

definition kern_timer_tick :: "u64 \<Rightarrow> kernel \<Rightarrow> kernel res" where
  "kern_timer_tick clk k =
     (let k0 = k\<lparr>k_now := clk\<rparr>; cur = k_current k0; k1 = thr_upd cur (timeslice_update clk) k0 in
      res_bind (check_ipc_timeouts clk k1) (\<lambda>(next1, k2).
      res_bind (if t_timeslice (k_thr k2 cur) = 0
                then res_bind (timeslice_expired cur k2) (\<lambda>(n, k3). Inr (Some n, k3))
                else Inr (None, k2)) (\<lambda>(next2, k3).
      Inr (case next1 of
             Some n \<Rightarrow> if prio_max (k_thr k3 n) > prio_max (k_thr k3 cur) then switch_to n k3
                       else (case next2 of Some m \<Rightarrow> switch_to m k3 | None \<Rightarrow> k3)
           | None \<Rightarrow> (case next2 of Some m \<Rightarrow> switch_to m k3 | None \<Rightarrow> k3)))))"

section \<open>Life of a thread\<close>

text \<open>
  \<open>Threads_t::create\<close> and \<open>remove\<close>. The name and the kernel stack are left out.
\<close>

definition thr_index :: "thrid \<Rightarrow> nat res" where
  "thr_index globid =
     res_bind (wassert (Thread_number_min \<le> unat (thrid_number globid)
                        \<and> unat (thrid_number globid) \<le> Thread_number_max)) (\<lambda>_.
     Inr (unat (thrid_number globid) - Thread_number_min))"

definition threads_create :: "thrid \<Rightarrow> thrid \<Rightarrow> thrid \<Rightarrow> nat \<Rightarrow> u8 \<Rightarrow> kernel \<Rightarrow> (nat \<times> kernel) res" where
  "threads_create globid sched pager tsk prio k =
     res_bind (thr_index globid) (\<lambda>t.
     res_bind (wassert (t_state (k_thr k t) = Idle)) (\<lambda>_.
     let k1 = thr_upd t (\<lambda>x. x\<lparr>t_task := tsk, t_glob_id := globid, t_sched_id := sched, t_pager_id := pager\<rparr>) k in
     res_bind (set_prio t prio k1) (\<lambda>k2.
     res_bind (set_state t Inactive k2) (\<lambda>k3. Inr (t, k3)))))"

definition threads_remove :: "thrid \<Rightarrow> kernel \<Rightarrow> kernel res" where
  "threads_remove globid k = res_bind (thr_index globid) (\<lambda>t. set_state t Idle k)"

text \<open>\<open>Thread_t::start\<close>; thread 1 is sigma0, which has no pager. The initial stack frame is left out.\<close>

definition thread_start :: "nat \<Rightarrow> u32 \<Rightarrow> u32 \<Rightarrow> kernel \<Rightarrow> kernel res" where
  "thread_start t entry_ip sp k =
     res_bind (wassert (t_state (k_thr k t) = Active)) (\<lambda>_.
     res_bind
       (if t_id (k_thr k t) \<noteq> 1 then
          res_bind (wassert (\<not> thrid_is_nil (t_pager_id (k_thr k t)))) (\<lambda>_.
          res_bind (wassert (\<not> thrid_is_nil (t_sched_id (k_thr k t)))) (\<lambda>_.
          res_bind (find_thr k (t_pager_id (k_thr k t))) (\<lambda>pg.
          res_bind (find_thr k (t_sched_id (k_thr k t))) (\<lambda>sc.
          res_bind (wassert (pg \<noteq> None \<and> sc \<noteq> None)) (\<lambda>_.
          Inr (thr_upd t (\<lambda>x. x\<lparr>t_pager := pg, t_sched := sc,
                 t_utcb := (t_utcb x)\<lparr>u_global_id := t_glob_id x\<rparr>\<rparr>) k))))))
        else Inr k) (\<lambda>k1.
     res_bind (wassert (t_utcb_uva (k_thr k1 t) \<noteq> 0 \<and> entry_ip \<noteq> 0)) (\<lambda>_.
     set_state t Ready k1)))"

section \<open>Boot state\<close>

text \<open>\<open>Thread_t::Thread_t\<close>, \<open>Int_thread_t::Int_thread_t\<close> and the static data of \<open>Threads_t\<close>.\<close>

definition utcb_zero :: utcb where
  "utcb_zero = \<lparr>u_global_id = 0, u_pager = 0, u_exc_handler = 0, u_user_defined_handle = 0, u_xfer_timeouts = 0,
     u_error = 0, u_receiver = 0, u_sender = 0, u_proc_no = 0, u_tls = replicate 21 0, u_br = replicate 33 0,
     u_mr = replicate 256 0\<rparr>"

definition thread_new :: "nat \<Rightarrow> thread" where
  "thread_new i = \<lparr>t_id = i, t_flags = 0, t_task = 0, t_utcb_uva = -1, t_utcb_pa = -1, t_glob_id = thrid_Nil,
     t_sched_id = thrid_Nil, t_pager_id = thrid_Nil, t_sched = None, t_pager = None, t_state = Idle,
     t_timeout = 0, t_to = thrid_Nil, t_from_spec = thrid_Nil, t_pf_addr = 0, t_pf_inst = 0, t_pf_access = 0,
     t_exc_type = 0, t_exc_pf = 0, t_prio = 0, t_inherited = [], t_prio_heir = thrid_Nil, t_signal_pending = False,
     t_update_point = 0, t_timeslice = 0, t_utcb = utcb_zero, t_frame = replicate 132 0, t_entry_type = 0\<rparr>"

definition int_thread_new :: "nat \<Rightarrow> int_thread" where
  "int_thread_new i = \<lparr>i_globid = create_irq (of_nat i), i_handler = thrid_Nil, i_pending = False\<rparr>"

definition kernel_new :: kernel where
  "kernel_new = \<lparr>k_thr = thread_new, k_bits = replicate 8 0, k_ready = (\<lambda>_. []), k_send = [], k_snd_wait = [],
     k_rcv_wait = [], k_ints = map int_thread_new [0..<Ints_max], k_now = 0, k_current = 0\<rparr>"

section \<open>The scheduling invariant\<close>

text \<open>The list a thread is in, from its state, priority and timeout.\<close>

datatype tlist = L_none | L_ready nat | L_send | L_snd_wait | L_rcv_wait

definition list_of :: "thread \<Rightarrow> tlist" where
  "list_of th =
     (case t_state th of
        Ready \<Rightarrow> L_ready (unat (t_prio th))
      | Send_ipc \<Rightarrow> if t_timeout th \<noteq> Timeout_never then L_snd_wait else L_send
      | Send_pfault \<Rightarrow> L_send
      | Send_exception \<Rightarrow> L_send
      | Receive_ipc \<Rightarrow> if t_timeout th \<noteq> Timeout_never then L_rcv_wait else L_none
      | _ \<Rightarrow> L_none)"

fun members :: "kernel \<Rightarrow> tlist \<Rightarrow> nat list" where
  "members k L_none = []"
| "members k (L_ready p) = k_ready k p"
| "members k L_send = k_send k"
| "members k L_snd_wait = k_snd_wait k"
| "members k L_rcv_wait = k_rcv_wait k"

text \<open>
  Every thread outside \<open>X\<close> is in exactly the list its state says, once; the bitmap of ready
  priorities says which ready queues hold a thread; the waiting lists are ordered by timeout.
\<close>

definition lists_inv :: "nat set \<Rightarrow> kernel \<Rightarrow> bool" where
  "lists_inv X k \<longleftrightarrow> (\<forall>l. l \<noteq> L_none \<longrightarrow> distinct (members k l)
     \<and> set (members k l) = {t. t < Threads_max \<and> t \<notin> X \<and> list_of (k_thr k t) = l})"

definition bits_inv :: "kernel \<Rightarrow> bool" where
  "bits_inv k \<longleftrightarrow> length (k_bits k) = 8
     \<and> (\<forall>p<256. bit (k_bits k ! (p div 32)) (p mod 32) \<longleftrightarrow> k_ready k p \<noteq> [])"

definition order_inv :: "kernel \<Rightarrow> bool" where
  "order_inv k \<longleftrightarrow> sorted (map (\<lambda>t. t_timeout (k_thr k t)) (k_snd_wait k))
     \<and> sorted (map (\<lambda>t. t_timeout (k_thr k t)) (k_rcv_wait k))"

definition sched_inv :: "kernel \<Rightarrow> bool" where
  "sched_inv k \<longleftrightarrow> lists_inv {} k \<and> bits_inv k \<and> order_inv k"

definition part_inv :: "nat \<Rightarrow> kernel \<Rightarrow> bool" where
  "part_inv t k \<longleftrightarrow> lists_inv {t} k \<and> bits_inv k \<and> order_inv k"

lemma thr_upd_simps [simp]:
  "k_thr (thr_upd t f k) u = (if u = t then f (k_thr k t) else k_thr k u)"
  "k_bits (thr_upd t f k) = k_bits k" "k_ready (thr_upd t f k) = k_ready k"
  "k_send (thr_upd t f k) = k_send k" "k_snd_wait (thr_upd t f k) = k_snd_wait k"
  "k_rcv_wait (thr_upd t f k) = k_rcv_wait k" "k_now (thr_upd t f k) = k_now k"
  "k_current (thr_upd t f k) = k_current k" "k_ints (thr_upd t f k) = k_ints k"
  by (simp_all add: thr_upd_def)

lemma members_thr_upd [simp]: "members (thr_upd t f k) l = members k l"
  by (cases l) simp_all

lemma lists_invD:
  "lists_inv X k \<Longrightarrow> l \<noteq> L_none \<Longrightarrow> distinct (members k l)"
  "lists_inv X k \<Longrightarrow> l \<noteq> L_none \<Longrightarrow>
     set (members k l) = {t. t < Threads_max \<and> t \<notin> X \<and> list_of (k_thr k t) = l}"
  by (auto simp: lists_inv_def)

text \<open>A thread that is missing from a list leaves room for it.\<close>

lemma members_room:
  assumes "lists_inv X k" "l \<noteq> L_none" "t < Threads_max" "t \<notin> set (members k l)"
  shows "length (members k l) < Threads_max"
proof -
  have "set (members k l) \<subseteq> {..<Threads_max} - {t}"
    using lists_invD(2) [OF assms(1,2)] assms(4) by auto
  then have "card (set (members k l)) \<le> card ({..<Threads_max} - {t})" by (intro card_mono) auto
  then show ?thesis
    using assms(3) distinct_card [OF lists_invD(1) [OF assms(1,2)]] by simp
qed

text \<open>What the lists depend on.\<close>

lemma lists_inv_frame:
  assumes "lists_inv X k" "\<And>l. members k' l = members k l"
    and "\<And>u. u \<notin> X \<Longrightarrow> list_of (k_thr k' u) = list_of (k_thr k u)"
  shows "lists_inv X k'"
proof -
  have "{t. t < Threads_max \<and> t \<notin> X \<and> list_of (k_thr k' t) = l}
      = {t. t < Threads_max \<and> t \<notin> X \<and> list_of (k_thr k t) = l}" for l
    using assms(3) by auto
  then show ?thesis using assms(1) by (simp add: lists_inv_def assms(2))
qed

lemma lists_inv_thr_upd:
  "lists_inv X k \<Longrightarrow> t \<in> X \<or> list_of (f (k_thr k t)) = list_of (k_thr k t) \<Longrightarrow> lists_inv X (thr_upd t f k)"
  by (erule lists_inv_frame) auto

lemma bits_inv_thr_upd [simp]: "bits_inv (thr_upd t f k) = bits_inv k"
  by (simp add: bits_inv_def)

lemma order_inv_frame:
  assumes "order_inv k" "k_snd_wait k' = k_snd_wait k" "k_rcv_wait k' = k_rcv_wait k"
    and "\<And>u. u \<in> set (k_snd_wait k) \<union> set (k_rcv_wait k) \<Longrightarrow> t_timeout (k_thr k' u) = t_timeout (k_thr k u)"
  shows "order_inv k'"
  using assms by (simp add: order_inv_def cong: map_cong)

lemma order_inv_thr_upd:
  "order_inv k \<Longrightarrow> t_timeout (f (k_thr k t)) = t_timeout (k_thr k t) \<or> t \<notin> set (k_snd_wait k) \<union> set (k_rcv_wait k)
   \<Longrightarrow> order_inv (thr_upd t f k)"
  by (erule order_inv_frame) auto

lemma part_inv_not_waiting: "part_inv t k \<Longrightarrow> t \<notin> set (k_snd_wait k) \<union> set (k_rcv_wait k)"
  using lists_invD(2) [of "{t}" k L_snd_wait] lists_invD(2) [of "{t}" k L_rcv_wait]
  by (auto simp: part_inv_def)

lemma part_inv_thr_upd: "part_inv t k \<Longrightarrow> part_inv t (thr_upd t f k)"
  using part_inv_not_waiting [of t k]
  by (auto simp: part_inv_def intro: lists_inv_thr_upd order_inv_thr_upd)

lemma sched_inv_thr_upd:
  "sched_inv k \<Longrightarrow> list_of (f (k_thr k t)) = list_of (k_thr k t)
   \<Longrightarrow> t_timeout (f (k_thr k t)) = t_timeout (k_thr k t) \<Longrightarrow> sched_inv (thr_upd t f k)"
  by (auto simp: sched_inv_def intro: lists_inv_thr_upd order_inv_thr_upd)

subsection \<open>Leaving and entering a list\<close>

lemma group_bit: "(p::nat) - p div 32 * 32 = p mod 32"
  by (simp add: minus_div_mult_eq_mod)

lemma other_bit:
  "p \<noteq> q \<Longrightarrow> p div 32 = q div 32 \<Longrightarrow> p mod 32 \<noteq> (q::nat) mod 32"
  by (metis div_mult_mod_eq)

text \<open>The effect of replacing one ready queue on the bitmap.\<close>

lemma bits_inv_set_queue:
  assumes "bits_inv k" "p < 256"
    and "w = (if q \<noteq> [] then k_bits k ! (p div 32) OR push_bit (p mod 32) 1
              else k_bits k ! (p div 32) AND NOT (push_bit (p mod 32) 1))"
  shows "bits_inv (k\<lparr>k_ready := (k_ready k)(p := q), k_bits := (k_bits k)[p div 32 := w]\<rparr>)"
proof -
  have len: "length (k_bits k) = 8" using assms(1) by (simp add: bits_inv_def)
  have "bit ((k_bits k)[p div 32 := w] ! (r div 32)) (r mod 32) \<longleftrightarrow> ((k_ready k)(p := q)) r \<noteq> []"
    if r: "r < 256" for r
  proof -
    have old: "bit (k_bits k ! (r div 32)) (r mod 32) \<longleftrightarrow> k_ready k r \<noteq> []"
      using assms(1) r by (simp add: bits_inv_def)
    show ?thesis
    proof (cases "r div 32 = p div 32")
      case True
      have "bit (push_bit (p mod 32) (1::u32)) (r mod 32) \<longleftrightarrow> r = p"
        using True other_bit [of r p] by (auto simp: bit_exp_iff)
      then show ?thesis using True old len r assms(2,3)
        by (auto simp: bit_or_iff bit_and_iff bit_not_iff simp del: push_bit_of_1)
    next
      case False
      then have "r \<noteq> p" by auto
      then show ?thesis using False old by simp
    qed
  qed
  then show ?thesis using len by (simp add: bits_inv_def)
qed

lemma lists_inv_remove:
  assumes "lists_inv {} k" "k_thr k' = k_thr k" "list_of (k_thr k t) = l"
    and "members k' l = remove1 t (members k l)" "\<And>m. m \<noteq> l \<Longrightarrow> members k' m = members k m"
  shows "lists_inv {t} k'"
  unfolding lists_inv_def
proof (intro allI impI)
  fix m assume "m \<noteq> L_none"
  note d = lists_invD [OF assms(1) this]
  show "distinct (members k' m) \<and> set (members k' m) = {u. u < Threads_max \<and> u \<notin> {t} \<and> list_of (k_thr k' u) = m}"
    using d assms(2-5) by (cases "m = l") auto
qed

lemma lists_inv_insert:
  assumes "lists_inv {t} k" "k_thr k' = k_thr k" "list_of (k_thr k t) = l" "t < Threads_max"
    and "distinct (members k' l) \<and> set (members k' l) = insert t (set (members k l)) \<or> l = L_none"
    and "\<And>m. m \<noteq> l \<Longrightarrow> members k' m = members k m"
  shows "lists_inv {} k'"
  unfolding lists_inv_def
proof (intro allI impI)
  fix m assume "m \<noteq> L_none"
  note d = lists_invD [OF assms(1) this]
  show "distinct (members k' m) \<and> set (members k' m) = {u. u < Threads_max \<and> u \<notin> {} \<and> list_of (k_thr k' u) = m}"
    using d assms(2-6) \<open>m \<noteq> L_none\<close> by (cases "m = l") auto
qed

text \<open>The parts of the kernel state the lists are not.\<close>

definition same_rest :: "kernel \<Rightarrow> kernel \<Rightarrow> bool" where
  "same_rest k k' \<longleftrightarrow> k_now k' = k_now k \<and> k_current k' = k_current k \<and> k_ints k' = k_ints k"

lemma same_rest_refl [simp]: "same_rest k k"
  by (simp add: same_rest_def)

lemma same_rest_trans [trans]: "same_rest a b \<Longrightarrow> same_rest b c \<Longrightarrow> same_rest a c"
  by (simp add: same_rest_def)

lemma same_rest_thr_upd [simp]: "same_rest k (thr_upd t f k)"
  by (simp add: same_rest_def)

lemma in_list:
  "lists_inv {} k \<Longrightarrow> t < Threads_max \<Longrightarrow> list_of (k_thr k t) = l \<Longrightarrow> l \<noteq> L_none \<Longrightarrow> t \<in> set (members k l)"
  using lists_invD(2) [of "{}" k l] by simp

lemma del_ready_ok:
  assumes "sched_inv k" "t < Threads_max" "t_state (k_thr k t) = Ready"
  shows "\<exists>k'. del_ready t k = Inr k' \<and> part_inv t k' \<and> k_thr k' = k_thr k \<and> same_rest k k'"
proof -
  let ?p = "unat (t_prio (k_thr k t))"
  let ?q = "remove1 t (k_ready k ?p)"
  have inv: "lists_inv {} k" "bits_inv k" "order_inv k" using assms(1) by (auto simp: sched_inv_def)
  have p: "?p < 256" using unsigned_less [of "t_prio (k_thr k t)"] by simp
  have l: "list_of (k_thr k t) = L_ready ?p" using assms(3) by (simp add: list_of_def)
  have "t \<in> set (k_ready k ?p)" using in_list [OF inv(1) assms(2) l] by simp
  moreover define k' where "k' = k\<lparr>k_ready := (k_ready k)(?p := ?q),
      k_bits := (if ?q = [] then (k_bits k)[?p div 32 := k_bits k ! (?p div 32) AND NOT (push_bit (?p - ?p div 32 * 32) 1)]
                 else k_bits k)\<rparr>"
  ultimately have k': "del_ready t k = Inr k'" by (simp add: del_ready_def Let_def)
  have "lists_inv {t} k'"
  proof (rule lists_inv_remove [OF inv(1) _ l])
    show "members k' m = members k m" if "m \<noteq> L_ready ?p" for m using that by (cases m) (auto simp: k'_def)
  qed (simp_all add: k'_def)
  moreover have "bits_inv k'"
  proof (cases "?q = []")
    case True
    then show ?thesis using bits_inv_set_queue [OF inv(2) p, of _ "[]"] by (simp add: k'_def group_bit)
  next
    case False
    then have ne: "k_ready k ?p \<noteq> []" by auto
    then show ?thesis using inv(2) False by (auto simp: bits_inv_def k'_def)
  qed
  moreover have "order_inv k'" by (rule order_inv_frame [OF inv(3)]) (simp_all add: k'_def)
  ultimately show ?thesis using k' by (simp add: part_inv_def k'_def same_rest_def)
qed

text \<open>The three lists that carry no bitmap.\<close>

fun put_members :: "tlist \<Rightarrow> nat list \<Rightarrow> kernel \<Rightarrow> kernel" where
  "put_members L_send q k = k\<lparr>k_send := q\<rparr>"
| "put_members L_snd_wait q k = k\<lparr>k_snd_wait := q\<rparr>"
| "put_members L_rcv_wait q k = k\<lparr>k_rcv_wait := q\<rparr>"
| "put_members _ q k = k"

definition plain_list :: "tlist \<Rightarrow> bool" where
  "plain_list l \<longleftrightarrow> l \<in> {L_send, L_snd_wait, L_rcv_wait}"

lemma put_members_simps [simp]:
  "plain_list l \<Longrightarrow> members (put_members l q k) m = (if m = l then q else members k m)"
  "k_thr (put_members l q k) = k_thr k" "k_bits (put_members l q k) = k_bits k"
  "k_ready (put_members l q k) = k_ready k" "same_rest k (put_members l q k)"
  by (cases m; auto simp: plain_list_def) (cases l; simp add: same_rest_def)+

lemma plain_list_not_none: "plain_list l \<Longrightarrow> l \<noteq> L_none"
  by (auto simp: plain_list_def)

lemma order_inv_put:
  assumes "order_inv k" "sorted (map (\<lambda>t. t_timeout (k_thr k t)) q) \<or> l = L_send"
  shows "order_inv (put_members l q k)"
  using assms by (cases l) (auto simp: order_inv_def)

lemma part_inv_remove:
  assumes "sched_inv k" "list_of (k_thr k t) = l" "plain_list l"
  shows "part_inv t (put_members l (remove1 t (members k l)) k)"
proof -
  have inv: "lists_inv {} k" "bits_inv k" "order_inv k" using assms(1) by (auto simp: sched_inv_def)
  have "sorted (map (\<lambda>t. t_timeout (k_thr k t)) (remove1 t (members k l))) \<or> l = L_send"
    using inv(3) assms(3) by (auto simp: order_inv_def plain_list_def sorted_map_remove1)
  then have "order_inv (put_members l (remove1 t (members k l)) k)" by (rule order_inv_put [OF inv(3)])
  moreover have "lists_inv {t} (put_members l (remove1 t (members k l)) k)"
    by (rule lists_inv_remove [OF inv(1) _ assms(2)]) (use assms(3) in simp_all)
  ultimately show ?thesis using inv(2) by (simp add: part_inv_def bits_inv_def)
qed

lemma leave_list_cases:
  assumes "lists_inv {} k" "t < Threads_max" "t_state (k_thr k t) \<noteq> Ready"
  shows "plain_list (list_of (k_thr k t)) \<and> leave_list t k
      = Inr (put_members (list_of (k_thr k t)) (remove1 t (members k (list_of (k_thr k t)))) k)
    \<or> list_of (k_thr k t) = L_none \<and> leave_list t k = Inr k"
  using assms(3) in_list [OF assms(1,2)]
  by (cases "t_state (k_thr k t)"; cases "t_timeout (k_thr k t) = Timeout_never")
    (auto simp: list_of_def leave_list_def plain_list_def del_send_def del_snd_timeout_waiting_def
      del_rcv_timeout_waiting_def del_timeout_waiting_def)

lemma leave_list_ok:
  assumes "sched_inv k" "t < Threads_max"
  shows "\<exists>k'. leave_list t k = Inr k' \<and> part_inv t k' \<and> k_thr k' = k_thr k \<and> same_rest k k'"
proof (cases "t_state (k_thr k t) = Ready")
  case True
  then show ?thesis using del_ready_ok [OF assms] by (simp add: leave_list_def Let_def)
next
  case False
  have inv: "lists_inv {} k" using assms(1) by (simp add: sched_inv_def)
  have "part_inv t k" if "list_of (k_thr k t) = L_none"
  proof -
    have "lists_inv {t} k" unfolding lists_inv_def using inv that by (auto simp: lists_inv_def)
    then show ?thesis using assms(1) by (simp add: part_inv_def sched_inv_def)
  qed
  then show ?thesis
    using leave_list_cases [OF inv assms(2) False] part_inv_remove [OF assms(1) refl] by auto
qed

subsubsection \<open>Waiting lists\<close>

lemma set_insert_waiting [simp]: "set (insert_waiting k t q) = insert t (set q)"
  by (induction q) auto

lemma distinct_insert_waiting: "distinct q \<Longrightarrow> t \<notin> set q \<Longrightarrow> distinct (insert_waiting k t q)"
  by (induction q) auto

lemma sorted_insert_waiting:
  "sorted (map (\<lambda>t. t_timeout (k_thr k t)) q) \<Longrightarrow> sorted (map (\<lambda>t. t_timeout (k_thr k t)) (insert_waiting k t q))"
  by (induction q) (auto simp: waits_after_def not_less intro: less_imp_le order.trans)

lemma out_of_lists: "part_inv t k \<Longrightarrow> l \<noteq> L_none \<Longrightarrow> t \<notin> set (members k l)"
  using lists_invD(2) [of "{t}" k l] by (auto simp: part_inv_def)

lemma add_ready_ok:
  assumes "part_inv t k" "t < Threads_max" "t_state (k_thr k t) = Ready"
  shows "\<exists>k'. add_ready t k = Inr k' \<and> sched_inv k' \<and> k_thr k' = k_thr k \<and> same_rest k k'"
proof -
  let ?p = "unat (t_prio (k_thr k t))"
  let ?q = "k_ready k ?p @ [t]"
  have inv: "lists_inv {t} k" "bits_inv k" "order_inv k" using assms(1) by (auto simp: part_inv_def)
  have p: "?p < 256" using unsigned_less [of "t_prio (k_thr k t)"] by simp
  have l: "list_of (k_thr k t) = L_ready ?p" using assms(3) by (simp add: list_of_def)
  have out: "t \<notin> set (k_ready k ?p)" using out_of_lists [OF assms(1), of "L_ready ?p"] by simp
  have room: "length (k_ready k ?p) < Threads_max"
    using members_room [OF inv(1), of "L_ready ?p"] out assms(2) by simp
  define k' where "k' = k\<lparr>k_ready := (k_ready k)(?p := ?q),
      k_bits := (k_bits k)[?p div 32 := k_bits k ! (?p div 32) OR push_bit (?p - ?p div 32 * 32) 1]\<rparr>"
  have k': "add_ready t k = Inr k'"
    using out room by (simp add: add_ready_def q_push_def Let_def k'_def del: Threads_max_128)
  have "lists_inv {} k'"
  proof (rule lists_inv_insert [OF inv(1) _ l assms(2)])
    show "members k' m = members k m" if "m \<noteq> L_ready ?p" for m using that by (cases m) (auto simp: k'_def)
  qed (use lists_invD(1) [OF inv(1), of "L_ready ?p"] out in \<open>simp_all add: k'_def\<close>)
  moreover have "bits_inv k'"
    using bits_inv_set_queue [OF inv(2) p, of _ ?q] by (simp add: k'_def group_bit)
  moreover have "order_inv k'" by (rule order_inv_frame [OF inv(3)]) (simp_all add: k'_def)
  ultimately show ?thesis using k' by (simp add: sched_inv_def k'_def same_rest_def)
qed

text \<open>What entering a list puts into it.\<close>

definition entered :: "kernel \<Rightarrow> nat \<Rightarrow> tlist \<Rightarrow> nat list" where
  "entered k t l = (if l = L_send then k_send k @ [t] else insert_waiting k t (members k l))"

lemma sched_inv_insert:
  assumes "part_inv t k" "list_of (k_thr k t) = l" "t < Threads_max" "plain_list l"
  shows "sched_inv (put_members l (entered k t l) k)"
proof -
  have inv: "lists_inv {t} k" "bits_inv k" "order_inv k" using assms(1) by (auto simp: part_inv_def)
  note out = out_of_lists [OF assms(1) plain_list_not_none [OF assms(4)]]
  note d = lists_invD(1) [OF inv(1) plain_list_not_none [OF assms(4)]]
  have "order_inv (put_members l (entered k t l) k)"
    using inv(3) assms(4) by (intro order_inv_put) (auto simp: order_inv_def plain_list_def entered_def sorted_insert_waiting)
  moreover have "lists_inv {} (put_members l (entered k t l) k)"
    by (rule lists_inv_insert [OF inv(1) _ assms(2,3)])
      (use assms(4) d out in \<open>auto simp: entered_def distinct_insert_waiting\<close>)
  ultimately show ?thesis using inv(2) by (simp add: sched_inv_def bits_inv_def)
qed

lemma room_for:
  assumes "part_inv t k" "t < Threads_max" "plain_list l"
  shows "t \<notin> set (members k l)" "length (members k l) < Threads_max"
  using out_of_lists [OF assms(1)] members_room [of "{t}" k l t] assms plain_list_not_none [OF assms(3)]
  by (simp_all add: part_inv_def del: Threads_max_128)

lemma enter_list_cases:
  assumes "part_inv t k" "t < Threads_max" "t_state (k_thr k t) \<noteq> Ready"
  shows "plain_list (list_of (k_thr k t)) \<and> enter_list t k
      = Inr (put_members (list_of (k_thr k t)) (entered k t (list_of (k_thr k t))) k)
    \<or> list_of (k_thr k t) = L_none \<and> enter_list t k = Inr k"
proof -
  let ?th = "k_thr k t"
  note room = room_for [OF assms(1,2), of L_send] room_for [OF assms(1,2), of L_snd_wait]
    room_for [OF assms(1,2), of L_rcv_wait]
  consider (snd_wait) "t_state ?th = Send_ipc" "list_of ?th = L_snd_wait" "t_timeout ?th \<noteq> Timeout_never"
    | (send) "list_of ?th = L_send" "enter_list t k = add_send t k"
    | (rcv_wait) "t_state ?th = Receive_ipc" "list_of ?th = L_rcv_wait" "t_timeout ?th \<noteq> Timeout_never"
    | (none) "list_of ?th = L_none" "enter_list t k = Inr k"
    using assms(3) by (cases "t_state ?th"; cases "t_timeout ?th = Timeout_never") (auto simp: list_of_def enter_list_def)
  then show ?thesis
  proof cases
    case snd_wait
    then show ?thesis using room(3,4)
      by (simp add: enter_list_def add_snd_timeout_waiting_def add_timeout_waiting_def plain_list_def entered_def)
  next
    case send
    then show ?thesis using room(1,2) by (simp add: add_send_def q_push_def plain_list_def entered_def)
  next
    case rcv_wait
    then show ?thesis using room(5,6)
      by (simp add: enter_list_def add_rcv_timeout_waiting_def add_timeout_waiting_def plain_list_def entered_def)
  qed simp
qed

lemma clear_ipc_simps [simp]:
  "t_state (clear_ipc th) = t_state th" "t_prio (clear_ipc th) = t_prio th"
  "t_inherited (clear_ipc th) = t_inherited th" "t_prio_heir (clear_ipc th) = t_prio_heir th"
  "t_glob_id (clear_ipc th) = t_glob_id th" "t_utcb (clear_ipc th) = t_utcb th"
  "t_task (clear_ipc th) = t_task th" "t_utcb_uva (clear_ipc th) = t_utcb_uva th"
  by (simp_all add: clear_ipc_def)

text \<open>The thread record after it entered the list of its state.\<close>

definition enter_thread :: "thread \<Rightarrow> thread" where
  "enter_thread th = (if t_state th = Ready then clear_ipc th else th)"

lemma enter_list_ok:
  assumes "part_inv t k" "t < Threads_max"
  shows "\<exists>k'. enter_list t k = Inr k' \<and> sched_inv k' \<and> k_thr k' = (k_thr k)(t := enter_thread (k_thr k t)) \<and> same_rest k k'"
proof (cases "t_state (k_thr k t) = Ready")
  case True
  let ?k = "thr_upd t clear_ipc k"
  have "part_inv t ?k" "t_state (k_thr ?k t) = Ready" using part_inv_thr_upd [OF assms(1)] True by simp_all
  from add_ready_ok [OF this(1) assms(2) this(2)]
  obtain k' where "add_ready t ?k = Inr k'" "sched_inv k'" "k_thr k' = k_thr ?k" "same_rest ?k k'" by blast
  then show ?thesis using True
    by (simp add: enter_list_def Let_def enter_thread_def thr_upd_def same_rest_def)
next
  case False
  have "sched_inv k" if "list_of (k_thr k t) = L_none"
    using lists_inv_insert [of t k k L_none] that assms by (simp add: part_inv_def sched_inv_def)
  then show ?thesis
    using enter_list_cases [OF assms False] sched_inv_insert [OF assms(1) refl assms(2)] False
    by (auto simp: enter_thread_def)
qed

subsection \<open>The priority heir\<close>

text \<open>
  A thread that lent its priority is found in its heir's list of inherited priorities, with the
  priority it has now.
\<close>

definition heir_ok :: "kernel \<Rightarrow> nat \<Rightarrow> bool" where
  "heir_ok k t \<longleftrightarrow> thrid_is_nil (t_prio_heir (k_thr k t))
     \<or> (\<exists>h e. thrid_is_global (t_prio_heir (k_thr k t))
          \<and> find_num k (unat (thrid_number (t_prio_heir (k_thr k t)))) = Some h \<and> h \<noteq> t
          \<and> t_glob_id (k_thr k t) \<noteq> t_glob_id (k_thr k h)
          \<and> inherit_prio_find (t_glob_id (k_thr k t)) (k_thr k h) = Some e
          \<and> snd e = prio_max (k_thr k t))"

text \<open>
  What a state change of thread \<open>t\<close> leaves of the other threads: all but the priority that its
  heir inherited from it.
\<close>

definition is_heir :: "kernel \<Rightarrow> nat \<Rightarrow> nat \<Rightarrow> bool" where
  "is_heir k t h \<longleftrightarrow> \<not> thrid_is_nil (t_prio_heir (k_thr k t))
     \<and> find_num k (unat (thrid_number (t_prio_heir (k_thr k t)))) = Some h"

definition others_kept :: "nat \<Rightarrow> kernel \<Rightarrow> kernel \<Rightarrow> bool" where
  "others_kept t k k' \<longleftrightarrow> (\<forall>u. u \<noteq> t \<longrightarrow> k_thr k' u = k_thr k u
     \<or> is_heir k t u \<and> (\<exists>p. k_thr k' u =
          (k_thr k u)\<lparr>t_inherited := remove1 (t_glob_id (k_thr k t), p) (t_inherited (k_thr k u))\<rparr>))"

lemma others_kept_field:
  assumes "others_kept t k k'" "u \<noteq> t"
  shows "t_state (k_thr k' u) = t_state (k_thr k u)" "t_prio (k_thr k' u) = t_prio (k_thr k u)"
    "t_timeout (k_thr k' u) = t_timeout (k_thr k u)" "t_utcb (k_thr k' u) = t_utcb (k_thr k u)"
    "t_prio_heir (k_thr k' u) = t_prio_heir (k_thr k u)" "t_glob_id (k_thr k' u) = t_glob_id (k_thr k u)"
proof -
  have "\<exists>i. k_thr k' u = (k_thr k u)\<lparr>t_inherited := i\<rparr>"
  proof (cases "k_thr k' u = k_thr k u")
    case True
    then show ?thesis by (intro exI [of _ "t_inherited (k_thr k u)"]) simp
  next
    case False
    then show ?thesis using assms unfolding others_kept_def by blast
  qed
  then obtain i where "k_thr k' u = (k_thr k u)\<lparr>t_inherited := i\<rparr>" ..
  then show "t_state (k_thr k' u) = t_state (k_thr k u)" "t_prio (k_thr k' u) = t_prio (k_thr k u)"
    "t_timeout (k_thr k' u) = t_timeout (k_thr k u)" "t_utcb (k_thr k' u) = t_utcb (k_thr k u)"
    "t_prio_heir (k_thr k' u) = t_prio_heir (k_thr k u)" "t_glob_id (k_thr k' u) = t_glob_id (k_thr k u)"
    by simp_all
qed

lemma list_of_cong:
  "t_state a = t_state b \<Longrightarrow> t_prio a = t_prio b \<Longrightarrow> t_timeout a = t_timeout b \<Longrightarrow> list_of a = list_of b"
  by (simp add: list_of_def cong: tstate.case_cong)

lemma others_kept_refl [simp]: "others_kept t k k"
  by (simp add: others_kept_def)

lemma drop_heir_ok:
  assumes "heir_ok k t"
  shows "\<exists>k'. drop_heir t k = Inr k' \<and> others_kept t k k' \<and> same_rest k k'
    \<and> k_thr k' t = (k_thr k t)\<lparr>t_prio_heir := thrid_Nil\<rparr> \<and> (sched_inv k \<longrightarrow> sched_inv k')"
proof (cases "thrid_is_nil (t_prio_heir (k_thr k t))")
  case True
  then have "(k_thr k t)\<lparr>t_prio_heir := thrid_Nil\<rparr> = k_thr k t" by (simp add: thrid_is_nil_def)
  then show ?thesis using True by (simp add: drop_heir_def)
next
  case False
  then obtain h e where h: "thrid_is_global (t_prio_heir (k_thr k t))"
    "find_num k (unat (thrid_number (t_prio_heir (k_thr k t)))) = Some h" "h \<noteq> t"
    "t_glob_id (k_thr k t) \<noteq> t_glob_id (k_thr k h)"
    "inherit_prio_find (t_glob_id (k_thr k t)) (k_thr k h) = Some e" "snd e = prio_max (k_thr k t)"
    using assms by (auto simp: heir_ok_def)
  let ?th = "(k_thr k h)\<lparr>t_inherited := remove1 e (t_inherited (k_thr k h))\<rparr>"
  let ?k1 = "thr_upd h (\<lambda>_. ?th) k"
  let ?k' = "thr_upd t (\<lambda>x. x\<lparr>t_prio_heir := thrid_Nil\<rparr>) ?k1"
  have "drop_heir t k = Inr ?k'"
    using False h by (simp add: drop_heir_def Let_def find_thr_def inherit_prio_del_def)
  moreover have "fst e = t_glob_id (k_thr k t)" using h(5) by (auto simp: inherit_prio_find_def find_Some_iff)
  then have e: "(t_glob_id (k_thr k t), snd e) = e" by (simp add: prod_eq_iff)
  have "others_kept t k ?k'" unfolding others_kept_def
  proof (intro allI impI)
    fix u assume "u \<noteq> t"
    then show "k_thr ?k' u = k_thr k u \<or> is_heir k t u \<and> (\<exists>p. k_thr ?k' u =
        (k_thr k u)\<lparr>t_inherited := remove1 (t_glob_id (k_thr k t), p) (t_inherited (k_thr k u))\<rparr>)"
    proof (cases "u = h")
      case True
      then have "k_thr ?k' u = (k_thr k u)\<lparr>t_inherited := remove1 (t_glob_id (k_thr k t), snd e) (t_inherited (k_thr k u))\<rparr>"
        using h(3) e by simp
      then show ?thesis using h(2) False True unfolding is_heir_def by blast
    qed simp
  qed
  moreover have "sched_inv ?k'" if "sched_inv k"
    using that by (intro sched_inv_thr_upd) (auto intro: list_of_cong)
  ultimately show ?thesis using h(3) by (simp add: same_rest_def)
qed

text \<open>The central operation: a state change of a well-kept thread returns, and keeps every list.\<close>

lemma prio_max_cong: "t_prio a = t_prio b \<Longrightarrow> t_inherited a = t_inherited b \<Longrightarrow> prio_max a = prio_max b"
  by (simp add: prio_max_def)

lemma enter_thread_simps [simp]:
  "t_state (enter_thread th) = t_state th" "t_prio (enter_thread th) = t_prio th"
  "t_inherited (enter_thread th) = t_inherited th" "t_prio_heir (enter_thread th) = t_prio_heir th"
  "t_glob_id (enter_thread th) = t_glob_id th" "t_utcb (enter_thread th) = t_utcb th"
  by (simp_all add: enter_thread_def)

lemma heir_ok_cong:
  assumes "heir_ok k t" "\<And>u. u \<noteq> t \<Longrightarrow> k_thr k' u = k_thr k u"
    and "t_prio_heir (k_thr k' t) = t_prio_heir (k_thr k t)" "t_glob_id (k_thr k' t) = t_glob_id (k_thr k t)"
    and "t_prio (k_thr k' t) = t_prio (k_thr k t)" "t_inherited (k_thr k' t) = t_inherited (k_thr k t)"
  shows "heir_ok k' t"
proof (cases "thrid_is_nil (t_prio_heir (k_thr k t))")
  case False
  then obtain h e where h: "thrid_is_global (t_prio_heir (k_thr k t))"
    "find_num k (unat (thrid_number (t_prio_heir (k_thr k t)))) = Some h" "h \<noteq> t"
    "t_glob_id (k_thr k t) \<noteq> t_glob_id (k_thr k h)"
    "inherit_prio_find (t_glob_id (k_thr k t)) (k_thr k h) = Some e" "snd e = prio_max (k_thr k t)"
    using assms(1) by (auto simp: heir_ok_def)
  have "find_num k' (unat (thrid_number (t_prio_heir (k_thr k' t)))) = Some h"
    using h(2,3) assms(2,3) by (auto simp: find_num_def Let_def split: if_splits)
  moreover have "prio_max (k_thr k' t) = prio_max (k_thr k t)" by (rule prio_max_cong [OF assms(5,6)])
  moreover have "k_thr k' h = k_thr k h" using assms(2) h(3) by simp
  ultimately show ?thesis unfolding heir_ok_def using h assms(3,4)
    by (intro disjI2 exI [of _ h] exI [of _ e]) simp
qed (use assms(3) in \<open>simp add: heir_ok_def\<close>)

lemma set_state_ok:
  assumes "sched_inv k" "t < Threads_max" "t_state (k_thr k t) \<noteq> s" "heir_ok k t"
  shows "\<exists>k'. set_state t s k = Inr k' \<and> sched_inv k' \<and> others_kept t k k' \<and> same_rest k k'
    \<and> k_thr k' t = (enter_thread ((k_thr k t)\<lparr>t_state := s\<rparr>))\<lparr>t_prio_heir := thrid_Nil\<rparr>"
proof -
  obtain k1 where k1: "leave_list t k = Inr k1" "part_inv t k1" "k_thr k1 = k_thr k" "same_rest k k1"
    using leave_list_ok [OF assms(1,2)] by blast
  let ?k1 = "thr_upd t (\<lambda>x. x\<lparr>t_state := s\<rparr>) k1"
  obtain k2 where k2: "enter_list t ?k1 = Inr k2" "sched_inv k2" "same_rest ?k1 k2"
    "k_thr k2 = (k_thr ?k1)(t := enter_thread (k_thr ?k1 t))"
    using enter_list_ok [OF part_inv_thr_upd [OF k1(2)] assms(2)] by blast
  have "heir_ok k2 t" using k1(3) k2(4) by (intro heir_ok_cong [OF assms(4)]) simp_all
  from drop_heir_ok [OF this] obtain k' where k': "drop_heir t k2 = Inr k'" "others_kept t k2 k'" "same_rest k2 k'"
    "k_thr k' t = (k_thr k2 t)\<lparr>t_prio_heir := thrid_Nil\<rparr>" "sched_inv k'"
    using k2(2) by blast
  have "is_heir k t u" if "is_heir k2 t u" "u \<noteq> t" for u
    using that k1(3) k2(4) by (auto simp: is_heir_def find_num_def Let_def split: if_splits)
  then have "others_kept t k k'" using k'(2) k1(3) k2(4) by (auto simp: others_kept_def)
  moreover have "same_rest k k'" using k1(4) k2(3) k'(3) by (simp add: same_rest_def)
  ultimately show ?thesis
    using assms(3) k1 k2 k' by (simp add: set_state_def)
qed

lemma kernel_new_inv: "sched_inv kernel_new"
proof -
  have "list_of (thread_new t) = L_none" for t by (simp add: list_of_def thread_new_def)
  moreover have "members kernel_new l = []" for l by (cases l) (simp_all add: kernel_new_def)
  moreover have "replicate 8 (0::u32) ! (p div 32) = 0" if "p < 256" for p :: nat
    using that by (intro nth_replicate) linarith
  ultimately show ?thesis
    by (auto simp: sched_inv_def lists_inv_def bits_inv_def order_inv_def kernel_new_def)
qed

text \<open>Every operation that returns keeps the invariant, whatever the state of the inherited priorities.\<close>

lemma drop_heir_inv:
  assumes "drop_heir t k = Inr k'" "sched_inv k"
  shows "sched_inv k'"
proof (cases "thrid_is_nil (t_prio_heir (k_thr k t))")
  case False
  then obtain h th where h: "inherit_prio_del (t_glob_id (k_thr k t)) (prio_max (k_thr k t)) (k_thr k h) = Inr th"
    and k': "k' = thr_upd t (\<lambda>x. x\<lparr>t_prio_heir := thrid_Nil\<rparr>) (thr_upd h (\<lambda>_. th) k)"
    using assms(1) by (auto simp: drop_heir_def Let_def split: option.splits)
  have "t_state th = t_state (k_thr k h)" "t_prio th = t_prio (k_thr k h)" "t_timeout th = t_timeout (k_thr k h)"
    using h by (auto simp: inherit_prio_del_def Let_def split: option.splits)
  then have "sched_inv (thr_upd h (\<lambda>_. th) k)"
    using assms(2) by (intro sched_inv_thr_upd) (auto intro: list_of_cong)
  then show ?thesis unfolding k' by (rule sched_inv_thr_upd) (auto intro: list_of_cong)
qed (use assms in \<open>simp add: drop_heir_def\<close>)

lemma set_state_inv:
  assumes "set_state t s k = Inr k'" "sched_inv k" "t < Threads_max"
  shows "sched_inv k'"
proof -
  obtain k1 where k1: "leave_list t k = Inr k1" "part_inv t k1" using leave_list_ok [OF assms(2,3)] by blast
  obtain k2 where k2: "enter_list t (thr_upd t (\<lambda>x. x\<lparr>t_state := s\<rparr>) k1) = Inr k2" "sched_inv k2"
    using enter_list_ok [OF part_inv_thr_upd [OF k1(2)] assms(3)] by blast
  have "drop_heir t k2 = Inr k'" using assms(1) k1 k2 by (auto simp: set_state_def)
  then show ?thesis using k2(2) by (rule drop_heir_inv)
qed

lemma set_prio_ok:
  assumes "sched_inv k" "t < Threads_max"
  shows "\<exists>k'. set_prio t v k = Inr k' \<and> sched_inv k' \<and> k_thr k' = (k_thr k)(t := (k_thr k t)\<lparr>t_prio := v\<rparr>) \<and> same_rest k k'"
proof (cases "t_state (k_thr k t) = Ready")
  case True
  obtain k1 where k1: "del_ready t k = Inr k1" "part_inv t k1" "k_thr k1 = k_thr k" "same_rest k k1"
    using del_ready_ok [OF assms True] by blast
  let ?k1 = "thr_upd t (\<lambda>x. x\<lparr>t_prio := v\<rparr>) k1"
  have "t_state (k_thr ?k1 t) = Ready" using True k1(3) by simp
  from add_ready_ok [OF part_inv_thr_upd [OF k1(2)] assms(2) this]
  obtain k' where "add_ready t ?k1 = Inr k'" "sched_inv k'" "k_thr k' = k_thr ?k1" "same_rest ?k1 k'" by blast
  then show ?thesis using True k1 by (auto simp: set_prio_def Let_def same_rest_def thr_upd_def)
next
  case False
  have "list_of ((k_thr k t)\<lparr>t_prio := v\<rparr>) = list_of (k_thr k t)"
    using False by (cases "t_state (k_thr k t)") (simp_all add: list_of_def)
  then have "sched_inv (thr_upd t (\<lambda>x. x\<lparr>t_prio := v\<rparr>) k)" using assms(1) by (intro sched_inv_thr_upd) simp_all
  then show ?thesis using False by (simp add: set_prio_def Let_def thr_upd_def same_rest_def)
qed

end
