(* ===== verification/Sched.thy ===== *)
theory Sched
  imports Threads
begin

text \<open>
  Properties of the scheduler and the timer (\<open>krn/threads.h\<close>, \<open>krn/sched.h\<close>, \<open>krn/kentry.cpp\<close>):
  which thread is picked, what a timer tick wakes up, and that every sequence of scheduling
  operations keeps the lists, the bitmap and the order of the waiting lists.
\<close>

section \<open>The scheduler picks the highest priority\<close>

lemma find_rev_upt:
  assumes "i < n" "P i" "\<And>j. i < j \<Longrightarrow> j < n \<Longrightarrow> \<not> P j"
  shows "find P (rev [0..<n]) = Some i"
  using assms
proof (induction n)
  case (Suc n)
  then show ?case by (cases "i = n") auto
qed simp

lemma top_bit_eq:
  assumes "j < 32" "bit w j" "\<And>i. j < i \<Longrightarrow> i < 32 \<Longrightarrow> \<not> bit w i"
  shows "top_bit w = Some j"
proof -
  have "drop_bit i w AND 1 \<noteq> 0 \<longleftrightarrow> bit w i" for i
    by (simp add: and_one_eq bit_iff_odd_drop_bit mod_2_eq_odd)
  then show ?thesis unfolding top_bit_def using assms by (intro find_rev_upt) auto
qed

lemma word_nonzero_bit: "(w::u32) \<noteq> 0 \<longleftrightarrow> (\<exists>j<32. bit w j)"
proof -
  have "w = 0" if "\<forall>j<32. \<not> bit w j" using that by (intro bit_word_eqI) simp
  then show ?thesis by auto
qed

lemma highest_group:
  assumes "bits_inv k" "p < 256" "k_ready k p \<noteq> []" "\<And>q. p < q \<Longrightarrow> q < 256 \<Longrightarrow> k_ready k q = []"
  shows "find (\<lambda>i. k_bits k ! i \<noteq> 0) (rev [0..<length (k_bits k)]) = Some (p div 32)"
    "top_bit (k_bits k ! (p div 32)) = Some (p mod 32)"
proof -
  have len: "length (k_bits k) = 8" and b: "\<And>q. q < 256 \<Longrightarrow> bit (k_bits k ! (q div 32)) (q mod 32) \<longleftrightarrow> k_ready k q \<noteq> []"
    using assms(1) by (auto simp: bits_inv_def)
  have at: "bit (k_bits k ! i) j \<longleftrightarrow> k_ready k (32 * i + j) \<noteq> []" if "i < 8" "j < 32" for i j
    using b [of "32 * i + j"] that by simp
  have pm: "p div 32 < 8" "p mod 32 < 32" "32 * (p div 32) + p mod 32 = p" using assms(2) by auto
  have "bit (k_bits k ! (p div 32)) (p mod 32)" using b assms(2,3) by simp
  then have nz: "k_bits k ! (p div 32) \<noteq> 0" using word_nonzero_bit pm(2) by blast
  have above: "k_bits k ! i = 0" if "p div 32 < i" "i < 8" for i
  proof (rule ccontr)
    assume "k_bits k ! i \<noteq> 0"
    then obtain j where "j < 32" "bit (k_bits k ! i) j" using word_nonzero_bit by blast
    then have "k_ready k (32 * i + j) \<noteq> []" using at that by blast
    moreover have "p < 32 * i + j" "32 * i + j < 256" using that \<open>j < 32\<close> by linarith+
    ultimately show False using assms(4) by blast
  qed
  show "find (\<lambda>i. k_bits k ! i \<noteq> 0) (rev [0..<length (k_bits k)]) = Some (p div 32)"
    unfolding len using pm(1) nz above by (intro find_rev_upt) auto
  show "top_bit (k_bits k ! (p div 32)) = Some (p mod 32)"
  proof (rule top_bit_eq [OF pm(2)])
    show "bit (k_bits k ! (p div 32)) (p mod 32)" using b assms(2,3) by simp
    fix i assume i: "p mod 32 < i" "i < 32"
    then have "p < 32 * (p div 32) + i" "32 * (p div 32) + i < 256" using pm by linarith+
    then show "\<not> bit (k_bits k ! (p div 32)) i" using assms(4) at [OF pm(1) i(2)] by simp
  qed
qed

text \<open>The rotation of an exhausted thread.\<close>

definition renew_slice :: "nat \<Rightarrow> kernel \<Rightarrow> kernel" where
  "renew_slice t = thr_upd t (\<lambda>x. x\<lparr>t_timeslice := Timeslice_usec\<rparr>)"

lemma timeslice_expired_eq:
  assumes "k_ready k p = t # q" "t_timeslice (k_thr k t) = 0" "t_state (k_thr k t) = Ready" "t \<notin> set q"
    and "Suc (length q) < Threads_max"
  shows "timeslice_expired_in p t k = Inr (hd (q @ [t]), (renew_slice t k)\<lparr>k_ready := (k_ready k)(p := q @ [t])\<rparr>)"
proof (cases q)
  case Nil
  have "(k_ready k)(p := [t]) = k_ready k" using assms(1) Nil by auto
  then show ?thesis using assms Nil by (simp add: timeslice_expired_in_def renew_slice_def thr_upd_def)
qed (use assms in \<open>simp add: timeslice_expired_in_def renew_slice_def thr_upd_def q_push_def Let_def\<close>)

lemma sched_inv_permute:
  assumes "sched_inv k" "distinct q" "set q = set (k_ready k p)"
  shows "sched_inv ((renew_slice t k)\<lparr>k_ready := (k_ready k)(p := q)\<rparr>)"
proof -
  let ?k = "(renew_slice t k)\<lparr>k_ready := (k_ready k)(p := q)\<rparr>"
  have inv: "lists_inv {} k" "bits_inv k" "order_inv k" using assms(1) by (auto simp: sched_inv_def)
  have lo: "list_of (k_thr (renew_slice t k) u) = list_of (k_thr k u)" for u
    by (auto simp: renew_slice_def intro: list_of_cong)
  have "distinct (k_ready k p)" using lists_invD(1) [OF inv(1), of "L_ready p"] by simp
  then have m: "distinct (members ?k l) = distinct (members k l)" "set (members ?k l) = set (members k l)" for l
    using assms(2,3) by (cases l; auto simp: renew_slice_def)+
  have "lists_inv {} ?k" using inv(1) by (simp add: lists_inv_def m lo)
  moreover have "q = [] \<longleftrightarrow> k_ready k p = []" using assms(3) by (metis set_empty)
  then have "bits_inv ?k" using inv(2) by (auto simp: bits_inv_def renew_slice_def)
  moreover have "order_inv ?k" by (rule order_inv_frame [OF inv(3)]) (simp_all add: renew_slice_def)
  ultimately show ?thesis by (simp add: sched_inv_def)
qed

lemma sched_inv_rotate:
  "sched_inv k \<Longrightarrow> k_ready k p = t # q \<Longrightarrow> sched_inv ((renew_slice t k)\<lparr>k_ready := (k_ready k)(p := q @ [t])\<rparr>)"
  using lists_invD(1) [of "{}" k "L_ready p"] by (intro sched_inv_permute) (auto simp: sched_inv_def)

lemma ready_member:
  assumes "sched_inv k"
  shows "t \<in> set (k_ready k p) \<longleftrightarrow> t < Threads_max \<and> t_state (k_thr k t) = Ready \<and> unat (t_prio (k_thr k t)) = p"
proof -
  have "set (k_ready k p) = {t. t < Threads_max \<and> list_of (k_thr k t) = L_ready p}"
    using lists_invD(2) [of "{}" k "L_ready p"] assms by (simp add: sched_inv_def)
  moreover have "list_of (k_thr k t) = L_ready p \<longleftrightarrow> t_state (k_thr k t) = Ready \<and> unat (t_prio (k_thr k t)) = p"
    by (cases "t_state (k_thr k t)") (auto simp: list_of_def)
  ultimately show ?thesis by simp
qed

lemma ready_prio_bound: "sched_inv k \<Longrightarrow> k_ready k p \<noteq> [] \<Longrightarrow> p < 256"
  using ready_member [of k "hd (k_ready k p)" p] u8_less [of "t_prio (k_thr k (hd (k_ready k p)))"] by auto

lemma highest_exists:
  assumes "sched_inv k" "u < Threads_max" "t_state (k_thr k u) = Ready"
  obtains p where "p < 256" "k_ready k p \<noteq> []" "\<And>q. k_ready k q \<noteq> [] \<Longrightarrow> q \<le> p"
proof -
  let ?S = "{p. k_ready k p \<noteq> []}"
  have "?S \<subseteq> {..<256}" using ready_prio_bound [OF assms(1)] by auto
  then have fin: "finite ?S" using finite_subset by blast
  have "u \<in> set (k_ready k (unat (t_prio (k_thr k u))))" using ready_member [OF assms(1)] assms(2,3) by simp
  then have "k_ready k (unat (t_prio (k_thr k u))) \<noteq> []" by auto
  then have ne: "?S \<noteq> {}" by blast
  have "Max ?S \<in> ?S" using Max_in [OF fin ne] .
  then show thesis using that [of "Max ?S"] ready_prio_bound [OF assms(1)] Max_ge [OF fin] by auto
qed

lemma get_highest_ok:
  assumes "sched_inv k" "u < Threads_max" "t_state (k_thr k u) = Ready" "\<forall>p. length (k_ready k p) < Threads_max"
  obtains p t q where "k_ready k p = t # q" "\<And>r. k_ready k r \<noteq> [] \<Longrightarrow> r \<le> p"
    "get_highest_prio_ready_thread k =
       (if t_timeslice (k_thr k t) = 0
        then Inr (hd (q @ [t]), (renew_slice t k)\<lparr>k_ready := (k_ready k)(p := q @ [t])\<rparr>) else Inr (t, k))"
proof -
  obtain p where p: "p < 256" "k_ready k p \<noteq> []" and max: "\<And>q. k_ready k q \<noteq> [] \<Longrightarrow> q \<le> p"
    using highest_exists [OF assms(1-3)] by metis
  then obtain t q where tq: "k_ready k p = t # q" by (cases "k_ready k p") auto
  have bits: "bits_inv k" using assms(1) by (simp add: sched_inv_def)
  have none: "k_ready k r = []" if "p < r" "r < 256" for r using max [of r] that by fastforce
  note g = highest_group [OF bits p none]
  have d: "t \<notin> set q" using lists_invD(1) [of "{}" k "L_ready p"] assms(1) tq by (simp add: sched_inv_def)
  have st: "t_state (k_thr k t) = Ready" using ready_member [OF assms(1), of t p] tq by simp
  have len: "Suc (length q) < Threads_max" using assms(4) tq by (metis length_Cons)
  have "get_highest_prio_ready_thread k =
      (if t_timeslice (k_thr k t) = 0 then timeslice_expired_in p t k else Inr (t, k))"
    using g tq by (simp add: get_highest_prio_ready_thread_def Let_def)
  then show thesis
    using that [OF tq max] timeslice_expired_eq [OF tq _ st d len] by (cases "t_timeslice (k_thr k t) = 0") auto
qed

text \<open>
  C10. The scheduler returns whenever some thread is ready and no ready queue fills its whole list:
  the thread it picks is ready and no ready thread has a higher priority; it is the head of the
  queue of that priority unless that thread has used up its time slice, in which case the thread
  goes to the end of the queue with a new slice and the next one is picked.
\<close>

theorem sched_highest_prio:
  assumes "sched_inv k" "u < Threads_max" "t_state (k_thr k u) = Ready" "\<forall>p. length (k_ready k p) < Threads_max"
  shows "\<exists>t k'. get_highest_prio_ready_thread k = Inr (t, k') \<and> sched_inv k'
    \<and> t < Threads_max \<and> t_state (k_thr k t) = Ready
    \<and> (\<forall>v<Threads_max. t_state (k_thr k v) = Ready \<longrightarrow> t_prio (k_thr k v) \<le> t_prio (k_thr k t))
    \<and> (let p = unat (t_prio (k_thr k t)); h = hd (k_ready k p) in
       if t_timeslice (k_thr k h) \<noteq> 0 then t = h \<and> k' = k
       else k_ready k' p = tl (k_ready k p) @ [h] \<and> t = hd (k_ready k' p) \<and> t_timeslice (k_thr k' h) = Timeslice_usec)"
proof -
  obtain p h q where q: "k_ready k p = h # q" and max: "\<And>r. k_ready k r \<noteq> [] \<Longrightarrow> r \<le> p"
    and g: "get_highest_prio_ready_thread k = (if t_timeslice (k_thr k h) = 0
        then Inr (hd (q @ [h]), (renew_slice h k)\<lparr>k_ready := (k_ready k)(p := q @ [h])\<rparr>) else Inr (h, k))"
    using get_highest_ok [OF assms] by metis
  let ?t = "if t_timeslice (k_thr k h) = 0 then hd (q @ [h]) else h"
  have "?t \<in> set (k_ready k p)" using q by (cases q) auto
  then have t: "?t < Threads_max" "t_state (k_thr k ?t) = Ready" "unat (t_prio (k_thr k ?t)) = p"
    using ready_member [OF assms(1)] by blast+
  have top: "\<forall>v<Threads_max. t_state (k_thr k v) = Ready \<longrightarrow> t_prio (k_thr k v) \<le> t_prio (k_thr k ?t)"
  proof (intro allI impI)
    fix v assume that: "v < Threads_max" "t_state (k_thr k v) = Ready"
    have "v \<in> set (k_ready k (unat (t_prio (k_thr k v))))" using ready_member [OF assms(1)] that by simp
    then have "unat (t_prio (k_thr k v)) \<le> p" by (intro max) auto
    then show "t_prio (k_thr k v) \<le> t_prio (k_thr k ?t)" using t(3) by (simp add: word_le_nat_alt)
  qed
  note rot = sched_inv_rotate [OF assms(1) q]
  show ?thesis
  proof (cases "t_timeslice (k_thr k h) = 0")
    case True
    let ?k = "(renew_slice h k)\<lparr>k_ready := (k_ready k)(p := q @ [h])\<rparr>"
    have "k_ready ?k p = tl (k_ready k p) @ [h]" "t_timeslice (k_thr ?k h) = Timeslice_usec"
      using q by (simp_all add: renew_slice_def)
    then show ?thesis
      using True g t q rot top by (intro exI [of _ ?t] exI [of _ ?k]) (simp add: Let_def)
  next
    case False
    then show ?thesis
      using g t q assms(1) top by (intro exI [of _ h] exI [of _ k]) (simp add: Let_def)
  qed
qed

section \<open>Inherited priorities without chains\<close>

text \<open>
  The bookkeeping of lent priorities is consistent as long as no thread that lent its priority
  inherits one itself.
\<close>

definition lends :: "kernel \<Rightarrow> nat \<Rightarrow> bool" where
  "lends k t \<longleftrightarrow> \<not> thrid_is_nil (t_prio_heir (k_thr k t))"

definition flat_heirs :: "kernel \<Rightarrow> bool" where
  "flat_heirs k \<longleftrightarrow> (\<forall>t<Threads_max. heir_ok k t)
     \<and> (\<forall>t<Threads_max. \<forall>h. is_heir k t h \<longrightarrow> \<not> lends k h)
     \<and> (\<forall>t<Threads_max. \<forall>u<Threads_max. lends k t \<longrightarrow> lends k u \<longrightarrow> t \<noteq> u \<longrightarrow>
          t_glob_id (k_thr k t) \<noteq> t_glob_id (k_thr k u))"

lemma find_remove1: "\<not> P x \<Longrightarrow> find P (remove1 x xs) = find P xs"
  by (induction xs) auto

text \<open>A lender other than the thread that changed its state still finds its entry.\<close>

lemma heir_ok_other:
  assumes flat: "flat_heirs k" and kept: "others_kept t k k'" and "t_state (k_thr k' t) \<noteq> Idle"
    and "t_glob_id (k_thr k' t) = t_glob_id (k_thr k t)" "t_inherited (k_thr k' t) = t_inherited (k_thr k t)"
    and u: "u < Threads_max" "t < Threads_max" "u \<noteq> t"
  shows "heir_ok k' u"
proof (cases "lends k u")
  case True
  have "heir_ok k u" using flat u(1) by (simp add: flat_heirs_def)
  with True obtain h e where h: "thrid_is_global (t_prio_heir (k_thr k u))"
    "find_num k (unat (thrid_number (t_prio_heir (k_thr k u)))) = Some h" "h \<noteq> u"
    "t_glob_id (k_thr k u) \<noteq> t_glob_id (k_thr k h)"
    "inherit_prio_find (t_glob_id (k_thr k u)) (k_thr k h) = Some e" "snd e = prio_max (k_thr k u)"
    unfolding heir_ok_def lends_def by blast
  note f = others_kept_field [OF kept u(3)]
  have "\<not> is_heir k t u" using True flat u(2) unfolding flat_heirs_def by blast
  then have uu: "k_thr k' u = k_thr k u" using kept u(3) unfolding others_kept_def by blast
  have hg: "t_glob_id (k_thr k' h) = t_glob_id (k_thr k h)"
    using others_kept_field(6) [OF kept] assms(4) by (cases "h = t") auto
  have "find_num k' (unat (thrid_number (t_prio_heir (k_thr k u)))) = Some h"
    using h(2) others_kept_field(1) [OF kept, of h] assms(3)
    by (cases "h = t") (auto simp: find_num_def Let_def split: if_splits)
  moreover have "inherit_prio_find (t_glob_id (k_thr k u)) (k_thr k' h) = Some e"
  proof (cases "k_thr k' h = k_thr k h \<or> h = t")
    case True
    then show ?thesis using h(5) assms(5) by (auto simp: inherit_prio_find_def)
  next
    case False
    then obtain p where p: "is_heir k t h"
      "k_thr k' h = (k_thr k h)\<lparr>t_inherited := remove1 (t_glob_id (k_thr k t), p) (t_inherited (k_thr k h))\<rparr>"
      using kept unfolding others_kept_def by blast
    have "lends k t" using p(1) by (simp add: is_heir_def lends_def)
    then have "t_glob_id (k_thr k t) \<noteq> t_glob_id (k_thr k u)"
      using flat u \<open>lends k u\<close> unfolding flat_heirs_def by blast
    then show ?thesis using h(5) p(2) by (simp add: inherit_prio_find_def find_remove1)
  qed
  ultimately show ?thesis unfolding heir_ok_def uu
    using h hg by (intro disjI2 exI [of _ h] exI [of _ e]) simp
next
  case False
  then show ?thesis using others_kept_field(5) [OF kept u(3)] by (simp add: heir_ok_def lends_def)
qed

lemma set_state_flat:
  assumes "sched_inv k" "flat_heirs k" "t < Threads_max" "t_state (k_thr k t) \<noteq> s" "s \<noteq> Idle"
  shows "\<exists>k'. set_state t s k = Inr k' \<and> sched_inv k' \<and> flat_heirs k' \<and> others_kept t k k' \<and> same_rest k k'
    \<and> k_thr k' t = (enter_thread ((k_thr k t)\<lparr>t_state := s\<rparr>))\<lparr>t_prio_heir := thrid_Nil\<rparr>"
proof -
  have "heir_ok k t" using assms(2,3) by (simp add: flat_heirs_def)
  from set_state_ok [OF assms(1,3,4) this] obtain k' where
    k': "set_state t s k = Inr k'" "sched_inv k'" "others_kept t k k'" "same_rest k k'"
    and t: "k_thr k' t = (enter_thread ((k_thr k t)\<lparr>t_state := s\<rparr>))\<lparr>t_prio_heir := thrid_Nil\<rparr>" by blast
  note f = others_kept_field [OF k'(3)]
  have nt: "\<not> lends k' t" by (simp add: lends_def t thrid_is_nil_def)
  have lends: "lends k' u \<Longrightarrow> u \<noteq> t \<and> lends k u" for u using nt f(5) [of u] by (cases "u = t") (auto simp: lends_def)
  have "heir_ok k' u" if "u < Threads_max" for u
  proof (cases "u = t")
    case True
    then show ?thesis using nt by (simp add: heir_ok_def lends_def)
  next
    case False
    then show ?thesis using heir_ok_other [OF assms(2) k'(3) _ _ _ that assms(3)] t assms(5) by simp
  qed
  moreover have "\<not> lends k' h" if "u < Threads_max" "is_heir k' u h" for u h
  proof -
    have u: "u \<noteq> t" "lends k u" using lends that(2) by (auto simp: is_heir_def lends_def)
    have "heir_ok k u" using assms(2) that(1) by (simp add: flat_heirs_def)
    then obtain h0 where h0: "find_num k (unat (thrid_number (t_prio_heir (k_thr k u)))) = Some h0"
      using u(2) by (auto simp: heir_ok_def lends_def)
    then have "h = h0" using that(2) f(5) [OF u(1)] by (auto simp: is_heir_def find_num_def Let_def split: if_splits)
    then have "is_heir k u h" using h0 u(2) by (simp add: is_heir_def lends_def)
    then show ?thesis using assms(2) that(1) lends by (auto simp: flat_heirs_def)
  qed
  moreover have "t_glob_id (k_thr k' u) \<noteq> t_glob_id (k_thr k' v)"
    if "u < Threads_max" "v < Threads_max" "lends k' u" "lends k' v" "u \<noteq> v" for u v
    using assms(2) that lends f(6) by (auto simp: flat_heirs_def)
  ultimately have "flat_heirs k'" unfolding flat_heirs_def by blast
  then show ?thesis using k' t by blast
qed

text \<open>A change of fields that scheduling and inheritance do not read.\<close>

definition sched_same :: "thread \<Rightarrow> thread \<Rightarrow> bool" where
  "sched_same a b \<longleftrightarrow> t_state a = t_state b \<and> t_prio a = t_prio b \<and> t_timeout a = t_timeout b
     \<and> t_glob_id a = t_glob_id b \<and> t_inherited a = t_inherited b \<and> t_prio_heir a = t_prio_heir b"

lemma sched_inv_same: "sched_inv k \<Longrightarrow> sched_same (f (k_thr k t)) (k_thr k t) \<Longrightarrow> sched_inv (thr_upd t f k)"
  by (rule sched_inv_thr_upd) (auto simp: sched_same_def intro: list_of_cong)

lemma heirs_same:
  assumes "sched_same (f (k_thr k t)) (k_thr k t)"
  defines "k' \<equiv> thr_upd t f k"
  shows "heir_ok k' u = heir_ok k u" "lends k' u = lends k u" "is_heir k' u h = is_heir k u h" "t_glob_id (k_thr k' u) = t_glob_id (k_thr k u)"
proof -
  have s: "t_state (k_thr k' u) = t_state (k_thr k u)" "t_glob_id (k_thr k' u) = t_glob_id (k_thr k u)"
    "t_inherited (k_thr k' u) = t_inherited (k_thr k u)" "t_prio_heir (k_thr k' u) = t_prio_heir (k_thr k u)"
    "prio_max (k_thr k' u) = prio_max (k_thr k u)" for u
    using assms by (auto simp: sched_same_def intro: prio_max_cong)
  have n: "find_num k' i = find_num k i" for i by (simp add: find_num_def Let_def s)
  have f: "inherit_prio_find o' (k_thr k' u) = inherit_prio_find o' (k_thr k u)" for o' u
    by (simp add: inherit_prio_find_def s)
  show "heir_ok k' u = heir_ok k u" "lends k' u = lends k u" "is_heir k' u h = is_heir k u h" "t_glob_id (k_thr k' u) = t_glob_id (k_thr k u)"
    by (simp_all add: heir_ok_def lends_def is_heir_def s n f)
qed

lemma flat_heirs_same: "flat_heirs k \<Longrightarrow> sched_same (f (k_thr k t)) (k_thr k t) \<Longrightarrow> flat_heirs (thr_upd t f k)"
  by (simp add: flat_heirs_def heirs_same del: thr_upd_simps)

section \<open>Timeouts\<close>

definition expired :: "kernel \<Rightarrow> u64 \<Rightarrow> nat \<Rightarrow> bool" where
  "expired k now t \<longleftrightarrow> t_timeout (k_thr k t) \<le> now"

text \<open>
  What is left of the priorities a thread inherited when the threads of \<open>D\<close> take theirs back: nothing new, and every entry
  of another owner.
\<close>

definition inh_after :: "kernel \<Rightarrow> (nat \<Rightarrow> bool) \<Rightarrow> nat \<Rightarrow> (thrid \<times> nat) list \<Rightarrow> bool" where
  "inh_after k D t inh \<longleftrightarrow> set inh \<subseteq> set (t_inherited (k_thr k t))
     \<and> (\<forall>e\<in>set (t_inherited (k_thr k t)). (\<forall>u. D u \<longrightarrow> fst e \<noteq> t_glob_id (k_thr k u)) \<longrightarrow> e \<in> set inh)"

definition woken :: "kernel \<Rightarrow> (nat \<Rightarrow> bool) \<Rightarrow> kernel \<Rightarrow> nat \<Rightarrow> bool" where
  "woken k D k' t \<longleftrightarrow> (\<exists>inh. inh_after k D t inh \<and> k_thr k' t =
     (clear_ipc ((timeout_error (k_thr k t))\<lparr>t_state := Ready\<rparr>))\<lparr>t_prio_heir := thrid_Nil, t_inherited := inh\<rparr>)"

definition undisturbed :: "kernel \<Rightarrow> (nat \<Rightarrow> bool) \<Rightarrow> kernel \<Rightarrow> nat \<Rightarrow> bool" where
  "undisturbed k D k' t \<longleftrightarrow> (\<exists>inh. inh_after k D t inh \<and> k_thr k' t = (k_thr k t)\<lparr>t_inherited := inh\<rparr>)"

definition woken_or_not :: "kernel \<Rightarrow> (nat \<Rightarrow> bool) \<Rightarrow> kernel \<Rightarrow> bool" where
  "woken_or_not k D k' \<longleftrightarrow> (\<forall>t. if D t then woken k D k' t else undisturbed k D k' t)"

lemma timeout_error_same: "sched_same (timeout_error th) th"
  by (simp add: timeout_error_def sched_same_def Let_def)

lemma timeout_error_inh: "timeout_error (th\<lparr>t_inherited := i\<rparr>) = (timeout_error th)\<lparr>t_inherited := i\<rparr>"
  by (simp add: timeout_error_def Let_def)

lemma inh_after_refl: "inh_after k D t (t_inherited (k_thr k t))"
  by (simp add: inh_after_def)

lemma inh_after_trans:
  assumes "inh_after k D t (t_inherited (k_thr k1 t))" "inh_after k1 E t inh" "\<And>u. t_glob_id (k_thr k1 u) = t_glob_id (k_thr k u)"
  shows "inh_after k (\<lambda>u. D u \<or> E u) t inh"
  using assms unfolding inh_after_def by auto

lemma undisturbed_refl: "undisturbed k D k t"
  unfolding undisturbed_def using inh_after_refl by (intro exI [of _ "t_inherited (k_thr k t)"]) simp

lemma undisturbed_fields:
  assumes "undisturbed k D k' t"
  shows "t_state (k_thr k' t) = t_state (k_thr k t)" "t_timeout (k_thr k' t) = t_timeout (k_thr k t)"
    "t_glob_id (k_thr k' t) = t_glob_id (k_thr k t)" "inh_after k D t (t_inherited (k_thr k' t))"
    "k_thr k' t = (k_thr k t)\<lparr>t_inherited := t_inherited (k_thr k' t)\<rparr>"
  using assms by (auto simp: undisturbed_def)

lemma woken_fields:
  assumes "woken k D k' t"
  shows "t_state (k_thr k' t) = Ready" "t_glob_id (k_thr k' t) = t_glob_id (k_thr k t)" "inh_after k D t (t_inherited (k_thr k' t))"
  using assms by (auto simp: woken_def clear_ipc_def timeout_error_def Let_def)

lemma woken_or_notD:
  assumes "woken_or_not k D k'"
  shows "D t \<Longrightarrow> woken k D k' t" "\<not> D t \<Longrightarrow> undisturbed k D k' t"
  using assms unfolding woken_or_not_def by presburger+

lemma woken_or_not_glob: "woken_or_not k D k' \<Longrightarrow> t_glob_id (k_thr k' u) = t_glob_id (k_thr k u)"
  by (cases "D u") (auto dest: woken_or_notD woken_fields(2) undisturbed_fields(3))

text \<open>Two rounds of waking, the second of threads that the first left alone.\<close>

lemma woken_or_not_trans:
  assumes 1: "woken_or_not k D k1" and 2: "woken_or_not k1 E k2" and d: "\<And>u. E u \<Longrightarrow> \<not> D u"
  shows "woken_or_not k (\<lambda>u. D u \<or> E u) k2"
  unfolding woken_or_not_def
proof
  fix t
  note g = woken_or_not_glob [OF 1]
  have a: "if D t then woken k D k1 t else undisturbed k D k1 t" "if E t then woken k1 E k2 t else undisturbed k1 E k2 t"
    using 1 2 by (simp_all add: woken_or_not_def)
  have i: "inh_after k (\<lambda>u. D u \<or> E u) t (t_inherited (k_thr k2 t))"
    using a inh_after_trans [OF _ _ g, of D t E] woken_fields(3) undisturbed_fields(4) by (metis (full_types))
  show "if D t \<or> E t then woken k (\<lambda>u. D u \<or> E u) k2 t else undisturbed k (\<lambda>u. D u \<or> E u) k2 t"
  proof (cases "D t")
    case True
    then have w: "woken k D k1 t" "k_thr k2 t = (k_thr k1 t)\<lparr>t_inherited := t_inherited (k_thr k2 t)\<rparr>"
      using woken_or_notD(1) [OF 1 True] undisturbed_fields(5) [OF woken_or_notD(2) [OF 2]] d by blast+
    then show ?thesis using True i by (auto simp: woken_def)
  next
    case False
    then have u: "k_thr k1 t = (k_thr k t)\<lparr>t_inherited := t_inherited (k_thr k1 t)\<rparr>" using a undisturbed_fields(5) by simp
    show ?thesis
    proof (cases "E t")
      case True
      then have "woken k1 E k2 t" using a by simp
      then obtain j where "k_thr k2 t = (clear_ipc ((timeout_error (k_thr k1 t))\<lparr>t_state := Ready\<rparr>))\<lparr>t_prio_heir := thrid_Nil, t_inherited := j\<rparr>"
        unfolding woken_def by blast
      moreover have "timeout_error (k_thr k1 t) = (timeout_error (k_thr k t))\<lparr>t_inherited := t_inherited (k_thr k1 t)\<rparr>"
        by (subst u) (rule timeout_error_inh)
      ultimately have "k_thr k2 t = (clear_ipc ((timeout_error (k_thr k t))\<lparr>t_state := Ready\<rparr>))\<lparr>t_prio_heir := thrid_Nil, t_inherited := j\<rparr>"
        by (simp add: clear_ipc_def)
      moreover from this have "j = t_inherited (k_thr k2 t)" by simp
      ultimately show ?thesis using True i by (auto simp: woken_def)
    next
      case False
      then have "k_thr k2 t = (k_thr k1 t)\<lparr>t_inherited := t_inherited (k_thr k2 t)\<rparr>" using a undisturbed_fields(5) by simp
      then have "k_thr k2 t = (k_thr k t)\<lparr>t_inherited := t_inherited (k_thr k2 t)\<rparr>" by (subst (asm) u) simp
      then show ?thesis using False \<open>\<not> D t\<close> i by (auto simp: undisturbed_def)
    qed
  qed
qed

text \<open>A state change that returns: the thread, and every other one, whatever the lent priorities look like.\<close>

lemma drop_heir_exact:
  assumes "drop_heir t k = Inr k'"
  shows "same_rest k k' \<and> k_thr k' t = (k_thr k t)\<lparr>t_prio_heir := thrid_Nil\<rparr> \<and> (\<forall>u. u \<noteq> t \<longrightarrow> undisturbed k (\<lambda>v. v = t) k' u)"
proof (cases "thrid_is_nil (t_prio_heir (k_thr k t))")
  case True
  then have "k' = k" "t_prio_heir (k_thr k t) = thrid_Nil" using assms by (simp_all add: drop_heir_def thrid_is_nil_def)
  then show ?thesis using undisturbed_refl by simp
next
  case False
  then obtain h where "find_thr k (t_prio_heir (k_thr k t)) = Inr (Some h)"
    using assms by (auto simp: drop_heir_def Let_def split: option.splits)
  then obtain e where h: "t_glob_id (k_thr k t) \<noteq> t_glob_id (k_thr k h)" "inherit_prio_find (t_glob_id (k_thr k t)) (k_thr k h) = Some e"
    and k': "k' = thr_upd t (\<lambda>x. x\<lparr>t_prio_heir := thrid_Nil\<rparr>)
      (thr_upd h (\<lambda>_. (k_thr k h)\<lparr>t_inherited := remove1 e (t_inherited (k_thr k h))\<rparr>) k)"
    using assms False by (auto simp: drop_heir_def inherit_prio_del_def Let_def split: option.splits)
  have e: "fst e = t_glob_id (k_thr k t)" using h(2) find_SomeD by (fastforce simp: inherit_prio_find_def)
  have ne: "h \<noteq> t" using h(1) by auto
  have "undisturbed k (\<lambda>v. v = t) k' u" if "u \<noteq> t" for u
  proof (cases "u = h")
    case True
    have "inh_after k (\<lambda>v. v = t) h (remove1 e (t_inherited (k_thr k h)))"
      unfolding inh_after_def using e set_remove1_subset [of e "t_inherited (k_thr k h)"] in_set_remove1 by metis
    then show ?thesis unfolding undisturbed_def True k' using ne by (intro exI conjI) auto
  next
    case False
    then have "k_thr k' u = k_thr k u" using that by (simp add: k')
    then show ?thesis using inh_after_refl [of k _ u] unfolding undisturbed_def by (intro exI [of _ "t_inherited (k_thr k u)"]) simp
  qed
  then show ?thesis using ne by (simp add: k' same_rest_def)
qed

lemma set_state_exact:
  assumes "set_state t s k = Inr k'" "sched_inv k" "t < Threads_max"
  shows "sched_inv k' \<and> same_rest k k' \<and> k_thr k' t = (enter_thread ((k_thr k t)\<lparr>t_state := s\<rparr>))\<lparr>t_prio_heir := thrid_Nil\<rparr>
    \<and> (\<forall>u. u \<noteq> t \<longrightarrow> undisturbed k (\<lambda>v. v = t) k' u)"
proof -
  obtain k1 where k1: "leave_list t k = Inr k1" "part_inv t k1" "k_thr k1 = k_thr k" "same_rest k k1"
    using leave_list_ok [OF assms(2,3)] by blast
  let ?k1 = "thr_upd t (\<lambda>x. x\<lparr>t_state := s\<rparr>) k1"
  obtain k2 where k2: "enter_list t ?k1 = Inr k2" "sched_inv k2" "same_rest ?k1 k2"
    "k_thr k2 = (k_thr ?k1)(t := enter_thread (k_thr ?k1 t))"
    using enter_list_ok [OF part_inv_thr_upd [OF k1(2)] assms(3)] by blast
  have d: "drop_heir t k2 = Inr k'" using assms(1) k1 k2 by (auto simp: set_state_def)
  note e = drop_heir_exact [OF d]
  have same: "k_thr k2 u = k_thr k u" if "u \<noteq> t" for u using k1(3) k2(4) that by simp
  have "t_glob_id (k_thr k2 t) = t_glob_id (k_thr k t)" using k1(3) k2(4) by (simp add: enter_thread_def clear_ipc_def)
  then have "undisturbed k (\<lambda>v. v = t) k' u" if "u \<noteq> t" for u
    using e [THEN conjunct2, THEN conjunct2, rule_format, OF that] same [OF that] by (simp add: undisturbed_def inh_after_def)
  moreover have "same_rest k k'" using k1(4) k2(3) e by (simp add: same_rest_def)
  ultimately show ?thesis using drop_heir_inv [OF d k2(2)] e k2(4) k1(3) by simp
qed

lemma expire_step:
  assumes "sched_inv k" "t < Threads_max" "res_bind (set_state t Ready (thr_upd t timeout_error k)) (drop_heir t) = Inr k'"
  shows "sched_inv k' \<and> same_rest k k' \<and> woken_or_not k (\<lambda>v. v = t) k'"
proof -
  let ?k = "thr_upd t timeout_error k"
  obtain k1 where k1: "set_state t Ready ?k = Inr k1" "drop_heir t k1 = Inr k'" using assms(3) by (auto)
  note S = set_state_exact [OF k1(1) sched_inv_same [where f = timeout_error, OF assms(1) timeout_error_same] assms(2)]
  have "thrid_is_nil (t_prio_heir (k_thr k1 t))" using S by (simp add: thrid_is_nil_def)
  then have k': "k' = k1" using k1(2) by (simp add: drop_heir_def)
  have g: "t_glob_id (k_thr ?k t) = t_glob_id (k_thr k t)" using timeout_error_same [of "k_thr k t"] by (simp add: sched_same_def)
  have "undisturbed k (\<lambda>v. v = t) k1 u" if "u \<noteq> t" for u
    using S [THEN conjunct2, THEN conjunct2, THEN conjunct2, rule_format, OF that] that g by (simp add: undisturbed_def inh_after_def)
  moreover have "woken k (\<lambda>v. v = t) k1 t"
    unfolding woken_def using S inh_after_refl [of k "\<lambda>v. v = t" t]
    by (intro exI [of _ "t_inherited (k_thr k t)"]) (simp add: enter_thread_def clear_ipc_def timeout_error_def Let_def)
  ultimately show ?thesis using S k' by (simp add: woken_or_not_def same_rest_def)
qed

lemma expire_list_Cons:
  "expire_list now (t # ts) next k =
     res_bind (wassert (t_state (k_thr k t) = Send_ipc \<or> t_state (k_thr k t) = Receive_ipc)) (\<lambda>_.
     if t_timeout (k_thr k t) > now then Inr (next, k)
     else res_bind (res_bind (set_state t Ready (thr_upd t timeout_error k)) (drop_heir t))
       (expire_list now ts (if next = None then Some t else next)))"
  by (simp add: res_bind_assoc cong: if_cong)

lemma expire_list_exact:
  assumes "expire_list now q next k = Inr (n, k')" "sched_inv k" "distinct q" "sorted (map (\<lambda>t. t_timeout (k_thr k t)) q)"
    and "\<And>t. t \<in> set q \<Longrightarrow> t < Threads_max"
  shows "sched_inv k' \<and> same_rest k k' \<and> n = (if next = None then find (expired k now) q else next)
    \<and> woken_or_not k (\<lambda>t. t \<in> set q \<and> expired k now t) k'"
  using assms
proof (induction q arbitrary: k "next")
  case Nil
  then show ?case by (simp add: woken_or_not_def undisturbed_refl)
next
  case (Cons t q)
  show ?case
  proof (cases "expired k now t")
    case False
    then have none: "\<forall>u\<in>set (t # q). \<not> expired k now u" using Cons.prems(4) by (auto simp: expired_def)
    then have "find (expired k now) (t # q) = None" by (metis find_None_iff)
    moreover have "n = next" "k' = k"
      using Cons.prems(1) False unfolding expire_list_Cons by (auto simp: expired_def not_le split: if_splits)
    ultimately show ?thesis using none Cons.prems(2) undisturbed_refl by (auto simp: woken_or_not_def)
  next
    case True
    obtain k1 where k1: "res_bind (set_state t Ready (thr_upd t timeout_error k)) (drop_heir t) = Inr k1"
      "expire_list now q (if next = None then Some t else next) k1 = Inr (n, k')"
      using Cons.prems(1) True unfolding expire_list_Cons by (fastforce simp: expired_def not_less split: if_splits)
    note S = expire_step [OF Cons.prems(2) Cons.prems(5) [of t] k1(1)]
    have same: "undisturbed k (\<lambda>v. v = t) k1 u" if "u \<in> set q" for u
      using woken_or_notD(2) [of k "\<lambda>v. v = t" k1 u] S Cons.prems(3) that by auto
    have ex: "u \<in> set q \<Longrightarrow> expired k1 now u = expired k now u" for u
      using undisturbed_fields(2) [OF same] by (simp add: expired_def)
    have "sorted (map (\<lambda>t. t_timeout (k_thr k1 t)) q)"
      using Cons.prems(4) undisturbed_fields(2) [OF same] by (simp cong: map_cong)
    note ih = Cons.IH [OF k1(2) _ _ this]
    have "woken_or_not k (\<lambda>u. u = t \<or> u \<in> set q \<and> expired k1 now u) k'"
      by (rule woken_or_not_trans [of _ _ k1]) (use S ih Cons.prems(3,5) in auto)
    moreover have "(\<lambda>u. u = t \<or> u \<in> set q \<and> expired k1 now u) = (\<lambda>u. u \<in> set (t # q) \<and> expired k now u)"
      using ex True by auto
    ultimately show ?thesis using ih S True Cons.prems(3,5) same_rest_trans by auto
  qed
qed

text \<open>Without chains of lent priorities the loop always ends.\<close>

lemma expire_list_total:
  assumes "sched_inv k" "flat_heirs k" "distinct q"
    and "\<And>t. t \<in> set q \<Longrightarrow> t < Threads_max \<and> t_state (k_thr k t) \<in> {Send_ipc, Receive_ipc}"
  shows "\<exists>n k'. expire_list now q next k = Inr (n, k') \<and> flat_heirs k'"
  using assms
proof (induction q arbitrary: k "next")
  case (Cons t q)
  let ?k = "thr_upd t timeout_error k"
  have st: "t < Threads_max" "t_state (k_thr k t) \<in> {Send_ipc, Receive_ipc}" using Cons.prems(4) [of t] by auto
  have inv: "sched_inv ?k" "flat_heirs ?k"
    using sched_inv_same [OF Cons.prems(1)] flat_heirs_same [OF Cons.prems(2)] timeout_error_same by blast+
  have "t_state (k_thr ?k t) \<noteq> Ready" using st(2) timeout_error_same [of "k_thr k t"] by (auto simp: sched_same_def)
  from set_state_flat [OF inv st(1) this] obtain k1 where k1: "set_state t Ready ?k = Inr k1" "flat_heirs k1" "thrid_is_nil (t_prio_heir (k_thr k1 t))"
    by (auto simp: thrid_is_nil_def)
  then have d: "res_bind (set_state t Ready ?k) (drop_heir t) = Inr k1" by (simp add: drop_heir_def)
  note S = expire_step [OF Cons.prems(1) st(1) d]
  have "t_state (k_thr k1 u) = t_state (k_thr k u)" if "u \<in> set q" for u
    using undisturbed_fields(1) [OF woken_or_notD(2), of k "\<lambda>v. v = t" k1 u] S Cons.prems(3) that by auto
  then obtain n k' where "expire_list now q (if next = None then Some t else next) k1 = Inr (n, k')" "flat_heirs k'"
    using Cons.IH [of k1 "if next = None then Some t else next"] S k1(2) Cons.prems(3,4) by (metis distinct.simps(2) list.set_intros(2))
  then show ?case using st(2) d Cons.prems(2) unfolding expire_list_Cons by auto
qed simp

lemma waiting_list:
  assumes "sched_inv k" "l = L_snd_wait \<or> l = L_rcv_wait"
  shows "distinct (members k l)" "sorted (map (\<lambda>t. t_timeout (k_thr k t)) (members k l))"
    "t \<in> set (members k l) \<longleftrightarrow> t < Threads_max \<and> t_timeout (k_thr k t) \<noteq> Timeout_never
       \<and> t_state (k_thr k t) = (if l = L_snd_wait then Send_ipc else Receive_ipc)"
proof -
  have inv: "lists_inv {} k" "order_inv k" using assms(1) by (auto simp: sched_inv_def)
  have l: "l \<noteq> L_none" using assms(2) by auto
  show "distinct (members k l)" by (rule lists_invD(1) [OF inv(1) l])
  show "sorted (map (\<lambda>t. t_timeout (k_thr k t)) (members k l))" using inv(2) assms(2) by (auto simp: order_inv_def)
  have "list_of (k_thr k t) = l \<longleftrightarrow> t_timeout (k_thr k t) \<noteq> Timeout_never
      \<and> t_state (k_thr k t) = (if l = L_snd_wait then Send_ipc else Receive_ipc)"
    using assms(2) by (cases "t_state (k_thr k t)") (auto simp: list_of_def)
  then show "t \<in> set (members k l) \<longleftrightarrow> t < Threads_max \<and> t_timeout (k_thr k t) \<noteq> Timeout_never
       \<and> t_state (k_thr k t) = (if l = L_snd_wait then Send_ipc else Receive_ipc)"
    using lists_invD(2) [OF inv(1) l] by simp
qed

text \<open>A thread blocked in an IPC phase whose time has come.\<close>

definition due :: "kernel \<Rightarrow> u64 \<Rightarrow> nat \<Rightarrow> bool" where
  "due k now t \<longleftrightarrow> t < Threads_max \<and> t_state (k_thr k t) \<in> {Send_ipc, Receive_ipc}
     \<and> t_timeout (k_thr k t) \<noteq> Timeout_never \<and> t_timeout (k_thr k t) \<le> now"

lemma check_timeouts_exact:
  assumes "sched_inv k" "check_ipc_timeouts now k = Inr (n, k')"
  shows "sched_inv k' \<and> same_rest k k' \<and> woken_or_not k (due k now) k' \<and> (case n of None \<Rightarrow> \<forall>t. \<not> due k now t | Some t \<Rightarrow> due k now t)"
proof -
  note W = waiting_list [OF assms(1), of L_snd_wait, simplified] and R = waiting_list(3) [OF assms(1), of L_rcv_wait, simplified]
  obtain n1 k1 n2 where e: "expire_list now (k_snd_wait k) None k = Inr (n1, k1)" "expire_list now (k_rcv_wait k1) None k1 = Inr (n2, k')"
    and n: "n = (case (n1, n2) of (Some a, Some b) \<Rightarrow> Some (if prio_max (k_thr k' a) > prio_max (k_thr k' b) then a else b)
      | (Some a, None) \<Rightarrow> Some a | (None, Some b) \<Rightarrow> Some b | (None, None) \<Rightarrow> None)"
    using assms(2) by (auto simp: check_ipc_timeouts_def)
  note E1 = expire_list_exact [OF e(1) assms(1) W(1,2)]
  then have 1: "sched_inv k1" "same_rest k k1" "n1 = find (expired k now) (k_snd_wait k)"
    "woken_or_not k (\<lambda>t. t \<in> set (k_snd_wait k) \<and> expired k now t) k1" using W(3) by auto
  note V = waiting_list [OF 1(1), of L_rcv_wait, simplified]
  note E2 = expire_list_exact [OF e(2) 1(1) V(1,2)]
  then have 2: "sched_inv k'" "same_rest k1 k'" "n2 = find (expired k1 now) (k_rcv_wait k1)"
    "woken_or_not k1 (\<lambda>t. t \<in> set (k_rcv_wait k1) \<and> expired k1 now t) k'" using V(3) by auto
  have step: "if t \<in> set (k_snd_wait k) \<and> expired k now t then t_state (k_thr k1 t) = Ready
      else t_state (k_thr k1 t) = t_state (k_thr k t) \<and> t_timeout (k_thr k1 t) = t_timeout (k_thr k t)" for t
    using 1(4) woken_fields(1) undisturbed_fields(1,2) unfolding woken_or_not_def by (metis (full_types))
  have rcv: "t \<in> set (k_rcv_wait k1) \<and> expired k1 now t \<longleftrightarrow> t \<in> set (k_rcv_wait k) \<and> expired k now t" for t
    using step [of t] V(3) [of t] W(3) [of t] R [of t] by (auto simp: expired_def split: if_splits)
  have D: "due k now t \<longleftrightarrow> t \<in> set (k_snd_wait k) \<and> expired k now t \<or> t \<in> set (k_rcv_wait k1) \<and> expired k1 now t" for t
    unfolding rcv using W(3) [of t] R [of t] by (auto simp: due_def expired_def)
  have "woken_or_not k (\<lambda>t. t \<in> set (k_snd_wait k) \<and> expired k now t \<or> t \<in> set (k_rcv_wait k1) \<and> expired k1 now t) k'"
    by (rule woken_or_not_trans [OF 1(4) 2(4)]) (use rcv W(3) R in auto)
  then have "woken_or_not k (due k now) k'" unfolding D [abs_def] .
  moreover have "n1 = Some a \<Longrightarrow> due k now a" for a using find_SomeD [of "expired k now" "k_snd_wait k" a] 1(3) D [of a] by auto
  moreover have "n2 = Some a \<Longrightarrow> due k now a" for a using find_SomeD [of "expired k1 now" "k_rcv_wait k1" a] 2(3) D [of a] by auto
  moreover have "n1 = None \<Longrightarrow> n2 = None \<Longrightarrow> \<not> due k now t" for t using 1(3) 2(3) D [of t] by (auto simp: find_None_iff)
  ultimately show ?thesis using 2(1,2) 1(2) same_rest_trans n by (cases n1; cases n2) auto
qed

lemma check_timeouts_total:
  assumes "sched_inv k" "flat_heirs k"
  shows "\<exists>n k'. check_ipc_timeouts now k = Inr (n, k') \<and> flat_heirs k'"
proof -
  note W = waiting_list [OF assms(1), of L_snd_wait, simplified]
  obtain n1 k1 where k1: "expire_list now (k_snd_wait k) None k = Inr (n1, k1)" "flat_heirs k1"
    using expire_list_total [OF assms W(1), of now None] W(3) by auto
  have "sched_inv k1" using expire_list_exact [OF k1(1) assms(1) W(1,2)] W(3) by auto
  note V = waiting_list [OF this, of L_rcv_wait, simplified]
  obtain n2 k2 where "expire_list now (k_rcv_wait k1) None k1 = Inr (n2, k2)" "flat_heirs k2"
    using expire_list_total [OF \<open>sched_inv k1\<close> k1(2) V(1), of now None] V(3) by auto
  then show ?thesis using k1(1) by (simp add: check_ipc_timeouts_def)
qed


section \<open>Every run of the scheduler keeps its lists\<close>

lemma timeslice_expired_inv:
  assumes "timeslice_expired_in p t k = Inr (n, k')" "sched_inv k" "t \<in> set (k_ready k p)"
  shows "sched_inv k' \<and> n \<in> set (k_ready k p)"
proof (cases "length (k_ready k p) > 1")
  case True
  let ?q = "remove1 t (k_ready k p @ [t])"
  have d: "distinct (k_ready k p)" using lists_invD(1) [of "{}" k "L_ready p"] assms(2) by (simp add: sched_inv_def)
  have q: "?q = remove1 t (k_ready k p) @ [t]" using assms(3) by (simp add: remove1_append)
  have k': "k' = (renew_slice t k)\<lparr>k_ready := (k_ready k)(p := ?q)\<rparr>" "n = hd ?q"
    using assms(1) True by (auto simp: timeslice_expired_in_def q_push_def renew_slice_def thr_upd_def Let_def split: if_splits)
  have set: "set ?q = set (k_ready k p)" "distinct ?q" using q d assms(3) by auto
  moreover have "hd ?q \<in> set ?q" using q by (intro hd_in_set) auto
  ultimately show ?thesis using k' sched_inv_permute [OF assms(2)] by simp
next
  case False
  then have "k' = renew_slice t k" "n = hd (k_ready k p)" "k_ready k p \<noteq> []"
    using assms(1) by (auto simp: timeslice_expired_in_def renew_slice_def Let_def split: if_splits)
  moreover have "sched_inv (renew_slice t k)"
    unfolding renew_slice_def by (rule sched_inv_thr_upd [OF assms(2)]) (auto intro: list_of_cong)
  ultimately show ?thesis by simp
qed

lemma get_highest_inv:
  assumes "get_highest_prio_ready_thread k = Inr (n, k')" "sched_inv k"
  shows "sched_inv k' \<and> n < Threads_max \<and> t_state (k_thr k n) = Ready"
proof -
  obtain p where p: "k_ready k p \<noteq> []" "timeslice_expired_in p (hd (k_ready k p)) k = Inr (n, k')
      \<or> (n, k') = (hd (k_ready k p), k)"
    using assms(1)
    by (auto simp: get_highest_prio_ready_thread_def Let_def split: option.splits if_splits)
  have "sched_inv k' \<and> n \<in> set (k_ready k p)"
    using p timeslice_expired_inv [of p "hd (k_ready k p)" k n k'] assms(2) by auto
  then show ?thesis using ready_member [OF assms(2)] by blast
qed

lemma sched_inv_rest:
  assumes "sched_inv k"
  shows "sched_inv (k\<lparr>k_now := c\<rparr>)" "sched_inv (k\<lparr>k_current := t\<rparr>)" "sched_inv (k\<lparr>k_ints := i\<rparr>)"
proof -
  have m: "members (k\<lparr>k_now := c\<rparr>) l = members k l" "members (k\<lparr>k_current := t\<rparr>) l = members k l"
    "members (k\<lparr>k_ints := i\<rparr>) l = members k l" for l by (cases l; simp)+
  show "sched_inv (k\<lparr>k_now := c\<rparr>)" "sched_inv (k\<lparr>k_current := t\<rparr>)" "sched_inv (k\<lparr>k_ints := i\<rparr>)"
    using assms by (simp_all add: sched_inv_def lists_inv_def m bits_inv_def order_inv_def)
qed

lemma switch_to_inv: "sched_inv k \<Longrightarrow> sched_inv (switch_to n k)"
  unfolding switch_to_def Let_def
  by (auto intro!: sched_inv_thr_upd sched_inv_rest
      simp: timeslice_start_def timeslice_stop_def timeslice_spend_def intro: list_of_cong)

lemma drop_heir_current: "drop_heir t k = Inr k' \<Longrightarrow> k_current k' = k_current k"
  by (auto simp: drop_heir_def Let_def split: if_splits option.splits)

lemma set_state_current:
  assumes "set_state t s k = Inr k'"
  shows "k_current k' = k_current k"
proof -
  have l: "leave_list t a = Inr b \<Longrightarrow> k_current b = k_current a" for a b
    by (auto simp: leave_list_def Let_def del_ready_def del_send_def del_snd_timeout_waiting_def
        del_rcv_timeout_waiting_def split: if_splits)
  have e: "enter_list t a = Inr b \<Longrightarrow> k_current b = k_current a" for a b
    by (auto simp: enter_list_def Let_def add_ready_def add_send_def add_snd_timeout_waiting_def
        add_rcv_timeout_waiting_def split: if_splits)
  show ?thesis using assms l e drop_heir_current by (auto simp: set_state_def)
qed

lemma expire_list_inv:
  assumes "expire_list now q next k = Inr (n, k')" "sched_inv k" "\<And>t. t \<in> set q \<Longrightarrow> t < Threads_max"
    and "\<And>t. next = Some t \<Longrightarrow> t < Threads_max"
  shows "sched_inv k' \<and> k_current k' = k_current k \<and> (\<forall>t. n = Some t \<longrightarrow> t < Threads_max)"
  using assms
proof (induction q arbitrary: k "next")
  case (Cons t q)
  show ?case
  proof (cases "t_timeout (k_thr k t) > now")
    case False
    then obtain k1 k2 where k: "set_state t Ready (thr_upd t timeout_error k) = Inr k1" "drop_heir t k1 = Inr k2"
      "expire_list now q (if next = None then Some t else next) k2 = Inr (n, k')"
      using Cons.prems(1) by auto
    have "sched_inv (thr_upd t timeout_error k)" by (rule sched_inv_same [OF Cons.prems(2)]) (rule timeout_error_same)
    then have "sched_inv k1" by (rule set_state_inv [OF k(1)]) (use Cons.prems(3) [of t] in simp)
    then have "sched_inv k2" using drop_heir_inv [OF k(2)] by blast
    moreover have "k_current k2 = k_current k" using set_state_current [OF k(1)] drop_heir_current [OF k(2)] by simp
    moreover have "u < Threads_max" if "(if next = None then Some t else next) = Some u" for u
      using that Cons.prems(3) [of t] Cons.prems(4) [of u] by (auto split: if_splits)
    moreover have "u < Threads_max" if "u \<in> set q" for u using that Cons.prems(3) [of u] by simp
    ultimately show ?thesis using Cons.IH [OF k(3)] by simp
  qed (use Cons.prems(1,2,4) in auto)
qed simp

lemma check_ipc_timeouts_inv:
  assumes "check_ipc_timeouts now k = Inr (n, k')" "sched_inv k"
  shows "sched_inv k' \<and> k_current k' = k_current k \<and> (\<forall>t. n = Some t \<longrightarrow> t < Threads_max)"
proof -
  obtain a b ka where ab: "expire_list now (k_snd_wait k) None k = Inr (a, ka)"
    "expire_list now (k_rcv_wait ka) None ka = Inr (b, k')"
    and n: "n = (case (a, b) of (Some a, Some b) \<Rightarrow> Some (if prio_max (k_thr k' a) > prio_max (k_thr k' b) then a else b)
      | (Some a, None) \<Rightarrow> Some a | (None, Some b) \<Rightarrow> Some b | (None, None) \<Rightarrow> None)"
    using assms(1) by (auto simp: check_ipc_timeouts_def)
  have A: "sched_inv ka" "k_current ka = k_current k" "\<And>t. a = Some t \<Longrightarrow> t < Threads_max"
    using expire_list_inv [OF ab(1) assms(2)] waiting_list(3) [OF assms(2), of L_snd_wait] by auto
  have B: "sched_inv k'" "k_current k' = k_current ka" "\<And>t. b = Some t \<Longrightarrow> t < Threads_max"
    using expire_list_inv [OF ab(2) A(1)] waiting_list(3) [OF A(1), of L_rcv_wait] by auto
  show ?thesis using A B n by (cases a; cases b) auto
qed

lemma slice_end_inv:
  assumes "timeslice_expired t k = Inr (n, k')" "sched_inv k" "t < Threads_max"
  shows "sched_inv k' \<and> k_current k' = k_current k \<and> n < Threads_max"
proof -
  let ?p = "unat (t_prio (k_thr k t))"
  have e: "timeslice_expired_in ?p t k = Inr (n, k')" using assms(1) by (simp add: timeslice_expired_def)
  then have "t_state (k_thr k t) = Ready" by (simp add: timeslice_expired_in_def)
  then have "t \<in> set (k_ready k ?p)" using ready_member [OF assms(2)] assms(3) by simp
  from timeslice_expired_inv [OF e assms(2) this] have "sched_inv k'" "n \<in> set (k_ready k ?p)" by auto
  moreover have "k_current k' = k_current k"
    using e by (auto simp: timeslice_expired_in_def Let_def split: if_splits)
  ultimately show ?thesis using ready_member [OF assms(2)] by blast
qed

lemma kern_timer_tick_inv:
  assumes "kern_timer_tick clk k = Inr k'" "sched_inv k" "k_current k < Threads_max"
  shows "sched_inv k' \<and> k_current k' < Threads_max"
proof -
  let ?cur = "k_current k"
  let ?k1 = "thr_upd ?cur (timeslice_update clk) (k\<lparr>k_now := clk\<rparr>)"
  have inv1: "sched_inv ?k1"
    by (rule sched_inv_thr_upd [OF sched_inv_rest(1) [OF assms(2)]])
      (auto simp: timeslice_update_def timeslice_spend_def intro: list_of_cong)
  have cur: "k_current (k\<lparr>k_now := clk\<rparr>) = ?cur" by simp
  obtain n1 k2 n2 k3 where c: "check_ipc_timeouts clk ?k1 = Inr (n1, k2)"
    and e: "(if t_timeslice (k_thr k2 ?cur) = 0
             then res_bind (timeslice_expired ?cur k2) (\<lambda>(n, k3). Inr (Some n, k3)) else Inr (None, k2)) = Inr (n2, k3)"
    and k': "k' = (case n1 of
             Some n \<Rightarrow> if prio_max (k_thr k3 n) > prio_max (k_thr k3 ?cur) then switch_to n k3
                       else (case n2 of Some m \<Rightarrow> switch_to m k3 | None \<Rightarrow> k3)
           | None \<Rightarrow> (case n2 of Some m \<Rightarrow> switch_to m k3 | None \<Rightarrow> k3))"
    using assms(1) unfolding kern_timer_tick_def Let_def cur by auto
  have A: "sched_inv k2" "k_current k2 = ?cur" "\<And>t. n1 = Some t \<Longrightarrow> t < Threads_max"
    using check_ipc_timeouts_inv [OF c inv1] by auto
  have B: "sched_inv k3" "k_current k3 = ?cur" "\<And>t. n2 = Some t \<Longrightarrow> t < Threads_max"
    using e A slice_end_inv [OF _ A(1) assms(3)] by (auto split: if_splits)
  have "k' = k3 \<or> (\<exists>n. n < Threads_max \<and> k' = switch_to n k3)"
    using k' A(3) B(3) by (auto split: option.splits if_splits)
  then show ?thesis using B assms(3) switch_to_inv [of k3] by (auto simp: switch_to_def Let_def)
qed

text \<open>
  The operations that change what the scheduler keeps. A thread saves an IPC phase only while it
  is the running, ready thread.
\<close>

inductive kstep :: "kernel \<Rightarrow> kernel \<Rightarrow> bool" where
  create: "threads_create g s p tsk pr k = Inr (t, k') \<Longrightarrow> kstep k k'"
| remove: "threads_remove g k = Inr k' \<Longrightarrow> kstep k k'"
| start: "t < Threads_max \<Longrightarrow> thread_start t ip sp k = Inr k' \<Longrightarrow> kstep k k'"
| state: "t < Threads_max \<Longrightarrow> set_state t s k = Inr k' \<Longrightarrow> kstep k k'"
| prio: "t < Threads_max \<Longrightarrow> set_prio t v k = Inr k' \<Longrightarrow> kstep k k'"
| snd_phase: "t_state (k_thr k (k_current k)) = Ready \<Longrightarrow> save_snd_phase (k_current k) tm to k = Inr k' \<Longrightarrow> kstep k k'"
| rcv_phase: "t_state (k_thr k (k_current k)) = Ready \<Longrightarrow> save_rcv_phase (k_current k) tm from k = Inr k' \<Longrightarrow> kstep k k'"
| tick: "kern_timer_tick clk k = Inr k' \<Longrightarrow> kstep k k'"
| resched: "switch_to_next k = Inr k' \<Longrightarrow> kstep k k'"

definition run_inv :: "kernel \<Rightarrow> bool" where
  "run_inv k \<longleftrightarrow> sched_inv k \<and> k_current k < Threads_max"

lemma set_state_run_inv: "set_state t s k = Inr k' \<Longrightarrow> run_inv k \<Longrightarrow> t < Threads_max \<Longrightarrow> run_inv k'"
  using set_state_inv set_state_current by (simp add: run_inv_def)

lemma thr_index_less: "thr_index g = Inr t \<Longrightarrow> t < Threads_max"
  by (auto simp: thr_index_def kcfg)

lemma run_inv_same: "run_inv k \<Longrightarrow> sched_same (f (k_thr k t)) (k_thr k t) \<Longrightarrow> run_inv (thr_upd t f k)"
  by (simp add: run_inv_def sched_inv_same)

lemma save_phase_inv:
  assumes "run_inv k" "t_state (k_thr k (k_current k)) = Ready" "s \<noteq> Ready" "t_state (f (k_thr k (k_current k))) = Ready"
    and "t_prio (f (k_thr k (k_current k))) = t_prio (k_thr k (k_current k))"
    and "set_state (k_current k) s (thr_upd (k_current k) f k) = Inr k'"
  shows "run_inv k'"
proof -
  have "list_of (f (k_thr k (k_current k))) = list_of (k_thr k (k_current k))"
    using assms(2,4,5) by (simp add: list_of_def)
  moreover have "k_current k \<notin> set (k_snd_wait k) \<union> set (k_rcv_wait k)"
    using waiting_list(3) [of k L_snd_wait] waiting_list(3) [of k L_rcv_wait] assms(1,2) by (simp add: run_inv_def)
  ultimately have "sched_inv (thr_upd (k_current k) f k)"
    using assms(1) by (auto simp: run_inv_def sched_inv_def intro: lists_inv_thr_upd order_inv_thr_upd)
  then show ?thesis
    using set_state_run_inv [OF assms(6)] assms(1) by (simp add: run_inv_def)
qed

lemma kstep_inv: "kstep k k' \<Longrightarrow> run_inv k \<Longrightarrow> run_inv k'"
proof (induction rule: kstep.induct)
  case (create g s p tsk pr k t k')
  let ?k1 = "thr_upd t (\<lambda>x. x\<lparr>t_task := tsk, t_glob_id := g, t_sched_id := s, t_pager_id := p\<rparr>) k"
  obtain k2 where k: "thr_index g = Inr t" "set_prio t pr ?k1 = Inr k2" "set_state t Inactive k2 = Inr k'"
    using create(1) by (auto simp: threads_create_def Let_def)
  have t: "t < Threads_max" by (rule thr_index_less [OF k(1)])
  have "sched_inv ?k1"
    using create(2) by (intro sched_inv_thr_upd) (auto simp: run_inv_def intro: list_of_cong)
  then have "sched_inv k2" "k_current k2 = k_current k"
    using set_prio_ok [OF _ t, of ?k1 pr] k(2) by (auto simp: same_rest_def)
  then have "run_inv k2" using create(2) by (simp add: run_inv_def)
  then show ?case using set_state_run_inv [OF k(3)] t by blast
next
  case (remove g k k')
  then show ?case using thr_index_less set_state_run_inv by (auto simp: threads_remove_def)
next
  case (start t ip sp k k')
  obtain k1 where k1: "set_state t Ready k1 = Inr k'" "k1 = k \<or> (\<exists>pg sc. k1 = thr_upd t (\<lambda>x. x\<lparr>t_pager := pg, t_sched := sc,
                 t_utcb := (t_utcb x)\<lparr>u_global_id := t_glob_id x\<rparr>\<rparr>) k)"
    using start(2) by (auto simp: thread_start_def split: if_splits)
  have "run_inv k1" using k1(2) start(3) by (auto intro: run_inv_same simp: sched_same_def)
  then show ?case using set_state_run_inv [OF k1(1)] start(1) by blast
next
  case (state t s k k')
  then show ?case using set_state_run_inv by blast
next
  case (prio t v k k')
  then show ?case using set_prio_ok [of k t v] by (auto simp: run_inv_def same_rest_def)
next
  case (snd_phase k tm to k')
  then show ?case
    using save_phase_inv [OF snd_phase(3,1), of Send_ipc "\<lambda>x. x\<lparr>t_timeout := abs_timeout k tm, t_to := to\<rparr>"]
    by (auto simp: save_snd_phase_def)
next
  case (rcv_phase k tm "from" k')
  then show ?case
    using save_phase_inv [OF rcv_phase(3,1), of Receive_ipc "\<lambda>x. x\<lparr>t_timeout := abs_timeout k tm, t_from_spec := from\<rparr>"]
    by (auto simp: save_rcv_phase_def)
next
  case (tick clk k k')
  then show ?case using kern_timer_tick_inv by (simp add: run_inv_def)
next
  case (resched k k')
  then obtain n k1 where "get_highest_prio_ready_thread k = Inr (n, k1)" "k' = switch_to n k1"
    by (auto simp: switch_to_next_def)
  then show ?case using get_highest_inv [of k n k1] switch_to_inv [of k1 n] resched(2)
    by (auto simp: run_inv_def switch_to_def Let_def)
qed

text \<open>
  In every state the kernel can reach from its initial data by creating, starting, removing and
  blocking threads, changing states and priorities, timer ticks and rescheduling, each thread is in
  exactly the list its state, priority and timeout call for, once; the bitmap of ready priorities
  has exactly the bits of the nonempty ready queues; and the waiting lists are ordered by timeout.
\<close>

theorem reachable_sched_inv:
  assumes "kstep\<^sup>*\<^sup>* kernel_new k"
  shows "sched_inv k \<and> k_current k < Threads_max"
  using assms
proof (induction rule: rtranclp_induct)
  case base
  show ?case using kernel_new_inv by (simp add: kernel_new_def)
next
  case (step y z)
  then show ?case using kstep_inv [of y z] by (simp add: run_inv_def)
qed

text \<open>
  C12. A state change of a thread whose lent priority is booked consistently never fails: it takes the
  thread out of its old list and puts it into that of the new state, keeps every other thread up to
  the priority its heir gives back, and leaves all lists, the bitmap and the order consistent.
\<close>

theorem set_state_total:
  assumes "sched_inv k" "t < Threads_max" "t_state (k_thr k t) \<noteq> s" "heir_ok k t"
  shows "\<exists>k'. set_state t s k = Inr k' \<and> sched_inv k' \<and> others_kept t k k' \<and> same_rest k k'
    \<and> k_thr k' t = (enter_thread ((k_thr k t)\<lparr>t_state := s\<rparr>))\<lparr>t_prio_heir := thrid_Nil\<rparr>"
  using assms by (rule set_state_ok)

text \<open>
  A ready queue that holds all \<open>Threads_max\<close> threads cannot rotate: the expired thread is appended
  before its old item is erased, and the list has no item left, so the kernel panics.
\<close>

theorem full_queue_rotation_panics:
  assumes "length (k_ready k p) = Threads_max" "t_timeslice (k_thr k t) = 0" "t_state (k_thr k t) = Ready"
  shows "timeslice_expired_in p t k = Inl Panic"
  using assms by (simp add: timeslice_expired_in_def q_push_def Let_def)

section \<open>Concrete kernels\<close>

text \<open>One ready thread of priority 5, every other thread idle.\<close>

definition one_ready :: kernel where
  "one_ready = (case set_state 3 Ready (thr_upd 3 (\<lambda>x. x\<lparr>t_prio := 5\<rparr>) kernel_new) of Inr k \<Rightarrow> k | Inl _ \<Rightarrow> kernel_new)"

lemma kernel_new_flat: "flat_heirs kernel_new"
  by (simp add: flat_heirs_def heir_ok_def lends_def is_heir_def kernel_new_def thread_new_def thrid_is_nil_def)

lemma one_ready_facts:
  "sched_inv one_ready" "flat_heirs one_ready" "t_state (k_thr one_ready 3) = Ready" "t_state (k_thr one_ready 0) = Idle"
proof -
  let ?k = "thr_upd 3 (\<lambda>x. x\<lparr>t_prio := 5\<rparr>) kernel_new"
  have "sched_inv ?k" by (rule sched_inv_thr_upd [OF kernel_new_inv]) (simp_all add: kernel_new_def thread_new_def list_of_def)
  moreover have "flat_heirs ?k"
    by (simp add: flat_heirs_def heir_ok_def lends_def is_heir_def kernel_new_def thread_new_def thrid_is_nil_def)
  ultimately obtain k' where k': "set_state 3 Ready ?k = Inr k'" "sched_inv k'" "flat_heirs k'" "others_kept 3 ?k k'"
    "k_thr k' 3 = (enter_thread ((k_thr ?k 3)\<lparr>t_state := Ready\<rparr>))\<lparr>t_prio_heir := thrid_Nil\<rparr>"
    using set_state_flat [of ?k 3 Ready] by (auto simp: kernel_new_def thread_new_def)
  moreover have "one_ready = k'" by (simp add: one_ready_def k'(1))
  ultimately show "sched_inv one_ready" "flat_heirs one_ready" "t_state (k_thr one_ready 3) = Ready"
    "t_state (k_thr one_ready 0) = Idle"
    using others_kept_field(1) [OF k'(4), of 0] by (simp_all add: kernel_new_def thread_new_def)
qed

lemma queues_not_full:
  assumes "sched_inv k" "v < Threads_max" "t_state (k_thr k v) \<noteq> Ready"
  shows "length (k_ready k p) < Threads_max"
  using members_room [of "{}" k "L_ready p" v] ready_member [OF assms(1), of v p] assms by (simp add: sched_inv_def)

theorem sched_highest_prio_witness:
  "\<exists>t k'. get_highest_prio_ready_thread one_ready = Inr (t, k') \<and> sched_inv k'
    \<and> t < Threads_max \<and> t_state (k_thr one_ready t) = Ready"
  using sched_highest_prio [of one_ready 3] one_ready_facts queues_not_full [of one_ready 0] by auto

text \<open>Thread 3 waits in the receive phase until time 5.\<close>

definition one_waits :: kernel where
  "one_waits = (case set_state 3 Receive_ipc (thr_upd 3 (\<lambda>x. x\<lparr>t_timeout := 5\<rparr>) kernel_new) of Inr k \<Rightarrow> k | Inl _ \<Rightarrow> kernel_new)"

lemma one_waits_facts: "sched_inv one_waits" "flat_heirs one_waits" "t_state (k_thr one_waits 3) = Receive_ipc" "t_timeout (k_thr one_waits 3) = 5"
proof -
  let ?k = "thr_upd 3 (\<lambda>x. x\<lparr>t_timeout := 5\<rparr>) kernel_new"
  have "sched_inv ?k" using kernel_new_inv
    by (auto intro!: lists_inv_thr_upd order_inv_thr_upd simp: sched_inv_def kernel_new_def thread_new_def list_of_def)
  moreover have "flat_heirs ?k"
    by (simp add: flat_heirs_def heir_ok_def lends_def is_heir_def kernel_new_def thread_new_def thrid_is_nil_def)
  ultimately obtain k' where k': "set_state 3 Receive_ipc ?k = Inr k'" "sched_inv k'" "flat_heirs k'"
    "k_thr k' 3 = (enter_thread ((k_thr ?k 3)\<lparr>t_state := Receive_ipc\<rparr>))\<lparr>t_prio_heir := thrid_Nil\<rparr>"
    using set_state_flat [of ?k 3 Receive_ipc] by (auto simp: kernel_new_def thread_new_def)
  moreover have "one_waits = k'" by (simp add: one_waits_def k'(1))
  ultimately show "sched_inv one_waits" "flat_heirs one_waits" "t_state (k_thr one_waits 3) = Receive_ipc" "t_timeout (k_thr one_waits 3) = 5"
    by (simp_all add: enter_thread_def)
qed


theorem reachable_sched_inv_witness: "sched_inv (thr_upd 3 (\<lambda>x. x\<lparr>t_prio := 5\<rparr>) kernel_new)"
proof -
  have "set_prio 3 5 kernel_new = Inr (thr_upd 3 (\<lambda>x. x\<lparr>t_prio := 5\<rparr>) kernel_new)"
    by (simp add: set_prio_def kernel_new_def thread_new_def)
  then have "kstep kernel_new (thr_upd 3 (\<lambda>x. x\<lparr>t_prio := 5\<rparr>) kernel_new)" by (intro kstep.prio [of 3]) simp_all
  then show ?thesis using reachable_sched_inv [OF r_into_rtranclp] by blast
qed

theorem set_state_total_witness:
  "\<exists>k'. set_state 3 Receive_pfault one_ready = Inr k' \<and> sched_inv k'"
  using set_state_total [of one_ready 3 Receive_pfault] one_ready_facts by (auto simp: flat_heirs_def)

text \<open>All 128 threads ready at one priority.\<close>

definition all_ready :: kernel where
  "all_ready = kernel_new\<lparr>k_thr := (\<lambda>t. (thread_new t)\<lparr>t_state := Ready\<rparr>), k_ready := (\<lambda>_. [])(0 := [0..<128]),
     k_bits := (replicate 8 0)[0 := 1]\<rparr>"

theorem full_queue_rotation_panics_witness: "timeslice_expired_in 0 0 all_ready = Inl Panic"
  by (rule full_queue_rotation_panics) (simp_all add: all_ready_def thread_new_def)

end
