(* ===== verification/Regions.thy ===== *)
theory Regions
  imports L4_Types
begin

text \<open>
  \<open>Address_space_t\<close> of \<open>krn/kmem.h\<close>: the ordered list of regions in which the kernel keeps the
  virtual spaces and its memory pool, with the operations that add, insert, allocate, find, free
  and retype regions, splitting and combining them. Addresses and sizes are 32-bit words. An iterator is a position: the list is given as the
  items before it and the items from it on.
\<close>

section \<open>Regions\<close>

record 'y desc =
  d_addr :: u32
  d_sz :: u32
  d_type :: 'y

definition d_end :: "'y desc \<Rightarrow> u32" where "d_end d = d_addr d + d_sz d"

definition mk_desc :: "u32 \<Rightarrow> u32 \<Rightarrow> 'y \<Rightarrow> 'y desc" where
  "mk_desc a s y = \<lparr>d_addr = a, d_sz = s, d_type = y\<rparr>"

datatype mode = Combine | NotCombine

text \<open>\<open>insert_before\<close> or \<open>push_back\<close> on a \<open>list_t\<close> of \<open>n\<close> items.\<close>

definition put_desc :: "nat \<Rightarrow> 'y desc list \<Rightarrow> 'y desc list \<Rightarrow> 'y desc \<Rightarrow> 'y desc list res" where
  "put_desc n pre post d = (if length pre + length post < n then Inr (pre @ d # post) else Inl Panic)"

definition add_at :: "nat \<Rightarrow> 'y desc list \<Rightarrow> 'y desc list \<Rightarrow> u32 \<Rightarrow> u32 \<Rightarrow> 'y \<Rightarrow> mode \<Rightarrow> 'y desc list res" where
  "add_at n pre post addr sz type mode =
     res_bind (wassert (post = [] \<or> addr + sz \<le> d_addr (hd post))) (\<lambda>_.
     res_bind (wassert (pre = [] \<or> addr \<ge> d_end (last pre))) (\<lambda>_.
     if mode = NotCombine then put_desc n pre post (mk_desc addr sz type)
     else
       case post of
         pos # rest \<Rightarrow>
           (let pos_cont = (addr + sz = d_addr pos \<and> type = d_type pos);
                prev_cont = (pre \<noteq> [] \<and> d_addr (last pre) + d_sz (last pre) = addr \<and> d_type (last pre) = type) in
            if pos_cont \<and> prev_cont then
              Inr (butlast pre @ (last pre)\<lparr>d_sz := d_sz (last pre) + (sz + d_sz pos)\<rparr> # rest)
            else if pos_cont then
              Inr (pre @ pos\<lparr>d_addr := d_addr pos - sz, d_sz := d_sz pos + sz\<rparr> # rest)
            else if prev_cont then
              Inr (butlast pre @ (last pre)\<lparr>d_sz := d_sz (last pre) + sz\<rparr> # post)
            else put_desc n pre post (mk_desc addr sz type))
       | [] \<Rightarrow>
           if pre \<noteq> [] \<and> d_addr (last pre) + d_sz (last pre) = addr \<and> d_type (last pre) = type
           then Inr (butlast pre @ [(last pre)\<lparr>d_sz := d_sz (last pre) + sz\<rparr>])
           else put_desc n pre [] (mk_desc addr sz type)))"

text \<open>\<open>remove\<close> returns the new list with the position of the next element.\<close>

definition remove_at :: "nat \<Rightarrow> 'y desc list \<Rightarrow> 'y desc list \<Rightarrow> u32 \<Rightarrow> u32 \<Rightarrow> ('y desc list \<times> 'y desc list) res" where
  "remove_at n pre post addr sz =
     (case post of
        [] \<Rightarrow> Inl Assert_failed
      | pos # rest \<Rightarrow>
          res_bind (wassert (d_addr pos \<le> addr \<and> d_addr pos + d_sz pos \<ge> addr + sz)) (\<lambda>_.
          let eend = addr + sz; pos_end = d_addr pos + d_sz pos in
          if d_addr pos = addr \<and> pos_end = eend then Inr (pre, rest)
          else if d_addr pos = addr then
            Inr (pre, pos\<lparr>d_addr := d_addr pos + sz, d_sz := d_sz pos - sz\<rparr> # rest)
          else if pos_end = eend then Inr (pre @ [pos\<lparr>d_sz := d_sz pos - sz\<rparr>], rest)
          else
            res_bind (put_desc n pre post (mk_desc (d_addr pos) (addr - d_addr pos) (d_type pos))) (\<lambda>_.
            Inr (pre @ [mk_desc (d_addr pos) (addr - d_addr pos) (d_type pos)],
                 pos\<lparr>d_addr := eend, d_sz := pos_end - eend\<rparr> # rest))))"

section \<open>Operations\<close>

text \<open>The searches are loops over the list; they return the split at the position found.\<close>

fun split_at :: "('d \<Rightarrow> bool) \<Rightarrow> 'd list \<Rightarrow> 'd list \<times> 'd list" where
  "split_at p [] = ([], [])"
| "split_at p (d # ds) = (if p d then ([], d # ds) else (let (a, b) = split_at p ds in (d # a, b)))"

definition rg_add :: "nat \<Rightarrow> 'y desc list \<Rightarrow> u32 \<Rightarrow> u32 \<Rightarrow> 'y \<Rightarrow> mode \<Rightarrow> 'y desc list res" where
  "rg_add n dl addr sz type mode =
     (let (pre, post) = split_at (\<lambda>d. d_addr d \<ge> addr) dl in
      if post \<noteq> [] \<and> addr + sz > d_addr (hd post) then Inl Panic
      else add_at n pre post addr sz type mode)"

definition contents :: "u32 \<Rightarrow> u32 \<Rightarrow> 'y desc \<Rightarrow> bool" where
  "contents addr sz d = (addr \<ge> d_addr d \<and> addr + sz \<le> d_end d)"

text \<open>\<open>insert\<close>; \<open>ior\<close> is the operator \<open>|=\<close> of the type.\<close>

definition rg_insert ::
  "('y \<Rightarrow> 'y \<Rightarrow> 'y) \<Rightarrow> nat \<Rightarrow> 'y desc list \<Rightarrow> u32 \<Rightarrow> u32 \<Rightarrow> 'y \<Rightarrow> mode \<Rightarrow> ('y \<times> 'y desc list) res" where
  "rg_insert ior n dl addr sz type mode =
     (let (pre, post) = split_at (\<lambda>d. contents addr sz d \<or> d_addr d \<ge> addr) dl in
      if post \<noteq> [] \<and> contents addr sz (hd post) then
        (let type' = ior type (d_type (hd post)) in
         res_bind (remove_at n pre post addr sz) (\<lambda>(pre', post').
         res_bind (add_at n pre' post' addr sz type' mode) (\<lambda>dl'. Inr (type', dl'))))
      else if post \<noteq> [] \<and> addr + sz > d_addr (hd post) then Inl Panic
      else res_bind (add_at n pre post addr sz type mode) (\<lambda>dl'. Inr (type, dl')))"

definition round_up :: "u32 \<Rightarrow> u32 \<Rightarrow> u32" where
  "round_up n a = (n + (a - 1)) AND NOT (a - 1)"

text \<open>The loop of \<open>find_free\<close> over the regions from \<open>space_start\<close> on.\<close>

fun free_from :: "u32 \<Rightarrow> u32 \<Rightarrow> u32 \<Rightarrow> 'y desc list \<Rightarrow> u32 \<Rightarrow> u32" where
  "free_from sz align space_end [] cur = cur"
| "free_from sz align space_end (d # ds) cur =
     (if cur \<ge> space_end \<or> cur + sz > space_end then 0
      else if cur + sz \<le> d_addr d then cur
      else free_from sz align space_end ds (round_up (d_addr d + d_sz d) align))"

definition find_free :: "'y desc list \<Rightarrow> u32 \<Rightarrow> u32 \<Rightarrow> u32 \<Rightarrow> u32 \<Rightarrow> u32" where
  "find_free dl sz align space_start space_sz =
     (let post = snd (split_at (\<lambda>d. d_addr d \<ge> space_start) dl);
          space_end = space_start + space_sz;
          cur = free_from sz align space_end post (round_up space_start align) in
      if cur \<noteq> 0 \<and> cur + sz > space_end then 0 else cur)"

definition rg_alloc ::
  "nat \<Rightarrow> 'y desc list \<Rightarrow> u32 \<Rightarrow> u32 \<Rightarrow> 'y \<Rightarrow> mode \<Rightarrow> u32 \<Rightarrow> u32 \<Rightarrow> (u32 \<times> 'y desc list) res" where
  "rg_alloc n dl sz align type mode space_start space_sz =
     (let addr = find_free dl sz align space_start space_sz in
      if addr \<noteq> 0 then res_bind (rg_add n dl addr sz type mode) (\<lambda>dl'. Inr (addr, dl'))
      else Inr (0, dl))"

text \<open>\<open>find(addr)\<close> and \<open>find(addr, sz)\<close> return the end of the list when a later region is met first.\<close>

definition find_start :: "'y desc list \<Rightarrow> u32 \<Rightarrow> 'y desc list \<times> 'y desc list" where
  "find_start dl addr =
     (let (pre, post) = split_at (\<lambda>d. addr = d_addr d \<or> d_addr d > addr) dl in
      if post \<noteq> [] \<and> addr = d_addr (hd post) then (pre, post) else (dl, []))"

definition find_part :: "'y desc list \<Rightarrow> u32 \<Rightarrow> u32 \<Rightarrow> 'y desc list \<times> 'y desc list" where
  "find_part dl addr sz =
     (let (pre, post) = split_at (\<lambda>d. contents addr sz d \<or> d_addr d \<ge> addr + sz) dl in
      if post \<noteq> [] \<and> contents addr sz (hd post) then (pre, post) else (dl, []))"

definition rg_free :: "nat \<Rightarrow> 'y desc list \<Rightarrow> u32 \<Rightarrow> u32 \<Rightarrow> 'y desc list res" where
  "rg_free n dl addr sz =
     (let (pre, post) = find_part dl addr sz in
      if post \<noteq> [] then res_bind (remove_at n pre post addr sz) (\<lambda>(pre', post'). Inr (pre' @ post'))
      else Inr dl)"

definition set_type ::
  "nat \<Rightarrow> 'y desc list \<Rightarrow> 'y desc list \<Rightarrow> u32 \<Rightarrow> u32 \<Rightarrow> 'y \<Rightarrow> mode \<Rightarrow> 'y desc list res" where
  "set_type n pre post addr sz type mode =
     (case post of
        [] \<Rightarrow> Inl Assert_failed
      | pos # _ \<Rightarrow>
          res_bind (wassert (d_addr pos \<le> addr \<and> d_addr pos + d_sz pos \<ge> addr + sz)) (\<lambda>_.
          res_bind (wassert (d_type pos \<noteq> type)) (\<lambda>_.
          res_bind (remove_at n pre post addr sz) (\<lambda>(pre', post').
          add_at n pre' post' addr sz type mode))))"

section \<open>What a region list stands for\<close>

definition d_lo :: "'y desc \<Rightarrow> nat" where "d_lo d = unat (d_addr d)"
definition d_hi :: "'y desc \<Rightarrow> nat" where "d_hi d = unat (d_addr d) + unat (d_sz d)"

text \<open>The type of the region that holds an address.\<close>

fun rg_map :: "'y desc list \<Rightarrow> nat \<Rightarrow> 'y option" where
  "rg_map [] a = None"
| "rg_map (d # ds) a = (if d_lo d \<le> a \<and> a < d_hi d then Some (d_type d) else rg_map ds a)"

text \<open>Ordered, disjoint, nonempty regions that do not reach the end of the 32-bit space.\<close>

fun rg_ok :: "nat \<Rightarrow> 'y desc list \<Rightarrow> bool" where
  "rg_ok lo [] = True"
| "rg_ok lo (d # ds) = (lo \<le> d_lo d \<and> d_lo d < d_hi d \<and> d_hi d < 2 ^ 32 \<and> rg_ok (d_hi d) ds)"

definition hi_of :: "nat \<Rightarrow> 'y desc list \<Rightarrow> nat" where
  "hi_of lo ds = (if ds = [] then lo else d_hi (last ds))"

lemma hi_of_simps [simp]: "hi_of lo [] = lo" "hi_of lo (d # ds) = hi_of (d_hi d) ds"
  by (simp_all add: hi_of_def)

lemma rg_ok_append: "rg_ok lo (xs @ ys) \<longleftrightarrow> rg_ok lo xs \<and> rg_ok (hi_of lo xs) ys"
  by (induction xs arbitrary: lo) auto

lemma rg_ok_mono: "rg_ok lo xs \<Longrightarrow> lo' \<le> lo \<Longrightarrow> rg_ok lo' xs"
  by (cases xs) auto

lemma rg_ok_hi: "rg_ok lo xs \<Longrightarrow> lo \<le> hi_of lo xs"
proof (induction xs arbitrary: lo)
  case (Cons d ds)
  have "d_hi d \<le> hi_of (d_hi d) ds" using Cons by simp
  then show ?case using Cons.prems by simp
qed simp

lemma rg_ok_mem: "rg_ok lo xs \<Longrightarrow> e \<in> set xs \<Longrightarrow> lo \<le> d_lo e \<and> d_lo e < d_hi e \<and> d_hi e < 2 ^ 32"
  by (induction xs arbitrary: lo) fastforce+

lemma rg_ok_last: "rg_ok lo xs \<Longrightarrow> xs \<noteq> [] \<Longrightarrow> d_hi (last xs) < 2 ^ 32 \<and> hi_of lo xs = d_hi (last xs)"
  using rg_ok_mem [of lo xs "last xs"] by (simp add: hi_of_def)

lemma rg_map_append: "rg_map (xs @ ys) a = (case rg_map xs a of Some y \<Rightarrow> Some y | None \<Rightarrow> rg_map ys a)"
  by (induction xs) auto

lemma rg_map_below: "rg_ok lo xs \<Longrightarrow> a < lo \<Longrightarrow> rg_map xs a = None"
  by (induction xs arbitrary: lo) (auto intro: less_trans)

lemma rg_map_above: "rg_ok lo xs \<Longrightarrow> lo \<le> a \<Longrightarrow> hi_of lo xs \<le> a \<Longrightarrow> rg_map xs a = None"
proof (induction xs arbitrary: lo)
  case (Cons d ds)
  have "d_hi d \<le> hi_of (d_hi d) ds" using Cons.prems(1) by (auto intro: rg_ok_hi)
  then show ?case using Cons by auto
qed simp

text \<open>Arithmetic on addresses that do not wrap.\<close>

lemma unat_sum: "unat (a::u32) + unat b < 2 ^ 32 \<Longrightarrow> unat (a + b) = unat a + unat b"
  by (simp add: unat_word_ariths)

lemma d_hi_unat: "d_hi d < 2 ^ 32 \<Longrightarrow> unat (d_end d) = d_hi d"
  by (simp add: d_end_def d_hi_def unat_sum)

lemma mk_desc_simps [simp]:
  "d_addr (mk_desc a s y) = a" "d_sz (mk_desc a s y) = s" "d_type (mk_desc a s y) = y"
  by (simp_all add: mk_desc_def)

section \<open>Adding, splitting and combining\<close>

definition upd_range :: "nat \<Rightarrow> nat \<Rightarrow> 'y option \<Rightarrow> (nat \<Rightarrow> 'y option) \<Rightarrow> nat \<Rightarrow> 'y option" where
  "upd_range lo hi y m a = (if lo \<le> a \<and> a < hi then y else m a)"

lemma rg_insert_between:
  assumes "rg_ok 0 (pre @ post)" "hi_of 0 pre \<le> d_lo d" "d_lo d < d_hi d" "d_hi d < 2 ^ 32"
    and "post = [] \<or> d_hi d \<le> d_lo (hd post)"
  shows "rg_ok 0 (pre @ d # post)"
    "rg_map (pre @ d # post) = upd_range (d_lo d) (d_hi d) (Some (d_type d)) (rg_map (pre @ post))"
proof -
  have ok: "rg_ok 0 pre" "rg_ok (hi_of 0 pre) post" using assms(1) by (auto simp: rg_ok_append)
  have post: "rg_ok (d_hi d) post" using ok(2) assms(5) by (cases post) auto
  then show "rg_ok 0 (pre @ d # post)" using ok(1) assms(2-4) by (simp add: rg_ok_append)
  show "rg_map (pre @ d # post) = upd_range (d_lo d) (d_hi d) (Some (d_type d)) (rg_map (pre @ post))"
  proof
    fix a
    have "rg_map pre a = None" if "d_lo d \<le> a" using that assms(2) by (intro rg_map_above [OF ok(1)]) auto
    then show "rg_map (pre @ d # post) a = upd_range (d_lo d) (d_hi d) (Some (d_type d)) (rg_map (pre @ post)) a"
      by (auto simp: rg_map_append upd_range_def split: option.splits)
  qed
qed

lemma rg_merge:
  assumes "rg_ok lo (xs @ d1 # d2 # ys)" "d_hi d1 = d_lo d2" "d_lo d = d_lo d1" "d_hi d = d_hi d2"
    and "d_type d1 = d_type d" "d_type d2 = d_type d"
  shows "rg_ok lo (xs @ d # ys)" "rg_map (xs @ d # ys) = rg_map (xs @ d1 # d2 # ys)"
proof -
  have o: "d_lo d1 < d_hi d1" "d_lo d2 < d_hi d2" using assms(1) by (auto simp: rg_ok_append)
  show "rg_ok lo (xs @ d # ys)" using assms by (auto simp: rg_ok_append)
  show "rg_map (xs @ d # ys) = rg_map (xs @ d1 # d2 # ys)"
    using assms o by (intro ext) (auto simp: rg_map_append split: option.splits)
qed

text \<open>The asserts of \<open>add\<close> say that the new region fits between its neighbours.\<close>

lemma add_at_fits:
  assumes "rg_ok 0 (pre @ post)" "unat addr + unat sz < 2 ^ 32"
    and "post = [] \<or> addr + sz \<le> d_addr (hd post)" "pre = [] \<or> addr \<ge> d_end (last pre)"
  shows "hi_of 0 pre \<le> unat addr" "post = [] \<or> unat addr + unat sz \<le> d_lo (hd post)"
proof -
  have "d_hi (last pre) < 2 ^ 32" if "pre \<noteq> []"
  proof -
    have "rg_ok 0 (butlast pre @ [last pre])" using assms(1) that by (simp add: rg_ok_append)
    then show ?thesis by (auto simp: rg_ok_append)
  qed
  then show "hi_of 0 pre \<le> unat addr"
    using assms(4) by (auto simp: hi_of_def word_le_nat_alt d_hi_unat)
  show "post = [] \<or> unat addr + unat sz \<le> d_lo (hd post)"
    using assms(2,3) by (auto simp: word_le_nat_alt unat_sum d_lo_def)
qed

lemma put_desc_eq: "put_desc n pre post d = Inr dl \<longleftrightarrow> length pre + length post < n \<and> dl = pre @ d # post"
  by (auto simp: put_desc_def)

lemma add_at_cases:
  assumes "add_at n pre post addr sz type mode = Inr dl"
  obtains (fresh) "dl = pre @ mk_desc addr sz type # post"
  | (both) p0 p pos rest where "pre = p0 @ [p]" "post = pos # rest" "addr + sz = d_addr pos" "type = d_type pos"
      "d_addr p + d_sz p = addr" "d_type p = type" "dl = p0 @ p\<lparr>d_sz := d_sz p + (sz + d_sz pos)\<rparr> # rest"
  | (next') pos rest where "post = pos # rest" "addr + sz = d_addr pos" "type = d_type pos"
      "dl = pre @ pos\<lparr>d_addr := d_addr pos - sz, d_sz := d_sz pos + sz\<rparr> # rest"
  | (prev) p0 p where "pre = p0 @ [p]" "d_addr p + d_sz p = addr" "d_type p = type"
      "dl = p0 @ p\<lparr>d_sz := d_sz p + sz\<rparr> # post"
proof (cases pre rule: rev_cases)
  case Nil
  then show ?thesis using assms that(1,3)
    by (auto simp: add_at_def put_desc_eq Let_def split: if_splits list.splits)
next
  case (snoc p0 p)
  then show ?thesis using assms that(1) that(2) [of p0 p] that(3) that(4) [of p0 p]
    by (auto simp: add_at_def put_desc_eq Let_def split: if_splits list.splits)
qed

lemma add_at_asserts:
  "add_at n pre post addr sz type mode = Inr dl \<Longrightarrow>
   (post = [] \<or> addr + sz \<le> d_addr (hd post)) \<and> (pre = [] \<or> addr \<ge> d_end (last pre))"
  by (auto simp: add_at_def)

lemma d_grow:
  "d_lo (d\<lparr>d_sz := s\<rparr>) = d_lo d"
  "d_hi d + unat s < 2 ^ 32 \<Longrightarrow> d_hi (d\<lparr>d_sz := d_sz d + s\<rparr>) = d_hi d + unat s"
  using unat_sum [of "d_sz d" s] by (simp_all add: d_lo_def d_hi_def)

lemma d_hi_lo: "d_hi d = d_lo d + unat (d_sz d)"
  by (simp add: d_hi_def d_lo_def)

text \<open>Combining the new region with its neighbours.\<close>

lemma merge_prev:
  assumes "rg_ok 0 (p0 @ p # d # post)" "d_end p = d_addr d" "d_type p = d_type d" "d_hi d < 2 ^ 32"
  shows "rg_ok 0 (p0 @ p\<lparr>d_sz := d_sz p + d_sz d\<rparr> # post)"
    "rg_map (p0 @ p\<lparr>d_sz := d_sz p + d_sz d\<rparr> # post) = rg_map (p0 @ p # d # post)"
    "d_hi (p\<lparr>d_sz := d_sz p + d_sz d\<rparr>) = d_hi d"
proof -
  have "d_hi p < 2 ^ 32" using assms(1) by (simp add: rg_ok_append)
  then have p: "d_hi p = d_lo d" using d_hi_unat [of p] assms(2) by (simp add: d_lo_def)
  then show hi: "d_hi (p\<lparr>d_sz := d_sz p + d_sz d\<rparr>) = d_hi d"
    using d_grow(2) [of p "d_sz d"] assms(4) by (simp add: d_hi_lo [of d])
  show "rg_ok 0 (p0 @ p\<lparr>d_sz := d_sz p + d_sz d\<rparr> # post)"
    by (rule rg_merge(1) [OF assms(1) p]) (use assms(3) hi in \<open>simp_all add: d_grow(1)\<close>)
  show "rg_map (p0 @ p\<lparr>d_sz := d_sz p + d_sz d\<rparr> # post) = rg_map (p0 @ p # d # post)"
    by (rule rg_merge(2) [OF assms(1) p]) (use assms(3) hi in \<open>simp_all add: d_grow(1)\<close>)
qed

lemma merge_next:
  assumes "rg_ok 0 (pre @ d # pos # rest)" "d_end d = d_addr pos" "d_type d = d_type pos"
  shows "rg_ok 0 (pre @ pos\<lparr>d_addr := d_addr pos - d_sz d, d_sz := d_sz pos + d_sz d\<rparr> # rest)"
    "rg_map (pre @ pos\<lparr>d_addr := d_addr pos - d_sz d, d_sz := d_sz pos + d_sz d\<rparr> # rest) = rg_map (pre @ d # pos # rest)"
proof -
  let ?m = "pos\<lparr>d_addr := d_addr pos - d_sz d, d_sz := d_sz pos + d_sz d\<rparr>"
  have h: "d_hi d < 2 ^ 32" "d_hi pos < 2 ^ 32" using assms(1) by (simp_all add: rg_ok_append)
  have pos: "d_hi d = d_lo pos" using d_hi_unat [OF h(1)] assms(2) by (simp add: d_lo_def)
  have "d_addr pos - d_sz d = d_addr d" by (simp add: assms(2) [symmetric] d_end_def)
  then have lo: "d_lo ?m = d_lo d" by (simp add: d_lo_def)
  have "unat (d_sz pos) + unat (d_sz d) < 2 ^ 32" using pos h(2) d_hi_lo [of pos] d_hi_lo [of d] by linarith
  then have "unat (d_sz ?m) = unat (d_sz pos) + unat (d_sz d)" using unat_sum by simp
  then have hi: "d_hi ?m = d_hi pos" using lo pos d_hi_lo [of ?m] d_hi_lo [of pos] d_hi_lo [of d] by linarith
  show "rg_ok 0 (pre @ ?m # rest)" by (rule rg_merge(1) [OF assms(1) pos lo hi]) (use assms(3) in simp_all)
  show "rg_map (pre @ ?m # rest) = rg_map (pre @ d # pos # rest)"
    by (rule rg_merge(2) [OF assms(1) pos lo hi]) (use assms(3) in simp_all)
qed

lemma add_at_sound:
  assumes ok: "rg_ok 0 (pre @ post)" and res: "add_at n pre post addr sz type mode = Inr dl"
    and "0 < unat sz" "unat addr + unat sz < 2 ^ 32"
  shows "rg_ok 0 dl" "rg_map dl = upd_range (unat addr) (unat addr + unat sz) (Some type) (rg_map (pre @ post))"
proof -
  let ?d = "mk_desc addr sz type"
  note a = add_at_asserts [OF res]
  note f = add_at_fits [OF ok assms(4) conjunct1 [OF a] conjunct2 [OF a]]
  have d: "d_lo ?d = unat addr" "d_hi ?d = unat addr + unat sz" by (simp_all add: d_lo_def d_hi_def)
  note I = rg_insert_between [OF ok, of ?d, unfolded d, OF f(1) _ assms(4) f(2)]
  have I1: "rg_ok 0 (pre @ ?d # post)" and I2: "rg_map (pre @ ?d # post)
      = upd_range (unat addr) (unat addr + unat sz) (Some type) (rg_map (pre @ post))"
    using I assms(3) by simp_all
  from res have "rg_ok 0 dl \<and> rg_map dl = rg_map (pre @ ?d # post)"
  proof (cases rule: add_at_cases)
    case fresh
    then show ?thesis using I1 by simp
  next
    case (both p0 p pos rest)
    have l: "pre @ ?d # post = p0 @ p # ?d # pos # rest" using both(1,2) by simp
    note m = merge_prev [of p0 p ?d "pos # rest", OF I1 [unfolded l]]
    have m1: "d_end p = d_addr ?d" "d_type p = d_type ?d" "d_hi ?d < 2 ^ 32"
      using both(5,6) d(2) assms(4) by (simp_all add: d_end_def)
    let ?m = "p\<lparr>d_sz := d_sz p + d_sz ?d\<rparr>"
    have e: "d_end ?m = d_addr pos" using both(3,5) by (simp add: d_end_def add.assoc [symmetric])
    have "d_hi pos < 2 ^ 32" using ok both(2) by (simp add: rg_ok_append)
    note m2 = merge_prev [OF m(1) [OF m1] e _ this]
    have "?m\<lparr>d_sz := d_sz ?m + d_sz pos\<rparr> = p\<lparr>d_sz := d_sz p + (sz + d_sz pos)\<rparr>" by (simp add: add.assoc)
    then show ?thesis using m2(1,2) m(2) [OF m1] both(4,6,7) l by (simp del: rg_map.simps add: add.assoc)
  next
    case (next' pos rest)
    then show ?thesis using merge_next [of pre ?d pos rest] I1 by (simp add: d_end_def)
  next
    case (prev p0 p)
    then show ?thesis using merge_prev [of p0 p ?d post] I1 d(2) assms(4) by (simp add: d_end_def)
  qed
  then show "rg_ok 0 dl" "rg_map dl = upd_range (unat addr) (unat addr + unat sz) (Some type) (rg_map (pre @ post))"
    using I2 by simp_all
qed

lemma rg_replace:
  assumes "rg_ok 0 (pre @ pos # rest)" "rg_ok (d_lo pos) ds" "hi_of (d_lo pos) ds \<le> d_hi pos"
  shows "rg_ok 0 (pre @ ds @ rest)"
    "rg_map (pre @ ds @ rest) a = (if d_lo pos \<le> a \<and> a < d_hi pos then rg_map ds a else rg_map (pre @ pos # rest) a)"
proof -
  have ok: "rg_ok 0 pre" "hi_of 0 pre \<le> d_lo pos" "rg_ok (d_hi pos) rest" using assms(1) by (auto simp: rg_ok_append)
  have "rg_ok (hi_of 0 pre) ds" using assms(2) ok(2) by (rule rg_ok_mono)
  moreover have "hi_of (hi_of 0 pre) ds \<le> d_hi pos"
    using assms(1,3) ok(2) by (cases ds) (auto simp: hi_of_def rg_ok_append)
  then have "rg_ok (hi_of (hi_of 0 pre) ds) rest" using ok(3) rg_ok_mono by blast
  ultimately show "rg_ok 0 (pre @ ds @ rest)" using ok(1) by (simp add: rg_ok_append)
  have "rg_map pre a = None" if "d_lo pos \<le> a" using that ok(2) by (intro rg_map_above [OF ok(1)]) auto
  moreover have "rg_map rest a = None" if "a < d_hi pos" using that by (rule rg_map_below [OF ok(3)])
  moreover have "rg_map ds a = None" if "a < d_lo pos" using that by (rule rg_map_below [OF assms(2)])
  moreover have "rg_map ds a = None" if "d_hi pos \<le> a" "d_lo pos \<le> a"
    using that assms(3) by (intro rg_map_above [OF assms(2)]) auto
  ultimately show "rg_map (pre @ ds @ rest) a = (if d_lo pos \<le> a \<and> a < d_hi pos then rg_map ds a else rg_map (pre @ pos # rest) a)"
    by (cases "d_lo pos \<le> a"; cases "a < d_hi pos") (auto simp: rg_map_append split: option.splits)
qed

text \<open>What \<open>remove\<close> leaves of the element: the pieces before and after the range.\<close>

lemma remove_at_cases:
  assumes "remove_at n pre (pos # rest) addr sz = Inr (pre', post')"
  obtains (whole) "d_addr pos = addr" "d_end pos = addr + sz" "pre' = pre" "post' = rest"
  | (front) "d_addr pos = addr" "addr + sz \<le> d_end pos" "pre' = pre"
      "post' = pos\<lparr>d_addr := d_addr pos + sz, d_sz := d_sz pos - sz\<rparr> # rest" "d_end pos \<noteq> addr + sz"
  | (tail) "d_addr pos \<le> addr" "d_addr pos \<noteq> addr" "d_end pos = addr + sz"
      "pre' = pre @ [pos\<lparr>d_sz := d_sz pos - sz\<rparr>]" "post' = rest"
  | (middle) "d_addr pos \<le> addr" "d_addr pos \<noteq> addr" "addr + sz \<le> d_end pos" "d_end pos \<noteq> addr + sz"
      "pre' = pre @ [mk_desc (d_addr pos) (addr - d_addr pos) (d_type pos)]"
      "post' = pos\<lparr>d_addr := addr + sz, d_sz := d_end pos - (addr + sz)\<rparr> # rest"
  using assms by (auto simp: remove_at_def Let_def d_end_def split: if_splits)

lemma remove_at_pieces:
  assumes res: "remove_at n pre (pos # rest) addr sz = Inr (pre', post')"
    and ok: "d_lo pos < d_hi pos" "d_hi pos < 2 ^ 32" and sz: "0 < unat sz" "unat addr + unat sz < 2 ^ 32"
  obtains l r where "pre' = pre @ l" "post' = r @ rest" "d_lo pos \<le> unat addr" "unat addr + unat sz \<le> d_hi pos"
    "rg_ok (d_lo pos) (l @ r)" "hi_of (d_lo pos) l \<le> unat addr" "hi_of (d_lo pos) (l @ r) \<le> d_hi pos"
    "r = [] \<or> d_lo (hd r) = unat addr + unat sz"
    "\<And>a. d_lo pos \<le> a \<Longrightarrow> a < d_hi pos \<Longrightarrow>
       rg_map (l @ r) a = (if unat addr \<le> a \<and> a < unat addr + unat sz then None else Some (d_type pos))"
proof -
  have e: "unat (addr + sz) = unat addr + unat sz" by (rule unat_sum [OF sz(2)])
  have pe: "unat (d_end pos) = d_hi pos" by (rule d_hi_unat [OF ok(2)])
  have neq: "d_end pos \<noteq> addr + sz \<Longrightarrow> d_hi pos \<noteq> unat addr + unat sz" using e pe by (metis word_unat_eq_iff)
  from res show thesis
  proof (cases rule: remove_at_cases)
    case whole
    then have "d_lo pos = unat addr" "d_hi pos = unat addr + unat sz" using e pe by (auto simp: d_lo_def)
    then show thesis using whole that [of "[]" "[]"] by simp
  next
    case front
    let ?r = "pos\<lparr>d_addr := d_addr pos + sz, d_sz := d_sz pos - sz\<rparr>"
    have lo: "d_lo pos = unat addr" using front(1) by (simp add: d_lo_def)
    have le: "unat addr + unat sz < d_hi pos" using front(2,5) neq e pe by (simp add: word_le_nat_alt)
    then have "unat sz \<le> unat (d_sz pos)" using lo d_hi_lo [of pos] by linarith
    then have "unat (d_sz pos - sz) = unat (d_sz pos) - unat sz" by (simp add: unat_sub word_le_nat_alt)
    then have r: "d_lo ?r = unat addr + unat sz" "d_hi ?r = d_hi pos"
      using front(1) e le lo d_hi_lo [of pos] by (simp_all add: d_lo_def d_hi_def)
    show thesis using that [of "[]" "[?r]"] front(3,4) lo le r ok(2) by simp
  next
    case tail
    let ?l = "pos\<lparr>d_sz := d_sz pos - sz\<rparr>"
    have hi: "d_hi pos = unat addr + unat sz" using tail(3) e pe by simp
    have lt: "d_lo pos < unat addr" using tail(1,2) by (simp add: d_lo_def word_le_nat_alt order.strict_iff_order word_unat_eq_iff)
    then have "unat (d_sz pos - sz) = unat (d_sz pos) - unat sz"
      using hi d_hi_lo [of pos] by (simp add: unat_sub word_le_nat_alt)
    then have l: "d_lo ?l = d_lo pos" "d_hi ?l = unat addr"
      using hi lt d_hi_lo [of pos] by (simp_all add: d_lo_def d_hi_def)
    show thesis using that [of "[?l]" "[]"] tail(4,5) hi lt l ok(2) sz by simp
  next
    case middle
    let ?l = "mk_desc (d_addr pos) (addr - d_addr pos) (d_type pos)"
    let ?r = "pos\<lparr>d_addr := addr + sz, d_sz := d_end pos - (addr + sz)\<rparr>"
    have lt: "d_lo pos < unat addr" using middle(1,2) by (simp add: d_lo_def word_le_nat_alt order.strict_iff_order word_unat_eq_iff)
    have le: "unat addr + unat sz < d_hi pos" using middle(3,4) neq e pe by (simp add: word_le_nat_alt)
    have "unat (addr - d_addr pos) = unat addr - d_lo pos" using middle(1) by (simp add: unat_sub d_lo_def)
    then have l: "d_lo ?l = d_lo pos" "d_hi ?l = unat addr" using lt by (simp_all add: d_lo_def d_hi_def)
    have "unat (d_end pos - (addr + sz)) = d_hi pos - (unat addr + unat sz)" using middle(3) e pe by (simp add: unat_sub)
    then have r: "d_lo ?r = unat addr + unat sz" "d_hi ?r = d_hi pos" using e le by (simp_all add: d_lo_def d_hi_def)
    show thesis using that [of "[?l]" "[?r]"] middle(5,6) lt le l r ok(2) sz by simp
  qed
qed

lemma remove_at_sound:
  assumes ok: "rg_ok 0 (pre @ pos # rest)" and res: "remove_at n pre (pos # rest) addr sz = Inr (pre', post')"
    and sz: "0 < unat sz" "unat addr + unat sz < 2 ^ 32"
  shows "rg_ok 0 (pre' @ post')"
    "rg_map (pre' @ post') = upd_range (unat addr) (unat addr + unat sz) None (rg_map (pre @ pos # rest))"
    "d_lo pos \<le> unat addr" "unat addr + unat sz \<le> d_hi pos"
proof -
  have p: "d_lo pos < d_hi pos" "d_hi pos < 2 ^ 32" using ok by (auto simp: rg_ok_append)
  obtain l r where lr: "pre' = pre @ l" "post' = r @ rest" "d_lo pos \<le> unat addr" "unat addr + unat sz \<le> d_hi pos"
    "rg_ok (d_lo pos) (l @ r)" "hi_of (d_lo pos) (l @ r) \<le> d_hi pos"
    "\<And>a. d_lo pos \<le> a \<Longrightarrow> a < d_hi pos \<Longrightarrow>
       rg_map (l @ r) a = (if unat addr \<le> a \<and> a < unat addr + unat sz then None else Some (d_type pos))"
    using remove_at_pieces [OF res p sz] by metis
  note R = rg_replace [OF ok lr(5,6)]
  have before: "rg_map (pre @ pos # rest) a = Some (d_type pos)" if "d_lo pos \<le> a" "a < d_hi pos" for a
  proof -
    have "rg_map pre a = None" using ok that by (intro rg_map_above [of 0]) (auto simp: rg_ok_append)
    then show ?thesis using that by (simp add: rg_map_append)
  qed
  show "rg_ok 0 (pre' @ post')" using R(1) lr(1,2) by simp
  show "rg_map (pre' @ post') = upd_range (unat addr) (unat addr + unat sz) None (rg_map (pre @ pos # rest))"
    using R(2) lr before by (intro ext) (auto simp: upd_range_def)
  show "d_lo pos \<le> unat addr" "unat addr + unat sz \<le> d_hi pos" using lr by auto
qed

lemma rg_map_at:
  assumes "rg_ok 0 (pre @ pos # rest)" "d_lo pos \<le> a" "a < d_hi pos"
  shows "rg_map (pre @ pos # rest) a = Some (d_type pos)"
proof -
  have "rg_map pre a = None" using assms by (intro rg_map_above [of 0]) (auto simp: rg_ok_append)
  then show ?thesis using assms by (simp add: rg_map_append)
qed

lemma split_at_append: "split_at p ds = (pre, post) \<Longrightarrow> ds = pre @ post"
  by (induction ds arbitrary: pre post) (auto split: if_splits prod.splits)

lemma split_at_hd: "split_at p ds = (pre, d # post) \<Longrightarrow> p d"
  by (induction ds arbitrary: pre) (auto split: if_splits prod.splits)

lemma split_at_pre: "split_at p ds = (pre, post) \<Longrightarrow> \<forall>d\<in>set pre. \<not> p d"
  by (induction ds arbitrary: pre post) (auto split: if_splits prod.splits)

lemma upd_range_twice [simp]: "upd_range lo hi y (upd_range lo hi z m) = upd_range lo hi y m"
  by (simp add: fun_eq_iff upd_range_def)

lemma set_type_sound:
  assumes ok: "rg_ok 0 (pre @ post)" and res: "set_type n pre post addr sz type mode = Inr dl"
    and sz: "0 < unat sz" "unat addr + unat sz < 2 ^ 32"
  shows "rg_ok 0 dl" "rg_map dl = upd_range (unat addr) (unat addr + unat sz) (Some type) (rg_map (pre @ post))"
proof -
  obtain pos rest pre' post' where p: "post = pos # rest" "remove_at n pre (pos # rest) addr sz = Inr (pre', post')"
    "add_at n pre' post' addr sz type mode = Inr dl"
    using res by (auto simp: set_type_def split: list.splits)
  note R = remove_at_sound [OF ok [unfolded p(1)] p(2) sz]
  show "rg_ok 0 dl" "rg_map dl = upd_range (unat addr) (unat addr + unat sz) (Some type) (rg_map (pre @ post))"
    using add_at_sound [OF R(1) p(3) sz] R(2) p(1) by simp_all
qed

section \<open>Properties of the operations\<close>

lemma rg_insert_sound:
  assumes ok: "rg_ok 0 dl" and res: "rg_insert ior n dl addr sz type mode = Inr (type', dl')"
    and sz: "0 < unat sz" "unat addr + unat sz < 2 ^ 32"
  shows "rg_ok 0 dl' \<and> rg_map dl' = upd_range (unat addr) (unat addr + unat sz) (Some type') (rg_map dl)
    \<and> ((\<forall>a. unat addr \<le> a \<and> a < unat addr + unat sz \<longrightarrow> rg_map dl a = None) \<and> type' = type
       \<or> (\<exists>d\<in>set dl. type' = ior type (d_type d) \<and> d_lo d \<le> unat addr \<and> unat addr + unat sz \<le> d_hi d))"
proof -
  obtain pre post where s: "split_at (\<lambda>d. contents addr sz d \<or> d_addr d \<ge> addr) dl = (pre, post)" by fastforce
  have dl: "dl = pre @ post" by (rule split_at_append [OF s])
  show ?thesis
  proof (cases "post \<noteq> [] \<and> contents addr sz (hd post)")
    case True
    then obtain pos rest where post: "post = pos # rest" by (cases post) auto
    obtain pre' post' where r: "remove_at n pre (pos # rest) addr sz = Inr (pre', post')"
      "add_at n pre' post' addr sz type' mode = Inr dl'" "type' = ior type (d_type pos)"
      using res True post by (auto simp: rg_insert_def s Let_def)
    note R = remove_at_sound [OF ok [unfolded dl post] r(1) sz]
    show ?thesis using add_at_sound [OF R(1) r(2) sz] R(2-4) r(3) dl post by auto
  next
    case False
    then have r: "add_at n pre post addr sz type mode = Inr dl'" "type' = type"
      using res by (auto simp: rg_insert_def s split: if_splits)
    note A = add_at_asserts [OF r(1)]
    note f = add_at_fits [OF ok [unfolded dl] sz(2) conjunct1 [OF A] conjunct2 [OF A]]
    have "rg_map dl a = None" if "unat addr \<le> a" "a < unat addr + unat sz" for a
    proof -
      have "rg_map pre a = None" using ok that f(1) unfolding dl by (intro rg_map_above [of 0]) (auto simp: rg_ok_append)
      moreover have "rg_map post a = None"
      proof (cases post)
        case (Cons pos rest)
        then have "rg_ok (d_lo pos) post" using ok unfolding dl by (simp add: rg_ok_append)
        then show ?thesis using f(2) that Cons by (intro rg_map_below [of "d_lo pos"]) auto
      qed simp
      ultimately show ?thesis by (simp add: dl rg_map_append)
    qed
    then show ?thesis using add_at_sound [OF ok [unfolded dl] r(1) sz] r(2) dl by auto
  qed
qed

lemma and_not_mask_eq: "(w::u32) AND NOT (mask k) = push_bit k (drop_bit k w)"
  by (intro bit_word_eqI) (auto simp: bit_and_iff bit_not_iff bit_mask_iff bit_push_bit_iff bit_drop_bit_eq)

lemma unat_and_not_mask: "unat ((w::u32) AND NOT (mask k)) = unat w div 2 ^ k * 2 ^ k"
proof -
  have "unat w div 2 ^ k * 2 ^ k \<le> unat w" by simp
  then have "unat w div 2 ^ k * 2 ^ k < 2 ^ 32" using u32_less [of w] by (rule order.strict_trans1)
  then show ?thesis unfolding and_not_mask_eq unsigned_push_bit_eq unat_drop_bit
    by (simp add: push_bit_eq_mult take_bit_nat_eq_self)
qed

lemma round_up_pow2:
  assumes "align = push_bit k 1" "k < 32"
  shows "is_aligned (round_up n align) align" "round_up n align = 0 \<or> unat n \<le> unat (round_up n align)"
proof -
  have m: "align - 1 = mask k" using assms(1) by (simp add: mask_eq_exp_minus_1 push_bit_of_1)
  have r: "round_up n align = (n + mask k) AND NOT (mask k)" by (simp add: round_up_def m)
  show "is_aligned (round_up n align) align"
    by (simp add: is_aligned_def m r and.assoc)
  have um: "unat (mask k :: u32) = 2 ^ k - 1"
    using m [symmetric] assms unat_push_bit_1 [OF assms(2)]
    by (metis unat_minus_one unat_eq_zero power_not_zero zero_neq_numeral)
  show "round_up n align = 0 \<or> unat n \<le> unat (round_up n align)"
  proof (cases "unat n + (2 ^ k - 1) < 2 ^ 32")
    case True
    then have "unat (n + mask k) = unat n + (2 ^ k - 1)" using unat_sum [of n "mask k"] um by simp
    then have "unat (round_up n align) = (unat n + (2 ^ k - 1)) div 2 ^ k * 2 ^ k" by (simp add: r unat_and_not_mask)
    moreover have "(unat n + (2 ^ k - 1)) mod 2 ^ k < 2 ^ k" by simp
    then have "unat n \<le> (unat n + (2 ^ k - 1)) div 2 ^ k * 2 ^ k"
      using div_mult_mod_eq [of "unat n + (2 ^ k - 1)" "2 ^ k"] by linarith
    ultimately show ?thesis by simp
  next
    case False
    have "unat (n + mask k) = (unat n + (2 ^ k - 1)) mod 2 ^ 32" by (simp add: unat_word_ariths um)
    also have "\<dots> = unat n + (2 ^ k - 1) - 2 ^ 32"
      using False u32_less [of n] u32_less [of "mask k"] um by (subst mod_if) (simp add: mod_less)
    also have "\<dots> < 2 ^ k"
    proof -
      have "0 < (2::nat) ^ k" by simp
      then show ?thesis using u32_less [of n] by linarith
    qed
    finally have "unat (round_up n align) = 0" by (simp add: r unat_and_not_mask)
    then show ?thesis by (simp add: unat_eq_zero)
  qed
qed

text \<open>The operations return when the asserts hold and the list has room for the new items.\<close>

lemma contents_iff:
  "d_hi d < 2 ^ 32 \<Longrightarrow> unat addr + unat sz < 2 ^ 32 \<Longrightarrow>
     contents addr sz d \<longleftrightarrow> d_lo d \<le> unat addr \<and> unat addr + unat sz \<le> d_hi d"
  by (auto simp: contents_def word_le_nat_alt d_hi_unat unat_sum d_lo_def)

lemma add_at_total:
  assumes "rg_ok 0 (pre @ post)" "unat addr + unat sz < 2 ^ 32" "length (pre @ post) < n"
    and "hi_of 0 pre \<le> unat addr" "post = [] \<or> unat addr + unat sz \<le> d_lo (hd post)"
  shows "\<exists>dl. add_at n pre post addr sz type mode = Inr dl"
proof -
  have "d_hi (last pre) < 2 ^ 32 \<and> hi_of 0 pre = d_hi (last pre)" if "pre \<noteq> []"
    using assms(1) that rg_ok_last by (auto simp: rg_ok_append)
  then have "pre = [] \<or> addr \<ge> d_end (last pre)" using assms(4) by (cases "pre = []") (simp_all add: word_le_nat_alt d_hi_unat)
  moreover have "post = [] \<or> addr + sz \<le> d_addr (hd post)"
    using assms(2,5) by (auto simp: word_le_nat_alt unat_sum d_lo_def)
  ultimately show ?thesis using assms(3)
    by (auto simp: add_at_def put_desc_def Let_def split: list.splits)
qed

lemma remove_at_total:
  assumes "d_hi pos < 2 ^ 32" "unat addr + unat sz < 2 ^ 32" "length (pre @ pos # rest) < n"
    and "d_lo pos \<le> unat addr" "unat addr + unat sz \<le> d_hi pos"
  shows "\<exists>pre' post'. remove_at n pre (pos # rest) addr sz = Inr (pre', post')
    \<and> length pre' + length post' \<le> Suc (length (pre @ pos # rest))"
proof -
  have "d_addr pos \<le> addr" "addr + sz \<le> d_addr pos + d_sz pos"
    using contents_iff [OF assms(1,2)] assms(4,5) by (simp_all add: contents_def d_end_def)
  then show ?thesis using assms(3) by (auto simp: remove_at_def put_desc_def Let_def)
qed

lemma retype_total:
  assumes "rg_ok 0 (pre @ pos # rest)" "0 < unat sz" "unat addr + unat sz < 2 ^ 32" "length (pre @ pos # rest) + 1 < n"
    and "d_lo pos \<le> unat addr" "unat addr + unat sz \<le> d_hi pos"
  shows "\<exists>pre' post' dl. remove_at n pre (pos # rest) addr sz = Inr (pre', post')
    \<and> add_at n pre' post' addr sz type mode = Inr dl"
proof -
  have ok: "rg_ok 0 pre" "hi_of 0 pre \<le> d_lo pos" "d_lo pos < d_hi pos" "d_hi pos < 2 ^ 32" "rg_ok (d_hi pos) rest"
    using assms(1) by (auto simp: rg_ok_append)
  obtain pre' post' where r: "remove_at n pre (pos # rest) addr sz = Inr (pre', post')"
    "length pre' + length post' \<le> Suc (length (pre @ pos # rest))"
    using remove_at_total [OF ok(4) assms(3) _ assms(5,6), of pre rest n] assms(4) by auto
  obtain l r' where p: "pre' = pre @ l" "post' = r' @ rest" "hi_of (d_lo pos) l \<le> unat addr"
    "r' = [] \<or> d_lo (hd r') = unat addr + unat sz"
    using remove_at_pieces [OF r(1) ok(3,4) assms(2,3)] by metis
  have "hi_of 0 pre' \<le> unat addr" using p(1,3) ok(2) assms(5) by (cases "l = []") (auto simp: hi_of_def split: if_splits)
  moreover have "post' = [] \<or> unat addr + unat sz \<le> d_lo (hd post')"
    using p(2,4) ok(5) assms(6) by (cases r'; cases rest) auto
  moreover have "rg_ok 0 (pre' @ post')" by (rule remove_at_sound(1) [OF assms(1) r(1) assms(2,3)])
  ultimately have "\<exists>dl. add_at n pre' post' addr sz type mode = Inr dl"
    using r(2) assms(3,4) by (intro add_at_total) auto
  then show ?thesis using r(1) by blast
qed

lemma rg_in_split:
  assumes "rg_ok lo (pre @ d # post)" "e \<in> set (pre @ d # post)" "d_lo e \<le> a" "a < d_hi e" "d_lo d \<le> a" "a < d_hi d"
  shows "e = d"
  using assms
proof (induction pre arbitrary: lo)
  case Nil
  have "d_hi d \<le> d_lo e" if "e \<in> set post" using Nil.prems(1) that rg_ok_mem by fastforce
  then show ?case using Nil.prems by fastforce
next
  case (Cons p pre)
  have ok: "rg_ok (d_hi p) (pre @ d # post)" using Cons.prems(1) by simp
  have "d_hi p \<le> d_lo d" using rg_ok_mem [OF ok, of d] by simp
  then have "e \<noteq> p" using Cons.prems(4,5) by auto
  then show ?case using Cons.IH [OF ok] Cons.prems by simp
qed

definition free_range :: "'y desc list \<Rightarrow> nat \<Rightarrow> nat \<Rightarrow> bool" where
  "free_range dl a n = (\<forall>d\<in>set dl. a + n \<le> d_lo d \<or> d_hi d \<le> a)"

lemma free_range_map:
  assumes "rg_ok lo dl" "0 < n"
  shows "free_range dl a n \<longleftrightarrow> (\<forall>b. a \<le> b \<and> b < a + n \<longrightarrow> rg_map dl b = None)"
  using assms
proof (induction dl arbitrary: lo)
  case (Cons d ds)
  have ok: "rg_ok (d_hi d) ds" "d_lo d < d_hi d" using Cons.prems(1) by auto
  have "(a + n \<le> d_lo d \<or> d_hi d \<le> a) \<longleftrightarrow> (\<forall>b. a \<le> b \<and> b < a + n \<longrightarrow> \<not> (d_lo d \<le> b \<and> b < d_hi d))"
  proof
    assume h: "\<forall>b. a \<le> b \<and> b < a + n \<longrightarrow> \<not> (d_lo d \<le> b \<and> b < d_hi d)"
    show "a + n \<le> d_lo d \<or> d_hi d \<le> a" using h [rule_format, of a] h [rule_format, of "d_lo d"] ok(2) Cons.prems(2) by linarith
  qed auto
  then show ?case using Cons.IH [OF ok(1) Cons.prems(2)] by (auto simp: free_range_def)
qed (simp add: free_range_def)

lemma free_range_append: "free_range (xs @ ys) a n \<longleftrightarrow> free_range xs a n \<and> free_range ys a n"
  by (auto simp: free_range_def)

lemma free_range_split:
  assumes "rg_ok 0 (pre @ post)" "free_range (pre @ post) a n"
    and "\<forall>d\<in>set pre. d_lo d < a" "post = [] \<or> a \<le> d_lo (hd post)" "0 < n"
  shows "hi_of 0 pre \<le> a" "post = [] \<or> a + n \<le> d_lo (hd post)"
proof -
  show "hi_of 0 pre \<le> a"
  proof (cases "pre = []")
    case False
    then have "d_lo (last pre) < a" "a + n \<le> d_lo (last pre) \<or> d_hi (last pre) \<le> a"
      using assms(2,3) by (simp_all add: free_range_def)
    then show ?thesis using False by (simp add: hi_of_def)
  qed simp
  show "post = [] \<or> a + n \<le> d_lo (hd post)"
  proof (cases post)
    case (Cons p ps)
    then have "d_lo p < d_hi p" using assms(1) by (simp add: rg_ok_append)
    then show ?thesis using assms(2,4) Cons by (auto simp: free_range_def)
  qed simp
qed

lemma rg_insert_total:
  assumes ok: "rg_ok 0 dl" and room: "length dl + 1 < n" and sz: "0 < unat sz" "unat addr + unat sz < 2 ^ 32"
    and c: "free_range dl (unat addr) (unat sz) \<or> (\<exists>d\<in>set dl. d_lo d \<le> unat addr \<and> unat addr + unat sz \<le> d_hi d)"
  shows "\<exists>r. rg_insert ior n dl addr sz type mode = Inr r"
proof -
  obtain pre post where s: "split_at (\<lambda>d. contents addr sz d \<or> d_addr d \<ge> addr) dl = (pre, post)" by fastforce
  have dl: "dl = pre @ post" by (rule split_at_append [OF s])
  have pre: "d_lo d < unat addr \<and> \<not> (d_lo d \<le> unat addr \<and> unat addr + unat sz \<le> d_hi d)" if "d \<in> set pre" for d
  proof -
    have "\<not> contents addr sz d" "\<not> addr \<le> d_addr d" using split_at_pre [OF s] that by auto
    moreover have "d_hi d < 2 ^ 32" using rg_ok_mem [OF ok] that dl by simp
    ultimately show ?thesis using contents_iff [of d addr sz] sz(2) by (simp add: word_le_nat_alt d_lo_def)
  qed
  have post: "contents addr sz d \<longleftrightarrow> d_lo d \<le> unat addr \<and> unat addr + unat sz \<le> d_hi d" if "d \<in> set dl" for d
    using contents_iff [OF _ sz(2)] rg_ok_mem [OF ok that] by blast
  show ?thesis
  proof (cases "post \<noteq> [] \<and> contents addr sz (hd post)")
    case True
    then obtain pos rest where p: "post = pos # rest" by (cases post) auto
    have in': "d_lo pos \<le> unat addr" "unat addr + unat sz \<le> d_hi pos" using True p post [of pos] dl by simp_all
    have "rg_ok 0 (pre @ pos # rest)" "length (pre @ pos # rest) + 1 < n" using ok room dl p by simp_all
    from retype_total [OF this(1) sz this(2) in', of "ior type (d_type pos)" mode]
    obtain pre' post' dl' where "remove_at n pre (pos # rest) addr sz = Inr (pre', post')"
      "add_at n pre' post' addr sz (ior type (d_type pos)) mode = Inr dl'" by blast
    then show ?thesis using True p by (simp add: rg_insert_def s)
  next
    case False
    have hp: "post = [] \<or> unat addr \<le> d_lo (hd post)"
    proof (cases post)
      case (Cons p ps)
      have "contents addr sz p \<or> d_addr p \<ge> addr" using split_at_hd [OF s [unfolded Cons]] .
      then show ?thesis using False Cons by (simp add: word_le_nat_alt d_lo_def)
    qed simp
    have "free_range dl (unat addr) (unat sz)"
    proof (rule ccontr)
      assume "\<not> ?thesis"
      then obtain d where d: "d \<in> set dl" "d_lo d \<le> unat addr" "unat addr + unat sz \<le> d_hi d" using c by blast
      then have "d \<in> set post" using pre dl by auto
      then obtain p ps where P: "post = p # ps" "d \<in> set (p # ps)" by (cases post) auto
      have okp: "rg_ok (d_lo p) (p # ps)" using ok P(1) dl by (simp add: rg_ok_append)
      have lo: "unat addr = d_lo p" using rg_ok_mem [OF okp P(2)] d(2) hp P(1) by simp
      have "d = p" by (rule rg_in_split [of "d_lo p" "[]" p ps d "unat addr"])
          (use okp P(2) d(2,3) lo sz(1) in simp_all)
      then show False using False P(1) post [OF d(1)] d by simp
    qed
    note f = free_range_split [OF ok [unfolded dl] this [unfolded dl] _ hp sz(1)]
    have lt: "\<forall>d\<in>set pre. d_lo d < unat addr" using pre by blast
    have okl: "rg_ok 0 (pre @ post)" "length (pre @ post) < n" using ok room dl by simp_all
    obtain dl' where "add_at n pre post addr sz type mode = Inr dl'"
      using add_at_total [OF okl(1) sz(2) okl(2) f(1) [OF lt] f(2) [OF lt]] by blast
    moreover have "\<not> (post \<noteq> [] \<and> addr + sz > d_addr (hd post))"
      using f(2) [OF lt] unat_sum [OF sz(2)] by (auto simp: word_less_nat_alt d_lo_def)
    ultimately show ?thesis using False by (auto simp add: rg_insert_def s)
  qed
qed

lemma rg_insert_length:
  assumes "rg_insert ior n dl addr sz type mode = Inr (t, us)"
  shows "length us \<le> length dl + 2"
proof -
  have a: "length x \<le> length pre + length post + 1" if "add_at n pre post addr sz ty mode = Inr x" for pre post ty x
    using that by (auto simp: add_at_def put_desc_def Let_def split: list.splits if_splits)
  have r: "length p + length q \<le> length pre + length post + 1" if "remove_at n pre post addr sz = Inr (p, q)" for pre post p q
    using that by (auto simp: remove_at_def put_desc_def Let_def split: list.splits if_splits)
  obtain pre post where s: "split_at (\<lambda>d. contents addr sz d \<or> d_addr d \<ge> addr) dl = (pre, post)" by fastforce
  have "length dl = length pre + length post" using split_at_append [OF s] by simp
  then show ?thesis using assms by (auto simp: rg_insert_def s Let_def split: if_splits dest!: a r)
qed

text \<open>
  C13. Inserting a region into a well-formed region list with room for two more items: a range that
  no region touches becomes a region of the type asked for; a range inside one region gets the
  type asked for joined with the type it had; both change nothing outside the range and keep the
  list ordered, disjoint and free of empty regions, whether they split, join or add items. Every
  other range is refused.
\<close>

theorem region_insert:
  assumes ok: "rg_ok 0 dl" and room: "length dl + 1 < n" and sz: "0 < unat sz" "unat addr + unat sz < 2 ^ 32"
  shows "case rg_insert ior n dl addr sz type mode of
      Inr (type', dl') \<Rightarrow> rg_ok 0 dl'
        \<and> rg_map dl' = upd_range (unat addr) (unat addr + unat sz) (Some type') (rg_map dl)
        \<and> (type' = type \<and> free_range dl (unat addr) (unat sz)
           \<or> (\<exists>d\<in>set dl. type' = ior type (d_type d) \<and> d_lo d \<le> unat addr \<and> unat addr + unat sz \<le> d_hi d))
    | Inl e \<Rightarrow> \<not> free_range dl (unat addr) (unat sz)
        \<and> (\<forall>d\<in>set dl. \<not> (d_lo d \<le> unat addr \<and> unat addr + unat sz \<le> d_hi d))"
proof -
  let ?in = "\<lambda>d. d_lo d \<le> unat addr \<and> unat addr + unat sz \<le> d_hi d"
  consider e where "rg_insert ior n dl addr sz type mode = Inl e"
    | t' dl' where "rg_insert ior n dl addr sz type mode = Inr (t', dl')"
    by (cases "rg_insert ior n dl addr sz type mode") auto
  then show ?thesis
  proof cases
    case 1
    then show ?thesis using rg_insert_total [OF ok room sz, of ior type mode] by auto
  next
    case 2
    note S = rg_insert_sound [OF ok 2 sz]
    have "t' = type \<and> free_range dl (unat addr) (unat sz) \<or> (\<exists>d\<in>set dl. t' = ior type (d_type d) \<and> ?in d)"
      using S by (auto simp: free_range_map [OF ok sz(1)])
    then show ?thesis using 2 S by simp
  qed
qed

lemma round_up_least:
  assumes "align = push_bit k 1" "k < 32" "unat n + unat align \<le> 2 ^ 32"
  shows "unat n \<le> unat (round_up n align)" "unat align dvd unat (round_up n align)"
    "unat (round_up n align) < unat n + unat align"
    "\<And>m. unat align dvd m \<Longrightarrow> unat n \<le> m \<Longrightarrow> unat (round_up n align) \<le> m"
proof -
  have m: "align - 1 = mask k" using assms(1) by (simp add: mask_eq_exp_minus_1 push_bit_of_1)
  have a: "unat align = 2 ^ k" using assms(1) unat_push_bit_1 [OF assms(2)] by simp
  have "align \<noteq> 0" using a by auto
  then have um: "unat (mask k :: u32) = 2 ^ k - 1" using m a unat_minus_one by metis
  have "unat n + unat (mask k :: u32) < 2 ^ 32" using assms(3) a um by (simp add: Suc_le_eq)
  then have r: "unat (round_up n align) = (unat n + (2 ^ k - 1)) div 2 ^ k * 2 ^ k"
    using unat_sum [of n "mask k"] um by (simp add: round_up_def m unat_and_not_mask)
  have d: "(unat n + (2 ^ k - 1)) div 2 ^ k * 2 ^ k + (unat n + (2 ^ k - 1)) mod 2 ^ k = unat n + (2 ^ k - 1)"
    by (rule div_mult_mod_eq)
  have lt: "(unat n + (2 ^ k - 1)) mod 2 ^ k < 2 ^ k" by simp
  show "unat n \<le> unat (round_up n align)" using r d lt by linarith
  show "unat align dvd unat (round_up n align)" by (simp add: r a)
  show u: "unat (round_up n align) < unat n + unat align" using r d a lt by linarith
  show "unat (round_up n align) \<le> m" if "unat align dvd m" "unat n \<le> m" for m
  proof (rule ccontr)
    assume h: "\<not> unat (round_up n align) \<le> m"
    have "2 ^ k dvd m" using that(1) a by simp
    then obtain q where q: "m = 2 ^ k * q" unfolding dvd_def by blast
    obtain q' where q': "unat (round_up n align) = 2 ^ k * q'" using r by (metis mult.commute)
    have "q < q'" using h q q' by simp
    then have "2 ^ k * Suc q \<le> 2 ^ k * q'" by (intro mult_le_mono2) simp
    then show False using u q q' that(2) a by simp
  qed
qed

text \<open>An address at which a region of the size asked for can be placed in the space.\<close>

definition fits :: "'y desc list \<Rightarrow> nat \<Rightarrow> nat \<Rightarrow> nat \<Rightarrow> nat \<Rightarrow> nat \<Rightarrow> bool" where
  "fits dl n align lo hi a = (align dvd a \<and> lo \<le> a \<and> a + n \<le> hi \<and> free_range dl a n)"

lemma free_from_least:
  assumes "align = push_bit k 1" "k < 32" "unat E + unat align + unat sz \<le> 2 ^ 32" "0 < unat sz"
    and "rg_ok lo ds" "\<forall>d\<in>set ds. d_hi d \<le> unat E \<or> unat E \<le> d_lo d"
    and "0 < unat cur" "lo \<le> unat cur" "unat align dvd unat cur" "unat cur < unat E + unat align"
    and "\<forall>m. unat align dvd m \<longrightarrow> lo \<le> m \<longrightarrow> unat cur \<le> m"
    and r: "r = free_from sz align E ds cur" "r' = (if r \<noteq> 0 \<and> r + sz > E then 0 else r)"
  shows "if r' = 0 then \<forall>a. \<not> fits ds (unat sz) (unat align) lo (unat E) a
    else fits ds (unat sz) (unat align) lo (unat E) (unat r')
      \<and> (\<forall>a. fits ds (unat sz) (unat align) lo (unat E) a \<longrightarrow> unat r' \<le> a)"
  using assms(5-)
proof (induction ds arbitrary: lo cur)
  case Nil
  have s: "unat (cur + sz) = unat cur + unat sz" using Nil.prems(6) assms(3) by (intro unat_sum) linarith
  have "cur \<noteq> 0" using Nil.prems(3) by auto
  then have r': "r' = (if unat cur + unat sz > unat E then 0 else cur)"
    using Nil.prems(8,9) s by (simp add: word_less_nat_alt)
  have "fits ([] :: 'a desc list) (unat sz) (unat align) lo (unat E) a \<longleftrightarrow> unat align dvd a \<and> lo \<le> a \<and> a + unat sz \<le> unat E" for a
    by (simp add: fits_def free_range_def)
  then show ?case using r' Nil.prems(4,5,7) \<open>cur \<noteq> 0\<close> by auto
next
  case (Cons d ds)
  have s: "unat (cur + sz) = unat cur + unat sz" using Cons.prems(6) assms(3) by (intro unat_sum) linarith
  have c0: "cur \<noteq> 0" using Cons.prems(3) by auto
  have ok: "rg_ok (d_hi d) ds" "lo \<le> d_lo d" "d_lo d < d_hi d" "d_hi d < 2 ^ 32" using Cons.prems(1) by auto
  consider (out) "unat cur + unat sz > unat E" | (here) "unat cur + unat sz \<le> unat E" "unat cur + unat sz \<le> d_lo d"
    | (next') "unat cur + unat sz \<le> unat E" "d_lo d < unat cur + unat sz" by linarith
  then show ?case
  proof cases
    case out
    then have "r = 0" using Cons.prems(8) s by (simp add: word_less_nat_alt word_le_nat_alt)
    then have "r' = 0" using Cons.prems(9) by simp
    moreover have "\<not> fits (d # ds) (unat sz) (unat align) lo (unat E) a" for a
    proof
      assume f: "fits (d # ds) (unat sz) (unat align) lo (unat E) a"
      then have "unat cur \<le> a" using Cons.prems(7) by (simp add: fits_def)
      then show False using f out by (simp add: fits_def)
    qed
    ultimately show ?thesis by simp
  next
    case here
    have "\<not> E \<le> cur" using here(1) assms(4) by (simp add: word_le_nat_alt)
    then have rc: "r' = cur" using Cons.prems(8,9) here s c0 by (simp add: word_less_nat_alt word_le_nat_alt d_lo_def)
    have "free_range (d # ds) (unat cur) (unat sz)"
      using here(2) rg_ok_mem [OF ok(1)] ok(3) by (fastforce simp: free_range_def)
    then have "fits (d # ds) (unat sz) (unat align) lo (unat E) (unat cur)"
      using here(1) Cons.prems(4,5) by (simp add: fits_def)
    then show ?thesis using rc c0 Cons.prems(7) by (simp add: fits_def)
  next
    case next'
    have hi: "d_hi d \<le> unat E" using Cons.prems(2) next' by auto
    have e: "unat (d_addr d + d_sz d) = d_hi d" using d_hi_unat [OF ok(4)] by (simp add: d_end_def)
    let ?c = "round_up (d_addr d + d_sz d) align"
    have bnd: "unat (d_addr d + d_sz d) + unat align \<le> 2 ^ 32" using e hi assms(3,4) by linarith
    note R = round_up_least [OF assms(1,2) bnd, unfolded e]
    have "\<not> E \<le> cur" using next'(1) assms(4) by (simp add: word_le_nat_alt)
    then have rc: "r = free_from sz align E ds ?c"
      using Cons.prems(8) next' s by (simp add: word_less_nat_alt word_le_nat_alt d_lo_def)
    have I: "if r' = 0 then \<forall>a. \<not> fits ds (unat sz) (unat align) (d_hi d) (unat E) a
      else fits ds (unat sz) (unat align) (d_hi d) (unat E) (unat r')
        \<and> (\<forall>a. fits ds (unat sz) (unat align) (d_hi d) (unat E) a \<longrightarrow> unat r' \<le> a)"
      by (rule Cons.IH [OF ok(1) _ _ R(1,2) _ _ rc Cons.prems(9)])
         (use Cons.prems(2) R ok(3) hi in auto)
    have eq: "fits (d # ds) (unat sz) (unat align) lo (unat E) a
        \<longleftrightarrow> fits ds (unat sz) (unat align) (d_hi d) (unat E) a" for a
    proof
      assume f: "fits (d # ds) (unat sz) (unat align) lo (unat E) a"
      then have "unat cur \<le> a" using Cons.prems(7) by (simp add: fits_def)
      then have "d_hi d \<le> a" using f next'(2) by (auto simp: fits_def free_range_def)
      then show "fits ds (unat sz) (unat align) (d_hi d) (unat E) a" using f by (simp add: fits_def free_range_def)
    next
      assume "fits ds (unat sz) (unat align) (d_hi d) (unat E) a"
      then show "fits (d # ds) (unat sz) (unat align) lo (unat E) a" using ok by (auto simp: fits_def free_range_def)
    qed
    show ?thesis using I eq by simp
  qed
qed

text \<open>
  The alignment is a power of two, no region crosses a border of the space, and the addresses the
  search forms do not wrap.
\<close>

definition space_ok :: "'y desc list \<Rightarrow> u32 \<Rightarrow> u32 \<Rightarrow> u32 \<Rightarrow> u32 \<Rightarrow> bool" where
  "space_ok dl sz align start len \<longleftrightarrow>
     0 < unat sz \<and> 0 < unat start \<and> (\<exists>k<32. align = push_bit k 1)
     \<and> unat start + unat len + unat align + unat sz \<le> 2 ^ 32
     \<and> (\<forall>d\<in>set dl. (d_hi d \<le> unat start \<or> unat start \<le> d_lo d)
          \<and> (d_hi d \<le> unat start + unat len \<or> unat start + unat len \<le> d_lo d))"

lemma find_free_least:
  assumes ok: "rg_ok 0 dl" and sp: "space_ok dl sz align start len"
  defines "F \<equiv> fits dl (unat sz) (unat align) (unat start) (unat start + unat len)"
    and "r \<equiv> find_free dl sz align start len"
  shows "if r = 0 then \<forall>a. \<not> F a else F (unat r) \<and> (\<forall>a. F a \<longrightarrow> unat r \<le> a)"
proof -
  obtain pre post where s: "split_at (\<lambda>d. d_addr d \<ge> start) dl = (pre, post)" by fastforce
  have dl: "dl = pre @ post" by (rule split_at_append [OF s])
  obtain k where k: "k < 32" "align = push_bit k 1" using sp by (auto simp: space_ok_def)
  have b: "unat start + unat len + unat align + unat sz \<le> 2 ^ 32" "0 < unat sz" "0 < unat start"
    using sp by (simp_all add: space_ok_def)
  have E: "unat (start + len) = unat start + unat len" using b by (intro unat_sum) linarith
  have "d_hi d \<le> unat start" if "d \<in> set pre" for d
  proof -
    have "d_lo d < unat start" using split_at_pre [OF s] that by (auto simp: word_le_nat_alt d_lo_def)
    then show ?thesis using sp that dl by (auto simp: space_ok_def)
  qed
  then have pre: "free_range pre a n" if "unat start \<le> a" for a n
    using that by (auto simp: free_range_def intro: le_trans)
  have okp: "rg_ok (unat start) post"
  proof (cases post)
    case (Cons p ps)
    have "start \<le> d_addr p" using split_at_hd [OF s [unfolded Cons]] .
    then show ?thesis using ok dl Cons by (simp add: rg_ok_append word_le_nat_alt d_lo_def)
  qed simp
  have str: "\<forall>d\<in>set post. d_hi d \<le> unat (start + len) \<or> unat (start + len) \<le> d_lo d"
    using sp dl by (auto simp: space_ok_def E)
  have F: "F a \<longleftrightarrow> fits post (unat sz) (unat align) (unat start) (unat (start + len)) a" for a
    using pre by (auto simp: F_def fits_def dl free_range_append E)
  have "unat start + unat align \<le> 2 ^ 32" using b by linarith
  note R = round_up_least [OF k(2,1) this]
  have r: "r = (if free_from sz align (start + len) post (round_up start align) \<noteq> 0
        \<and> free_from sz align (start + len) post (round_up start align) + sz > start + len then 0
      else free_from sz align (start + len) post (round_up start align))"
    by (simp add: r_def find_free_def s Let_def)
  have c: "0 < unat (round_up start align)" "unat (round_up start align) < unat (start + len) + unat align"
    using R(1,3) b(3) E by linarith+
  have m: "\<forall>m. unat align dvd m \<longrightarrow> unat start \<le> m \<longrightarrow> unat (round_up start align) \<le> m" using R(4) by blast
  have bb: "unat (start + len) + unat align + unat sz \<le> 2 ^ 32" using b E by simp
  show ?thesis
    using free_from_least [OF k(2,1) bb b(2) okp str c(1) R(1,2) c(2) m refl r] unfolding F .
qed

lemma rg_add_total:
  assumes ok: "rg_ok 0 dl" and room: "length dl < n" and sz: "0 < unat sz" "unat addr + unat sz < 2 ^ 32"
    and fr: "free_range dl (unat addr) (unat sz)"
  shows "\<exists>dl'. rg_add n dl addr sz type mode = Inr dl' \<and> rg_ok 0 dl'
    \<and> rg_map dl' = upd_range (unat addr) (unat addr + unat sz) (Some type) (rg_map dl)"
proof -
  obtain pre post where s: "split_at (\<lambda>d. d_addr d \<ge> addr) dl = (pre, post)" by fastforce
  have dl: "dl = pre @ post" by (rule split_at_append [OF s])
  have lt: "\<forall>d\<in>set pre. d_lo d < unat addr"
    using split_at_pre [OF s] by (auto simp: word_le_nat_alt d_lo_def)
  have hp: "post = [] \<or> unat addr \<le> d_lo (hd post)"
  proof (cases post)
    case (Cons p ps)
    show ?thesis using split_at_hd [OF s [unfolded Cons]] Cons by (simp add: word_le_nat_alt d_lo_def)
  qed simp
  note f = free_range_split [OF ok [unfolded dl] fr [unfolded dl] lt hp sz(1)]
  have "length (pre @ post) < n" using room dl by simp
  then obtain dl' where a: "add_at n pre post addr sz type mode = Inr dl'"
    using add_at_total [OF ok [unfolded dl] sz(2) _ f] by blast
  have "\<not> (post \<noteq> [] \<and> addr + sz > d_addr (hd post))"
    using f(2) unat_sum [OF sz(2)] by (auto simp: word_less_nat_alt d_lo_def)
  then have "rg_add n dl addr sz type mode = Inr dl'" using a by (auto simp: rg_add_def s)
  then show ?thesis using add_at_sound [OF ok [unfolded dl] a sz] dl by blast
qed

text \<open>
  C14. Allocating a region: when some aligned address of the space has the bytes asked for free, the
  lowest such address is returned and exactly these bytes become a region of the type asked for;
  when there is none, 0 is returned and the list stays as it is.
\<close>

theorem region_alloc:
  assumes ok: "rg_ok 0 dl" and room: "length dl < n" and sp: "space_ok dl sz align start len"
  defines "F \<equiv> fits dl (unat sz) (unat align) (unat start) (unat start + unat len)"
  shows "if \<exists>a. F a
    then \<exists>addr dl'. rg_alloc n dl sz align type mode start len = Inr (addr, dl')
      \<and> F (unat addr) \<and> (\<forall>a. F a \<longrightarrow> unat addr \<le> a) \<and> rg_ok 0 dl'
      \<and> rg_map dl' = upd_range (unat addr) (unat addr + unat sz) (Some type) (rg_map dl)
    else rg_alloc n dl sz align type mode start len = Inr (0, dl)"
proof (cases "find_free dl sz align start len = 0")
  case True
  then have "\<nexists>a. F a" using find_free_least [OF ok sp] by (simp add: F_def)
  then show ?thesis using True by (simp add: rg_alloc_def)
next
  case False
  let ?r = "find_free dl sz align start len"
  have r: "F (unat ?r)" "\<forall>a. F a \<longrightarrow> unat ?r \<le> a" using find_free_least [OF ok sp] False by (simp_all add: F_def)
  have "free_range dl (unat ?r) (unat sz)" "0 < unat sz" "unat ?r + unat sz < 2 ^ 32"
    using r(1) sp by (auto simp: F_def fits_def space_ok_def)
  from rg_add_total [OF ok room this(2,3,1), of type mode] show ?thesis
    using r False by (auto simp: rg_alloc_def Let_def)
qed

lemma rg_free_total:
  assumes ok: "rg_ok 0 dl" and room: "length dl < n" and sz: "0 < unat sz" "unat addr + unat sz < 2 ^ 32"
  shows "\<exists>dl'. rg_free n dl addr sz = Inr dl' \<and> rg_ok 0 dl'
    \<and> rg_map dl' = (if \<exists>d\<in>set dl. d_lo d \<le> unat addr \<and> unat addr + unat sz \<le> d_hi d
        then upd_range (unat addr) (unat addr + unat sz) None (rg_map dl) else rg_map dl)"
proof -
  let ?in = "\<lambda>d. d_lo d \<le> unat addr \<and> unat addr + unat sz \<le> d_hi d"
  obtain pre post where s: "split_at (\<lambda>d. contents addr sz d \<or> d_addr d \<ge> addr + sz) dl = (pre, post)" by fastforce
  have dl: "dl = pre @ post" by (rule split_at_append [OF s])
  have C: "contents addr sz d \<longleftrightarrow> ?in d" if "d \<in> set dl" for d
    using contents_iff [OF _ sz(2)] rg_ok_mem [OF ok that] by blast
  show ?thesis
  proof (cases "post \<noteq> [] \<and> contents addr sz (hd post)")
    case True
    then obtain pos rest where p: "post = pos # rest" by (cases post) auto
    have i: "?in pos" "pos \<in> set dl" using True p C [of pos] dl by simp_all
    have l: "length (pre @ pos # rest) < n" "d_hi pos < 2 ^ 32" using room dl p rg_ok_mem [OF ok i(2)] by simp_all
    obtain pre' post' where r: "remove_at n pre (pos # rest) addr sz = Inr (pre', post')"
      using remove_at_total [OF l(2) sz(2) l(1)] i(1) by blast
    have "rg_free n dl addr sz = Inr (pre' @ post')" using True r p by (simp add: rg_free_def find_part_def s)
    moreover have "\<exists>d\<in>set dl. ?in d" using i by blast
    ultimately show ?thesis using remove_at_sound(1,2) [OF ok [unfolded dl p] r sz] dl p by simp
  next
    case False
    have "\<not> ?in d" if d: "d \<in> set dl" for d
    proof
      assume i: "?in d"
      then have "d \<in> set post" using split_at_pre [OF s] C [OF d] d dl by auto
      then obtain p ps where P: "post = p # ps" "d \<in> set (p # ps)" by (cases post) auto
      have okp: "rg_ok (d_lo p) (p # ps)" using ok P(1) dl by (simp add: rg_ok_append)
      have "addr + sz \<le> d_addr p" using split_at_hd [OF s [unfolded P(1)]] False P(1) by simp
      then have "unat addr + unat sz \<le> d_lo p" using unat_sum [OF sz(2)] by (simp add: word_le_nat_alt d_lo_def)
      then show False using rg_ok_mem [OF okp P(2)] i sz(1) by linarith
    qed
    moreover have "rg_free n dl addr sz = Inr dl" using False by (auto simp: rg_free_def find_part_def s)
    ultimately show ?thesis using ok by auto
  qed
qed

text \<open>
  Freeing a range: when the range lies inside one region, exactly its bytes leave the space
  description; otherwise nothing changes.
\<close>

theorem region_free:
  assumes ok: "rg_ok 0 dl" and room: "length dl < n" and sz: "0 < unat sz" "unat addr + unat sz < 2 ^ 32"
  shows "\<exists>dl'. rg_free n dl addr sz = Inr dl' \<and> rg_ok 0 dl'
    \<and> rg_map dl' = (if \<exists>d\<in>set dl. d_lo d \<le> unat addr \<and> unat addr + unat sz \<le> d_hi d
        then upd_range (unat addr) (unat addr + unat sz) None (rg_map dl) else rg_map dl)"
  by (rule rg_free_total [OF assms])

lemma add_at_not_combine:
  "add_at n pre post addr sz type NotCombine = Inr dl \<Longrightarrow> dl = pre @ mk_desc addr sz type # post"
  by (auto simp: add_at_def put_desc_eq)

lemma set_type_total:
  assumes "rg_ok 0 (pre @ pos # rest)" "0 < unat sz" "unat addr + unat sz < 2 ^ 32" "length (pre @ pos # rest) + 1 < n"
    and "d_lo pos \<le> unat addr" "unat addr + unat sz \<le> d_hi pos" "d_type pos \<noteq> type"
  shows "\<exists>dl. set_type n pre (pos # rest) addr sz type mode = Inr dl
    \<and> (mode = NotCombine \<longrightarrow> mk_desc addr sz type \<in> set dl)"
proof -
  obtain pre' post' dl where r: "remove_at n pre (pos # rest) addr sz = Inr (pre', post')"
    "add_at n pre' post' addr sz type mode = Inr dl"
    using retype_total [OF assms(1-6)] by blast
  have "d_hi pos < 2 ^ 32" using assms(1) by (simp add: rg_ok_append)
  then have "d_addr pos \<le> addr \<and> addr + sz \<le> d_addr pos + d_sz pos"
    using contents_iff [of pos, OF _ assms(3)] assms(5,6) by (simp add: contents_def d_end_def)
  then have "set_type n pre (pos # rest) addr sz type mode = Inr dl" using r assms(7) by (simp add: set_type_def)
  then show ?thesis using r(2) add_at_not_combine by fastforce
qed

section \<open>Witnesses\<close>

definition two_regions :: "nat desc list" where
  "two_regions = [mk_desc 0x1000 0x1000 1, mk_desc 0x4000 0x2000 1]"

lemmas two_regions_simps = two_regions_def d_lo_def d_hi_def mk_desc_def

theorem region_insert_witness:
  "\<exists>type' dl'. rg_insert max 8 two_regions 0x4800 0x100 3 Combine = Inr (type', dl') \<and> rg_ok 0 dl'
     \<and> rg_map dl' = upd_range 0x4800 0x4900 (Some type') (rg_map two_regions)"
proof -
  have h: "\<not> (\<forall>d\<in>set two_regions. \<not> (d_lo d \<le> unat (0x4800::u32) \<and> unat (0x4800::u32) + unat (0x100::u32) \<le> d_hi d))"
    by (simp add: two_regions_simps)
  show ?thesis
    using region_insert [where dl = two_regions and n = 8 and sz = "0x100" and addr = "0x4800" and ior = max and type = 3
        and mode = Combine] h
    by (auto simp: two_regions_simps split: sum.splits)
qed

lemma two_regions_space: "space_ok two_regions 0x800 0x1000 0x1000 0x8000"
proof -
  have "\<exists>k<32. (0x1000 :: u32) = push_bit k 1" by (rule exI [of _ 12]) (simp add: push_bit_eq_mult)
  then show ?thesis by (simp add: space_ok_def two_regions_simps)
qed

theorem region_alloc_witness:
  "rg_ok 0 two_regions \<and> space_ok two_regions 0x800 0x1000 0x1000 0x8000
   \<and> (\<exists>addr dl'. rg_alloc 8 two_regions 0x800 0x1000 2 NotCombine 0x1000 0x8000 = Inr (addr, dl')
     \<and> fits two_regions 0x800 0x1000 0x1000 0x9000 (unat addr) \<and> rg_ok 0 dl')"
proof -
  have ok: "rg_ok 0 two_regions" "length two_regions < 8" by (simp_all add: two_regions_simps)
  have "fits two_regions 0x800 0x1000 0x1000 0x9000 0x2000" by (simp add: fits_def free_range_def two_regions_simps)
  then show ?thesis using region_alloc [OF ok two_regions_space, of 2 NotCombine] ok(1) two_regions_space
    by (auto split: if_splits)
qed

theorem region_free_witness:
  "\<exists>dl'. rg_free 8 two_regions 0x4000 0x1000 = Inr dl' \<and> rg_map dl' 0x4100 = None \<and> rg_map dl' 0x5100 = Some 1"
  using region_free [of two_regions 8 "0x1000" "0x4000"] by (auto simp: two_regions_simps upd_range_def)

end
