(* ===== verification/Kmem.thy ===== *)
theory Kmem
  imports Regions
begin

text \<open>
  \<open>Kmem\<close> of \<open>krn/kmem.h\<close>: the kernel's memory pool, a region list of free and busy blocks with the
  number of free bytes kept beside it.
\<close>

section \<open>Operations\<close>

datatype kmem_type = Free | Busy

record kmem =
  km_memory :: "kmem_type desc list"
  km_pool_sz :: u32

definition Alloc_min_sz :: u32 where "Alloc_min_sz = 0x40"
definition Kmem_regions :: nat where "Kmem_regions = 1024"

definition Pool_init_sz :: u32 where "Pool_init_sz = 256 * 0x1000"

text \<open>\<open>init\<close>: the array \<open>premapped_mem\<close> at address \<open>va\<close> becomes the first free region.\<close>

definition kmem_init :: "u32 \<Rightarrow> kmem res" where
  "kmem_init va =
     res_bind (wassert (va \<noteq> 0 \<and> is_aligned va 0x1000)) (\<lambda>_.
     res_bind (wassert (Pool_init_sz \<noteq> 0 \<and> is_aligned Pool_init_sz 0x1000)) (\<lambda>_.
     res_bind (rg_add Kmem_regions [] va Pool_init_sz Free NotCombine) (\<lambda>dl.
     Inr \<lparr>km_memory = dl, km_pool_sz = Pool_init_sz\<rparr>)))"

definition fits_chunk :: "u32 \<Rightarrow> u32 \<Rightarrow> kmem_type desc \<Rightarrow> bool" where
  "fits_chunk sz align d =
     (d_type d = Free \<and> d_sz d \<ge> sz \<and> d_sz d \<ge> (round_up (d_addr d) align - d_addr d) + sz)"

definition kmem_alloc :: "kmem \<Rightarrow> u32 \<Rightarrow> u32 \<Rightarrow> (u32 \<times> kmem) res" where
  "kmem_alloc km sz0 align =
     res_bind (wassert (sz0 \<noteq> 0 \<and> align \<noteq> 0)) (\<lambda>_.
     let sz = round_up sz0 Alloc_min_sz; (pre, post) = split_at (fits_chunk sz align) (km_memory km) in
     case post of
       [] \<Rightarrow> Inl Panic
     | it # _ \<Rightarrow>
         let aaddr = round_up (d_addr it) align in
         res_bind (set_type Kmem_regions pre post aaddr sz Busy NotCombine) (\<lambda>dl'.
         Inr (aaddr, \<lparr>km_memory = dl', km_pool_sz = km_pool_sz km - sz\<rparr>)))"

definition kmem_free :: "kmem \<Rightarrow> u32 \<Rightarrow> kmem res" where
  "kmem_free km va =
     (let (pre, post) = find_start (km_memory km) va in
      case post of
        [] \<Rightarrow> Inl Assert_failed
      | it # _ \<Rightarrow>
          res_bind (wassert (d_type it = Busy)) (\<lambda>_.
          res_bind (set_type Kmem_regions pre post va (d_sz it) Free Combine) (\<lambda>dl'.
          Inr \<lparr>km_memory = dl', km_pool_sz = km_pool_sz km + d_sz it\<rparr>)))"

section \<open>Properties\<close>

definition free_bytes :: "kmem_type desc list \<Rightarrow> nat set" where
  "free_bytes dl = {b. rg_map dl b = Some Free}"

text \<open>The pool's list is well formed, and \<open>pool_sz\<close> is the number of free bytes.\<close>

definition kmem_ok :: "kmem \<Rightarrow> bool" where
  "kmem_ok km \<longleftrightarrow> rg_ok 0 (km_memory km) \<and> unat (km_pool_sz km) = card (free_bytes (km_memory km))"

lemma rg_map_bound: "rg_ok lo dl \<Longrightarrow> rg_map dl b = Some y \<Longrightarrow> b < 2 ^ 32 - 1"
proof (induction dl arbitrary: lo)
  case (Cons d ds)
  then show ?case by (cases "d_lo d \<le> b \<and> b < d_hi d") auto
qed simp

lemma free_bytes_finite: "rg_ok 0 dl \<Longrightarrow> finite (free_bytes dl) \<and> card (free_bytes dl) < 2 ^ 32"
proof -
  assume ok: "rg_ok 0 dl"
  have s: "free_bytes dl \<subseteq> {..<2 ^ 32 - 1}" using rg_map_bound [OF ok] by (auto simp: free_bytes_def)
  have "card (free_bytes dl) \<le> card {..<2 ^ 32 - 1 :: nat}" by (rule card_mono [OF _ s]) simp
  also have "card {..<2 ^ 32 - 1 :: nat} = 2 ^ 32 - 1" by (rule card_lessThan)
  finally show ?thesis using finite_subset [OF s] by simp
qed

lemma fits_chunk_sound:
  assumes "align = push_bit k 1" "k < 32" "unat align \<le> d_lo d" "d_hi d + unat align \<le> 2 ^ 32"
    and "d_lo d < d_hi d"
  shows "fits_chunk sz align d \<longleftrightarrow> d_type d = Free
    \<and> unat (round_up (d_addr d) align) + unat sz \<le> d_hi d"
proof -
  let ?a = "round_up (d_addr d) align"
  have b: "unat (d_addr d) + unat align \<le> 2 ^ 32" using assms(4,5) by (simp add: d_lo_def)
  note R = round_up_least [OF assms(1,2) b]
  have p: "unat (?a - d_addr d) = unat ?a - d_lo d" using R(1) by (simp add: unat_sub word_le_nat_alt d_lo_def)
  have hi: "d_hi d = d_lo d + unat (d_sz d)" by (rule d_hi_lo)
  have lo: "d_lo d = unat (d_addr d)" by (simp add: d_lo_def)
  show ?thesis
  proof (cases "sz \<le> d_sz d")
    case True
    then have s: "unat sz \<le> unat (d_sz d)" by (simp add: word_le_nat_alt)
    then have "unat ((?a - d_addr d) + sz) = (unat ?a - d_lo d) + unat sz"
      using R(3) p hi lo assms(3,4) by (subst unat_sum) linarith+
    then show ?thesis using True hi R(1) lo by (auto simp: fits_chunk_def word_le_nat_alt)
  next
    case False
    then have "unat (d_sz d) < unat sz" by (simp add: word_le_nat_alt)
    then have "\<not> unat ?a + unat sz \<le> d_hi d" using hi R(1) lo by linarith
    then show ?thesis using False by (simp add: fits_chunk_def)
  qed
qed


lemma upd_range_free:
  assumes "rg_map dl' = upd_range lo hi (Some y) (rg_map dl)"
  shows "free_bytes dl' = (if y = Free then free_bytes dl \<union> {lo..<hi} else free_bytes dl - {lo..<hi})"
  using assms by (cases y) (auto simp: free_bytes_def upd_range_def)

text \<open>The pool lies away from both ends of the address space by more than the alignment.\<close>

definition align_ok :: "kmem_type desc list \<Rightarrow> u32 \<Rightarrow> bool" where
  "align_ok dl align \<longleftrightarrow> (\<exists>k<32. align = push_bit k 1)
     \<and> (\<forall>d\<in>set dl. unat align \<le> d_lo d \<and> d_hi d + unat align \<le> 2 ^ 32)"

lemma Alloc_min_sz_bit: "Alloc_min_sz = push_bit 6 1"
  by (simp add: Alloc_min_sz_def push_bit_eq_mult)

text \<open>
  C15. Allocating kernel memory from a well-formed pool whose list has room for two more items: the
  address returned is aligned, the block covers the bytes asked for rounded up to 64, all of it was
  free and is now a busy region of its own, the other bytes keep their state and \<open>pool_sz\<close> stays the
  number of free bytes. It fails only if no free region has an aligned place for the block.
\<close>

theorem kmem_alloc_block:
  assumes ok: "kmem_ok km" and room: "length (km_memory km) + 1 < Kmem_regions"
    and al: "align_ok (km_memory km) align" and sz0: "0 < unat sz0" "unat sz0 + 64 \<le> 2 ^ 32"
  shows "let n = unat (round_up sz0 Alloc_min_sz); m = rg_map (km_memory km) in
    64 dvd n \<and> unat sz0 \<le> n \<and> n < unat sz0 + 64
    \<and> (case kmem_alloc km sz0 align of
         Inr (a, km') \<Rightarrow> unat align dvd unat a \<and> kmem_ok km'
           \<and> (\<forall>b. unat a \<le> b \<and> b < unat a + n \<longrightarrow> m b = Some Free)
           \<and> rg_map (km_memory km') = upd_range (unat a) (unat a + n) (Some Busy) m
           \<and> mk_desc a (round_up sz0 Alloc_min_sz) Busy \<in> set (km_memory km')
       | Inl e \<Rightarrow> \<forall>d\<in>set (km_memory km). \<forall>a. d_type d = Free \<and> unat align dvd a \<and> d_lo d \<le> a \<longrightarrow> d_hi d < a + n)"
proof -
  let ?sz = "round_up sz0 Alloc_min_sz" and ?dl = "km_memory km"
  have okd: "rg_ok 0 ?dl" using ok by (simp add: kmem_ok_def)
  have am: "unat Alloc_min_sz = 64" by (simp add: Alloc_min_sz_def)
  have "unat sz0 + unat Alloc_min_sz \<le> 2 ^ 32" using sz0(2) am by simp
  note Z = round_up_least [OF Alloc_min_sz_bit _ this, unfolded am, simplified]
  have n0: "0 < unat ?sz" using Z(1) sz0(1) by linarith
  obtain k where k: "align = push_bit k 1" "k < 32" using al by (auto simp: align_ok_def)
  have "align \<noteq> 0" using k by (auto dest: unat_push_bit_1)
  then have asrt: "sz0 \<noteq> 0 \<and> align \<noteq> 0" using sz0(1) by auto
  obtain pre post where s: "split_at (fits_chunk ?sz align) ?dl = (pre, post)" by fastforce
  have dl: "?dl = pre @ post" by (rule split_at_append [OF s])
  have al': "unat align \<le> d_lo d" "d_hi d + unat align \<le> 2 ^ 32" "d_lo d < d_hi d" if "d \<in> set ?dl" for d
    using al that rg_ok_mem [OF okd that] by (simp_all add: align_ok_def)
  have F: "fits_chunk ?sz align d \<longleftrightarrow> d_type d = Free \<and> unat (round_up (d_addr d) align) + unat ?sz \<le> d_hi d"
    if "d \<in> set ?dl" for d by (rule fits_chunk_sound [OF k al' [OF that]])
  have U: "unat (d_addr d) + unat align \<le> 2 ^ 32" if "d \<in> set ?dl" for d
    using al'(2,3) [OF that] by (simp add: d_lo_def)
  show ?thesis
  proof (cases post)
    case Nil
    have "d_hi d < a + unat ?sz" if d: "d \<in> set ?dl" "d_type d = Free" "unat align dvd a" "d_lo d \<le> a" for d a
    proof -
      have "\<not> fits_chunk ?sz align d" using split_at_pre [OF s] Nil dl d(1) by simp
      moreover have "unat (round_up (d_addr d) align) \<le> a"
        using round_up_least(4) [OF k U [OF d(1)] d(3)] d(4) by (simp add: d_lo_def)
      ultimately show ?thesis using F [OF d(1)] d(2) by linarith
    qed
    moreover have "kmem_alloc km sz0 align = Inl Panic" using asrt Nil by (simp add: kmem_alloc_def s)
    ultimately show ?thesis using Z by (simp add: Let_def)
  next
    case (Cons it rest)
    let ?a = "round_up (d_addr it) align"
    have it: "it \<in> set ?dl" using dl Cons by simp
    have fc: "d_type it = Free" "unat ?a + unat ?sz \<le> d_hi it" using split_at_hd [OF s [unfolded Cons]] F [OF it] by auto
    note R = round_up_least [OF k U [OF it]]
    have lo: "d_lo it \<le> unat ?a" using R(1) by (simp add: d_lo_def)
    have b: "unat ?a + unat ?sz < 2 ^ 32" using fc(2) rg_ok_mem [OF okd it] by linarith
    have l: "length (pre @ it # rest) + 1 < Kmem_regions" using room dl Cons by simp
    obtain dl' where st: "set_type Kmem_regions pre (it # rest) ?a ?sz Busy NotCombine = Inr dl'" "mk_desc ?a ?sz Busy \<in> set dl'"
      using set_type_total [OF okd [unfolded dl Cons] n0 b l lo fc(2), of Busy NotCombine] fc(1) by auto
    note S = set_type_sound [OF okd [unfolded dl Cons] st(1) n0 b, folded Cons, folded dl]
    have fr: "rg_map ?dl x = Some Free" if "unat ?a \<le> x" "x < unat ?a + unat ?sz" for x
      using rg_map_at [OF okd [unfolded dl Cons], of x] that lo fc dl Cons by simp
    have sub: "{unat ?a..<unat ?a + unat ?sz} \<subseteq> free_bytes ?dl" using fr by (auto simp: free_bytes_def)
    have c: "card (free_bytes dl') = card (free_bytes ?dl) - unat ?sz"
      using upd_range_free [OF S(2)] card_Diff_subset [OF _ sub] by simp
    have le: "unat ?sz \<le> card (free_bytes ?dl)" using card_mono [OF _ sub] free_bytes_finite [OF okd] by simp
    let ?km = "\<lparr>km_memory = dl', km_pool_sz = km_pool_sz km - ?sz\<rparr>"
    have "kmem_ok ?km" using S(1) c le ok by (simp add: kmem_ok_def unat_sub word_le_nat_alt)
    moreover have "kmem_alloc km sz0 align = Inr (?a, ?km)" using asrt Cons st(1) by (simp add: kmem_alloc_def s)
    ultimately show ?thesis using Z R(2) fr S(2) st(2) by (simp add: Let_def)
  qed
qed


lemma find_start_cases:
  assumes okd: "rg_ok 0 dl"
  obtains (found) pre it rest where "dl = pre @ it # rest" "d_addr it = va" "find_start dl va = (pre, it # rest)"
      "\<And>d. d \<in> set dl \<Longrightarrow> d_addr d = va \<Longrightarrow> d = it"
  | (none) "\<And>d. d \<in> set dl \<Longrightarrow> d_addr d \<noteq> va" "find_start dl va = (dl, [])"
proof -
  obtain pre post where s: "split_at (\<lambda>d. va = d_addr d \<or> d_addr d > va) dl = (pre, post)" by fastforce
  have dl: "dl = pre @ post" by (rule split_at_append [OF s])
  have fs: "find_start dl va = (if post \<noteq> [] \<and> va = d_addr (hd post) then (pre, post) else (dl, []))"
    by (simp add: find_start_def s)
  show thesis
  proof (cases "post \<noteq> [] \<and> va = d_addr (hd post)")
    case True
    then obtain it rest where p: "post = it # rest" "d_addr it = va" by (cases post) auto
    have it: "it \<in> set dl" using dl p by simp
    have "d = it" if "d \<in> set dl" "d_addr d = va" for d
      by (rule rg_in_split [OF okd [unfolded dl p(1)], where a = "unat va"])
        (use that p dl rg_ok_mem [OF okd it] rg_ok_mem [OF okd that(1)] in \<open>auto simp: d_lo_def\<close>)
    moreover have "find_start dl va = (pre, it # rest)" using fs p by simp
    moreover have "dl = pre @ it # rest" using dl p by simp
    ultimately show thesis using found p(2) by blast
  next
    case False
    have "d_addr d \<noteq> va" if d: "d \<in> set dl" for d
    proof
      assume e: "d_addr d = va"
      then have "d \<in> set post" using split_at_pre [OF s] d dl by auto
      then obtain q qs where P: "post = q # qs" "d \<in> set (q # qs)" by (cases post) auto
      have okp: "rg_ok (d_lo q) (q # qs)" using okd P(1) dl by (simp add: rg_ok_append)
      have "va < d_addr q" using split_at_hd [OF s [unfolded P(1)]] False P(1) by auto
      then show False using rg_ok_mem [OF okp P(2)] e by (simp add: d_lo_def word_less_nat_alt)
    qed
    moreover have "find_start dl va = (dl, [])" using False fs by (simp only: if_False)
    ultimately show thesis using none by blast
  qed
qed

text \<open>
  Freeing kernel memory: a busy region that starts at the address becomes free as a whole, the
  other bytes keep their state and \<open>pool_sz\<close> stays the number of free bytes; any other address fails
  the assertion.
\<close>

theorem kmem_free_block:
  assumes ok: "kmem_ok km" and room: "length (km_memory km) + 1 < Kmem_regions"
  shows "if \<exists>d\<in>set (km_memory km). d_addr d = va \<and> d_type d = Busy
    then \<exists>d\<in>set (km_memory km). d_addr d = va \<and> (\<exists>km'. kmem_free km va = Inr km' \<and> kmem_ok km'
      \<and> rg_map (km_memory km') = upd_range (d_lo d) (d_hi d) (Some Free) (rg_map (km_memory km)))
    else kmem_free km va = Inl Assert_failed"
proof -
  let ?dl = "km_memory km"
  have okd: "rg_ok 0 ?dl" using ok by (simp add: kmem_ok_def)
  from okd show ?thesis
  proof (cases rule: find_start_cases [where va = va])
  case (found pre it rest)
  note dl = found(1) and p = found(2) and fs = found(3) and uniq = found(4)
  have it: "it \<in> set ?dl" using dl by simp
  show ?thesis
  proof (cases "d_type it = Busy")
    case busy: True
    have hi: "unat va + unat (d_sz it) = d_hi it" "d_lo it = unat va" "d_hi it < 2 ^ 32" "0 < unat (d_sz it)"
      using p rg_ok_mem [OF okd it] d_hi_lo [of it] by (simp_all add: d_lo_def)
    have l: "length (pre @ it # rest) + 1 < Kmem_regions" using room dl by simp
    have b: "unat va + unat (d_sz it) < 2 ^ 32" "d_lo it \<le> unat va" "unat va + unat (d_sz it) \<le> d_hi it" using hi by simp_all
    obtain dl' where st: "set_type Kmem_regions pre (it # rest) va (d_sz it) Free Combine = Inr dl'"
      using set_type_total [OF okd [unfolded dl] hi(4) b(1) l b(2,3), of Free Combine] busy by auto
    note S = set_type_sound [OF okd [unfolded dl] st hi(4) b(1), folded dl, unfolded hi(1)]
    let ?km = "\<lparr>km_memory = dl', km_pool_sz = km_pool_sz km + d_sz it\<rparr>"
    have "free_bytes ?dl \<inter> {unat va..<d_hi it} = {}"
      using rg_map_at [OF okd [unfolded dl]] hi busy dl by (auto simp: free_bytes_def)
    moreover have fb: "free_bytes dl' = free_bytes ?dl \<union> {unat va..<d_hi it}" using upd_range_free [OF S(2)] by simp
    ultimately have c: "card (free_bytes dl') = card (free_bytes ?dl) + unat (d_sz it)"
      using free_bytes_finite [OF okd] hi(1) card_Un_disjoint [of "free_bytes ?dl" "{unat va..<d_hi it}"] by simp
    then have "unat (km_pool_sz km) + unat (d_sz it) < 2 ^ 32"
      using free_bytes_finite [OF S(1)] ok by (simp add: kmem_ok_def)
    then have "kmem_ok ?km" using S(1) c ok unat_sum [of "km_pool_sz km" "d_sz it"] by (simp add: kmem_ok_def)
    moreover have "kmem_free km va = Inr ?km" using fs st busy by (simp add: kmem_free_def)
    ultimately show ?thesis using it p S(2) busy hi(2) by auto
  next
    case False
    then have "kmem_free km va = Inl Assert_failed" using fs by (simp add: kmem_free_def)
    moreover have "\<not> (\<exists>d\<in>set ?dl. d_addr d = va \<and> d_type d = Busy)" using False uniq by blast
    ultimately show ?thesis by simp
  qed
  next
    case none
    then show ?thesis by (auto simp: kmem_free_def)
  qed
qed

lemma kmem_init_ok:
  assumes "va \<noteq> 0" "is_aligned va 0x1000" "unat va + unat Pool_init_sz < 2 ^ 32"
  shows "\<exists>km. kmem_init va = Inr km \<and> kmem_ok km \<and> km_memory km = [mk_desc va Pool_init_sz Free]"
proof -
  let ?km = "\<lparr>km_memory = [mk_desc va Pool_init_sz Free], km_pool_sz = Pool_init_sz\<rparr>"
  have p: "Pool_init_sz \<noteq> 0 \<and> is_aligned Pool_init_sz 0x1000" by (simp add: Pool_init_sz_def is_aligned_def)
  have i: "kmem_init va = Inr ?km"
    using assms(1,2) p by (simp add: kmem_init_def rg_add_def add_at_def put_desc_def Kmem_regions_def)
  have "free_bytes [mk_desc va Pool_init_sz Free] = {unat va..<unat va + unat Pool_init_sz}"
    by (auto simp: free_bytes_def d_lo_def d_hi_def)
  then have "card (free_bytes [mk_desc va Pool_init_sz Free]) = unat Pool_init_sz" by simp
  moreover have "rg_ok 0 [mk_desc va Pool_init_sz Free]"
    using assms(3) p by (simp add: d_lo_def d_hi_def unat_gt_0)
  ultimately have "kmem_ok ?km" by (simp add: kmem_ok_def)
  then show ?thesis using i by simp
qed

section \<open>Witnesses\<close>

lemma kmem_sample:
  "\<exists>km. kmem_ok km \<and> km_memory km = [mk_desc 0xf0100000 Pool_init_sz Free]"
  using kmem_init_ok [of "0xf0100000"] by (auto simp: is_aligned_def Pool_init_sz_def)

lemma kmem_sample_align: "align_ok [mk_desc 0xf0100000 Pool_init_sz Free] 0x1000"
proof -
  have "\<exists>k<32. (0x1000 :: u32) = push_bit k 1" by (rule exI [of _ 12]) (simp add: push_bit_eq_mult)
  then show ?thesis by (simp add: align_ok_def d_lo_def d_hi_def Pool_init_sz_def)
qed

theorem kmem_alloc_block_witness:
  "\<exists>km a km'. kmem_ok km \<and> kmem_alloc km 100 0x1000 = Inr (a, km') \<and> kmem_ok km' \<and> 0x1000 dvd unat a"
proof -
  obtain km where km: "kmem_ok km" "km_memory km = [mk_desc 0xf0100000 Pool_init_sz Free]" using kmem_sample by blast
  have r: "length (km_memory km) + 1 < Kmem_regions" by (simp add: km(2) Kmem_regions_def)
  have al: "align_ok (km_memory km) 0x1000" using kmem_sample_align km(2) by simp
  have sz: "unat (round_up 100 Alloc_min_sz) = 128" by (simp add: round_up_def Alloc_min_sz_def)
  note A = kmem_alloc_block [OF km(1) r al, of 100, unfolded Let_def sz]
  show ?thesis
  proof (cases "kmem_alloc km 100 0x1000")
    case (Inl e)
    have "\<not> d_hi (mk_desc 0xf0100000 Pool_init_sz Free) < 0xf0100000 + 128"
      by (simp add: d_hi_def Pool_init_sz_def)
    moreover have "\<forall>a. 0x1000 dvd a \<and> 0xf0100000 \<le> a \<longrightarrow> d_hi (mk_desc 0xf0100000 Pool_init_sz Free) < a + 128"
      using A Inl km(2) by (simp add: d_lo_def)
    from spec [OF this, of "0xf0100000"] have "d_hi (mk_desc 0xf0100000 Pool_init_sz Free) < 0xf0100000 + 128" by simp
    ultimately show ?thesis by blast
  next
    case (Inr x)
    then obtain a km' where x: "kmem_alloc km 100 0x1000 = Inr (a, km')" by (cases x) auto
    show ?thesis using A x km(1) by (intro exI [of _ km] exI [of _ a] exI [of _ km']) simp
  qed
qed

theorem kmem_free_block_witness:
  "\<exists>km. kmem_ok km \<and> kmem_free km 0xf0100000 = Inl Assert_failed"
proof -
  obtain km where km: "kmem_ok km" "km_memory km = [mk_desc 0xf0100000 Pool_init_sz Free]" using kmem_sample by blast
  have r: "length (km_memory km) + 1 < Kmem_regions" by (simp add: km(2) Kmem_regions_def)
  show ?thesis using kmem_free_block [OF km(1) r, of "0xf0100000"] km by auto
qed

end
