(* ===== verification/Ptable.thy ===== *)
theory Ptable
  imports L4_Types
begin

text \<open>
  Page tables: \<open>krn/ptable.h\<close> on the cells of \<open>lib/mmu/sparc_srmmu/mmu.h\<close> and
  \<open>krn/sparc/acc2mmuacc.h\<close>. A table is the list of its cells; a directory cell holds its child
  table, where the code stores the child's physical address and gets the table back with
  \<open>kmem_vaddr\<close>; a map cell holds the word the MMU reads. A \<open>Ptable\<close> class is given by its
  template arguments: the list of the address bits \<open>(hi, low)\<close> of its level and the levels below.
  Virtual addresses and sizes are 32-bit numbers with the wrap-around of \<open>va += len\<close> written out.
  Tables come from \<open>Kmem\<close>, which stops the kernel when it is exhausted; that end is left out, as are
  the cache and TLB flushes.
\<close>

section \<open>MMU cells\<close>

definition Mmu_acc_max :: nat where "Mmu_acc_max = 7"

text \<open>\<open>mmu_set_map\<close>, \<open>mmu_get_map_pa\<close>, \<open>mmu_get_map_cached\<close> and the access field of \<open>mmu_get_map_acc\<close>.\<close>

definition mmu_set_map :: "u64 \<Rightarrow> nat \<Rightarrow> nat \<Rightarrow> u32 res" where
  "mmu_set_map pa access cachable =
     res_bind (wassert (pa AND 0xfff = 0)) (\<lambda>_.
     res_bind (wassert (access \<le> Mmu_acc_max)) (\<lambda>_.
     res_bind (wassert (cachable \<le> 1)) (\<lambda>_.
     Inr (ucast ((drop_bit 4 pa AND 0xffffff00) OR push_bit 7 (of_nat cachable) OR push_bit 2 (of_nat access) OR 2)))))"

text \<open>The shift is done in the 32 bits of \<open>word_t\<close>.\<close>

definition mmu_get_map_pa :: "u32 \<Rightarrow> u64" where
  "mmu_get_map_pa cell = ucast (push_bit 4 (cell AND 0xffffff00))"

definition mmu_get_map_cached :: "u32 \<Rightarrow> nat" where
  "mmu_get_map_cached cell = unat (drop_bit 7 cell AND 1)"

definition mmu_get_map_acc :: "u32 \<Rightarrow> nat" where
  "mmu_get_map_acc cell = unat (drop_bit 2 cell AND 7)"

definition mmu_is_map :: "u32 \<Rightarrow> bool" where "mmu_is_map cell = (cell AND 3 = 2)"

section \<open>Tables\<close>

datatype cell = Inv | is_Pte: Pte u32 | is_Dir: Dir "cell list"

type_synonym level = "nat \<times> nat"

definition Cfg_page_sz :: nat where "Cfg_page_sz = 0x1000"

definition Sparc_levels :: "level list" where "Sparc_levels = [(31, 24), (23, 18), (17, 12)]"

text \<open>\<open>Table_sz\<close> and \<open>create_table\<close>; the table below the last level is \<open>Ptable_terminator\<close>.\<close>

definition Table_sz :: "level \<Rightarrow> nat" where "Table_sz lv = 2 ^ (fst lv - snd lv + 1)"

fun create_table :: "level list \<Rightarrow> cell list" where
  "create_table [] = []"
| "create_table (lv # _) = replicate (Table_sz lv) Inv"

definition cell_index :: "level \<Rightarrow> nat \<Rightarrow> nat" where
  "cell_index lv va = va div 2 ^ snd lv mod Table_sz lv"

definition va_add :: "nat \<Rightarrow> nat \<Rightarrow> nat" where "va_add va len = (va + len) mod 2 ^ 32"

text \<open>\<open>paddr + va - vaddr\<close> in 64 bits.\<close>

definition pa_at :: "u64 \<Rightarrow> nat \<Rightarrow> nat \<Rightarrow> u64" where
  "pa_at paddr vaddr va = paddr + of_nat va - of_nat vaddr"

subsection \<open>Mapping\<close>

text \<open>The loop of \<open>map\<close>; \<open>child_map\<close> is \<open>map\<close> of the child's class and \<open>lvs\<close> its levels.\<close>

function map_loop ::
  "(cell list \<Rightarrow> nat \<Rightarrow> u64 \<Rightarrow> nat \<Rightarrow> cell list res) \<Rightarrow> level \<Rightarrow> level list \<Rightarrow> nat \<Rightarrow> u64 \<Rightarrow> nat \<Rightarrow> nat \<Rightarrow> bool
   \<Rightarrow> cell list \<Rightarrow> nat \<Rightarrow> nat \<Rightarrow> cell list res" where
  "map_loop child_map lv lvs vaddr paddr access cachable over tb va rest =
     (if rest = 0 then Inr tb
      else
        let page_sz = 2 ^ snd lv; ix = cell_index lv va; cell = tb ! ix; pa = pa_at paddr vaddr va in
        if va mod page_sz = 0 \<and> rest \<ge> page_sz then
          if \<not> over \<and> is_Pte cell then Inl Panic
          else if is_Dir cell then Inl Panic
          else
            res_bind (mmu_set_map pa access cachable) (\<lambda>w.
            map_loop child_map lv lvs vaddr paddr access cachable over (tb[ix := Pte w]) (va_add va page_sz) (rest - page_sz))
        else
          res_bind (case cell of Inv \<Rightarrow> Inr (create_table lvs) | Dir t \<Rightarrow> Inr t | Pte _ \<Rightarrow> Inl Panic) (\<lambda>child.
          let len = min rest (page_sz - va mod page_sz) in
          res_bind (child_map child va pa len) (\<lambda>child'.
          map_loop child_map lv lvs vaddr paddr access cachable over (tb[ix := Dir child']) (va_add va len) (rest - len))))"
  by pat_completeness auto
termination
  by (relation "measure (\<lambda>(_, _, _, _, _, _, _, _, _, _, rest). rest)") auto

definition pg_aligned :: "nat \<Rightarrow> bool" where "pg_aligned n = (n mod Cfg_page_sz = 0)"

fun pt_map :: "level list \<Rightarrow> nat \<Rightarrow> nat \<Rightarrow> bool \<Rightarrow> cell list \<Rightarrow> nat \<Rightarrow> u64 \<Rightarrow> nat \<Rightarrow> cell list res" where
  "pt_map [] access cachable over tb vaddr paddr sz = Inl Panic"
| "pt_map (lv # lvs) access cachable over tb vaddr paddr sz =
     res_bind (wassert (pg_aligned vaddr \<and> paddr AND 0xfff = 0 \<and> pg_aligned sz)) (\<lambda>_.
     res_bind (wassert (sz \<le> 2 ^ (fst lv + 1) \<and> access < 8 \<and> cachable < 2)) (\<lambda>_.
     map_loop (pt_map lvs access cachable over) lv lvs vaddr paddr access cachable over tb vaddr sz))"

subsection \<open>Unmapping\<close>

function unmap_loop ::
  "(cell list \<Rightarrow> nat \<Rightarrow> nat \<Rightarrow> cell list res) \<Rightarrow> level \<Rightarrow> cell list \<Rightarrow> nat \<Rightarrow> nat \<Rightarrow> cell list res" where
  "unmap_loop child_unmap lv tb va rest =
     (if rest = 0 then Inr tb
      else
        let page_sz = 2 ^ snd lv; ix = cell_index lv va in
        case tb ! ix of
          Dir child \<Rightarrow>
            let len = min rest (page_sz - va mod page_sz) in
            res_bind (child_unmap child va len) (\<lambda>child'.
            unmap_loop child_unmap lv (tb[ix := Dir child']) (va_add va len) (rest - len))
        | Pte _ \<Rightarrow>
            if rest < page_sz then Inl Panic
            else unmap_loop child_unmap lv (tb[ix := Inv]) (va_add va page_sz) (rest - page_sz)
        | Inv \<Rightarrow>
            let len = min rest page_sz in unmap_loop child_unmap lv tb (va_add va len) (rest - len))"
  by pat_completeness auto
termination
  by (relation "measure (\<lambda>(_, _, _, _, rest). rest)") auto

fun pt_unmap :: "level list \<Rightarrow> cell list \<Rightarrow> nat \<Rightarrow> nat \<Rightarrow> cell list res" where
  "pt_unmap [] tb vaddr sz = Inl Panic"
| "pt_unmap (lv # lvs) tb vaddr sz =
     res_bind (wassert (pg_aligned vaddr \<and> pg_aligned sz \<and> sz \<le> 2 ^ (fst lv + 1))) (\<lambda>_.
     unmap_loop (pt_unmap lvs) lv tb vaddr sz)"

subsection \<open>Walking\<close>

function walk_loop ::
  "(cell list \<Rightarrow> nat \<Rightarrow> nat \<Rightarrow> u64 res) \<Rightarrow> level \<Rightarrow> cell list \<Rightarrow> nat \<Rightarrow> nat \<Rightarrow> u64 \<Rightarrow> u64 res" where
  "walk_loop child_walk lv tb va rest pa =
     (if rest = 0 then Inr pa
      else
        let page_sz = 2 ^ snd lv; len = min rest (page_sz - va mod page_sz) in
        case tb ! cell_index lv va of
          Inv \<Rightarrow> Inr 0
        | Dir child \<Rightarrow>
            res_bind (child_walk child va len) (\<lambda>res.
            if res = 0 then Inr 0
            else walk_loop child_walk lv tb (va_add va len) (rest - len) (if pa = 0 then res else pa))
        | Pte w \<Rightarrow>
            walk_loop child_walk lv tb (va_add va len) (rest - len)
              (if pa = 0 then mmu_get_map_pa w + of_nat (va mod page_sz) else pa))"
  by pat_completeness auto
termination
  by (relation "measure (\<lambda>(_, _, _, _, rest, _). rest)") auto

fun pt_walk :: "level list \<Rightarrow> cell list \<Rightarrow> nat \<Rightarrow> nat \<Rightarrow> u64 res" where
  "pt_walk [] tb vaddr sz = Inl Panic"
| "pt_walk (lv # lvs) tb vaddr sz =
     res_bind (wassert (pg_aligned vaddr \<and> pg_aligned sz \<and> sz \<le> 2 ^ (fst lv + 1))) (\<lambda>_.
     walk_loop (pt_walk lvs) lv tb vaddr sz 0)"

declare map_loop.simps [simp del] unmap_loop.simps [simp del] walk_loop.simps [simp del]

section \<open>Cells\<close>

lemma mmu_masks:
  "(0xfff :: u64) = mask 12" "(0xffffff00 :: u64) = push_bit 8 (mask 24)" "(0xffffff00 :: u32) = push_bit 8 (mask 24)"
  "(7 :: u32) = mask 3" "(3 :: u32) = mask 2" "(2 :: u64) = push_bit 1 1" "(2 :: u32) = push_bit 1 1" "(1 :: u32) = mask 1"
  by (simp_all add: mask_eq_exp_minus_1 push_bit_eq_mult)

lemmas mmu_bits = bit_and_iff bit_or_iff bit_not_iff bit_mask_iff bit_push_bit_iff bit_drop_bit_eq
  bit_unsigned_iff bit_take_bit_iff bit_1_iff

lemma bit_two: "bit (2::u32) n \<longleftrightarrow> n = 1" "bit (2::u64) n \<longleftrightarrow> n = 1" "bit (2::int) n \<longleftrightarrow> n = 1"
  unfolding mmu_masks(6,7) bit_push_bit_iff bit_1_iff by (auto simp: bit_2_iff)

lemma bit_of_nat_small: "n < 2 ^ k \<Longrightarrow> bit (of_nat n :: 'a::len word) j \<Longrightarrow> j < k"
  by (metis bit_take_bit_iff of_nat_take_bit take_bit_nat_eq_self take_bit_of_nat)

lemma bit_nat_small: "n < 2 ^ k \<Longrightarrow> bit (n::nat) j \<Longrightarrow> j < k"
  by (metis bit_take_bit_iff take_bit_nat_eq_self)

lemma mmu_word:
  fixes pa :: u64
  assumes "pa AND 0xfff = 0" "access \<le> 7" "cachable \<le> 1"
  defines "c \<equiv> ucast ((drop_bit 4 pa AND 0xffffff00) OR push_bit 7 (of_nat cachable) OR push_bit 2 (of_nat access) OR 2) :: u32"
  shows "mmu_is_map c" "mmu_get_map_acc c = access" "mmu_get_map_cached c = cachable"
    "mmu_get_map_pa c = take_bit 32 pa"
proof -
  have a: "bit (of_nat access :: u64) j \<Longrightarrow> j < 3" for j using bit_of_nat_small [of access 3] assms(2) by simp
  have ca: "bit (of_nat cachable :: u64) j \<Longrightarrow> j < 1" for j using bit_of_nat_small [of cachable 1] assms(3) by simp
  have an: "bit access j \<Longrightarrow> j < 3" "bit cachable j \<Longrightarrow> j < 1" for j
    using bit_nat_small [of access 3] bit_nat_small [of cachable 1] assms(2,3) by simp_all
  have p: "\<not> bit pa j" if "j < 12" for j
  proof -
    have "bit (pa AND mask 12) j = (bit pa j \<and> j < 12)" by (auto simp: bit_and_iff bit_mask_iff dest: bit_imp_le_length)
    then show ?thesis using assms(1) that by (simp add: mmu_masks(1))
  qed
  show "mmu_is_map c" unfolding mmu_is_map_def c_def mmu_masks
    by (rule bit_word_eqI) (auto simp: mmu_bits bit_two dest: a ca)
  have "drop_bit 2 c AND 7 = of_nat access" unfolding c_def mmu_masks
    by (rule bit_word_eqI) (auto simp: mmu_bits bit_two bit_of_nat_iff dest: a ca an)
  then show "mmu_get_map_acc c = access" using assms(2) by (simp add: mmu_get_map_acc_def unat_of_nat take_bit_nat_eq_self)
  have "drop_bit 7 c AND 1 = of_nat cachable" unfolding c_def mmu_masks
    by (rule bit_word_eqI) (auto simp: mmu_bits bit_two bit_of_nat_iff dest: a ca an)
  then show "mmu_get_map_cached c = cachable" using assms(3)
    by (simp add: mmu_get_map_cached_def unat_of_nat take_bit_nat_eq_self)
  show "mmu_get_map_pa c = take_bit 32 pa" unfolding mmu_get_map_pa_def c_def mmu_masks
  proof (rule bit_word_eqI)
    fix n :: nat
    assume "n < LENGTH(64)"
    show "bit (ucast (push_bit 4 (ucast (drop_bit 4 pa AND push_bit 8 (mask 24) OR push_bit 7 (of_nat cachable)
        OR push_bit 2 (of_nat access) OR push_bit 1 1) AND push_bit 8 (mask 24) :: u32)) :: u64) n = bit (take_bit 32 pa) n"
    proof (cases "n < 12")
      case True
      then show ?thesis using p [OF True] by (auto simp: mmu_bits bit_two dest: a ca)
    next
      case False
      then have "4 + (n - 4) = n" by simp
      then show ?thesis using False by (auto simp: mmu_bits bit_two dest: a ca)
    qed
  qed
qed

section \<open>The address translation of a table\<close>

text \<open>What the MMU finds for an address: the map cell and the offset in its page.\<close>

fun lookup :: "level list \<Rightarrow> cell list \<Rightarrow> nat \<Rightarrow> (u32 \<times> nat) option" where
  "lookup [] tb a = None"
| "lookup (lv # lvs) tb a =
     (case tb ! cell_index lv a of Inv \<Rightarrow> None | Pte w \<Rightarrow> Some (w, a mod 2 ^ snd lv) | Dir t \<Rightarrow> lookup lvs t a)"

definition xlate :: "level list \<Rightarrow> cell list \<Rightarrow> nat \<Rightarrow> (u64 \<times> nat \<times> nat) option" where
  "xlate lvs tb a = map_option (\<lambda>(w, off). (mmu_get_map_pa w + of_nat off, mmu_get_map_acc w, mmu_get_map_cached w))
     (lookup lvs tb a)"

text \<open>Levels that follow one another down to the page offset, and tables of the right shape.\<close>

fun lvs_ok :: "nat \<Rightarrow> level list \<Rightarrow> bool" where
  "lvs_ok bits [] \<longleftrightarrow> bits = 12"
| "lvs_ok bits ((hi, low) # lvs) \<longleftrightarrow> hi + 1 = bits \<and> low \<le> hi \<and> 12 \<le> low \<and> lvs_ok low lvs"

fun tb_ok :: "level list \<Rightarrow> cell list \<Rightarrow> bool" where
  "tb_ok [] tb \<longleftrightarrow> False"
| "tb_ok (lv # lvs) tb \<longleftrightarrow> length tb = Table_sz lv \<and> (\<forall>t. Dir t \<in> set tb \<longrightarrow> tb_ok lvs t)"

lemma xlate_simps [simp]:
  "xlate [] tb a = None"
  "xlate (lv # lvs) tb a =
     (case tb ! cell_index lv a of Inv \<Rightarrow> None
      | Pte w \<Rightarrow> Some (mmu_get_map_pa w + of_nat (a mod 2 ^ snd lv), mmu_get_map_acc w, mmu_get_map_cached w)
      | Dir t \<Rightarrow> xlate lvs t a)"
  by (auto simp: xlate_def split: cell.splits)

lemma cell_index_less: "cell_index lv a < Table_sz lv"
  by (simp add: cell_index_def Table_sz_def)

lemma cell_index_eq:
  assumes "low \<le> hi" "a div 2 ^ (hi + 1) = b div 2 ^ (hi + 1)"
  shows "cell_index (hi, low) a = cell_index (hi, low) b \<longleftrightarrow> a div 2 ^ low = b div 2 ^ low"
proof -
  let ?n = "2 ^ (hi - low + 1) :: nat"
  have e: "(2::nat) ^ (hi + 1) = 2 ^ low * ?n" using assms(1) by (simp add: power_add [symmetric])
  have d: "x div 2 ^ low = x div 2 ^ (hi + 1) * ?n + x div 2 ^ low mod ?n" for x :: nat
    unfolding e div_mult2_eq by (rule div_mult_mod_eq [symmetric])
  show ?thesis using d [of a] d [of b] assms(2) by (auto simp: cell_index_def Table_sz_def)
qed

lemma pa_at_eq: "vaddr \<le> va \<Longrightarrow> pa_at p vaddr va = p + of_nat (va - vaddr)"
  by (simp add: pa_at_def)

lemma pa_at_pa_at: "pa_at (pa_at p vaddr va) va a = pa_at p vaddr a"
  by (simp add: pa_at_def)

lemma unat_pa_at:
  assumes "vaddr \<le> va" "unat p + (va - vaddr) < 2 ^ 64"
  shows "unat (pa_at p vaddr va) = unat p + (va - vaddr)"
proof -
  have "unat (of_nat (va - vaddr) :: u64) = va - vaddr"
    using assms(2) by (simp add: unat_of_nat take_bit_nat_eq_self)
  then show ?thesis using assms by (simp add: pa_at_eq unat_word_ariths)
qed

definition map_spec ::
  "level list \<Rightarrow> nat \<Rightarrow> nat \<Rightarrow> nat \<Rightarrow> cell list \<Rightarrow> nat \<Rightarrow> u64 \<Rightarrow> nat \<Rightarrow> cell list \<Rightarrow> bool" where
  "map_spec lvs bits access cachable tb va pa len tb' \<longleftrightarrow> tb_ok lvs tb'
     \<and> (\<forall>a. a div 2 ^ bits = va div 2 ^ bits \<longrightarrow> xlate lvs tb' a =
          (if va \<le> a \<and> a < va + len then Some (pa_at pa va a, access, cachable) else xlate lvs tb a))"

lemma tb_ok_update:
  assumes "tb_ok (lv # lvs) tb" "\<And>t. c = Dir t \<Longrightarrow> tb_ok lvs t"
  shows "tb_ok (lv # lvs) (tb[ix := c])"
  using assms by (auto dest!: set_update_subset_insert [THEN subsetD])

lemma tb_ok_child: "tb_ok (lv # lvs) tb \<Longrightarrow> tb ! cell_index lv a = Dir t \<Longrightarrow> tb_ok lvs t"
  using cell_index_less [of lv a] by (metis nth_mem tb_ok.simps(2))

lemma tb_ok_create: "lvs \<noteq> [] \<Longrightarrow> tb_ok lvs (create_table lvs)"
  by (cases lvs) auto

lemma xlate_create: "lvs \<noteq> [] \<Longrightarrow> xlate lvs (create_table lvs) a = None"
  using cell_index_less by (cases lvs) auto

lemma mod_block: "(a::nat) mod 2 ^ b + n \<le> 2 ^ b \<Longrightarrow> x < n \<Longrightarrow> (a + x) div 2 ^ b = a div 2 ^ b"
proof -
  assume h: "a mod 2 ^ b + n \<le> 2 ^ b" "x < n"
  have "a + x = a div 2 ^ b * 2 ^ b + (a mod 2 ^ b + x)" using div_mult_mod_eq [of a "2 ^ b"] by simp
  moreover have "(a mod 2 ^ b + x) div 2 ^ b = 0" using h by (intro div_less) simp
  ultimately show ?thesis by (metis add_0_right div_mult_self3 add.commute power_not_zero zero_neq_numeral)
qed

lemma in_cell:
  assumes "(va::nat) mod 2 ^ low + len \<le> 2 ^ low" "va \<le> a" "a < va + len"
  shows "a div 2 ^ low = va div 2 ^ low"
  using mod_block [OF assms(1), of "a - va"] assms(2,3) by simp

lemma map_spec_cell:
  assumes ok: "low \<le> hi" "tb_ok ((hi, low) # lvs) tb" and len: "va mod 2 ^ low + len \<le> 2 ^ low"
    and c: "\<And>t. c = Dir t \<Longrightarrow> tb_ok lvs t"
    and x: "\<And>a. a div 2 ^ low = va div 2 ^ low \<Longrightarrow> xlate ((hi, low) # lvs) (tb[cell_index (hi, low) va := c]) a =
      (if va \<le> a \<and> a < va + len then Some (pa_at pa va a, access, cachable) else xlate ((hi, low) # lvs) tb a)"
  shows "map_spec ((hi, low) # lvs) (hi + 1) access cachable tb va pa len (tb[cell_index (hi, low) va := c])"
proof -
  have "xlate ((hi, low) # lvs) (tb[cell_index (hi, low) va := c]) a =
      (if va \<le> a \<and> a < va + len then Some (pa_at pa va a, access, cachable) else xlate ((hi, low) # lvs) tb a)"
    if b: "a div 2 ^ (hi + 1) = va div 2 ^ (hi + 1)" for a
  proof (cases "a div 2 ^ low = va div 2 ^ low")
    case False
    then have "cell_index (hi, low) va \<noteq> cell_index (hi, low) a" using cell_index_eq [OF ok(1) b] by simp
    moreover have "\<not> (va \<le> a \<and> a < va + len)" using in_cell [OF len] False by blast
    ultimately show ?thesis by (auto simp add: nth_list_update_neq)
  qed (use x in blast)
  then show ?thesis using tb_ok_update [OF ok(2) c] by (simp add: map_spec_def)
qed

lemma map_spec_trans:
  assumes "map_spec lvs bits access cachable tb va pa len tb1"
    and "map_spec lvs bits access cachable tb1 (va + len) (pa_at pa va (va + len)) n tb2"
    and "0 < n" "va mod 2 ^ bits + (len + n) \<le> 2 ^ bits"
  shows "map_spec lvs bits access cachable tb va pa (len + n) tb2"
proof -
  have "(va + len) div 2 ^ bits = va div 2 ^ bits" using mod_block [OF assms(4), of len] assms(3) by simp
  then show ?thesis using assms(1,2) by (auto simp: map_spec_def pa_at_pa_at)
qed

lemma mmu_set_map_xlate:
  assumes "mmu_set_map pa access cachable = Inr w" "unat pa < 2 ^ 32"
  shows "mmu_get_map_pa w = pa" "mmu_get_map_acc w = access" "mmu_get_map_cached w = cachable"
proof -
  have a: "pa AND 0xfff = 0" "access \<le> 7" "cachable \<le> 1" using assms(1) by (auto simp: mmu_set_map_def Mmu_acc_max_def)
  have w: "w = ucast ((drop_bit 4 pa AND 0xffffff00) OR push_bit 7 (of_nat cachable) OR push_bit 2 (of_nat access) OR 2)"
    using assms(1) by (auto simp: mmu_set_map_def)
  have "take_bit 32 pa = pa" using assms(2) by (simp add: word_unat_eq_iff unsigned_take_bit_eq take_bit_nat_eq_self)
  then show "mmu_get_map_pa w = pa" "mmu_get_map_acc w = access" "mmu_get_map_cached w = cachable"
    using mmu_word [OF a] w by simp_all
qed


lemma mod_block2: "(a::nat) mod 2 ^ b + n \<le> 2 ^ b \<Longrightarrow> x < n \<Longrightarrow> (a + x) mod 2 ^ b = a mod 2 ^ b + x"
  by (metis add_less_mono1 less_le_trans mod_add_left_eq mod_less nat_add_left_cancel_less)

lemma block_bound:
  assumes "(va::nat) < 2 ^ 32" "bits \<le> 32" "va mod 2 ^ bits + n \<le> 2 ^ bits"
  shows "va + n \<le> 2 ^ 32"
proof -
  have p: "(2::nat) ^ 32 = 2 ^ (32 - bits) * 2 ^ bits" using assms(2) by (simp add: power_add [symmetric])
  have "va div 2 ^ bits < 2 ^ (32 - bits)" using assms(1) unfolding p by (simp add: less_mult_imp_div_less)
  then have "(va div 2 ^ bits + 1) * 2 ^ bits \<le> 2 ^ (32 - bits) * 2 ^ bits" by (intro mult_right_mono) auto
  then show ?thesis using p div_mult_mod_eq [of va "2 ^ bits"] assms(3) by simp
qed

lemma va_add_step:
  assumes "va < 2 ^ 32" "bits \<le> 32" "va mod 2 ^ bits + n \<le> 2 ^ bits" "len < n"
  shows "va_add va len = va + len" "va + len < 2 ^ 32" "(va + len) mod 2 ^ bits + (n - len) \<le> 2 ^ bits"
  using block_bound [OF assms(1-3)] mod_block2 [OF assms(3,4)] assms(3,4) by (simp_all add: va_add_def)

text \<open>One iteration sets one cell, for a whole page or through the child table.\<close>

lemma map_loop_step:
  assumes "map_loop child_map (hi, low) lvs vaddr paddr access cachable over tb va rest = Inr tb'"
  obtains (zero) "rest = 0" | (whole) w where "va mod 2 ^ low = 0" "2 ^ low \<le> rest" "\<not> is_Dir (tb ! cell_index (hi, low) va)"
      "mmu_set_map (pa_at paddr vaddr va) access cachable = Inr w"
      "map_loop child_map (hi, low) lvs vaddr paddr access cachable over (tb[cell_index (hi, low) va := Pte w])
         (va_add va (2 ^ low)) (rest - 2 ^ low) = Inr tb'"
  | (part) t t' len where "len = min rest (2 ^ low - va mod 2 ^ low)"
      "tb ! cell_index (hi, low) va = Dir t \<or> tb ! cell_index (hi, low) va = Inv \<and> t = create_table lvs"
      "child_map t va (pa_at paddr vaddr va) len = Inr t'"
      "map_loop child_map (hi, low) lvs vaddr paddr access cachable over (tb[cell_index (hi, low) va := Dir t'])
         (va_add va len) (rest - len) = Inr tb'"
proof (cases "rest = 0")
  case True
  then show thesis using zero by simp
next
  case F: False
  show thesis
proof (cases "va mod 2 ^ low = 0 \<and> 2 ^ low \<le> rest")
  case True
  then show thesis using assms F whole
    by (subst (asm) map_loop.simps) (auto simp: Let_def split: if_splits)
next
  case False
  then show thesis using assms F part [OF refl]
    by (subst (asm) map_loop.simps) (auto simp: Let_def split: if_splits cell.splits)
qed
qed

lemma map_loop_0: "map_loop child_map lv lvs vaddr paddr access cachable over tb va 0 = Inr tb"
  by (simp add: map_loop.simps)

lemma map_spec_whole:
  assumes "low \<le> hi" "tb_ok ((hi, low) # lvs) tb" "va mod 2 ^ low = 0"
    and "mmu_set_map pa access cachable = Inr w" "unat pa < 2 ^ 32"
  shows "map_spec ((hi, low) # lvs) (hi + 1) access cachable tb va pa (2 ^ low) (tb[cell_index (hi, low) va := Pte w])"
proof (rule map_spec_cell [OF assms(1,2)])
  fix a assume a: "a div 2 ^ low = va div 2 ^ low"
  have va: "va = va div 2 ^ low * 2 ^ low" using div_mult_mod_eq [of va "2 ^ low"] assms(3) by simp
  have a': "a = va + a mod 2 ^ low" using div_mult_mod_eq [of a "2 ^ low"] a va by simp
  then have i: "va \<le> a" "a - va = a mod 2 ^ low" by simp_all
  moreover have "a mod 2 ^ low < 2 ^ low" by simp
  ultimately have "va \<le> a \<and> a < va + 2 ^ low" using a' by linarith
  moreover have "tb[cell_index (hi, low) va := Pte w] ! cell_index (hi, low) a = Pte w"
    using a assms(2) cell_index_less [of "(hi, low)" va] by (simp add: cell_index_def)
  ultimately show "xlate ((hi, low) # lvs) (tb[cell_index (hi, low) va := Pte w]) a
      = (if va \<le> a \<and> a < va + 2 ^ low then Some (pa_at pa va a, access, cachable) else xlate ((hi, low) # lvs) tb a)"
    using mmu_set_map_xlate [OF assms(4,5)] i by (simp add: pa_at_eq)
qed (use assms(3) in simp_all)

lemma map_spec_part:
  assumes "low \<le> hi" "tb_ok ((hi, low) # lvs) tb" "va mod 2 ^ low + len \<le> 2 ^ low"
    and "tb ! cell_index (hi, low) va = Dir t \<or> tb ! cell_index (hi, low) va = Inv \<and> t = create_table lvs" "lvs \<noteq> []"
    and "map_spec lvs low access cachable t va pa len t'"
  shows "map_spec ((hi, low) # lvs) (hi + 1) access cachable tb va pa len (tb[cell_index (hi, low) va := Dir t'])"
proof (rule map_spec_cell [OF assms(1-3)])
  fix a assume a: "a div 2 ^ low = va div 2 ^ low"
  then have ix: "cell_index (hi, low) a = cell_index (hi, low) va" by (simp add: cell_index_def)
  have "xlate ((hi, low) # lvs) tb a = xlate lvs t a" using assms(4) ix xlate_create [OF assms(5)] by auto
  moreover have "tb[cell_index (hi, low) va := Dir t'] ! cell_index (hi, low) a = Dir t'"
    using ix assms(2) cell_index_less [of "(hi, low)" va] by simp
  ultimately show "xlate ((hi, low) # lvs) (tb[cell_index (hi, low) va := Dir t']) a
      = (if va \<le> a \<and> a < va + len then Some (pa_at pa va a, access, cachable) else xlate ((hi, low) # lvs) tb a)"
    using assms(6) a by (simp add: map_spec_def)
qed (use assms(6) in \<open>simp add: map_spec_def\<close>)

lemma map_loop_sound:
  assumes lv: "hi + 1 = bits" "low \<le> hi" "bits \<le> 32"
    and child: "\<And>t v p len t'. (lvs \<noteq> [] \<Longrightarrow> tb_ok lvs t) \<Longrightarrow> v < 2 ^ 32 \<Longrightarrow> v mod 2 ^ low + len \<le> 2 ^ low \<Longrightarrow>
       unat p + len \<le> 2 ^ 32 \<Longrightarrow> child_map t v p len = Inr t' \<Longrightarrow> lvs \<noteq> [] \<and> map_spec lvs low access cachable t v p len t'"
    and "map_loop child_map (hi, low) lvs vaddr paddr access cachable over tb va rest = Inr tb'"
    and "tb_ok ((hi, low) # lvs) tb" "va < 2 ^ 32" "va mod 2 ^ bits + rest \<le> 2 ^ bits"
    and "vaddr \<le> va" "unat paddr + (va - vaddr) + rest \<le> 2 ^ 32"
  shows "map_spec ((hi, low) # lvs) bits access cachable tb va (pa_at paddr vaddr va) rest tb'"
  using assms(5-)
proof (induction rest arbitrary: tb va rule: less_induct)
  case (less rest)
  let ?pa = "pa_at paddr vaddr va" and ?ix = "cell_index (hi, low) va"
  show ?case
  proof (cases "rest = 0")
    case True
    then show ?thesis using less.prems(1,2) by (auto simp add: map_loop_0 map_spec_def)
  next
    case False
    have finish: "map_spec ((hi, low) # lvs) bits access cachable tb va ?pa rest tb'"
      if sp: "map_spec ((hi, low) # lvs) bits access cachable tb va ?pa len tb1" and len: "0 < len" "len \<le> rest"
        and lp: "map_loop child_map (hi, low) lvs vaddr paddr access cachable over tb1 (va_add va len) (rest - len) = Inr tb'"
      for len tb1
    proof (cases "len = rest")
      case True
      then show ?thesis using lp sp by (simp add: map_loop_0)
    next
      case False
      then have lt: "len < rest" using len by simp
      note st = va_add_step [OF less.prems(3) lv(3) less.prems(4) lt]
      have ok1: "tb_ok ((hi, low) # lvs) tb1" using sp by (simp add: map_spec_def)
      have b: "vaddr \<le> va + len" "unat paddr + (va + len - vaddr) + (rest - len) \<le> 2 ^ 32"
        using less.prems(5,6) len by auto
      have "rest - len < rest" using len lt by simp
      note I = less.IH [OF this lp [unfolded st(1)] ok1 st(2,3) b]
      have "map_spec ((hi, low) # lvs) bits access cachable tb va ?pa (len + (rest - len)) tb'"
        by (rule map_spec_trans [OF sp]) (use I lt less.prems(4) in \<open>simp_all add: pa_at_pa_at\<close>)
      then show ?thesis using lt by simp
    qed
    have pa: "unat ?pa = unat paddr + (va - vaddr)"
      using less.prems(5,6) by (intro unat_pa_at) auto
    from less.prems(1) show ?thesis
    proof (cases rule: map_loop_step)
      case zero
      then show ?thesis using False by simp
    next
      case (whole w)
      have "unat ?pa < 2 ^ 32" using pa less.prems(6) False by linarith
      then have "map_spec ((hi, low) # lvs) bits access cachable tb va ?pa (2 ^ low) (tb[?ix := Pte w])"
        using map_spec_whole [OF lv(2) less.prems(2) whole(1,4)] lv(1) by simp
      then show ?thesis by (rule finish [OF _ _ whole(2,5)]) simp
    next
      case (part t t' len)
      have mod_lt: "va mod 2 ^ low < 2 ^ low" by simp
      have "len \<le> 2 ^ low - va mod 2 ^ low" using part(1) by simp
      then have l: "va mod 2 ^ low + len \<le> 2 ^ low" "len \<le> rest" "0 < len"
        using part(1) False mod_lt by linarith+
      have okt: "lvs \<noteq> [] \<Longrightarrow> tb_ok lvs t" using part(2) tb_ok_child [OF less.prems(2)] tb_ok_create by blast
      have "unat ?pa + len \<le> 2 ^ 32" using pa less.prems(6) l(2) by linarith
      from child [OF okt less.prems(3) l(1) this part(3)]
      have "map_spec ((hi, low) # lvs) bits access cachable tb va ?pa len (tb[?ix := Dir t'])"
        using map_spec_part [OF lv(2) less.prems(2) l(1) part(2)] lv(1) by simp
      then show ?thesis by (rule finish [OF _ l(3,2) part(4)])
    qed
  qed
qed

lemma pt_map_sound:
  assumes "lvs_ok bits lvs" "bits \<le> 32" "lvs \<noteq> [] \<Longrightarrow> tb_ok lvs tb" "va < 2 ^ 32" "va mod 2 ^ bits + len \<le> 2 ^ bits"
    "unat pa + len \<le> 2 ^ 32" "pt_map lvs access cachable over tb va pa len = Inr tb'"
  shows "lvs \<noteq> [] \<and> map_spec lvs bits access cachable tb va pa len tb'"
  using assms
proof (induction lvs arbitrary: bits tb va pa len tb')
  case (Cons lv lvs)
  obtain hi low where lv: "lv = (hi, low)" by (cases lv)
  have o: "hi + 1 = bits" "low \<le> hi" "lvs_ok low lvs" "low \<le> 32" using Cons.prems(1,2) lv by auto
  have lp: "map_loop (pt_map lvs access cachable over) (hi, low) lvs va pa access cachable over tb va len = Inr tb'"
    using Cons.prems(7) lv by simp
  have ok: "tb_ok ((hi, low) # lvs) tb" using Cons.prems(3) lv by simp
  have b: "unat pa + (va - va) + len \<le> 2 ^ 32" using Cons.prems(6) by simp
  have "map_spec ((hi, low) # lvs) bits access cachable tb va (pa_at pa va va) len tb'"
    by (rule map_loop_sound [OF o(1,2) Cons.prems(2) Cons.IH [OF o(3,4)] lp ok Cons.prems(4,5) order_refl b])
  then show ?case using lv by (simp add: pa_at_def)
qed simp

text \<open>
  A clash of page sizes on a range: a cell the range covers wholly is a directory, or a cell it
  covers in part is a map cell, here or in a table below.
\<close>

definition cell_start :: "nat \<Rightarrow> nat \<Rightarrow> nat" where "cell_start low a = a div 2 ^ low * 2 ^ low"

fun clash :: "level list \<Rightarrow> cell list \<Rightarrow> nat \<Rightarrow> nat \<Rightarrow> bool" where
  "clash [] tb va len = False"
| "clash (lv # lvs) tb va len =
     (\<exists>a\<in>{va..<va + len}.
        let ps = 2 ^ snd lv; s = cell_start (snd lv) a; cell = tb ! cell_index lv a in
        if va \<le> s \<and> s + ps \<le> va + len then is_Dir cell
        else is_Pte cell \<or> (case cell of Dir t \<Rightarrow> clash lvs t (max va s) (min (va + len) (s + ps) - max va s) | _ \<Rightarrow> False))"

lemma clash_create: "\<not> clash lvs (create_table lvs) va len"
  using cell_index_less by (cases lvs) (auto simp: Let_def split: cell.splits)

declare clash.simps(2) [simp del]

lemma cell_start_in: "cell_start low a \<le> a" "a < cell_start low a + 2 ^ low" "cell_start low a = a - a mod 2 ^ low"
proof -
  have e: "cell_start low a + a mod 2 ^ low = a" unfolding cell_start_def by (rule div_mult_mod_eq)
  moreover have "a mod 2 ^ low < 2 ^ low" by simp
  ultimately show "cell_start low a \<le> a" "a < cell_start low a + 2 ^ low" "cell_start low a = a - a mod 2 ^ low"
    by linarith+
qed

lemma clash_rest:
  assumes nc: "\<not> clash ((hi, low) # lvs) tb va rest" and lv: "low \<le> hi" "va mod 2 ^ (hi + 1) + rest \<le> 2 ^ (hi + 1)"
    and len: "len = 2 ^ low - va mod 2 ^ low" "len < rest"
  shows "\<not> clash ((hi, low) # lvs) (tb[cell_index (hi, low) va := c]) (va + len) (rest - len)"
proof -
  have md: "va mod 2 ^ low < 2 ^ low" by simp
  have va: "va = va div 2 ^ low * 2 ^ low + va mod 2 ^ low" by (rule div_mult_mod_eq [symmetric])
  have nxt: "va + len = (va div 2 ^ low + 1) * 2 ^ low" using len(1) va md by simp
  have ge: "va + len \<le> cell_start low a" if "va + len \<le> a" for a
  proof -
    have "va div 2 ^ low + 1 \<le> a div 2 ^ low" using that nxt by (metis div_le_mono nonzero_mult_div_cancel_right power_not_zero zero_neq_numeral)
    then show ?thesis unfolding nxt cell_start_def by (rule mult_right_mono) simp
  qed
  have same: "(tb[cell_index (hi, low) va := c]) ! cell_index (hi, low) a = tb ! cell_index (hi, low) a"
    if a: "va + len \<le> a" "a < va + rest" for a
  proof -
    have "a div 2 ^ (hi + 1) = va div 2 ^ (hi + 1)" using mod_block [OF lv(2), of "a - va"] a by simp
    moreover have "a div 2 ^ low \<noteq> va div 2 ^ low" using ge [OF a(1)] nxt by (auto simp: cell_start_def)
    ultimately show ?thesis using cell_index_eq [OF lv(1)] by (simp add: nth_list_update_neq)
  qed
  have e: "va + len + (rest - len) = va + rest" using len(2) by simp
  show ?thesis
  proof
    assume "clash ((hi, low) # lvs) (tb[cell_index (hi, low) va := c]) (va + len) (rest - len)"
    from this [unfolded clash.simps Let_def snd_conv e] obtain a where a: "va + len \<le> a" "a < va + rest" and
      cl: "if va + len \<le> cell_start low a \<and> cell_start low a + 2 ^ low \<le> va + rest then is_Dir (tb ! cell_index (hi, low) a)
        else is_Pte (tb ! cell_index (hi, low) a) \<or> (case tb ! cell_index (hi, low) a of
          Dir t \<Rightarrow> clash lvs t (max (va + len) (cell_start low a))
            (min (va + rest) (cell_start low a + 2 ^ low) - max (va + len) (cell_start low a)) | _ \<Rightarrow> False)"
      using same by (auto split: if_splits)
    have m: "max (va + len) (cell_start low a) = cell_start low a" "max va (cell_start low a) = cell_start low a"
      "va \<le> cell_start low a" using ge [OF a(1)] by simp_all
    have "a \<in> {va..<va + rest}" using a by simp
    with nc [unfolded clash.simps Let_def snd_conv] have
      "\<not> (if va \<le> cell_start low a \<and> cell_start low a + 2 ^ low \<le> va + rest then is_Dir (tb ! cell_index (hi, low) a)
        else is_Pte (tb ! cell_index (hi, low) a) \<or> (case tb ! cell_index (hi, low) a of
          Dir t \<Rightarrow> clash lvs t (max va (cell_start low a))
            (min (va + rest) (cell_start low a + 2 ^ low) - max va (cell_start low a)) | _ \<Rightarrow> False))" by blast
    then show False using cl ge [OF a(1)] m(3) unfolding m(1,2) by (simp split: if_splits)
  qed
qed

lemma clash_first:
  assumes "\<not> clash ((hi, low) # lvs) tb va rest" "0 < rest"
  shows "va mod 2 ^ low = 0 \<Longrightarrow> 2 ^ low \<le> rest \<Longrightarrow> \<not> is_Dir (tb ! cell_index (hi, low) va)"
    and "\<not> (va mod 2 ^ low = 0 \<and> 2 ^ low \<le> rest) \<Longrightarrow> \<not> is_Pte (tb ! cell_index (hi, low) va)"
    and "\<not> (va mod 2 ^ low = 0 \<and> 2 ^ low \<le> rest) \<Longrightarrow> tb ! cell_index (hi, low) va = Dir t \<Longrightarrow>
      \<not> clash lvs t va (min rest (2 ^ low - va mod 2 ^ low))"
proof -
  have "va \<in> {va..<va + rest}" using assms(2) by simp
  with assms(1) [unfolded clash.simps Let_def snd_conv] have n:
    "\<not> (if va \<le> cell_start low va \<and> cell_start low va + 2 ^ low \<le> va + rest then is_Dir (tb ! cell_index (hi, low) va)
      else is_Pte (tb ! cell_index (hi, low) va) \<or> (case tb ! cell_index (hi, low) va of
        Dir t \<Rightarrow> clash lvs t (max va (cell_start low va))
          (min (va + rest) (cell_start low va + 2 ^ low) - max va (cell_start low va)) | _ \<Rightarrow> False))" by blast
  have c: "va \<le> cell_start low va \<longleftrightarrow> va mod 2 ^ low = 0" using cell_start_in [of low va] mod_less_eq_dividend [of va "2 ^ low"] by linarith
  have m: "max va (cell_start low va) = va" using cell_start_in(1) by simp
  have l: "min (va + rest) (cell_start low va + 2 ^ low) - va = min rest (2 ^ low - va mod 2 ^ low)"
    using cell_start_in [of low va] mod_less_eq_dividend [of va "2 ^ low"] by (auto simp: min_def)
  show "va mod 2 ^ low = 0 \<Longrightarrow> 2 ^ low \<le> rest \<Longrightarrow> \<not> is_Dir (tb ! cell_index (hi, low) va)"
    using n c cell_start_in(3) [of low va] by (simp split: if_splits)
  assume f: "\<not> (va mod 2 ^ low = 0 \<and> 2 ^ low \<le> rest)"
  then have f': "\<not> (va \<le> cell_start low va \<and> cell_start low va + 2 ^ low \<le> va + rest)"
    using c cell_start_in(3) [of low va] by auto
  show "\<not> is_Pte (tb ! cell_index (hi, low) va)" using n f' by (simp split: if_splits)
  show "\<not> clash lvs t va (min rest (2 ^ low - va mod 2 ^ low))" if "tb ! cell_index (hi, low) va = Dir t"
    using n f' that unfolding m l by (simp split: if_splits)
qed

lemma pa_aligned_iff: "(p::u64) AND 0xfff = 0 \<longleftrightarrow> unat p mod 0x1000 = 0"
proof -
  have "p AND 0xfff = take_bit 12 p" by (simp add: mmu_masks(1) take_bit_eq_mask)
  moreover have "unat (take_bit 12 p) = take_bit 12 (unat p)" by (rule unsigned_take_bit_eq)
  then have "unat (take_bit 12 p) = unat p mod 0x1000" by (simp only: take_bit_eq_mod) simp
  ultimately show ?thesis by (metis unat_eq_zero)
qed

lemma page_mod: "12 \<le> low \<Longrightarrow> (2 ^ low :: nat) mod 0x1000 = 0"
  using le_imp_power_dvd [of 12 low "2::nat"] by (simp add: dvd_eq_mod_eq_0)

lemma pg_aligned_mod: "12 \<le> low \<Longrightarrow> pg_aligned n \<Longrightarrow> pg_aligned (n mod 2 ^ low)"
  using le_imp_power_dvd [of 12 low "2::nat"] by (simp add: pg_aligned_def Cfg_page_sz_def mod_mod_cancel)

lemma pg_aligned_arith:
  "pg_aligned m \<Longrightarrow> pg_aligned n \<Longrightarrow> pg_aligned (m + n)" "pg_aligned m \<Longrightarrow> pg_aligned n \<Longrightarrow> pg_aligned (m - n)"
  "pg_aligned m \<Longrightarrow> pg_aligned n \<Longrightarrow> pg_aligned (min m n)" "12 \<le> low \<Longrightarrow> pg_aligned (2 ^ low)"
  by (auto simp: pg_aligned_def Cfg_page_sz_def page_mod min_def mod_eq_0_iff_dvd dvd_diff_nat)

lemma map_loop_total:
  assumes lv: "hi + 1 = bits" "low \<le> hi" "bits \<le> 32" "12 \<le> low" "lvs = [] \<Longrightarrow> low = 12"
    and child: "\<And>t v p len. lvs \<noteq> [] \<Longrightarrow> v < 2 ^ 32 \<Longrightarrow> v mod 2 ^ low + len \<le> 2 ^ low \<Longrightarrow> unat p + len \<le> 2 ^ 32 \<Longrightarrow>
       pg_aligned v \<Longrightarrow> pg_aligned (unat p) \<Longrightarrow> pg_aligned len \<Longrightarrow> \<not> clash lvs t v len \<Longrightarrow> \<exists>t'. child_map t v p len = Inr t'"
    and "va < 2 ^ 32" "va mod 2 ^ bits + rest \<le> 2 ^ bits" "vaddr \<le> va" "unat paddr + (va - vaddr) + rest \<le> 2 ^ 32"
    and "pg_aligned va" "pg_aligned rest" "pg_aligned (unat paddr + (va - vaddr))" "\<not> clash ((hi, low) # lvs) tb va rest"
    and ac: "access \<le> 7" "cachable \<le> 1"
  shows "\<exists>tb'. map_loop child_map (hi, low) lvs vaddr paddr access cachable True tb va rest = Inr tb'"
  using assms(7-14)
proof (induction rest arbitrary: tb va rule: less_induct)
  case (less rest)
  let ?pa = "pa_at paddr vaddr va" and ?ix = "cell_index (hi, low) va"
  let ?L = "map_loop child_map (hi, low) lvs vaddr paddr access cachable True"
  show ?case
  proof (cases "rest = 0")
    case False
    have pa: "unat ?pa = unat paddr + (va - vaddr)" using less.prems(3,4) by (intro unat_pa_at) auto
    have rec: "\<exists>tb'. ?L (tb[?ix := c]) (va_add va len) (rest - len) = Inr tb'"
      if len: "0 < len" "len \<le> rest" "len < rest \<longrightarrow> len = 2 ^ low - va mod 2 ^ low" "pg_aligned len" for len c
    proof (cases "len = rest")
      case False
      then have lt: "len < rest" "len = 2 ^ low - va mod 2 ^ low" using len by simp_all
      note st = va_add_step [OF less.prems(1) lv(3) less.prems(2) lt(1)]
      have nc: "\<not> clash ((hi, low) # lvs) (tb[?ix := c]) (va + len) (rest - len)"
        by (rule clash_rest [OF less.prems(8) lv(2) less.prems(2) [folded lv(1)] lt(2,1)])
      have e: "unat paddr + (va + len - vaddr) = unat paddr + (va - vaddr) + len" using less.prems(3) by simp
      have ar: "rest - len < rest" "vaddr \<le> va + len" "unat paddr + (va + len - vaddr) + (rest - len) \<le> 2 ^ 32"
        using len(1,2) less.prems(3,4) e by simp_all
      have al: "pg_aligned (va + len)" "pg_aligned (rest - len)" "pg_aligned (unat paddr + (va + len - vaddr))"
        unfolding e using less.prems(5-7) len(4) by (auto intro: pg_aligned_arith)
      show ?thesis unfolding st(1) by (rule less.IH [OF ar(1) st(2,3) ar(2,3) al nc])
    qed (simp add: map_loop_0)
    have pgva: "pg_aligned (va mod 2 ^ low)" "pg_aligned (2 ^ low)"
      using pg_aligned_mod [OF lv(4) less.prems(5)] pg_aligned_arith(4) [OF lv(4)] by simp_all
    show ?thesis
    proof (cases "va mod 2 ^ low = 0 \<and> 2 ^ low \<le> rest")
      case True
      have "\<not> is_Dir (tb ! ?ix)" using clash_first(1) [OF less.prems(8)] False True by simp
      moreover obtain w where "mmu_set_map ?pa access cachable = Inr w"
        using ac less.prems(7) pa by (auto simp: mmu_set_map_def Mmu_acc_max_def pa_aligned_iff pg_aligned_def Cfg_page_sz_def)
      moreover obtain tb' where "?L (tb[?ix := Pte w]) (va_add va (2 ^ low)) (rest - 2 ^ low) = Inr tb'"
        using rec [of "2 ^ low" "Pte w"] True pgva(2) by auto
      ultimately show ?thesis using True False by (subst map_loop.simps) (simp add: Let_def)
    next
      case part: False
      let ?len = "min rest (2 ^ low - va mod 2 ^ low)"
      have mod_lt: "va mod 2 ^ low < 2 ^ low" by simp
      have ne: "lvs \<noteq> []"
      proof
        assume "lvs = []"
        then have "low = 12" using lv(5) by simp
        moreover have "rest \<ge> 0x1000" using less.prems(6) False by (auto simp: pg_aligned_def Cfg_page_sz_def)
        ultimately show False using part less.prems(5) by (simp add: pg_aligned_def Cfg_page_sz_def)
      qed
      have "?len \<le> 2 ^ low - va mod 2 ^ low" by simp
      then have "va mod 2 ^ low + ?len \<le> 2 ^ low" using mod_lt by linarith
      then have l: "0 < ?len" "?len \<le> rest" "va mod 2 ^ low + ?len \<le> 2 ^ low" "pg_aligned ?len" "?len < rest \<longrightarrow> ?len = 2 ^ low - va mod 2 ^ low"
        using False mod_lt less.prems(6) pgva by (auto intro: pg_aligned_arith)
      note cf = clash_first(2,3) [OF less.prems(8)]
      obtain t where t: "(case tb ! ?ix of Inv \<Rightarrow> Inr (create_table lvs) | Dir t \<Rightarrow> Inr t | Pte _ \<Rightarrow> Inl Panic) = Inr t"
        and nc: "\<not> clash lvs t va ?len"
        using cf [OF _ part] False clash_create by (cases "tb ! ?ix") auto
      have "unat ?pa + ?len \<le> 2 ^ 32" "pg_aligned (unat ?pa)" using pa less.prems(4,7) l(2) by simp_all
      then obtain t' where t': "child_map t va ?pa ?len = Inr t'"
        using child [OF ne less.prems(1) l(3) _ less.prems(5) _ l(4) nc] by blast
      obtain tb' where "?L (tb[?ix := Dir t']) (va_add va ?len) (rest - ?len) = Inr tb'"
        using rec [OF l(1,2,5,4)] by blast
      then show ?thesis using part False t t' by (subst map_loop.simps) (auto simp add: Let_def)
    qed
  qed (simp add: map_loop_0)
qed

lemma pt_map_total:
  assumes "lvs_ok bits lvs" "bits \<le> 32" "lvs \<noteq> []" "va < 2 ^ 32" "va mod 2 ^ bits + len \<le> 2 ^ bits"
    "unat pa + len \<le> 2 ^ 32" "pg_aligned va" "pg_aligned (unat pa)" "pg_aligned len" "\<not> clash lvs tb va len"
    and ac: "access \<le> 7" "cachable \<le> 1"
  shows "\<exists>tb'. pt_map lvs access cachable True tb va pa len = Inr tb'"
  using assms(1-10)
proof (induction lvs arbitrary: bits tb va pa len)
  case (Cons lv lvs)
  obtain hi low where lv: "lv = (hi, low)" by (cases lv)
  have o: "hi + 1 = bits" "low \<le> hi" "lvs_ok low lvs" "low \<le> 32" "12 \<le> low" using Cons.prems(1,2) lv by auto
  have e: "lvs = [] \<Longrightarrow> low = 12" using o(3) by auto
  have ex: "\<exists>tb'. map_loop (pt_map lvs access cachable True) (hi, low) lvs va pa access cachable True tb va len = Inr tb'"
    by (rule map_loop_total [OF o(1,2) Cons.prems(2) o(5) e Cons.IH [OF o(3,4)]])
       (use Cons.prems lv ac in simp_all)
  have "len \<le> 2 ^ (hi + 1)" using Cons.prems(5) o(1) by auto
  moreover have "pa AND 0xfff = 0" using Cons.prems(8) by (simp add: pa_aligned_iff pg_aligned_def Cfg_page_sz_def)
  ultimately show ?case using ex Cons.prems(7,9) ac lv by simp
qed simp

lemma Sparc_levels_ok: "lvs_ok 32 Sparc_levels" "Sparc_levels \<noteq> []"
  by (simp_all add: Sparc_levels_def)

text \<open>
  C16. Mapping a range of pages in a well-formed three-level page table: unless the range clashes
  with pages of another size, \<open>map\<close> returns, and afterwards every address of the range is
  translated to its place in the physical range with the access and cache attribute asked for,
  while every other address keeps its translation. It fails only on such a clash.
\<close>

theorem page_map:
  assumes ok: "tb_ok Sparc_levels tb" and al: "pg_aligned va" "pg_aligned (unat pa)" "pg_aligned len"
    and b: "va < 2 ^ 32" "va + len \<le> 2 ^ 32" "unat pa + len \<le> 2 ^ 32" and ac: "access \<le> 7" "cachable \<le> 1"
  shows "case pt_map Sparc_levels access cachable True tb va pa len of
      Inr tb' \<Rightarrow> tb_ok Sparc_levels tb'
        \<and> (\<forall>a<2 ^ 32. xlate Sparc_levels tb' a =
             (if va \<le> a \<and> a < va + len then Some (pa + of_nat (a - va), access, cachable) else xlate Sparc_levels tb a))
    | Inl e \<Rightarrow> clash Sparc_levels tb va len"
proof (cases "pt_map Sparc_levels access cachable True tb va pa len")
  case (Inl e)
  have "va mod 2 ^ 32 + len \<le> 2 ^ 32" using b by simp
  then show ?thesis
    using pt_map_total [OF Sparc_levels_ok(1) _ Sparc_levels_ok(2) b(1) _ b(3) al, of tb access cachable] ac Inl by auto
next
  case (Inr tb')
  have "va mod 2 ^ 32 + len \<le> 2 ^ 32" using b by simp
  from pt_map_sound [OF Sparc_levels_ok(1) _ ok b(1) this b(3) Inr]
  have "map_spec Sparc_levels 32 access cachable tb va pa len tb'" by simp
  then show ?thesis using Inr b(1) by (auto simp: map_spec_def pa_at_eq)
qed


section \<open>Walking\<close>

definition mapped :: "level list \<Rightarrow> cell list \<Rightarrow> nat \<Rightarrow> nat \<Rightarrow> bool" where
  "mapped lvs tb va len = (\<forall>a\<in>{va..<va + len}. xlate lvs tb a \<noteq> None)"

definition pa_of :: "level list \<Rightarrow> cell list \<Rightarrow> nat \<Rightarrow> u64" where
  "pa_of lvs tb a = (case xlate lvs tb a of Some (pa, _) \<Rightarrow> pa | None \<Rightarrow> 0)"

definition no_null :: "level list \<Rightarrow> cell list \<Rightarrow> nat \<Rightarrow> nat \<Rightarrow> bool" where
  "no_null lvs tb va len = (\<forall>a\<in>{va..<va + len}. xlate lvs tb a \<noteq> None \<longrightarrow> pa_of lvs tb a \<noteq> 0)"

lemma mapped_split: "n \<le> len \<Longrightarrow> mapped lvs tb va len \<longleftrightarrow> mapped lvs tb va n \<and> mapped lvs tb (va + n) (len - n)"
proof -
  assume "n \<le> len"
  then have "{va..<va + len} = {va..<va + n} \<union> {va + n..<va + n + (len - n)}" by auto
  then show ?thesis by (simp only: mapped_def ball_Un)
qed

lemma cell_xlate:
  assumes "va mod 2 ^ low + len \<le> 2 ^ low" "a \<in> {va..<va + len}"
  shows "cell_index (hi, low) a = cell_index (hi, low) va"
proof -
  have "a div 2 ^ low = va div 2 ^ low" using assms(2) by (intro in_cell [OF assms(1)]) auto
  then show ?thesis by (simp add: cell_index_def)
qed

lemma walk_loop_spec:
  assumes lv: "hi + 1 = bits" "low \<le> hi" "bits \<le> 32" "12 \<le> low" and ok: "tb_ok ((hi, low) # lvs) tb"
    and child: "\<And>t v len. tb_ok lvs t \<Longrightarrow> v < 2 ^ 32 \<Longrightarrow> v mod 2 ^ low + len \<le> 2 ^ low \<Longrightarrow> 0 < len \<Longrightarrow>
       pg_aligned v \<Longrightarrow> pg_aligned len \<Longrightarrow> no_null lvs t v len \<Longrightarrow>
       child_walk t v len = Inr (if mapped lvs t v len then pa_of lvs t v else 0)"
    and "va < 2 ^ 32" "va mod 2 ^ bits + rest \<le> 2 ^ bits" "pg_aligned va" "pg_aligned rest" "0 < rest"
    and "no_null ((hi, low) # lvs) tb va rest"
  shows "walk_loop child_walk (hi, low) tb va rest pa =
    Inr (if mapped ((hi, low) # lvs) tb va rest then (if pa = 0 then pa_of ((hi, low) # lvs) tb va else pa) else 0)"
  using assms(7-)
proof (induction rest arbitrary: va pa rule: less_induct)
  case (less rest)
  let ?T = "(hi, low) # lvs" and ?c = "tb ! cell_index (hi, low) va"
  define len where len: "len = min rest (2 ^ low - va mod 2 ^ low)"
  have mod_lt: "va mod 2 ^ low < 2 ^ low" by simp
  have "len \<le> 2 ^ low - va mod 2 ^ low" by (simp add: len)
  then have lm: "va mod 2 ^ low + len \<le> 2 ^ low" using mod_lt by linarith
  have "pg_aligned (va mod 2 ^ low)" "pg_aligned (2 ^ low)"
    using pg_aligned_mod [OF lv(4) less.prems(3)] pg_aligned_arith(4) [OF lv(4)] by simp_all
  then have l: "0 < len" "len \<le> rest" "pg_aligned len"
    using less.prems(4,5) mod_lt by (auto simp: len intro: pg_aligned_arith)
  have ix: "cell_index (hi, low) a = cell_index (hi, low) va" if "a \<in> {va..<va + len}" for a
    using cell_xlate [OF lm that] .
  have nn: "no_null ?T tb va len" "no_null ?T tb (va + len) (rest - len)"
    using less.prems(6) l by (auto simp: no_null_def)
  have sp: "mapped ?T tb va rest \<longleftrightarrow> mapped ?T tb va len \<and> mapped ?T tb (va + len) (rest - len)"
    by (rule mapped_split [OF l(2)])
  have nz: "pa_of ?T tb va \<noteq> 0" if "mapped ?T tb va len"
    using nn(1) that l(1) by (auto simp: no_null_def mapped_def)
  have rec: "walk_loop child_walk (hi, low) tb (va_add va len) (rest - len) q =
      Inr (if mapped ?T tb (va + len) (rest - len) then q else 0)" if q: "q \<noteq> 0" for q
  proof (cases "len = rest")
    case True
    then show ?thesis by (subst walk_loop.simps) (simp add: mapped_def)
  next
    case False
    then have lt: "len < rest" using l(2) by linarith
    note st = va_add_step [OF less.prems(1) lv(3) less.prems(2) lt]
    have "rest - len < rest" using l lt by linarith
    moreover have "pg_aligned (va + len)" "pg_aligned (rest - len)" "0 < rest - len"
      using less.prems(3,4) l(3) lt by (auto intro!: pg_aligned_arith)
    ultimately show ?thesis unfolding st(1) using less.IH [OF _ st(2,3) _ _ _ nn(2), of q] q by (simp only: if_False)
  qed
  show ?case
  proof (cases ?c)
    case Inv
    then have "xlate ?T tb va = None" by simp
    then have "\<not> mapped ?T tb va rest" using less.prems(5) unfolding mapped_def by (intro notI) (drule bspec [of _ _ va], simp_all)
    then show ?thesis using Inv less.prems(5) by (subst walk_loop.simps) (simp add: Let_def)
  next
    case (Pte w)
    have "xlate ?T tb a \<noteq> None" if "a \<in> {va..<va + len}" for a using ix [OF that] Pte by simp
    then have m: "mapped ?T tb va len" by (simp only: mapped_def) blast
    have p: "pa_of ?T tb va = mmu_get_map_pa w + of_nat (va mod 2 ^ low)" using Pte by (simp add: pa_of_def)
    show ?thesis using rec [of "if pa = 0 then pa_of ?T tb va else pa"] nz [OF m] m sp Pte less.prems(5) p
      by (subst walk_loop.simps) (auto simp: Let_def len [symmetric])
  next
    case (Dir t)
    have x: "xlate ?T tb a = xlate lvs t a" if "a \<in> {va..<va + len}" for a using ix [OF that] Dir by simp
    have va: "va \<in> {va..<va + len}" using l(1) by simp
    have m: "mapped lvs t va len = mapped ?T tb va len" "pa_of lvs t va = pa_of ?T tb va" "no_null lvs t va len"
      using x x [OF va] nn(1) by (simp_all del: xlate_simps add: mapped_def pa_of_def no_null_def)
    have cw: "child_walk t va len = Inr (if mapped ?T tb va len then pa_of ?T tb va else 0)"
      using child [OF tb_ok_child [OF ok Dir] less.prems(1) lm l(1) less.prems(3) l(3) m(3)] m(1,2) by simp
    show ?thesis using rec [of "if pa = 0 then pa_of ?T tb va else pa"] nz sp Dir less.prems(5) cw
      by (subst walk_loop.simps) (auto simp: Let_def len [symmetric])
  qed
qed

lemma pt_walk_spec:
  assumes "lvs_ok bits lvs" "bits \<le> 32" "tb_ok lvs tb" "va < 2 ^ 32" "va mod 2 ^ bits + len \<le> 2 ^ bits" "0 < len"
    "pg_aligned va" "pg_aligned len" "no_null lvs tb va len"
  shows "pt_walk lvs tb va len = Inr (if mapped lvs tb va len then pa_of lvs tb va else 0)"
  using assms
proof (induction lvs arbitrary: bits tb va len)
  case (Cons lv lvs)
  obtain hi low where lv: "lv = (hi, low)" by (cases lv)
  have o: "hi + 1 = bits" "low \<le> hi" "lvs_ok low lvs" "low \<le> 32" "12 \<le> low" using Cons.prems(1,2) lv by auto
  note W = walk_loop_spec [OF o(1,2) Cons.prems(2) o(5) Cons.prems(3) [unfolded lv] Cons.IH [OF o(3,4)]
      Cons.prems(4,5,7,8,6) Cons.prems(9) [unfolded lv]]
  have "len \<le> 2 ^ (hi + 1)" using Cons.prems(5) o(1) by auto
  then have "pt_walk ((hi, low) # lvs) tb va len = walk_loop (pt_walk lvs) (hi, low) tb va len 0"
    using Cons.prems(7,8) by simp
  then show ?case unfolding lv using W [of 0] by (simp only: if_True simp_thms)
qed simp

text \<open>
  C17. Walking a page table: for a range whose translations have no physical address 0, the walk
  always returns; it gives the physical address of the first byte when every byte of the range is
  mapped and 0 otherwise.
\<close>

theorem page_walk:
  assumes "tb_ok Sparc_levels tb" "pg_aligned va" "pg_aligned len" "va < 2 ^ 32" "va + len \<le> 2 ^ 32" "0 < len"
    and "no_null Sparc_levels tb va len"
  shows "pt_walk Sparc_levels tb va len = Inr (if mapped Sparc_levels tb va len then pa_of Sparc_levels tb va else 0)"
  using assms by (intro pt_walk_spec [OF Sparc_levels_ok(1)]) auto

section \<open>Unmapping\<close>

fun big_page :: "level list \<Rightarrow> cell list \<Rightarrow> nat \<Rightarrow> bool" where
  "big_page [] tb va = False"
| "big_page (lv # lvs) tb va =
     (case tb ! cell_index lv va of Inv \<Rightarrow> False | Pte _ \<Rightarrow> snd lv > 12 | Dir t \<Rightarrow> big_page lvs t va)"

definition unmap_spec :: "level list \<Rightarrow> nat \<Rightarrow> cell list \<Rightarrow> nat \<Rightarrow> cell list \<Rightarrow> bool" where
  "unmap_spec lvs bits tb va tb' \<longleftrightarrow> tb_ok lvs tb'
     \<and> (\<forall>a. a div 2 ^ bits = va div 2 ^ bits \<longrightarrow>
          xlate lvs tb' a = (if va \<le> a \<and> a < va + 0x1000 then None else xlate lvs tb a))"

lemma unmap_loop_0: "unmap_loop child_unmap lv tb va 0 = Inr tb"
  by (simp add: unmap_loop.simps)

lemma page_in_cell:
  assumes "12 \<le> low" "pg_aligned va"
  shows "va mod 2 ^ low + 0x1000 \<le> 2 ^ low"
proof -
  have d: "0x1000 dvd va mod 2 ^ low" "0x1000 dvd (2::nat) ^ low"
    using pg_aligned_mod [OF assms] pg_aligned_arith(4) [OF assms(1)]
    by (simp_all add: pg_aligned_def Cfg_page_sz_def mod_eq_0_iff_dvd)
  have lt: "va mod 2 ^ low < 2 ^ low" by simp
  have "0x1000 dvd 2 ^ low - va mod 2 ^ low" using d by (rule dvd_diff_nat [rotated])
  moreover have "0 < 2 ^ low - va mod 2 ^ low" using lt by simp
  ultimately have "0x1000 \<le> 2 ^ low - va mod 2 ^ low" by (rule dvd_imp_le)
  then show ?thesis using lt by linarith
qed

lemma pt_unmap_page:
  assumes "lvs_ok bits lvs" "tb_ok lvs tb" "pg_aligned va"
  shows "case pt_unmap lvs tb va 0x1000 of Inr tb' \<Rightarrow> unmap_spec lvs bits tb va tb' | Inl e \<Rightarrow> big_page lvs tb va"
  using assms
proof (induction lvs arbitrary: bits tb)
  case (Cons lv lvs)
  obtain hi low where lv: "lv = (hi, low)" by (cases lv)
  let ?T = "(hi, low) # lvs" and ?ix = "cell_index (hi, low) va"
  have o: "hi + 1 = bits" "low \<le> hi" "lvs_ok low lvs" "12 \<le> low" using Cons.prems(1) lv by auto
  have ok: "tb_ok ?T tb" using Cons.prems(2) lv by simp
  have pc: "va mod 2 ^ low + 0x1000 \<le> 2 ^ low" by (rule page_in_cell [OF o(4) Cons.prems(3)])
  have "(2::nat) ^ 12 \<le> 2 ^ low" "(2::nat) ^ 12 \<le> 2 ^ (hi + 1)" using o(2,4) by (intro power_increasing; simp)+
  then have sz: "(0x1000::nat) \<le> 2 ^ low" "(0x1000::nat) \<le> 2 ^ (hi + 1)" by simp_all
  have as: "pt_unmap ?T tb va 0x1000 = unmap_loop (pt_unmap lvs) (hi, low) tb va 0x1000"
    using Cons.prems(3) sz(2) by (simp add: pg_aligned_def Cfg_page_sz_def)
  have set: "unmap_spec ?T bits tb va (tb[?ix := c])"
    if "\<And>t. c = Dir t \<Longrightarrow> tb_ok lvs t"
      "\<And>a. a div 2 ^ low = va div 2 ^ low \<Longrightarrow> xlate ?T (tb[?ix := c]) a = (if va \<le> a \<and> a < va + 0x1000 then None else xlate ?T tb a)"
    for c
  proof -
    have "xlate ?T (tb[?ix := c]) a = (if va \<le> a \<and> a < va + 0x1000 then None else xlate ?T tb a)"
      if b: "a div 2 ^ bits = va div 2 ^ bits" for a
    proof (cases "a div 2 ^ low = va div 2 ^ low")
      case False
      then have "?ix \<noteq> cell_index (hi, low) a" using cell_index_eq [OF o(2), of a va] b o(1) by auto
      moreover have "\<not> (va \<le> a \<and> a < va + 0x1000)" using in_cell [OF pc] False by blast
      ultimately show ?thesis by (auto simp add: nth_list_update_neq)
    qed (use \<open>\<And>a. a div 2 ^ low = va div 2 ^ low \<Longrightarrow> _ a\<close> in blast)
    then show ?thesis using tb_ok_update [OF ok that(1)] by (simp only: unmap_spec_def) blast
  qed
  have self: "tb[?ix := tb ! ?ix] = tb" by simp
  have ixl: "?ix < length tb" using ok cell_index_less by simp
  have ix: "cell_index (hi, low) a = ?ix" if "a div 2 ^ low = va div 2 ^ low" for a using that by (simp add: cell_index_def)
  show ?case
  proof (cases "tb ! ?ix")
    case Inv
    then have r: "pt_unmap ?T tb va 0x1000 = Inr tb" using as sz(1) by (simp add: unmap_loop.simps)
    have "xlate ?T tb a = None" if "a div 2 ^ low = va div 2 ^ low" for a using ix [OF that] Inv by simp
    then have "unmap_spec ?T bits tb va (tb[?ix := tb ! ?ix])" unfolding self by (intro set [of "tb ! ?ix", unfolded self]) (use Inv in auto)
    then show ?thesis using r lv by simp
  next
    case (Pte w)
    show ?thesis
    proof (cases "low = 12")
      case True
      then have r: "pt_unmap ?T tb va 0x1000 = Inr (tb[?ix := Inv])" using as Pte by (simp add: unmap_loop.simps)
      have "unmap_spec ?T bits tb va (tb[?ix := Inv])"
      proof (rule set)
        fix a assume a: "a div 2 ^ low = va div 2 ^ low"
        have "va \<le> a \<and> a < va + 0x1000"
          using a True Cons.prems(3) div_mult_mod_eq [of a 4096] div_mult_mod_eq [of va 4096] mod_less_divisor [of 4096 a]
          by (simp add: pg_aligned_def Cfg_page_sz_def)
        then show "xlate ?T (tb[?ix := Inv]) a = (if va \<le> a \<and> a < va + 0x1000 then None else xlate ?T tb a)"
          using ix [OF a] ixl by simp
      qed simp
      then show ?thesis using r lv by simp
    next
      case False
      then have "(2::nat) ^ 13 \<le> 2 ^ low" using o(4) by (intro power_increasing) auto
      then have "pt_unmap ?T tb va 0x1000 = Inl Panic" using as Pte by (simp add: unmap_loop.simps Let_def)
      then show ?thesis using False o(4) Pte lv by simp
    qed
  next
    case (Dir t)
    have len: "min 0x1000 (2 ^ low - va mod 2 ^ low) = 0x1000" using pc by simp
    have r: "pt_unmap ?T tb va 0x1000 = res_bind (pt_unmap lvs t va 0x1000) (\<lambda>t'. Inr (tb[?ix := Dir t']))"
      unfolding as by (subst unmap_loop.simps) (simp add: Dir Let_def len unmap_loop_0 del: min_def)
    note I = Cons.IH [OF o(3) tb_ok_child [OF ok Dir] Cons.prems(3)]
    show ?thesis
    proof (cases "pt_unmap lvs t va 0x1000")
      case (Inl e)
      then show ?thesis using I r Dir lv by simp
    next
      case (Inr t')
      then have u: "unmap_spec lvs low t va t'" using I by simp
      have "unmap_spec ?T bits tb va (tb[?ix := Dir t'])"
      proof (rule set)
        fix a assume a: "a div 2 ^ low = va div 2 ^ low"
        then show "xlate ?T (tb[?ix := Dir t']) a = (if va \<le> a \<and> a < va + 0x1000 then None else xlate ?T tb a)"
          using u ix [OF a] ixl Dir by (simp add: unmap_spec_def)
      qed (use u in \<open>simp add: unmap_spec_def\<close>)
      then show ?thesis using r Inr lv by simp
    qed
  qed
qed simp

text \<open>
  Unmapping one page: the call fails only when the page lies inside a larger mapped page;
  otherwise the addresses of the page lose their translation and all others keep theirs.
\<close>

theorem page_unmap:
  assumes "tb_ok Sparc_levels tb" "pg_aligned va" "va < 2 ^ 32"
  shows "case pt_unmap Sparc_levels tb va 0x1000 of
      Inr tb' \<Rightarrow> tb_ok Sparc_levels tb'
        \<and> (\<forall>a<2 ^ 32. xlate Sparc_levels tb' a = (if va \<le> a \<and> a < va + 0x1000 then None else xlate Sparc_levels tb a))
    | Inl e \<Rightarrow> big_page Sparc_levels tb va"
  using pt_unmap_page [OF Sparc_levels_ok(1) assms(1,2)] assms(3)
  by (cases "pt_unmap Sparc_levels tb va 0x1000") (simp_all add: unmap_spec_def)

text \<open>
  C18. Unmapping more than one page can miss mapped pages: when the first address lies in an unmapped
  16 MB region, \<open>unmap\<close> counts up to 16 MB as done from that address on, beyond the end of the
  region, and returns with the table unchanged, whatever is mapped in the rest of the range.
\<close>

theorem page_unmap_skips:
  assumes "pg_aligned va" "pg_aligned len" "len \<le> 2 ^ 24" "tb ! cell_index (31, 24) va = Inv"
  shows "pt_unmap Sparc_levels tb va len = Inr tb"
proof -
  have "len \<le> 2 ^ 32" using assms(3) by simp
  then show ?thesis using assms by (simp add: Sparc_levels_def unmap_loop.simps)
qed

text \<open>
  A map cell gives back the access and cache attributes it was made with, is recognised as a map
  cell, and gives back the physical address modulo \<open>2 ^ 32\<close>: the shift in \<open>mmu_get_map_pa\<close> is done in
  32 bits, so the upper four bits of the 36-bit physical address are lost.
\<close>

theorem mmu_map_cell:
  "mmu_set_map pa access cachable = Inr c \<Longrightarrow> mmu_is_map c \<and> mmu_get_map_acc c = access
     \<and> mmu_get_map_cached c = cachable \<and> unat (mmu_get_map_pa c) = unat pa mod 2 ^ 32"
proof -
  assume "mmu_set_map pa access cachable = Inr c"
  then have a: "pa AND 0xfff = 0" "access \<le> 7" "cachable \<le> 1"
    and c: "c = ucast ((drop_bit 4 pa AND 0xffffff00) OR push_bit 7 (of_nat cachable) OR push_bit 2 (of_nat access) OR 2)"
    by (auto simp: mmu_set_map_def Mmu_acc_max_def)
  have "unat (take_bit 32 pa) = take_bit 32 (unat pa)" by (rule unsigned_take_bit_eq)
  then have "unat (take_bit 32 pa) = unat pa mod 2 ^ 32" by (simp only: take_bit_eq_mod)
  then show ?thesis using mmu_word [OF a] c by simp
qed

text \<open>A page that nothing translates clashes with nothing.\<close>

lemma page_cell:
  assumes "a \<in> {va..<va + 4096}" "12 \<le> low" "va mod 4096 = 0"
  shows "a div 2 ^ low = va div (2 ^ low :: nat)"
proof -
  obtain k where k: "low = 12 + k" using assms(2) le_Suc_ex by blast
  have p: "(2 ^ low :: nat) = 4096 * 2 ^ k" unfolding k by (simp add: power_add)
  have "a div 4096 = va div 4096" using assms(1,3) by auto
  then show ?thesis unfolding p div_mult2_eq by simp
qed

lemma page_clash:
  assumes "12 \<le> low" "va mod 4096 = 0" "clash ((hi, low) # lvs) tb va 4096"
  shows "if low = 12 then is_Dir (tb ! cell_index (hi, low) va)
     else is_Pte (tb ! cell_index (hi, low) va) \<or> (\<exists>t. tb ! cell_index (hi, low) va = Dir t \<and> clash lvs t va 4096)"
proof -
  define s where "s = cell_start low va"
  define cell where "cell = tb ! cell_index (hi, low) va"
  obtain a where a: "a \<in> {va..<va + 4096}" and
    c: "if va \<le> cell_start low a \<and> cell_start low a + 2 ^ low \<le> va + 4096 then is_Dir (tb ! cell_index (hi, low) a)
        else is_Pte (tb ! cell_index (hi, low) a) \<or> (case tb ! cell_index (hi, low) a of
          Dir t \<Rightarrow> clash lvs t (max va (cell_start low a)) (min (va + 4096) (cell_start low a + 2 ^ low) - max va (cell_start low a))
        | _ \<Rightarrow> False)"
    using assms(3) unfolding clash.simps Let_def snd_conv by blast
  note d = page_cell [OF a assms(1,2)]
  have i: "tb ! cell_index (hi, low) a = cell" using d by (simp add: cell_index_def drop_bit_eq_div cell_def)
  have sa: "cell_start low a = s" using d by (simp add: cell_start_def s_def)
  have s: "s \<le> va" "va < s + 2 ^ low" unfolding s_def by (rule cell_start_in)+
  have "(va + 4095) div 2 ^ low = va div 2 ^ low" by (rule page_cell [OF _ assms(1,2)]) simp
  then have "va + 4095 < s + 2 ^ low"
    using cell_start_in(2) [of "va + 4095" low] by (simp add: cell_start_def s_def)
  then have m: "max va s = va" "min (va + 4096) (s + 2 ^ low) - va = 4096" using s by simp_all
  have big: "low \<noteq> 12 \<Longrightarrow> 4096 < (2 ^ low :: nat)" using assms(1) power_strict_increasing [of 12 low "2::nat"] by simp
  have "low = 12 \<Longrightarrow> s = va" using assms(2) unfolding s_def cell_start_def by auto
  then show ?thesis using c big s unfolding cell_def [symmetric] i sa m by (cases cell) (auto split: if_splits)
qed

lemma page_no_clash:
  assumes "tb_ok Sparc_levels tb" "xlate Sparc_levels tb va = None" "va mod 4096 = 0"
  shows "\<not> clash Sparc_levels tb va (4096)"
proof
  assume "clash Sparc_levels tb va (4096)"
  from page_clash [OF _ assms(3) this [unfolded Sparc_levels_def]] assms(2)
  obtain t where t: "tb ! cell_index (31, 24) va = Dir t" "clash [(23, 18), (17, 12)] t va (4096)"
    by (auto simp: Sparc_levels_def Let_def is_Pte_def)
  from page_clash [OF _ assms(3) this(2)] assms(2) t(1)
  obtain u where u: "t ! cell_index (23, 18) va = Dir u" "clash [(17, 12)] u va (4096)"
    by (auto simp: Sparc_levels_def Let_def is_Pte_def)
  from page_clash [OF _ assms(3) this(2)] obtain v where "u ! cell_index (17, 12) va = Dir v"
    by (auto simp: Let_def is_Dir_def)
  then show False using tb_ok_child [of _ _ _ va] assms(1) t(1) u(1) unfolding Sparc_levels_def by (metis tb_ok.simps(1))
qed

section \<open>Witnesses\<close>

lemma empty_root: "tb_ok Sparc_levels (create_table Sparc_levels)" "\<not> clash Sparc_levels (create_table Sparc_levels) va len"
  using tb_ok_create [OF Sparc_levels_ok(2)] clash_create by blast+

text \<open>A root table with one 16 MB page at \<open>0x11000000\<close>.\<close>

definition one_region :: "cell list" where
  "one_region = (create_table Sparc_levels)[0x11 := Pte 0x0400008e]"

lemma one_region_ok: "tb_ok Sparc_levels one_region"
  using tb_ok_update [OF empty_root(1) [unfolded Sparc_levels_def], of "Pte 0x0400008e" "0x11"]
  by (simp only: one_region_def Sparc_levels_def cell.distinct simp_thms)

lemma one_region_cells:
  "xlate Sparc_levels one_region a =
     (if a div 0x1000000 mod 0x100 = 0x11 then Some (0x40000000 + of_nat (a mod 0x1000000), 3, 1) else None)"
  "cell_index (31, 24) a \<noteq> 0x11 \<Longrightarrow> one_region ! cell_index (31, 24) a = Inv"
  using cell_index_less [of "(31, 24)" a]
  by (auto simp: one_region_def Sparc_levels_def nth_list_update Table_sz_def cell_index_def mmu_get_map_pa_def
      mmu_get_map_acc_def mmu_get_map_cached_def push_bit_eq_mult drop_bit_eq_div)

theorem page_map_witness:
  "tb_ok Sparc_levels one_region \<and>
   (case pt_map Sparc_levels 3 1 True (create_table Sparc_levels) 0x10001000 0x40000000 0x3000 of
      Inr tb' \<Rightarrow> xlate Sparc_levels tb' 0x10002000 = Some (0x40001000, 3, 1) | Inl e \<Rightarrow> False)"
  using page_map [OF empty_root(1), of "0x10001000" "0x40000000" "0x3000" 3 1] empty_root one_region_ok
  by (auto simp: pg_aligned_def Cfg_page_sz_def split: sum.splits)

lemma one_region_page:
  assumes "(0x11000000::nat) \<le> a" "a < 0x11002000"
  shows "xlate Sparc_levels one_region a = Some (0x40000000 + of_nat (a - 0x11000000), 3, 1)" "a - 0x11000000 < 0x2000"
proof -
  have "a div 0x1000000 = 0x11" using assms by (intro div_nat_eqI) simp_all
  moreover from this have "a mod 0x1000000 = a - 0x11000000" using div_mult_mod_eq [of a "0x1000000"] by simp
  ultimately show "xlate Sparc_levels one_region a = Some (0x40000000 + of_nat (a - 0x11000000), 3, 1)"
    unfolding one_region_cells by simp
  show "a - 0x11000000 < 0x2000" using assms by simp
qed

theorem page_walk_witness:
  "pt_walk Sparc_levels one_region 0x11000000 0x2000 = Inr 0x40000000"
proof -
  have m: "mapped Sparc_levels one_region 0x11000000 0x2000"
    using one_region_page(1) by (auto simp: mapped_def)
  have p: "pa_of Sparc_levels one_region a \<noteq> 0" if "a \<in> {0x11000000..<0x11002000}" for a
  proof -
    have x: "a - 0x11000000 < 0x2000" "xlate Sparc_levels one_region a = Some (0x40000000 + of_nat (a - 0x11000000), 3, 1)"
      using one_region_page [of a] that by auto
    have "unat (0x40000000 + of_nat (a - 0x11000000) :: u64) = 0x40000000 + (a - 0x11000000)"
      using x(1) by (simp add: unat_word_ariths unat_of_nat take_bit_nat_eq_self)
    then show ?thesis using x by (auto simp: pa_of_def)
  qed
  have "pa_of Sparc_levels one_region 0x11000000 = 0x40000000" using one_region_page(1) [of "0x11000000"] by (simp add: pa_of_def)
  then show ?thesis using page_walk [OF one_region_ok, of "0x11000000" "0x2000"] m p
    by (auto simp: no_null_def pg_aligned_def Cfg_page_sz_def)
qed

theorem page_unmap_witness:
  "case pt_unmap Sparc_levels one_region 0x12000000 0x1000 of
     Inr tb' \<Rightarrow> xlate Sparc_levels tb' 0x12000000 = None | Inl e \<Rightarrow> False"
proof -
  have "\<not> big_page Sparc_levels one_region 0x12000000"
    using one_region_cells(2) [of "0x12000000"] by (simp add: Sparc_levels_def cell_index_def Table_sz_def)
  then show ?thesis using page_unmap [OF one_region_ok, of "0x12000000"]
    by (auto simp: pg_aligned_def Cfg_page_sz_def split: sum.splits)
qed

theorem page_unmap_skips_witness:
  "pt_unmap Sparc_levels one_region 0x10fff000 0x2000 = Inr one_region \<and> xlate Sparc_levels one_region 0x11000000 \<noteq> None"
  using page_unmap_skips [of "0x10fff000" "0x2000" one_region] one_region_cells(2) [of "0x10fff000"] one_region_page(1) [of "0x11000000"]
  by (simp add: pg_aligned_def Cfg_page_sz_def cell_index_def Table_sz_def)

theorem mmu_map_cell_witness: "\<exists>c. mmu_set_map 0x840000000 3 1 = Inr c \<and> unat (mmu_get_map_pa c) = 0x40000000"
proof -
  obtain c where c: "mmu_set_map 0x840000000 3 1 = Inr c" by (auto simp: mmu_set_map_def Mmu_acc_max_def)
  show ?thesis using mmu_map_cell [OF c] c by simp
qed

end
