(* ===== verification/Aspace.thy ===== *)
theory Aspace
  imports Kmem Ptable Bitmap
begin

text \<open>
  The address space of a task: \<open>Aspace\<close> of \<open>krn/kmem.h\<close> with its access rights (\<open>krn/access.h\<close>,
  \<open>krn/sparc/acc2mmuacc.h\<close>) and \<open>Task_t\<close> of \<open>krn/task.h\<close>. An address space is the list of its user
  regions with their rights and the root page table; the theory shows that the two agree. I/O ports
  do not exist on the SPARC target, whose \<open>Arch_task_t\<close> panics on them.
\<close>

section \<open>Access rights\<close>

definition Acc_kr :: u32 where "Acc_kr = 0x20"
definition Acc_kw :: u32 where "Acc_kw = 0x10"
definition Acc_kx :: u32 where "Acc_kx = 0x08"
definition Acc_ur :: u32 where "Acc_ur = 0x04"
definition Acc_uw :: u32 where "Acc_uw = 0x02"
definition Acc_ux :: u32 where "Acc_ux = 0x01"
definition Acc_urw :: u32 where "Acc_urw = Acc_ur OR Acc_uw"
definition Acc_urwx :: u32 where "Acc_urwx = Acc_ur OR Acc_uw OR Acc_ux"
definition Acc_krw_urw :: u32 where "Acc_krw_urw = Acc_kr OR Acc_kw OR Acc_urw"
definition Acc_utcb :: u32 where "Acc_utcb = Acc_krw_urw"
definition Acc_ukip :: u32 where "Acc_ukip = Acc_ur"

lemmas acc_defs = Acc_kr_def Acc_kw_def Acc_kx_def Acc_ur_def Acc_uw_def Acc_ux_def Acc_urw_def Acc_urwx_def
  Acc_krw_urw_def Acc_utcb_def Acc_ukip_def

text \<open>The cases of the switch, with the value of each access combination; the others assert.\<close>

definition acc2mmuacc_table :: "(u32 \<times> nat) list" where
  "acc2mmuacc_table =
     [(Acc_kr, 6), (Acc_kw, 7), (Acc_kx, 6), (Acc_ur, 0), (Acc_uw, 1), (Acc_ux, 4),
      (Acc_kr OR Acc_kx, 6), (Acc_kr OR Acc_kw, 7), (Acc_kr OR Acc_kw OR Acc_kx, 7),
      (Acc_ur OR Acc_ux, 2), (Acc_urw, 1), (Acc_urwx, 3), (Acc_krw_urw, 3), (Acc_kx OR Acc_ux, 4), (Acc_kw OR Acc_ur, 5)]"

definition acc2mmuacc :: "u32 \<Rightarrow> nat res" where
  "acc2mmuacc acc = (case map_of acc2mmuacc_table acc of Some m \<Rightarrow> Inr m | None \<Rightarrow> Inl Assert_failed)"

definition acc2uacc :: "u32 \<Rightarrow> u32" where "acc2uacc acc = acc AND Acc_urwx"
definition uacc2acc :: "u32 \<Rightarrow> u32" where "uacc2acc uacc = uacc AND Acc_urwx"

section \<open>Address spaces\<close>

record atype =
  at_acc :: u32
  at_cached :: bool

definition atype_or :: "atype \<Rightarrow> atype \<Rightarrow> atype" where
  "atype_or t old = t\<lparr>at_acc := at_acc t OR at_acc old\<rparr>"

definition Aspace_regions :: nat where "Aspace_regions = 512"

record aspace =
  as_root :: "cell list"
  as_uspace :: "atype desc list"
  as_id :: nat

definition page_aligned :: "u32 \<Rightarrow> bool" where "page_aligned n = is_aligned n 0x1000"

definition as_map :: "aspace \<Rightarrow> u32 \<Rightarrow> u64 \<Rightarrow> u32 \<Rightarrow> u32 \<Rightarrow> bool \<Rightarrow> aspace res" where
  "as_map a va pa sz acc0 cachable =
     res_bind (wassert (page_aligned va \<and> pa AND 0xfff = 0 \<and> page_aligned sz)) (\<lambda>_.
     res_bind (wassert (va \<noteq> 0 \<and> pa \<noteq> 0 \<and> sz \<noteq> 0)) (\<lambda>_.
     let acc = (if acc0 = Acc_uw then Acc_urw else acc0) in
     res_bind (rg_insert atype_or Aspace_regions (as_uspace a) va sz \<lparr>at_acc = acc, at_cached = cachable\<rparr> Combine)
       (\<lambda>(type, us).
     res_bind (acc2mmuacc (at_acc type)) (\<lambda>m.
     res_bind (pt_map Sparc_levels m (if cachable then 1 else 0) True (as_root a) (unat va) pa (unat sz)) (\<lambda>root.
     Inr (a\<lparr>as_root := root, as_uspace := us\<rparr>))))))"

definition as_unmap :: "aspace \<Rightarrow> u32 \<Rightarrow> u32 \<Rightarrow> aspace res" where
  "as_unmap a va sz =
     res_bind (wassert (page_aligned va \<and> page_aligned sz \<and> sz \<noteq> 0)) (\<lambda>_.
     res_bind (rg_free Aspace_regions (as_uspace a) va sz) (\<lambda>us.
     res_bind (pt_unmap Sparc_levels (as_root a) (unat va) (unat sz)) (\<lambda>root.
     Inr (a\<lparr>as_root := root, as_uspace := us\<rparr>))))"

definition as_walk :: "aspace \<Rightarrow> u32 \<Rightarrow> u32 \<Rightarrow> u64 res" where
  "as_walk a va sz =
     res_bind (wassert (page_aligned va \<and> page_aligned sz \<and> va \<noteq> 0 \<and> sz \<noteq> 0)) (\<lambda>_.
     pt_walk Sparc_levels (as_root a) (unat va) (unat sz))"

text \<open>\<open>_uspace.find(fp.addr(), fp.size())\<close>.\<close>

definition as_find :: "aspace \<Rightarrow> fpage \<Rightarrow> atype desc option" where
  "as_find a fp = (case snd (find_part (as_uspace a) (fpage_addr fp) (fpage_size fp)) of [] \<Rightarrow> None | d # _ \<Rightarrow> Some d)"

definition as_is_inside_acc :: "aspace \<Rightarrow> fpage \<Rightarrow> bool" where
  "as_is_inside_acc a fp =
     (case as_find a fp of
        None \<Rightarrow> False
      | Some d \<Rightarrow> fpage_access fp = fpage_access fp AND acc2uacc (at_acc (d_type d)))"

definition as_cached :: "aspace \<Rightarrow> fpage \<Rightarrow> int" where
  "as_cached a fp =
     (case as_find a fp of
        None \<Rightarrow> -1
      | Some d \<Rightarrow> if fpage_access fp \<noteq> fpage_access fp AND acc2uacc (at_acc (d_type d)) then -2
                  else of_bool (at_cached (d_type d)))"

definition as_attributes :: "aspace \<Rightarrow> fpage \<Rightarrow> int" where
  "as_attributes a fp =
     (case as_find a fp of
        None \<Rightarrow> -1
      | Some d \<Rightarrow> uint (at_acc (d_type d) OR push_bit 6 (of_bool (at_cached (d_type d)))))"

text \<open>\<open>_ranges.usr\<close>, from \<open>0x10000000\<close> to a guard page below the kernel at \<open>krn_vaddr\<close>.\<close>

definition Usr_va :: u32 where "Usr_va = 0x10000000"

definition Usr_sz :: "u32 \<Rightarrow> u32" where "Usr_sz krn_vaddr = krn_vaddr - Usr_va - 0x1000"

definition find_free_uspace :: "u32 \<Rightarrow> aspace \<Rightarrow> u32 \<Rightarrow> u32 \<Rightarrow> u32 res" where
  "find_free_uspace krn_vaddr a sz align =
     res_bind (wassert (page_aligned sz \<and> page_aligned align \<and> sz \<noteq> 0 \<and> align \<noteq> 0)) (\<lambda>_.
     Inr (find_free (as_uspace a) sz align Usr_va (Usr_sz krn_vaddr)))"

section \<open>Tasks\<close>

record task =
  tk_id :: nat
  tk_aspace :: aspace
  tk_kip_area :: fpage
  tk_utcb_area :: fpage
  tk_utcbs :: bitmap
  tk_redirector :: thrid

definition Page_sz :: u32 where "Page_sz = 0x1000"

definition task_map :: "task \<Rightarrow> u32 \<Rightarrow> u64 \<Rightarrow> u32 \<Rightarrow> u32 \<Rightarrow> bool \<Rightarrow> task res" where
  "task_map tk va pa sz acc cachable =
     res_bind (as_map (tk_aspace tk) va pa sz acc cachable) (\<lambda>a. Inr (tk\<lparr>tk_aspace := a\<rparr>))"

definition task_unmap :: "task \<Rightarrow> u32 \<Rightarrow> u32 \<Rightarrow> task res" where
  "task_unmap tk va sz = res_bind (as_unmap (tk_aspace tk) va sz) (\<lambda>a. Inr (tk\<lparr>tk_aspace := a\<rparr>))"

definition task_set_kip_area :: "fpage \<Rightarrow> task \<Rightarrow> task res" where
  "task_set_kip_area fp tk =
     res_bind (wassert (bm_count (tk_utcbs tk) = 0 \<and> \<not> fpage_is_nil fp)) (\<lambda>_. Inr (tk\<lparr>tk_kip_area := fp\<rparr>))"

text \<open>\<open>utcb_area\<close> with \<open>map_kip\<close>; \<open>kip_pa\<close> is the physical address of the kernel interface page.\<close>

definition task_set_utcb_area :: "u64 \<Rightarrow> fpage \<Rightarrow> task \<Rightarrow> task res" where
  "task_set_utcb_area kip_pa fp tk =
     res_bind (wassert (bm_count (tk_utcbs tk) = 0)) (\<lambda>_.
     let bm = snd (bitmap_init 64 (tk_utcbs tk) (unat (fpage_size fp div Page_sz)));
         tk1 = tk\<lparr>tk_utcb_area := fp, tk_utcbs := bm\<rparr> in
     res_bind (as_map (tk_aspace tk1) (fpage_addr (tk_kip_area tk1)) kip_pa Page_sz Acc_ukip True) (\<lambda>a.
     Inr (tk1\<lparr>tk_aspace := a\<rparr>)))"

definition alloc_utcb_uspace :: "task \<Rightarrow> (u32 \<times> task) res" where
  "alloc_utcb_uspace tk =
     res_bind (wassert (fpage_addr (tk_utcb_area tk) \<noteq> 0 \<and> fpage_size (tk_utcb_area tk) \<noteq> 0)) (\<lambda>_.
     let (rc, bm) = bitmap_getfree (tk_utcbs tk); tk1 = tk\<lparr>tk_utcbs := bm\<rparr> in
     if rc < 0 then Inr (0, tk1)
     else Inr (fpage_addr (tk_utcb_area tk) + word_of_int rc * Page_sz, tk1))"

definition free_utcb_uspace :: "u32 \<Rightarrow> task \<Rightarrow> task res" where
  "free_utcb_uspace utcb tk =
     res_bind (wassert (fpage_addr (tk_utcb_area tk) \<noteq> 0 \<and> fpage_size (tk_utcb_area tk) \<noteq> 0)) (\<lambda>_.
     res_bind (wassert (utcb \<ge> fpage_addr (tk_utcb_area tk))) (\<lambda>_.
     let pos = (utcb - fpage_addr (tk_utcb_area tk)) div Page_sz; (rc, bm) = bitmap_clear (tk_utcbs tk) (unat pos) in
     res_bind (wassert (rc = 0)) (\<lambda>_. Inr (tk\<lparr>tk_utcbs := bm\<rparr>))))"

definition task_is_empty :: "task \<Rightarrow> bool" where "task_is_empty tk = (bm_count (tk_utcbs tk) = 0)"
definition task_is_full :: "task \<Rightarrow> bool" where "task_is_full tk = (bm_count (tk_utcbs tk) = bm_capacity (tk_utcbs tk))"
definition task_active_threads :: "task \<Rightarrow> bool" where "task_active_threads tk = (bm_count (tk_utcbs tk) \<noteq> 0)"

definition task_is_configured :: "task \<Rightarrow> bool" where
  "task_is_configured tk =
     (fpage_addr (tk_kip_area tk) \<noteq> 0 \<and> fpage_size (tk_kip_area tk) \<noteq> 0
      \<and> fpage_addr (tk_utcb_area tk) \<noteq> 0 \<and> fpage_size (tk_utcb_area tk) \<noteq> 0)"


section \<open>Regions and page table agree\<close>

text \<open>
  On every address outside the kernel's part \<open>K\<close> of the space: no region and no translation, or a
  region and a translation with the rights and the cache attribute of the region.
\<close>

definition agrees :: "atype option \<Rightarrow> (u64 \<times> nat \<times> nat) option \<Rightarrow> bool" where
  "agrees t x \<longleftrightarrow> (case t of
      None \<Rightarrow> x = None
    | Some y \<Rightarrow> (\<exists>pa m. x = Some (pa, m, of_bool (at_cached y)) \<and> acc2mmuacc (at_acc y) = Inr m \<and> pa \<noteq> 0))"

definition as_ok :: "nat set \<Rightarrow> aspace \<Rightarrow> bool" where
  "as_ok K a \<longleftrightarrow> rg_ok 0 (as_uspace a) \<and> tb_ok Sparc_levels (as_root a)
     \<and> (\<forall>x<2 ^ 32. x \<notin> K \<longrightarrow> agrees (rg_map (as_uspace a) x) (xlate Sparc_levels (as_root a) x))"

definition range_of :: "u32 \<Rightarrow> u32 \<Rightarrow> nat set" where
  "range_of va sz = {unat va..<unat va + unat sz}"

lemma page_aligned_iff: "page_aligned n \<longleftrightarrow> pg_aligned (unat n)"
proof -
  have "n AND 0xfff = take_bit 12 n" by (simp add: take_bit_eq_mask mask_eq_exp_minus_1)
  moreover have "unat (take_bit 12 n) = take_bit 12 (unat n)" by (rule unsigned_take_bit_eq)
  then have "unat (take_bit 12 n) = unat n mod 0x1000" by (simp only: take_bit_eq_mod) simp
  ultimately have "n AND 0xfff = 0 \<longleftrightarrow> unat n mod 0x1000 = 0" by (metis unat_eq_zero)
  then show ?thesis by (simp add: page_aligned_def is_aligned_def pg_aligned_def Cfg_page_sz_def)
qed

lemma acc2mmuacc_le: "acc2mmuacc acc = Inr m \<Longrightarrow> m \<le> 7"
  by (auto simp: acc2mmuacc_def acc2mmuacc_table_def split: option.splits if_splits)

text \<open>The access a map asks for: on SPARC write access brings read access.\<close>

definition map_acc :: "u32 \<Rightarrow> u32" where "map_acc acc = (if acc = Acc_uw then Acc_urw else acc)"

definition map_args_ok :: "u32 \<Rightarrow> u64 \<Rightarrow> u32 \<Rightarrow> bool" where
  "map_args_ok va pa sz \<longleftrightarrow> page_aligned va \<and> pa AND 0xfff = 0 \<and> page_aligned sz \<and> va \<noteq> 0 \<and> pa \<noteq> 0 \<and> sz \<noteq> 0"

definition in_region :: "'y desc list \<Rightarrow> u32 \<Rightarrow> u32 \<Rightarrow> 'y desc \<Rightarrow> bool" where
  "in_region dl va sz d \<longleftrightarrow> d \<in> set dl \<and> d_lo d \<le> unat va \<and> unat va + unat sz \<le> d_hi d"

lemma as_map_unfold:
  "as_map a va pa sz acc cachable =
     (if \<not> map_args_ok va pa sz then Inl Assert_failed
      else res_bind (rg_insert atype_or Aspace_regions (as_uspace a) va sz \<lparr>at_acc = map_acc acc, at_cached = cachable\<rparr> Combine)
       (\<lambda>(type, us). res_bind (acc2mmuacc (at_acc type)) (\<lambda>m.
        res_bind (pt_map Sparc_levels m (of_bool cachable) True (as_root a) (unat va) pa (unat sz)) (\<lambda>root.
        Inr (a\<lparr>as_root := root, as_uspace := us\<rparr>)))))"
  by (auto simp: as_map_def map_args_ok_def map_acc_def Let_def of_bool_def wassert_def)

lemma as_map_sound:
  assumes ok: "as_ok K a" and b: "unat va + unat sz < 2 ^ 32" "unat pa + unat sz \<le> 2 ^ 32"
    and res: "as_map a va pa sz acc cachable = Inr a'"
  obtains t m where "as_ok K a'" "acc2mmuacc (at_acc t) = Inr m" "at_cached t = cachable"
    "at_acc t = map_acc acc \<and> free_range (as_uspace a) (unat va) (unat sz)
     \<or> (\<exists>d. in_region (as_uspace a) va sz d \<and> at_acc t = map_acc acc OR at_acc (d_type d))"
    "rg_map (as_uspace a') = upd_range (unat va) (unat va + unat sz) (Some t) (rg_map (as_uspace a))"
    "\<And>x. x < 2 ^ 32 \<Longrightarrow> xlate Sparc_levels (as_root a') x =
       (if x \<in> range_of va sz then Some (pa + of_nat (x - unat va), m, of_bool cachable) else xlate Sparc_levels (as_root a) x)"
proof -
  let ?t0 = "\<lparr>at_acc = map_acc acc, at_cached = cachable\<rparr>"
  have args: "map_args_ok va pa sz" using res by (auto simp: as_map_unfold split: if_splits)
  obtain t us m root where r: "rg_insert atype_or Aspace_regions (as_uspace a) va sz ?t0 Combine = Inr (t, us)"
    "acc2mmuacc (at_acc t) = Inr m" "pt_map Sparc_levels m (of_bool cachable) True (as_root a) (unat va) pa (unat sz) = Inr root"
    "a' = a\<lparr>as_root := root, as_uspace := us\<rparr>"
    using res args by (auto simp: as_map_unfold)
  have okr: "rg_ok 0 (as_uspace a)" "tb_ok Sparc_levels (as_root a)" using ok by (simp_all add: as_ok_def)
  have sz: "0 < unat sz" using args by (simp add: map_args_ok_def unat_gt_0)
  note I = rg_insert_sound [OF okr(1) r(1) sz b(1)]
  have cch: "at_cached t = cachable" using I by (auto simp: atype_or_def)
  have "unat va mod 2 ^ 32 + unat sz \<le> 2 ^ 32" using b(1) by simp
  from pt_map_sound [OF Sparc_levels_ok(1) _ okr(2) u32_less this b(2) r(3)]
  have M: "map_spec Sparc_levels 32 m (of_bool cachable) (as_root a) (unat va) pa (unat sz) root" by simp
  have X: "xlate Sparc_levels root x =
      (if x \<in> range_of va sz then Some (pa + of_nat (x - unat va), m, of_bool cachable) else xlate Sparc_levels (as_root a) x)"
    if "x < 2 ^ 32" for x
    using M that u32_less [of va] by (auto simp: map_spec_def range_of_def pa_at_eq)
  have pa0: "pa + of_nat (x - unat va) \<noteq> 0" if "x \<in> range_of va sz" for x
  proof -
    define n where "n = x - unat va"
    have n: "n < unat sz" using that by (auto simp: range_of_def n_def)
    then have "unat (of_nat n :: u64) = n" using b(2) by (simp add: unat_of_nat take_bit_nat_eq_self)
    then have "unat (pa + of_nat n) = unat pa + n" using n b(2) by (simp add: unat_word_ariths)
    moreover have "0 < unat pa" using args by (simp add: map_args_ok_def unat_gt_0)
    ultimately show ?thesis unfolding n_def [symmetric] by auto
  qed
  have "agrees (rg_map us x) (xlate Sparc_levels root x)" if "x < 2 ^ 32" "x \<notin> K" for x
    using ok that X [OF that(1)] I r(2) cch pa0 [of x]
    by (auto simp: as_ok_def agrees_def upd_range_def range_of_def)
  then have "as_ok K a'" using I M r(4) by (simp add: as_ok_def map_spec_def)
  moreover have "at_acc t = map_acc acc \<and> free_range (as_uspace a) (unat va) (unat sz)
     \<or> (\<exists>d. in_region (as_uspace a) va sz d \<and> at_acc t = map_acc acc OR at_acc (d_type d))"
    using I free_range_map [OF okr(1) sz, of "unat va"] by (auto simp: in_region_def atype_or_def)
  ultimately show thesis using that [of t m] r(2,4) cch I X by simp
qed

text \<open>
  C19. Mapping memory into an address space whose regions and page table agree: when \<open>map\<close> returns,
  they agree again, exactly the addresses of the range have changed their translation, and they
  now lead to the physical range. It fails only on arguments it asserts against, on a range that
  partly overlaps a region, on rights the MMU cannot express, or on a clash of page sizes.
\<close>

theorem aspace_map:
  assumes ok: "as_ok K a" and b: "unat va + unat sz < 2 ^ 32" "unat pa + unat sz \<le> 2 ^ 32"
    and room: "length (as_uspace a) + 1 < Aspace_regions"
  shows "case as_map a va pa sz acc cachable of
      Inr a' \<Rightarrow> as_ok K a' \<and> (\<exists>m. \<forall>x<2 ^ 32. xlate Sparc_levels (as_root a') x =
        (if x \<in> range_of va sz then Some (pa + of_nat (x - unat va), m, of_bool cachable) else xlate Sparc_levels (as_root a) x))
    | Inl e \<Rightarrow> \<not> map_args_ok va pa sz
        \<or> \<not> free_range (as_uspace a) (unat va) (unat sz) \<and> (\<forall>d. \<not> in_region (as_uspace a) va sz d)
        \<or> acc2mmuacc (map_acc acc) = Inl Assert_failed
        \<or> (\<exists>d. in_region (as_uspace a) va sz d \<and> acc2mmuacc (map_acc acc OR at_acc (d_type d)) = Inl Assert_failed)
        \<or> clash Sparc_levels (as_root a) (unat va) (unat sz)"
proof (cases "as_map a va pa sz acc cachable")
  case (Inr a')
  show ?thesis
  proof (rule as_map_sound [OF ok b Inr])
    fix t m
    assume "as_ok K a'" "\<And>x. x < 2 ^ 32 \<Longrightarrow> xlate Sparc_levels (as_root a') x =
       (if x \<in> range_of va sz then Some (pa + of_nat (x - unat va), m, of_bool cachable) else xlate Sparc_levels (as_root a) x)"
    then show ?thesis unfolding Inr sum.case by blast
  qed
next
  case (Inl e)
  let ?t0 = "\<lparr>at_acc = map_acc acc, at_cached = cachable\<rparr>"
  have okr: "rg_ok 0 (as_uspace a)" "tb_ok Sparc_levels (as_root a)" using ok by (simp_all add: as_ok_def)
  have al: "pg_aligned (unat va)" "pg_aligned (unat pa)" "pg_aligned (unat sz)" "0 < unat sz" if "map_args_ok va pa sz"
    using that by (simp_all add: map_args_ok_def page_aligned_iff pa_aligned_iff pg_aligned_def Cfg_page_sz_def unat_gt_0)
  show ?thesis
  proof (cases "map_args_ok va pa sz \<and> (free_range (as_uspace a) (unat va) (unat sz) \<or> (\<exists>d. in_region (as_uspace a) va sz d))
      \<and> \<not> clash Sparc_levels (as_root a) (unat va) (unat sz)")
    case True
    then obtain t us where i: "rg_insert atype_or Aspace_regions (as_uspace a) va sz ?t0 Combine = Inr (t, us)"
      using rg_insert_total [OF okr(1) room al(4) b(1), of atype_or ?t0 Combine] by (auto simp: in_region_def)
    have t: "at_acc t = map_acc acc \<or> (\<exists>d. in_region (as_uspace a) va sz d \<and> at_acc t = map_acc acc OR at_acc (d_type d))"
      using rg_insert_sound [OF okr(1) i al(4) b(1)] True by (auto simp: in_region_def atype_or_def)
    show ?thesis
    proof (cases "acc2mmuacc (at_acc t)")
      case (Inl e')
      then have "acc2mmuacc (at_acc t) = Inl Assert_failed" by (auto simp: acc2mmuacc_def split: option.splits)
      then show ?thesis using t \<open>as_map a va pa sz acc cachable = Inl e\<close> by auto
    next
      case (Inr m)
      have "unat va mod 2 ^ 32 + unat sz \<le> 2 ^ 32" using b(1) by simp
      moreover have "of_bool cachable \<le> (1::nat)" by simp
      ultimately obtain root where "pt_map Sparc_levels m (of_bool cachable) True (as_root a) (unat va) pa (unat sz) = Inr root"
        using pt_map_total [OF Sparc_levels_ok(1) _ Sparc_levels_ok(2) u32_less _ b(2) al(1-3) _ acc2mmuacc_le [OF Inr]] True by auto
      then show ?thesis using Inl Inr i True by (simp add: as_map_unfold)
    qed
  qed (use Inl in auto)
qed

lemma find_part_some:
  assumes ok: "rg_ok 0 dl" and sz: "unat addr + unat sz < 2 ^ 32" and f: "find_part dl addr sz = (pre, d # post)"
  shows "in_region dl addr sz d"
proof -
  obtain p q where s: "split_at (\<lambda>d. contents addr sz d \<or> d_addr d \<ge> addr + sz) dl = (p, q)" by fastforce
  have q: "q = d # post" "contents addr sz d" using f by (auto simp: find_part_def s split: if_splits)
  have d: "d \<in> set dl" using split_at_append [OF s] q by simp
  then show ?thesis using contents_iff [OF _ sz, of d] q(2) rg_ok_mem [OF ok d] by (simp add: in_region_def)
qed

lemma in_region_map: "rg_ok 0 dl \<Longrightarrow> in_region dl va sz d \<Longrightarrow> x \<in> range_of va sz \<Longrightarrow> rg_map dl x = Some (d_type d)"
  by (auto simp: in_region_def range_of_def dest!: split_list intro!: rg_map_at)

text \<open>
  A flexpage for which \<open>cached\<close> is not negative lies in the address space with the rights it
  names: its pages are all mapped, the rights of every page cover those of the flexpage, and the
  walk gives the physical address of its first byte, which is not 0.
\<close>

lemma cached_backed:
  assumes ok: "as_ok K a" and c: "as_cached a fp \<ge> 0"
    and fp: "page_aligned (fpage_addr fp)" "page_aligned (fpage_size fp)" "fpage_addr fp \<noteq> 0" "fpage_size fp \<noteq> 0"
      "unat (fpage_addr fp) + unat (fpage_size fp) < 2 ^ 32"
    and K: "range_of (fpage_addr fp) (fpage_size fp) \<inter> K = {}"
  shows "\<exists>t pa. as_walk a (fpage_addr fp) (fpage_size fp) = Inr pa \<and> pa \<noteq> 0
    \<and> fpage_access fp AND at_acc t = fpage_access fp \<and> as_cached a fp = of_bool (at_cached t)
    \<and> (\<forall>x\<in>range_of (fpage_addr fp) (fpage_size fp). rg_map (as_uspace a) x = Some t
        \<and> (\<exists>q m. xlate Sparc_levels (as_root a) x = Some (q, m, of_bool (at_cached t)) \<and> q \<noteq> 0
             \<and> acc2mmuacc (at_acc t) = Inr m))
    \<and> pa_of Sparc_levels (as_root a) (unat (fpage_addr fp)) = pa"
proof -
  let ?va = "fpage_addr fp" and ?sz = "fpage_size fp"
  have okr: "rg_ok 0 (as_uspace a)" "tb_ok Sparc_levels (as_root a)" using ok by (simp_all add: as_ok_def)
  obtain pre d post where f: "find_part (as_uspace a) ?va ?sz = (pre, d # post)"
    and acc: "fpage_access fp = fpage_access fp AND acc2uacc (at_acc (d_type d))" "as_cached a fp = of_bool (at_cached (d_type d))"
    using c by (cases "find_part (as_uspace a) ?va ?sz") (auto simp: as_cached_def as_find_def split: list.splits if_splits)
  have inr: "in_region (as_uspace a) ?va ?sz d" by (rule find_part_some [OF okr(1) fp(5) f])
  have R: "rg_map (as_uspace a) x = Some (d_type d)" if "x \<in> range_of ?va ?sz" for x by (rule in_region_map [OF okr(1) inr that])
  have X: "\<exists>q m. xlate Sparc_levels (as_root a) x = Some (q, m, of_bool (at_cached (d_type d))) \<and> q \<noteq> 0
      \<and> acc2mmuacc (at_acc (d_type d)) = Inr m" if x: "x \<in> range_of ?va ?sz" for x
  proof -
    have "x < 2 ^ 32" "x \<notin> K" using x fp(5) K by (auto simp: range_of_def)
    then have "agrees (Some (d_type d)) (xlate Sparc_levels (as_root a) x)" using ok R [OF x] unfolding as_ok_def by metis
    then show ?thesis by (auto simp: agrees_def)
  qed
  have M: "mapped Sparc_levels (as_root a) (unat ?va) (unat ?sz)" using X by (fastforce simp: mapped_def range_of_def)
  have N: "no_null Sparc_levels (as_root a) (unat ?va) (unat ?sz)" using X by (fastforce simp: no_null_def pa_of_def range_of_def)
  have sz: "0 < unat ?sz" "unat ?va \<in> range_of ?va ?sz" using fp(4) by (simp_all add: unat_gt_0 range_of_def)
  have al: "pg_aligned (unat ?va)" "pg_aligned (unat ?sz)" using fp(1,2) by (simp_all add: page_aligned_iff)
  have "unat ?va mod 2 ^ 32 + unat ?sz \<le> 2 ^ 32" using fp(5) by simp
  from pt_walk_spec [OF Sparc_levels_ok(1) _ okr(2) u32_less this sz(1) al N] M
  have W: "as_walk a ?va ?sz = Inr (pa_of Sparc_levels (as_root a) (unat ?va))" using fp by (simp add: as_walk_def)
  have "pa_of Sparc_levels (as_root a) (unat ?va) \<noteq> 0" using X [OF sz(2)] by (auto simp: pa_of_def)
  moreover have "fpage_access fp AND at_acc (d_type d) = fpage_access fp"
    using acc(1) unfolding acc2uacc_def by (metis and.commute and.left_commute and.left_idem)
  ultimately show ?thesis using W acc(2) R X by blast
qed

text \<open>Mapping one page where nothing is mapped succeeds.\<close>

lemma as_map_free_page:
  assumes ok: "as_ok {} a" and al: "page_aligned va" "va \<noteq> 0" "unat va + 0x1000 < 2 ^ 32"
    and pa: "pa AND 0xfff = 0" "pa \<noteq> 0" "unat pa + 0x1000 \<le> 2 ^ 32"
    and acc: "acc2mmuacc (map_acc acc) = Inr m" and room: "length (as_uspace a) + 1 < Aspace_regions"
    and free: "\<And>x. x \<in> range_of va Page_sz \<Longrightarrow> rg_map (as_uspace a) x = None"
  shows "\<exists>a' t. as_map a va pa Page_sz acc c = Inr a' \<and> as_ok {} a' \<and> length (as_uspace a') \<le> length (as_uspace a) + 2
     \<and> rg_map (as_uspace a') = upd_range (unat va) (unat va + 0x1000) (Some t) (rg_map (as_uspace a))"
proof -
  have sz: "unat Page_sz = 0x1000" by (simp add: Page_sz_def)
  have okr: "rg_ok 0 (as_uspace a)" "tb_ok Sparc_levels (as_root a)" using ok by (simp_all add: as_ok_def)
  let ?t0 = "\<lparr>at_acc = map_acc acc, at_cached = c\<rparr>"
  have args: "map_args_ok va pa Page_sz" using al pa by (simp add: map_args_ok_def Page_sz_def page_aligned_def is_aligned_def)
  have fr: "free_range (as_uspace a) (unat va) (unat Page_sz)"
    using free by (subst free_range_map [OF okr(1)]) (auto simp: sz range_of_def)
  obtain t us where i: "rg_insert atype_or Aspace_regions (as_uspace a) va Page_sz ?t0 Combine = Inr (t, us)"
    using rg_insert_total [OF okr(1) room, of Page_sz va atype_or ?t0 Combine] fr al(3) by (auto simp: sz)
  have "\<not> (d \<in> set (as_uspace a) \<and> d_lo d \<le> unat va \<and> unat va + 0x1000 \<le> d_hi d)" for d
    using in_region_map [OF okr(1), of va Page_sz d "unat va"] free [of "unat va"]
    by (auto simp: in_region_def sz range_of_def)
  then have t: "t = ?t0" and us: "rg_map us = upd_range (unat va) (unat va + 0x1000) (Some t) (rg_map (as_uspace a))"
    using rg_insert_sound [OF okr(1) i] al(3) by (auto simp: sz)
  have "xlate Sparc_levels (as_root a) (unat va) = None"
    using ok free [of "unat va"] u32_less [of va] by (auto simp: as_ok_def range_of_def sz agrees_def)
  then have nc: "\<not> clash Sparc_levels (as_root a) (unat va) (unat Page_sz)"
    using page_no_clash [OF okr(2)] al(1) by (simp add: sz page_aligned_iff pg_aligned_def Cfg_page_sz_def)
  have alg: "pg_aligned (unat va)" "pg_aligned (unat pa)" "pg_aligned (unat Page_sz)"
    using al(1) pa(1) by (simp_all add: page_aligned_iff pa_aligned_iff pg_aligned_def Cfg_page_sz_def sz)
  have b: "unat pa + unat Page_sz \<le> 2 ^ 32" using pa(3) by (simp add: sz)
  have "unat va mod 2 ^ 32 + unat Page_sz \<le> 2 ^ 32" using al(3) by (simp add: sz)
  moreover have "of_bool c \<le> (1::nat)" by simp
  ultimately obtain root where "pt_map Sparc_levels m (of_bool c) True (as_root a) (unat va) pa (unat Page_sz) = Inr root"
    using pt_map_total [OF Sparc_levels_ok(1) _ Sparc_levels_ok(2) u32_less _ b alg nc acc2mmuacc_le [OF acc]] okr(2) by auto
  then have res: "as_map a va pa Page_sz acc c = Inr (a\<lparr>as_root := root, as_uspace := us\<rparr>)"
    using args i acc t by (simp add: as_map_unfold)
  have "as_ok {} (a\<lparr>as_root := root, as_uspace := us\<rparr>)"
    by (rule as_map_sound [OF ok _ b res]) (use al(3) in \<open>simp_all add: sz\<close>)
  then show ?thesis using res us rg_insert_length [OF i] by auto
qed

text \<open>The user addresses of the UTCBs a task has given out.\<close>

definition utcb_at :: "task \<Rightarrow> nat \<Rightarrow> u32" where
  "utcb_at tk pos = fpage_addr (tk_utcb_area tk) + of_nat pos * Page_sz"

definition utcbs_of :: "task \<Rightarrow> u32 set" where
  "utcbs_of tk = utcb_at tk ` bitmap_abs (tk_utcbs tk)"

definition utcb_area_ok :: "task \<Rightarrow> bool" where
  "utcb_area_ok tk \<longleftrightarrow> bitmap_inv (tk_utcbs tk) \<and> fpage_addr (tk_utcb_area tk) \<noteq> 0 \<and> fpage_size (tk_utcb_area tk) \<noteq> 0
     \<and> unat (fpage_addr (tk_utcb_area tk)) + bm_capacity (tk_utcbs tk) * 0x1000 < 2 ^ 32"

lemma unat_utcb_at:
  assumes "utcb_area_ok tk" "pos < bm_capacity (tk_utcbs tk)"
  shows "unat (utcb_at tk pos) = unat (fpage_addr (tk_utcb_area tk)) + pos * 0x1000"
proof -
  have b: "unat (fpage_addr (tk_utcb_area tk)) + pos * 0x1000 < 2 ^ 32" using assms by (simp add: utcb_area_ok_def)
  have "utcb_at tk pos = fpage_addr (tk_utcb_area tk) + of_nat (pos * 0x1000)" by (simp add: utcb_at_def Page_sz_def)
  moreover have "unat (of_nat (pos * 0x1000) :: u32) = pos * 0x1000"
    unfolding unat_of_nat using b by (simp add: take_bit_nat_eq_self)
  ultimately show ?thesis using b by (simp only: unat_sum)
qed

text \<open>
  UTCB space of a task: an allocation fails (with 0) exactly when the area is full; otherwise it
  returns a page of the area not given out before, and freeing that page restores the state.
\<close>

theorem utcb_alloc_free:
  assumes ok: "utcb_area_ok tk"
  shows "\<exists>u tk1. alloc_utcb_uspace tk = Inr (u, tk1) \<and> utcb_area_ok tk1
    \<and> (if task_is_full tk then u = 0 \<and> utcbs_of tk1 = utcbs_of tk
       else u \<noteq> 0 \<and> u \<notin> utcbs_of tk \<and> utcbs_of tk1 = insert u (utcbs_of tk)
         \<and> (\<exists>tk2. free_utcb_uspace u tk1 = Inr tk2 \<and> utcb_area_ok tk2 \<and> utcbs_of tk2 = utcbs_of tk))"
proof -
  let ?m = "tk_utcbs tk"
  obtain rc m1 where gf: "bitmap_getfree ?m = (rc, m1)" by fastforce
  let ?tk1 = "tk\<lparr>tk_utcbs := m1\<rparr>" and ?base = "fpage_addr (tk_utcb_area tk)"
  have inv: "bitmap_inv ?m" and ar: "?base \<noteq> 0" "fpage_size (tk_utcb_area tk) \<noteq> 0" using ok by (simp_all add: utcb_area_ok_def)
  note G = bitmap_getfree_spec [OF inv, unfolded gf fst_conv snd_conv]
  have full: "task_is_full tk \<longleftrightarrow> bitmap_abs ?m = {..<bm_capacity ?m}"
  proof -
    have sub: "bitmap_abs ?m \<subseteq> {..<bm_capacity ?m}" by (auto simp: bitmap_abs_def)
    have "card (bitmap_abs ?m) = bm_capacity ?m \<longleftrightarrow> bitmap_abs ?m = {..<bm_capacity ?m}"
      using card_subset_eq [OF finite_lessThan sub] by (metis card_lessThan)
    then show ?thesis using inv by (simp add: task_is_full_def bitmap_inv_def)
  qed
  show ?thesis
  proof (cases "task_is_full tk")
    case True
    then have "bitmap_getfree ?m = (-1, ?m)" using G full gf by simp
    then have "alloc_utcb_uspace tk = Inr (0, tk)" using ar by (simp add: alloc_utcb_uspace_def)
    then show ?thesis using True ok by auto
  next
    case False
    then have "bitmap_abs ?m \<noteq> {..<bm_capacity ?m}" using full by blast
    then have "\<exists>pos<bm_capacity ?m. rc = int pos \<and> pos \<notin> bitmap_abs ?m
         \<and> {..<pos} \<subseteq> bitmap_abs ?m \<and> bitmap_abs m1 = insert pos (bitmap_abs ?m)"
      using G by (simp only: if_False simp_thms)
    then obtain pos where p0: "pos < bm_capacity ?m" "rc = int pos" "pos \<notin> bitmap_abs ?m"
      "bitmap_abs m1 = insert pos (bitmap_abs ?m)" by (elim exE conjE)
    note p = p0 conjunct1 [OF G] conjunct1 [OF conjunct2 [OF G]]
    have g: "bitmap_getfree ?m = (int pos, m1)" using p(2) gf by simp
    have al: "alloc_utcb_uspace tk = Inr (utcb_at tk pos, ?tk1)"
      using ar by (simp add: alloc_utcb_uspace_def g utcb_at_def)
    have ok1: "utcb_area_ok ?tk1" using ok p by (simp add: utcb_area_ok_def)
    have at1: "utcb_at ?tk1 = utcb_at tk" by (simp add: fun_eq_iff utcb_at_def)
    have u: "unat (utcb_at tk q) = unat ?base + q * 0x1000" if "q < bm_capacity ?m" for q by (rule unat_utcb_at [OF ok that])
    have fresh: "utcb_at tk pos \<notin> utcbs_of tk"
    proof
      assume "utcb_at tk pos \<in> utcbs_of tk"
      then obtain q where "q \<in> bitmap_abs ?m" "utcb_at tk pos = utcb_at tk q" by (auto simp: utcbs_of_def)
      then show False using u [of q] u [OF p(1)] p(3) by (auto simp: bitmap_abs_def)
    qed
    have le: "?base \<le> utcb_at tk pos" using u [OF p(1)] by (simp add: word_le_nat_alt)
    have "unat ((utcb_at tk pos - ?base) div Page_sz) = pos"
      using u [OF p(1)] le by (simp add: unat_div unat_sub Page_sz_def word_le_nat_alt)
    moreover have "fst (bitmap_clear m1 pos) = 0" using bitmap_clear_abs(1) [OF p(5)] p(1,6) by simp
    ultimately have fr: "free_utcb_uspace (utcb_at tk pos) ?tk1 = Inr (?tk1\<lparr>tk_utcbs := snd (bitmap_clear m1 pos)\<rparr>)"
      using ar le by (auto simp add: free_utcb_uspace_def Let_def split: prod.split)
    have "utcb_area_ok (?tk1\<lparr>tk_utcbs := snd (bitmap_clear m1 pos)\<rparr>)"
      using ok p(6) bitmap_clear_abs [OF p(5)] by (simp add: utcb_area_ok_def)
    moreover have "utcbs_of (?tk1\<lparr>tk_utcbs := snd (bitmap_clear m1 pos)\<rparr>) = utcbs_of tk"
      using bitmap_clear_abs(4) [OF p(5), of pos] p(3,4) by (simp add: utcbs_of_def utcb_at_def)
    moreover have "utcb_at tk pos \<noteq> 0" using le ar(1) by (auto simp: word_le_nat_alt unat_eq_zero)
    ultimately show ?thesis using False al ok1 fresh fr p(4) at1 by (simp add: utcbs_of_def)
  qed
qed

lemma rg_free_spec:
  assumes ok: "rg_ok 0 dl" and room: "length dl < n" and sz: "0 < unat sz" "unat va + unat sz < 2 ^ 32"
    and part: "free_range dl (unat va) (unat sz) \<or> (\<exists>d. in_region dl va sz d)"
  shows "\<exists>dl'. rg_free n dl va sz = Inr dl' \<and> rg_ok 0 dl'
    \<and> rg_map dl' = upd_range (unat va) (unat va + unat sz) None (rg_map dl)"
proof -
  obtain dl' where d: "rg_free n dl va sz = Inr dl'" "rg_ok 0 dl'"
    "rg_map dl' = (if \<exists>d\<in>set dl. d_lo d \<le> unat va \<and> unat va + unat sz \<le> d_hi d
       then upd_range (unat va) (unat va + unat sz) None (rg_map dl) else rg_map dl)"
    using rg_free_total [OF ok room sz] by blast
  show ?thesis
  proof (cases "\<exists>d. in_region dl va sz d")
    case True
    then have "\<exists>d\<in>set dl. d_lo d \<le> unat va \<and> unat va + unat sz \<le> d_hi d" by (auto simp: in_region_def)
    then show ?thesis using d by (simp only: if_True) blast
  next
    case False
    then have n: "\<not> (\<exists>d\<in>set dl. d_lo d \<le> unat va \<and> unat va + unat sz \<le> d_hi d)" by (auto simp: in_region_def)
    have "\<forall>b. unat va \<le> b \<and> b < unat va + unat sz \<longrightarrow> rg_map dl b = None"
      using part False free_range_map [OF ok sz(1)] by blast
    then have "rg_map dl = upd_range (unat va) (unat va + unat sz) None (rg_map dl)" by (auto simp: fun_eq_iff upd_range_def)
    then show ?thesis using d n by (simp only: if_False) metis
  qed
qed

text \<open>
  C20. Unmapping one page of an address space whose regions and page table agree: when the page is
  not part of a larger page, \<open>unmap\<close> returns, the page loses its translation and its place in the
  region list, every other address keeps both, and the two still agree.
\<close>

theorem aspace_unmap_page:
  assumes ok: "as_ok K a" and room: "length (as_uspace a) < Aspace_regions"
    and va: "page_aligned va" "unat va + 0x1000 < 2 ^ 32" "\<not> big_page Sparc_levels (as_root a) (unat va)"
    and part: "free_range (as_uspace a) (unat va) 0x1000 \<or> (\<exists>d. in_region (as_uspace a) va 0x1000 d)"
  shows "\<exists>a'. as_unmap a va 0x1000 = Inr a' \<and> as_ok K a' \<and> (\<forall>x<2 ^ 32.
    xlate Sparc_levels (as_root a') x = (if x \<in> range_of va 0x1000 then None else xlate Sparc_levels (as_root a) x)
    \<and> rg_map (as_uspace a') x = (if x \<in> range_of va 0x1000 then None else rg_map (as_uspace a) x))"
proof -
  have okr: "rg_ok 0 (as_uspace a)" "tb_ok Sparc_levels (as_root a)" using ok by (simp_all add: as_ok_def)
  have sz: "unat (0x1000::u32) = 0x1000" "0 < unat (0x1000::u32)" "page_aligned 0x1000"
    by (simp_all add: page_aligned_def is_aligned_def)
  obtain us where us: "rg_free Aspace_regions (as_uspace a) va 0x1000 = Inr us" "rg_ok 0 us"
    "rg_map us = upd_range (unat va) (unat va + 0x1000) None (rg_map (as_uspace a))"
    using rg_free_spec [OF okr(1) room sz(2), of va] va(2) part sz(1) by auto
  have al: "pg_aligned (unat va)" using va(1) by (simp add: page_aligned_iff)
  obtain root where rt: "pt_unmap Sparc_levels (as_root a) (unat va) 0x1000 = Inr root"
    "unmap_spec Sparc_levels 32 (as_root a) (unat va) root"
    using pt_unmap_page [OF Sparc_levels_ok(1) okr(2) al] va(3) by (auto split: sum.splits)
  let ?a = "a\<lparr>as_root := root, as_uspace := us\<rparr>"
  have un: "as_unmap a va 0x1000 = Inr ?a" using va(1) us(1) rt(1) sz by (simp add: as_unmap_def)
  have X: "xlate Sparc_levels root x = (if x \<in> range_of va 0x1000 then None else xlate Sparc_levels (as_root a) x)"
    if "x < 2 ^ 32" for x using rt(2) that u32_less [of va] by (simp add: unmap_spec_def range_of_def)
  have R: "rg_map us x = (if x \<in> range_of va 0x1000 then None else rg_map (as_uspace a) x)" for x
    using us(3) by (simp add: upd_range_def range_of_def)
  have "agrees (rg_map us x) (xlate Sparc_levels root x)" if "x < 2 ^ 32" "x \<notin> K" for x
    using ok that R [of x] X [OF that(1)] by (simp add: as_ok_def agrees_def)
  then have "as_ok K ?a" using us(2) rt(2) by (simp add: as_ok_def unmap_spec_def)
  then show ?thesis using un X R by auto
qed


section \<open>Witnesses\<close>

definition empty_space :: aspace where
  "empty_space = \<lparr>as_root = create_table Sparc_levels, as_uspace = [], as_id = 1\<rparr>"

definition one_space :: aspace where
  "one_space = \<lparr>as_root = one_region,
     as_uspace = [mk_desc 0x11000000 0x1000000 \<lparr>at_acc = Acc_urwx, at_cached = True\<rparr>], as_id = 1\<rparr>"

lemma empty_space_ok: "as_ok {} empty_space"
  using empty_root(1) xlate_create [OF Sparc_levels_ok(2)] by (simp add: as_ok_def empty_space_def agrees_def)

lemma acc_urwx_mmu: "acc2mmuacc Acc_urwx = Inr 3"
  by (simp add: acc2mmuacc_def acc2mmuacc_table_def acc_defs)

lemma one_space_ok: "as_ok {} one_space"
proof -
  have "agrees (rg_map (as_uspace one_space) x) (xlate Sparc_levels one_region x)" if x: "x < 2 ^ 32" for x
  proof (cases "0x11000000 \<le> x \<and> x < 0x12000000")
    case True
    define n where "n = x mod 0x1000000"
    have "x div 0x1000000 = 0x11" using True by (intro div_nat_eqI) simp_all
    then have e: "xlate Sparc_levels one_region x = Some (0x40000000 + of_nat n, 3, 1)" by (simp add: one_region_cells n_def)
    have n: "n < 0x1000000" by (simp add: n_def)
    then have "unat (of_nat n :: u64) = n" by (simp add: unat_of_nat take_bit_nat_eq_self)
    then have "unat (0x40000000 + of_nat n :: u64) = 0x40000000 + n" using n by (simp add: unat_word_ariths)
    then have "(0x40000000 + of_nat n :: u64) \<noteq> 0" by auto
    then show ?thesis using True e by (simp add: one_space_def agrees_def d_lo_def d_hi_def acc_urwx_mmu)
  next
    case False
    have lt: "x div 0x1000000 < 0x100" using x by simp
    have "x div 0x1000000 \<noteq> 0x11" using False div_mult_mod_eq [of x "0x1000000"] mod_less_divisor [of "0x1000000" x] by auto
    then have "x div 0x1000000 mod 0x100 \<noteq> 0x11" using lt by simp
    then show ?thesis using False by (auto simp: one_space_def agrees_def d_lo_def d_hi_def one_region_cells)
  qed
  then show ?thesis using one_region_ok by (simp add: as_ok_def one_space_def d_lo_def d_hi_def)
qed

theorem aspace_map_witness:
  "\<exists>a' m. as_map empty_space 0x10000000 0x40000000 0x4000 Acc_urwx True = Inr a' \<and> as_ok {} a'
     \<and> xlate Sparc_levels (as_root a') 0x10001000 = Some (0x40001000, m, 1)"
proof -
  have "\<not> clash Sparc_levels (as_root empty_space) va len" for va len by (simp add: empty_space_def empty_root(2))
  moreover have "map_args_ok 0x10000000 0x40000000 0x4000" by (simp add: map_args_ok_def page_aligned_def is_aligned_def)
  moreover have "acc2mmuacc (map_acc Acc_urwx) = Inr 3" by (simp add: map_acc_def acc_defs acc2mmuacc_def acc2mmuacc_table_def)
  ultimately show ?thesis
    using aspace_map [OF empty_space_ok, of "0x10000000" "0x4000" "0x40000000" Acc_urwx True]
    by (auto simp: empty_space_def free_range_def in_region_def Aspace_regions_def range_of_def split: sum.splits)
qed

definition one_fpage :: fpage where "one_fpage = 0x110000C6"

lemma one_fpage_fields: "fpage_addr one_fpage = 0x11000000" "fpage_size one_fpage = 0x1000" "fpage_access one_fpage = 6"
  by (simp_all add: one_fpage_def fpage_addr_def fpage_size_def fpage_log2sz_def fpage_access_def bf_get_def bf_sget_def
      push_bit_eq_mult drop_bit_eq_div)

lemma one_fpage_cached: "as_cached one_space one_fpage = 1"
  by (simp add: as_cached_def as_find_def find_part_def one_space_def one_fpage_fields contents_def d_end_def acc2uacc_def acc_defs)

definition one_task :: task where
  "one_task = \<lparr>tk_id = 1, tk_aspace = one_space, tk_kip_area = one_fpage, tk_utcb_area = 0x20000106,
     tk_utcbs = snd (bitmap_init 64 (bitmap_new 64) 16), tk_redirector = 0\<rparr>"

theorem utcb_alloc_free_witness:
  "\<exists>u tk1. alloc_utcb_uspace one_task = Inr (u, tk1) \<and> u \<noteq> 0 \<and> utcb_area_ok tk1"
proof -
  have e: "bitmap_abs (tk_utcbs one_task) = {}"
    by (auto simp: bitmap_abs_def one_task_def bitmap_init_def bitmap_new_def bitmap_bit_def)
  have "utcb_area_ok one_task"
    using e by (simp add: utcb_area_ok_def bitmap_inv_def) (simp add: one_task_def bitmap_init_def bitmap_new_def
      fpage_addr_def fpage_size_def fpage_log2sz_def bf_get_def bf_sget_def push_bit_eq_mult drop_bit_eq_div)
  moreover have "\<not> task_is_full one_task" by (simp add: task_is_full_def one_task_def bitmap_init_def bitmap_new_def)
  ultimately show ?thesis using utcb_alloc_free [of one_task] by auto
qed

theorem aspace_unmap_page_witness:
  "\<exists>a'. as_unmap empty_space 0x10000000 0x1000 = Inr a' \<and> as_ok {} a'"
proof -
  have "\<not> big_page Sparc_levels (as_root empty_space) (unat (0x10000000::u32))"
    using cell_index_less [of "(31, 24)" "0x10000000"] by (simp add: empty_space_def Sparc_levels_def)
  then show ?thesis using aspace_unmap_page [OF empty_space_ok, of "0x10000000"]
    by (auto simp: empty_space_def free_range_def page_aligned_def is_aligned_def Aspace_regions_def)
qed

end
