(* ===== verification/Wstring.thy ===== *)
theory Wstring
  imports L4_Types "HOL-Library.Sublist"
begin

text \<open>
  Memory and string functions of the C library: \<open>lib/wlibc/src/string.c\<close>, for the 32-bit
  big-endian target. The memory functions are written over a load \<open>rd\<close> and a store \<open>wr\<close> of one
  byte, which fail where the machine faults, since the kernel calls them on user memory through
  the page table; a store of a wider unit is the stores of its bytes. The locale \<open>byte_mem\<close> has
  the laws of such a memory. The string functions run on a flat memory; their loops have no bound
  but the terminating zero byte and may not end without one.
\<close>

section \<open>Memory functions\<close>

primrec load :: "(u32 \<Rightarrow> 'm \<Rightarrow> u8 res) \<Rightarrow> nat \<Rightarrow> u32 \<Rightarrow> 'm \<Rightarrow> u8 list res" where
  "load rd 0 a m = Inr []"
| "load rd (Suc n) a m = res_bind (rd a m) (\<lambda>b. res_bind (load rd n (a + 1) m) (\<lambda>bs. Inr (b # bs)))"

primrec store :: "(u32 \<Rightarrow> u8 \<Rightarrow> 'm \<Rightarrow> 'm res) \<Rightarrow> u8 list \<Rightarrow> u32 \<Rightarrow> 'm \<Rightarrow> 'm res" where
  "store wr [] a m = Inr m"
| "store wr (b # bs) a m = res_bind (wr a b m) (store wr bs (a + 1))"

text \<open>\<open>for (i=0; i<n; ++i) ((unit*)dst)[i] = ((unit*)src)[i]\<close> for a unit of \<open>c\<close> bytes.\<close>

primrec copy_units ::
  "(u32 \<Rightarrow> 'm \<Rightarrow> u8 res) \<Rightarrow> (u32 \<Rightarrow> u8 \<Rightarrow> 'm \<Rightarrow> 'm res) \<Rightarrow> nat \<Rightarrow> nat \<Rightarrow> u32 \<Rightarrow> u32 \<Rightarrow> 'm \<Rightarrow> 'm res" where
  "copy_units rd wr c 0 dst src m = Inr m"
| "copy_units rd wr c (Suc n) dst src m =
     res_bind (load rd c src m) (\<lambda>bs. res_bind (store wr bs dst m)
       (copy_units rd wr c n (dst + of_nat c) (src + of_nat c)))"

definition memcpy ::
  "(u32 \<Rightarrow> 'm \<Rightarrow> u8 res) \<Rightarrow> (u32 \<Rightarrow> u8 \<Rightarrow> 'm \<Rightarrow> 'm res) \<Rightarrow> u32 \<Rightarrow> u32 \<Rightarrow> u32 \<Rightarrow> 'm \<Rightarrow> 'm res" where
  "memcpy rd wr dst src sz m =
     res_bind (wassert (sz < 0xf0000000)) (\<lambda>_.
     if sz \<ge> 32 \<and> is_aligned dst 8 \<and> is_aligned src 8 \<and> is_aligned sz 8
     then copy_units rd wr 8 (unat (sz div 8)) dst src m
     else if sz \<ge> 32 \<and> is_aligned dst 4 \<and> is_aligned src 4 \<and> is_aligned sz 4
     then copy_units rd wr 4 (unat (sz div 4)) dst src m
     else copy_units rd wr 1 (unat sz) dst src m)"

text \<open>The difference of two pointers is a signed number.\<close>

definition memmove ::
  "(u32 \<Rightarrow> 'm \<Rightarrow> u8 res) \<Rightarrow> (u32 \<Rightarrow> u8 \<Rightarrow> 'm \<Rightarrow> 'm res) \<Rightarrow> u32 \<Rightarrow> u32 \<Rightarrow> u32 \<Rightarrow> 'm \<Rightarrow> 'm res" where
  "memmove rd wr dst src sz m =
     (if sz \<ge> 32 \<and> (if dst > src then sint (dst - src) \<ge> 8 else sint (src - dst) \<ge> 8)
      then memcpy rd wr dst src sz m
      else copy_units rd wr 1 (unat sz) dst src m)"

text \<open>The bytes of a word in memory order, most significant first.\<close>

definition be_bytes :: "'a::len word \<Rightarrow> u8 list" where
  "be_bytes w = map (\<lambda>i. ucast (drop_bit (8 * i) w)) (rev [0..<LENGTH('a) div 8])"

primrec fill_units :: "(u32 \<Rightarrow> u8 \<Rightarrow> 'm \<Rightarrow> 'm res) \<Rightarrow> u8 list \<Rightarrow> nat \<Rightarrow> u32 \<Rightarrow> 'm \<Rightarrow> 'm res" where
  "fill_units wr bs 0 dst m = Inr m"
| "fill_units wr bs (Suc n) dst m =
     res_bind (store wr bs dst m) (fill_units wr bs n (dst + of_nat (length bs)))"

text \<open>
  The pattern of \<open>memset\<close>: \<open>val<<24 | val<<16 | val<<8 | val\<close> has type \<open>int\<close>, and its conversion
  to \<open>uint64_t\<close> extends the sign.
\<close>

definition memset_pattern :: "u32 \<Rightarrow> u32" where
  "memset_pattern val = (let v = val AND 0xff in push_bit 24 v OR push_bit 16 v OR push_bit 8 v OR v)"

definition memset_pattern64 :: "u32 \<Rightarrow> u64" where
  "memset_pattern64 val = (let v = scast (memset_pattern val) in v OR push_bit 32 v)"

definition memset :: "(u32 \<Rightarrow> u8 \<Rightarrow> 'm \<Rightarrow> 'm res) \<Rightarrow> u32 \<Rightarrow> u32 \<Rightarrow> u32 \<Rightarrow> 'm \<Rightarrow> 'm res" where
  "memset wr dst val sz m =
     (if sz \<ge> 32 \<and> is_aligned dst 8 \<and> is_aligned sz 8
      then fill_units wr (be_bytes (memset_pattern64 val)) (unat (sz div 8)) dst m
      else if sz \<ge> 32 \<and> is_aligned dst 4 \<and> is_aligned sz 4
      then fill_units wr (be_bytes (memset_pattern val)) (unat (sz div 4)) dst m
      else fill_units wr [ucast val] (unat sz) dst m)"

text \<open>
  The word loop of \<open>memcmp\<close> compares the difference of two \<open>unsigned long\<close> with zero, which is
  never below: it returns \<open>+1\<close> at the first difference.
\<close>

primrec cmp_words :: "(u32 \<Rightarrow> 'm \<Rightarrow> u8 res) \<Rightarrow> nat \<Rightarrow> u32 \<Rightarrow> u32 \<Rightarrow> 'm \<Rightarrow> int res" where
  "cmp_words rd 0 p1 p2 m = Inr 0"
| "cmp_words rd (Suc n) p1 p2 m =
     res_bind (load rd 4 p1 m) (\<lambda>w1. res_bind (load rd 4 p2 m) (\<lambda>w2.
     if w1 \<noteq> w2 then Inr 1 else cmp_words rd n (p1 + 4) (p2 + 4) m))"

primrec cmp_bytes :: "(u32 \<Rightarrow> 'm \<Rightarrow> u8 res) \<Rightarrow> nat \<Rightarrow> u32 \<Rightarrow> u32 \<Rightarrow> 'm \<Rightarrow> int res" where
  "cmp_bytes rd 0 p1 p2 m = Inr 0"
| "cmp_bytes rd (Suc n) p1 p2 m =
     res_bind (rd p1 m) (\<lambda>b1. res_bind (rd p2 m) (\<lambda>b2.
     if b1 \<noteq> b2 then Inr (uint b1 - uint b2) else cmp_bytes rd n (p1 + 1) (p2 + 1) m))"

definition memcmp :: "(u32 \<Rightarrow> 'm \<Rightarrow> u8 res) \<Rightarrow> u32 \<Rightarrow> u32 \<Rightarrow> u32 \<Rightarrow> 'm \<Rightarrow> int res" where
  "memcmp rd p1 p2 sz m =
     (if sz \<ge> 32 \<and> is_aligned p1 4 \<and> is_aligned p2 4 \<and> is_aligned sz 4
      then cmp_words rd (unat (sz div 4)) p1 p2 m
      else cmp_bytes rd (unat sz) p1 p2 m)"

text \<open>\<open>memchr\<close>: the counter is an \<open>int\<close> compared with an unsigned \<open>num\<close>; the result \<open>0\<close> is a null pointer.\<close>

primrec memchr_from :: "(u32 \<Rightarrow> u8) \<Rightarrow> u32 \<Rightarrow> u8 \<Rightarrow> nat \<Rightarrow> u32" where
  "memchr_from m p val 0 = 0"
| "memchr_from m p val (Suc n) = (if m p = val then p else memchr_from m (p + 1) val n)"

definition memchr :: "(u32 \<Rightarrow> u8) \<Rightarrow> u32 \<Rightarrow> u32 \<Rightarrow> u32 \<Rightarrow> u32" where
  "memchr m p val num = memchr_from m p (ucast val) (unat num)"

section \<open>String functions\<close>

partial_function (option) strcmp :: "(u32 \<Rightarrow> u8) \<Rightarrow> u32 \<Rightarrow> u32 \<Rightarrow> int option" where
  "strcmp m s1 s2 =
     (if m s1 \<noteq> 0 \<and> m s1 = m s2 then strcmp m (s1 + 1) (s2 + 1) else Some (uint (m s1) - uint (m s2)))"

primrec strncmp_n :: "(u32 \<Rightarrow> u8) \<Rightarrow> u32 \<Rightarrow> u32 \<Rightarrow> nat \<Rightarrow> int" where
  "strncmp_n m s1 s2 0 = 0"
| "strncmp_n m s1 s2 (Suc n) =
     (if m s1 \<noteq> m s2 then (if m s1 < m s2 then -1 else 1)
      else if m s1 = 0 then 0
      else strncmp_n m (s1 + 1) (s2 + 1) n)"

definition strncmp :: "(u32 \<Rightarrow> u8) \<Rightarrow> u32 \<Rightarrow> u32 \<Rightarrow> u32 \<Rightarrow> int" where
  "strncmp m s1 s2 n = strncmp_n m s1 s2 (unat n)"

partial_function (option) str_end :: "(u32 \<Rightarrow> u8) \<Rightarrow> u32 \<Rightarrow> u32 option" where
  "str_end m s = (if m s = 0 then Some s else str_end m (s + 1))"

definition strlen :: "(u32 \<Rightarrow> u8) \<Rightarrow> u32 \<Rightarrow> u32 option" where
  "strlen m str = map_option (\<lambda>s. s - str) (str_end m str)"

text \<open>The loop \<open>while ((*dst++ = *src++))\<close>, with \<open>dst\<close> after it.\<close>

partial_function (option) str_copy :: "u32 \<Rightarrow> u32 \<Rightarrow> (u32 \<Rightarrow> u8) \<Rightarrow> (u32 \<times> (u32 \<Rightarrow> u8)) option" where
  "str_copy dst src m =
     (let m' = m(dst := m src) in
      if m src = 0 then Some (dst + 1, m') else str_copy (dst + 1) (src + 1) m')"

definition strcpy :: "u32 \<Rightarrow> u32 \<Rightarrow> (u32 \<Rightarrow> u8) \<Rightarrow> (u32 \<times> (u32 \<Rightarrow> u8)) option" where
  "strcpy dst src m = map_option (\<lambda>(_, m'). (dst, m')) (str_copy dst src m)"

definition stpcpy :: "u32 \<Rightarrow> u32 \<Rightarrow> (u32 \<Rightarrow> u8) \<Rightarrow> (u32 \<times> (u32 \<Rightarrow> u8)) option" where
  "stpcpy dst src m = map_option (\<lambda>(d, m'). (d - 1, m')) (str_copy dst src m)"

definition strcat :: "u32 \<Rightarrow> u32 \<Rightarrow> (u32 \<Rightarrow> u8) \<Rightarrow> (u32 \<times> (u32 \<Rightarrow> u8)) option" where
  "strcat dst src m =
     (case str_end m dst of
        None \<Rightarrow> None
      | Some e \<Rightarrow> map_option (\<lambda>(_, m'). (dst, m')) (str_copy e src m))"

text \<open>\<open>strncpy\<close>: the two loops on \<open>i\<close>, with \<open>n - i\<close> turns left.\<close>

primrec pad_zero :: "nat \<Rightarrow> u32 \<Rightarrow> (u32 \<Rightarrow> u8) \<Rightarrow> (u32 \<Rightarrow> u8)" where
  "pad_zero 0 d m = m"
| "pad_zero (Suc n) d m = pad_zero n (d + 1) (m(d := 0))"

primrec strncpy_n :: "nat \<Rightarrow> u32 \<Rightarrow> u32 \<Rightarrow> (u32 \<Rightarrow> u8) \<Rightarrow> (u32 \<Rightarrow> u8)" where
  "strncpy_n 0 d s m = m"
| "strncpy_n (Suc n) d s m = (if m s \<noteq> 0 then strncpy_n n (d + 1) (s + 1) (m(d := m s)) else pad_zero (Suc n) d m)"

definition strncpy :: "u32 \<Rightarrow> u32 \<Rightarrow> u32 \<Rightarrow> (u32 \<Rightarrow> u8) \<Rightarrow> (u32 \<Rightarrow> u8)" where
  "strncpy dst src n m = strncpy_n (unat n) dst src m"

partial_function (option) strchr :: "(u32 \<Rightarrow> u8) \<Rightarrow> u32 \<Rightarrow> u8 \<Rightarrow> u32 option" where
  "strchr m s c = (if m s \<noteq> c then (if m s = 0 then Some 0 else strchr m (s + 1) c) else Some s)"

partial_function (option) strupr_from :: "u32 \<Rightarrow> (u32 \<Rightarrow> u8) \<Rightarrow> (u32 \<Rightarrow> u8) option" where
  "strupr_from s m =
     (if m s \<noteq> 0
      then strupr_from (s + 1) (if 0x61 \<le> m s \<and> m s \<le> 0x7a then m(s := m s + (0x41 - 0x61)) else m)
      else Some m)"

text \<open>The inner loop of \<open>strspn\<close> and \<open>strpbrk\<close>: is \<open>c\<close> one of the characters of the string at \<open>p\<close>?\<close>

partial_function (option) str_has :: "(u32 \<Rightarrow> u8) \<Rightarrow> u32 \<Rightarrow> u8 \<Rightarrow> bool option" where
  "str_has m p c = (if m p = 0 then Some False else if m p = c then Some True else str_has m (p + 1) c)"

partial_function (option) strspn_from :: "(u32 \<Rightarrow> u8) \<Rightarrow> u32 \<Rightarrow> u32 \<Rightarrow> u32 \<Rightarrow> u32 option" where
  "strspn_from m str1 str2 n =
     (if m str1 = 0 then Some n
      else Option.bind (str_has m str2 (m str1)) (\<lambda>h. if h then strspn_from m (str1 + 1) str2 (n + 1) else Some n))"

definition strspn :: "(u32 \<Rightarrow> u8) \<Rightarrow> u32 \<Rightarrow> u32 \<Rightarrow> u32 option" where
  "strspn m str1 str2 = strspn_from m str1 str2 0"

partial_function (option) strpbrk :: "(u32 \<Rightarrow> u8) \<Rightarrow> u32 \<Rightarrow> u32 \<Rightarrow> u32 option" where
  "strpbrk m str1 str2 =
     (if m str1 = 0 then Some 0
      else Option.bind (str_has m str2 (m str1)) (\<lambda>h. if h then Some str1 else strpbrk m (str1 + 1) str2))"

text \<open>\<open>strstr\<close>: the inner loop returns whether it stopped at the end of \<open>substr\<close>.\<close>

partial_function (option) str_prefix :: "(u32 \<Rightarrow> u8) \<Rightarrow> u32 \<Rightarrow> u32 \<Rightarrow> bool option" where
  "str_prefix m s ss =
     (if m s \<noteq> 0 \<and> m ss \<noteq> 0 \<and> m s = m ss then str_prefix m (s + 1) (ss + 1) else Some (m ss = 0))"

partial_function (option) strstr :: "(u32 \<Rightarrow> u8) \<Rightarrow> u32 \<Rightarrow> u32 \<Rightarrow> u32 option" where
  "strstr m str substr =
     (if m str = 0 then Some 0
      else Option.bind (str_prefix m str substr) (\<lambda>h. if h then Some str else strstr m (str + 1) substr))"

section \<open>The laws of a byte memory\<close>

text \<open>The \<open>n\<close> addresses from \<open>a\<close> on.\<close>

definition blk :: "u32 \<Rightarrow> nat \<Rightarrow> u32 set" where "blk a n = {x. unat (x - a) < n}"

lemma blk_0 [simp]: "blk a 0 = {}"
  by (simp add: blk_def)

lemma unat_pred: "(x::u32) \<noteq> 0 \<Longrightarrow> unat x = Suc (unat (x - 1))"
  by (simp add: unat_minus_one unat_gt_0 Suc_leI)

lemma unat_minus_one_32: "unat (- 1 :: u32) = 4294967295"
proof -
  have "(- 1 :: u32) = 4294967295" by simp
  then show ?thesis by (simp only: unat_numeral) simp
qed

lemma unat_of_nat_32: "c < 2 ^ 32 \<Longrightarrow> unat (of_nat c :: u32) = c"
  by (simp add: unat_of_nat take_bit_nat_eq_self)

lemma blk_first [simp]: "0 < n \<Longrightarrow> a \<in> blk a n"
  by (simp add: blk_def)

lemma in_blk_Suc:
  assumes "n < 2 ^ 32"
  shows "x \<in> blk a (Suc n) \<longleftrightarrow> x = a \<or> x \<in> blk (a + 1) n"
proof (cases "x = a")
  case False
  then have "unat (x - a) = Suc (unat (x - (a + 1)))" using unat_pred [of "x - a"] by (simp add: algebra_simps)
  then show ?thesis using False by (simp add: blk_def)
qed simp

lemma blk_next: "n < 2 ^ 32 \<Longrightarrow> a \<notin> blk (a + 1) n"
  by (simp add: blk_def unat_minus_one_32)

lemma blk_skip:
  assumes "c + n \<le> 2 ^ 32"
  shows "x \<in> blk a (c + n) \<longleftrightarrow> x \<in> blk a c \<or> x \<in> blk (a + of_nat c) n"
    and "x \<in> blk (a + of_nat c) n \<Longrightarrow> x \<notin> blk a c"
proof -
  have *: "unat (x - a) < c \<and> \<not> unat (x - (a + of_nat c)) < n
      \<or> c \<le> unat (x - a) \<and> unat (x - (a + of_nat c)) = unat (x - a) - c"
  proof (cases "unat (x - a) < c")
    case True
    have "c < 2 ^ 32 \<or> c = 2 ^ 32" using assms by linarith
    then show ?thesis
    proof
      assume c: "c < 2 ^ 32"
      then have "unat (of_nat c :: u32) = c" by (simp add: unat_of_nat_32)
      moreover have "unat (x - a - of_nat c) = 2 ^ 32 + unat (x - a) - c"
        using True c by (simp add: unat_sub_if_size word_size unat_of_nat_32)
      ultimately show ?thesis using True assms by (simp add: diff_diff_eq)
    next
      assume "c = 2 ^ 32"
      then show ?thesis using True assms by simp
    qed
  next
    case False
    then have "unat (of_nat c :: u32) = c" using u32_less [of "x - a"] by (simp add: unat_of_nat_32)
    then have "unat (x - a - of_nat c) = unat (x - a) - c"
      using False by (simp add: unat_sub word_le_nat_alt)
    then show ?thesis using False by (simp add: diff_diff_eq)
  qed
  then show "x \<in> blk a (c + n) \<longleftrightarrow> x \<in> blk a c \<or> x \<in> blk (a + of_nat c) n"
    by (auto simp: blk_def)
  show "x \<in> blk (a + of_nat c) n \<Longrightarrow> x \<notin> blk a c" using * by (auto simp: blk_def)
qed

lemma behind_blk:
  assumes "c + n \<le> unat (d - s)" "y \<in> blk (s + of_nat c) n"
  shows "y \<notin> blk d c"
proof -
  have b: "c + n \<le> 2 ^ 32" using assms(1) u32_less [of "d - s"] by simp
  have j: "c \<le> unat (y - s)" "unat (y - s) < c + n"
    using blk_skip [OF b, of y s] assms(2) by (auto simp: blk_def)
  have "unat ((y - s) - (d - s)) = unat (y - s) + 2 ^ 32 - unat (d - s)"
    using j(2) assms(1) unfolding unat_sub_if_size [of "y - s" "d - s"] by (simp add: word_size)
  moreover have "(y - s) - (d - s) = y - d" by simp
  ultimately show ?thesis using j(1) u32_less [of "d - s"] by (simp add: blk_def)
qed

lemma blk_dist:
  assumes "x \<in> blk (a + of_nat c) n" "c + n \<le> 2 ^ 32"
  shows "unat (x - a) = unat (x - (a + of_nat c)) + c"
proof -
  have "x - a = (x - (a + of_nat c)) + of_nat c" by (simp add: algebra_simps)
  moreover have "unat (x - (a + of_nat c)) < n" using assms(1) by (simp only: blk_def mem_Collect_eq)
  moreover have "unat (of_nat c :: u32) = c" using calculation(2) assms(2) by (intro unat_of_nat_32) simp
  moreover from calculation(2,3) have "unat (x - (a + of_nat c)) + unat (of_nat c :: u32) < 2 ^ LENGTH(32)"
    using assms(2) by simp
  ultimately show ?thesis using unat_add_lem by metis
qed

lemma unit_bytes:
  "is_aligned n 8 \<Longrightarrow> 8 * unat (n div 8) = unat n"
  "is_aligned n 4 \<Longrightarrow> 4 * unat (n div 4) = unat n"
  using and_mask_dvd_nat [of 3 n] and_mask_dvd_nat [of 2 n]
  by (simp_all add: is_aligned_def mask_eq_exp_minus_1 unat_div dvd_mult_div_cancel)

text \<open>The patterns of \<open>memset\<close> as bytes.\<close>

lemma mod_8_parts: "8 \<le> i \<Longrightarrow> i mod 8 = (i - 8) mod (8::nat)"
  by (simp add: le_mod_geq)

lemma pattern_bit: "bit (memset_pattern val) i \<longleftrightarrow> i < 32 \<and> bit val (i mod 8)"
proof -
  have v: "bit (val AND 0xff) j \<longleftrightarrow> j < 8 \<and> bit val j" for j
    using bit_take_bit_iff [of 8 val j] by (simp add: take_bit_eq_mask mask_eq_exp_minus_1)
  have "bit (memset_pattern val) i \<longleftrightarrow> i < 32 \<and> (24 \<le> i \<and> i - 24 < 8 \<and> bit val (i - 24)
      \<or> 16 \<le> i \<and> i - 16 < 8 \<and> bit val (i - 16) \<or> 8 \<le> i \<and> i - 8 < 8 \<and> bit val (i - 8) \<or> i < 8 \<and> bit val i)"
    unfolding memset_pattern_def Let_def bit_or_iff bit_push_bit_iff v by auto
  moreover have "i < 8 \<Longrightarrow> i mod 8 = i" "8 \<le> i \<Longrightarrow> i < 16 \<Longrightarrow> i mod 8 = i - 8"
    "16 \<le> i \<Longrightarrow> i < 24 \<Longrightarrow> i mod 8 = i - 16" "24 \<le> i \<Longrightarrow> i < 32 \<Longrightarrow> i mod 8 = i - 24" by presburger+
  ultimately show ?thesis by (cases "i < 8"; cases "i < 16"; cases "i < 24"; cases "i < 32") auto
qed

lemma pattern64_bit:
  "bit (memset_pattern64 val) i \<longleftrightarrow> i < 64 \<and> (bit val (i mod 8) \<or> 32 \<le> i \<and> bit val 7)"
proof -
  have s: "bit (scast (memset_pattern val) :: u64) j \<longleftrightarrow> j < 64 \<and> (if j < 32 then bit val (j mod 8) else bit val 7)" for j
  proof -
    have "bit (scast (memset_pattern val) :: u64) j \<longleftrightarrow> j < 64 \<and> bit (memset_pattern val) (min 31 j)"
      by (simp add: bit_signed_iff)
    moreover have "j < 32 \<Longrightarrow> min 31 j = j" "\<not> j < 32 \<Longrightarrow> min 31 j = 31" by auto
    ultimately show ?thesis by (simp add: pattern_bit)
  qed
  have "bit (memset_pattern64 val) i \<longleftrightarrow> i < 64 \<and> (if i < 32 then bit val (i mod 8) else bit val 7)
      \<or> 32 \<le> i \<and> i < 64 \<and> bit val ((i - 32) mod 8)"
    unfolding memset_pattern64_def Let_def bit_or_iff bit_push_bit_iff s by auto
  moreover have "32 \<le> i \<Longrightarrow> (i - 32) mod 8 = i mod 8" using mod_mult_self1 [of "i - 32" 4 8] by simp
  ultimately show ?thesis by (cases "i < 32") auto
qed

lemma pattern_bytes: "be_bytes (memset_pattern val) = replicate 4 (ucast val)"
proof -
  have "ucast (drop_bit (8 * i) (memset_pattern val)) = (ucast val :: u8)" if "i < 4" for i
    using that by (intro bit_word_eqI) (simp add: bit_ucast_iff bit_drop_bit_eq pattern_bit)
  then show ?thesis by (simp add: be_bytes_def list_eq_iff_nth_eq rev_nth)
qed

lemma pattern64_bytes:
  "be_bytes (memset_pattern64 val) = replicate 4 (if bit val 7 then 0xff else ucast val) @ replicate 4 (ucast val)"
proof -
  have ff: "(0xff::u8) = - 1" by simp
  have "ucast (drop_bit (8 * i) (memset_pattern64 val)) = (if i < 4 \<or> \<not> bit val 7 then ucast val else - 1 :: u8)" if "i < 8" for i
    using that by (intro bit_word_eqI) (auto simp: bit_ucast_iff bit_drop_bit_eq pattern64_bit)
  note this [of 0] this [of 1] this [of 2] this [of 3] this [of 4] this [of 5] this [of 6] this [of 7]
  moreover have "rev [0..<8] = [7, 6, 5, 4, 3, 2, 1, 0::nat]" by (simp add: upt_rec)
  moreover have "replicate 4 x = [x, x, x, x]" for x :: u8 by (simp add: numeral_eq_Suc)
  ultimately show ?thesis unfolding ff be_bytes_def by simp
qed

lemma pattern64_length: "length (be_bytes (memset_pattern64 val)) = 8"
  by (simp add: pattern64_bytes)

text \<open>
  A byte memory seen through \<open>look\<close>: on a state that satisfies \<open>inv\<close> a load from \<open>R\<close> returns what
  is there, and a store to \<open>W\<close> changes that byte and no other.
\<close>

locale byte_mem =
  fixes rd :: "u32 \<Rightarrow> 'm \<Rightarrow> u8 res" and wr :: "u32 \<Rightarrow> u8 \<Rightarrow> 'm \<Rightarrow> 'm res"
    and look :: "'m \<Rightarrow> u32 \<Rightarrow> u8" and inv :: "'m \<Rightarrow> bool" and R :: "u32 set" and W :: "u32 set"
  assumes rd_look: "inv m \<Longrightarrow> a \<in> R \<Longrightarrow> rd a m = Inr (look m a)"
    and wr_look: "inv m \<Longrightarrow> a \<in> W \<Longrightarrow>
      \<exists>m'. wr a b m = Inr m' \<and> inv m' \<and> (\<forall>x\<in>R \<union> W. look m' x = (if x = a then b else look m x))"
begin

lemma load_look:
  "inv m \<Longrightarrow> blk a n \<subseteq> R \<Longrightarrow> n \<le> 2 ^ 32 \<Longrightarrow> load rd n a m = Inr (map (\<lambda>i. look m (a + of_nat i)) [0..<n])"
proof (induction n arbitrary: a)
  case (Suc n)
  have "blk (a + 1) n \<subseteq> R" using Suc.prems in_blk_Suc [of n _ a] by auto
  then have "load rd n (a + 1) m = Inr (map (\<lambda>i. look m (a + 1 + of_nat i)) [0..<n])" using Suc by simp
  moreover have "map (\<lambda>i. look m (a + of_nat i)) [0..<Suc n] = look m a # map (\<lambda>i. look m (a + 1 + of_nat i)) [0..<n]"
    by (simp add: upt_conv_Cons map_Suc_upt [symmetric] add.assoc del: upt_Suc)
  moreover have "rd a m = Inr (look m a)" using Suc.prems by (intro rd_look) auto
  ultimately show ?case by simp
qed simp

lemma store_look:
  "inv m \<Longrightarrow> blk a (length bs) \<subseteq> W \<Longrightarrow> length bs \<le> 2 ^ 32 \<Longrightarrow>
   \<exists>m'. store wr bs a m = Inr m' \<and> inv m'
      \<and> (\<forall>x\<in>R \<union> W. look m' x = (if x \<in> blk a (length bs) then bs ! unat (x - a) else look m x))"
proof (induction bs arbitrary: a m)
  case (Cons b bs)
  have len: "length bs < 2 ^ 32" using Cons.prems(3) by simp
  obtain m1 where m1: "wr a b m = Inr m1" "inv m1" "\<forall>x\<in>R \<union> W. look m1 x = (if x = a then b else look m x)"
    using wr_look [OF Cons.prems(1), of a b] Cons.prems(2) blk_first [of "length (b # bs)" a] by (auto simp del: blk_first)
  have "blk (a + 1) (length bs) \<subseteq> W" using Cons.prems(2) in_blk_Suc [OF len, of _ a] by auto
  then obtain m2 where m2: "store wr bs (a + 1) m1 = Inr m2" "inv m2"
    "\<forall>x\<in>R \<union> W. look m2 x = (if x \<in> blk (a + 1) (length bs) then bs ! unat (x - (a + 1)) else look m1 x)"
    using Cons.IH [OF m1(2), of "a + 1"] len by auto
  have "look m2 x = (if x \<in> blk a (length (b # bs)) then (b # bs) ! unat (x - a) else look m x)" if "x \<in> R \<union> W" for x
  proof (cases "x = a")
    case True
    then show ?thesis using m1(3) m2(3) that blk_next [OF len, of a] by simp
  next
    case False
    then have "unat (x - a) = Suc (unat (x - (a + 1)))" using unat_pred [of "x - a"] by (simp add: algebra_simps)
    then show ?thesis using m1(3) m2(3) that False in_blk_Suc [OF len, of x a] by simp
  qed
  then show ?case using m1(1) m2(1,2) by auto
qed simp

text \<open>A copy that goes forward is right unless the destination starts inside the source.\<close>

lemma copy_units_look:
  "inv m \<Longrightarrow> c * n \<le> unat (dst - src) \<Longrightarrow> blk src (c * n) \<subseteq> R \<Longrightarrow> blk dst (c * n) \<subseteq> W \<Longrightarrow>
   \<exists>m'. copy_units rd wr c n dst src m = Inr m' \<and> inv m'
     \<and> (\<forall>x\<in>R \<union> W. look m' x = (if x \<in> blk dst (c * n) then look m (src + (x - dst)) else look m x))"
proof (induction n arbitrary: dst src m)
  case (Suc n)
  let ?d = "dst + of_nat c" and ?s = "src + of_nat c"
  have sz: "c + c * n \<le> unat (dst - src)" using Suc.prems(2) by simp
  then have b: "c + c * n \<le> 2 ^ 32" "c \<le> 2 ^ 32" using u32_less [of "dst - src"] by simp_all
  note sub = Suc.prems(3,4) [unfolded mult_Suc_right]
  have sr: "blk src c \<subseteq> R" "blk ?s (c * n) \<subseteq> R" "blk dst c \<subseteq> W" "blk ?d (c * n) \<subseteq> W"
    using sub blk_skip(1) [OF b(1)] by auto
  let ?bs = "map (\<lambda>i. look m (src + of_nat i)) [0..<c]"
  have ld: "load rd c src m = Inr ?bs" using load_look [OF Suc.prems(1) sr(1) b(2)] .
  obtain m1 where m1: "store wr ?bs dst m = Inr m1" "inv m1"
    "\<forall>x\<in>R \<union> W. look m1 x = (if x \<in> blk dst c then ?bs ! unat (x - dst) else look m x)"
    using store_look [OF Suc.prems(1), of dst ?bs] sr(3) b(2) by auto
  have "?d - ?s = dst - src" by simp
  then obtain m2 where m2: "copy_units rd wr c n ?d ?s m1 = Inr m2" "inv m2"
    "\<forall>x\<in>R \<union> W. look m2 x = (if x \<in> blk ?d (c * n) then look m1 (?s + (x - ?d)) else look m1 x)"
    using Suc.IH [OF m1(2), of ?d ?s] sz sr by auto
  have "look m2 x = (if x \<in> blk dst (c * Suc n) then look m (src + (x - dst)) else look m x)" if x: "x \<in> R \<union> W" for x
  proof (cases "x \<in> blk ?d (c * n)")
    case True
    let ?y = "?s + (x - ?d)"
    have "?y - ?s = x - ?d" by (rule add_diff_cancel_left')
    then have "?y \<in> blk ?s (c * n)" using True by (simp only: blk_def mem_Collect_eq)
    then have "?y \<in> R" using sr by auto
    moreover have "?y \<notin> blk dst c"
      using behind_blk [OF sz] \<open>?y \<in> blk ?s (c * n)\<close> by blast
    moreover have "?y = src + (x - dst)" by simp
    ultimately show ?thesis using m1(3) m2(3) x True blk_skip(1) [OF b(1), of x dst] by (simp add: mult_Suc_right)
  next
    case False
    have "x \<in> blk dst c \<Longrightarrow> ?bs ! unat (x - dst) = look m (src + (x - dst))" by (simp add: blk_def)
    then show ?thesis using m1(3) m2(3) x False blk_skip(1) [OF b(1), of x dst] by (auto simp: mult_Suc_right)
  qed
  then show ?case using ld m1(1) m2(1,2) by auto
qed simp

text \<open>The three widths of \<open>memcpy\<close> move the same bytes.\<close>

lemma memcpy_look:
  assumes "inv m" "unat sz \<le> unat (dst - src)" "sz < 0xf0000000" "blk src (unat sz) \<subseteq> R" "blk dst (unat sz) \<subseteq> W"
  shows "\<exists>m'. memcpy rd wr dst src sz m = Inr m' \<and> inv m'
     \<and> (\<forall>x\<in>R \<union> W. look m' x = (if x \<in> blk dst (unat sz) then look m (src + (x - dst)) else look m x))"
proof -
  have *: "\<exists>m'. copy_units rd wr c (unat (sz div of_nat c)) dst src m = Inr m' \<and> inv m'
     \<and> (\<forall>x\<in>R \<union> W. look m' x = (if x \<in> blk dst (unat sz) then look m (src + (x - dst)) else look m x))"
    if "c * unat (sz div of_nat c) = unat sz" for c
    using copy_units_look [OF assms(1), of c "unat (sz div of_nat c)" dst src] assms(2,4,5) unfolding that by blast
  note u = unit_bytes [of sz]
  show ?thesis unfolding memcpy_def using assms(3) * [of 8] * [of 4] * [of 1] u by simp
qed

lemma memmove_look:
  assumes "inv m" "unat sz \<le> unat (dst - src)" "sz < 0xf0000000" "blk src (unat sz) \<subseteq> R" "blk dst (unat sz) \<subseteq> W"
  shows "\<exists>m'. memmove rd wr dst src sz m = Inr m' \<and> inv m'
     \<and> (\<forall>x\<in>R \<union> W. look m' x = (if x \<in> blk dst (unat sz) then look m (src + (x - dst)) else look m x))"
  using memcpy_look [OF assms] copy_units_look [OF assms(1), of 1 "unat sz" dst src] assms(2,4,5)
  unfolding memmove_def by simp

lemma fill_units_look:
  "inv m \<Longrightarrow> length bs * n \<le> 2 ^ 32 \<Longrightarrow> blk dst (length bs * n) \<subseteq> W \<Longrightarrow> bs \<noteq> [] \<Longrightarrow>
   \<exists>m'. fill_units wr bs n dst m = Inr m' \<and> inv m'
     \<and> (\<forall>x\<in>R \<union> W. look m' x = (if x \<in> blk dst (length bs * n) then bs ! (unat (x - dst) mod length bs) else look m x))"
proof (induction n arbitrary: dst m)
  case (Suc n)
  let ?c = "length bs" and ?d = "dst + of_nat (length bs)"
  have b: "?c + ?c * n \<le> 2 ^ 32" "?c \<le> 2 ^ 32" using Suc.prems(2) by simp_all
  note in_d = blk_skip [OF b(1), of _ dst]
  have w: "blk dst ?c \<subseteq> W" "blk ?d (?c * n) \<subseteq> W" using Suc.prems(3) in_d(1) by auto
  obtain m1 where m1: "store wr bs dst m = Inr m1" "inv m1"
    "\<forall>x\<in>R \<union> W. look m1 x = (if x \<in> blk dst ?c then bs ! unat (x - dst) else look m x)"
    using store_look [OF Suc.prems(1) w(1) b(2)] by blast
  obtain m2 where m2: "fill_units wr bs n ?d m1 = Inr m2" "inv m2"
    "\<forall>x\<in>R \<union> W. look m2 x = (if x \<in> blk ?d (?c * n) then bs ! (unat (x - ?d) mod ?c) else look m1 x)"
    using Suc.IH [OF m1(2), of ?d] b(1) w(2) Suc.prems(4) by auto
  have "look m2 x = (if x \<in> blk dst (?c * Suc n) then bs ! (unat (x - dst) mod ?c) else look m x)" if x: "x \<in> R \<union> W" for x
  proof (cases "x \<in> blk ?d (?c * n)")
    case True
    have "unat (x - dst) = unat (x - ?d) + ?c" using True b(1) blk_dist [of x dst ?c "?c * n"] by blast
    then show ?thesis using m2(3) x True in_d(1) [of x] by simp
  next
    case False
    then show ?thesis using m1(3) m2(3) x in_d(1) [of x] by (auto simp: blk_def)
  qed
  then show ?case using m1(1) m2(1,2) by auto
qed simp

lemma memset_look:
  assumes "inv m" "blk dst (unat sz) \<subseteq> W"
  shows "\<exists>m'. memset wr dst val sz m = Inr m' \<and> inv m'
     \<and> (\<forall>x\<in>R \<union> W. look m' x =
          (if x \<in> blk dst (unat sz)
           then (if 32 \<le> sz \<and> is_aligned dst 8 \<and> is_aligned sz 8 \<and> bit val 7 \<and> unat (x - dst) mod 8 < 4 then 0xff else ucast val)
           else look m x))"
proof -
  have sz: "unat sz \<le> 2 ^ 32" using u32_less [of sz] by simp
  have *: "\<exists>m'. fill_units wr bs (unat (sz div of_nat (length bs))) dst m = Inr m' \<and> inv m'
     \<and> (\<forall>x\<in>R \<union> W. look m' x = (if x \<in> blk dst (unat sz) then bs ! (unat (x - dst) mod length bs) else look m x))"
    if "length bs * unat (sz div of_nat (length bs)) = unat sz" "bs \<noteq> []" for bs
    using fill_units_look [OF assms(1), of bs "unat (sz div of_nat (length bs))" dst] assms(2) sz that(2) unfolding that(1) by blast
  note u = unit_bytes [of sz]
  consider (wide) "32 \<le> sz \<and> is_aligned dst 8 \<and> is_aligned sz 8"
    | (word) "\<not> (32 \<le> sz \<and> is_aligned dst 8 \<and> is_aligned sz 8)" "32 \<le> sz \<and> is_aligned dst 4 \<and> is_aligned sz 4"
    | (bytes) "\<not> (32 \<le> sz \<and> is_aligned dst 8 \<and> is_aligned sz 8)" "\<not> (32 \<le> sz \<and> is_aligned dst 4 \<and> is_aligned sz 4)"
    by blast
  then show ?thesis
  proof cases
    case wide
    have "be_bytes (memset_pattern64 val) ! (k mod 8) = (if bit val 7 \<and> k mod 8 < 4 then 0xff else ucast val)" for k
      by (simp add: pattern64_bytes nth_append)
    moreover have "be_bytes (memset_pattern64 val) \<noteq> []" using pattern64_length [of val] by auto
    moreover obtain m' where "fill_units wr (be_bytes (memset_pattern64 val)) (unat (sz div 8)) dst m = Inr m'" "inv m'"
      "\<forall>x\<in>R \<union> W. look m' x = (if x \<in> blk dst (unat sz)
          then be_bytes (memset_pattern64 val) ! (unat (x - dst) mod 8) else look m x)"
      using * [of "be_bytes (memset_pattern64 val)"] u(1) wide calculation(2) unfolding pattern64_length by auto
    ultimately show ?thesis using wide by (intro exI [of _ m']) (simp add: memset_def)
  next
    case word
    obtain m' where "fill_units wr (be_bytes (memset_pattern val)) (unat (sz div 4)) dst m = Inr m'" "inv m'"
      "\<forall>x\<in>R \<union> W. look m' x = (if x \<in> blk dst (unat sz) then ucast val else look m x)"
      using * [of "be_bytes (memset_pattern val)"] u(2) word(2) unfolding pattern_bytes by auto
    then show ?thesis using word by (intro exI [of _ m']) (auto simp: memset_def)
  next
    case bytes
    then show ?thesis using * [of "[ucast val]"] by (auto simp: memset_def)
  qed
qed

end

section \<open>The flat memory\<close>

definition flat_rd :: "u32 \<Rightarrow> (u32 \<Rightarrow> u8) \<Rightarrow> u8 res" where "flat_rd a m = Inr (m a)"
definition flat_wr :: "u32 \<Rightarrow> u8 \<Rightarrow> (u32 \<Rightarrow> u8) \<Rightarrow> (u32 \<Rightarrow> u8) res" where "flat_wr a b m = Inr (m(a := b))"

interpretation flat: byte_mem flat_rd flat_wr "\<lambda>m. m" "\<lambda>_. True" UNIV UNIV
  by unfold_locales (auto simp: flat_rd_def flat_wr_def)

text \<open>A zero-terminated string at an address.\<close>

fun cstr :: "(u32 \<Rightarrow> u8) \<Rightarrow> u32 \<Rightarrow> u8 list \<Rightarrow> bool" where
  "cstr m p [] \<longleftrightarrow> m p = 0"
| "cstr m p (c # cs) \<longleftrightarrow> c \<noteq> 0 \<and> m p = c \<and> cstr m (p + 1) cs"

lemma uint_gt_0: "(b::u8) \<noteq> 0 \<Longrightarrow> 0 < uint b"
  by (simp add: order_less_le uint_0_iff [symmetric])

lemma str_end_cstr: "cstr m p cs \<Longrightarrow> str_end m p = Some (p + of_nat (length cs))"
  by (induction cs arbitrary: p) (simp_all add: str_end.simps add.assoc)

lemma strlen_cstr: "cstr m p cs \<Longrightarrow> strlen m p = Some (of_nat (length cs))"
  by (simp add: strlen_def str_end_cstr)

lemma strcmp_cstr:
  "cstr m p xs \<Longrightarrow> cstr m q ys \<Longrightarrow> \<exists>d. strcmp m p q = Some d \<and> (d < 0 \<longleftrightarrow> ord_class.lexordp xs ys) \<and> (d = 0 \<longleftrightarrow> xs = ys)"
proof (induction xs arbitrary: p q ys)
  case Nil
  then show ?case by (cases ys) (auto simp: strcmp.simps uint_0_iff word_neq_0_conv [symmetric] uint_gt_0)
next
  case (Cons x xs)
  show ?case
  proof (cases ys)
    case Nil
    then show ?thesis using Cons.prems by (auto simp: strcmp.simps uint_0_iff)
  next
    case (Cons y ys')
    show ?thesis
    proof (cases "x = y")
      case True
      then show ?thesis using Cons.IH [of "p + 1" "q + 1" ys'] Cons.prems Cons by (simp add: strcmp.simps [of m p q])
    next
      case False
      then have "uint x \<noteq> uint y" by (simp add: word_uint_eq_iff)
      then show ?thesis using Cons.prems Cons False
        by (auto simp: strcmp.simps [of m p q] word_less_def)
    qed
  qed
qed

lemma str_prefix_cstr:
  "cstr m p xs \<Longrightarrow> cstr m q ys \<Longrightarrow> str_prefix m p q = Some (prefix ys xs)"
proof (induction xs arbitrary: p q ys)
  case Nil
  then show ?case by (cases ys) (simp_all add: str_prefix.simps)
next
  case (Cons x xs)
  then show ?case by (cases ys) (auto simp: str_prefix.simps [of m p q])
qed

text \<open>The first offset below the length at which \<open>ys\<close> occurs.\<close>

fun first_at :: "u8 list \<Rightarrow> u8 list \<Rightarrow> nat option" where
  "first_at ys [] = None"
| "first_at ys (x # xs) = (if prefix ys (x # xs) then Some 0 else map_option Suc (first_at ys xs))"

lemma first_at_least:
  "first_at ys xs = Some i \<longleftrightarrow> i < length xs \<and> prefix ys (drop i xs) \<and> (\<forall>j<i. \<not> prefix ys (drop j xs))"
proof (induction xs arbitrary: i)
  case (Cons x xs)
  show ?case
  proof (cases i)
    case (Suc k)
    have "(\<forall>j<Suc k. \<not> prefix ys (drop j (x # xs))) \<longleftrightarrow> \<not> prefix ys (x # xs) \<and> (\<forall>j<k. \<not> prefix ys (drop j xs))"
      by (auto simp: less_Suc_eq_0_disj)
    then show ?thesis using Cons.IH [of k] Suc by auto
  qed auto
qed simp

lemma first_at_none: "first_at ys xs = None \<longleftrightarrow> (\<forall>i<length xs. \<not> prefix ys (drop i xs))"
  by (induction xs) (auto simp: less_Suc_eq_0_disj)

lemma strstr_cstr:
  "cstr m p xs \<Longrightarrow> cstr m q ys \<Longrightarrow>
   strstr m p q = Some (case first_at ys xs of None \<Rightarrow> 0 | Some i \<Rightarrow> p + of_nat i)"
proof (induction xs arbitrary: p)
  case (Cons x xs)
  have "str_prefix m p q = Some (prefix ys (x # xs))" using str_prefix_cstr Cons.prems by blast
  then show ?case using Cons by (auto simp: strstr.simps [of m p q] split: option.splits)
qed (simp add: strstr.simps)

text \<open>A copy onto a place that the rest of the source does not meet.\<close>

lemma cstr_frame: "cstr m p cs \<Longrightarrow> (\<And>x. x \<in> blk p (Suc (length cs)) \<Longrightarrow> m' x = m x) \<Longrightarrow> length cs < 2 ^ 32 \<Longrightarrow> cstr m' p cs"
proof (induction cs arbitrary: p)
  case (Cons c cs)
  have "x \<in> blk (p + 1) (Suc (length cs)) \<Longrightarrow> m' x = m x" for x
    using Cons.prems(2) in_blk_Suc [of "Suc (length cs)" x p] Cons.prems(3) by simp
  then show ?case using Cons.IH [of "p + 1"] Cons.prems by simp
qed simp

lemma str_copy_cstr:
  "cstr m s cs \<Longrightarrow> Suc (length cs) \<le> unat (d - s) \<Longrightarrow>
   str_copy d s m = Some (d + of_nat (Suc (length cs)),
     \<lambda>x. if x \<in> blk d (Suc (length cs)) then m (s + (x - d)) else m x)"
proof (induction cs arbitrary: d s m)
  case Nil
  have "x \<in> blk d 1 \<longleftrightarrow> x = d" for x using in_blk_Suc [of 0 x d] by simp
  then show ?case using Nil by (auto simp: str_copy.simps Let_def)
next
  case (Cons c cs)
  let ?n = "Suc (length cs)" and ?m = "m(d := m s)"
  have n: "?n < 2 ^ 32" using Cons.prems(2) u32_less [of "d - s"] by simp
  have sz: "1 + ?n \<le> unat (d - s)" using Cons.prems(2) by simp
  have keep: "?m x = m x" if "x \<in> blk (s + 1) ?n" for x
    using behind_blk [OF sz, of x] that by auto
  then have "cstr ?m (s + 1) cs" using cstr_frame [of m "s + 1" cs ?m] Cons.prems(1) n by simp
  moreover have "Suc (length cs) \<le> unat ((d + 1) - (s + 1))" using Cons.prems(2) by simp
  ultimately have r: "str_copy (d + 1) (s + 1) ?m = Some (d + 1 + of_nat ?n,
      \<lambda>x. if x \<in> blk (d + 1) ?n then ?m (s + 1 + (x - (d + 1))) else ?m x)" using Cons.IH by blast
  have "(if x \<in> blk (d + 1) ?n then ?m (s + 1 + (x - (d + 1))) else ?m x)
      = (if x \<in> blk d (Suc ?n) then m (s + (x - d)) else m x)" for x
  proof (cases "x \<in> blk (d + 1) ?n")
    case True
    have "s + 1 + (x - (d + 1)) - (s + 1) = x - (d + 1)" by simp
    then have "s + 1 + (x - (d + 1)) \<in> blk (s + 1) ?n" using True by (simp only: blk_def mem_Collect_eq)
    moreover have "s + 1 + (x - (d + 1)) = s + (x - d)" by simp
    ultimately show ?thesis using keep True in_blk_Suc [OF n, of x d] by (simp only: if_True if_False simp_thms)
  qed (use in_blk_Suc [OF n, of x d] in auto)
  then show ?case using Cons.prems(1) r by (simp add: str_copy.simps [of d s] Let_def add.assoc)
qed

section \<open>Properties\<close>

text \<open>
  C23. \<open>memcpy\<close> and \<open>memmove\<close>, whichever of their loops of 8, 4 or 1 bytes runs, equal the one copy of
  \<open>sz\<close> bytes at once, and touch nothing else, provided the destination does not start inside the source.
\<close>

theorem memcpy_memmove_exact:
  fixes sz :: u32 and m :: "u32 \<Rightarrow> u8"
  assumes "unat sz \<le> unat (dst - src)" "sz < 0xf0000000"
  defines "copied \<equiv> \<lambda>x. if x \<in> blk dst (unat sz) then m (src + (x - dst)) else m x"
  shows "memcpy flat_rd flat_wr dst src sz m = Inr copied \<and> memmove flat_rd flat_wr dst src sz m = Inr copied"
  using flat.memcpy_look [where m = m and sz = sz and dst = dst and src = src] flat.memmove_look [where m = m and sz = sz and dst = dst and src = src] assms(1,2)
  unfolding copied_def by (auto simp: fun_eq_iff)

text \<open>
  \<open>memset\<close> fills exactly the \<open>sz\<close> bytes at \<open>dst\<close>; but on its 64-bit path (at least 32 bytes, address and
  size multiples of 8) with a value whose bit 7 is set, the sign extension of the pattern leaves \<open>0xff\<close> in the
  first four bytes of each eight.
\<close>

theorem memset_exact:
  "memset flat_wr dst val sz m = Inr (\<lambda>x.
     if x \<in> blk dst (unat sz)
     then (if 32 \<le> sz \<and> is_aligned dst 8 \<and> is_aligned sz 8 \<and> bit val 7 \<and> unat (x - dst) mod 8 < 4 then 0xff
           else ucast val)
     else m x)"
  using flat.memset_look [where m = m and dst = dst and sz = sz and val = val] by (auto simp: fun_eq_iff)

text \<open>
  On zero-terminated strings \<open>strlen\<close>, \<open>strcmp\<close> and \<open>strstr\<close> return: the length, a number whose sign
  compares the strings in the lexicographic order of their bytes, and the address of the first occurrence of the
  second string at an offset below the length of the first, or a null pointer if there is none.
\<close>

theorem string_functions:
  assumes "cstr m p xs" "cstr m q ys"
  shows "strlen m p = Some (of_nat (length xs))
    \<and> (\<exists>d. strcmp m p q = Some d \<and> (d < 0 \<longleftrightarrow> ord_class.lexordp xs ys) \<and> (d = 0 \<longleftrightarrow> xs = ys))
    \<and> (\<exists>r. strstr m p q = Some r \<and>
        (if \<exists>i<length xs. prefix ys (drop i xs)
         then r = p + of_nat (LEAST i. i < length xs \<and> prefix ys (drop i xs)) else r = 0))"
proof -
  let ?P = "\<lambda>i. i < length xs \<and> prefix ys (drop i xs)"
  have "first_at ys xs = (if \<exists>i<length xs. prefix ys (drop i xs) then Some (LEAST i. ?P i) else None)"
  proof (cases "first_at ys xs")
    case None
    then show ?thesis using first_at_none by auto
  next
    case (Some i)
    then have i: "?P i" "\<forall>j<i. \<not> prefix ys (drop j xs)" by (auto simp: first_at_least)
    then have "(LEAST j. ?P j) = i" by (intro Least_equality) (auto simp: not_less [symmetric])
    then show ?thesis using Some i(1) by auto
  qed
  then show ?thesis using strlen_cstr [OF assms(1)] strcmp_cstr [OF assms] strstr_cstr [OF assms] by auto
qed

text \<open>
  \<open>strcpy\<close> of a string to a place that does not start inside it returns with the string and its
  terminator at the destination and all other memory as it was, and \<open>stpcpy\<close> returns the address of the
  new terminator.
\<close>

theorem strcpy_exact:
  assumes "cstr m s cs" "length cs < unat (d - s)"
  defines "m' \<equiv> \<lambda>x. if x \<in> blk d (Suc (length cs)) then m (s + (x - d)) else m x"
  shows "strcpy d s m = Some (d, m') \<and> stpcpy d s m = Some (d + of_nat (length cs), m')"
  using str_copy_cstr [of m s cs d] assms by (simp add: strcpy_def stpcpy_def)

text \<open>The overlap the copies get wrong: one byte up, the first byte is repeated.\<close>

lemma memmove_overlap: "memmove flat_rd flat_wr (p + 1) p 2 m = Inr (m(p + 1 := m p, p + 2 := m p))"
proof -
  have two: "unat (2::u32) = Suc (Suc 0)" "p + 2 = p + 1 + 1" by simp_all
  show ?thesis unfolding memmove_def two by (simp add: flat_rd_def flat_wr_def)
qed

text \<open>\<open>strstr\<close> of two empty strings is a null pointer.\<close>

lemma strstr_empty: "m p = 0 \<Longrightarrow> strstr m p q = Some 0"
  by (simp add: strstr.simps)

section \<open>Concrete memories\<close>

definition hello :: "u32 \<Rightarrow> u8" where
  "hello = (\<lambda>_. 0)(0x10 := 0x61, 0x11 := 0x62, 0x12 := 0x61, 0x20 := 0x62, 0x21 := 0x61)"

theorem memcpy_memmove_exact_witness:
  "\<exists>m'. memcpy flat_rd flat_wr 0x20 0x10 3 hello = Inr m' \<and> memmove flat_rd flat_wr 0x20 0x10 3 hello = Inr m'
     \<and> m' 0x20 = 0x61"
  using memcpy_memmove_exact [of 3 "0x20" "0x10" hello] by (simp add: hello_def)

theorem string_functions_witness:
  "strlen hello 0x10 = Some 3 \<and> (\<exists>d. strcmp hello 0x10 0x20 = Some d \<and> d < 0) \<and> (\<exists>r. strstr hello 0x10 0x20 = Some r)"
  using string_functions [of hello "0x10" "[0x61, 0x62, 0x61]" "0x20" "[0x62, 0x61]"] by (auto simp: hello_def)

theorem strcpy_exact_witness: "\<exists>m'. strcpy 0x30 0x10 hello = Some (0x30, m') \<and> stpcpy 0x30 0x10 hello = Some (0x33, m')"
  using strcpy_exact [of hello "0x10" "[0x61, 0x62, 0x61]" "0x30"] by (auto simp: hello_def)

end
