(* ===== verification/Intc.thy ===== *)
theory Intc
  imports Prelude
begin

text \<open>
  The interrupt controller: \<open>lib/intc/sparc_irqmp/intc.h\<close> and its wrapper \<open>krn/kintc.h\<close>, in the
  build with \<open>DEBUG\<close>, where a number outside the range of the controller is refused and the wrapper
  asserts. The device registers the driver uses are the pending bits, the mask of the processor
  and, in the status register, the number of the interrupt that announces the extended ones;
  writing the register \<open>clear\<close> clears pending bits, which is what the device does with it.
\<close>

record intc =
  ic_pending :: u32
  ic_mask :: u32
  ic_eirq :: nat
  ic_eack :: nat

definition Irq_min :: nat where "Irq_min = 1"
definition Irq_max :: nat where "Irq_max = 15"
definition Irq_emax :: nat where "Irq_emax = 31"

definition irqmax :: "intc \<Rightarrow> nat" where
  "irqmax ic = (if ic_eirq ic \<noteq> 0 then Irq_emax else Irq_max)"

definition intc_init :: "intc \<Rightarrow> intc" where "intc_init ic = ic\<lparr>ic_pending := 0\<rparr>"

text \<open>The range check of the driver's functions and the assertion of the wrapper's.\<close>

definition intc_valid :: "intc \<Rightarrow> nat \<Rightarrow> bool" where
  "intc_valid ic irq = (\<not> (irq < Irq_min \<or> irq > irqmax ic) \<and> irq \<noteq> ic_eirq ic)"

definition intc_unmask :: "nat \<Rightarrow> intc \<Rightarrow> intc res" where
  "intc_unmask irq ic = res_bind (wassert (intc_valid ic irq)) (\<lambda>_. Inr (ic\<lparr>ic_mask := ic_mask ic OR push_bit irq 1\<rparr>))"

definition intc_mask :: "nat \<Rightarrow> intc \<Rightarrow> intc res" where
  "intc_mask irq ic = res_bind (wassert (intc_valid ic irq)) (\<lambda>_. Inr (ic\<lparr>ic_mask := ic_mask ic AND NOT (push_bit irq 1)\<rparr>))"

definition intc_clear :: "nat \<Rightarrow> intc \<Rightarrow> intc res" where
  "intc_clear irq ic =
     res_bind (wassert (intc_valid ic irq)) (\<lambda>_. Inr (ic\<lparr>ic_pending := ic_pending ic AND NOT (push_bit irq 1)\<rparr>))"

definition intc_eoi :: "nat \<Rightarrow> intc \<Rightarrow> intc res" where
  "intc_eoi irq ic = res_bind (wassert (intc_valid ic irq)) (\<lambda>_. Inr ic)"

text \<open>A shift of a 32-bit \<open>1\<close> by 32 or more is undefined.\<close>

definition intc_is_pending :: "nat \<Rightarrow> intc \<Rightarrow> bool res" where
  "intc_is_pending irq ic = (if irq < 32 then Inr (ic_pending ic AND push_bit irq 1 \<noteq> 0) else Inl Bad_access)"

definition intc_real_irq :: "nat \<Rightarrow> intc \<Rightarrow> nat res" where
  "intc_real_irq irq ic =
     (if irq < Irq_min \<or> irq > Irq_max then Inr (2 ^ 32 - 2)
      else let irq' = (if irq = ic_eirq ic then ic_eack ic else irq) in
           res_bind (wassert (irq' \<noteq> 0)) (\<lambda>_. Inr irq'))"

section \<open>What the operations do to the bits\<close>

lemma intc_valid_bound: "intc_valid ic irq \<Longrightarrow> irq < 32"
  by (auto simp: intc_valid_def irqmax_def Irq_max_def Irq_emax_def split: if_splits)

lemma intc_unmask_bits:
  "intc_unmask irq ic = Inr ic' \<Longrightarrow> bit (ic_mask ic') n \<longleftrightarrow> n = irq \<or> bit (ic_mask ic) n"
  using intc_valid_bound [of ic irq] by (auto simp: intc_unmask_def bit_or_iff bit_exp_iff)

lemma intc_mask_bits:
  "intc_mask irq ic = Inr ic' \<Longrightarrow> bit (ic_mask ic') n \<longleftrightarrow> n \<noteq> irq \<and> bit (ic_mask ic) n"
  using intc_valid_bound [of ic irq] bit_imp_le_length [of "ic_mask ic" n]
  by (auto simp: intc_mask_def bit_and_iff bit_not_iff bit_exp_iff)

lemma intc_clear_bits:
  "intc_clear irq ic = Inr ic' \<Longrightarrow> bit (ic_pending ic') n \<longleftrightarrow> n \<noteq> irq \<and> bit (ic_pending ic) n"
  using intc_valid_bound [of ic irq] bit_imp_le_length [of "ic_pending ic" n]
  by (auto simp: intc_clear_def bit_and_iff bit_not_iff bit_exp_iff)

lemma intc_is_pending_bit: "irq < 32 \<Longrightarrow> intc_is_pending irq ic = Inr (bit (ic_pending ic) irq)"
proof -
  assume "irq < 32"
  moreover have "ic_pending ic AND push_bit irq 1 \<noteq> 0 \<longleftrightarrow> bit (ic_pending ic) irq"
  proof -
    have "bit (ic_pending ic AND push_bit irq 1) n \<longleftrightarrow> n = irq \<and> bit (ic_pending ic) irq" for n
      using \<open>irq < 32\<close> by (auto simp: bit_and_iff bit_exp_iff)
    then show ?thesis by (metis bit_0_eq bot_apply bot_bool_def bit_eqI)
  qed
  ultimately show ?thesis by (simp add: intc_is_pending_def)
qed

end
