(* ===== verification/Ipc.thy ===== *)
theory Ipc
  imports Sched Aspace Wstring Intc
begin

text \<open>
  Inter-process communication: \<open>krn/ipc.cpp\<close>, the search for senders of \<open>krn/threads.h\<close> and
  \<open>krn/thread.h\<close>, and the page fault and interrupt entries of \<open>krn/kentry.cpp\<close>. The state of the
  kernel is put together from its threads, its tasks, the physical memory that string items are
  copied in, and the interrupt controller. Where the code calls the scheduler in the middle of a
  function, the rest of the function is kept as the continuation of the calling thread, with its
  local variables: \<open>s_cont\<close> is what the kernel stacks of the threads hold.
\<close>

section \<open>The state\<close>

record items =
  it_tag :: msgtag
  it_i :: nat
  it_buf :: int
  it_copied :: u32
  it_saved :: "(u32 \<times> fpage) option"

record ipc_loc =
  l_to :: thrid
  l_from :: thrid
  l_tmo :: u32
  l_tag :: msgtag
  l_snd :: "nat option"
  l_rcv :: "nat option"

text \<open>
  What a thread that left the processor inside the kernel goes on with: nothing (it returns to user
  mode), the loop of \<open>check_force_exception\<close>, the receive phase of \<open>do_ipc\<close>, its end, the rest of the
  typed items in one of the two phases, or the reply to a page fault.
\<close>

datatype kcont =
  C_none
| C_exit
| C_rcv ipc_loc
| C_end ipc_loc
| C_items ipc_phase ipc_loc nat nat items
| C_pf_reply ipc_loc nat fpage

text \<open>
  Tasks are named by their place in the list of \<open>Tasks_t\<close>, from 1 on; 0 is the null pointer.
  \<open>s_tasks\<close> are the places in use and \<open>s_task_cnt\<close> the counter of task identifiers. \<open>s_kroot\<close> is a page
  table with the kernel's part only, \<open>s_kupage\<close> the page the constructor of a task takes from the kernel
  memory, \<open>s_kip_pa\<close> the address of the kernel interface page, and \<open>s_stale\<close> what the kernel stack
  holds where an object without constructor is put.
\<close>

record sys =
  s_k :: kernel
  s_task :: "nat \<Rightarrow> task"
  s_tasks :: "nat list"
  s_task_cnt :: nat
  s_kroot :: "cell list"
  s_kupage :: "nat \<Rightarrow> u64"
  s_kip_pa :: u64
  s_mem :: "u64 \<Rightarrow> u8"
  s_intc :: intc
  s_stale :: u32
  s_cont :: "nat \<Rightarrow> kcont"

definition kop :: "(kernel \<Rightarrow> kernel res) \<Rightarrow> sys \<Rightarrow> sys res" where
  "kop f s = res_bind (f (s_k s)) (\<lambda>k. Inr (s\<lparr>s_k := k\<rparr>))"

definition icop :: "(intc \<Rightarrow> intc res) \<Rightarrow> sys \<Rightarrow> sys res" where
  "icop f s = res_bind (f (s_intc s)) (\<lambda>ic. Inr (s\<lparr>s_intc := ic\<rparr>))"

definition supd :: "nat \<Rightarrow> (thread \<Rightarrow> thread) \<Rightarrow> sys \<Rightarrow> sys" where
  "supd t f s = s\<lparr>s_k := thr_upd t f (s_k s)\<rparr>"

abbreviation sthr :: "sys \<Rightarrow> nat \<Rightarrow> thread" where "sthr s t \<equiv> k_thr (s_k s) t"

definition thr_task :: "sys \<Rightarrow> nat \<Rightarrow> task" where "thr_task s t = s_task s (t_task (sthr s t))"

definition tkop :: "(task \<Rightarrow> task res) \<Rightarrow> nat \<Rightarrow> sys \<Rightarrow> sys res" where
  "tkop f t s = res_bind (f (thr_task s t)) (\<lambda>tk. Inr (s\<lparr>s_task := (s_task s)(t_task (sthr s t) := tk)\<rparr>))"

text \<open>Message and buffer registers; an index past the array is not defined.\<close>

definition mr_get :: "nat \<Rightarrow> nat \<Rightarrow> sys \<Rightarrow> u32 res" where
  "mr_get t i s = (let mr = u_mr (t_utcb (sthr s t)) in if i < length mr then Inr (mr ! i) else Inl Bad_access)"

definition utcb_upd :: "(utcb \<Rightarrow> utcb) \<Rightarrow> thread \<Rightarrow> thread" where
  "utcb_upd f th = th\<lparr>t_utcb := f (t_utcb th)\<rparr>"

definition mr_set :: "nat \<Rightarrow> nat \<Rightarrow> u32 \<Rightarrow> sys \<Rightarrow> sys res" where
  "mr_set t i v s =
     (if i < length (u_mr (t_utcb (sthr s t)))
      then Inr (supd t (utcb_upd (\<lambda>u. u\<lparr>u_mr := (u_mr u)[i := v]\<rparr>)) s) else Inl Bad_access)"

definition br_get :: "nat \<Rightarrow> int \<Rightarrow> sys \<Rightarrow> u32 res" where
  "br_get t i s =
     (let br = u_br (t_utcb (sthr s t)) in if 0 \<le> i \<and> nat i < length br then Inr (br ! nat i) else Inl Bad_access)"

text \<open>The words of the entry frame that hold the arguments and the result of the system call.\<close>

definition scall_ipc_to :: "thread \<Rightarrow> thrid" where "scall_ipc_to th = t_frame th ! 120"
definition scall_ipc_from_spec :: "thread \<Rightarrow> thrid" where "scall_ipc_from_spec th = t_frame th ! 121"
definition scall_ipc_timeouts :: "thread \<Rightarrow> u32" where "scall_ipc_timeouts th = t_frame th ! 122"
definition scall_ipc_from :: "thrid \<Rightarrow> thread \<Rightarrow> thread" where "scall_ipc_from v th = th\<lparr>t_frame := (t_frame th)[120 := v]\<rparr>"

section \<open>Copying memory\<close>

text \<open>Physical memory by words of four bytes, most significant first.\<close>

definition load_phys_word :: "(u64 \<Rightarrow> u8) \<Rightarrow> u32 \<Rightarrow> u8 list" where
  "load_phys_word mem pa = map (\<lambda>i. mem (ucast pa + of_nat i)) [0..<4]"

definition store_phys_word :: "u8 list \<Rightarrow> u32 \<Rightarrow> (u64 \<Rightarrow> u8) \<Rightarrow> (u64 \<Rightarrow> u8)" where
  "store_phys_word w pa mem = (\<lambda>x. if x - ucast pa < 4 then w ! unat (x - ucast pa) else mem x)"

definition store_phys_byte :: "u8 \<Rightarrow> u32 \<Rightarrow> (u64 \<Rightarrow> u8) \<Rightarrow> (u64 \<Rightarrow> u8)" where
  "store_phys_byte val pa mem =
     (let aligned_pa = pa AND NOT 3; word = load_phys_word mem aligned_pa in
      store_phys_word (word[unat (pa - aligned_pa) := val]) aligned_pa mem)"

definition load_phys_byte :: "u32 \<Rightarrow> (u64 \<Rightarrow> u8) \<Rightarrow> u8" where
  "load_phys_byte pa mem =
     (let aligned_pa = pa AND NOT 3 in load_phys_word mem aligned_pa ! unat (pa - aligned_pa))"

text \<open>
  The kernel's own loads and stores at user addresses go through the page table of the current
  address space with the rights of supervisor mode: code 4 of the reference MMU allows no load and
  codes 0, 2, 4 and 6 no store. A page fault of the kernel itself panics (\<open>sparc_entry_pagefault\<close>).
\<close>

definition user_rd :: "cell list \<Rightarrow> u32 \<Rightarrow> (u64 \<Rightarrow> u8) \<Rightarrow> u8 res" where
  "user_rd root va mem =
     (case xlate Sparc_levels root (unat va) of
        None \<Rightarrow> Inl Panic
      | Some (pa, acc, _) \<Rightarrow> if acc \<noteq> 4 then Inr (mem pa) else Inl Panic)"

definition user_wr :: "cell list \<Rightarrow> u32 \<Rightarrow> u8 \<Rightarrow> (u64 \<Rightarrow> u8) \<Rightarrow> (u64 \<Rightarrow> u8) res" where
  "user_wr root va b mem =
     (case xlate Sparc_levels root (unat va) of
        None \<Rightarrow> Inl Panic
      | Some (pa, acc, _) \<Rightarrow> if odd acc then Inr (mem(pa := b)) else Inl Panic)"

primrec phys_dst_words :: "cell list \<Rightarrow> nat \<Rightarrow> u32 \<Rightarrow> u32 \<Rightarrow> (u64 \<Rightarrow> u8) \<Rightarrow> (u64 \<Rightarrow> u8) res" where
  "phys_dst_words root 0 src dst_pa mem = Inr mem"
| "phys_dst_words root (Suc n) src dst_pa mem =
     res_bind (load (user_rd root) 4 src mem) (\<lambda>w.
     phys_dst_words root n (src + 4) (dst_pa + 4) (store_phys_word w dst_pa mem))"

primrec phys_dst_bytes :: "cell list \<Rightarrow> nat \<Rightarrow> u32 \<Rightarrow> u32 \<Rightarrow> (u64 \<Rightarrow> u8) \<Rightarrow> (u64 \<Rightarrow> u8) res" where
  "phys_dst_bytes root 0 src dst_pa mem = Inr mem"
| "phys_dst_bytes root (Suc n) src dst_pa mem =
     res_bind (user_rd root src mem) (\<lambda>b.
     phys_dst_bytes root n (src + 1) (dst_pa + 1) (store_phys_byte b dst_pa mem))"

definition memcpy_phys_dst :: "cell list \<Rightarrow> u32 \<Rightarrow> u32 \<Rightarrow> u32 \<Rightarrow> (u64 \<Rightarrow> u8) \<Rightarrow> (u64 \<Rightarrow> u8) res" where
  "memcpy_phys_dst root src dst_pa len mem =
     (if is_aligned src 4 \<and> is_aligned dst_pa 4 \<and> is_aligned len 4
      then phys_dst_words root (unat (len div 4)) src dst_pa mem
      else phys_dst_bytes root (unat len) src dst_pa mem)"

primrec phys_src_words :: "cell list \<Rightarrow> nat \<Rightarrow> u32 \<Rightarrow> u32 \<Rightarrow> (u64 \<Rightarrow> u8) \<Rightarrow> (u64 \<Rightarrow> u8) res" where
  "phys_src_words root 0 src_pa dst mem = Inr mem"
| "phys_src_words root (Suc n) src_pa dst mem =
     res_bind (store (user_wr root) (load_phys_word mem src_pa) dst mem)
       (phys_src_words root n (src_pa + 4) (dst + 4))"

primrec phys_src_bytes :: "cell list \<Rightarrow> nat \<Rightarrow> u32 \<Rightarrow> u32 \<Rightarrow> (u64 \<Rightarrow> u8) \<Rightarrow> (u64 \<Rightarrow> u8) res" where
  "phys_src_bytes root 0 src_pa dst mem = Inr mem"
| "phys_src_bytes root (Suc n) src_pa dst mem =
     res_bind (user_wr root dst (load_phys_byte src_pa mem) mem)
       (phys_src_bytes root n (src_pa + 1) (dst + 1))"

definition memcpy_phys_src :: "cell list \<Rightarrow> u32 \<Rightarrow> u32 \<Rightarrow> u32 \<Rightarrow> (u64 \<Rightarrow> u8) \<Rightarrow> (u64 \<Rightarrow> u8) res" where
  "memcpy_phys_src root src_pa dst len mem =
     (if is_aligned src_pa 4 \<and> is_aligned dst 4 \<and> is_aligned len 4
      then phys_src_words root (unat (len div 4)) src_pa dst mem
      else phys_src_bytes root (unat len) src_pa dst mem)"

definition pg_down :: "u32 \<Rightarrow> u32" where "pg_down n = n AND NOT 0xfff"
definition pg_up :: "u32 \<Rightarrow> u32" where "pg_up n = (n + 0xfff) AND NOT 0xfff"
definition pg_offset :: "u32 \<Rightarrow> u32" where "pg_offset n = n AND 0xfff"

definition cur_root :: "sys \<Rightarrow> cell list" where
  "cur_root s = as_root (tk_aspace (thr_task s (k_current (s_k s))))"

definition mop :: "((u64 \<Rightarrow> u8) \<Rightarrow> (u64 \<Rightarrow> u8) res) \<Rightarrow> sys \<Rightarrow> sys res" where
  "mop f s = res_bind (f (s_mem s)) (\<lambda>m. Inr (s\<lparr>s_mem := m\<rparr>))"

definition copy_thread_buf :: "u32 \<Rightarrow> u32 \<Rightarrow> u32 \<Rightarrow> nat \<Rightarrow> nat \<Rightarrow> sys \<Rightarrow> sys res" where
  "copy_thread_buf src dst len sndr rcv s =
     (let cur = k_current (s_k s); task = (\<lambda>t. t_task (sthr s t)); root = cur_root s in
      if len = 0 then Inr s
      else if task sndr = task rcv then
        res_bind (wassert (task sndr = task cur)) (\<lambda>_.
        mop (memcpy (user_rd root) (user_wr root) dst src len) s)
      else if task sndr = task cur then
        if pg_down dst \<noteq> pg_down (dst + len - 1) then Inl Panic
        else
          res_bind (as_walk (tk_aspace (thr_task s rcv)) (pg_down dst) (pg_up len)) (\<lambda>dst_pa.
          res_bind (wassert (dst_pa \<noteq> 0)) (\<lambda>_.
          mop (memcpy_phys_dst root src (ucast (dst_pa + ucast (pg_offset dst))) len) s))
      else
        res_bind (wassert (task rcv = task cur)) (\<lambda>_.
        if pg_down src \<noteq> pg_down (src + len - 1) then Inl Panic
        else
          res_bind (as_walk (tk_aspace (thr_task s sndr)) (pg_down src) (pg_up len)) (\<lambda>src_pa.
          res_bind (wassert (src_pa \<noteq> 0)) (\<lambda>_.
          mop (memcpy_phys_src root (ucast (src_pa + ucast (pg_offset src))) dst len) s))))"

section \<open>Page faults and exceptions\<close>

definition do_pfault_ipc :: "u32 \<Rightarrow> nat \<Rightarrow> nat \<Rightarrow> u32 \<Rightarrow> u32 \<Rightarrow> u32 \<Rightarrow> kernel \<Rightarrow> kernel res" where
  "do_pfault_ipc stale sndr rcv fault_addr fault_access fault_inst k =
     res_bind (wassert (sndr \<noteq> rcv)) (\<lambda>_.
     let (tag, w1) =
           (if fault_access = 8 then (tag_set_proto_pf 0 tag_Io_pagefault Acc_rw 2 0, fpage_set_io stale fault_addr 1)
            else (tag_set_proto_pf 0 tag_Pagefault fault_access 2 0, fault_addr));
         from = t_glob_id (k_thr k sndr) in
     Inr (thr_upd rcv (\<lambda>x. scall_ipc_from from
            (utcb_upd (\<lambda>u. u\<lparr>u_mr := (u_mr u)[0 := tag, 1 := w1, 2 := fault_inst]\<rparr>) x)) k))"

definition Frame_words :: nat where "Frame_words = 132"

definition do_exc_ipc :: "nat \<Rightarrow> nat \<Rightarrow> int \<Rightarrow> u32 \<Rightarrow> kernel \<Rightarrow> kernel res" where
  "do_exc_ipc sndr rcv exc_type pfault_addr_and_acc k =
     res_bind (wassert (sndr \<noteq> rcv)) (\<lambda>_.
     let tag = tag_set_proto 0 exc_type (of_nat (1 + Frame_words)) 0;
         frame = t_frame (k_thr k sndr); from = t_glob_id (k_thr k sndr) in
     Inr (thr_upd rcv (\<lambda>x. scall_ipc_from from
            (utcb_upd (\<lambda>u. u\<lparr>u_mr := blit ((u_mr u)[0 := tag, 1 := pfault_addr_and_acc]) 2 frame\<rparr>) x)) k))"

definition pf_save :: "u32 \<Rightarrow> u32 \<Rightarrow> u32 \<Rightarrow> thread \<Rightarrow> thread" where
  "pf_save addr access inst th = th\<lparr>t_pf_addr := addr, t_pf_access := access, t_pf_inst := inst\<rparr>"

definition exc_save :: "int \<Rightarrow> u32 \<Rightarrow> thread \<Rightarrow> thread" where
  "exc_save exc_type pf th = th\<lparr>t_exc_type := exc_type, t_exc_pf := pf\<rparr>"

definition process_pfault :: "u32 \<Rightarrow> nat \<Rightarrow> u32 \<Rightarrow> u32 \<Rightarrow> u32 \<Rightarrow> kernel \<Rightarrow> kernel res" where
  "process_pfault stale thr fault_addr fault_access fault_inst k =
     (case t_pager (k_thr k thr) of
        None \<Rightarrow> Inl Panic
      | Some pgr \<Rightarrow>
          let pgr_id = t_glob_id (k_thr k pgr) in
          if t_state (k_thr k pgr) = Receive_ipc then
            res_bind (do_pfault_ipc stale thr pgr fault_addr fault_access fault_inst k) (\<lambda>k1.
            res_bind (set_state pgr Ready k1) (\<lambda>k2.
            res_bind (set_state thr Receive_pfault
              (thr_upd thr (\<lambda>x. (pf_save fault_addr fault_access fault_inst x)\<lparr>t_from_spec := pgr_id\<rparr>) k2)) (\<lambda>k3.
            Inr (switch_to pgr k3))))
          else
            res_bind (set_state thr Send_pfault
              (thr_upd thr (\<lambda>x. (pf_save fault_addr fault_access fault_inst x)\<lparr>t_to := pgr_id\<rparr>) k)) switch_to_next)"

definition default_handler :: "kernel \<Rightarrow> nat res" where
  "default_handler k = res_bind (find_thr k thrid_roottask) (\<lambda>r. case r of None \<Rightarrow> Inl Panic | Some e \<Rightarrow> Inr e)"

definition find_handler :: "nat \<Rightarrow> kernel \<Rightarrow> nat res" where
  "find_handler thr k =
     res_bind (find_thr k (u_exc_handler (t_utcb (k_thr k thr)))) (\<lambda>f.
     case f of
       Some exh \<Rightarrow> if t_is_active (k_thr k exh) then Inr exh else default_handler k
     | None \<Rightarrow> default_handler k)"

definition process_exception :: "nat \<Rightarrow> int \<Rightarrow> u32 \<Rightarrow> kernel \<Rightarrow> kernel res" where
  "process_exception thr exc_type pf k =
     res_bind (find_handler thr k) (\<lambda>exh.
     let exh_id = t_glob_id (k_thr k exh) in
     if t_state (k_thr k exh) = Receive_ipc then
       res_bind (do_exc_ipc thr exh exc_type pf k) (\<lambda>k1.
       res_bind (set_state exh Ready k1) (\<lambda>k2.
       res_bind (set_state thr Receive_exception (thr_upd thr (\<lambda>x. x\<lparr>t_from_spec := exh_id\<rparr>) k2)) (\<lambda>k3.
       Inr (switch_to exh k3))))
     else
       res_bind (set_state thr Send_exception
         (thr_upd thr (\<lambda>x. (exc_save exc_type pf x)\<lparr>t_to := exh_id\<rparr>) k)) switch_to_next)"

section \<open>Transfer of a message\<close>

text \<open>
  \<open>do_normal_ipc\<close>. Its head copies the tag, the sender's identifier and the untyped words; the loop
  over the typed words is left with a result, or suspended at an item whose flexpage the sender has
  not mapped, to be tried once more when the thread runs again. The return codes other than 0
  follow failed assertions.
\<close>

primrec copy_untyped :: "nat \<Rightarrow> u32 list \<Rightarrow> u32 list \<Rightarrow> u32 list" where
  "copy_untyped 0 smr rmr = rmr"
| "copy_untyped (Suc n) smr rmr = (copy_untyped n smr rmr)[Suc n := smr ! Suc n]"

definition ipc_head :: "nat \<Rightarrow> nat \<Rightarrow> bool \<Rightarrow> bool \<Rightarrow> sys \<Rightarrow> sys" where
  "ipc_head sndr rcv propagated use_local_id s =
     (let sth = sthr s sndr; su = t_utcb sth; tag = utcb_msgtag su;
          real_sender = (if use_local_id then t_localid sth else t_glob_id sth);
          from = (if propagated then u_sender su else real_sender) in
      supd rcv (\<lambda>x. scall_ipc_from from (utcb_upd (\<lambda>u.
        (if propagated then u\<lparr>u_sender := real_sender\<rparr> else u)\<lparr>
           u_mr := copy_untyped (unat (tag_untyped tag)) (u_mr su) ((u_mr u)[0 := tag])\<rparr>) x)) s)"

definition items_last :: "msgtag \<Rightarrow> nat" where
  "items_last tag = unat (tag_untyped tag) + unat (tag_typed tag)"

datatype item_out = I_next items sys | I_done sys | I_fault items sys

text \<open>
  The two words of a map item: the code copies them before it calls the pager of the sender, and goes on with the copies when the
  thread runs again. Whether the item is a grant it reads from the registers each time.
\<close>

definition map_item_words :: "nat \<Rightarrow> items \<Rightarrow> sys \<Rightarrow> (u32 \<times> fpage) res" where
  "map_item_words sndr it s =
     (case it_saved it of
        Some w \<Rightarrow> Inr w
      | None \<Rightarrow> res_bind (mr_get sndr (it_i it) s) (\<lambda>w0. res_bind (mr_get sndr (it_i it + 1) s) (\<lambda>w1. Inr (w0, w1))))"

definition do_map_item :: "bool \<Rightarrow> nat \<Rightarrow> nat \<Rightarrow> items \<Rightarrow> sys \<Rightarrow> item_out res" where
  "do_map_item again sndr rcv it s =
     (let i = it_i it in
      res_bind (map_item_words sndr it s) (\<lambda>(w0, fp).
      let put = (\<lambda>(r0, r1) s1.
            res_bind (mr_set rcv i r0 s1) (\<lambda>s2.
            res_bind (mr_set rcv (i + 1) r1 s2) (\<lambda>s3. Inr (I_next (it\<lparr>it_i := i + 2, it_saved := None\<rparr>) s3)))) in
      if fpage_is_complete fp then Inl Panic
      else if fpage_is_io fp then Inl Panic
      else if fpage_is_nil fp then put (w0, fp) s
      else
        let cached = as_cached (tk_aspace (thr_task s sndr)) fp in
        if cached < 0 then
          if again then Inl Panic
          else res_bind (kop (process_pfault (s_stale s) sndr (fpage_addr fp) (fpage_access fp) (fpage_addr fp)) s)
                 (\<lambda>s1. Inr (I_fault (it\<lparr>it_saved := Some (w0, fp)\<rparr>) s1))
        else
          res_bind (as_walk (tk_aspace (thr_task s sndr)) (fpage_addr fp) (fpage_size fp)) (\<lambda>pa.
          res_bind (wassert (pa \<noteq> 0)) (\<lambda>_.
          let acceptor = utcb_acceptor (t_utcb (sthr s rcv)); acc = fpage_access fp in
          res_bind
            (if fpage_is_nil acceptor then Inl Panic
             else if fpage_is_complete acceptor then Inr (fpage_addr fp, fpage_size fp, (w0, fp))
             else if fpage_size acceptor \<noteq> fpage_size fp then Inl Panic
             else Inr (fpage_addr acceptor, fpage_size acceptor,
                       mitem_set w0 (fpage_set (s_stale s) (fpage_addr acceptor) (fpage_size acceptor) acc) False))
            (\<lambda>(dst_va, dst_sz, res_item).
          res_bind (tkop (\<lambda>tk. task_map tk dst_va pa dst_sz (uacc2acc acc) (cached \<noteq> 0)) rcv s) (\<lambda>s1.
          res_bind (mr_get sndr i s1) (\<lambda>g.
          res_bind (if titem_is_grant g then tkop (\<lambda>tk. task_unmap tk (fpage_addr fp) (fpage_addr fp)) rcv s1
                    else Inr s1) (put res_item))))))))"

text \<open>
  A string item has one substring at least, and panics at the first when it has more; the bound
  \<open>i + j > last\<close> cannot hold for the first.
\<close>

definition do_string_item :: "nat \<Rightarrow> nat \<Rightarrow> items \<Rightarrow> sys \<Rightarrow> item_out res" where
  "do_string_item sndr rcv it s =
     (let i = it_i it; nb = it_buf it; lst = items_last (it_tag it) in
      res_bind (mr_get sndr i s) (\<lambda>w0.
      if \<not> acceptor_string (utcb_acceptor (t_utcb (sthr s rcv))) then Inl Panic
      else if nb = -1 then Inl Panic
      else
        res_bind (br_get rcv nb s) (\<lambda>b0.
        res_bind (br_get rcv (nb + 1) s) (\<lambda>b1.
        let nb' = (if titem_is_last b0 then -1 else nb + 1 + int (unat (sitem_substring_number b0))) in
        res_bind (mr_set rcv i w0 s) (\<lambda>s1.
        if sitem_substring_number w0 > 1 then Inl Panic
        else if sitem_substring_number b0 > 1 then Inl Panic
        else
          let len = min (sitem_length w0) (sitem_length b0) in
          res_bind (mr_get sndr (i + 1) s1) (\<lambda>ptr.
          res_bind (copy_thread_buf ptr b1 len sndr rcv s1) (\<lambda>s2.
          res_bind (mr_set rcv (i + 1) b1 s2) (\<lambda>s3.
          let copied = it_copied it + len in
          if len < sitem_length w0 then
            let tag = tag_set_failed (it_tag it) in
            Inr (I_done
              (supd rcv (utcb_upd (\<lambda>u. utcb_set_msgtag tag (u\<lparr>u_error := ipcerr Rcv_phase L4_ipc_overflow copied\<rparr>)))
              (supd sndr (utcb_upd (\<lambda>u. utcb_set_msgtag tag (u\<lparr>u_error := ipcerr Snd_phase L4_ipc_overflow copied\<rparr>))) s3)))
          else
            let i' = i + 2 in
            res_bind (wassert (titem_is_last w0 \<or> \<not> i' > lst)) (\<lambda>_.
            res_bind (wassert (\<not> titem_is_last w0 \<or> i' = lst + 1)) (\<lambda>_.
            Inr (I_next (it\<lparr>it_i := i', it_buf := nb', it_copied := copied\<rparr>) s3)))))))))))"

definition do_item :: "bool \<Rightarrow> nat \<Rightarrow> nat \<Rightarrow> items \<Rightarrow> sys \<Rightarrow> item_out res" where
  "do_item again sndr rcv it s =
     (if again then do_map_item again sndr rcv it s
      else if it_i it = items_last (it_tag it) then Inl Assert_failed
      else res_bind (mr_get sndr (it_i it) s) (\<lambda>w0.
        if titem_is_map w0 \<or> titem_is_grant w0 then do_map_item again sndr rcv it s
        else if titem_is_string w0 then do_string_item sndr rcv it s
        else Inl Assert_failed))"

text \<open>Every item takes the loop forward, so it ends.\<close>

definition forward :: "items \<Rightarrow> items \<Rightarrow> bool" where
  "forward it it' \<longleftrightarrow> it_i it' = it_i it + 2 \<and> it_tag it' = it_tag it"

lemma do_map_item_forward: "do_map_item again sndr rcv it s = Inr (I_next it' s') \<Longrightarrow> forward it it'"
  unfolding do_map_item_def Let_def by (auto simp: forward_def split: if_splits)

lemma do_string_item_forward: "do_string_item sndr rcv it s = Inr (I_next it' s') \<Longrightarrow> forward it it'"
  unfolding do_string_item_def Let_def by (auto simp: forward_def split: if_splits)

lemma do_item_forward: "do_item again sndr rcv it s = Inr (I_next it' s') \<Longrightarrow> forward it it'"
  using do_map_item_forward do_string_item_forward by (auto simp: do_item_def split: if_splits)

datatype items_out = T_done sys | T_fault items sys

function typed_items :: "bool \<Rightarrow> nat \<Rightarrow> nat \<Rightarrow> items \<Rightarrow> sys \<Rightarrow> items_out res" where
  "typed_items again sndr rcv it s =
     (if it_i it > items_last (it_tag it) then Inr (T_done s)
      else case do_item again sndr rcv it s of
             Inl e \<Rightarrow> Inl e
           | Inr (I_done s') \<Rightarrow> Inr (T_done s')
           | Inr (I_fault it' s') \<Rightarrow> Inr (T_fault it' s')
           | Inr (I_next it' s') \<Rightarrow> typed_items False sndr rcv it' s')"
  by pat_completeness auto
termination
  by (relation "measure (\<lambda>(_, _, _, it, _). Suc (items_last (it_tag it)) - it_i it)") (auto simp: forward_def dest!: do_item_forward)

declare typed_items.simps [simp del]

definition do_normal_ipc :: "nat \<Rightarrow> nat \<Rightarrow> bool \<Rightarrow> bool \<Rightarrow> sys \<Rightarrow> items_out res" where
  "do_normal_ipc sndr rcv propagated use_local_id s =
     res_bind (wassert (sndr \<noteq> rcv)) (\<lambda>_.
     let tag = utcb_msgtag (t_utcb (sthr s sndr)); s1 = ipc_head sndr rcv propagated use_local_id s in
     if tag_typed tag \<noteq> 0 then
       typed_items False sndr rcv
         \<lparr>it_tag = tag, it_i = unat (tag_untyped tag) + 1, it_buf = 1, it_copied = 0, it_saved = None\<rparr> s1
     else Inr (T_done s1))"

section \<open>Finding a sender\<close>

text \<open>
  \<open>_is_good_sender\<close> of \<open>Threads_t\<close>; the flags \<open>propagated\<close> and \<open>use_local_id\<close> are only ever set, and
  the loop over a list leaves them as any thread it looked at has set them.
\<close>

definition is_good_sender_of :: "kernel \<Rightarrow> nat \<Rightarrow> thrid \<Rightarrow> nat \<Rightarrow> bool \<times> bool \<Rightarrow> (bool \<times> bool \<times> bool) res" where
  "is_good_sender_of k rcv from_spec sndr flags =
     (let st = k_thr k sndr; rt = k_thr k rcv; (prop, locid) = flags; local = (t_task st = t_task rt) in
      res_bind (wassert (is_snd_state (t_state st))) (\<lambda>_.
      res_bind (wassert (\<not> thrid_is_nil (t_to st) \<and> \<not> thrid_is_any (t_to st) \<and> \<not> thrid_is_any_local (t_to st))) (\<lambda>_.
      if \<not> (local \<and> t_to st = t_localid rt) \<and> \<not> t_to st = t_glob_id rt then Inr (False, prop, locid)
      else
        res_bind
          (if tag_propagated (utcb_msgtag (t_utcb st)) then
             res_bind (find_thr k (u_sender (t_utcb st))) (\<lambda>f.
             case f of
               Some v \<Rightarrow> if t_task st = t_task (k_thr k v) \<or> t_task st = t_task rt then Inr (v, True) else Inr (sndr, prop)
             | None \<Rightarrow> Inr (sndr, prop))
           else Inr (sndr, prop)) (\<lambda>(sender, prop').
        let se = k_thr k sender; local' = (t_task se = t_task rt) in
        if \<not> thrid_is_any from_spec \<and> \<not> (local' \<and> thrid_is_any_local from_spec)
           \<and> \<not> (local' \<and> from_spec = t_localid se) \<and> \<not> from_spec = t_glob_id se
        then Inr (False, prop', locid)
        else Inr (True, prop', locid \<or> (local' \<and> (thrid_is_any_local from_spec \<or> from_spec = t_localid se)))))))"

fun highest_sender ::
  "kernel \<Rightarrow> nat \<Rightarrow> thrid \<Rightarrow> nat list \<Rightarrow> nat option \<Rightarrow> bool \<times> bool \<Rightarrow> (nat option \<times> bool \<times> bool) res" where
  "highest_sender k rcv from_spec [] res flags = Inr (res, flags)"
| "highest_sender k rcv from_spec (t # ts) res flags =
     res_bind (is_good_sender_of k rcv from_spec t flags) (\<lambda>(good, flags').
     highest_sender k rcv from_spec ts
       (if \<not> good then res
        else case res of
               None \<Rightarrow> Some t
             | Some r \<Rightarrow> if prio_max (k_thr k r) < prio_max (k_thr k t) then Some t else res) flags')"

definition find_highest_prio_sender :: "kernel \<Rightarrow> nat list \<Rightarrow> nat \<Rightarrow> thrid \<Rightarrow> (nat option \<times> bool \<times> bool) res" where
  "find_highest_prio_sender k ts rcv from_spec = highest_sender k rcv from_spec ts None (False, False)"

definition find_sender :: "kernel \<Rightarrow> nat \<Rightarrow> thrid \<Rightarrow> (nat option \<times> bool \<times> bool) res" where
  "find_sender k rcv from_spec =
     res_bind (find_thr k from_spec) (\<lambda>f.
     case f of
       Some t \<Rightarrow>
         if \<not> is_snd_state (t_state (k_thr k t)) then Inr (None, False, False)
         else res_bind (is_good_sender_of k rcv from_spec t (False, False)) (\<lambda>(good, flags).
           Inr (if good then Some t else None, flags))
     | None \<Rightarrow>
         res_bind (find_highest_prio_sender k (k_snd_wait k) rcv from_spec) (\<lambda>(r1, f1).
         res_bind (find_highest_prio_sender k (k_send k) rcv from_spec) (\<lambda>(r2, f2).
         case (r1, r2) of
           (Some a, Some b) \<Rightarrow> if prio_max (k_thr k a) < prio_max (k_thr k b) then Inr (r2, f2) else Inr (r1, f1)
         | (Some a, None) \<Rightarrow> Inr (r1, f1)
         | (None, Some b) \<Rightarrow> Inr (r2, f2)
         | (None, None) \<Rightarrow> Inr (None, False, False))))"

definition find_int_sender :: "kernel \<Rightarrow> nat \<Rightarrow> thrid \<Rightarrow> nat option res" where
  "find_int_sender k rcv from_spec =
     res_bind (wassert (thrid_is_int from_spec)) (\<lambda>_.
     let irq = unat (thrid_number from_spec); it = k_ints k ! irq in
     Inr (if \<not> thrid_is_nil (i_handler it) \<and> i_pending it \<and> i_handler it = t_glob_id (k_thr k rcv)
          then Some irq else None))"

text \<open>
  \<open>Thread_t::is_good_sender\<close> and \<open>is_irq_acceptable\<close>: the flag \<open>use_local_id\<close> is set only on a path
  that has already returned.
\<close>

definition is_good_sender :: "kernel \<Rightarrow> nat \<Rightarrow> nat \<Rightarrow> (bool \<times> bool) res" where
  "is_good_sender k rcv sndr =
     (let rt = k_thr k rcv; st = k_thr k sndr; from = t_from_spec rt; local = (t_task rt = t_task st) in
      res_bind (wassert (t_state rt = Receive_ipc)) (\<lambda>_.
      res_bind (wassert (from \<noteq> thrid_Nil)) (\<lambda>_.
      if thrid_is_any from \<or> (local \<and> thrid_is_any_local from) \<or> (local \<and> from = t_localid st) \<or> from = t_glob_id st
      then Inr (True, False)
      else Inr (False, local \<and> (thrid_is_any_local from \<or> from = t_localid st)))))"

definition is_irq_acceptable :: "kernel \<Rightarrow> nat \<Rightarrow> nat \<Rightarrow> bool res" where
  "is_irq_acceptable k t irq =
     (let th = k_thr k t; from = t_from_spec th in
      res_bind (wassert (t_state th = Receive_ipc)) (\<lambda>_.
      res_bind (wassert (from \<noteq> thrid_Nil)) (\<lambda>_.
      Inr (thrid_is_any from \<or> from = create_irq (of_nat irq)))))"

section \<open>The system call\<close>

text \<open>
  A phase of \<open>do_ipc\<close> falls through to the next with its local variables, returns from the system
  call, or leaves the processor with a continuation.
\<close>

datatype pout = P_go ipc_loc sys | P_return sys | P_block kcont sys

text \<open>\<open>ipc_error_code\<close>, \<open>ipc_set_failed\<close> and the store of the tag.\<close>

definition ipc_fail :: "nat \<Rightarrow> ipc_phase \<Rightarrow> u32 \<Rightarrow> msgtag \<Rightarrow> sys \<Rightarrow> sys" where
  "ipc_fail cur phase e tag =
     supd cur (utcb_upd (\<lambda>u. utcb_set_msgtag (tag_set_failed tag) (u\<lparr>u_error := ipcerr phase e 0\<rparr>)))"

definition int_upd :: "nat \<Rightarrow> (int_thread \<Rightarrow> int_thread) \<Rightarrow> sys \<Rightarrow> sys" where
  "int_upd irq f s = s\<lparr>s_k := (s_k s)\<lparr>k_ints := (k_ints (s_k s))[irq := f (k_ints (s_k s) ! irq)]\<rparr>\<rparr>"

definition reenable_irq :: "nat \<Rightarrow> ipc_loc \<Rightarrow> sys \<Rightarrow> pout res" where
  "reenable_irq cur l s =
     (let irq = unat (thrid_number (l_to l)); flags = u_mr (t_utcb (sthr s cur)) ! 1 in
      if \<not> irq < length (k_ints (s_k s)) \<or> t_glob_id (sthr s cur) \<noteq> i_handler (k_ints (s_k s) ! irq)
      then Inr (P_return (ipc_fail cur Snd_phase L4_ipc_no_partner (l_tag l) s))
      else
        res_bind (icop (intc_eoi irq) s) (\<lambda>s1.
        res_bind (if flags AND 1 \<noteq> 0 then icop (intc_clear irq) s1 else Inr s1) (\<lambda>s2.
        res_bind (intc_is_pending irq (s_intc s2)) (\<lambda>pend.
        res_bind (if pend then res_bind (icop (intc_clear irq) s2) (\<lambda>s3. Inr (int_upd irq (\<lambda>x. x\<lparr>i_pending := True\<rparr>) s3))
                  else icop (intc_unmask irq) s2) (\<lambda>s4. Inr (P_go l s4))))))"

text \<open>\<open>dst->state(Ready)\<close> and the assertion that follows it in the replies.\<close>

definition resume_dst :: "nat \<Rightarrow> ipc_loc \<Rightarrow> sys \<Rightarrow> pout res" where
  "resume_dst dst l s =
     res_bind (kop (set_state dst Ready) s) (\<lambda>s1.
     res_bind (wassert (thrid_is_nil (t_prio_heir (sthr s1 dst)))) (\<lambda>_. Inr (P_go (l\<lparr>l_snd := Some dst\<rparr>) s1)))"

definition pf_reply_map :: "bool \<Rightarrow> nat \<Rightarrow> ipc_loc \<Rightarrow> nat \<Rightarrow> fpage \<Rightarrow> sys \<Rightarrow> pout res" where
  "pf_reply_map again cur l dst fp s =
     (if \<not> as_is_inside_acc (tk_aspace (thr_task s cur)) fp then
        if again then Inl Panic
        else res_bind (kop (process_pfault (s_stale s) cur (fpage_addr fp) (fpage_access fp) (fpage_addr fp)) s) (\<lambda>s1.
          Inr (P_block (C_pf_reply l dst fp) s1))
      else
        res_bind (as_walk (tk_aspace (thr_task s cur)) (fpage_addr fp) (fpage_size fp)) (\<lambda>pa.
        res_bind (wassert (pa \<noteq> 0)) (\<lambda>_.
        res_bind (wassert (t_id (sthr s cur) \<noteq> 1 \<or> pa = ucast (fpage_addr fp))) (\<lambda>_.
        let va = pg_down (t_pf_addr (sthr s dst)) in
        res_bind (tkop (\<lambda>tk. task_map tk va pa (fpage_size fp) (uacc2acc (fpage_access fp)) True) dst s) (\<lambda>s1.
        res_bind (mr_get cur 1 s1) (\<lambda>w0.
        res_bind (if titem_is_grant w0 then tkop (\<lambda>tk. task_unmap tk (fpage_addr fp) (fpage_size fp)) dst s1
                  else Inr s1) (resume_dst dst l)))))))"

definition pf_reply :: "nat \<Rightarrow> ipc_loc \<Rightarrow> nat \<Rightarrow> sys \<Rightarrow> pout res" where
  "pf_reply cur l dst s =
     res_bind (mr_get cur 1 s) (\<lambda>w0.
     res_bind (mr_get cur 2 s) (\<lambda>fp.
     res_bind (wassert (titem_is_map w0 \<or> titem_is_grant w0)) (\<lambda>_.
     if fpage_is_complete fp then
       res_bind (kop (process_exception dst tag_Mmu_exception (t_pf_addr (sthr s dst) OR t_pf_access (sthr s dst))) s)
         (\<lambda>s1. Inr (P_block (C_rcv l) s1))
     else if fpage_is_io fp then Inl Panic
     else if \<not> fpage_is_nil fp then pf_reply_map False cur l dst fp s
     else resume_dst dst l s)))"

definition exc_reply :: "nat \<Rightarrow> ipc_loc \<Rightarrow> nat \<Rightarrow> sys \<Rightarrow> pout res" where
  "exc_reply cur l dst s =
     (let frame = seg 2 (2 + Frame_words) (u_mr (t_utcb (sthr s cur))) in
      resume_dst dst l (supd dst (\<lambda>x. x\<lparr>t_frame := frame\<rparr>) s))"

definition sw_irq :: "nat \<Rightarrow> ipc_loc \<Rightarrow> nat \<Rightarrow> sys \<Rightarrow> pout res" where
  "sw_irq cur l dst s =
     res_bind (wassert (cur \<noteq> dst)) (\<lambda>_.
     let d = sthr s dst in
     if t_state d = Receive_ipc \<and> t_from_spec d = t_glob_id d then
       res_bind (kop (set_state dst Ready) (supd dst (scall_ipc_from (t_glob_id d)) s)) (\<lambda>s1.
       Inr (P_go (l\<lparr>l_snd := Some dst\<rparr>) s1))
     else Inr (P_go l (supd dst (\<lambda>x. x\<lparr>t_signal_pending := True\<rparr>) s)))"

text \<open>What follows \<open>do_normal_ipc\<close> in either phase: the partner becomes ready.\<close>

definition after_items :: "ipc_phase \<Rightarrow> ipc_loc \<Rightarrow> nat \<Rightarrow> nat \<Rightarrow> items_out \<Rightarrow> pout res" where
  "after_items phase l sndr rcv r =
     (case r of
        T_fault it s \<Rightarrow> Inr (P_block (C_items phase l sndr rcv it) s)
      | T_done s \<Rightarrow>
          let partner = (case phase of Snd_phase \<Rightarrow> rcv | Rcv_phase \<Rightarrow> sndr) in
          res_bind (if t_state (sthr s partner) \<noteq> Ready then kop (set_state partner Ready) s else Inr s) (\<lambda>s1.
          Inr (P_go (case phase of Snd_phase \<Rightarrow> l\<lparr>l_snd := Some partner\<rparr> | Rcv_phase \<Rightarrow> l\<lparr>l_rcv := Some partner\<rparr>) s1)))"

definition lend_prio :: "nat \<Rightarrow> nat \<Rightarrow> kernel \<Rightarrow> kernel res" where
  "lend_prio cur dst k =
     (let c = k_thr k cur; d = k_thr k dst in
      if unat (t_prio d) < prio_max c then
        res_bind (inherit_prio_add (t_glob_id c) (prio_max c) d) (\<lambda>d'.
        Inr (thr_upd cur (\<lambda>x. x\<lparr>t_prio_heir := t_glob_id d\<rparr>) (thr_upd dst (\<lambda>_. d') k)))
      else Inr k)"

definition virt_sender :: "nat \<Rightarrow> nat \<Rightarrow> msgtag \<Rightarrow> sys \<Rightarrow> (nat \<times> bool) res" where
  "virt_sender cur dst tag s =
     (if tag_propagated tag then
        res_bind (find_thr (s_k s) (u_sender (t_utcb (sthr s cur)))) (\<lambda>f.
        case f of
          None \<Rightarrow> Inl Assert_failed
        | Some v \<Rightarrow>
            if t_task (sthr s cur) = t_task (sthr s v) \<or> t_task (sthr s cur) = t_task (sthr s dst)
            then Inr (v, True) else Inl Assert_failed)
      else Inr (cur, False))"

definition send_message :: "nat \<Rightarrow> ipc_loc \<Rightarrow> nat \<Rightarrow> sys \<Rightarrow> pout res" where
  "send_message cur l dst s =
     res_bind (virt_sender cur dst (l_tag l) s) (\<lambda>(sender, propagated).
     res_bind (if t_state (sthr s dst) = Receive_ipc then is_good_sender (s_k s) dst sender else Inr (False, False))
       (\<lambda>(good, use_local_id).
     if good then
       res_bind (do_normal_ipc cur dst propagated use_local_id s) (after_items Snd_phase l cur dst)
     else if time_is_zero (timeouts_snd (l_tmo l)) then
       Inr (P_return (ipc_fail cur Snd_phase L4_ipc_timeout (l_tag l) s))
     else
       res_bind (kop (\<lambda>k. if dst \<noteq> cur then lend_prio cur dst k else Inr k) s) (\<lambda>s1.
       res_bind (kop (save_snd_phase cur (timeouts_snd (l_tmo l)) (l_to l)) s1) (\<lambda>s2.
       res_bind (kop switch_to_next s2) (\<lambda>s3. Inr (P_block (C_rcv l) s3))))))"

definition send_phase :: "nat \<Rightarrow> ipc_loc \<Rightarrow> sys \<Rightarrow> pout res" where
  "send_phase cur l s =
     (let to = l_to l; tag = l_tag l in
      if thrid_is_int to \<and> tag_untyped tag = 1 then reenable_irq cur l s
      else
        res_bind (find_thr (s_k s) to) (\<lambda>f.
        case f of
          None \<Rightarrow> Inr (P_return (ipc_fail cur Snd_phase L4_ipc_no_partner tag s))
        | Some dst \<Rightarrow>
            if \<not> t_is_active (sthr s dst) then Inr (P_return (ipc_fail cur Snd_phase L4_ipc_no_partner tag s))
            else if t_state (sthr s dst) = Active \<and> tag_is_thread_start tag then
              res_bind (mr_get cur 1 s) (\<lambda>ip. res_bind (mr_get cur 2 s) (\<lambda>sp.
              res_bind (kop (thread_start dst ip sp) s) (\<lambda>s1. Inr (P_go (l\<lparr>l_snd := Some dst\<rparr>) s1))))
            else if tag_is_pf_request tag \<or> tag_is_io_pf_request tag then Inl Panic
            else if t_state (sthr s dst) = Receive_pfault \<and> (tag_is_pf_reply tag \<or> tag_is_io_pf_reply tag) then
              pf_reply cur l dst s
            else if t_state (sthr s dst) = Receive_exception \<and> tag_is_exc_reply tag then exc_reply cur l dst s
            else if tag_ipc_label tag = 0x202 then sw_irq cur l dst s
            else send_message cur l dst s))"

text \<open>The waits of the receive phase: \<open>save_rcv_phase\<close>, \<open>switch_to_next\<close> and \<open>snd_partner = 0\<close>.\<close>

definition wait_message :: "nat \<Rightarrow> ipc_loc \<Rightarrow> sys \<Rightarrow> pout res" where
  "wait_message cur l s =
     res_bind (kop (save_rcv_phase cur (timeouts_rcv (l_tmo l)) (l_from l)) s) (\<lambda>s1.
     res_bind (kop switch_to_next s1) (\<lambda>s2. Inr (P_block (C_end (l\<lparr>l_snd := None\<rparr>)) s2)))"

definition receive_sw_irq :: "nat \<Rightarrow> ipc_loc \<Rightarrow> sys \<Rightarrow> pout res" where
  "receive_sw_irq cur l s =
     (let c = sthr s cur in
      if t_signal_pending c then
        Inr (P_go l (supd cur (\<lambda>x. (scall_ipc_from (t_glob_id c) x)\<lparr>t_signal_pending := False\<rparr>) s))
      else if time_is_zero (timeouts_rcv (l_tmo l)) then Inr (P_go l (ipc_fail cur Rcv_phase L4_ipc_timeout (l_tag l) s))
      else wait_message cur l s)"

definition receive_irq :: "nat \<Rightarrow> ipc_loc \<Rightarrow> sys \<Rightarrow> pout res" where
  "receive_irq cur l s =
     res_bind (find_int_sender (s_k s) cur (l_from l)) (\<lambda>f.
     case f of
       Some irq \<Rightarrow>
         let tag = tag_set_typed 0 (tag_set_untyped 0 (tag_proto_nulls (tag_set_proto_label tag_Interrupt (l_tag l)))) in
         Inr (P_go l (int_upd irq (\<lambda>x. x\<lparr>i_pending := False\<rparr>)
           (supd cur (\<lambda>x. scall_ipc_from (i_globid (k_ints (s_k s) ! irq)) (utcb_upd (utcb_set_msgtag tag) x)) s)))
     | None \<Rightarrow> wait_message cur l s)"

definition receive_message :: "nat \<Rightarrow> ipc_loc \<Rightarrow> sys \<Rightarrow> pout res" where
  "receive_message cur l s =
     res_bind (find_sender (s_k s) cur (l_from l)) (\<lambda>(f, propagated, use_local_id).
     case f of
       Some sndr \<Rightarrow>
         let st = sthr s sndr in
         if t_state st = Send_pfault then
           res_bind (kop (do_pfault_ipc (s_stale s) sndr cur (t_pf_addr st) (t_pf_access st) (t_pf_inst st)) s) (\<lambda>s1.
           res_bind (kop (set_state sndr Receive_pfault) s1) (\<lambda>s2. Inr (P_go (l\<lparr>l_rcv := Some sndr\<rparr>) s2)))
         else if t_state st = Send_exception then
           res_bind (kop (do_exc_ipc sndr cur (t_exc_type st) (t_exc_pf st)) s) (\<lambda>s1.
           res_bind (kop (set_state sndr Receive_exception) s1) (\<lambda>s2. Inr (P_go (l\<lparr>l_rcv := Some sndr\<rparr>) s2)))
         else if t_state st = Send_ipc then
           res_bind (do_normal_ipc sndr cur propagated use_local_id s) (after_items Rcv_phase l sndr cur)
         else Inl Assert_failed
     | None \<Rightarrow>
         if time_is_zero (timeouts_rcv (l_tmo l)) then Inr (P_go l (ipc_fail cur Rcv_phase L4_ipc_timeout (l_tag l) s))
         else
           res_bind
             (if thrid_is_single (l_from l) \<and> l_from l \<noteq> t_glob_id (sthr s cur) then
                res_bind (find_thr (s_k s) (l_from l)) (\<lambda>g.
                case g of
                  None \<Rightarrow> Inl Assert_failed
                | Some sender \<Rightarrow> kop (lend_prio cur sender) s)
              else Inr s) (wait_message cur l))"

definition receive_phase :: "nat \<Rightarrow> ipc_loc \<Rightarrow> sys \<Rightarrow> pout res" where
  "receive_phase cur l s =
     (if \<not> thrid_is_nil (l_from l) \<and> \<not> tag_failed (utcb_msgtag (t_utcb (sthr s cur))) then
        if l_from l = t_glob_id (sthr s cur) \<and> tag_ipc_label (l_tag l) = 0x202 then receive_sw_irq cur l s
        else if thrid_is_int (l_from l) then receive_irq cur l s
        else receive_message cur l s
      else Inr (P_go l s))"

definition ipc_end :: "nat \<Rightarrow> ipc_loc \<Rightarrow> sys \<Rightarrow> sys res" where
  "ipc_end cur l s =
     res_bind (wassert (t_state (sthr s cur) = Ready)) (\<lambda>_.
     res_bind (wassert (unat (t_prio (sthr s cur)) = prio_max (sthr s cur))) (\<lambda>_.
     let prio = (\<lambda>p. case p of None \<Rightarrow> 0 | Some t \<Rightarrow> prio_max (sthr s t)); ps = prio (l_snd l); pr = prio (l_rcv l) in
     Inr (if (l_snd l \<noteq> None \<or> l_rcv l \<noteq> None) \<and> max ps pr > prio_max (sthr s cur) then
            (case (if ps \<ge> pr then l_snd l else l_rcv l) of
               Some t \<Rightarrow> s\<lparr>s_k := switch_to t (s_k s)\<rparr>
             | None \<Rightarrow> s)
          else s)))"

text \<open>
  The phases in sequence. A return from the system call, early or at the end, leaves the thread at
  the check for a forced exception of \<open>kentry_syscall\<close>.
\<close>

definition run_end :: "nat \<Rightarrow> ipc_loc \<Rightarrow> sys \<Rightarrow> (kcont \<times> sys) res" where
  "run_end cur l s = res_bind (ipc_end cur l s) (\<lambda>s1. Inr (C_exit, s1))"

definition run_receive :: "nat \<Rightarrow> ipc_loc \<Rightarrow> sys \<Rightarrow> (kcont \<times> sys) res" where
  "run_receive cur l s =
     res_bind (receive_phase cur l s) (\<lambda>r.
     case r of
       P_go l1 s1 \<Rightarrow> run_end cur l1 s1
     | P_return s1 \<Rightarrow> Inr (C_exit, s1)
     | P_block c s1 \<Rightarrow> Inr (c, s1))"

definition after_send :: "nat \<Rightarrow> pout \<Rightarrow> (kcont \<times> sys) res" where
  "after_send cur r =
     (case r of
        P_go l s \<Rightarrow> run_receive cur l s
      | P_return s \<Rightarrow> Inr (C_exit, s)
      | P_block c s \<Rightarrow> Inr (c, s))"

definition do_ipc :: "nat \<Rightarrow> sys \<Rightarrow> (kcont \<times> sys) res" where
  "do_ipc cur s =
     (let th = sthr s cur; tag = tag_set_ok (utcb_msgtag (t_utcb th));
          l = \<lparr>l_to = scall_ipc_to th, l_from = scall_ipc_from_spec th, l_tmo = scall_ipc_timeouts th, l_tag = tag,
               l_snd = None, l_rcv = None\<rparr>;
          s1 = supd cur (utcb_upd (utcb_set_msgtag tag)) s in
      if \<not> thrid_is_nil (l_to l) then res_bind (send_phase cur l s1) (after_send cur)
      else run_receive cur l s1)"

definition L4_flags_frcexc :: u32 where "L4_flags_frcexc = 2"

definition Entry_type_syscall :: nat where "Entry_type_syscall = 1"
definition Entry_type_pfault :: nat where "Entry_type_pfault = 2"
definition Entry_type_irq :: nat where "Entry_type_irq = 4"
definition Entry_type_exc :: nat where "Entry_type_exc = 5"

text \<open>Words 130 and 131 of the entry frame: the program counter and its successor.\<close>

definition skip_trap :: "thread \<Rightarrow> thread" where
  "skip_trap th = th\<lparr>t_frame := (t_frame th)[130 := t_frame th ! 131, 131 := t_frame th ! 131 + 4]\<rparr>"

text \<open>
  \<open>check_force_exception\<close>, one turn of its loop; with the flag clear the thread returns to user mode,
  from a system call past the trap instruction (\<open>sparc_entry_syscall\<close>).
\<close>

definition check_force_exception :: "nat \<Rightarrow> sys \<Rightarrow> (kcont \<times> sys) res" where
  "check_force_exception cur s =
     (if t_flags (sthr s cur) AND L4_flags_frcexc \<noteq> 0 then
        res_bind (kop (process_exception cur tag_Force_exception 0)
          (supd cur (\<lambda>x. x\<lparr>t_flags := t_flags x AND NOT L4_flags_frcexc\<rparr>) s)) (\<lambda>s1. Inr (C_exit, s1))
      else Inr (C_none, if t_entry_type (sthr s cur) = Entry_type_syscall then supd cur skip_trap s else s))"

definition resume :: "nat \<Rightarrow> sys \<Rightarrow> (kcont \<times> sys) res" where
  "resume cur s =
     (case s_cont s cur of
        C_none \<Rightarrow> Inr (C_none, s)
      | C_exit \<Rightarrow> check_force_exception cur s
      | C_rcv l \<Rightarrow> run_receive cur l s
      | C_end l \<Rightarrow> run_end cur l s
      | C_items phase l sndr rcv it \<Rightarrow>
          res_bind (typed_items True sndr rcv it s) (\<lambda>r.
          res_bind (after_items phase l sndr rcv r) (\<lambda>p.
          case phase of
            Snd_phase \<Rightarrow> after_send cur p
          | Rcv_phase \<Rightarrow> (case p of
              P_go l1 s1 \<Rightarrow> run_end cur l1 s1
            | P_return s1 \<Rightarrow> Inr (C_exit, s1)
            | P_block c s1 \<Rightarrow> Inr (c, s1))))
      | C_pf_reply l dst fp \<Rightarrow> res_bind (pf_reply_map True cur l dst fp s) (after_send cur))"

text \<open>\<open>sparc_entry_pagefault\<close> from user mode with \<open>kentry_pagefault\<close>.\<close>

definition kentry_pagefault :: "u32 \<Rightarrow> u32 \<Rightarrow> u32 \<Rightarrow> sys \<Rightarrow> (kcont \<times> sys) res" where
  "kentry_pagefault fault_addr fault_access fault_inst s =
     (let cur = k_current (s_k s); s0 = supd cur (\<lambda>x. x\<lparr>t_entry_type := Entry_type_pfault\<rparr>) s in
      res_bind (kop (process_pfault (s_stale s0) cur fault_addr fault_access fault_inst) s0)
        (\<lambda>s1. Inr (C_exit, s1)))"

text \<open>
  \<open>sparc_entry_irq\<close>, from the number that \<open>real_irq\<close> gives on, with \<open>kentry_irq\<close>; \<open>timer_irq\<close> is \<open>Cfg_krn_timer_irq\<close> and \<open>clk\<close> the clock after the tick. The changes to
  \<open>utcb->msgtag()\<close> are made to a temporary copy of the tag and are lost.
\<close>

definition kentry_irq :: "nat \<Rightarrow> u64 \<Rightarrow> nat \<Rightarrow> sys \<Rightarrow> (kcont \<times> sys) res" where
  "kentry_irq timer_irq clk irq s =
     res_bind (icop (intc_clear irq) (supd (k_current (s_k s)) (\<lambda>x. x\<lparr>t_entry_type := Entry_type_irq\<rparr>) s)) (\<lambda>s0.
     if irq = timer_irq then
       res_bind (icop (intc_eoi irq) s0) (\<lambda>s1. res_bind (kop (kern_timer_tick clk) s1) (\<lambda>s2. Inr (C_exit, s2)))
     else
       res_bind (icop (intc_mask irq) s0) (\<lambda>s1.
       res_bind (wassert (irq < length (k_ints (s_k s1)))) (\<lambda>_.
       let h = i_handler (k_ints (s_k s1) ! irq) in
       res_bind (wassert (\<not> thrid_is_nil h)) (\<lambda>_.
       res_bind (find_thr (s_k s1) h) (\<lambda>f.
       case f of
         None \<Rightarrow> Inl Assert_failed
       | Some dst \<Rightarrow>
           res_bind (if t_state (sthr s1 dst) = Receive_ipc then is_irq_acceptable (s_k s1) dst irq else Inr False) (\<lambda>good.
           if good then
             res_bind (thrid_int irq) (\<lambda>from.
             res_bind (kop (set_state dst Ready) (supd dst (scall_ipc_from from) s1)) (\<lambda>s2.
             Inr (C_exit, if prio_max (sthr s2 dst) > prio_max (sthr s2 (k_current (s_k s2)))
                          then s2\<lparr>s_k := switch_to dst (s_k s2)\<rparr> else s2)))
           else Inr (C_exit, int_upd irq (\<lambda>x. x\<lparr>i_pending := True\<rparr>) s1)))))))"

end
