(* ===== verification/Ipc_Inv.thy ===== *)
theory Ipc_Inv
  imports Ipc
begin

text \<open>
  What every path through the IPC code keeps, whatever the messages are: the scheduler's lists, the
  indices of threads that the kernel stores, and that a thread which waits for a message is inside
  the system call that made it wait.
\<close>

section \<open>Kernel operations\<close>

named_theorems kpath "facts that a kernel operation keeps the invariant"

definition pagers_ok :: "kernel \<Rightarrow> bool" where
  "pagers_ok k \<longleftrightarrow> (\<forall>t p. t_pager (k_thr k t) = Some p \<longrightarrow> p < Threads_max)"

definition kinv :: "kernel \<Rightarrow> bool" where
  "kinv k \<longleftrightarrow> run_inv k \<and> pagers_ok k"

definition waits :: "kernel \<Rightarrow> nat \<Rightarrow> bool" where
  "waits k t \<longleftrightarrow> t_state (k_thr k t) = Receive_ipc"

text \<open>The invariant is kept and no thread starts to wait for a message.\<close>

definition kok :: "kernel \<Rightarrow> kernel \<Rightarrow> bool" where
  "kok k k' \<longleftrightarrow> (kinv k \<longrightarrow> kinv k' \<and> (\<forall>t. waits k' t \<longrightarrow> waits k t))"

lemma kok_refl [simp]: "kok k k"
  by (simp add: kok_def)

lemma kok_trans [trans]: "kok k k1 \<Longrightarrow> kok k1 k2 \<Longrightarrow> kok k k2"
  by (auto simp: kok_def)

lemma kok_same:
  assumes "sched_same (f (k_thr k t)) (k_thr k t)" "t_pager (f (k_thr k t)) = t_pager (k_thr k t)"
  shows "kok k (thr_upd t f k)"
  using assms run_inv_same [of k f t] by (auto simp: kok_def kinv_def pagers_ok_def waits_def sched_same_def)

lemma find_num_less: "find_num k n = Some t \<Longrightarrow> t < Threads_max"
  by (auto simp: find_num_def Let_def kcfg split: if_splits)

lemma find_thr_less: "find_thr k i = Inr (Some t) \<Longrightarrow> t < Threads_max"
  using find_SomeD [of _ "[0..<Threads_max]"]
  by (auto simp: find_thr_def find_by_utcb_def dest: find_num_less split: if_splits option.splits)

lemma drop_heir_fields:
  assumes "drop_heir t k = Inr k'"
  shows "t_pager (k_thr k' u) = t_pager (k_thr k u)" "t_state (k_thr k' u) = t_state (k_thr k u)"
proof -
  have "k' = k \<or> (\<exists>h th. inherit_prio_del (t_glob_id (k_thr k t)) (prio_max (k_thr k t)) (k_thr k h) = Inr th
      \<and> k' = thr_upd t (\<lambda>x. x\<lparr>t_prio_heir := thrid_Nil\<rparr>) (thr_upd h (\<lambda>_. th) k))"
    using assms by (auto simp: drop_heir_def Let_def split: if_splits option.splits)
  moreover have "t_pager th = t_pager x \<and> t_state th = t_state x" if "inherit_prio_del o' p x = Inr th" for o' p x th
    using that by (auto simp: inherit_prio_del_def Let_def split: option.splits)
  ultimately show "t_pager (k_thr k' u) = t_pager (k_thr k u)" "t_state (k_thr k' u) = t_state (k_thr k u)" by auto
qed

lemma leave_list_thr: "leave_list t k = Inr k' \<Longrightarrow> k_thr k' = k_thr k"
  by (auto simp: leave_list_def del_ready_def del_send_def del_rcv_timeout_waiting_def del_snd_timeout_waiting_def Let_def
      split: if_splits)

lemma enter_list_thr:
  "enter_list t k = Inr k' \<Longrightarrow> k_thr k' u = (if u = t \<and> t_state (k_thr k t) = Ready then clear_ipc (k_thr k t) else k_thr k u)"
  by (auto simp: enter_list_def add_ready_def add_send_def add_rcv_timeout_waiting_def add_snd_timeout_waiting_def Let_def
      split: if_splits)

lemma set_state_fields:
  assumes "set_state t st k = Inr k'"
  shows "t_pager (k_thr k' u) = t_pager (k_thr k u)" "t_state (k_thr k' u) = (if u = t then st else t_state (k_thr k u))"
proof -
  obtain k1 k2 where k: "leave_list t k = Inr k1" "enter_list t (thr_upd t (\<lambda>x. x\<lparr>t_state := st\<rparr>) k1) = Inr k2"
    "drop_heir t k2 = Inr k'" using assms by (auto simp: set_state_def)
  note e = enter_list_thr [OF k(2), of u] leave_list_thr [OF k(1)]
  show "t_pager (k_thr k' u) = t_pager (k_thr k u)"
    using drop_heir_fields(1) [OF k(3), of u] e by (auto simp: clear_ipc_def)
  show "t_state (k_thr k' u) = (if u = t then st else t_state (k_thr k u))"
    using drop_heir_fields(2) [OF k(3), of u] e by (auto simp: clear_ipc_def)
qed

lemma set_state_kok [kpath]:
  assumes "set_state t st k = Inr k'" "t < Threads_max" "st \<noteq> Receive_ipc"
  shows "kok k k'"
  using set_state_run_inv [OF assms(1) _ assms(2)] set_state_fields [OF assms(1)] assms(3)
  by (auto simp: kok_def kinv_def pagers_ok_def waits_def split: if_splits)

lemma switch_to_fields:
  "t_pager (k_thr (switch_to n k) u) = t_pager (k_thr k u)" "t_state (k_thr (switch_to n k) u) = t_state (k_thr k u)"
  by (simp_all add: switch_to_def timeslice_start_def timeslice_stop_def timeslice_spend_def Let_def)

lemma switch_to_kok [kpath]: "n < Threads_max \<Longrightarrow> kok k (switch_to n k)"
  using switch_to_inv [of k n] switch_to_fields [of n k]
  by (auto simp: kok_def kinv_def run_inv_def pagers_ok_def waits_def) (simp add: switch_to_def Let_def)

lemma timeslice_expired_fields:
  "timeslice_expired_in p t k = Inr (n, k') \<Longrightarrow> t_pager (k_thr k' u) = t_pager (k_thr k u) \<and> t_state (k_thr k' u) = t_state (k_thr k u)"
  by (auto simp: timeslice_expired_in_def Let_def split: if_splits)

lemma get_highest_fields:
  "get_highest_prio_ready_thread k = Inr (n, k') \<Longrightarrow> t_pager (k_thr k' u) = t_pager (k_thr k u) \<and> t_state (k_thr k' u) = t_state (k_thr k u)"
  by (auto simp: get_highest_prio_ready_thread_def Let_def dest: timeslice_expired_fields split: option.splits if_splits)

lemma switch_to_next_kok [kpath]:
  assumes "switch_to_next k = Inr k'"
  shows "kok k k'"
proof -
  obtain n k1 where k1: "get_highest_prio_ready_thread k = Inr (n, k1)" "k' = switch_to n k1"
    using assms by (auto simp: switch_to_next_def)
  have "run_inv k \<Longrightarrow> run_inv k'" using kstep_inv [OF kstep.resched [OF assms]] .
  then show ?thesis using get_highest_fields [OF k1(1)] switch_to_fields [of n k1] k1(2)
    by (simp add: kok_def kinv_def pagers_ok_def waits_def)
qed

lemma expire_list_fields:
  "expire_list now ts nx k = Inr (r, k') \<Longrightarrow> t_pager (k_thr k' u) = t_pager (k_thr k u)
     \<and> (t_state (k_thr k' u) = Receive_ipc \<longrightarrow> t_state (k_thr k u) = Receive_ipc)"
proof (induction ts arbitrary: nx k)
  case (Cons t ts)
  show ?case
  proof (cases "t_timeout (k_thr k t) > now")
    case False
    then obtain k1 k2 where k: "set_state t Ready (thr_upd t timeout_error k) = Inr k1" "drop_heir t k1 = Inr k2"
      "expire_list now ts (if nx = None then Some t else nx) k2 = Inr (r, k')" using Cons.prems by auto
    have "t_pager (timeout_error th) = t_pager th" "t_state (timeout_error th) = t_state th" for th
      by (simp_all add: timeout_error_def Let_def)
    then show ?thesis
      using Cons.IH [OF k(3)] drop_heir_fields [OF k(2), of u] set_state_fields [OF k(1), of u]
      by (auto split: if_splits)
  qed (use Cons.prems in auto)
qed auto

lemma kern_timer_tick_kok [kpath]:
  assumes "kern_timer_tick clk k = Inr k'"
  shows "kok k k'"
proof -
  let ?k1 = "thr_upd (k_current k) (timeslice_update clk) (k\<lparr>k_now := clk\<rparr>)"
  have cur: "k_current (k\<lparr>k_now := clk\<rparr>) = k_current k" by simp
  obtain n1 k2 n2 k3 where c: "check_ipc_timeouts clk ?k1 = Inr (n1, k2)"
    and e: "(if t_timeslice (k_thr k2 (k_current k)) = 0
             then res_bind (timeslice_expired (k_current k) k2) (\<lambda>(n, k3). Inr (Some n, k3)) else Inr (None, k2)) = Inr (n2, k3)"
    and k0: "k' = (case n1 of
             Some n \<Rightarrow> if prio_max (k_thr k3 n) > prio_max (k_thr k3 (k_current k)) then switch_to n k3
                       else (case n2 of Some m \<Rightarrow> switch_to m k3 | None \<Rightarrow> k3)
           | None \<Rightarrow> (case n2 of Some m \<Rightarrow> switch_to m k3 | None \<Rightarrow> k3))"
    using assms unfolding kern_timer_tick_def Let_def cur by auto
  have k': "k' = k3 \<or> (\<exists>n. k' = switch_to n k3)" using k0 by (auto split: option.splits if_splits)
  have f: "t_pager (k_thr ?k1 u) = t_pager (k_thr k u) \<and> t_state (k_thr ?k1 u) = t_state (k_thr k u)" for u
    by (simp add: timeslice_update_def timeslice_spend_def)
  have g: "t_pager (k_thr k2 u) = t_pager (k_thr ?k1 u) \<and> (t_state (k_thr k2 u) = Receive_ipc \<longrightarrow> t_state (k_thr ?k1 u) = Receive_ipc)" for u
  proof -
    obtain r1 ka r2 where "expire_list clk (k_snd_wait ?k1) None ?k1 = Inr (r1, ka)"
      "expire_list clk (k_rcv_wait ka) None ka = Inr (r2, k2)"
      using c unfolding check_ipc_timeouts_def by auto
    from this [THEN expire_list_fields, of u] show ?thesis by (simp del: thr_upd_simps)
  qed
  have h: "t_pager (k_thr k3 u) = t_pager (k_thr k2 u) \<and> t_state (k_thr k3 u) = t_state (k_thr k2 u)" for u
    using e by (auto simp: timeslice_expired_def dest: timeslice_expired_fields split: if_splits)
  have "run_inv k \<Longrightarrow> run_inv k'" using kstep_inv [OF kstep.tick [OF assms]] .
  then show ?thesis using f g h k' switch_to_fields by (simp add: kok_def kinv_def pagers_ok_def waits_def) metis
qed

section \<open>Waiting\<close>

text \<open>
  A thread that saves an IPC phase may be in any state: what it changes before it leaves its list
  either names the same list, or the list it names does not hold it and the kernel stops.
\<close>

definition timed :: "thread \<Rightarrow> bool" where "timed th \<longleftrightarrow> t_timeout th \<noteq> Timeout_never"

lemma leave_list_upd:
  assumes "\<And>x. t_state (f x) = t_state x" "\<And>x. t_prio (f x) = t_prio x"
    and "timed (f (k_thr k t)) = timed (k_thr k t)" "leave_list t (thr_upd t f k) = Inr k'"
  shows "\<exists>k1. leave_list t k = Inr k1 \<and> k' = thr_upd t f k1"
proof -
  have *: "(t_timeout (f (k_thr k t)) = Timeout_never) = (t_timeout (k_thr k t) = Timeout_never)"
    using assms(3) by (simp add: timed_def)
  show ?thesis using assms(4) unfolding leave_list_def
    by (auto simp: Let_def assms(1,2) * del_ready_def del_send_def del_rcv_timeout_waiting_def
        del_snd_timeout_waiting_def thr_upd_def split: if_splits)
qed

lemma leave_list_untimed:
  assumes "sched_inv k" "t < Threads_max" "\<And>x. t_state (f x) = t_state x" "\<And>x. t_prio (f x) = t_prio x"
    and "timed (f (k_thr k t)) \<noteq> timed (k_thr k t)" "leave_list t (thr_upd t f k) = Inr k'"
  shows "t_state (k_thr k t) \<noteq> Send_ipc" "t_state (k_thr k t) = Receive_ipc \<Longrightarrow> timed (k_thr k t)"
proof -
  have l: "t \<in> set (members k x) \<longleftrightarrow> list_of (k_thr k t) = x" if "x \<noteq> L_none" for x
    using lists_invD(2) [of "{}" k x] assms(1,2) that by (simp add: sched_inv_def)
  show "t_state (k_thr k t) \<noteq> Send_ipc"
    using assms(5,6) l [of L_send] l [of L_snd_wait]
    by (auto simp: leave_list_def Let_def assms(3) timed_def del_send_def del_snd_timeout_waiting_def
        del_timeout_waiting_def list_of_def split: if_splits)
  show "timed (k_thr k t)" if "t_state (k_thr k t) = Receive_ipc"
    using assms(5,6) l [of L_rcv_wait] that
    by (auto simp: leave_list_def Let_def assms(3) timed_def del_rcv_timeout_waiting_def
        del_timeout_waiting_def list_of_def split: if_splits)
qed

lemma save_phase_run_inv:
  assumes "set_state t st (thr_upd t f k) = Inr k'" "run_inv k" "t < Threads_max"
    and "\<And>x. t_state (f x) = t_state x" "\<And>x. t_prio (f x) = t_prio x"
    and "t_state (k_thr k t) \<noteq> Receive_ipc"
  shows "run_inv k'"
proof -
  have inv: "sched_inv k" using assms(2) by (simp add: run_inv_def)
  obtain k1 k2 where k: "leave_list t (thr_upd t f k) = Inr k1"
    "enter_list t (thr_upd t (\<lambda>x. x\<lparr>t_state := st\<rparr>) k1) = Inr k2" "drop_heir t k2 = Inr k'"
    using assms(1) by (auto simp: set_state_def)
  have "part_inv t k1 \<and> k_current k1 = k_current k"
  proof (cases "timed (f (k_thr k t)) = timed (k_thr k t)")
    case True
    then obtain k0 where k0: "leave_list t k = Inr k0" "k1 = thr_upd t f k0"
      using leave_list_upd [of f k t k1] assms(4,5) k(1) by blast
    obtain k0' where "leave_list t k = Inr k0'" "part_inv t k0'" "same_rest k k0'"
      using leave_list_ok [OF inv assms(3)] by blast
    then show ?thesis using k0 by (auto simp: same_rest_def intro: part_inv_thr_upd)
  next
    case False
    note u = leave_list_untimed [OF inv assms(3-5) False k(1)]
    let ?k = "thr_upd t f k"
    have st: "t_state (k_thr k t) \<noteq> Send_ipc" "t_state (k_thr k t) \<noteq> Receive_ipc" using u(1) assms(6) by auto
    have "list_of (f (k_thr k t)) = list_of (k_thr k t)"
      using st assms(4,5) by (cases "t_state (k_thr k t)") (simp_all add: list_of_def)
    moreover have "t \<notin> set (k_snd_wait k) \<union> set (k_rcv_wait k)"
      using waiting_list(3) [of k L_snd_wait] waiting_list(3) [of k L_rcv_wait] inv st by auto
    ultimately have "sched_inv ?k"
      using inv by (auto simp: sched_inv_def intro: lists_inv_thr_upd order_inv_thr_upd)
    from leave_list_ok [OF this assms(3)] show ?thesis using k(1) by (auto simp: same_rest_def)
  qed
  then have p: "part_inv t k1" "k_current k1 = k_current k" by auto
  obtain k2' where "enter_list t (thr_upd t (\<lambda>x. x\<lparr>t_state := st\<rparr>) k1) = Inr k2'" "sched_inv k2'"
    "same_rest (thr_upd t (\<lambda>x. x\<lparr>t_state := st\<rparr>) k1) k2'"
    using enter_list_ok [OF part_inv_thr_upd [OF p(1)] assms(3)] by blast
  then have "sched_inv k2" "k_current k2 = k_current k" using k(2) p(2) by (auto simp: same_rest_def)
  then show ?thesis using drop_heir_inv [OF k(3)] drop_heir_current [OF k(3)] assms(2) by (simp add: run_inv_def)
qed

lemma save_snd_phase_kok:
  assumes "save_snd_phase t tm to k = Inr k'" "t < Threads_max" "\<not> waits k t"
  shows "kok k k'"
proof -
  let ?f = "\<lambda>x. x\<lparr>t_timeout := abs_timeout k tm, t_to := to\<rparr>"
  have s: "set_state t Send_ipc (thr_upd t ?f k) = Inr k'" using assms(1) by (simp add: save_snd_phase_def)
  note f = set_state_fields [OF s]
  have "run_inv k \<Longrightarrow> run_inv k'" using save_phase_run_inv [OF s _ assms(2)] assms(3) by (simp add: waits_def)
  then show ?thesis using f by (auto simp: kok_def kinv_def pagers_ok_def waits_def split: if_splits)
qed

lemma save_rcv_phase_inv:
  assumes "save_rcv_phase t tm from k = Inr k'" "t < Threads_max" "\<not> waits k t" "kinv k"
  shows "kinv k' \<and> (\<forall>u. waits k' u \<longrightarrow> u = t \<or> waits k u)"
proof -
  let ?f = "\<lambda>x. x\<lparr>t_timeout := abs_timeout k tm, t_from_spec := from\<rparr>"
  have s: "set_state t Receive_ipc (thr_upd t ?f k) = Inr k'" using assms(1) by (simp add: save_rcv_phase_def)
  note f = set_state_fields [OF s]
  have "run_inv k'" using save_phase_run_inv [OF s _ assms(2)] assms(3,4) by (simp add: waits_def kinv_def)
  then show ?thesis using f assms(4) by (auto simp: kinv_def pagers_ok_def waits_def split: if_splits)
qed

section \<open>Messages of the kernel\<close>

lemma do_pfault_ipc_kok [kpath]: "do_pfault_ipc g sndr rcv a b c k = Inr k' \<Longrightarrow> kok k k'"
  by (auto simp: do_pfault_ipc_def Let_def utcb_upd_def scall_ipc_from_def sched_same_def split: prod.splits intro!: kok_same)

lemma do_exc_ipc_kok [kpath]: "do_exc_ipc sndr rcv a b k = Inr k' \<Longrightarrow> kok k k'"
  by (auto simp: do_exc_ipc_def Let_def utcb_upd_def scall_ipc_from_def sched_same_def intro!: kok_same)

lemma kok_state_after:
  assumes "set_state t st (thr_upd t f k) = Inr k'" "t < Threads_max" "st \<noteq> Receive_ipc"
    and "sched_same (f (k_thr k t)) (k_thr k t)" "t_pager (f (k_thr k t)) = t_pager (k_thr k t)"
  shows "kok k k'"
  using kok_same [of f k t] set_state_kok [OF assms(1-3)] assms(4,5) kok_trans by blast

lemma process_pfault_kok [kpath]:
  assumes "process_pfault g thr a b c k = Inr k'" "thr < Threads_max"
  shows "kok k k'"
proof (cases "kinv k")
  case True
  obtain pgr where p: "t_pager (k_thr k thr) = Some pgr" using assms(1) by (auto simp: process_pfault_def split: option.splits)
  then have pgr: "pgr < Threads_max" using True by (auto simp: kinv_def pagers_ok_def)
  show ?thesis
  proof (cases "t_state (k_thr k pgr) = Receive_ipc")
    case True
    then obtain k1 k2 k3 where k: "do_pfault_ipc g thr pgr a b c k = Inr k1" "set_state pgr Ready k1 = Inr k2"
      "set_state thr Receive_pfault (thr_upd thr (\<lambda>x. (pf_save a b c x)\<lparr>t_from_spec := t_glob_id (k_thr k pgr)\<rparr>) k2) = Inr k3"
      "k' = switch_to pgr k3" using assms(1) p by (auto simp: process_pfault_def Let_def)
    have "kok k2 k3" by (rule kok_state_after [OF k(3) assms(2)]) (simp_all add: sched_same_def pf_save_def)
    then show ?thesis using do_pfault_ipc_kok [OF k(1)] set_state_kok [OF k(2) pgr] switch_to_kok [OF pgr, of k3] k(4)
      by (metis kok_trans tstate.distinct)
  next
    case False
    then obtain k1 where k: "set_state thr Send_pfault
        (thr_upd thr (\<lambda>x. (pf_save a b c x)\<lparr>t_to := t_glob_id (k_thr k pgr)\<rparr>) k) = Inr k1" "switch_to_next k1 = Inr k'"
      using assms(1) p by (auto simp: process_pfault_def Let_def)
    have "kok k k1" by (rule kok_state_after [OF k(1) assms(2)]) (simp_all add: sched_same_def pf_save_def)
    then show ?thesis using switch_to_next_kok [OF k(2)] kok_trans by blast
  qed
qed (simp add: kok_def)

text \<open>A call whose optional result is taken apart.\<close>

lemma res_bind_option:
  assumes "res_bind m (\<lambda>f. case f of None \<Rightarrow> a | Some x \<Rightarrow> g x) = Inr y"
  obtains "m = Inr None" "a = Inr y" | x where "m = Inr (Some x)" "g x = Inr y"
  using assms by (cases m) (auto split: option.splits)

lemma default_handler_less: "default_handler k = Inr e \<Longrightarrow> e < Threads_max"
  unfolding default_handler_def by (erule res_bind_option) (auto dest: find_thr_less)

lemma find_handler_less: "find_handler thr k = Inr e \<Longrightarrow> e < Threads_max"
  unfolding find_handler_def
  by (erule res_bind_option) (auto dest: find_thr_less default_handler_less split: if_splits)

lemma process_exception_kok [kpath]:
  assumes "process_exception thr ty pf k = Inr k'" "thr < Threads_max"
  shows "kok k k'"
proof -
  obtain exh where e: "find_handler thr k = Inr exh" using assms(1) by (auto simp: process_exception_def)
  note el = find_handler_less [OF e]
  show ?thesis
  proof (cases "t_state (k_thr k exh) = Receive_ipc")
    case True
    then obtain k1 k2 k3 where k: "do_exc_ipc thr exh ty pf k = Inr k1" "set_state exh Ready k1 = Inr k2"
      "set_state thr Receive_exception (thr_upd thr (\<lambda>x. x\<lparr>t_from_spec := t_glob_id (k_thr k exh)\<rparr>) k2) = Inr k3"
      "k' = switch_to exh k3" using assms(1) e by (auto simp: process_exception_def Let_def)
    have "kok k2 k3" by (rule kok_state_after [OF k(3) assms(2)]) (simp_all add: sched_same_def)
    then show ?thesis using do_exc_ipc_kok [OF k(1)] set_state_kok [OF k(2) el] switch_to_kok [OF el, of k3] k(4)
      by (metis kok_trans tstate.distinct)
  next
    case False
    then obtain k1 where k: "set_state thr Send_exception
        (thr_upd thr (\<lambda>x. (exc_save ty pf x)\<lparr>t_to := t_glob_id (k_thr k exh)\<rparr>) k) = Inr k1" "switch_to_next k1 = Inr k'"
      using assms(1) e by (auto simp: process_exception_def Let_def)
    have "kok k k1" by (rule kok_state_after [OF k(1) assms(2)]) (simp_all add: sched_same_def exc_save_def)
    then show ?thesis using switch_to_next_kok [OF k(2)] kok_trans by blast
  qed
qed

lemma kok_fields:
  assumes "k_current k' = k_current k" "\<And>l. members k' l = members k l" "k_bits k' = k_bits k"
    and "\<And>u. t_state (k_thr k' u) = t_state (k_thr k u)" "\<And>u. t_prio (k_thr k' u) = t_prio (k_thr k u)"
    and "\<And>u. t_timeout (k_thr k' u) = t_timeout (k_thr k u)" "\<And>u. t_pager (k_thr k' u) = t_pager (k_thr k u)"
  shows "kok k k'"
proof -
  have m: "k_ready k' p = k_ready k p" "k_snd_wait k' = k_snd_wait k" "k_rcv_wait k' = k_rcv_wait k" for p
    using assms(2) [of "L_ready p"] assms(2) [of L_snd_wait] assms(2) [of L_rcv_wait] by simp_all
  have "sched_inv k'" if "sched_inv k"
    using that lists_inv_frame [of "{}" k k'] order_inv_frame [of k k'] assms m
    by (auto simp: sched_inv_def bits_inv_def intro!: list_of_cong)
  then show ?thesis using assms by (auto simp: kok_def kinv_def run_inv_def pagers_ok_def waits_def)
qed

lemma lend_prio_kok [kpath]:
  assumes "lend_prio cur dst k = Inr k'"
  shows "kok k k'"
proof -
  have "k' = k \<or> (\<exists>d'. inherit_prio_add (t_glob_id (k_thr k cur)) (prio_max (k_thr k cur)) (k_thr k dst) = Inr d'
      \<and> k' = thr_upd cur (\<lambda>x. x\<lparr>t_prio_heir := t_glob_id (k_thr k dst)\<rparr>) (thr_upd dst (\<lambda>_. d') k))"
    using assms by (auto simp: lend_prio_def Let_def split: if_splits)
  moreover have "t_state d' = t_state x \<and> t_prio d' = t_prio x \<and> t_timeout d' = t_timeout x \<and> t_pager d' = t_pager x"
    if "inherit_prio_add o' p x = Inr d'" for o' p x d'
    using that by (auto simp: inherit_prio_add_def split: if_splits)
  ultimately show ?thesis by (auto intro!: kok_fields)
qed

lemma thread_start_kok [kpath]:
  assumes "thread_start t ip sp k = Inr k'" "t < Threads_max"
  shows "kok k k'"
proof -
  obtain k1 where k1: "set_state t Ready k1 = Inr k'"
    and c: "k1 = k \<or> (\<exists>pg sc. find_thr k (t_pager_id (k_thr k t)) = Inr pg \<and> k1 = thr_upd t (\<lambda>x. x\<lparr>t_pager := pg, t_sched := sc,
                 t_utcb := (t_utcb x)\<lparr>u_global_id := t_glob_id x\<rparr>\<rparr>) k)"
    using assms(1) by (auto simp: thread_start_def split: if_splits)
  have "kok k k1"
  proof (cases "k1 = k")
    case False
    then obtain pg sc where p: "find_thr k (t_pager_id (k_thr k t)) = Inr pg"
      and k1: "k1 = thr_upd t (\<lambda>x. x\<lparr>t_pager := pg, t_sched := sc, t_utcb := (t_utcb x)\<lparr>u_global_id := t_glob_id x\<rparr>\<rparr>) k"
      using c by blast
    have "run_inv k \<Longrightarrow> run_inv k1" unfolding k1 by (rule run_inv_same) (simp_all add: sched_same_def)
    moreover have "pg = Some q \<Longrightarrow> q < Threads_max" for q using find_thr_less p by blast
    ultimately show ?thesis unfolding k1 by (auto simp: kok_def kinv_def pagers_ok_def waits_def)
  qed simp
  then show ?thesis using set_state_kok [OF k1 assms(2)] kok_trans by blast
qed

section \<open>Partial correctness of results\<close>

text \<open>\<open>post P m\<close>: if \<open>m\<close> is a result, it satisfies \<open>P\<close>. The rules follow the shape of the code.\<close>

definition post :: "('a \<Rightarrow> bool) \<Rightarrow> 'a res \<Rightarrow> bool" where
  "post P m \<longleftrightarrow> (\<forall>x. m = Inr x \<longrightarrow> P x)"

lemma post_simps [simp]:
  "post P (Inl e)" "post P (Inr x) \<longleftrightarrow> P x" "post P (res_bind m f) \<longleftrightarrow> post (\<lambda>x. post P (f x)) m"
  "post Q (wassert b) \<longleftrightarrow> (b \<longrightarrow> Q ())"
  by (auto simp: post_def)

lemma postI: "(\<And>x. m = Inr x \<Longrightarrow> P x) \<Longrightarrow> post P m"
  by (simp add: post_def)

lemma postD: "post P m \<Longrightarrow> m = Inr x \<Longrightarrow> P x"
  by (simp add: post_def)

lemma post_any: "(\<And>x. P x) \<Longrightarrow> post P m"
  by (simp add: post_def)

lemma post_mono: "post P m \<Longrightarrow> (\<And>x. P x \<Longrightarrow> Q x) \<Longrightarrow> post Q m"
  by (simp add: post_def)

section \<open>Operations on the whole state\<close>

text \<open>
  The continuations stay, but for threads whose kernel stack is set up anew, which do not wait.
\<close>

definition sok :: "sys \<Rightarrow> sys \<Rightarrow> bool" where
  "sok s s' \<longleftrightarrow> (kinv (s_k s) \<longrightarrow> kinv (s_k s') \<and> (\<forall>t. waits (s_k s') t \<longrightarrow> waits (s_k s) t \<and> s_cont s' t = s_cont s t))
     \<and> (\<forall>t. s_cont s' t = s_cont s t \<or> s_cont s' t = C_none)"

lemma sokI: "kok (s_k s) (s_k s') \<Longrightarrow> s_cont s' = s_cont s \<Longrightarrow> sok s s'"
  by (auto simp: sok_def kok_def)

lemma sok_refl [simp]: "sok s s"
  by (simp add: sok_def)

lemma sok_trans [trans]: "sok s s1 \<Longrightarrow> sok s1 s2 \<Longrightarrow> sok s s2"
  unfolding sok_def by metis

named_theorems wp "how the calls of the IPC code change the state"

lemma wp_mr_get [wp]: "(\<And>x. P x) \<Longrightarrow> post P (mr_get t i s)" by (rule post_any)
lemma wp_br_get [wp]: "(\<And>x. P x) \<Longrightarrow> post P (br_get t n s)" by (rule post_any)
lemma wp_as_walk [wp]: "(\<And>x. P x) \<Longrightarrow> post P (as_walk a va sz)" by (rule post_any)
lemma wp_is_pending [wp]: "(\<And>x. P x) \<Longrightarrow> post P (intc_is_pending irq ic)" by (rule post_any)
lemma wp_thrid_int [wp]: "(\<And>x. P x) \<Longrightarrow> post P (thrid_int irq)" by (rule post_any)

lemma wp_icop [wp]: "(\<And>s'. sok s s' \<Longrightarrow> P s') \<Longrightarrow> post P (icop f s)"
  by (auto simp: icop_def post_def sok_def)

lemma wp_tkop [wp]: "(\<And>s'. sok s s' \<Longrightarrow> P s') \<Longrightarrow> post P (tkop f t s)"
  by (auto simp: tkop_def post_def sok_def)

lemma wp_mop [wp]: "(\<And>s'. sok s s' \<Longrightarrow> P s') \<Longrightarrow> post P (mop f s)"
  by (auto simp: mop_def post_def sok_def)

lemma wp_kop:
  assumes "\<And>k'. f (s_k s) = Inr k' \<Longrightarrow> kok (s_k s) k'" "\<And>s'. sok s s' \<Longrightarrow> P s'"
  shows "post P (kop f s)"
  using assms by (auto simp: kop_def post_def intro!: assms(2) sokI)

lemma sok_supd:
  assumes "\<And>x. sched_same (f x) x" "\<And>x. t_pager (f x) = t_pager x"
  shows "sok s (supd t f s)"
  using kok_same [of f "s_k s" t] assms by (intro sokI) (simp_all add: supd_def)

lemma utcb_upd_same [simp]: "sched_same (utcb_upd f x) x" "t_pager (utcb_upd f x) = t_pager x"
  by (simp_all add: utcb_upd_def sched_same_def)

lemma sok_utcb: "sok s (supd t (utcb_upd f) s)"
  by (rule sok_supd) simp_all

lemma wp_mr_set [wp]: "(\<And>s'. sok s s' \<Longrightarrow> P s') \<Longrightarrow> post P (mr_set t i v s)"
  by (auto simp: mr_set_def post_def intro: sok_utcb)

lemma ipc_fail_sok: "sok s (ipc_fail cur phase e tag s)"
  unfolding ipc_fail_def by (rule sok_utcb)

lemma int_upd_sok: "sok s (int_upd irq f s)"
proof -
  have "members (k\<lparr>k_ints := v\<rparr>) l = members k l" for k v l by (cases l) simp_all
  then show ?thesis by (intro sokI) (auto simp: int_upd_def intro!: kok_fields)
qed

lemma frame_same [simp]: "sched_same (scall_ipc_from v x) y \<longleftrightarrow> sched_same x y" "t_pager (scall_ipc_from v x) = t_pager x"
  by (simp_all add: scall_ipc_from_def sched_same_def)

lemma sok_frame: "sok s (supd t (scall_ipc_from v) s)"
  by (rule sok_supd) (simp_all add: sched_same_def scall_ipc_from_def)

lemma ipc_head_sok: "sok s (ipc_head sndr rcv p u s)"
  unfolding ipc_head_def Let_def by (rule sok_supd) simp_all

lemma wp_calls [wp]:
  "thr < Threads_max \<Longrightarrow> (\<And>s'. sok s s' \<Longrightarrow> P s') \<Longrightarrow> post P (kop (process_pfault g thr a b c) s)"
  "thr < Threads_max \<Longrightarrow> (\<And>s'. sok s s' \<Longrightarrow> P s') \<Longrightarrow> post P (kop (process_exception thr ty pf) s)"
  "thr < Threads_max \<Longrightarrow> st \<noteq> Receive_ipc \<Longrightarrow> (\<And>s'. sok s s' \<Longrightarrow> P s') \<Longrightarrow> post P (kop (set_state thr st) s)"
  "thr < Threads_max \<Longrightarrow> (\<And>s'. sok s s' \<Longrightarrow> P s') \<Longrightarrow> post P (kop (thread_start thr ip sp) s)"
  "(\<And>s'. sok s s' \<Longrightarrow> P s') \<Longrightarrow> post P (kop switch_to_next s)"
  "(\<And>s'. sok s s' \<Longrightarrow> P s') \<Longrightarrow> post P (kop (lend_prio cur dst) s)"
  "(\<And>s'. sok s s' \<Longrightarrow> P s') \<Longrightarrow> post P (kop (do_pfault_ipc g thr rcv a b c) s)"
  "(\<And>s'. sok s s' \<Longrightarrow> P s') \<Longrightarrow> post P (kop (do_exc_ipc thr rcv ty pf) s)"
  "(\<And>s'. sok s s' \<Longrightarrow> P s') \<Longrightarrow> post P (kop (kern_timer_tick clk) s)"
  by (rule wp_kop; blast intro: kpath)+

lemma copy_thread_buf_sok: "post (sok s) (copy_thread_buf src dst len sndr rcv s)"
  unfolding copy_thread_buf_def Let_def by (auto intro!: wp)

lemma wp_copy [wp]: "(\<And>s'. sok s s' \<Longrightarrow> P s') \<Longrightarrow> post P (copy_thread_buf src dst len sndr rcv s)"
  using copy_thread_buf_sok by (rule post_mono)

fun item_sys :: "item_out \<Rightarrow> sys" where
  "item_sys (I_next it s) = s" | "item_sys (I_done s) = s" | "item_sys (I_fault it s) = s"

fun items_sys :: "items_out \<Rightarrow> sys" where
  "items_sys (T_done s) = s" | "items_sys (T_fault it s) = s"

lemma do_map_item_sok:
  assumes "sndr < Threads_max"
  shows "post (\<lambda>r. sok s (item_sys r)) (do_map_item again sndr rcv it s)"
  unfolding do_map_item_def map_item_words_def Let_def
  by (auto intro!: wp assms split: prod.split option.split intro: sok_trans)

lemma do_string_item_sok: "post (\<lambda>r. sok s (item_sys r)) (do_string_item sndr rcv it s)"
  unfolding do_string_item_def Let_def
  by (auto intro!: wp intro: sok_trans [OF sok_trans [OF sok_trans]] sok_trans sok_utcb)

lemma do_item_sok: "sndr < Threads_max \<Longrightarrow> post (\<lambda>r. sok s (item_sys r)) (do_item again sndr rcv it s)"
  unfolding do_item_def using do_map_item_sok [of sndr s again rcv it] do_string_item_sok [of s sndr rcv it]
  by (auto intro!: wp)

lemma typed_items_sok: "sndr < Threads_max \<Longrightarrow> post (\<lambda>r. sok s (items_sys r)) (typed_items again sndr rcv it s)"
proof (induction again sndr rcv it s rule: typed_items.induct)
  case (1 again sndr rcv it s)
  show ?case
  proof (cases "it_i it > items_last (it_tag it)")
    case False
    show ?thesis
    proof (cases "do_item again sndr rcv it s")
      case (Inr r)
      have r: "sok s (item_sys r)" using postD [OF do_item_sok [OF 1(2)] Inr] .
      show ?thesis
      proof (cases r)
        case (I_next it' s')
        then have "post (\<lambda>r. sok s' (items_sys r)) (typed_items False sndr rcv it' s')"
          using "1.IH" [OF False Inr] 1(2) by simp
        then have "post (\<lambda>r. sok s (items_sys r)) (typed_items False sndr rcv it' s')"
          by (rule post_mono) (use r I_next in \<open>auto intro: sok_trans\<close>)
        then show ?thesis using False Inr I_next by (simp add: typed_items.simps [of again])
      qed (use r False Inr in \<open>simp_all add: typed_items.simps [of again]\<close>)
    qed (use False in \<open>simp add: typed_items.simps [of again]\<close>)
  qed (simp add: typed_items.simps [of again])
qed

lemma do_normal_ipc_sok:
  assumes "sndr < Threads_max"
  shows "post (\<lambda>r. sok s (items_sys r)) (do_normal_ipc sndr rcv p u s)"
proof -
  let ?s = "ipc_head sndr rcv p u s"
  have "post (\<lambda>r. sok s (items_sys r)) (typed_items False sndr rcv it ?s)" for it
    by (rule post_mono [OF typed_items_sok [OF assms]]) (use ipc_head_sok sok_trans in blast)
  then show ?thesis unfolding do_normal_ipc_def Let_def using ipc_head_sok by simp
qed

section \<open>Phases\<close>

definition loc_ok :: "ipc_loc \<Rightarrow> bool" where
  "loc_ok l \<longleftrightarrow> (\<forall>t. l_snd l = Some t \<or> l_rcv l = Some t \<longrightarrow> t < Threads_max)"

fun cont_ok :: "kcont \<Rightarrow> bool" where
  "cont_ok C_none = True"
| "cont_ok C_exit = True"
| "cont_ok (C_rcv l) = loc_ok l"
| "cont_ok (C_end l) = loc_ok l"
| "cont_ok (C_items phase l sndr rcv it) = (loc_ok l \<and> sndr < Threads_max \<and> rcv < Threads_max)"
| "cont_ok (C_pf_reply l dst fp) = (loc_ok l \<and> dst < Threads_max)"

fun is_end :: "kcont \<Rightarrow> bool" where
  "is_end (C_end l) = True"
| "is_end _ = False"

text \<open>A thread that leaves the processor: it alone may start to wait, and then it is at the end of \<open>do_ipc\<close>.\<close>

definition left_ok :: "nat \<Rightarrow> sys \<Rightarrow> kcont \<times> sys \<Rightarrow> bool" where
  "left_ok cur s r \<longleftrightarrow> (let (c, s') = r in cont_ok c \<and>
     (kinv (s_k s) \<longrightarrow> kinv (s_k s')
       \<and> (\<forall>t. waits (s_k s') t \<longrightarrow> waits (s_k s) t \<and> s_cont s' t = s_cont s t \<or> t = cur \<and> is_end c))
     \<and> (\<forall>t. s_cont s' t = s_cont s t \<or> s_cont s' t = C_none))"

fun pok :: "nat \<Rightarrow> sys \<Rightarrow> pout \<Rightarrow> bool" where
  "pok cur s (P_go l s') \<longleftrightarrow> loc_ok l \<and> sok s s'"
| "pok cur s (P_return s') \<longleftrightarrow> sok s s'"
| "pok cur s (P_block c s') \<longleftrightarrow> left_ok cur s (c, s')"

lemma left_ok_sok: "sok s s' \<Longrightarrow> cont_ok c \<Longrightarrow> left_ok cur s (c, s')"
  by (auto simp: left_ok_def sok_def kok_def)

lemma left_ok_after: "sok s s1 \<Longrightarrow> left_ok cur s1 r \<Longrightarrow> left_ok cur s r"
  unfolding left_ok_def sok_def by (cases r) (clarsimp, metis)

lemma pok_after: "sok s s1 \<Longrightarrow> pok cur s1 p \<Longrightarrow> pok cur s p"
  by (cases p) (auto intro: sok_trans left_ok_after)

lemma pok_after_call: "post (sok s) m \<Longrightarrow> (\<And>s1. sok s s1 \<Longrightarrow> post (pok cur s1) (f s1)) \<Longrightarrow> post (pok cur s) (res_bind m f)"
  by (auto simp: post_def intro: pok_after)

lemma loc_ok_upd [simp]:
  "loc_ok l \<Longrightarrow> t < Threads_max \<Longrightarrow> loc_ok (l\<lparr>l_snd := Some t\<rparr>)"
  "loc_ok l \<Longrightarrow> t < Threads_max \<Longrightarrow> loc_ok (l\<lparr>l_rcv := Some t\<rparr>)"
  "loc_ok l \<Longrightarrow> loc_ok (l\<lparr>l_snd := None\<rparr>)"
  by (auto simp: loc_ok_def)

lemma not_waits_after: "sok s s1 \<Longrightarrow> \<not> waits (s_k s) t \<Longrightarrow> kinv (s_k s) \<Longrightarrow> \<not> waits (s_k s1) t"
  by (auto simp: sok_def kok_def)

lemma reenable_irq_pok: "loc_ok l \<Longrightarrow> post (pok cur s) (reenable_irq cur l s)"
  unfolding reenable_irq_def Let_def
  by (auto intro!: wp ipc_fail_sok intro: sok_trans int_upd_sok sok_trans [OF sok_trans] sok_trans [OF sok_trans [OF sok_trans]])

lemma resume_dst_pok: "loc_ok l \<Longrightarrow> dst < Threads_max \<Longrightarrow> post (pok cur s) (resume_dst dst l s)"
  unfolding resume_dst_def by (auto intro!: wp)

lemma resume_dst_after:
  "sok s s1 \<Longrightarrow> loc_ok l \<Longrightarrow> dst < Threads_max \<Longrightarrow> post (pok cur s) (resume_dst dst l s1)"
  using post_mono [OF resume_dst_pok] pok_after by blast

lemma pf_reply_map_pok:
  assumes "loc_ok l" "dst < Threads_max" "cur < Threads_max"
  shows "post (pok cur s) (pf_reply_map again cur l dst fp s)"
  unfolding pf_reply_map_def Let_def
  using assms by (auto intro!: wp left_ok_sok resume_dst_after intro: sok_trans)

lemma pf_reply_pok:
  assumes "loc_ok l" "dst < Threads_max" "cur < Threads_max"
  shows "post (pok cur s) (pf_reply cur l dst s)"
  unfolding pf_reply_def using assms
  by (auto intro!: wp left_ok_sok pf_reply_map_pok resume_dst_pok)

lemma exc_reply_pok:
  assumes "loc_ok l" "dst < Threads_max"
  shows "post (pok cur s) (exc_reply cur l dst s)"
  unfolding exc_reply_def Let_def
  by (rule post_mono [OF resume_dst_pok [OF assms]])
    (rule pok_after [OF sok_supd], auto simp: sched_same_def)

lemma sw_irq_pok:
  assumes "loc_ok l" "dst < Threads_max"
  shows "post (pok cur s) (sw_irq cur l dst s)"
  unfolding sw_irq_def Let_def using assms
  by (auto intro!: wp sok_supd intro: sok_trans [OF sok_frame] simp: sched_same_def)

lemma after_items_pok:
  assumes "loc_ok l" "sndr < Threads_max" "rcv < Threads_max"
  shows "post (pok cur (items_sys r)) (after_items phase l sndr rcv r)"
  unfolding after_items_def Let_def using assms
  by (auto intro!: wp left_ok_sok split: items_out.split ipc_phase.split)

lemma transfer_pok:
  assumes "loc_ok l" "sndr < Threads_max" "rcv < Threads_max"
  shows "post (pok cur s) (res_bind (do_normal_ipc sndr rcv p u s) (after_items phase l sndr rcv))"
proof (unfold post_simps, rule post_mono [OF do_normal_ipc_sok [OF assms(2)]])
  fix r assume "sok s (items_sys r)"
  then show "post (pok cur s) (after_items phase l sndr rcv r)"
    using post_mono [OF after_items_pok [OF assms]] pok_after by blast
qed

text \<open>Threads named by the code are in the table.\<close>

lemma wp_find_thr [wp]:
  assumes "\<And>f. (\<And>t. f = Some t \<Longrightarrow> t < Threads_max) \<Longrightarrow> P f"
  shows "post P (find_thr k i)"
proof (rule postI)
  fix f assume "find_thr k i = Inr f"
  then show "P f" by (intro assms) (simp add: find_thr_less [of k i, simplified])
qed

lemma wp_virt_sender [wp]: "(\<And>x. P x) \<Longrightarrow> post P (virt_sender cur dst tag s)" by (rule post_any)
lemma wp_is_good_sender [wp]: "(\<And>x. P x) \<Longrightarrow> post P (is_good_sender k dst t)" by (rule post_any)
lemma wp_find_int_sender [wp]: "(\<And>x. P x) \<Longrightarrow> post P (find_int_sender k t f)" by (rule post_any)
lemma wp_is_irq_acceptable [wp]: "(\<And>x. P x) \<Longrightarrow> post P (is_irq_acceptable k t irq)" by (rule post_any)

lemma kok_save_snd:
  assumes "save_snd_phase t tm to (s_k s) = Inr k'" "t < Threads_max" "\<not> waits (s_k s) t"
  shows "sok s (s\<lparr>s_k := k'\<rparr>)"
  using save_snd_phase_kok [OF assms] by (intro sokI) simp_all

lemma wp_save_snd:
  "t < Threads_max \<Longrightarrow> \<not> waits (s_k s) t \<Longrightarrow> (\<And>s'. sok s s' \<Longrightarrow> P s') \<Longrightarrow> post P (kop (save_snd_phase t tm to) s)"
  by (auto simp: kop_def post_def dest: kok_save_snd)

lemma block_send:
  assumes "loc_ok l" "cur < Threads_max" "dst < Threads_max" "kinv (s_k s) \<Longrightarrow> \<not> waits (s_k s) cur"
  shows "post (pok cur s) (res_bind (kop (\<lambda>k. if dst \<noteq> cur then lend_prio cur dst k else Inr k) s) (\<lambda>s1.
       res_bind (kop (save_snd_phase cur tm to) s1) (\<lambda>s2.
       res_bind (kop switch_to_next s2) (\<lambda>s3. Inr (P_block (C_rcv l) s3)))))"
proof (cases "kinv (s_k s)")
  case True
  have "post (sok s) (kop (\<lambda>k. if dst \<noteq> cur then lend_prio cur dst k else Inr k) s)"
    by (rule wp_kop) (auto dest: lend_prio_kok split: if_splits)
  then show ?thesis unfolding post_simps
  proof (rule post_mono)
    fix s1 assume s1: "sok s s1"
    then have "\<not> waits (s_k s1) cur" using not_waits_after assms(4) True by blast
    then show "post (\<lambda>s2. post (\<lambda>s3. pok cur s (P_block (C_rcv l) s3)) (kop switch_to_next s2)) (kop (save_snd_phase cur tm to) s1)"
      using assms(1,2) s1 by (auto intro!: wp_save_snd wp left_ok_sok intro: sok_trans [OF sok_trans])
  qed
next
  case False
  have "s_cont s' = s_cont s" if "kop f s = Inr s'" for f s s' using that by (auto simp: kop_def)
  then show ?thesis using False assms(1) by (auto simp: post_def left_ok_def)
qed

lemma send_message_pok:
  assumes "loc_ok l" "cur < Threads_max" "dst < Threads_max" "kinv (s_k s) \<Longrightarrow> \<not> waits (s_k s) cur"
  shows "post (pok cur s) (send_message cur l dst s)"
  unfolding send_message_def
  using transfer_pok [OF assms(1-3)] block_send [OF assms] ipc_fail_sok
  by (auto intro!: wp simp del: post_simps(3) simp: post_simps(3) [of _ "virt_sender _ _ _ _"]
      post_simps(3) [of _ "if _ then is_good_sender _ _ _ else _"] split: prod.split)

lemma send_phase_pok:
  assumes "loc_ok l" "cur < Threads_max" "kinv (s_k s) \<Longrightarrow> \<not> waits (s_k s) cur"
  shows "post (pok cur s) (send_phase cur l s)"
  unfolding send_phase_def Let_def
  using assms by (auto intro!: wp reenable_irq_pok ipc_fail_sok pf_reply_pok exc_reply_pok sw_irq_pok send_message_pok
      split: option.split)

lemma wait_message_pok:
  assumes "loc_ok l" "cur < Threads_max" "kinv (s_k s) \<Longrightarrow> \<not> waits (s_k s) cur"
  shows "post (pok cur s) (wait_message cur l s)"
proof (rule postI)
  fix p assume "wait_message cur l s = Inr p"
  then obtain k1 k2 where k: "save_rcv_phase cur (timeouts_rcv (l_tmo l)) (l_from l) (s_k s) = Inr k1"
    "switch_to_next k1 = Inr k2" "p = P_block (C_end (l\<lparr>l_snd := None\<rparr>)) (s\<lparr>s_k := k2\<rparr>)"
    by (auto simp: wait_message_def kop_def)
  have "kinv k2 \<and> (\<forall>t. waits k2 t \<longrightarrow> waits (s_k s) t \<or> t = cur)" if "kinv (s_k s)"
    using save_rcv_phase_inv [OF k(1) assms(2) assms(3) [OF that] that] switch_to_next_kok [OF k(2)]
    by (auto simp: kok_def)
  then show "pok cur s p" using assms(1) by (auto simp: k(3) left_ok_def)
qed

lemma receive_sw_irq_pok:
  assumes "loc_ok l" "cur < Threads_max" "kinv (s_k s) \<Longrightarrow> \<not> waits (s_k s) cur"
  shows "post (pok cur s) (receive_sw_irq cur l s)"
  unfolding receive_sw_irq_def Let_def using assms
  by (auto intro!: sok_supd ipc_fail_sok wait_message_pok simp: sched_same_def scall_ipc_from_def)

lemma receive_irq_pok:
  assumes "loc_ok l" "cur < Threads_max" "kinv (s_k s) \<Longrightarrow> \<not> waits (s_k s) cur"
  shows "post (pok cur s) (receive_irq cur l s)"
proof -
  have "sok s (int_upd irq f (supd cur (\<lambda>x. scall_ipc_from v (utcb_upd g x)) s))" for irq f v g
    by (rule sok_trans [OF _ int_upd_sok]) (rule sok_supd, simp_all)
  then show ?thesis unfolding receive_irq_def Let_def using assms
    by (auto intro!: wp wait_message_pok split: option.split)
qed

lemma find_sender_less:
  assumes "sched_inv k" "find_sender k rcv f = Inr (Some t, x)"
  shows "t < Threads_max"
proof -
  have h: "highest_sender k rcv f ts r fl = Inr (Some t, y) \<Longrightarrow> r = Some t \<or> t \<in> set ts" for ts r fl t y
  proof (induction ts arbitrary: r fl)
    case (Cons u ts)
    obtain g fl' where "highest_sender k rcv f ts g fl' = Inr (Some t, y)" "g = r \<or> g = Some u"
      using Cons.prems by (auto split: if_splits option.splits)
    then show ?case using Cons.IH [of g fl'] by auto
  qed simp
  have m: "t \<in> set (k_snd_wait k) \<Longrightarrow> t < Threads_max" "t \<in> set (k_send k) \<Longrightarrow> t < Threads_max" for t
    using lists_invD(2) [of "{}" k L_snd_wait] lists_invD(2) [of "{}" k L_send] assms(1) by (auto simp: sched_inv_def)
  consider f' where "find_thr k f = Inr (Some f')" | "find_thr k f = Inr None"
    using assms(2) by (cases "find_thr k f"; cases "projr (find_thr k f)") (auto simp: find_sender_def)
  then show ?thesis
  proof cases
    case 1
    then show ?thesis using assms(2) find_thr_less by (auto simp: find_sender_def split: if_splits)
  next
    case 2
    then obtain r1 f1 r2 f2 where r: "find_highest_prio_sender k (k_snd_wait k) rcv f = Inr (r1, f1)"
      "find_highest_prio_sender k (k_send k) rcv f = Inr (r2, f2)" "r1 = Some t \<or> r2 = Some t"
      using assms(2) by (auto simp: find_sender_def split: option.splits if_splits)
    then show ?thesis using h m by (fastforce simp: find_highest_prio_sender_def)
  qed
qed

lemma wp_find_sender:
  assumes "sched_inv k" "\<And>f p u. (\<And>t. f = Some t \<Longrightarrow> t < Threads_max) \<Longrightarrow> P (f, p, u)"
  shows "post P (find_sender k rcv fr)"
proof (rule postI)
  fix r assume r: "find_sender k rcv fr = Inr r"
  obtain f p u where e: "r = (f, p, u)" by (cases r)
  have "P (f, p, u)" by (rule assms(2)) (use find_sender_less [OF assms(1)] r e in blast)
  then show "P r" using e by simp
qed

lemma lend_if:
  "post (sok s) (if b then res_bind (find_thr k i) (\<lambda>g. case g of None \<Rightarrow> Inl Assert_failed
     | Some sender \<Rightarrow> kop (lend_prio cur sender) s) else Inr s)"
  by (auto intro!: wp split: option.split)

lemma receive_message_pok:
  assumes "loc_ok l" "cur < Threads_max" "\<not> waits (s_k s) cur" "kinv (s_k s)"
  shows "post (pok cur s) (receive_message cur l s)"
proof -
  have "sched_inv (s_k s)" using assms(4) by (simp add: kinv_def run_inv_def)
  then show ?thesis unfolding receive_message_def post_simps
  proof (rule wp_find_sender)
    fix f p u assume f: "\<And>t. f = Some t \<Longrightarrow> t < Threads_max"
    have w: "post (pok cur s) (res_bind (if b then res_bind (find_thr k i) (\<lambda>g. case g of None \<Rightarrow> Inl Assert_failed
         | Some sender \<Rightarrow> kop (lend_prio cur sender) s) else Inr s) (wait_message cur l))" for b k i
      unfolding post_simps
      by (rule post_mono [OF lend_if])
        (use wait_message_pok assms not_waits_after post_mono pok_after in \<open>smt (verit)\<close>)
    have t: "post (pok cur s) (res_bind (do_normal_ipc t cur p u s) (after_items Rcv_phase l t cur))" if "t < Threads_max" for t
      by (rule transfer_pok [OF assms(1) that assms(2)])
    show "post (pok cur s) (case (f, p, u) of (f, propagated, use_local_id) \<Rightarrow>
       case f of
         None \<Rightarrow> if time_is_zero (timeouts_rcv (l_tmo l)) then Inr (P_go l (ipc_fail cur Rcv_phase L4_ipc_timeout (l_tag l) s))
           else res_bind
             (if thrid_is_single (l_from l) \<and> l_from l \<noteq> t_glob_id (sthr s cur) then
                res_bind (find_thr (s_k s) (l_from l)) (\<lambda>g. case g of None \<Rightarrow> Inl Assert_failed
                | Some sender \<Rightarrow> kop (lend_prio cur sender) s)
              else Inr s) (wait_message cur l)
       | Some sndr \<Rightarrow>
         let st = sthr s sndr in
         if t_state st = Send_pfault then
           res_bind (kop (do_pfault_ipc (s_stale s) sndr cur (t_pf_addr st) (t_pf_access st) (t_pf_inst st)) s) (\<lambda>s1.
           res_bind (kop (set_state sndr Receive_pfault) s1) (\<lambda>s2. Inr (P_go (l\<lparr>l_rcv := Some sndr\<rparr>) s2)))
         else if t_state st = Send_exception then
           res_bind (kop (do_exc_ipc sndr cur (t_exc_type st) (t_exc_pf st)) s) (\<lambda>s1.
           res_bind (kop (set_state sndr Receive_exception) s1) (\<lambda>s2. Inr (P_go (l\<lparr>l_rcv := Some sndr\<rparr>) s2)))
         else if t_state st = Send_ipc then
           res_bind (do_normal_ipc sndr cur propagated use_local_id s) (after_items Rcv_phase l sndr cur)
         else Inl Assert_failed)"
    proof (cases f)
      case None
      then show ?thesis using w ipc_fail_sok assms(1) by (simp add: Let_def del: post_simps(3))
    next
      case (Some t)
      then have "t < Threads_max" using f by simp
      then show ?thesis using Some t assms(1)
        by (auto simp: Let_def simp del: post_simps(3) intro!: wp post_simps(3) [THEN iffD2] intro: sok_trans)
    qed
  qed
qed

lemma receive_phase_pok:
  assumes "loc_ok l" "cur < Threads_max" "\<not> waits (s_k s) cur" "kinv (s_k s)"
  shows "post (pok cur s) (receive_phase cur l s)"
  unfolding receive_phase_def
  using assms by (auto intro!: receive_sw_irq_pok receive_irq_pok receive_message_pok)

section \<open>Entries of the kernel\<close>

lemma sok_switch: "t < Threads_max \<Longrightarrow> sok s (s\<lparr>s_k := switch_to t (s_k s)\<rparr>)"
  using switch_to_kok by (intro sokI) simp_all

lemma ipc_end_sok: "loc_ok l \<Longrightarrow> post (\<lambda>s'. sok s s' \<and> t_state (sthr s cur) = Ready) (ipc_end cur l s)"
  unfolding ipc_end_def Let_def by (auto simp: loc_ok_def intro!: sok_switch split: option.split)

lemma run_end_left: "loc_ok l \<Longrightarrow> post (\<lambda>r. left_ok cur s r \<and> \<not> waits (s_k s) cur) (run_end cur l s)"
  unfolding run_end_def post_simps
  by (rule post_mono [OF ipc_end_sok]) (auto intro: left_ok_sok simp: waits_def)

lemma run_receive_left:
  assumes "loc_ok l" "cur < Threads_max" "\<not> waits (s_k s) cur" "kinv (s_k s)"
  shows "post (left_ok cur s) (run_receive cur l s)"
  unfolding run_receive_def post_simps
proof (rule post_mono [OF receive_phase_pok [OF assms]])
  fix p assume p: "pok cur s p"
  show "post (left_ok cur s) (case p of P_go l1 s1 \<Rightarrow> run_end cur l1 s1 | P_return s1 \<Rightarrow> Inr (C_exit, s1)
     | P_block c s1 \<Rightarrow> Inr (c, s1))"
  proof (cases p)
    case (P_go l1 s1)
    then have "post (\<lambda>r. left_ok cur s1 r \<and> \<not> waits (s_k s1) cur) (run_end cur l1 s1)" using p run_end_left by simp
    then have "post (left_ok cur s) (run_end cur l1 s1)"
      by (rule post_mono) (use p P_go left_ok_after in auto)
    then show ?thesis using P_go by simp
  qed (use p in \<open>auto intro: left_ok_sok\<close>)
qed

lemma after_send_left:
  assumes "pok cur s p" "cur < Threads_max" "\<not> waits (s_k s) cur" "kinv (s_k s)"
  shows "post (left_ok cur s) (after_send cur p)"
proof (cases p)
  case (P_go l s1)
  then have "sok s s1" "loc_ok l" using assms(1) by auto
  moreover from this have "kinv (s_k s1)" "\<not> waits (s_k s1) cur" using assms(3,4) by (auto simp: sok_def kok_def)
  ultimately have "post (left_ok cur s1) (run_receive cur l s1)" using run_receive_left assms(2) by blast
  then have "post (left_ok cur s) (run_receive cur l s1)"
    by (rule post_mono) (use \<open>sok s s1\<close> left_ok_after in blast)
  then show ?thesis using P_go by (simp add: after_send_def)
qed (use assms(1) in \<open>auto simp: after_send_def intro: left_ok_sok\<close>)

lemma do_ipc_left:
  assumes "cur < Threads_max" "\<not> waits (s_k s) cur" "kinv (s_k s)"
  shows "post (left_ok cur s) (do_ipc cur s)"
proof -
  define tag where "tag = tag_set_ok (utcb_msgtag (t_utcb (sthr s cur)))"
  define l where "l = \<lparr>l_to = scall_ipc_to (sthr s cur), l_from = scall_ipc_from_spec (sthr s cur),
    l_tmo = scall_ipc_timeouts (sthr s cur), l_tag = tag, l_snd = None, l_rcv = None\<rparr>"
  define s1 where "s1 = supd cur (utcb_upd (utcb_set_msgtag tag)) s"
  have s1: "sok s s1" unfolding s1_def by (rule sok_utcb)
  have l: "loc_ok l" by (simp add: l_def loc_ok_def)
  have w: "\<not> waits (s_k s1) cur" "kinv (s_k s1)" using s1 assms(2,3) by (auto simp: sok_def kok_def)
  have "post (left_ok cur s1) (res_bind (send_phase cur l s1) (after_send cur))" unfolding post_simps
    by (rule post_mono [OF send_phase_pok [OF l assms(1) w(1)]]) (rule after_send_left [OF _ assms(1) w])
  moreover have "post (left_ok cur s1) (run_receive cur l s1)" by (rule run_receive_left [OF l assms(1) w])
  ultimately have "post (left_ok cur s1) (do_ipc cur s)"
    by (simp add: do_ipc_def Let_def l_def s1_def tag_def del: post_simps)
  then show ?thesis by (rule post_mono) (rule left_ok_after [OF s1])
qed

lemma check_force_exception_left: "cur < Threads_max \<Longrightarrow> post (left_ok cur s) (check_force_exception cur s)"
proof -
  assume c: "cur < Threads_max"
  let ?s = "supd cur (\<lambda>x. x\<lparr>t_flags := t_flags x AND NOT L4_flags_frcexc\<rparr>) s"
  have "sok s ?s" by (rule sok_supd) (simp_all add: sched_same_def)
  then have "post (\<lambda>s1. left_ok cur s (C_exit, s1)) (kop (process_exception cur ty pf) ?s)" for ty pf
    using c by (auto intro!: wp left_ok_sok intro: sok_trans)
  moreover have "sok s (supd cur skip_trap s)" by (rule sok_supd) (simp_all add: sched_same_def skip_trap_def)
  ultimately show ?thesis unfolding check_force_exception_def by (auto intro: left_ok_sok)
qed

lemma resume_left:
  assumes "cur < Threads_max" "kinv (s_k s)" "cont_ok (s_cont s cur)"
    and "waits (s_k s) cur \<Longrightarrow> is_end (s_cont s cur)"
  shows "post (\<lambda>r. left_ok cur s r \<and> \<not> waits (s_k s) cur) (resume cur s)"
proof (cases "s_cont s cur")
  case C_none
  then show ?thesis using assms(4) left_ok_sok [of s s C_none cur] by (auto simp: resume_def)
next
  case C_exit
  then have "\<not> waits (s_k s) cur" using assms(4) by auto
  then show ?thesis using C_exit check_force_exception_left [OF assms(1), of s] by (simp add: resume_def)
next
  case (C_rcv l)
  then have "\<not> waits (s_k s) cur" using assms(4) by auto
  then show ?thesis using C_rcv assms post_mono [OF run_receive_left [of l cur s]] by (simp add: resume_def)
next
  case (C_end l)
  then show ?thesis using assms(3) post_mono [OF run_end_left [of l cur s]] by (simp add: resume_def)
next
  case (C_items phase l sndr rcv it)
  then have w: "\<not> waits (s_k s) cur" and ok: "loc_ok l" "sndr < Threads_max" "rcv < Threads_max"
    using assms(3,4) by auto
  have "post (pok cur s) (res_bind (typed_items True sndr rcv it s) (after_items phase l sndr rcv))"
    unfolding post_simps
    by (rule post_mono [OF typed_items_sok [OF ok(2)]])
      (use post_mono [OF after_items_pok [OF ok]] pok_after in blast)
  then have "post (\<lambda>p. post (left_ok cur s) (case phase of
            Snd_phase \<Rightarrow> after_send cur p
          | Rcv_phase \<Rightarrow> (case p of
              P_go l1 s1 \<Rightarrow> run_end cur l1 s1
            | P_return s1 \<Rightarrow> Inr (C_exit, s1)
            | P_block c s1 \<Rightarrow> Inr (c, s1)))) (res_bind (typed_items True sndr rcv it s) (after_items phase l sndr rcv))"
  proof (rule post_mono)
    fix p assume p: "pok cur s p"
    have "post (left_ok cur s) (after_send cur p)" by (rule after_send_left [OF p assms(1) w assms(2)])
    moreover have "post (left_ok cur s) (run_end cur l1 s1)" if "p = P_go l1 s1" for l1 s1
      by (rule post_mono [OF run_end_left]) (use p that left_ok_after in auto)
    ultimately show "post (left_ok cur s) (case phase of
            Snd_phase \<Rightarrow> after_send cur p
          | Rcv_phase \<Rightarrow> (case p of
              P_go l1 s1 \<Rightarrow> run_end cur l1 s1
            | P_return s1 \<Rightarrow> Inr (C_exit, s1)
            | P_block c s1 \<Rightarrow> Inr (c, s1)))"
      using p by (auto intro: left_ok_sok split: ipc_phase.split pout.split)
  qed
  then show ?thesis using C_items w by (simp add: resume_def)
next
  case (C_pf_reply l dst fp)
  then have w: "\<not> waits (s_k s) cur" and ok: "loc_ok l" "dst < Threads_max" using assms(3,4) by auto
  have "post (left_ok cur s) (res_bind (pf_reply_map True cur l dst fp s) (after_send cur))" unfolding post_simps
    by (rule post_mono [OF pf_reply_map_pok [OF ok assms(1)]]) (rule after_send_left [OF _ assms(1) w assms(2)])
  then show ?thesis using C_pf_reply w by (simp add: resume_def)
qed

lemma sok_entry: "sok s (supd t (\<lambda>x. x\<lparr>t_entry_type := e\<rparr>) s)"
  by (rule sok_supd) (simp_all add: sched_same_def)

lemma kentry_pagefault_left:
  "k_current (s_k s) < Threads_max \<Longrightarrow> post (left_ok cur s) (kentry_pagefault a b c s)"
  unfolding kentry_pagefault_def Let_def by (auto intro!: wp left_ok_sok intro: sok_trans [OF sok_entry])

lemma kentry_irq_left: "post (left_ok cur s) (kentry_irq timer_irq clk irq s)"
proof -
  define s' where "s' = supd (k_current (s_k s)) (\<lambda>x. x\<lparr>t_entry_type := Entry_type_irq\<rparr>) s"
  have s': "sok s s'" unfolding s'_def by (rule sok_entry)
  have "sok s' (s2\<lparr>s_k := switch_to dst (s_k s2)\<rparr>)" if "sok s' s2" "dst < Threads_max" for s2 dst
    using sok_trans [OF that(1) sok_switch [OF that(2)]] .
  moreover have "sok s' s0 \<Longrightarrow> sok s0 s1 \<Longrightarrow> sok (supd dst (scall_ipc_from v) s1) s2 \<Longrightarrow> sok s' s2" for s0 s1 s2 dst v
    using sok_trans sok_frame by blast
  moreover have "sok s' s0 \<Longrightarrow> sok s0 s1 \<Longrightarrow> sok s' (int_upd irq f s1)" for s0 s1 f
    using sok_trans int_upd_sok by blast
  ultimately have "post (left_ok cur s') (kentry_irq timer_irq clk irq s)" unfolding kentry_irq_def Let_def s'_def [symmetric]
    by (auto intro!: wp left_ok_sok split: option.split intro: sok_trans sok_trans [OF sok_trans])
  then show ?thesis by (rule post_mono) (rule left_ok_after [OF s'])
qed

end
