(* ===== verification/Syscalls.thy ===== *)
theory Syscalls
  imports Ipc_Inv
begin

text \<open>
  The system calls other than IPC: \<open>krn/syscalls.cpp\<close>, the tasks of \<open>krn/task.h\<close> they create, and
  the dispatcher \<open>kentry_syscall\<close> of \<open>krn/kentry.cpp\<close> with its entry \<open>sparc_entry_syscall\<close>. Arguments
  and results are words of the entry frame: \<open>g4\<close> and \<open>g5\<close> are words 116 and 117, \<open>i0\<close> to \<open>i5\<close> words
  120 to 125, \<open>psr\<close>, \<open>pc\<close> and \<open>npc\<close> words 128, 130 and 131. The kernel's own mappings of UTCBs, names
  and debug output are left out; of the debugger call only the result code is modelled, and the call that lists the
  threads, which stores through an unchecked pointer of the caller, has no result in the model.
\<close>

section \<open>Frame words and errors\<close>

definition frame_get :: "nat \<Rightarrow> nat \<Rightarrow> sys \<Rightarrow> u32" where
  "frame_get t i s = t_frame (sthr s t) ! i"

definition frame_set :: "nat \<Rightarrow> nat \<Rightarrow> u32 \<Rightarrow> sys \<Rightarrow> sys" where
  "frame_set t i v = supd t (\<lambda>x. x\<lparr>t_frame := (t_frame x)[i := v]\<rparr>)"

definition utcb_error :: "nat \<Rightarrow> u32 \<Rightarrow> sys \<Rightarrow> sys" where
  "utcb_error t e = supd t (utcb_upd (\<lambda>u. u\<lparr>u_error := e\<rparr>))"

definition exit_pc :: "thread \<Rightarrow> u32" where
  "exit_pc th =
     (let e = t_entry_type th in
      if e = Entry_type_syscall then t_frame th ! 131
      else if e = Entry_type_pfault \<or> e = Entry_type_irq then t_frame th ! 130 else 0)"

definition exit_pc2 :: "thread \<Rightarrow> u32" where
  "exit_pc2 th =
     (let e = t_entry_type th in
      if e = Entry_type_syscall then t_frame th ! 131 + 4
      else if e = Entry_type_pfault \<or> e = Entry_type_irq then t_frame th ! 131 else 0)"

definition set_exit_pc :: "u32 \<Rightarrow> u32 \<Rightarrow> thread \<Rightarrow> thread" where
  "set_exit_pc v1 v2 th =
     (let e = t_entry_type th; f = t_frame th in
      if e = Entry_type_syscall then
        th\<lparr>t_frame := (if v1 + 4 \<noteq> v2 then f[130 := 0, 131 := 0] else f)[131 := v2 - 4]\<rparr>
      else if e = Entry_type_pfault \<or> e = Entry_type_irq \<or> e = Entry_type_exc then th\<lparr>t_frame := f[130 := v1, 131 := v2]\<rparr>
      else th\<lparr>t_frame := f[130 := 0]\<rparr>)"

text \<open>\<open>Thread_t::flags\<close>: taking the FPU away clears \<open>psr.ef\<close>.\<close>

definition set_flags :: "u32 \<Rightarrow> thread \<Rightarrow> thread" where
  "set_flags v th =
     (let th' = (if t_flags th AND 1 \<noteq> 0 \<and> v AND 1 = 0
                 then th\<lparr>t_frame := (t_frame th)[128 := t_frame th ! 128 AND NOT (push_bit 12 1)]\<rparr> else th) in
      th'\<lparr>t_flags := v\<rparr>)"

section \<open>Exchange registers\<close>

definition ctl :: "nat \<Rightarrow> u32 \<Rightarrow> bool" where "ctl n control = (control AND push_bit n 1 \<noteq> 0)"

definition exreg_deliver :: "nat \<Rightarrow> nat \<Rightarrow> sys \<Rightarrow> sys" where
  "exreg_deliver cur dst s =
     (let s1 = frame_set cur 123 (exit_pc (sthr s dst)) s;
          s2 = frame_set cur 117 (exit_pc2 (sthr s1 dst)) s1;
          s3 = frame_set cur 116 (t_flags (sthr s2 dst)) s2 in
      frame_set cur 125 (u_user_defined_handle (t_utcb (sthr s3 dst))) s3)"

definition exreg_set :: "u32 \<Rightarrow> u32 \<Rightarrow> u32 \<Rightarrow> u32 \<Rightarrow> thrid \<Rightarrow> u32 \<Rightarrow> nat \<Rightarrow> nat \<Rightarrow> sys \<Rightarrow> sys" where
  "exreg_set control ip ip2 flags pager uhandle d p s1 =
     (let s2 = (if ctl 7 control then supd d (\<lambda>x. x\<lparr>t_pager_id := pager, t_pager := Some p\<rparr>) s1 else s1);
          s3 = (if ctl 6 control then supd d (utcb_upd (\<lambda>u. u\<lparr>u_user_defined_handle := uhandle\<rparr>)) s2 else s2);
          s4 = (if ctl 5 control then supd d (set_flags flags) s3 else s3) in
      if ctl 4 control then supd d (set_exit_pc ip ip2) s4 else s4)"

definition exreg_do :: "u32 \<Rightarrow> u32 \<Rightarrow> u32 \<Rightarrow> u32 \<Rightarrow> thrid \<Rightarrow> u32 \<Rightarrow> nat \<Rightarrow> thrid \<Rightarrow> nat \<Rightarrow> sys \<Rightarrow> sys res" where
  "exreg_do control ip ip2 flags pager uhandle cur dst d s1 =
     (if ctl 8 control then Inl Panic
      else
        res_bind (if ctl 7 control then find_thr (s_k s1) pager else Inr (Some d)) (\<lambda>g.
        case g of
          None \<Rightarrow> Inr (utcb_error cur 2 s1)
        | Some p \<Rightarrow>
            let s5 = exreg_set control ip ip2 flags pager uhandle d p s1 in
            res_bind (wassert (\<not> ctl 4 control
                \<or> t_entry_type (sthr s5 d) \<in> {Entry_type_syscall, Entry_type_pfault, Entry_type_irq, Entry_type_exc})) (\<lambda>_.
            if ctl 3 control \<or> ctl 2 control \<or> ctl 1 control \<or> ctl 0 control then Inl Panic
            else Inr (frame_set cur 120
              (if thrid_is_local dst then t_glob_id (sthr s5 d) else t_localid (sthr s5 d)) s5))))"

definition syscall_exchange_registers :: "nat \<Rightarrow> sys \<Rightarrow> sys res" where
  "syscall_exchange_registers cur s =
     (let dst = frame_get cur 120 s; control = frame_get cur 121 s; ip = frame_get cur 123 s; ip2 = frame_get cur 117 s;
          pager = frame_get cur 124 s; uhandle = frame_get cur 125 s; flags = frame_get cur 116 s;
          s0 = frame_set cur 120 thrid_Nil s in
      res_bind (find_thr (s_k s0) dst) (\<lambda>f.
      case f of
        None \<Rightarrow> Inr (utcb_error cur 2 s0)
      | Some d \<Rightarrow>
          if t_task (sthr s0 d) \<noteq> t_task (sthr s0 cur) then Inr (utcb_error cur 2 s0)
          else exreg_do control ip ip2 flags pager uhandle cur dst d
                 (if ctl 9 control then exreg_deliver cur d s0 else s0)))"

section \<open>Tasks and threads\<close>

definition Tasks_max :: nat where "Tasks_max = 16"
definition Acc_kw_ur :: u32 where "Acc_kw_ur = Acc_kw OR Acc_ur"

text \<open>\<open>Task_t::Task_t\<close>.\<close>

definition task_new :: "sys \<Rightarrow> task res" where
  "task_new s =
     (let i = s_task_cnt s in
      res_bind (as_map \<lparr>as_root = s_kroot s, as_uspace = [], as_id = i\<rparr> 0xff000000 (s_kupage s i) Page_sz Acc_kw_ur True) (\<lambda>a.
      Inr \<lparr>tk_id = i, tk_aspace = a, tk_kip_area = fpage_Nil, tk_utcb_area = fpage_Nil, tk_utcbs = bitmap_new 64,
           tk_redirector = s_stale s\<rparr>))"

definition tasks_create :: "sys \<Rightarrow> (nat \<times> sys) res" where
  "tasks_create s =
     (case find (\<lambda>n. n \<notin> set (s_tasks s)) [1..<Tasks_max + 1] of
        None \<Rightarrow> Inl Panic
      | Some n \<Rightarrow> res_bind (task_new s) (\<lambda>tk.
          Inr (n, s\<lparr>s_task := (s_task s)(n := tk), s_tasks := s_tasks s @ [n], s_task_cnt := s_task_cnt s + 1\<rparr>)))"

definition tasks_remove :: "nat \<Rightarrow> sys \<Rightarrow> sys res" where
  "tasks_remove n s = (if n \<in> set (s_tasks s) then Inr (s\<lparr>s_tasks := remove1 n (s_tasks s)\<rparr>) else Inl Panic)"

definition set_utcb_location :: "nat \<Rightarrow> nat \<Rightarrow> u32 \<Rightarrow> sys \<Rightarrow> sys res" where
  "set_utcb_location cur t utcb s =
     (if utcb = -1 then Inr s
      else
        res_bind (as_walk (tk_aspace (thr_task s cur)) utcb Page_sz) (\<lambda>pa.
        res_bind (wassert (pa \<noteq> 0)) (\<lambda>_.
        res_bind (wassert (\<not> t_is_active (sthr s t))) (\<lambda>_. Inr (supd t (\<lambda>x. x\<lparr>t_utcb_pa := pa\<rparr>) s)))))"

definition activate :: "nat \<Rightarrow> sys \<Rightarrow> sys res" where
  "activate t s =
     res_bind (wassert (\<not> t_is_active (sthr s t))) (\<lambda>_.
     res_bind (wassert (t_utcb_pa (sthr s t) \<noteq> 0)) (\<lambda>_.
     res_bind (wassert (task_is_configured (thr_task s t))) (\<lambda>_.
     res_bind (alloc_utcb_uspace (thr_task s t)) (\<lambda>(uva, tk).
     res_bind (wassert (uva \<noteq> 0)) (\<lambda>_.
     res_bind (tkop (\<lambda>_. task_map tk uva (t_utcb_pa (sthr s t)) Page_sz Acc_utcb True) t s) (\<lambda>s1.
     kop (set_state t Active) (supd t (\<lambda>x. x\<lparr>t_utcb_uva := uva\<rparr>) s1)))))))"

text \<open>A new thread has a fresh kernel stack (\<open>setup_kstack\<close>): nothing is left to be continued on it.\<close>

definition thctl_create :: "nat \<Rightarrow> thrid \<Rightarrow> thrid \<Rightarrow> thrid \<Rightarrow> thrid \<Rightarrow> u32 \<Rightarrow> sys \<Rightarrow> sys res" where
  "thctl_create cur dst space sched pager utcb s =
     (if thrid_is_nil sched then Inr (utcb_error cur 4 s)
      else if dst = space \<and> \<not> thrid_is_nil pager then Inr (utcb_error cur 3 s)
      else
        let go = (\<lambda>(tsk, s1).
              res_bind (threads_create dst sched pager tsk (t_prio (sthr s1 cur)) (s_k s1)) (\<lambda>(t, k).
              res_bind (set_utcb_location cur t utcb (s1\<lparr>s_k := k, s_cont := (s_cont s1)(t := C_none)\<rparr>)) (\<lambda>s2.
              res_bind (if thrid_is_nil pager then Inr s2 else activate t s2) (\<lambda>s3. Inr (frame_set cur 120 1 s3))))) in
        if dst = space then res_bind (tasks_create s) go
        else
          res_bind (find_thr (s_k s) space) (\<lambda>f.
          let tsk = (case f of None \<Rightarrow> 0 | Some t \<Rightarrow> t_task (sthr s t)) in
          if \<not> thrid_is_nil pager \<and> (tsk = 0 \<or> \<not> task_is_configured (s_task s tsk) \<or> task_is_full (s_task s tsk))
          then Inr (utcb_error cur 3 s)
          else go (tsk, s)))"

definition thctl_modify :: "nat \<Rightarrow> thrid \<Rightarrow> thrid \<Rightarrow> thrid \<Rightarrow> thrid \<Rightarrow> u32 \<Rightarrow> nat \<Rightarrow> sys \<Rightarrow> sys res" where
  "thctl_modify cur dst space sched pager utcb t s =
     res_bind (find_thr (s_k s) space) (\<lambda>f.
     let tsk = (case f of None \<Rightarrow> 0 | Some x \<Rightarrow> t_task (sthr s x)) in
     if \<not> thrid_is_nil pager \<and> \<not> t_is_active (sthr s t) \<and> (tsk = 0 \<or> \<not> task_is_configured (s_task s tsk))
     then Inr (utcb_error cur 3 s)
     else if utcb \<noteq> -1 \<and> t_is_active (sthr s t) then Inr (utcb_error cur 6 s)
     else
       let s1 = supd t (\<lambda>x. x\<lparr>t_glob_id := dst\<rparr>) s;
           s2 = (if thrid_is_nil sched then s1 else supd t (\<lambda>x. x\<lparr>t_sched_id := sched\<rparr>) s1) in
       res_bind (set_utcb_location cur t utcb s2) (\<lambda>s3.
       let s4 = supd t (\<lambda>x. x\<lparr>t_task := tsk\<rparr>) s3 in
       res_bind (if thrid_is_nil pager then Inr s4
                 else let s5 = supd t (\<lambda>x. x\<lparr>t_pager_id := pager\<rparr>) s4 in
                      if t_is_active (sthr s5 t) then Inr s5 else activate t s5) (\<lambda>s6.
       Inr (frame_set cur 120 1 s6))))"

definition thctl_delete :: "nat \<Rightarrow> thrid \<Rightarrow> nat \<Rightarrow> sys \<Rightarrow> sys res" where
  "thctl_delete cur dst t s =
     (let s1 = supd t (\<lambda>x. x\<lparr>t_utcb_pa := -1\<rparr>) s; tsk = t_task (sthr s1 t) in
      res_bind (tkop (free_utcb_uspace (t_utcb_uva (sthr s1 t))) t s1) (\<lambda>s2.
      res_bind (kop (threads_remove dst) s2) (\<lambda>s3.
      res_bind (if task_is_empty (s_task s3 tsk) then tasks_remove tsk s3 else Inr s3) (\<lambda>s4.
      Inr (frame_set cur 120 1 s4)))))"

text \<open>The interrupt handler of \<open>Int_thread_t::handler\<close>.\<close>

definition set_int_handler :: "nat \<Rightarrow> thrid \<Rightarrow> sys \<Rightarrow> sys res" where
  "set_int_handler irq h s =
     res_bind (wassert (thrid_is_nil h \<or> thrid_is_global_user h)) (\<lambda>_.
     let s1 = int_upd irq (\<lambda>x. x\<lparr>i_handler := h, i_pending := False\<rparr>) s in
     if thrid_is_nil h then icop (intc_mask irq) s1 else Inr s1)"

definition privileged :: "nat \<Rightarrow> sys \<Rightarrow> bool" where
  "privileged cur s = (t_glob_id (sthr s cur) = thrid_sigma0 \<or> t_glob_id (sthr s cur) = thrid_roottask)"

definition syscall_thread_control :: "nat \<Rightarrow> nat \<Rightarrow> sys \<Rightarrow> sys res" where
  "syscall_thread_control timer_irq cur s =
     (let dst = frame_get cur 120 s; space = frame_get cur 121 s; sched = frame_get cur 122 s; pager = frame_get cur 123 s;
          utcb = frame_get cur 124 s; s0 = frame_set cur 120 0 s in
      if \<not> privileged cur s0 then Inr (utcb_error cur 1 s0)
      else if thrid_is_int dst \<and> unat (thrid_number dst) \<noteq> timer_irq then
        res_bind (set_int_handler (unat (thrid_number dst)) pager s0) (\<lambda>s1. Inr (frame_set cur 120 1 s1))
      else if \<not> thrid_is_global_user dst then Inr (utcb_error cur 2 s0)
      else
        case (thrid_is_nil space, find_num (s_k s0) (unat (thrid_number dst))) of
          (False, None) \<Rightarrow> thctl_create cur dst space sched pager utcb s0
        | (False, Some t) \<Rightarrow> thctl_modify cur dst space sched pager utcb t s0
        | (True, Some t) \<Rightarrow> thctl_delete cur dst t s0
        | (True, None) \<Rightarrow> Inr (utcb_error cur 2 s0))"

section \<open>Scheduling\<close>

definition syscall_thread_switch :: "nat \<Rightarrow> sys \<Rightarrow> sys res" where
  "syscall_thread_switch cur s =
     (let dst = frame_get cur 120 s in
      if thrid_is_nil dst then kop switch_to_next s
      else res_bind (find_thr (s_k s) dst) (\<lambda>f. case f of None \<Rightarrow> kop switch_to_next s | Some _ \<Rightarrow> Inl Panic))"

definition sched_state :: "tstate \<Rightarrow> u32 res" where
  "sched_state st =
     (if st = Idle then Inl Panic
      else if st = Inactive then Inr 2
      else if st = Active \<or> st = Ready then Inr 3
      else if is_snd_state st then Inr 4 else Inr 6)"

definition syscall_schedule :: "nat \<Rightarrow> sys \<Rightarrow> sys res" where
  "syscall_schedule cur s =
     (let dst = frame_get cur 120 s; time_ctl = frame_get cur 121 s; proc_ctl = frame_get cur 122 s;
          prio = frame_get cur 123 s; preempt_ctl = frame_get cur 124 s; s0 = frame_set cur 120 0 s in
      res_bind (find_thr (s_k s0) dst) (\<lambda>f.
      case f of
        None \<Rightarrow> Inr (utcb_error cur 2 s0)
      | Some d \<Rightarrow>
          if t_sched_id (sthr s0 d) \<noteq> t_glob_id (sthr s0 cur) then Inr (utcb_error cur 1 s0)
          else if unat prio > unat (t_prio (sthr s0 cur)) then Inr (utcb_error cur 5 s0)
          else if time_ctl \<noteq> -1 then Inl Panic
          else if proc_ctl \<noteq> -1 then Inl Panic
          else
            res_bind (if prio \<noteq> -1 then kop (set_prio d (ucast prio)) s0 else Inr s0) (\<lambda>s1.
            if preempt_ctl \<noteq> -1 then Inl Panic
            else res_bind (sched_state (t_state (sthr s1 d))) (\<lambda>r. Inr (frame_set cur 121 (-1) (frame_set cur 120 r s1))))))"

section \<open>Address spaces\<close>

text \<open>
  \<open>remap_user_utcb\<close>. The code walks the page table from the kernel's address of the UTCB to its page. Kernel addresses of UTCBs are not
  part of the model; \<open>utcb_location\<close> maps them to the page it notes in \<open>t_utcb_pa\<close>, so the walk gives this
  page. A thread without a UTCB has no such address, and the walk stops.
\<close>

fun remap_user_utcb :: "nat \<Rightarrow> nat \<Rightarrow> nat list \<Rightarrow> sys \<Rightarrow> sys res" where
  "remap_user_utcb cur tsk [] s = Inr s"
| "remap_user_utcb cur tsk (t # ts) s =
     res_bind (if t_task (sthr s t) = tsk then
                 res_bind (wassert (t_utcb_pa (sthr s t) \<noteq> -1)) (\<lambda>_.
                 tkop (\<lambda>tk. task_map tk (t_utcb_uva (sthr s t)) (t_utcb_pa (sthr s t)) Page_sz Acc_utcb True) t s)
               else Inr s) (remap_user_utcb cur tsk ts)"

fun unmap_fpages :: "nat \<Rightarrow> u32 list \<Rightarrow> sys \<Rightarrow> sys res" where
  "unmap_fpages cur [] s = Inr s"
| "unmap_fpages cur (fp # fps) s =
     res_bind
       (if fpage_is_io fp then Inl Panic
        else if fpage_is_complete fp then
          res_bind (tkop (\<lambda>tk. task_unmap tk 0 0xf0000000) cur s) (remap_user_utcb cur (t_task (sthr s cur)) [0..<Threads_max])
        else if \<not> fpage_is_nil fp then tkop (\<lambda>tk. task_unmap tk (fpage_addr fp) (fpage_size fp)) cur s
        else Inr s) (unmap_fpages cur fps)"

definition syscall_unmap :: "nat \<Rightarrow> sys \<Rightarrow> sys res" where
  "syscall_unmap cur s =
     (let fpages = unat (frame_get cur 120 s AND 0xff) + 1 in
      unmap_fpages cur (take fpages (u_mr (t_utcb (sthr s cur)))) s)"

definition Acc_rx :: u32 where "Acc_rx = Acc_r OR Acc_x"

definition areas_error :: "fpage \<Rightarrow> fpage \<Rightarrow> u32 option" where
  "areas_error kip_area utcb_area =
     (if \<not> page_aligned (fpage_addr utcb_area) \<or> \<not> page_aligned (fpage_size utcb_area) \<or> fpage_access utcb_area AND Acc_rw \<noteq> Acc_rw
      then Some 6
      else if \<not> page_aligned (fpage_addr kip_area) \<or> fpage_size kip_area \<noteq> Page_sz \<or> fpage_access kip_area \<noteq> Acc_rx
              \<or> fpage_is_cross kip_area utcb_area then Some 7
      else None)"

definition syscall_space_control :: "nat \<Rightarrow> sys \<Rightarrow> sys res" where
  "syscall_space_control cur s =
     (let space = frame_get cur 120 s; kip_area = frame_get cur 122 s; utcb_area = frame_get cur 123 s;
          redirector = frame_get cur 124 s; s0 = frame_set cur 120 0 s in
      if \<not> privileged cur s0 then Inr (utcb_error cur 1 s0)
      else
        res_bind (if thrid_is_global_user space then find_thr (s_k s0) space
                  else if thrid_is_local space then Inr (Some cur) else Inr None) (\<lambda>f.
        case f of
          None \<Rightarrow> Inr (utcb_error cur 3 s0)
        | Some t \<Rightarrow>
            if t_task (sthr s0 t) = 0 then Inr (utcb_error cur 3 s0)
            else
              let active = task_active_threads (thr_task s0 t) in
              case (if active then None else areas_error kip_area utcb_area) of
                Some e \<Rightarrow> Inr (utcb_error cur e s0)
              | None \<Rightarrow>
                  res_bind (if active then Inr s0
                            else res_bind (tkop (task_set_kip_area kip_area) t s0) (\<lambda>s1.
                                 tkop (task_set_utcb_area (s_kip_pa s1) utcb_area) t s1)) (\<lambda>s2.
                  res_bind (if thrid_is_nil redirector then Inr s2
                            else tkop (\<lambda>tk. Inr (tk\<lparr>tk_redirector := redirector\<rparr>)) t s2) (\<lambda>s3.
                  Inr (frame_set cur 120 1 s3)))))"

text \<open>\<open>num\<close> keeps the bits above the low six of \<open>control\<close> instead of those six.\<close>

fun set_attribs :: "nat \<Rightarrow> u32 list \<Rightarrow> u32 list \<Rightarrow> sys \<Rightarrow> sys res" where
  "set_attribs cur attr [] s = Inr (frame_set cur 120 1 s)"
| "set_attribs cur attr (fp # fps) s =
     (let cached = (attr ! unat (fp AND 3) \<noteq> 1) in
      res_bind (wassert (\<not> fpage_is_io fp)) (\<lambda>_.
      if fpage_is_complete fp \<or> fpage_is_nil fp then Inl Panic
      else if as_attributes (tk_aspace (thr_task s cur)) fp < 0 then Inr (utcb_error cur 5 s)
      else
        res_bind (tkop (\<lambda>tk. task_map tk (fpage_addr fp) (ucast (fpage_addr fp)) (fpage_size fp) (uacc2acc 0) cached) cur s)
          (set_attribs cur attr fps)))"

definition syscall_memory_control :: "nat \<Rightarrow> sys \<Rightarrow> sys res" where
  "syscall_memory_control cur s =
     (let control = frame_get cur 120 s; attr = map (\<lambda>i. frame_get cur (121 + i) s) [0..<4]; s0 = frame_set cur 120 0 s in
      if \<not> privileged cur s0 then Inr (utcb_error cur 1 s0)
      else
        let num = (control AND NOT 0x3f) + 1 in
        if num > 64 \<or> (\<exists>a \<in> set attr. a > 1) then Inr (utcb_error cur 5 s0)
        else set_attribs cur attr (take (unat num) (u_mr (t_utcb (sthr s0 cur)))) s0)"

section \<open>Dispatch\<close>

text \<open>
  The debugger call. Printing and the console only read and print. \<open>L4_kdb_threads\<close> with room for at least one record of 40 bytes
  has \<open>kdb_threads_entry\<close> store the records of the threads through the pointer of the caller, in kernel mode and without any check of
  the pointer, so that they may fall anywhere, also into the kernel itself: the model has no result for this call.
\<close>

definition kdb_writes :: "nat \<Rightarrow> sys \<Rightarrow> bool" where
  "kdb_writes cur s \<longleftrightarrow> frame_get cur 120 s = 3 \<and> unat (frame_get cur 123 s) div 40 \<noteq> 0"

definition syscall_kdb :: "nat \<Rightarrow> sys \<Rightarrow> sys res" where
  "syscall_kdb cur s =
     (if kdb_writes cur s then Inl Bad_access
      else Inr (frame_set cur 120 (if frame_get cur 120 s \<in> {1, 2, 3} then 0 else -1) s))"

definition ret :: "sys res \<Rightarrow> (kcont \<times> sys) res" where
  "ret m = res_bind m (\<lambda>s. Inr (C_exit, s))"

definition unknown_syscall :: "nat \<Rightarrow> sys \<Rightarrow> sys res" where
  "unknown_syscall cur s =
     (if \<not> thrid_is_nil (u_exc_handler (t_utcb (sthr s cur))) then kop (process_exception cur tag_System_exception 0) s
      else Inl Panic)"

definition kentry_syscall :: "nat \<Rightarrow> u64 \<Rightarrow> sys \<Rightarrow> (kcont \<times> sys) res" where
  "kentry_syscall timer_irq clk s0 =
     (let cur = k_current (s_k s0); s = supd cur (\<lambda>x. x\<lparr>t_entry_type := Entry_type_syscall\<rparr>) s0; n = frame_get cur 113 s in
      if n = 1 then ret (Inr (frame_set cur 120 (fpage_addr (tk_kip_area (thr_task s cur))) s))
      else if n = 2 then ret (syscall_exchange_registers cur s)
      else if n = 3 then ret (syscall_thread_control timer_irq cur s)
      else if n = 4 then ret (Inr (frame_set cur 121 (ucast (drop_bit 32 clk)) (frame_set cur 120 (ucast clk) s)))
      else if n = 5 then ret (syscall_thread_switch cur s)
      else if n = 6 then ret (syscall_schedule cur s)
      else if n = 7 then do_ipc cur s
      else if n = 8 then Inl Panic
      else if n = 9 then ret (syscall_unmap cur s)
      else if n = 10 then ret (syscall_space_control cur s)
      else if n = 11 then Inl Panic
      else if n = 12 then ret (syscall_memory_control cur s)
      else if n = 13 then ret (syscall_kdb cur (supd cur (timeslice_update clk) s))
      else ret (unknown_syscall cur s))"

section \<open>The calls keep the invariant\<close>

lemma sok_fields:
  assumes "\<And>x. t_state (f x) = t_state x" "\<And>x. t_prio (f x) = t_prio x" "\<And>x. t_timeout (f x) = t_timeout x"
    and "\<And>x. t_pager (f x) = t_pager x"
  shows "sok s (supd t f s)"
  by (rule sokI) (auto simp: supd_def assms intro!: kok_fields)

lemma frame_set_sok: "sok s (frame_set t i v s)"
  unfolding frame_set_def by (rule sok_fields) simp_all

lemma utcb_error_sok: "sok s (utcb_error t e s)"
  unfolding utcb_error_def by (rule sok_utcb)

lemma exreg_deliver_sok: "sok s (exreg_deliver cur d s)"
  unfolding exreg_deliver_def Let_def by (intro sok_trans [OF _ frame_set_sok] sok_refl)

lemma set_pager_sok: "p < Threads_max \<Longrightarrow> sok s (supd d (\<lambda>x. x\<lparr>t_pager_id := i, t_pager := Some p\<rparr>) s)"
proof -
  assume p: "p < Threads_max"
  let ?k = "thr_upd d (\<lambda>x. x\<lparr>t_pager_id := i, t_pager := Some p\<rparr>) (s_k s)"
  have "run_inv (s_k s) \<Longrightarrow> run_inv ?k" by (rule run_inv_same) (simp_all add: sched_same_def)
  then have "kok (s_k s) ?k" using p by (auto simp: kok_def kinv_def pagers_ok_def waits_def)
  then show ?thesis by (intro sokI) (simp_all add: supd_def)
qed

lemma set_exit_pc_same:
  "t_state (set_exit_pc a b x) = t_state x" "t_prio (set_exit_pc a b x) = t_prio x"
  "t_timeout (set_exit_pc a b x) = t_timeout x" "t_pager (set_exit_pc a b x) = t_pager x"
  by (simp_all add: set_exit_pc_def Let_def)

lemma set_flags_same:
  "t_state (set_flags v x) = t_state x" "t_prio (set_flags v x) = t_prio x"
  "t_timeout (set_flags v x) = t_timeout x" "t_pager (set_flags v x) = t_pager x"
  by (simp_all add: set_flags_def Let_def)

lemma sok_if: "sok s s1 \<Longrightarrow> sok s1 s2 \<Longrightarrow> sok s (if b then s2 else s1)"
  using sok_trans by auto

lemma exreg_set_sok: "p < Threads_max \<Longrightarrow> sok s (exreg_set control ip ip2 flags pager uhandle d p s)"
  unfolding exreg_set_def Let_def
  by (intro sok_if set_pager_sok sok_utcb sok_fields sok_refl) (simp_all add: set_flags_same set_exit_pc_same)

lemma exreg_do_sok:
  "d < Threads_max \<Longrightarrow> post (sok s) (exreg_do control ip ip2 flags pager uhandle cur dst d s)"
  unfolding exreg_do_def Let_def
  by (auto intro!: wp utcb_error_sok split: option.split intro: sok_trans [OF exreg_set_sok frame_set_sok])

lemma wp_exreg_do [wp]:
  "d < Threads_max \<Longrightarrow> (\<And>s'. sok s s' \<Longrightarrow> P s') \<Longrightarrow> post P (exreg_do control ip ip2 flags pager uhandle cur dst d s)"
  using exreg_do_sok by (rule post_mono)

lemma exchange_registers_sok: "post (sok s) (syscall_exchange_registers cur s)"
proof -
  define s0 where "s0 = frame_set cur 120 thrid_Nil s"
  have s0: "sok s s0" unfolding s0_def by (rule frame_set_sok)
  show ?thesis unfolding syscall_exchange_registers_def Let_def s0_def [symmetric]
    by (auto intro!: wp split: option.split intro: sok_trans [OF s0] utcb_error_sok
        sok_trans [OF s0 sok_trans [OF exreg_deliver_sok]])
qed

text \<open>Threads that are created and deleted.\<close>

lemma set_prio_kok: "set_prio t v k = Inr k' \<Longrightarrow> t < Threads_max \<Longrightarrow> kok k k'"
  using set_prio_ok [of k t v] by (auto simp: kok_def kinv_def run_inv_def pagers_ok_def waits_def same_rest_def)

lemma threads_create_kok:
  assumes "threads_create g s p tsk pr k = Inr (t, k')"
  shows "kok k k'" "t < Threads_max" "\<not> waits k' t"
proof -
  let ?k1 = "thr_upd t (\<lambda>x. x\<lparr>t_task := tsk, t_glob_id := g, t_sched_id := s, t_pager_id := p\<rparr>) k"
  obtain k2 where k: "thr_index g = Inr t" "set_prio t pr ?k1 = Inr k2" "set_state t Inactive k2 = Inr k'"
    using assms by (auto simp: threads_create_def Let_def)
  show t: "t < Threads_max" by (rule thr_index_less [OF k(1)])
  have "kok k ?k1" by (rule kok_fields) simp_all
  then show "kok k k'" using set_prio_kok [OF k(2) t] set_state_kok [OF k(3) t] kok_trans by blast
  show "\<not> waits k' t" using set_state_fields(2) [OF k(3), of t] by (simp add: waits_def)
qed

lemma wp_create:
  assumes "sok s s1" "\<And>t s'. t < Threads_max \<Longrightarrow> sok s s' \<Longrightarrow> post P (f (t, s'))"
  shows "post P (res_bind (threads_create g sc p tsk pr (s_k s1)) (\<lambda>(t, k). f (t, s1\<lparr>s_k := k, s_cont := (s_cont s1)(t := C_none)\<rparr>)))"
proof (unfold post_simps, rule postI, clarify)
  fix t k assume c: "threads_create g sc p tsk pr (s_k s1) = Inr (t, k)"
  note k = threads_create_kok [OF c]
  have "sok s1 (s1\<lparr>s_k := k, s_cont := (s_cont s1)(t := C_none)\<rparr>)" using k(1,3) by (auto simp: sok_def kok_def)
  then show "post P (f (t, s1\<lparr>s_k := k, s_cont := (s_cont s1)(t := C_none)\<rparr>))"
    using assms k(2) sok_trans by blast
qed


lemma threads_remove_kok: "threads_remove g k = Inr k' \<Longrightarrow> kok k k'"
  by (auto simp: threads_remove_def dest: thr_index_less set_state_kok)

lemma wp_syscalls [wp]:
  "t < Threads_max \<Longrightarrow> (\<And>s'. sok s s' \<Longrightarrow> P s') \<Longrightarrow> post P (kop (set_prio t v) s)"
  "(\<And>s'. sok s s' \<Longrightarrow> P s') \<Longrightarrow> post P (kop (threads_remove g) s)"
  by (rule wp_kop; blast intro: set_prio_kok threads_remove_kok)+

lemma wp_any [wp]:
  "(\<And>x. P x) \<Longrightarrow> post P (alloc_utcb_uspace tk)" "(\<And>x. Q x) \<Longrightarrow> post Q (task_new s)"
  "(\<And>x. R x) \<Longrightarrow> post R (sched_state st)"
  by (simp_all add: post_any)

lemma set_utcb_location_sok: "post (sok s) (set_utcb_location cur t utcb s)"
  unfolding set_utcb_location_def by (auto intro!: wp sok_fields)

lemma sok_uva: "sok s (supd t (\<lambda>x. x\<lparr>t_utcb_uva := v\<rparr>) s)"
  by (rule sok_fields) simp_all

lemma activate_sok: "t < Threads_max \<Longrightarrow> post (sok s) (activate t s)"
  unfolding activate_def
  by (auto intro!: wp split: prod.split elim!: sok_trans intro: sok_trans [OF sok_uva])

lemma tasks_create_sok: "post (\<lambda>(n, s'). sok s s') (tasks_create s)"
  unfolding tasks_create_def by (auto intro!: wp sokI split: option.split)

lemma tasks_remove_sok: "post (sok s) (tasks_remove n s)"
  unfolding tasks_remove_def by (auto intro!: sokI)

lemma wp_tasks [wp]:
  "(\<And>s'. sok s s' \<Longrightarrow> P s') \<Longrightarrow> post P (set_utcb_location cur t utcb s)"
  "t < Threads_max \<Longrightarrow> (\<And>s'. sok s s' \<Longrightarrow> P s') \<Longrightarrow> post P (activate t s)"
  "(\<And>n s'. sok s s' \<Longrightarrow> Q (n, s')) \<Longrightarrow> post Q (tasks_create s)"
  "(\<And>s'. sok s s' \<Longrightarrow> P s') \<Longrightarrow> post P (tasks_remove n s)"
  by (erule post_mono [OF set_utcb_location_sok], erule post_mono [OF activate_sok], simp,
      rule post_mono [OF tasks_create_sok], auto intro: post_mono [OF tasks_remove_sok])

lemma thctl_create_sok: "post (sok s) (thctl_create cur dst space sched pager utcb s)"
proof -
  let ?act = "\<lambda>t s2. res_bind (if thrid_is_nil pager then Inr s2 else activate t s2) (\<lambda>s3. Inr (frame_set cur 120 1 s3))"
  have a: "post (sok s) (?act t s2)" if "t < Threads_max" "sok s s2" for t s2
    using that by (auto intro!: wp elim!: sok_trans intro: frame_set_sok sok_trans [OF _ frame_set_sok])
  have go: "post (sok s) (res_bind (threads_create dst sched pager tsk pr (s_k s1)) (\<lambda>(t, k).
        res_bind (set_utcb_location cur t utcb (s1\<lparr>s_k := k, s_cont := (s_cont s1)(t := C_none)\<rparr>)) (?act t)))"
    if "sok s s1" for tsk pr s1
  proof -
    have "post (sok s) (res_bind (set_utcb_location cur t utcb s') (?act t))" if "t < Threads_max" "sok s s'" for t s'
      unfolding post_simps(3) [of _ "set_utcb_location _ _ _ _"]
      by (rule wp) (rule a [OF that(1) sok_trans [OF that(2)]])
    then show ?thesis using wp_create [OF that, where f = "\<lambda>(t, s'). res_bind (set_utcb_location cur t utcb s') (?act t)"] by simp
  qed
  have "post (sok s) (res_bind (tasks_create s) (\<lambda>(tsk, s1).
        res_bind (threads_create dst sched pager tsk (t_prio (sthr s1 cur)) (s_k s1)) (\<lambda>(t, k).
        res_bind (set_utcb_location cur t utcb (s1\<lparr>s_k := k, s_cont := (s_cont s1)(t := C_none)\<rparr>)) (?act t))))"
    unfolding post_simps(3) [of _ "tasks_create _"] by (rule wp) (use go in simp)
  then show ?thesis using go [OF sok_refl] utcb_error_sok unfolding thctl_create_def Let_def
    by (cases "thrid_is_nil pager"; cases "dst = space")
      (simp_all add: post_simps(3) [of _ "find_thr _ _"] post_any del: post_simps(3))
qed

lemma sok_bind: "post (sok s) m \<Longrightarrow> (\<And>s1. post (sok s1) (f s1)) \<Longrightarrow> post (sok s) (res_bind m f)"
  by (auto simp: post_def intro: sok_trans)

lemma sok_step: "sok s s1 \<Longrightarrow> post (sok s1) m \<Longrightarrow> post (sok s) m"
  by (auto simp: post_def intro: sok_trans)

lemma post_bind_any: "(\<And>x. post P (f x)) \<Longrightarrow> post P (res_bind m f)"
  by (simp add: post_any)

lemma post_if: "(b \<Longrightarrow> post P x) \<Longrightarrow> (\<not> b \<Longrightarrow> post P y) \<Longrightarrow> post P (if b then x else y)"
  by simp

lemma post_option:
  "(x = None \<Longrightarrow> post P a) \<Longrightarrow> (\<And>y. x = Some y \<Longrightarrow> post P (f y)) \<Longrightarrow> post P (case x of None \<Rightarrow> a | Some y \<Rightarrow> f y)"
  by (cases x) simp_all

lemma sok_done: "post (sok s) (Inr (frame_set cur i v s))"
  by (simp add: frame_set_sok)

lemma thctl_modify_sok:
  assumes "t < Threads_max"
  shows "post (sok s) (thctl_modify cur dst space sched pager utcb t s)"
proof -
  have 1: "sok s (supd t (\<lambda>x. x\<lparr>t_glob_id := a\<rparr>) s)" "sok s (supd t (\<lambda>x. x\<lparr>t_sched_id := a\<rparr>) s)"
    "sok s (supd t (\<lambda>x. x\<lparr>t_task := n\<rparr>) s)" "sok s (supd t (\<lambda>x. x\<lparr>t_pager_id := a\<rparr>) s)" for a n s
    by (rule sok_fields; simp)+
  have u: "post (sok s) (res_bind (set_utcb_location cur t utcb s) (\<lambda>s3.
       let s4 = supd t (\<lambda>x. x\<lparr>t_task := tsk\<rparr>) s3 in
       res_bind (if thrid_is_nil pager then Inr s4
                 else let s5 = supd t (\<lambda>x. x\<lparr>t_pager_id := pager\<rparr>) s4 in
                      if t_is_active (sthr s5 t) then Inr s5 else activate t s5) (\<lambda>s6.
       Inr (frame_set cur 120 1 s6))))" for s tsk
    unfolding Let_def
    by (rule sok_bind [OF set_utcb_location_sok], rule sok_step [OF 1(3)], rule sok_bind [OF _ sok_done])
      (auto intro: 1(4) sok_step [OF 1(4) activate_sok [OF assms]] simp del: post_simps(3))
  have m: "post (sok s) (let s1 = supd t (\<lambda>x. x\<lparr>t_glob_id := dst\<rparr>) s;
           s2 = (if thrid_is_nil sched then s1 else supd t (\<lambda>x. x\<lparr>t_sched_id := sched\<rparr>) s1) in
       res_bind (set_utcb_location cur t utcb s2) (\<lambda>s3.
       let s4 = supd t (\<lambda>x. x\<lparr>t_task := tsk\<rparr>) s3 in
       res_bind (if thrid_is_nil pager then Inr s4
                 else let s5 = supd t (\<lambda>x. x\<lparr>t_pager_id := pager\<rparr>) s4 in
                      if t_is_active (sthr s5 t) then Inr s5 else activate t s5) (\<lambda>s6.
       Inr (frame_set cur 120 1 s6))))" for tsk
    unfolding Let_def [of "supd t (\<lambda>x. x\<lparr>t_glob_id := dst\<rparr>) s"] Let_def [of "if _ then _ else _"]
    by (rule sok_step [OF _ u]) (auto intro: sok_trans 1)
  show ?thesis unfolding thctl_modify_def
    by (rule post_bind_any, subst Let_def, intro post_if m) (simp_all add: utcb_error_sok)
qed

lemma thctl_delete_sok: "post (sok s) (thctl_delete cur dst t s)"
proof -
  have 1: "sok s (supd t (\<lambda>x. x\<lparr>t_utcb_pa := a\<rparr>) s)" for a s by (rule sok_fields; simp)
  have d: "post (sok s) (if b then tasks_remove tsk s else Inr s)" for b tsk s by (simp add: tasks_remove_sok)
  have k: "post (sok s) (kop (threads_remove dst) s)" "post (sok s) (tkop f t s)" for s f by (auto intro!: wp)
  show ?thesis unfolding thctl_delete_def Let_def
    by (rule sok_step [OF 1], rule sok_bind [OF k(2)], rule sok_bind [OF k(1)], rule sok_bind [OF d sok_done])
qed

lemma set_int_handler_sok: "post (sok s) (set_int_handler irq h s)"
  unfolding set_int_handler_def Let_def by (auto intro!: wp int_upd_sok intro: sok_trans [OF int_upd_sok])

lemma thread_control_sok: "post (sok s) (syscall_thread_control timer_irq cur s)"
proof -
  define s0 where "s0 = frame_set cur 120 0 s"
  have s0: "sok s s0" unfolding s0_def by (rule frame_set_sok)
  have *: "post (sok s0) m \<Longrightarrow> post (sok s) m" for m :: "sys res" by (rule sok_step [OF s0])
  have "post (sok s0) (res_bind (set_int_handler irq h s0) (\<lambda>s1. Inr (frame_set cur 120 1 s1)))" for irq h
    unfolding post_simps by (rule post_mono [OF set_int_handler_sok]) (rule sok_trans [OF _ frame_set_sok])
  then show ?thesis unfolding syscall_thread_control_def Let_def s0_def [symmetric]
    using * thctl_create_sok thctl_modify_sok thctl_delete_sok find_num_less utcb_error_sok s0
    by (auto split: bool.split option.split simp del: post_simps(3) intro: sok_trans [OF s0])
qed

lemma thread_switch_sok: "post (sok s) (syscall_thread_switch cur s)"
  unfolding syscall_thread_switch_def Let_def by (auto intro!: wp split: option.split)

lemma schedule_sok: "post (sok s) (syscall_schedule cur s)"
proof -
  define s0 where "s0 = frame_set cur 120 0 s"
  have s0: "sok s s0" unfolding s0_def by (rule frame_set_sok)
  have r: "post (sok s1) (if b then Inl Panic else res_bind (sched_state st) (\<lambda>r. Inr (frame_set cur 121 (-1) (frame_set cur 120 r s1))))"
    for s1 st b by (auto intro!: wp intro: sok_trans [OF frame_set_sok frame_set_sok])
  show ?thesis unfolding syscall_schedule_def Let_def s0_def [symmetric]
    apply (rule sok_step [OF s0], rule post_simps(3) [THEN iffD2], rule wp_find_thr)
    apply (intro post_option post_if sok_bind [OF _ r])
    apply (auto intro!: utcb_error_sok wp)
    done
qed

lemma remap_user_utcb_sok: "post (sok s) (remap_user_utcb cur tsk ts s)"
proof (induction ts arbitrary: s)
  case (Cons t ts)
  show ?case unfolding remap_user_utcb.simps by (rule sok_bind [OF _ Cons]) (auto intro!: wp)
qed simp

lemma unmap_fpages_sok: "post (sok s) (unmap_fpages cur fps s)"
proof (induction fps arbitrary: s)
  case (Cons fp fps)
  have t: "post (sok s) (tkop f cur s)" for f s by (auto intro!: wp)
  show ?case unfolding unmap_fpages.simps
    by (rule sok_bind [OF _ Cons], intro post_if) (simp_all add: t sok_bind [OF t remap_user_utcb_sok] del: post_simps(3))
qed simp

lemma set_attribs_sok: "post (sok s) (set_attribs cur attr fps s)"
proof (induction fps arbitrary: s)
  case (Cons fp fps)
  have t: "post (sok s) (tkop f cur s)" for f s by (auto intro!: wp)
  show ?case unfolding set_attribs.simps Let_def
    by (rule post_bind_any, intro post_if) (simp_all add: utcb_error_sok sok_bind [OF t Cons] del: post_simps(3))
qed (simp add: frame_set_sok)

lemma space_control_sok: "post (sok s) (syscall_space_control cur s)"
proof -
  define s0 where "s0 = frame_set cur 120 0 s"
  have s0: "sok s s0" unfolding s0_def by (rule frame_set_sok)
  have t: "post (sok s) (tkop f t s)" for f t s by (auto intro!: wp)
  have a: "post (sok s) (if b then Inr s else res_bind (tkop f t s) (\<lambda>s1. tkop (g s1) t s1))" for b f t g s
    by (intro post_if) (simp_all add: sok_bind [OF t t] del: post_simps(3))
  have r: "post (sok s) (if b then Inr s else tkop f t s)" for b f t s by (simp add: t)
  note c = sok_bind [OF a sok_bind [OF r sok_done]]
  show ?thesis unfolding syscall_space_control_def Let_def s0_def [symmetric]
    apply (rule sok_step [OF s0], rule post_if, simp add: utcb_error_sok)
    apply (rule post_bind_any, intro post_option post_if c)
    apply (simp_all add: utcb_error_sok)
    done
qed

lemma memory_control_sok: "post (sok s) (syscall_memory_control cur s)"
  unfolding syscall_memory_control_def Let_def
  by (rule sok_step [OF frame_set_sok [of _ cur 120 0]]) (simp add: utcb_error_sok set_attribs_sok)

lemma unknown_syscall_sok: "cur < Threads_max \<Longrightarrow> post (sok s) (unknown_syscall cur s)"
  unfolding unknown_syscall_def by (auto intro!: wp)

lemma ret_left: "post (sok s) m \<Longrightarrow> post (left_ok cur s) (ret m)"
  by (auto simp: ret_def post_def intro: left_ok_sok)

lemmas syscall_sok = exchange_registers_sok thread_control_sok thread_switch_sok schedule_sok unmap_fpages_sok
  space_control_sok memory_control_sok unknown_syscall_sok

lemma kentry_syscall_left:
  assumes "k_current (s_k s) < Threads_max" "\<not> waits (s_k s) (k_current (s_k s))" "kinv (s_k s)"
  shows "post (left_ok (k_current (s_k s)) s) (kentry_syscall timer_irq clk s)"
proof -
  let ?cur = "k_current (s_k s)"
  define s1 where "s1 = supd ?cur (\<lambda>x. x\<lparr>t_entry_type := Entry_type_syscall\<rparr>) s"
  have s1: "sok s s1" unfolding s1_def by (rule sok_entry)
  have k: "kinv (s_k s1)" "\<not> waits (s_k s1) ?cur" using s1 assms(2,3) by (auto simp: sok_def)
  have "sok s1 (frame_set ?cur i v (supd ?cur (timeslice_update clk) s1))" for i v
    by (rule sok_trans [OF sok_fields frame_set_sok]) (simp_all add: timeslice_update_def timeslice_spend_def)
  then have kdb: "post (sok s1) (syscall_kdb ?cur (supd ?cur (timeslice_update clk) s1))" by (simp add: syscall_kdb_def)
  have fr: "sok s1 (frame_set t i v (frame_set t j w s1))" for t i v j w
    by (rule sok_trans [OF frame_set_sok frame_set_sok])
  have "post (left_ok ?cur s1) (kentry_syscall timer_irq clk s)"
    unfolding kentry_syscall_def Let_def s1_def [symmetric]
    by (intro post_if ret_left)
      (simp_all add: syscall_sok assms(1) kdb fr frame_set_sok syscall_unmap_def do_ipc_left [OF assms(1) k(2,1)]
        unknown_syscall_sok [OF assms(1)])
  then show ?thesis by (rule post_mono) (rule left_ok_after [OF s1])
qed
end
