(* ===== verification/Boot.thy ===== *)
theory Boot
  imports Syscalls
begin

text \<open>
  From the end of \<open>krn/startup.cpp\<close> to any later moment: the kernel thread creates sigma0 with all the
  memory that is not the kernel's and goes to it; afterwards user code, devices, traps and resumed
  kernel stacks take turns. What the boot loader, the configuration and the kernel memory provide are
  fields of \<open>boot_cfg\<close>. Output, timer and the kernel's own mappings are left out.
\<close>

section \<open>Start\<close>

record mem_desc =
  md_low :: u32
  md_high :: u32
  md_type :: nat
  md_exact :: nat

record boot_cfg =
  bc_mdesc :: "mem_desc list"
  bc_ram_start :: u32
  bc_ram_sz :: u32
  bc_krn_vaddr :: u32
  bc_sigma0_ip :: u32
  bc_sigma0_sp :: u32
  bc_utcb_pa :: u64
  bc_timer_irq :: nat

definition Md_conventional :: nat where "Md_conventional = 1"
definition Md_bootloader :: nat where "Md_bootloader = 14"
definition Acc_urx :: u32 where "Acc_urx = Acc_ur OR Acc_ux"

definition bldr_acc :: "nat \<Rightarrow> u32 res" where
  "bldr_acc type_exact =
     (if type_exact = 1 \<or> type_exact = 4 \<or> type_exact = 7 then Inr Acc_urx
      else if type_exact = 2 \<or> type_exact = 5 then Inr Acc_ur
      else if type_exact = 3 \<or> type_exact = 6 then Inr Acc_urw
      else Inl Panic)"

fun map_mdesc :: "mem_desc list \<Rightarrow> task \<Rightarrow> task res" where
  "map_mdesc [] tk = Inr tk"
| "map_mdesc (d # ds) tk =
     (let addr = push_bit 10 (md_low d); sz = push_bit 10 (md_high d + 1) - addr in
      res_bind
        (if md_type d = Md_bootloader then
           res_bind (bldr_acc (md_exact d)) (\<lambda>acc. task_map tk addr (ucast addr) sz acc True)
         else if md_type d = Md_conventional then task_map tk addr (ucast addr) sz Acc_urwx True
         else Inr tk) (map_mdesc ds))"

definition sigma0_memory :: "boot_cfg \<Rightarrow> task \<Rightarrow> task res" where
  "sigma0_memory cfg tk0 =
     res_bind (map_mdesc (bc_mdesc cfg) tk0) (\<lambda>tk1.
     res_bind (if bc_ram_start cfg \<noteq> 0 then task_map tk1 0x1000 0x1000 (bc_ram_start cfg - 0x1000) Acc_urw True else Inr tk1) (\<lambda>tk2.
     let ram_end = bc_ram_start cfg + bc_ram_sz cfg in
     task_map tk2 ram_end (ucast ram_end) (min (bc_krn_vaddr cfg) 0xf0000000 - ram_end) Acc_urw True))"

text \<open>\<open>create_kthread_and_go\<close>: the thread that becomes the idle thread.\<close>

definition create_kthread :: "nat \<Rightarrow> sys \<Rightarrow> sys res" where
  "create_kthread tsk s =
     (let globid = create_global (of_nat Ints_max) Def_glob_ver in
      res_bind (threads_create globid globid globid tsk 0 (s_k s)) (\<lambda>(t, k).
      res_bind (set_state t Ready k) (\<lambda>k1. Inr (s\<lparr>s_k := k1\<lparr>k_current := t\<rparr>\<rparr>))))"

definition kthread :: "boot_cfg \<Rightarrow> sys \<Rightarrow> sys res" where
  "kthread cfg s0 =
     res_bind (icop (\<lambda>ic. intc_unmask (bc_timer_irq cfg) (intc_init ic)) s0) (\<lambda>s1.
     res_bind (tasks_create s1) (\<lambda>(tsk, s2).
     res_bind (sigma0_memory cfg (s_task s2 tsk)) (\<lambda>tk1.
     res_bind (task_set_kip_area (fpage_set (s_stale s2) (ucast (s_kip_pa s2)) Page_sz Acc_r) tk1) (\<lambda>tk2.
     res_bind (task_set_utcb_area (s_kip_pa s2) (fpage_set (s_stale s2) (ucast (bc_utcb_pa cfg)) Page_sz Acc_rw) tk2) (\<lambda>tk3.
     res_bind (threads_create thrid_sigma0 thrid_Nil thrid_Nil tsk 255 (s_k s2)) (\<lambda>(t, k).
     let s3 = s2\<lparr>s_task := (s_task s2)(tsk := tk3), s_k := thr_upd t (\<lambda>x. x\<lparr>t_utcb_pa := bc_utcb_pa cfg\<rparr>) k\<rparr> in
     res_bind (activate t s3) (\<lambda>s4.
     res_bind (kop (thread_start t (bc_sigma0_ip cfg) (bc_sigma0_sp cfg)) s4) (\<lambda>s5.
     Inr (s5\<lparr>s_k := switch_to t (s_k s5)\<rparr>)))))))))"

text \<open>The end of \<open>startup\<close>: the initial address space, the kernel thread, and its code.\<close>

definition startup :: "boot_cfg \<Rightarrow> sys \<Rightarrow> sys res" where
  "startup cfg s0 =
     res_bind (tasks_create s0) (\<lambda>(tsk, s1).
     res_bind (create_kthread tsk s1) (kthread cfg))"

text \<open>The state that \<open>startup\<close> finds: nothing has run yet.\<close>

definition fresh :: "sys \<Rightarrow> bool" where
  "fresh s \<longleftrightarrow> s_k s = kernel_new \<and> s_tasks s = [] \<and> s_cont s = (\<lambda>_. C_none)"

section \<open>Steps of the machine\<close>

definition cur_of :: "sys \<Rightarrow> nat" where "cur_of s = k_current (s_k s)"

text \<open>The current thread leaves the processor, or stays on it: what it goes on with is kept on its stack.\<close>

definition leave :: "nat \<Rightarrow> kcont \<times> sys \<Rightarrow> sys" where
  "leave cur r = (snd r)\<lparr>s_cont := (s_cont (snd r))(cur := fst r)\<rparr>"

text \<open>
  User code changes its registers, memory, and the UTCBs that are mapped to it; devices raise
  interrupts. Traps are taken from user mode only: interrupts are off in the kernel. The code of the
  idle thread is covered by \<open>user\<close> and \<open>irq\<close>.
\<close>

inductive sstep :: "nat \<Rightarrow> sys \<Rightarrow> sys \<Rightarrow> bool" for timer_irq where
  user: "s_cont s (cur_of s) = C_none \<Longrightarrow>
     sstep timer_irq s (s\<lparr>s_mem := m, s_k := (s_k s)\<lparr>k_thr := (\<lambda>t. (sthr s t)\<lparr>t_utcb := u t,
       t_frame := if t = cur_of s then f else t_frame (sthr s t)\<rparr>)\<rparr>\<rparr>)"
| device: "sstep timer_irq s (s\<lparr>s_intc := ic\<rparr>)"
| syscall: "s_cont s (cur_of s) = C_none \<Longrightarrow> kentry_syscall timer_irq clk s = Inr r \<Longrightarrow> sstep timer_irq s (leave (cur_of s) r)"
| pfault: "s_cont s (cur_of s) = C_none \<Longrightarrow> kentry_pagefault a b c s = Inr r \<Longrightarrow> sstep timer_irq s (leave (cur_of s) r)"
| irq: "s_cont s (cur_of s) = C_none \<Longrightarrow> kentry_irq timer_irq clk i s = Inr r \<Longrightarrow> sstep timer_irq s (leave (cur_of s) r)"
| resume: "s_cont s (cur_of s) \<noteq> C_none \<Longrightarrow> resume (cur_of s) s = Inr r \<Longrightarrow> sstep timer_irq s (leave (cur_of s) r)"

section \<open>The invariant\<close>

definition sys_inv :: "sys \<Rightarrow> bool" where
  "sys_inv s \<longleftrightarrow> kinv (s_k s) \<and> (\<forall>t. cont_ok (s_cont s t)) \<and> (\<forall>t. waits (s_k s) t \<longrightarrow> is_end (s_cont s t))"

lemma leave_inv:
  assumes "sys_inv s" "left_ok cur s r" "\<not> waits (s_k s) cur"
  shows "sys_inv (leave cur r)"
proof -
  obtain c s' where r: "r = (c, s')" by (cases r)
  have c: "cont_ok c" "kinv (s_k s')" "s_cont s' t = s_cont s t \<or> s_cont s' t = C_none"
    "waits (s_k s') t \<Longrightarrow> waits (s_k s) t \<and> s_cont s' t = s_cont s t \<or> t = cur \<and> is_end c" for t
    using assms(1,2) by (auto simp: r left_ok_def sys_inv_def)
  have "cont_ok (s_cont s' t)" for t using c(3) [of t] assms(1) by (auto simp: sys_inv_def)
  moreover have "is_end (if t = cur then c else s_cont s' t)" if "waits (s_k s') t" for t
    using c(4) [OF that] assms(1,3) by (auto simp: sys_inv_def)
  ultimately show ?thesis using c(1,2) by (simp add: sys_inv_def leave_def r)
qed

lemma user_waits: "sys_inv s \<Longrightarrow> s_cont s t = C_none \<Longrightarrow> \<not> waits (s_k s) t"
  by (auto simp: sys_inv_def)

lemma sys_inv_current: "sys_inv s \<Longrightarrow> k_current (s_k s) < Threads_max"
  by (simp add: sys_inv_def kinv_def run_inv_def)

lemma sstep_inv: "sstep timer_irq s s' \<Longrightarrow> sys_inv s \<Longrightarrow> sys_inv s'"
proof (induction rule: sstep.induct)
  case (user s f u m)
  let ?k = "(s_k s)\<lparr>k_thr := (\<lambda>t. (sthr s t)\<lparr>t_utcb := u t, t_frame := if t = cur_of s then f else t_frame (sthr s t)\<rparr>)\<rparr>"
  have "members ?k l = members (s_k s) l" for l by (cases l) simp_all
  then have "kok (s_k s) ?k" by (intro kok_fields) simp_all
  then show ?case using user(2) by (auto simp: sys_inv_def kok_def)
next
  case (device s ic)
  then show ?case by (simp add: sys_inv_def)
next
  case (syscall s clk r)
  note w = user_waits [OF syscall(3,1)] and c = sys_inv_current [OF syscall(3)]
  have "kinv (s_k s)" using syscall(3) by (simp add: sys_inv_def)
  then have "left_ok (cur_of s) s r"
    using postD [OF kentry_syscall_left syscall(2)] w c by (simp add: cur_of_def)
  then show ?case by (rule leave_inv [OF syscall(3) _ w])
next
  case (pfault s a b c r)
  show ?case by (rule leave_inv [OF pfault(3) postD [OF kentry_pagefault_left pfault(2)] user_waits [OF pfault(3,1)]])
    (rule sys_inv_current [OF pfault(3)])
next
  case (irq s clk i r)
  show ?case by (rule leave_inv [OF irq(3) postD [OF kentry_irq_left irq(2)] user_waits [OF irq(3,1)]])
next
  case (resume s r)
  then have "left_ok (cur_of s) s r \<and> \<not> waits (s_k s) (cur_of s)"
    by (intro postD [OF resume_left resume(2)]) (auto simp: sys_inv_def kinv_def run_inv_def cur_of_def)
  then show ?case using leave_inv [OF resume(3)] by blast
qed

lemma create_kthread_sok: "post (sok s) (create_kthread tsk s)"
proof (rule postI)
  fix s' assume "create_kthread tsk s = Inr s'"
  then obtain g t k k1 where k: "threads_create g g g tsk 0 (s_k s) = Inr (t, k)" "set_state t Ready k = Inr k1"
    "s' = s\<lparr>s_k := k1\<lparr>k_current := t\<rparr>\<rparr>" by (auto simp: create_kthread_def Let_def)
  note c = threads_create_kok [OF k(1)]
  have "kok (s_k s) k1" using c set_state_kok [OF k(2)] kok_trans by blast
  moreover have "members (k1\<lparr>k_current := t\<rparr>) l = members k1 l" for l by (cases l) simp_all
  then have "kinv k1 \<Longrightarrow> kinv (k1\<lparr>k_current := t\<rparr>)"
    using c(2) by (simp add: kinv_def run_inv_def pagers_ok_def) (simp add: sched_inv_def lists_inv_def bits_inv_def order_inv_def)
  ultimately have "kok (s_k s) (k1\<lparr>k_current := t\<rparr>)" by (auto simp: kok_def waits_def)
  then show "sok s s'" by (intro sokI) (simp_all add: k(3))
qed


lemma kthread_sok: "post (sok s) (kthread cfg s)"
proof -
  have i: "post (sok s) (icop f s)" for f by (auto intro!: wp)
  have go: "post (sok s3) (res_bind (activate t s3) (\<lambda>s4. res_bind (kop (thread_start t ip sp) s4)
      (\<lambda>s5. Inr (s5\<lparr>s_k := switch_to t (s_k s5)\<rparr>))))" if "t < Threads_max" for t ip sp s3
    by (rule sok_bind [OF activate_sok [OF that]], rule sok_bind) (use that in \<open>auto intro!: wp sok_switch\<close>)
  have c: "post (sok s) (res_bind (threads_create g sc p tsk pr (s_k s)) (\<lambda>(t, k).
     let s3 = s\<lparr>s_task := tks, s_k := thr_upd t (\<lambda>x. x\<lparr>t_utcb_pa := pa\<rparr>) k\<rparr> in
     res_bind (activate t s3) (\<lambda>s4. res_bind (kop (thread_start t ip sp) s4)
      (\<lambda>s5. Inr (s5\<lparr>s_k := switch_to t (s_k s5)\<rparr>)))))" for g sc p tsk pr s tks pa ip sp
  proof (unfold post_simps(3) [of _ "threads_create _ _ _ _ _ _"], rule postI, clarify)
    fix t k assume "threads_create g sc p tsk pr (s_k s) = Inr (t, k)"
    note k = threads_create_kok [OF this]
    have "kok k (thr_upd t (\<lambda>x. x\<lparr>t_utcb_pa := pa\<rparr>) k)" by (rule kok_fields) simp_all
    then have "sok s (s\<lparr>s_task := tks, s_k := thr_upd t (\<lambda>x. x\<lparr>t_utcb_pa := pa\<rparr>) k\<rparr>)"
      using k(1) kok_trans by (intro sokI) auto
    from sok_step [OF this go [OF k(2)]]
    show "post (sok s) (let s3 = s\<lparr>s_task := tks, s_k := thr_upd t (\<lambda>x. x\<lparr>t_utcb_pa := pa\<rparr>) k\<rparr> in
     res_bind (activate t s3) (\<lambda>s4. res_bind (kop (thread_start t ip sp) s4)
      (\<lambda>s5. Inr (s5\<lparr>s_k := switch_to t (s_k s5)\<rparr>))))" by (simp add: Let_def del: post_simps(3))
  qed
  have t: "post (sok s) (res_bind (tasks_create s) f)" if "\<And>n s1. post (sok s1) (f (n, s1))" for f s
    unfolding post_simps by (rule post_mono [OF tasks_create_sok]) (use that sok_step in auto)
  show ?thesis unfolding kthread_def
    by (rule sok_bind [OF i], rule t, unfold prod.case, intro post_bind_any c)
qed

lemma startup_inv:
  assumes "startup cfg s0 = Inr s" "fresh s0"
  shows "sys_inv s"
proof -
  have "post (sok s0) (startup cfg s0)" unfolding startup_def post_simps
  proof (rule post_mono [OF tasks_create_sok])
    fix r :: "nat \<times> sys" assume "case r of (n, s') \<Rightarrow> sok s0 s'"
    then show "post (sok s0) (case r of (tsk, s1) \<Rightarrow> res_bind (create_kthread tsk s1) (kthread cfg))"
      using sok_step [OF _ sok_bind [OF create_kthread_sok kthread_sok]] by (auto simp del: post_simps)
  qed
  then have s: "sok s0 s" using assms(1) by (rule postD)
  have k: "kinv kernel_new" "\<not> waits kernel_new t" for t
    using kernel_new_inv by (simp_all add: kinv_def run_inv_def pagers_ok_def waits_def kernel_new_def thread_new_def)
  have "s_cont s t = C_none" for t using s assms(2) by (auto simp: sok_def fresh_def)
  then show ?thesis using s k assms(2) by (auto simp: sok_def fresh_def sys_inv_def)
qed

text \<open>
  C1. From the start of sigma0 on, whatever user code and devices do and whichever system calls, page
  faults and interrupts follow: as long as the kernel has not stopped, every thread is in exactly the
  list its state, priority and timeout call for, the bitmap and the order of the lists are right, the
  current thread and every stored pager are in the table, and a thread that waits for a message is
  suspended at the one place in \<open>do_ipc\<close> that reads the result.
\<close>

theorem reachable_sys_inv:
  assumes "fresh s0" "startup cfg s0 = Inr s1" "(sstep timer_irq)\<^sup>*\<^sup>* s1 s"
  shows "sched_inv (s_k s) \<and> k_current (s_k s) < Threads_max
    \<and> (\<forall>t p. t_pager (sthr s t) = Some p \<longrightarrow> p < Threads_max)
    \<and> (\<forall>t. t_state (sthr s t) = Receive_ipc \<longrightarrow> (\<exists>l. s_cont s t = C_end l))"
proof -
  have "sys_inv s" using assms(3)
  proof (induction rule: rtranclp_induct)
    case base
    show ?case by (rule startup_inv [OF assms(2,1)])
  qed (rule sstep_inv)
  moreover have "is_end c \<Longrightarrow> \<exists>l. c = C_end l" for c by (cases c) simp_all
  ultimately show ?thesis by (simp add: sys_inv_def kinv_def run_inv_def pagers_ok_def waits_def)
qed


section \<open>A machine that starts\<close>

definition tiny_cfg :: boot_cfg where
  "tiny_cfg = \<lparr>bc_mdesc = [], bc_ram_start = 0, bc_ram_sz = 0xeffff000, bc_krn_vaddr = 0xf0000000,
     bc_sigma0_ip = 0x1000, bc_sigma0_sp = 0, bc_utcb_pa = 0x40002000, bc_timer_irq = 8\<rparr>"

definition tiny_sys :: sys where
  "tiny_sys = \<lparr>s_k = kernel_new, s_task = (\<lambda>_. one_task), s_tasks = [], s_task_cnt = 0, s_kroot = create_table Sparc_levels,
     s_kupage = (\<lambda>_. 0x40000000), s_kip_pa = 0x40001000, s_mem = (\<lambda>_. 0), s_intc = \<lparr>ic_pending = 0, ic_mask = 0, ic_eirq = 0, ic_eack = 0\<rparr>,
     s_stale = 0, s_cont = (\<lambda>_. C_none)\<rparr>"

lemma create_new:
  assumes "thr_index g = Inr t" "k_thr k t = thread_new t"
  shows "\<exists>th. threads_create g sc p tsk pr k = Inr (t, thr_upd t (\<lambda>_. th) k)
    \<and> th = (thread_new t)\<lparr>t_task := tsk, t_glob_id := g, t_sched_id := sc, t_pager_id := p, t_prio := pr, t_state := Inactive\<rparr>"
  using assms
  by (auto simp: threads_create_def Let_def set_prio_def set_state_def leave_list_def enter_list_def drop_heir_def
      thread_new_def thr_upd_def fun_upd_idem_iff thrid_is_nil_def)

lemma ready_new:
  assumes "k_ready k (unat (t_prio (k_thr k t))) = []" "t_state (k_thr k t) = Inactive \<or> t_state (k_thr k t) = Active"
    "thrid_is_nil (t_prio_heir (k_thr k t))"
  shows "\<exists>k'. set_state t Ready k = Inr k' \<and> k_thr k' = (k_thr k)(t := clear_ipc ((k_thr k t)\<lparr>t_state := Ready\<rparr>))
     \<and> (\<forall>p. p \<noteq> unat (t_prio (k_thr k t)) \<longrightarrow> k_ready k' p = k_ready k p)"
  using assms by (auto simp: set_state_def leave_list_def enter_list_def drop_heir_def add_ready_def q_push_def Let_def clear_ipc_def thr_upd_def)

lemma tiny_ids: "thr_index (create_global (of_nat Ints_max) Def_glob_ver) = Inr 0" "thr_index thrid_sigma0 = Inr 1"
  by code_simp+

lemma free_page_rule:
  assumes "as_ok {} a" "length (as_uspace a) < 100" "acc2mmuacc (map_acc acc) = Inr m"
    "page_aligned va" "va \<noteq> 0" "unat va + 0x1000 < 2 ^ 32" "pa AND 0xfff = 0" "pa \<noteq> 0" "unat pa + 0x1000 \<le> 2 ^ 32"
    "\<And>x. unat va \<le> x \<Longrightarrow> x < unat va + 0x1000 \<Longrightarrow> rg_map (as_uspace a) x = None"
  obtains a' t where "as_map a va pa Page_sz acc c = Inr a'" "as_ok {} a'" "length (as_uspace a') \<le> length (as_uspace a) + 2"
     "rg_map (as_uspace a') = upd_range (unat va) (unat va + 0x1000) (Some t) (rg_map (as_uspace a))"
  using as_map_free_page [OF assms(1,4-9,3), of c] assms(2,10)
  by (auto simp: Aspace_regions_def range_of_def Page_sz_def)

lemma tiny_fields:
  "page_aligned 0xff000000" "page_aligned 0xeffff000" "page_aligned 0x40001000" "page_aligned 0x40002000"
  "acc2mmuacc (map_acc Acc_kw_ur) = Inr 5" "acc2mmuacc (map_acc Acc_urw) = Inr 1" "acc2mmuacc (map_acc Acc_ukip) = Inr 0"
  "acc2mmuacc (map_acc Acc_utcb) = Inr 3"
  by (simp_all add: page_aligned_def is_aligned_def map_acc_def acc_defs Acc_kw_ur_def acc2mmuacc_def acc2mmuacc_table_def)

lemma tiny_fpages:
  "fpage_set 0 0x40001000 Page_sz Acc_r = 0x400010C4" "fpage_set 0 0x40002000 Page_sz Acc_rw = 0x400020C6"
  by code_simp+

lemma tiny_areas:
  "fpage_addr 0x400010C4 = 0x40001000" "fpage_addr 0x400020C6 = 0x40002000" "\<not> fpage_is_nil 0x400010C4"
  "fpage_size 0x400020C6 = 0x1000" "fpage_size 0x400010C4 = 0x1000"
  by code_simp+

lemma tiny_bitmap: "bm_count (bitmap_new 64) = 0" "fst (bitmap_getfree (snd (bitmap_init 64 (bitmap_new 64) 1))) = 0"
  by code_simp+

lemma empty_ok: "as_ok {} \<lparr>as_root = create_table Sparc_levels, as_uspace = [], as_id = i\<rparr>"
  using empty_root(1) xlate_create [OF Sparc_levels_ok(2)] by (simp add: as_ok_def agrees_def)

lemma tiny_task_new:
  assumes "s_kroot s = create_table Sparc_levels" "s_kupage s = (\<lambda>_. 0x40000000)" "s_stale s = 0"
  shows "\<exists>a t. task_new s = Inr \<lparr>tk_id = s_task_cnt s, tk_aspace = a, tk_kip_area = fpage_Nil, tk_utcb_area = fpage_Nil,
     tk_utcbs = bitmap_new 64, tk_redirector = 0\<rparr> \<and> as_ok {} a \<and> length (as_uspace a) \<le> 2
     \<and> rg_map (as_uspace a) = upd_range 0xff000000 0xff001000 (Some t) (\<lambda>_. None)"
proof -
  have e: "rg_map [] = (\<lambda>_. None)" by auto
  show ?thesis
    by (rule free_page_rule [OF empty_ok, of "s_task_cnt s" Acc_kw_ur 5 "0xff000000" "0x40000000" True])
      (auto simp: assms task_new_def tiny_fields e)
qed


definition tiny_utcbs :: bitmap where "tiny_utcbs = snd (bitmap_init 64 (bitmap_new 64) 1)"

text \<open>The address space of the new task with its three pages, and the task with its areas.\<close>

lemma tiny_space:
  assumes "as_ok {} a0" "length (as_uspace a0) \<le> 2"
     "rg_map (as_uspace a0) = upd_range 0xff000000 0xff001000 (Some t0) (\<lambda>_. None)"
  shows "\<exists>a1 a2 a3. as_map a0 0xeffff000 0xeffff000 Page_sz Acc_urw True = Inr a1
    \<and> as_map a1 0x40001000 0x40001000 Page_sz Acc_ukip True = Inr a2
    \<and> as_map a2 0x40002000 0x40002000 Page_sz Acc_utcb True = Inr a3"
proof -
  obtain a1 t1 where a1: "as_map a0 0xeffff000 0xeffff000 Page_sz Acc_urw True = Inr a1" "as_ok {} a1" "length (as_uspace a1) \<le> 4"
     "rg_map (as_uspace a1) = upd_range 0xeffff000 0xf0000000 (Some t1) (rg_map (as_uspace a0))"
    by (rule free_page_rule [OF assms(1), of Acc_urw 1 "0xeffff000" "0xeffff000" True])
      (use assms(2,3) in \<open>auto simp: tiny_fields upd_range_def\<close>)
  obtain a2 t2 where a2: "as_map a1 0x40001000 0x40001000 Page_sz Acc_ukip True = Inr a2" "as_ok {} a2" "length (as_uspace a2) \<le> 6"
     "rg_map (as_uspace a2) = upd_range 0x40001000 0x40002000 (Some t2) (rg_map (as_uspace a1))"
    by (rule free_page_rule [OF a1(2), of Acc_ukip 0 "0x40001000" "0x40001000" True])
      (use assms(3) a1(3,4) in \<open>auto simp: tiny_fields upd_range_def\<close>)
  obtain a3 where a3: "as_map a2 0x40002000 0x40002000 Page_sz Acc_utcb True = Inr a3"
    by (rule free_page_rule [OF a2(2), of Acc_utcb 3 "0x40002000" "0x40002000" True])
      (use assms(3) a1(4) a2(3,4) in \<open>auto simp: tiny_fields upd_range_def\<close>)
  show ?thesis using a1(1) a2(1) a3 by blast
qed

lemma tiny_memory:
  assumes "as_map (tk_aspace tk) 0xeffff000 0xeffff000 Page_sz Acc_urw True = Inr a"
  shows "sigma0_memory tiny_cfg tk = Inr (tk\<lparr>tk_aspace := a\<rparr>)"
  using assms by (simp add: sigma0_memory_def tiny_cfg_def task_map_def Page_sz_def)

lemma tiny_find: "find (\<lambda>n. n \<notin> set []) [1..<Tasks_max + 1] = Some 1" "find (\<lambda>n. n \<notin> set [1]) [1..<Tasks_max + 1] = Some 2"
  by code_simp+

lemma tiny_activate:
  assumes "t_state (sthr s 1) = Inactive" "t_utcb_pa (sthr s 1) = 0x40002000" "thr_task s 1 = tk"
    "tk_kip_area tk = 0x400010C4" "tk_utcb_area tk = 0x400020C6" "tk_utcbs tk = tiny_utcbs" "thrid_is_nil (t_prio_heir (sthr s 1))"
    "as_map (tk_aspace tk) 0x40002000 0x40002000 Page_sz Acc_utcb True = Inr a"
  shows "\<exists>s'. activate 1 s = Inr s' \<and> sthr s' 1 = (sthr s 1)\<lparr>t_utcb_uva := 0x40002000, t_state := Active\<rparr>
    \<and> k_ready (s_k s') = k_ready (s_k s)"
proof -
  obtain bm where b: "bitmap_getfree tiny_utcbs = (0, bm)" using tiny_bitmap(2) by (cases "bitmap_getfree tiny_utcbs") (simp add: tiny_utcbs_def)
  then have "alloc_utcb_uspace tk = Inr (0x40002000, tk\<lparr>tk_utcbs := bm\<rparr>)"
    using assms(5,6) by (simp add: alloc_utcb_uspace_def tiny_areas)
  then show ?thesis using assms
    by (simp add: activate_def t_is_active_def task_is_configured_def tiny_areas tkop_def task_map_def kop_def set_state_def supd_def
        leave_list_def enter_list_def drop_heir_def)
qed

lemma tiny_thread_start:
  assumes "t_state (k_thr k 1) = Active" "t_id (k_thr k 1) = 1" "t_utcb_uva (k_thr k 1) = 0x40002000"
    "k_ready k (unat (t_prio (k_thr k 1))) = []" "thrid_is_nil (t_prio_heir (k_thr k 1))"
  shows "\<exists>k'. thread_start 1 0x1000 0 k = Inr k'"
  using assms ready_new [of k 1] by (auto simp: thread_start_def)

lemma tiny_kthread:
  assumes "k_thr (s_k s) 1 = thread_new 1" "k_ready (s_k s) 255 = []"
    "s_kroot s = create_table Sparc_levels" "s_kupage s = (\<lambda>_. 0x40000000)" "s_stale s = 0" "s_tasks s = [1]" "s_kip_pa s = 0x40001000"
    "s_intc s = \<lparr>ic_pending = 0, ic_mask = 0, ic_eirq = 0, ic_eack = 0\<rparr>"
  shows "\<exists>s'. kthread tiny_cfg s = Inr s'"
proof -
  define s1 where "s1 = s\<lparr>s_intc := \<lparr>ic_pending = 0, ic_mask = push_bit 8 1, ic_eirq = 0, ic_eack = 0\<rparr>\<rparr>"
  have e1: "icop (\<lambda>ic. intc_unmask (bc_timer_irq tiny_cfg) (intc_init ic)) s = Inr s1"
    by (simp add: icop_def intc_unmask_def intc_init_def intc_valid_def assms(8) tiny_cfg_def Irq_min_def Irq_max_def irqmax_def s1_def)
  obtain a0 t0 where a0: "task_new s1 = Inr \<lparr>tk_id = s_task_cnt s1, tk_aspace = a0, tk_kip_area = fpage_Nil, tk_utcb_area = fpage_Nil,
     tk_utcbs = bitmap_new 64, tk_redirector = 0\<rparr>" "as_ok {} a0" "length (as_uspace a0) \<le> 2"
     "rg_map (as_uspace a0) = upd_range 0xff000000 0xff001000 (Some t0) (\<lambda>_. None)"
    using tiny_task_new [of s1] assms(3-5) by (auto simp: s1_def)
  obtain a1 a2 a3 where a: "as_map a0 0xeffff000 0xeffff000 Page_sz Acc_urw True = Inr a1"
    "as_map a1 0x40001000 0x40001000 Page_sz Acc_ukip True = Inr a2"
    "as_map a2 0x40002000 0x40002000 Page_sz Acc_utcb True = Inr a3" using tiny_space [OF a0(2-4)] by blast
  define tk0 where "tk0 = \<lparr>tk_id = s_task_cnt s1, tk_aspace = a0, tk_kip_area = fpage_Nil, tk_utcb_area = fpage_Nil,
     tk_utcbs = bitmap_new 64, tk_redirector = 0\<rparr>"
  define s2 where "s2 = s1\<lparr>s_task := (s_task s1)(2 := tk0), s_tasks := [1, 2], s_task_cnt := s_task_cnt s1 + 1\<rparr>"
  have "s_tasks s1 = [1]" using assms(6) by (simp add: s1_def)
  then have e2: "tasks_create s1 = Inr (2, s2)"
    unfolding tasks_create_def using tiny_find(2) a0(1) by (simp add: s2_def tk0_def del: upt_Suc)
  have f2: "s_k s2 = s_k s" "s_stale s2 = 0" "s_kip_pa s2 = 0x40001000" "s_task s2 2 = tk0"
    using assms(5,7) by (simp_all add: s2_def s1_def)
  define tk1 where "tk1 = tk0\<lparr>tk_aspace := a1\<rparr>"
  have e3: "sigma0_memory tiny_cfg (s_task s2 2) = Inr tk1" using tiny_memory [of tk0 a1] a(1) f2(4) by (simp add: tk0_def tk1_def)
  define tk2 where "tk2 = tk1\<lparr>tk_kip_area := 0x400010C4\<rparr>"
  have e4: "task_set_kip_area 0x400010C4 tk1 = Inr tk2" by (simp add: task_set_kip_area_def tk1_def tk0_def tk2_def tiny_bitmap tiny_areas)
  define tk3 where "tk3 = tk2\<lparr>tk_utcb_area := 0x400020C6, tk_utcbs := tiny_utcbs, tk_aspace := a2\<rparr>"
  have e5: "task_set_utcb_area 0x40001000 0x400020C6 tk2 = Inr tk3"
    using a(2) by (simp add: task_set_utcb_area_def tk2_def tk1_def tk0_def tk3_def tiny_bitmap tiny_areas tiny_utcbs_def Page_sz_def)
  obtain th where e6: "threads_create thrid_sigma0 thrid_Nil thrid_Nil 2 255 (s_k s) = Inr (1, thr_upd 1 (\<lambda>_. th) (s_k s))"
    and th: "th = (thread_new 1)\<lparr>t_task := 2, t_glob_id := thrid_sigma0, t_sched_id := thrid_Nil, t_pager_id := thrid_Nil, t_prio := 255, t_state := Inactive\<rparr>"
    using create_new [OF tiny_ids(2) assms(1)] by metis
  have new: "thrid_is_nil (t_prio_heir (thread_new 1))" "t_id (thread_new 1) = 1" by (simp_all add: thread_new_def thrid_is_nil_def)
  define s3 where "s3 = s2\<lparr>s_task := (s_task s2)(2 := tk3), s_k := thr_upd 1 (\<lambda>x. x\<lparr>t_utcb_pa := 0x40002000\<rparr>) (thr_upd 1 (\<lambda>_. th) (s_k s))\<rparr>"
  obtain s4 where e7: "activate 1 s3 = Inr s4" and
    s4: "sthr s4 1 = th\<lparr>t_utcb_pa := 0x40002000, t_utcb_uva := 0x40002000, t_state := Active\<rparr>" "k_ready (s_k s4) = k_ready (s_k s)"
    using tiny_activate [of s3 tk3 a3] a(3) new by (auto simp: s3_def th thr_task_def tk3_def tk2_def)
  obtain k5 where e8: "thread_start 1 0x1000 0 (s_k s4) = Inr k5" using tiny_thread_start [of "s_k s4"] s4 assms(2) new by (auto simp: th)
  show ?thesis
    using e1 e2 e3 e4 e5 e6 e7 [unfolded s3_def] e8 tiny_fpages
    by (simp add: kthread_def f2 Let_def kop_def) (auto simp: tiny_cfg_def Page_sz_def)
qed

lemma tiny_startup: "\<exists>s. startup tiny_cfg tiny_sys = Inr s"
proof -
  obtain a0 where a0: "task_new tiny_sys = Inr \<lparr>tk_id = 0, tk_aspace = a0, tk_kip_area = fpage_Nil, tk_utcb_area = fpage_Nil,
     tk_utcbs = bitmap_new 64, tk_redirector = 0\<rparr>"
    using tiny_task_new [of tiny_sys] by (auto simp: tiny_sys_def)
  define tk0 where "tk0 = \<lparr>tk_id = 0, tk_aspace = a0, tk_kip_area = fpage_Nil, tk_utcb_area = fpage_Nil,
     tk_utcbs = bitmap_new 64, tk_redirector = 0\<rparr>"
  define s1 where "s1 = tiny_sys\<lparr>s_task := (s_task tiny_sys)(1 := tk0), s_tasks := [1], s_task_cnt := 1\<rparr>"
  have e1: "tasks_create tiny_sys = Inr (1, s1)"
    unfolding tasks_create_def using tiny_find(1) a0 by (simp add: s1_def tk0_def tiny_sys_def del: upt_Suc)
  let ?g = "create_global (of_nat Ints_max) Def_glob_ver"
  have k1: "s_k s1 = kernel_new" by (simp add: s1_def tiny_sys_def)
  obtain th where e2: "threads_create ?g ?g ?g 1 0 kernel_new = Inr (0, thr_upd 0 (\<lambda>_. th) kernel_new)"
    and th: "th = (thread_new 0)\<lparr>t_task := 1, t_glob_id := ?g, t_sched_id := ?g, t_pager_id := ?g, t_prio := 0, t_state := Inactive\<rparr>"
    using create_new [OF tiny_ids(1), of kernel_new] by (force simp: kernel_new_def)
  have "thrid_is_nil (t_prio_heir (thread_new 0))" by (simp add: thread_new_def thrid_is_nil_def)
  then obtain k2 where e3: "set_state 0 Ready (thr_upd 0 (\<lambda>_. th) kernel_new) = Inr k2"
    and k2: "k_thr k2 1 = thread_new 1" "k_ready k2 255 = []"
    using ready_new [of "thr_upd 0 (\<lambda>_. th) kernel_new" 0] by (auto simp: th kernel_new_def)
  have "\<exists>s'. kthread tiny_cfg (s1\<lparr>s_k := k2\<lparr>k_current := 0\<rparr>\<rparr>) = Inr s'"
    by (rule tiny_kthread) (simp_all add: k2 [unfolded One_nat_def] s1_def tiny_sys_def)
  then show ?thesis using e1 e2 e3 by (simp add: startup_def create_kthread_def k1)
qed

theorem reachable_sys_inv_witness:
  "\<exists>s1. startup tiny_cfg tiny_sys = Inr s1 \<and> sched_inv (s_k (s1\<lparr>s_intc := s_intc tiny_sys\<rparr>))
    \<and> k_current (s_k s1) < Threads_max"
proof -
  obtain s1 where s1: "startup tiny_cfg tiny_sys = Inr s1" using tiny_startup by blast
  have "fresh tiny_sys" by (simp add: fresh_def tiny_sys_def)
  moreover have "(sstep 8)\<^sup>*\<^sup>* s1 (s1\<lparr>s_intc := s_intc tiny_sys\<rparr>)" by (rule r_into_rtranclp) (rule sstep.device)
  ultimately show ?thesis using reachable_sys_inv [OF _ s1] s1 by auto
qed

end
