(* ===== verification/Ipc_Props.thy ===== *)
theory Ipc_Props
  imports Boot
begin

text \<open>
  What the IPC code and the system calls promise: a message that a waiting thread accepts arrives, a
  failing send is reported to its sender only, a mapping gives the receiver the sender's memory, the
  search finds the most urgent sender, interrupts are not lost, and a thread without privileges
  reaches no address space but its own.
\<close>

section \<open>Delivery\<close>

lemma copy_untyped_length [simp]: "length (copy_untyped n smr rmr) = length rmr"
  by (induction n) simp_all

lemma copy_untyped_nth:
  "i < length rmr \<Longrightarrow> copy_untyped n smr rmr ! i = (if 1 \<le> i \<and> i \<le> n then smr ! i else rmr ! i)"
  by (induction n) (auto simp: nth_list_update le_Suc_eq)

lemma ipc_head_others: "t \<noteq> rcv \<Longrightarrow> sthr (ipc_head sndr rcv p u s) t = sthr s t"
  by (simp add: ipc_head_def Let_def supd_def)

text \<open>The words of an untyped message, as the receiver finds them.\<close>

definition received :: "utcb \<Rightarrow> utcb \<Rightarrow> utcb \<Rightarrow> bool" where
  "received su ru ru' \<longleftrightarrow> length (u_mr ru') = length (u_mr ru)
     \<and> (\<forall>i<length (u_mr ru). u_mr ru' ! i = (if i \<le> unat (tag_untyped (utcb_msgtag su)) then u_mr su ! i else u_mr ru ! i))
     \<and> ru' = ru\<lparr>u_mr := u_mr ru'\<rparr>"

lemma ipc_head_received:
  assumes "sndr \<noteq> rcv"
  shows "received (t_utcb (sthr s sndr)) (t_utcb (sthr s rcv)) (t_utcb (sthr (ipc_head sndr rcv False False s) rcv))"
    "sthr (ipc_head sndr rcv False False s) rcv = (sthr s rcv)\<lparr>t_utcb := t_utcb (sthr (ipc_head sndr rcv False False s) rcv),
       t_frame := (t_frame (sthr s rcv))[120 := t_glob_id (sthr s sndr)]\<rparr>"
  by (auto simp: ipc_head_def Let_def supd_def received_def utcb_upd_def scall_ipc_from_def copy_untyped_nth utcb_msgtag_def
      nth_list_update Suc_le_eq)

text \<open>A waiting thread is given a message and becomes ready.\<close>

lemma wake_ok:
  assumes "sched_inv k" "dst < Threads_max" "heir_ok k dst" "t_state (k_thr k dst) \<noteq> Ready"
  shows "\<exists>k'. set_state dst Ready (thr_upd dst (\<lambda>x. x\<lparr>t_utcb := u, t_frame := f\<rparr>) k) = Inr k' \<and> sched_inv k'
    \<and> others_kept dst k k' \<and> same_rest k k' \<and> t_utcb (k_thr k' dst) = u \<and> t_frame (k_thr k' dst) = f
    \<and> t_state (k_thr k' dst) = Ready \<and> thrid_is_nil (t_prio_heir (k_thr k' dst)) \<and> prio_max (k_thr k' dst) = prio_max (k_thr k dst)"
proof -
  let ?k = "thr_upd dst (\<lambda>x. x\<lparr>t_utcb := u, t_frame := f\<rparr>) k"
  have inv: "sched_inv ?k" by (rule sched_inv_same [OF assms(1)]) (simp add: sched_same_def)
  have g: "t_glob_id (k_thr ?k u) = t_glob_id (k_thr k u)" "t_prio_heir (k_thr ?k u) = t_prio_heir (k_thr k u)"
    "t_state (k_thr ?k u) = t_state (k_thr k u)" "t_inherited (k_thr ?k u) = t_inherited (k_thr k u)"
    "t_prio (k_thr ?k u) = t_prio (k_thr k u)" for u
    by simp_all
  have n: "find_num ?k n = find_num k n" for n by (simp add: find_num_def Let_def)
  have p: "prio_max (k_thr ?k u) = prio_max (k_thr k u)" "inherit_prio_find i (k_thr ?k u) = inherit_prio_find i (k_thr k u)" for u i
    by (simp_all add: prio_max_def inherit_prio_find_def)
  have "heir_ok ?k dst" using assms(3) unfolding heir_ok_def g n p .
  then obtain k' where k': "set_state dst Ready ?k = Inr k'" "sched_inv k'" "others_kept dst ?k k'" "same_rest ?k k'"
    "k_thr k' dst = (enter_thread ((k_thr ?k dst)\<lparr>t_state := Ready\<rparr>))\<lparr>t_prio_heir := thrid_Nil\<rparr>"
    using set_state_ok [OF inv assms(2), of Ready] g(3) assms(4) by auto
  have "is_heir ?k dst u = is_heir k dst u" for u unfolding is_heir_def g n ..
  then have "others_kept dst k k'" using k'(3) by (auto simp: others_kept_def)
  moreover have "same_rest k k'" using k'(4) by (simp add: same_rest_def)
  ultimately show ?thesis using k' by (auto simp: enter_thread_def clear_ipc_def thrid_is_nil_def prio_max_def)
qed

text \<open>
  C2. A thread sends untyped words to a thread that waits for it or for anybody, in a kernel whose
  lists are consistent: the call goes on at once, the receiver has the tag and exactly the words the
  tag announces, finds the sender's identifier as the result of its own call, is ready and no longer
  waits for anything; no other thread has changed but for a priority that is given back.
\<close>

theorem send_delivers:
  assumes inv: "sched_inv (s_k s)" and t: "cur \<noteq> dst" "dst < Threads_max" "heir_ok (s_k s) dst"
    and st: "t_state (sthr s dst) = Receive_ipc" "t_from_spec (sthr s dst) \<noteq> thrid_Nil"
    and acc: "thrid_is_any (t_from_spec (sthr s dst)) \<or> t_from_spec (sthr s dst) = t_glob_id (sthr s cur)"
    and tag: "utcb_msgtag (t_utcb (sthr s cur)) = l_tag l" "\<not> tag_propagated (l_tag l)" "tag_typed (l_tag l) = 0"
  shows "\<exists>s'. send_message cur l dst s = Inr (P_go (l\<lparr>l_snd := Some dst\<rparr>) s')
    \<and> received (t_utcb (sthr s cur)) (t_utcb (sthr s dst)) (t_utcb (sthr s' dst))
    \<and> t_frame (sthr s' dst) = (t_frame (sthr s dst))[120 := t_glob_id (sthr s cur)]
    \<and> t_state (sthr s' dst) = Ready \<and> thrid_is_nil (t_prio_heir (sthr s' dst))
    \<and> sched_inv (s_k s') \<and> others_kept dst (s_k s) (s_k s') \<and> s' = s\<lparr>s_k := s_k s'\<rparr>"
proof -
  define s1 where "s1 = ipc_head cur dst False False s"
  define u where "u = t_utcb (sthr s1 dst)"
  define f where "f = (t_frame (sthr s dst))[120 := t_glob_id (sthr s cur)]"
  note r = ipc_head_received [OF t(1), of s, folded s1_def, folded u_def f_def]
  have s1: "s1 = s\<lparr>s_k := s_k s1\<rparr>" by (simp add: s1_def ipc_head_def supd_def Let_def)
  have "s_k s1 = thr_upd dst (\<lambda>_. sthr s1 dst) (s_k s)" by (simp add: s1_def ipc_head_def supd_def Let_def thr_upd_def)
  then have k1: "s_k s1 = thr_upd dst (\<lambda>x. x\<lparr>t_utcb := u, t_frame := f\<rparr>) (s_k s)" unfolding r(2) by (simp add: thr_upd_def)
  obtain k' where k': "set_state dst Ready (s_k s1) = Inr k'" "sched_inv k'" "others_kept dst (s_k s) k'"
    "t_utcb (k_thr k' dst) = u" "t_frame (k_thr k' dst) = f" "t_state (k_thr k' dst) = Ready"
    "thrid_is_nil (t_prio_heir (k_thr k' dst))"
    using wake_ok [OF inv t(2,3), where u = u and f = f] st(1) unfolding k1 by auto
  have "is_good_sender (s_k s) dst cur = Inr (True, False)"
    using st acc by (auto simp: is_good_sender_def Let_def)
  moreover have "virt_sender cur dst (l_tag l) s = Inr (cur, False)" using tag(2) by (simp add: virt_sender_def)
  moreover have "do_normal_ipc cur dst False False s = Inr (T_done s1)"
    using t(1) tag(1,3) by (simp add: do_normal_ipc_def Let_def s1_def)
  moreover have "t_state (sthr s1 dst) = Receive_ipc" using st(1) by (simp add: k1)
  ultimately have "send_message cur l dst s = Inr (P_go (l\<lparr>l_snd := Some dst\<rparr>) (s1\<lparr>s_k := k'\<rparr>))"
    using st(1) k'(1) by (simp add: send_message_def after_items_def kop_def)
  moreover have "s1\<lparr>s_k := k'\<rparr> = s\<lparr>s_k := k'\<rparr>" by (subst s1) simp
  ultimately show ?thesis using r(1) k' by (intro exI [of _ "s1\<lparr>s_k := k'\<rparr>"]) (simp add: f_def)
qed


section \<open>Failure\<close>

lemma find_thr_same:
  assumes "\<And>x. t_task (k_thr k' x) = t_task (k_thr k x)" "\<And>x. t_utcb_uva (k_thr k' x) = t_utcb_uva (k_thr k x)"
    "\<And>x. t_state (k_thr k' x) = t_state (k_thr k x)" "k_current k' = k_current k"
  shows "find_thr k' i = find_thr k i"
  unfolding find_thr_def find_num_def find_by_utcb_def assms ..

lemma find_thr_utcb [simp]: "find_thr (thr_upd t (utcb_upd f) k) i = find_thr k i"
  by (rule find_thr_same) (simp_all add: utcb_upd_def)

text \<open>
  The error a send ends with at once: there is no such thread or it is not active; or a plain message
  with timeout zero meets a thread that is not waiting.
\<close>

definition plain_tag :: "msgtag \<Rightarrow> bool" where
  "plain_tag tag \<longleftrightarrow> \<not> tag_is_thread_start tag \<and> \<not> tag_is_pf_request tag \<and> \<not> tag_is_io_pf_request tag
     \<and> tag_ipc_label tag \<noteq> 0x202 \<and> \<not> tag_propagated tag"

definition send_error :: "nat \<Rightarrow> sys \<Rightarrow> u32 option" where
  "send_error cur s =
     (let th = sthr s cur; tag = tag_set_ok (utcb_msgtag (t_utcb th)) in
      if thrid_is_nil (scall_ipc_to th) \<or> thrid_is_int (scall_ipc_to th) \<and> tag_untyped tag = 1 then None
      else case find_thr (s_k s) (scall_ipc_to th) of
             Inl _ \<Rightarrow> None
           | Inr None \<Rightarrow> Some L4_ipc_no_partner
           | Inr (Some d) \<Rightarrow>
               if \<not> t_is_active (sthr s d) then Some L4_ipc_no_partner
               else if plain_tag tag \<and> time_is_zero (timeouts_snd (scall_ipc_timeouts th))
                       \<and> t_state (sthr s d) \<notin> {Receive_ipc, Receive_pfault, Receive_exception}
               then Some L4_ipc_timeout else None)"

lemma ipc_error_fields:
  assumes "unat e < 8"
  shows "ipcerr_error (ipcerr phase e 0) = e" "ipcerr_transferred (ipcerr phase e 0) = 0"
    "ipcerr_is_snd_error (ipcerr phase e 0) = (phase = Snd_phase)"
  using assms by (auto simp: ipcerr_def ipcerr_error_def ipcerr_transferred_def ipcerr_is_snd_error_def bf_simps split: ipc_phase.splits)

lemma tl_update0: "tl (xs[0 := v]) = tl xs"
  by (cases xs) simp_all

lemma tag_failed_set: "tag_failed (tag_set_failed t)"
  by (simp add: tag_failed_def tag_set_failed_def bf_simps)

lemma send_phase_fails:
  assumes "\<not> (thrid_is_int (l_to l) \<and> tag_untyped (l_tag l) = 1)" "find_thr (s_k s) (l_to l) = Inr f"
    and "case f of None \<Rightarrow> e = L4_ipc_no_partner
      | Some d \<Rightarrow> if \<not> t_is_active (sthr s d) then e = L4_ipc_no_partner
          else e = L4_ipc_timeout \<and> plain_tag (l_tag l) \<and> time_is_zero (timeouts_snd (l_tmo l))
             \<and> t_state (sthr s d) \<notin> {Receive_ipc, Receive_pfault, Receive_exception}"
  shows "send_phase cur l s = Inr (P_return (ipc_fail cur Snd_phase e (l_tag l) s))"
proof (cases f)
  case (Some d)
  show ?thesis
  proof (cases "t_is_active (sthr s d)")
    case True
    then have "plain_tag (l_tag l)" and p: "time_is_zero (timeouts_snd (l_tmo l))" "e = L4_ipc_timeout"
      "t_state (sthr s d) \<noteq> Receive_ipc" "t_state (sthr s d) \<noteq> Receive_pfault" "t_state (sthr s d) \<noteq> Receive_exception"
      using assms(3) Some by simp_all
    then have "send_message cur l d s = Inr (P_return (ipc_fail cur Snd_phase e (l_tag l) s))"
      by (simp add: send_message_def virt_sender_def plain_tag_def)
    then show ?thesis using assms(1,2) Some True p(3-5) \<open>plain_tag (l_tag l)\<close> unfolding send_phase_def Let_def plain_tag_def by auto
  qed (use assms Some in \<open>auto simp: send_phase_def Let_def\<close>)
qed (use assms in \<open>auto simp: send_phase_def Let_def\<close>)

lemma send_errorD:
  assumes "send_error cur s = Some e"
  obtains f where "find_thr (s_k s) (scall_ipc_to (sthr s cur)) = Inr f" "\<not> thrid_is_nil (scall_ipc_to (sthr s cur))"
    "\<not> (thrid_is_int (scall_ipc_to (sthr s cur)) \<and> tag_untyped (tag_set_ok (utcb_msgtag (t_utcb (sthr s cur)))) = 1)"
    "case f of None \<Rightarrow> e = L4_ipc_no_partner
      | Some d \<Rightarrow> if \<not> t_is_active (sthr s d) then e = L4_ipc_no_partner
          else e = L4_ipc_timeout \<and> plain_tag (tag_set_ok (utcb_msgtag (t_utcb (sthr s cur))))
             \<and> time_is_zero (timeouts_snd (scall_ipc_timeouts (sthr s cur)))
             \<and> t_state (sthr s d) \<notin> {Receive_ipc, Receive_pfault, Receive_exception}"
    "e = L4_ipc_no_partner \<or> e = L4_ipc_timeout"
proof (cases "find_thr (s_k s) (scall_ipc_to (sthr s cur))")
  case (Inr f)
  show thesis by (rule that [OF Inr]; cases f) (use assms Inr in \<open>simp_all add: send_error_def Let_def split: if_split_asm\<close>)
qed (use assms in \<open>simp add: send_error_def Let_def split: if_split_asm\<close>)

text \<open>
  C7. A send that cannot take place ends at once and changes nothing but the caller's control block:
  its tag says that the call failed and its error word gives the phase and the reason, no partner or
  timeout, with nothing transferred.
\<close>

theorem send_fails:
  assumes "send_error cur s = Some e" "u_mr (t_utcb (sthr s cur)) \<noteq> []"
  shows "\<exists>u. do_ipc cur s = Inr (C_exit, supd cur (\<lambda>x. x\<lparr>t_utcb := u\<rparr>) s)
    \<and> tag_failed (utcb_msgtag u) \<and> ipcerr_error (u_error u) = e \<and> ipcerr_is_snd_error (u_error u) \<and> ipcerr_transferred (u_error u) = 0
    \<and> tl (u_mr u) = tl (u_mr (t_utcb (sthr s cur)))"
proof -
  obtain f where f: "find_thr (s_k s) (scall_ipc_to (sthr s cur)) = Inr f" "\<not> thrid_is_nil (scall_ipc_to (sthr s cur))"
    "\<not> (thrid_is_int (scall_ipc_to (sthr s cur)) \<and> tag_untyped (tag_set_ok (utcb_msgtag (t_utcb (sthr s cur)))) = 1)"
    "case f of None \<Rightarrow> e = L4_ipc_no_partner
      | Some d \<Rightarrow> if \<not> t_is_active (sthr s d) then e = L4_ipc_no_partner
          else e = L4_ipc_timeout \<and> plain_tag (tag_set_ok (utcb_msgtag (t_utcb (sthr s cur))))
             \<and> time_is_zero (timeouts_snd (scall_ipc_timeouts (sthr s cur)))
             \<and> t_state (sthr s d) \<notin> {Receive_ipc, Receive_pfault, Receive_exception}"
    "e = L4_ipc_no_partner \<or> e = L4_ipc_timeout" by (rule send_errorD [OF assms(1)])
  define tag where "tag = tag_set_ok (utcb_msgtag (t_utcb (sthr s cur)))"
  define s1 where "s1 = supd cur (utcb_upd (utcb_set_msgtag tag)) s"
  define l where "l = \<lparr>l_to = scall_ipc_to (sthr s cur), l_from = scall_ipc_from_spec (sthr s cur),
    l_tmo = scall_ipc_timeouts (sthr s cur), l_tag = tag, l_snd = None, l_rcv = None\<rparr>"
  have k: "find_thr (s_k s1) i = find_thr (s_k s) i" "t_state (sthr s1 d) = t_state (sthr s d)" for i d
    by (simp_all add: s1_def supd_def utcb_upd_def)
  have act: "t_is_active (sthr s1 d) = t_is_active (sthr s d)" for d by (simp add: t_is_active_def k)
  have lf: "l_to l = scall_ipc_to (sthr s cur)" "l_tag l = tag" "l_tmo l = scall_ipc_timeouts (sthr s cur)" by (simp_all add: l_def)
  have "send_phase cur l s1 = Inr (P_return (ipc_fail cur Snd_phase e (l_tag l) s1))"
    by (rule send_phase_fails [where f = f], unfold lf k act tag_def) (rule f)+
  then have "send_phase cur l s1 = Inr (P_return (ipc_fail cur Snd_phase e tag s1))" by (simp add: lf)
  then have "do_ipc cur s = Inr (C_exit, ipc_fail cur Snd_phase e tag s1)"
    using f(2) by (simp add: do_ipc_def Let_def l_def [symmetric] tag_def [symmetric] s1_def [symmetric] after_send_def)
  moreover define u where "u = utcb_set_msgtag (tag_set_failed tag) (utcb_set_msgtag tag (t_utcb (sthr s cur))\<lparr>u_error := ipcerr Snd_phase e 0\<rparr>)"
  moreover have "ipc_fail cur Snd_phase e tag s1 = supd cur (\<lambda>x. x\<lparr>t_utcb := u\<rparr>) s"
    unfolding ipc_fail_def s1_def u_def supd_def thr_upd_def utcb_upd_def by simp
  moreover have "utcb_msgtag u = tag_set_failed tag" "u_error u = ipcerr Snd_phase e 0" "tl (u_mr u) = tl (u_mr (t_utcb (sthr s cur)))"
    using assms(2) by (simp_all add: u_def utcb_set_msgtag_def utcb_msgtag_def tl_update0)
  moreover have "unat e < 8" using f(5) by (auto simp: L4_ipc_no_partner_def L4_ipc_timeout_def)
  ultimately show ?thesis using tag_failed_set ipc_error_fields [of e Snd_phase] by auto
qed

section \<open>The most urgent sender\<close>

text \<open>Whether a thread is a sender for \<open>rcv\<close> does not depend on the flags that are handed on.\<close>

definition offers :: "kernel \<Rightarrow> nat \<Rightarrow> thrid \<Rightarrow> nat \<Rightarrow> bool" where
  "offers k rcv from_spec t = (case is_good_sender_of k rcv from_spec t (False, False) of Inr (good, _) \<Rightarrow> good | Inl _ \<Rightarrow> False)"

definition rejects :: "kernel \<Rightarrow> nat \<Rightarrow> thrid \<Rightarrow> nat \<Rightarrow> bool" where
  "rejects k rcv from_spec sender =
    (let se = k_thr k sender; rt = k_thr k rcv; local' = (t_task se = t_task rt) in
        (\<not> thrid_is_any from_spec \<and> \<not> (local' \<and> thrid_is_any_local from_spec)
           \<and> \<not> (local' \<and> from_spec = t_localid se) \<and> \<not> from_spec = t_glob_id se))"

definition via :: "kernel \<Rightarrow> nat \<Rightarrow> nat \<Rightarrow> bool \<Rightarrow> (nat \<times> bool) res" where
  "via k rcv sndr prop = (let st = k_thr k sndr; rt = k_thr k rcv in (if tag_propagated (utcb_msgtag (t_utcb st)) then
             res_bind (find_thr k (u_sender (t_utcb st))) (\<lambda>f.
             case f of
               Some v \<Rightarrow> if t_task st = t_task (k_thr k v) \<or> t_task st = t_task rt then Inr (v, True) else Inr (sndr, prop)
             | None \<Rightarrow> Inr (sndr, prop))
           else Inr (sndr, prop)))"

lemma via_flag: "via k rcv sndr p = Inr (v, p') \<Longrightarrow> \<exists>q. via k rcv sndr False = Inr (v, q)"
  unfolding via_def Let_def
  by (cases "find_thr k (u_sender (t_utcb (k_thr k sndr)))") (auto split: option.splits if_splits)

lemma is_good_sender_of_flags:
  assumes "is_good_sender_of k rcv f t fl = Inr (good, fl')"
  shows "good = offers k rcv f t"
proof -
  obtain p q where fl: "fl = (p, q)" by (cases fl)
  have e: "is_good_sender_of k rcv f t (p, q) =
     res_bind (wassert (is_snd_state (t_state (k_thr k t)))) (\<lambda>_.
     res_bind (wassert (\<not> thrid_is_nil (t_to (k_thr k t)) \<and> \<not> thrid_is_any (t_to (k_thr k t)) \<and> \<not> thrid_is_any_local (t_to (k_thr k t)))) (\<lambda>_.
     if \<not> (t_task (k_thr k t) = t_task (k_thr k rcv) \<and> t_to (k_thr k t) = t_localid (k_thr k rcv)) \<and> \<not> t_to (k_thr k t) = t_glob_id (k_thr k rcv)
     then Inr (False, p, q)
     else res_bind (via k rcv t p) (\<lambda>(v, p'). if rejects k rcv f v then Inr (False, p', q)
       else Inr (True, p', q \<or> t_task (k_thr k v) = t_task (k_thr k rcv) \<and> (thrid_is_any_local f \<or> f = t_localid (k_thr k v))))))" for p q
    unfolding is_good_sender_of_def via_def Let_def rejects_def prod.case ..
  show ?thesis
  proof (cases "\<not> (t_task (k_thr k t) = t_task (k_thr k rcv) \<and> t_to (k_thr k t) = t_localid (k_thr k rcv)) \<and> \<not> t_to (k_thr k t) = t_glob_id (k_thr k rcv)")
    case True
    then show ?thesis using assms unfolding fl offers_def e by (auto simp: wassert_def split: if_splits)
  next
    case False
    then obtain v p' where v: "via k rcv t p = Inr (v, p')" "good = (\<not> rejects k rcv f v)" "is_snd_state (t_state (k_thr k t))"
      "\<not> thrid_is_nil (t_to (k_thr k t)) \<and> \<not> thrid_is_any (t_to (k_thr k t)) \<and> \<not> thrid_is_any_local (t_to (k_thr k t))"
      using assms unfolding fl e by (auto split: if_splits)
    then show ?thesis using via_flag [OF v(1)] False unfolding offers_def e by auto
  qed
qed
definition best :: "kernel \<Rightarrow> nat \<Rightarrow> thrid \<Rightarrow> nat set \<Rightarrow> nat option \<Rightarrow> bool" where
  "best k rcv f T r \<longleftrightarrow> (case r of
      None \<Rightarrow> \<forall>u\<in>T. \<not> offers k rcv f u
    | Some t \<Rightarrow> t \<in> T \<and> offers k rcv f t \<and> (\<forall>u\<in>T. offers k rcv f u \<longrightarrow> prio_max (k_thr k u) \<le> prio_max (k_thr k t)))"

lemma highest_sender_best:
  "highest_sender k rcv f ts r fl = Inr (r', fl') \<Longrightarrow> best k rcv f T r \<Longrightarrow> best k rcv f (T \<union> set ts) r'"
proof (induction ts arbitrary: r fl T)
  case (Cons t ts)
  obtain good fl1 where g: "is_good_sender_of k rcv f t fl = Inr (good, fl1)"
    and h: "highest_sender k rcv f ts (if \<not> good then r else case r of None \<Rightarrow> Some t
       | Some q \<Rightarrow> if prio_max (k_thr k q) < prio_max (k_thr k t) then Some t else r) fl1 = Inr (r', fl')"
    using Cons.prems(1) by auto
  have "best k rcv f (insert t T) (if \<not> good then r else case r of None \<Rightarrow> Some t
       | Some q \<Rightarrow> if prio_max (k_thr k q) < prio_max (k_thr k t) then Some t else r)"
    using Cons.prems(2) is_good_sender_of_flags [OF g] by (auto simp: best_def split: option.splits)
  from Cons.IH [OF h this] show ?case by simp
qed simp

lemma find_highest_best: "find_highest_prio_sender k ts rcv f = Inr (r, fl) \<Longrightarrow> best k rcv f (set ts) r"
  using highest_sender_best [of k rcv f ts None _ r fl "{}"] by (simp add: find_highest_prio_sender_def best_def)

lemma best_join:
  assumes "best k rcv f A a" "best k rcv f B b"
    and "r = (case (a, b) of (Some x, Some y) \<Rightarrow> if prio_max (k_thr k x) < prio_max (k_thr k y) then b else a
          | (Some x, None) \<Rightarrow> a | (None, Some y) \<Rightarrow> b | (None, None) \<Rightarrow> None)"
  shows "best k rcv f (A \<union> B) r"
  using assms by (auto simp: best_def split: option.splits if_splits)

lemma snd_lists:
  assumes "sched_inv k"
  shows "set (k_snd_wait k) \<union> set (k_send k) = {t. t < Threads_max \<and> is_snd_state (t_state (k_thr k t))}"
proof -
  have l: "t \<in> set (members k l) \<longleftrightarrow> t < Threads_max \<and> list_of (k_thr k t) = l" if "l \<noteq> L_none" for l t
    using lists_invD(2) [of "{}" k l] assms that by (simp add: sched_inv_def)
  have "list_of th = L_snd_wait \<or> list_of th = L_send \<longleftrightarrow> is_snd_state (t_state th)" for th
    by (cases "t_state th") (simp_all add: list_of_def is_snd_state_def)
  then show ?thesis using l [of L_snd_wait] l [of L_send] by (auto simp del: Threads_max_128)
qed

text \<open>
  C6. A receiver that accepts a message from anybody gets the most urgent one: the search returns a
  thread that sends to it, of the highest effective priority among all threads that do, with or
  without a timeout, and finds none only when none sends to it.
\<close>

theorem find_sender_highest:
  assumes "sched_inv k" "find_thr k f = Inr None" "find_sender k rcv f = Inr (r, flags)"
  shows "best k rcv f {t. t < Threads_max \<and> is_snd_state (t_state (k_thr k t))} r"
proof -
  obtain r1 f1 r2 f2 where r': "find_highest_prio_sender k (k_snd_wait k) rcv f = Inr (r1, f1)"
    "find_highest_prio_sender k (k_send k) rcv f = Inr (r2, f2)"
  proof -
    obtain x where x: "find_highest_prio_sender k (k_snd_wait k) rcv f = Inr x"
      using assms(2,3) by (cases "find_highest_prio_sender k (k_snd_wait k) rcv f") (simp_all add: find_sender_def)
    obtain y where y: "find_highest_prio_sender k (k_send k) rcv f = Inr y"
      using assms(2,3) x by (cases "find_highest_prio_sender k (k_send k) rcv f") (simp_all add: find_sender_def split_beta)
    from that [of "fst x" "snd x" "fst y" "snd y"] x y show thesis by simp
  qed
  have c: "(case (r1, r2) of
           (Some a, Some b) \<Rightarrow> if prio_max (k_thr k a) < prio_max (k_thr k b) then Inr (r2, f2) else Inr (r1, f1)
         | (Some a, None) \<Rightarrow> Inr (r1, f1)
         | (None, Some b) \<Rightarrow> Inr (r2, f2)
         | (None, None) \<Rightarrow> Inr (None, False, False)) = (Inr (r, flags) :: (nat option \<times> bool \<times> bool) res)"
    using assms(3) unfolding find_sender_def assms(2) r' by simp
  have r: "r = (case (r1, r2) of (Some x, Some y) \<Rightarrow> if prio_max (k_thr k x) < prio_max (k_thr k y) then r2 else r1
          | (Some x, None) \<Rightarrow> r1 | (None, Some y) \<Rightarrow> r2 | (None, None) \<Rightarrow> None)"
    using c by (cases r1; cases r2) (auto split: if_splits)
  have "best k rcv f (set (k_snd_wait k) \<union> set (k_send k)) r"
    by (rule best_join [OF find_highest_best [OF r'(1)] find_highest_best [OF r'(2)] r])
  then show ?thesis unfolding snd_lists [OF assms(1)] .
qed

section \<open>Isolation\<close>

text \<open>Every address space but that of one task stays as it is, and no task comes or goes.\<close>

definition only_task :: "nat \<Rightarrow> sys \<Rightarrow> sys \<Rightarrow> bool" where
  "only_task n s s' \<longleftrightarrow> (\<forall>m. m \<noteq> n \<longrightarrow> s_task s' m = s_task s m) \<and> s_tasks s' = s_tasks s \<and> s_mem s' = s_mem s
     \<and> (\<forall>t. t_task (sthr s' t) = t_task (sthr s t))"

lemma only_task_refl [simp]: "only_task n s s"
  by (simp add: only_task_def)

lemma only_task_trans: "only_task n s s1 \<Longrightarrow> only_task n s1 s2 \<Longrightarrow> only_task n s s2"
  by (simp add: only_task_def)

lemma only_supd: "(\<And>x. t_task (f x) = t_task x) \<Longrightarrow> only_task n s (supd t f s)"
  by (simp add: only_task_def supd_def)

lemma only_frame [simp]: "only_task n s (frame_set t i v s)"
  unfolding frame_set_def by (rule only_supd) simp

lemma only_error [simp]: "only_task n s (utcb_error t e s)"
  unfolding utcb_error_def by (rule only_supd) (simp add: utcb_upd_def)

lemma only_tkop: "t_task (sthr s t) = n \<Longrightarrow> post (only_task n s) (tkop f t s)"
  by (auto simp: tkop_def post_def only_task_def)

lemma only_bind:
  "post (only_task n s) m \<Longrightarrow> (\<And>s1. only_task n s s1 \<Longrightarrow> post (only_task n s1) (f s1)) \<Longrightarrow> post (only_task n s) (res_bind m f)"
  by (auto simp: post_def intro: only_task_trans)

lemma only_step: "only_task n s s1 \<Longrightarrow> post (only_task n s1) m \<Longrightarrow> post (only_task n s) m"
  by (auto simp: post_def intro: only_task_trans)

text \<open>Operations of the kernel on threads leave the task of every thread.\<close>

lemma set_state_keeps:
  assumes "set_state t st k = Inr k'"
  shows "t_task (k_thr k' u) = t_task (k_thr k u) \<and> t_frame (k_thr k' u) = t_frame (k_thr k u)"
proof -
  obtain k1 k2 where k: "leave_list t k = Inr k1" "enter_list t (thr_upd t (\<lambda>x. x\<lparr>t_state := st\<rparr>) k1) = Inr k2"
    "drop_heir t k2 = Inr k'" using assms by (auto simp: set_state_def)
  have "k' = k2 \<or> (\<exists>h th. inherit_prio_del (t_glob_id (k_thr k2 t)) (prio_max (k_thr k2 t)) (k_thr k2 h) = Inr th
      \<and> k' = thr_upd t (\<lambda>x. x\<lparr>t_prio_heir := thrid_Nil\<rparr>) (thr_upd h (\<lambda>_. th) k2))"
    using k(3) by (auto simp: drop_heir_def Let_def split: if_splits option.splits)
  moreover have "t_task th = t_task x \<and> t_frame th = t_frame x" if "inherit_prio_del o' p x = Inr th" for o' p x th
    using that by (auto simp: inherit_prio_del_def Let_def split: option.splits)
  ultimately have "t_task (k_thr k' u) = t_task (k_thr k2 u) \<and> t_frame (k_thr k' u) = t_frame (k_thr k2 u)" by auto
  then show ?thesis using enter_list_thr [OF k(2), of u] leave_list_thr [OF k(1)] by (auto simp: clear_ipc_def)
qed

lemmas set_state_task = set_state_keeps [THEN conjunct1] and set_state_frame = set_state_keeps [THEN conjunct2]

lemma switch_to_task:
  "t_task (k_thr (switch_to n k) u) = t_task (k_thr k u)" "t_frame (k_thr (switch_to n k) u) = t_frame (k_thr k u)"
  by (simp_all add: switch_to_def timeslice_start_def timeslice_stop_def timeslice_spend_def Let_def)

lemma timeslice_expired_task: "timeslice_expired_in p t k = Inr (n, k') \<Longrightarrow> t_task (k_thr k' u) = t_task (k_thr k u)"
  by (auto simp: timeslice_expired_in_def Let_def split: if_splits)

lemma switch_to_next_task: "switch_to_next k = Inr k' \<Longrightarrow> t_task (k_thr k' u) = t_task (k_thr k u)"
  by (auto simp: switch_to_next_def switch_to_task get_highest_prio_ready_thread_def Let_def
      dest: timeslice_expired_task split: option.splits if_splits)

lemma set_prio_task: "set_prio t v k = Inr k' \<Longrightarrow> t_task (k_thr k' u) = t_task (k_thr k u)"
  by (auto simp: set_prio_def del_ready_def add_ready_def Let_def split: if_splits)

lemma process_exception_task:
  assumes "process_exception thr ty pf k = Inr k'"
  shows "t_task (k_thr k' u) = t_task (k_thr k u)"
proof -
  obtain exh where e: "find_handler thr k = Inr exh" using assms by (auto simp: process_exception_def)
  show ?thesis
  proof (cases "t_state (k_thr k exh) = Receive_ipc")
    case True
    then obtain k1 k2 k3 where k: "do_exc_ipc thr exh ty pf k = Inr k1" "set_state exh Ready k1 = Inr k2"
      "set_state thr Receive_exception (thr_upd thr (\<lambda>x. x\<lparr>t_from_spec := t_glob_id (k_thr k exh)\<rparr>) k2) = Inr k3"
      "k' = switch_to exh k3" using assms e by (auto simp: process_exception_def Let_def)
    have "t_task (k_thr k1 u) = t_task (k_thr k u)"
      using k(1) by (auto simp: do_exc_ipc_def Let_def utcb_upd_def scall_ipc_from_def)
    then show ?thesis using set_state_task [OF k(2), of u] set_state_task [OF k(3), of u] switch_to_task(1) [of exh k3 u] k(4)
      by (auto split: if_splits)
  next
    case False
    then obtain k1 where k: "set_state thr Send_exception
        (thr_upd thr (\<lambda>x. (exc_save ty pf x)\<lparr>t_to := t_glob_id (k_thr k exh)\<rparr>) k) = Inr k1" "switch_to_next k1 = Inr k'"
      using assms e by (auto simp: process_exception_def Let_def)
    then show ?thesis using set_state_task [OF k(1), of u] switch_to_next_task [OF k(2), of u]
      by (auto simp: exc_save_def split: if_splits)
  qed
qed

lemma only_kop: "(\<And>k' u. f (s_k s) = Inr k' \<Longrightarrow> t_task (k_thr k' u) = t_task (sthr s u)) \<Longrightarrow> post (only_task n s) (kop f s)"
  by (auto simp: kop_def post_def only_task_def)

lemma remap_only: "post (only_task n s) (remap_user_utcb cur n ts s)"
proof (induction ts arbitrary: s)
  case (Cons t ts)
  have "post (only_task n s) (if t_task (sthr s t) = n then res_bind (wassert b) (\<lambda>_. tkop f t s) else Inr s)" for b f
    by (intro post_if post_bind_any) (simp_all add: only_tkop)
  then show ?case unfolding remap_user_utcb.simps by (rule only_bind) (rule Cons)
qed simp

lemma unmap_only: "t_task (sthr s cur) = n \<Longrightarrow> post (only_task n s) (unmap_fpages cur fps s)"
proof (induction fps arbitrary: s)
  case (Cons fp fps)
  have "post (only_task n s) (if fpage_is_io fp then Inl Panic
        else if fpage_is_complete fp then
          res_bind (tkop (\<lambda>tk. task_unmap tk 0 0xf0000000) cur s) (remap_user_utcb cur (t_task (sthr s cur)) [0..<Threads_max])
        else if \<not> fpage_is_nil fp then tkop (\<lambda>tk. task_unmap tk (fpage_addr fp) (fpage_size fp)) cur s
        else Inr s)"
    unfolding Cons.prems
    by (intro post_if) (simp_all add: only_tkop Cons.prems only_bind [OF only_tkop [OF Cons.prems] remap_only] del: post_simps(3))
  then show ?case unfolding unmap_fpages.simps by (rule only_bind) (rule Cons.IH, simp add: only_task_def Cons.prems)
qed simp

lemma only_exreg_deliver: "only_task n s (exreg_deliver cur d s)"
  unfolding exreg_deliver_def Let_def by (intro only_task_trans [OF _ only_frame] only_task_refl)

lemma only_if: "only_task n s s1 \<Longrightarrow> only_task n s1 s2 \<Longrightarrow> only_task n s (if b then s2 else s1)"
  using only_task_trans by auto

lemma only_exreg_set: "only_task n s (exreg_set control ip ip2 flags pager uhandle d p s)"
  unfolding exreg_set_def Let_def
  by (intro only_if only_supd only_task_refl) (simp_all add: utcb_upd_def set_flags_def set_exit_pc_def Let_def)

lemma only_exreg_do: "post (only_task n s) (exreg_do control ip ip2 flags pager uhandle cur dst d s)"
  unfolding exreg_do_def Let_def
  by (intro post_if post_bind_any post_option)
    (auto intro: only_task_trans [OF only_exreg_set only_frame])

lemma only_exchange: "post (only_task n s) (syscall_exchange_registers cur s)"
  unfolding syscall_exchange_registers_def Let_def
  by (rule only_step [OF only_frame [of _ _ cur 120 thrid_Nil]])
    (intro post_if post_bind_any post_option; simp add: only_exreg_do only_step [OF only_exreg_deliver only_exreg_do])

lemma only_switch: "post (only_task n s) (syscall_thread_switch cur s)"
proof -
  have "post (only_task n s) (kop switch_to_next s)" by (rule only_kop) (rule switch_to_next_task)
  then show ?thesis unfolding syscall_thread_switch_def Let_def by (intro post_if post_bind_any post_option) simp_all
qed

lemma only_schedule: "post (only_task n s) (syscall_schedule cur s)"
proof -
  have p: "post (only_task n s) (if b then kop (set_prio d v) s else Inr s)" for b d v s
    by (simp add: only_kop set_prio_task)
  have r: "post (only_task n s1) (if b then Inl Panic else res_bind (sched_state st) (\<lambda>r. Inr (frame_set cur 121 (-1) (frame_set cur 120 r s1))))"
    for s1 st b by (intro post_if post_bind_any) (simp_all add: only_task_trans [OF only_frame only_frame])
  show ?thesis unfolding syscall_schedule_def Let_def
    by (rule only_step [OF only_frame [of _ _ cur 120 0]], rule post_bind_any)
      (intro post_option post_if only_bind [OF p r]; simp)
qed

text \<open>
  C4. A thread that is neither sigma0 nor the root task and makes a system call other than IPC, with whatever arguments,
  changes no address space but its own, no other task's KIP and UTCB areas and no physical memory, makes and removes no task and
  moves no thread to another task. The call of the debugger that lists the threads is excluded: it stores through an
  unchecked pointer of the caller.
\<close>

theorem syscall_isolation:
  assumes "\<not> privileged (k_current (s_k s)) s" "frame_get (k_current (s_k s)) 113 s \<noteq> 7"
    and "\<not> (frame_get (k_current (s_k s)) 113 s = 13 \<and> kdb_writes (k_current (s_k s)) s)"
    and "kentry_syscall timer_irq clk s = Inr (c, s')"
  shows "only_task (t_task (sthr s (k_current (s_k s)))) s s'"
proof -
  let ?cur = "k_current (s_k s)"
  define s1 where "s1 = supd ?cur (\<lambda>x. x\<lparr>t_entry_type := Entry_type_syscall\<rparr>) s"
  define n where "n = t_task (sthr s ?cur)"
  have s1: "only_task n s s1" unfolding s1_def by (rule only_supd) simp
  have c1: "t_task (sthr s1 ?cur) = n" by (simp add: s1_def supd_def n_def)
  have p: "\<not> privileged ?cur (frame_set ?cur i v s1)" for i v
    using assms(1) by (simp add: privileged_def s1_def supd_def frame_set_def)
  have f: "frame_get ?cur i s1 = frame_get ?cur i s" for i by (simp add: frame_get_def s1_def supd_def)
  have "only_task n s1 (frame_set ?cur i v (supd ?cur (timeslice_update clk) s1))" for i v
    by (rule only_task_trans [OF only_supd only_frame]) (simp add: timeslice_update_def timeslice_spend_def)
  then have kdb: "post (only_task n s1) (syscall_kdb ?cur (supd ?cur (timeslice_update clk) s1))" by (simp add: syscall_kdb_def)
  have fr: "only_task n s1 (frame_set t i v (frame_set t j w s1))" for t i v j w
    by (rule only_task_trans [OF only_frame only_frame])
  have u: "post (only_task n s1) (unknown_syscall ?cur s1)"
    unfolding unknown_syscall_def by (intro post_if only_kop) (simp_all add: process_exception_task)
  have e: "only_task n s1 (utcb_error t e (frame_set t' i v s1))" for t t' e i v
    by (rule only_task_trans [OF only_frame only_error])
  have "post (\<lambda>r. only_task n s1 (snd r)) (ret m)" if "post (only_task n s1) m" for m
    using that by (auto simp: ret_def post_def)
  then have "post (\<lambda>r. only_task n s1 (snd r)) (kentry_syscall timer_irq clk s)"
    using assms(2)
    unfolding kentry_syscall_def Let_def s1_def [symmetric] f syscall_thread_control_def syscall_space_control_def
      syscall_memory_control_def syscall_unmap_def
    by (intro post_if) (simp_all add: only_exchange only_switch only_schedule unmap_only [OF c1] kdb fr u e p)
  then show ?thesis using s1 assms(4) by (auto simp: post_def n_def intro: only_task_trans)
qed

section \<open>Interrupts\<close>

lemma find_thr_entry: "find_thr (s_k (supd t (\<lambda>x. x\<lparr>t_entry_type := e\<rparr>) s)) i = find_thr (s_k s) i"
  unfolding supd_def by (simp, rule find_thr_same) simp_all

text \<open>The thread waits for a message that an interrupt of this line may be.\<close>

definition takes_irq :: "sys \<Rightarrow> nat \<Rightarrow> nat \<Rightarrow> bool" where
  "takes_irq s irq t \<longleftrightarrow> t_state (sthr s t) = Receive_ipc
     \<and> (thrid_is_any (t_from_spec (sthr s t)) \<or> t_from_spec (sthr s t) = create_irq (of_nat irq))"

text \<open>
  C5. A device interrupt is not lost. The line is one of the controller's and not the timer's, and it has a handler, a living thread; if
  the handler waits, it waits for some sender, and its lent priority is booked consistently. Then the entry for the interrupt returns, with
  the lists of the scheduler consistent. The line is no longer pending and is masked, so that it cannot come again before its handler asks for
  it, and no other line is touched. A handler that waits for it or for anyone is ready and has the interrupt as the
  sender of its message; nothing else of its message is written, so its message tag is the old one. Otherwise the interrupt is noted as pending, and
  no thread changes but for the note of how the kernel was entered.
\<close>

theorem irq_not_lost:
  assumes inv: "sched_inv (s_k s)" and irq: "intc_valid (s_intc s) irq" "irq \<noteq> timer_irq" "irq < length (k_ints (s_k s))"
    and h: "\<not> thrid_is_nil (i_handler (k_ints (s_k s) ! irq))" "find_thr (s_k s) (i_handler (k_ints (s_k s) ! irq)) = Inr (Some dst)"
    and w: "t_state (sthr s dst) = Receive_ipc \<Longrightarrow> t_from_spec (sthr s dst) \<noteq> thrid_Nil \<and> heir_ok (s_k s) dst"
    and fr: "120 < length (t_frame (sthr s dst))"
  shows "\<exists>s'. kentry_irq timer_irq clk irq s = Inr (C_exit, s') \<and> sched_inv (s_k s')
    \<and> (\<forall>n. bit (ic_mask (s_intc s')) n \<longleftrightarrow> n \<noteq> irq \<and> bit (ic_mask (s_intc s)) n)
    \<and> (\<forall>n. bit (ic_pending (s_intc s')) n \<longleftrightarrow> n \<noteq> irq \<and> bit (ic_pending (s_intc s)) n)
    \<and> (if takes_irq s irq dst
       then t_state (sthr s' dst) = Ready \<and> t_frame (sthr s' dst) = (t_frame (sthr s dst))[120 := create_irq (of_nat irq)]
         \<and> t_frame (sthr s' dst) ! 120 = create_irq (of_nat irq) \<and> t_utcb (sthr s' dst) = t_utcb (sthr s dst)
       else i_pending (k_ints (s_k s') ! irq)
         \<and> s_k s' = (thr_upd (k_current (s_k s)) (\<lambda>x. x\<lparr>t_entry_type := Entry_type_irq\<rparr>) (s_k s))\<lparr>k_ints :=
             (k_ints (s_k s))[irq := (k_ints (s_k s) ! irq)\<lparr>i_pending := True\<rparr>]\<rparr>)"
proof -
  let ?ent = "\<lambda>x. x\<lparr>t_entry_type := Entry_type_irq\<rparr>" and ?from = "create_irq (of_nat irq)"
  define k1 where "k1 = thr_upd (k_current (s_k s)) ?ent (s_k s)"
  define ic where "ic = (s_intc s)\<lparr>ic_pending := ic_pending (s_intc s) AND NOT (push_bit irq 1), ic_mask := ic_mask (s_intc s) AND NOT (push_bit irq 1)\<rparr>"
  define s1 where "s1 = s\<lparr>s_k := k1, s_intc := ic\<rparr>"
  have same: "sched_same (?ent x) x" "sched_same (scall_ipc_from ?from x) x" for x by (simp_all add: sched_same_def scall_ipc_from_def)
  have k1: "sched_inv k1" "k_ints k1 = k_ints (s_k s)" "heir_ok k1 t = heir_ok (s_k s) t" "find_thr k1 g = find_thr (s_k s) g"
    "t_state (k_thr k1 t) = t_state (sthr s t)" "t_from_spec (k_thr k1 t) = t_from_spec (sthr s t)" "t_frame (k_thr k1 t) = t_frame (sthr s t)"
    "t_utcb (k_thr k1 t) = t_utcb (sthr s t)" for t g
    using sched_inv_same [where f = ?ent, OF inv same(1)] heirs_same(1) [where f = ?ent, OF same(1)] find_thr_entry [of _ _ s]
    by (simp_all add: k1_def supd_def)
  have v: "intc_valid (s_intc s\<lparr>ic_pending := p\<rparr>) irq" for p using irq(1) by (simp add: intc_valid_def irqmax_def)
  have b: "irq < 32" by (rule intc_valid_bound [OF irq(1)])
  then have bits: "bit (ic_mask ic) n \<longleftrightarrow> n \<noteq> irq \<and> bit (ic_mask (s_intc s)) n" "bit (ic_pending ic) n \<longleftrightarrow> n \<noteq> irq \<and> bit (ic_pending (s_intc s)) n" for n
    using bit_imp_le_length [of "ic_mask (s_intc s)" n] bit_imp_le_length [of "ic_pending (s_intc s)" n]
    by (auto simp: ic_def bit_and_iff bit_not_iff bit_exp_iff)
  let ?run = "if takes_irq s irq dst
    then res_bind (kop (set_state dst Ready) (supd dst (scall_ipc_from ?from) s1)) (\<lambda>s2.
      Inr (C_exit, if prio_max (sthr s2 dst) > prio_max (sthr s2 (k_current (s_k s2))) then s2\<lparr>s_k := switch_to dst (s_k s2)\<rparr> else s2))
    else Inr (C_exit, int_upd irq (\<lambda>x. x\<lparr>i_pending := True\<rparr>) s1)"
  have good: "(if t_state (sthr s1 dst) = Receive_ipc then is_irq_acceptable (s_k s1) dst irq else Inr False) = Inr (takes_irq s irq dst)"
    using w by (simp add: s1_def k1 takes_irq_def is_irq_acceptable_def Let_def)
  have start: "icop (intc_clear irq) (supd (k_current (s_k s)) ?ent s) = Inr (s\<lparr>s_k := k1, s_intc := (s_intc s)\<lparr>ic_pending := ic_pending ic\<rparr>\<rparr>)"
    "icop (intc_mask irq) (s\<lparr>s_k := k1, s_intc := (s_intc s)\<lparr>ic_pending := ic_pending ic\<rparr>\<rparr>) = Inr s1"
    using irq(1) v by (simp_all add: icop_def intc_clear_def intc_mask_def supd_def k1_def ic_def s1_def)
  have "thrid_int irq = Inr ?from" using b by (simp add: thrid_int_def Ints_max_def)
  then have run: "kentry_irq timer_irq clk irq s = ?run"
    unfolding kentry_irq_def start Let_def using irq(2,3) h good
    by (simp add: start(2)) (simp add: s1_def k1)
  show ?thesis
  proof (cases "takes_irq s irq dst")
    case False
    let ?s' = "int_upd irq (\<lambda>x. x\<lparr>i_pending := True\<rparr>) s1"
    have k': "s_k ?s' = k1\<lparr>k_ints := (k_ints (s_k s))[irq := (k_ints (s_k s) ! irq)\<lparr>i_pending := True\<rparr>]\<rparr>" "s_intc ?s' = ic"
      by (simp_all add: int_upd_def s1_def k1(2))
    have "sched_inv (s_k ?s')" unfolding k' using k1(1) by (auto intro: sched_inv_rest)
    moreover have "i_pending (k_ints (s_k ?s') ! irq)" using irq(3) by (simp add: k')
    ultimately show ?thesis unfolding run if_not_P [OF False] using bits
      by (intro exI [of _ ?s'] conjI) (simp_all only: k' k1_def refl simp_thms)
  next
    case True
    let ?k = "thr_upd dst (scall_ipc_from ?from) k1"
    have st: "t_state (sthr s dst) = Receive_ipc" using True by (simp add: takes_irq_def)
    have inv2: "sched_inv ?k" by (rule sched_inv_same [OF k1(1)]) (rule same(2))
    have "heir_ok ?k dst" using heirs_same(1) [where f = "scall_ipc_from ?from", OF same(2)] w [OF st] k1(3) by simp
    moreover have "t_state (k_thr ?k dst) \<noteq> Ready" using st by (simp add: k1 scall_ipc_from_def)
    ultimately obtain k2 where k2: "set_state dst Ready ?k = Inr k2" "sched_inv k2"
      "k_thr k2 dst = (enter_thread ((k_thr ?k dst)\<lparr>t_state := Ready\<rparr>))\<lparr>t_prio_heir := thrid_Nil\<rparr>"
      using set_state_ok [OF inv2 find_thr_less [OF h(2)]] by blast
    let ?s2 = "s1\<lparr>s_k := k2\<rparr>"
    let ?s' = "if prio_max (sthr ?s2 dst) > prio_max (sthr ?s2 (k_current (s_k ?s2))) then ?s2\<lparr>s_k := switch_to dst (s_k ?s2)\<rparr> else ?s2"
    have "kentry_irq timer_irq clk irq s = Inr (C_exit, ?s')"
      using run True k2(1) by (simp add: kop_def supd_def s1_def)
    moreover have "s_intc ?s' = ic" by (simp add: s1_def)
    moreover have "sched_inv (s_k ?s')" using k2(2) switch_to_inv by simp
    moreover have "t_state (sthr ?s' dst) = Ready" "t_frame (sthr ?s' dst) = (t_frame (sthr s dst))[120 := ?from]"
      "t_utcb (sthr ?s' dst) = t_utcb (sthr s dst)"
      by (simp_all add: k2(3) k1 enter_thread_def clear_ipc_def scall_ipc_from_def switch_to_def timeslice_start_def timeslice_stop_def timeslice_spend_def Let_def)
    ultimately show ?thesis unfolding if_P [OF True] using bits fr by (intro exI [of _ ?s'] conjI) (simp_all only: nth_list_update_eq simp_thms)
  qed
qed

section \<open>A receiver that runs the wrong thread\<close>

text \<open>
  C9. A pager that takes the page fault of a more urgent thread out of the queue switches to that
  thread at the end of its own call, although the fault has not been answered: the thread waits
  in \<open>Receive_pfault\<close>, is in no ready queue, and is the current thread.
\<close>

theorem pager_runs_faulting_thread:
  assumes inv: "sched_inv (s_k s)" and t: "t < Threads_max" "t \<noteq> cur" "thrid_is_nil (t_prio_heir (sthr s t))"
    and rcv: "\<not> thrid_is_nil (l_from l)" "\<not> thrid_is_int (l_from l)" "l_from l \<noteq> t_glob_id (sthr s cur)"
      "\<not> tag_failed (utcb_msgtag (t_utcb (sthr s cur)))" "l_snd l = None"
    and snd: "find_sender (s_k s) cur (l_from l) = Inr (Some t, p, u)" "t_state (sthr s t) = Send_pfault"
    and prio: "t_state (sthr s cur) = Ready" "unat (t_prio (sthr s cur)) = prio_max (sthr s cur)" "prio_max (sthr s cur) < prio_max (sthr s t)"
  shows "\<exists>s'. run_receive cur l s = Inr (C_exit, s') \<and> k_current (s_k s') = t \<and> t_state (sthr s' t) = Receive_pfault
    \<and> (\<forall>q. t \<notin> set (k_ready (s_k s') q))"
proof -
  obtain k1 where k1: "do_pfault_ipc (s_stale s) t cur (t_pf_addr (sthr s t)) (t_pf_access (sthr s t)) (t_pf_inst (sthr s t)) (s_k s) = Inr k1"
    using t(2) by (cases "t_pf_access (sthr s t) = 8") (simp_all add: do_pfault_ipc_def)
  obtain f where f: "k1 = thr_upd cur f (s_k s)" "\<And>x. f x = x\<lparr>t_utcb := t_utcb (f x), t_frame := t_frame (f x)\<rparr>"
    using k1 by (auto simp: do_pfault_ipc_def Let_def utcb_upd_def scall_ipc_from_def split: prod.splits)
  have same: "sched_same (f x) x" "t_prio (f x) = t_prio x" "t_state (f x) = t_state x" "t_inherited (f x) = t_inherited x" for x
    by (subst f(2), simp add: sched_same_def)+
  have inv1: "sched_inv k1" unfolding f(1) by (rule sched_inv_same [OF inv]) (rule same(1))
  have "k_thr k1 t = sthr s t" using t(2) by (simp add: f(1))
  then have "heir_ok k1 t" "t_state (k_thr k1 t) \<noteq> Receive_pfault" using t(3) snd(2) by (simp_all add: heir_ok_def)
  from set_state_ok [OF inv1 t(1) this(2,1)]
  obtain k2 where k2: "set_state t Receive_pfault k1 = Inr k2" "sched_inv k2" "others_kept t k1 k2"
    "k_thr k2 t = (enter_thread ((k_thr k1 t)\<lparr>t_state := Receive_pfault\<rparr>))\<lparr>t_prio_heir := thrid_Nil\<rparr>" by blast
  have "\<not> is_heir k1 t cur" using t(2,3) by (simp add: is_heir_def f(1))
  then have c2: "k_thr k2 cur = f (sthr s cur)" using k2(3) t(2) by (auto simp: others_kept_def f(1))
  have p2: "prio_max (k_thr k2 cur) = prio_max (sthr s cur)" "prio_max (k_thr k2 t) = prio_max (sthr s t)"
    unfolding k2(4) c2 using t(2) by (simp_all add: prio_max_def same enter_thread_def f(1))
  have "receive_message cur l s = Inr (P_go (l\<lparr>l_rcv := Some t\<rparr>) (s\<lparr>s_k := k2\<rparr>))"
    using snd k1 k2(1) by (simp add: receive_message_def Let_def kop_def)
  then have "receive_phase cur l s = Inr (P_go (l\<lparr>l_rcv := Some t\<rparr>) (s\<lparr>s_k := k2\<rparr>))"
    using rcv by (simp add: receive_phase_def)
  moreover have "ipc_end cur (l\<lparr>l_rcv := Some t\<rparr>) (s\<lparr>s_k := k2\<rparr>) = Inr (s\<lparr>s_k := switch_to t k2\<rparr>)"
    using prio p2 rcv(5) by (simp add: ipc_end_def Let_def c2 same)
  moreover have "k_current (switch_to t k2) = t" by (simp add: switch_to_def Let_def)
  moreover have "t_state (k_thr k2 t) = Receive_pfault" by (simp add: k2(4) enter_thread_def)
  moreover from this have "t \<notin> set (k_ready k2 q)" for q
    using lists_invD(2) [of "{}" k2 "L_ready q"] k2(2) by (auto simp: sched_inv_def list_of_def)
  moreover have "k_ready (switch_to t k2) = k_ready k2" by (simp add: switch_to_def Let_def)
  ultimately show ?thesis by (auto simp: run_receive_def run_end_def switch_to_fields)
qed

section \<open>Concrete states\<close>

text \<open>Thread 3 waits for a message from anybody; thread 4 has two words for it.\<close>

definition pair_kernel :: kernel where
  "pair_kernel = thr_upd 3 (\<lambda>x. x\<lparr>t_state := Receive_ipc, t_timeout := Timeout_never, t_from_spec := -1\<rparr>)
     (thr_upd 4 (\<lambda>x. x\<lparr>t_utcb := (t_utcb x)\<lparr>u_mr := (u_mr (t_utcb x))[0 := 2, 1 := 11, 2 := 22]\<rparr>\<rparr>) kernel_new)"

definition pair_sys :: sys where "pair_sys = tiny_sys\<lparr>s_k := pair_kernel\<rparr>"

definition pair_loc :: ipc_loc where
  "pair_loc = \<lparr>l_to = 0, l_from = 0, l_tmo = 0, l_tag = 2, l_snd = None, l_rcv = None\<rparr>"

lemma pair_sched: "sched_inv pair_kernel"
proof -
  have "sched_inv (thr_upd 4 (\<lambda>x. x\<lparr>t_utcb := (t_utcb x)\<lparr>u_mr := (u_mr (t_utcb x))[0 := 2, 1 := 11, 2 := 22]\<rparr>\<rparr>) kernel_new)"
    by (rule sched_inv_same [OF kernel_new_inv]) (simp add: sched_same_def)
  then show ?thesis unfolding pair_kernel_def
    unfolding sched_inv_def
    by (auto intro!: lists_inv_thr_upd order_inv_thr_upd simp: kernel_new_def thread_new_def list_of_def)
qed

theorem send_delivers_witness:
  "\<exists>s'. send_message 4 pair_loc 3 pair_sys = Inr (P_go (pair_loc\<lparr>l_snd := Some 3\<rparr>) s')
    \<and> received (t_utcb (sthr pair_sys 4)) (t_utcb (sthr pair_sys 3)) (t_utcb (sthr s' 3)) \<and> t_state (sthr s' 3) = Ready"
proof -
  have f: "s_k pair_sys = pair_kernel" "sthr pair_sys 3 = (thread_new 3)\<lparr>t_state := Receive_ipc, t_timeout := Timeout_never, t_from_spec := -1\<rparr>"
    "l_tag pair_loc = 2" by (simp_all add: pair_sys_def pair_kernel_def kernel_new_def pair_loc_def)
  have "utcb_msgtag (t_utcb (sthr pair_sys 4)) = 2"
    by (simp add: pair_sys_def pair_kernel_def kernel_new_def thread_new_def utcb_msgtag_def utcb_zero_def)
  then show ?thesis
    using send_delivers [of pair_sys 4 3 pair_loc] pair_sched f
    by (auto simp: heir_ok_def thread_new_def thrid_is_nil_def thrid_is_any_def thrid_Any_def thrid_Nil_def tag_propagated_def tag_typed_def bf_get_def)
qed


text \<open>Thread 4 calls a thread that does not exist.\<close>

definition absent_id :: thrid where "absent_id = 0x320002"

definition absent_sys :: sys where "absent_sys = frame_set 4 120 absent_id pair_sys"

lemma absent_id_facts:
  "\<not> thrid_is_nil absent_id" "\<not> thrid_is_int absent_id" "thrid_is_global absent_id" "unat (thrid_number absent_id) = 200"
  by code_simp+

theorem send_fails_witness:
  "\<exists>u. do_ipc 4 absent_sys = Inr (C_exit, supd 4 (\<lambda>x. x\<lparr>t_utcb := u\<rparr>) absent_sys) \<and> tag_failed (utcb_msgtag u)
    \<and> ipcerr_error (u_error u) = L4_ipc_no_partner"
proof -
  have "scall_ipc_to (sthr absent_sys 4) = absent_id" "t_state (sthr absent_sys 72) = Idle" "u_mr (t_utcb (sthr absent_sys 4)) \<noteq> []"
    by (simp_all add: absent_sys_def frame_set_def supd_def scall_ipc_to_def pair_sys_def pair_kernel_def kernel_new_def thread_new_def utcb_zero_def)
  then have "send_error 4 absent_sys = Some L4_ipc_no_partner" "u_mr (t_utcb (sthr absent_sys 4)) \<noteq> []"
    by (simp_all add: send_error_def Let_def absent_id_facts find_thr_def find_num_def kcfg)
  then show ?thesis using send_fails by blast
qed


text \<open>Thread 3 runs at priority 5; thread 4, of priority 9, has a page fault for it in the queue.\<close>

definition Id3 :: thrid where "Id3 = 0x20C002"
definition Id4 :: thrid where "Id4 = 0x210002"

definition fault_base :: kernel where
  "fault_base = thr_upd 4 (\<lambda>x. x\<lparr>t_glob_id := Id4, t_prio := 9, t_to := Id3\<rparr>)
     (thr_upd 3 (\<lambda>x. x\<lparr>t_glob_id := Id3, t_prio := 5\<rparr>) kernel_new)"

definition fault_ready :: kernel where
  "fault_ready = (thr_upd 3 (\<lambda>x. clear_ipc (x\<lparr>t_state := Ready\<rparr>)) fault_base)\<lparr>k_ready := (\<lambda>_. [])(5 := [3]),
     k_bits := (replicate 8 0)[0 := push_bit 5 1]\<rparr>"

definition fault_kernel :: kernel where
  "fault_kernel = (thr_upd 4 (\<lambda>x. x\<lparr>t_state := Send_pfault\<rparr>) fault_ready)\<lparr>k_send := [4], k_current := 3\<rparr>"

lemma fault_sched: "sched_inv fault_kernel"
proof -
  have "sched_inv fault_base" unfolding fault_base_def sched_inv_def
    using kernel_new_inv by (auto intro!: lists_inv_thr_upd order_inv_thr_upd simp: sched_inv_def kernel_new_def thread_new_def list_of_def)
  moreover have "set_state 3 Ready fault_base = Inr fault_ready"
    by (simp add: set_state_def leave_list_def enter_list_def drop_heir_def add_ready_def q_push_def Let_def fault_base_def fault_ready_def
        kernel_new_def thread_new_def thrid_is_nil_def clear_ipc_def thr_upd_def)
  ultimately have "sched_inv fault_ready" using set_state_inv [of 3 Ready] by simp
  moreover have "set_state 4 Send_pfault fault_ready = Inr (fault_kernel\<lparr>k_current := 0\<rparr>)"
    by (simp add: set_state_def leave_list_def enter_list_def drop_heir_def add_send_def q_push_def Let_def fault_base_def fault_ready_def
        fault_kernel_def kernel_new_def thread_new_def thrid_is_nil_def clear_ipc_def thr_upd_def)
  ultimately have "sched_inv (fault_kernel\<lparr>k_current := 0\<rparr>)" using set_state_inv [of 4 Send_pfault] by simp
  moreover have "members (fault_kernel\<lparr>k_current := 0\<rparr>) l = members fault_kernel l" for l by (cases l) simp_all
  ultimately show ?thesis by (simp add: sched_inv_def lists_inv_def bits_inv_def order_inv_def)
qed

definition fault_sys :: sys where "fault_sys = tiny_sys\<lparr>s_k := fault_kernel\<rparr>"

lemma ids: "\<not> thrid_is_nil Id3" "\<not> thrid_is_any Id3" "\<not> thrid_is_any_local Id3" "thrid_Any \<noteq> Id3" "\<not> thrid_is_nil thrid_Any"
  "thrid_version thrid_Any \<noteq> 1" "thrid_is_any thrid_Any"
  "255 < thrid_number thrid_Any" "\<not> thrid_is_local thrid_Any"
  by code_simp+

lemma fault_threads:
  "k_thr fault_kernel 3 = clear_ipc ((thread_new 3)\<lparr>t_glob_id := Id3, t_prio := 5, t_state := Ready\<rparr>)"
  "k_thr fault_kernel 4 = (thread_new 4)\<lparr>t_glob_id := Id4, t_prio := 9, t_to := Id3, t_state := Send_pfault\<rparr>"
  "k_send fault_kernel = [4]" "k_snd_wait fault_kernel = []"
  by (simp_all add: fault_kernel_def fault_ready_def fault_base_def kernel_new_def)

lemma fault_find_thr: "find_thr fault_kernel thrid_Any = Inr None"
  using ids(8,9) by (simp add: find_thr_def find_num_def kcfg word_less_nat_alt)

lemma fault_find: "find_sender fault_kernel 3 thrid_Any = Inr (Some 4, False, True)"
proof -
  have tag: "\<not> tag_propagated (utcb_msgtag utcb_zero)" by code_simp
  have "is_good_sender_of fault_kernel 3 thrid_Any 4 (False, False) = Inr (True, False, thrid_is_any_local thrid_Any \<or> thrid_Any = t_localid (thread_new 4))"
    using ids tag by (simp add: is_good_sender_of_def Let_def fault_threads thread_new_def clear_ipc_def is_snd_state_def t_localid_def)
  then show ?thesis using fault_find_thr
    by (simp add: t_localid_def thread_new_def thrid_Any_def find_sender_def find_highest_prio_sender_def fault_threads)
qed

theorem find_sender_highest_witness:
  "best fault_kernel 3 thrid_Any {t. t < Threads_max \<and> is_snd_state (t_state (k_thr fault_kernel t))} (Some 4)"
  by (rule find_sender_highest [OF fault_sched fault_find_thr fault_find])

definition any_loc :: ipc_loc where
  "any_loc = \<lparr>l_to = 0, l_from = thrid_Any, l_tmo = 0, l_tag = 0, l_snd = None, l_rcv = None\<rparr>"

theorem pager_runs_faulting_thread_witness:
  "\<exists>s'. run_receive 3 any_loc fault_sys = Inr (C_exit, s') \<and> k_current (s_k s') = 4 \<and> t_state (sthr s' 4) = Receive_pfault"
proof -
  have f: "s_k fault_sys = fault_kernel" "l_from any_loc = thrid_Any" "l_snd any_loc = None" by (simp_all add: fault_sys_def any_loc_def)
  have "\<not> tag_failed (utcb_msgtag utcb_zero)" by code_simp
  then show ?thesis
    using pager_runs_faulting_thread [of fault_sys 4 3 any_loc False True] fault_sched fault_find ids
    unfolding f by (auto simp: fault_threads thread_new_def clear_ipc_def prio_max_def thrid_is_nil_def thrid_is_int_def)
qed

text \<open>Thread 3 of task 2 unmaps all the memory it has, one region of 16 MB.\<close>

definition big_fpage :: fpage where "big_fpage = 0x11000187"

lemma big_fpage_fields: "fpage_addr big_fpage = 0x11000000" "fpage_size big_fpage = 0x1000000" "\<not> fpage_is_io big_fpage"
  "\<not> fpage_is_complete big_fpage" "\<not> fpage_is_nil big_fpage"
  by code_simp+

definition iso_sys :: sys where
  "iso_sys = tiny_sys\<lparr>s_k := thr_upd 3 (\<lambda>x. x\<lparr>t_glob_id := Id3, t_task := 2, t_frame := (replicate 132 0)[113 := 9],
     t_utcb := utcb_zero\<lparr>u_mr := big_fpage # replicate 255 0\<rparr>\<rparr>) (kernel_new\<lparr>k_current := 3\<rparr>)\<rparr>"

lemma one_space_unmap: "\<exists>root. as_unmap one_space 0x11000000 0x1000000 = Inr \<lparr>as_root = root, as_uspace = [], as_id = 1\<rparr>"
proof -
  have "rg_free Aspace_regions (as_uspace one_space) 0x11000000 0x1000000 = Inr []" by code_simp
  moreover have "\<exists>root. pt_unmap Sparc_levels one_region 0x11000000 0x1000000 = Inr root"
    by (simp add: Sparc_levels_def one_region_def unmap_loop.simps cell_index_def pg_aligned_def Cfg_page_sz_def Table_sz_def Let_def)
  ultimately show ?thesis by (auto simp: as_unmap_def one_space_def page_aligned_def is_aligned_def)
qed

theorem syscall_isolation_witness:
  "\<exists>c s'. kentry_syscall 8 0 iso_sys = Inr (c, s') \<and> only_task 2 iso_sys s' \<and> s_task s' 1 = one_task
     \<and> as_uspace (tk_aspace (s_task iso_sys 2)) \<noteq> [] \<and> as_uspace (tk_aspace (s_task s' 2)) = []"
proof -
  have k: "k_current (s_k iso_sys) = 3" "t_task (sthr iso_sys 3) = 2" "t_glob_id (sthr iso_sys 3) = Id3" "s_task iso_sys n = one_task"
    "t_frame (sthr iso_sys 3) = (replicate 132 0)[113 := 9]" "u_mr (t_utcb (sthr iso_sys 3)) = big_fpage # replicate 255 0" for n
    by (simp_all add: iso_sys_def tiny_sys_def)
  have "Id3 \<noteq> thrid_sigma0" "Id3 \<noteq> thrid_roottask" by code_simp+
  then have p: "\<not> privileged 3 iso_sys" "frame_get 3 113 iso_sys = 9" "frame_get 3 120 iso_sys = 0" by (simp_all add: privileged_def k frame_get_def)
  obtain root where u: "as_unmap one_space 0x11000000 0x1000000 = Inr \<lparr>as_root = root, as_uspace = [], as_id = 1\<rparr>" using one_space_unmap by blast
  let ?s1 = "supd 3 (\<lambda>x. x\<lparr>t_entry_type := Entry_type_syscall\<rparr>) iso_sys"
  have "syscall_unmap 3 ?s1 = Inr (?s1\<lparr>s_task := (s_task iso_sys)(2 := one_task\<lparr>tk_aspace := \<lparr>as_root = root, as_uspace = [], as_id = 1\<rparr>\<rparr>)\<rparr>)"
    using u p(3) by (simp add: syscall_unmap_def supd_def k frame_get_def big_fpage_fields tkop_def thr_task_def task_unmap_def one_task_def)
  then obtain c s' where c: "kentry_syscall 8 0 iso_sys = Inr (c, s')" "as_uspace (tk_aspace (s_task s' 2)) = []"
    using p(2) by (simp add: kentry_syscall_def Let_def k(1) frame_get_def supd_def ret_def)
  have "only_task 2 iso_sys s'" using syscall_isolation [of iso_sys 8 0 c s'] p c(1) unfolding k by simp
  moreover have "as_uspace (tk_aspace (s_task iso_sys 2)) \<noteq> []" by (simp add: k one_task_def one_space_def)
  ultimately show ?thesis using c k(4) [of 1] by (auto simp: only_task_def)
qed

text \<open>
  Interrupt 5 with thread 3 as its handler: one that runs and does not wait, and one that waits for a message from anyone.
\<close>

definition irq_sys :: "thread \<Rightarrow> sys" where
  "irq_sys th = tiny_sys\<lparr>s_k := (thr_upd 3 (\<lambda>_. th) kernel_new)\<lparr>k_ints := (k_ints kernel_new)[5 := \<lparr>i_globid = 0, i_handler = Id3, i_pending = False\<rparr>]\<rparr>,
     s_intc := \<lparr>ic_pending = 0x20, ic_mask = 0x20, ic_eirq = 0, ic_eack = 0\<rparr>\<rparr>"

definition handler :: "tstate \<Rightarrow> thread" where
  "handler st = (thread_new 3)\<lparr>t_state := st, t_timeout := Timeout_never, t_from_spec := thrid_Any\<rparr>"

lemma id3_num: "thrid_is_global Id3" "unat (thrid_number Id3) = 131"
  by code_simp+

lemma irq_sys_facts:
  assumes "st \<in> {Active, Receive_ipc}"
  shows "sched_inv (s_k (irq_sys (handler st)))" "intc_valid (s_intc (irq_sys (handler st))) 5" "k_ints (s_k (irq_sys (handler st))) ! 5 =
      \<lparr>i_globid = 0, i_handler = Id3, i_pending = False\<rparr>" "5 < length (k_ints (s_k (irq_sys (handler st))))"
    "sthr (irq_sys (handler st)) 3 = handler st" "find_thr (s_k (irq_sys (handler st))) Id3 = Inr (Some 3)"
proof -
  show "intc_valid (s_intc (irq_sys (handler st))) 5" by (simp add: irq_sys_def intc_valid_def irqmax_def Irq_min_def Irq_max_def)
  show "k_ints (s_k (irq_sys (handler st))) ! 5 = \<lparr>i_globid = 0, i_handler = Id3, i_pending = False\<rparr>" "5 < length (k_ints (s_k (irq_sys (handler st))))"
    by (simp_all add: irq_sys_def kernel_new_def kcfg)
  show t: "sthr (irq_sys (handler st)) 3 = handler st" by (simp add: irq_sys_def)
  show "find_thr (s_k (irq_sys (handler st))) Id3 = Inr (Some 3)"
    using t assms by (auto simp: find_thr_def id3_num find_num_def kcfg handler_def)
  have "sched_inv (thr_upd 3 (\<lambda>_. handler st) kernel_new)" using kernel_new_inv assms
    by (auto intro!: lists_inv_thr_upd order_inv_thr_upd simp: sched_inv_def kernel_new_def thread_new_def list_of_def handler_def)
  then show "sched_inv (s_k (irq_sys (handler st)))" unfolding irq_sys_def by (auto intro: sched_inv_rest)
qed

theorem irq_not_lost_witness:
  "(\<exists>s'. kentry_irq 8 0 5 (irq_sys (handler Active)) = Inr (C_exit, s') \<and> \<not> bit (ic_mask (s_intc s')) 5 \<and> i_pending (k_ints (s_k s') ! 5))
   \<and> (\<exists>s'. kentry_irq 8 0 5 (irq_sys (handler Receive_ipc)) = Inr (C_exit, s') \<and> \<not> bit (ic_mask (s_intc s')) 5
     \<and> t_state (sthr s' 3) = Ready \<and> t_frame (sthr s' 3) ! 120 = create_irq 5)"
proof
  have n: "thrid_Any \<noteq> thrid_Nil" using ids(5) by (auto simp: thrid_is_nil_def)
  have f: "120 < length (t_frame (handler st))" "heir_ok k 3" if "k_thr k 3 = handler st" for st k
    using that by (simp_all add: handler_def thread_new_def heir_ok_def thrid_is_nil_def)
  note T = irq_not_lost [where timer_irq = 8 and irq = 5 and dst = 3 and clk = 0]
  note A = irq_sys_facts [of Active, simplified] and R = irq_sys_facts [of Receive_ipc, simplified]
  have "\<not> takes_irq (irq_sys (handler Active)) 5 3" by (simp add: takes_irq_def A(5)) (simp add: handler_def)
  then show "\<exists>s'. kentry_irq 8 0 5 (irq_sys (handler Active)) = Inr (C_exit, s') \<and> \<not> bit (ic_mask (s_intc s')) 5 \<and> i_pending (k_ints (s_k s') ! 5)"
    using T [OF A(1,2) _ A(4)] A(3,5,6) ids(1) f by (auto simp: handler_def)
  have "takes_irq (irq_sys (handler Receive_ipc)) 5 3" using ids(7) by (simp add: takes_irq_def R(5)) (simp add: handler_def)
  then show "\<exists>s'. kentry_irq 8 0 5 (irq_sys (handler Receive_ipc)) = Inr (C_exit, s') \<and> \<not> bit (ic_mask (s_intc s')) 5
     \<and> t_state (sthr s' 3) = Ready \<and> t_frame (sthr s' 3) ! 120 = create_irq 5"
    using T [OF R(1,2) _ R(4)] R(3,5,6) ids(1) f n by (auto simp: handler_def)
qed

end
