(* ===== verification/Ipc_Map.thy ===== *)
theory Ipc_Map
  imports Ipc_Props
begin

text \<open>
  What a message moves besides its words: memory that a map item gives to the receiver, and the bytes
  of a string item, copied through physical addresses by words or by bytes.
\<close>

section \<open>Map items\<close>

definition fpage_sound :: "fpage \<Rightarrow> bool" where
  "fpage_sound fp \<longleftrightarrow> \<not> fpage_is_nil fp \<and> page_aligned (fpage_addr fp) \<and> page_aligned (fpage_size fp) \<and> fpage_addr fp \<noteq> 0
     \<and> fpage_size fp \<noteq> 0 \<and> unat (fpage_addr fp) + unat (fpage_size fp) < 2 ^ 32"

text \<open>Where the receiver wants the memory: at the same place, or in the window it names.\<close>

definition item_va :: "fpage \<Rightarrow> fpage \<Rightarrow> u32" where
  "item_va acceptor fp = (if fpage_is_complete acceptor then fpage_addr fp else fpage_addr acceptor)"

lemma mr_set_frame:
  "mr_set t i v s = Inr s' \<Longrightarrow> s_task s' = s_task s \<and> (\<forall>u. t_task (sthr s' u) = t_task (sthr s u))"
  by (auto simp: mr_set_def supd_def utcb_upd_def split: if_splits)

lemma tkop_mr: "tkop f t s = Inr s' \<Longrightarrow> mr_get u i s' = mr_get u i s"
  by (auto simp: tkop_def mr_get_def)

lemma do_map_item_cases:
  assumes "do_map_item again sndr rcv it s = Inr (I_next it' s')"
    and "map_item_words sndr it s = Inr (w0, fp)" "mr_get sndr (it_i it) s = Inr g" "\<not> titem_is_grant g" "\<not> fpage_is_nil fp"
  obtains pa tk where "as_cached (tk_aspace (thr_task s sndr)) fp \<ge> 0"
    "as_walk (tk_aspace (thr_task s sndr)) (fpage_addr fp) (fpage_size fp) = Inr pa"
    "task_map (thr_task s rcv) (item_va (utcb_acceptor (t_utcb (sthr s rcv))) fp) pa (fpage_size fp) (uacc2acc (fpage_access fp))
       (as_cached (tk_aspace (thr_task s sndr)) fp \<noteq> 0) = Inr tk"
    "s_task s' = (s_task s)(t_task (sthr s rcv) := tk)" "t_task (sthr s' rcv) = t_task (sthr s rcv)"
proof -
  let ?c = "as_cached (tk_aspace (thr_task s sndr)) fp" and ?a = "utcb_acceptor (t_utcb (sthr s rcv))"
  have c: "\<not> ?c < 0" "\<not> fpage_is_complete fp" "\<not> fpage_is_io fp"
    using assms by (auto simp: do_map_item_def Let_def split: if_splits)
  obtain pa where w: "as_walk (tk_aspace (thr_task s sndr)) (fpage_addr fp) (fpage_size fp) = Inr pa"
    using assms c by (cases "as_walk (tk_aspace (thr_task s sndr)) (fpage_addr fp) (fpage_size fp)") (simp_all add: do_map_item_def Let_def)
  obtain r0 r1 s1 s2 where e:
    "tkop (\<lambda>tk. task_map tk (item_va ?a fp) pa (fpage_size fp) (uacc2acc (fpage_access fp)) (?c \<noteq> 0)) rcv s = Inr s1"
    "mr_set rcv (it_i it) r0 s1 = Inr s2" "mr_set rcv (Suc (it_i it)) r1 s2 = Inr s'"
    using assms c w tkop_mr [of _ rcv s _ sndr "it_i it"]
    by (auto simp: do_map_item_def Let_def item_va_def split: if_splits)
  obtain tk where tk: "task_map (thr_task s rcv) (item_va ?a fp) pa (fpage_size fp) (uacc2acc (fpage_access fp)) (?c \<noteq> 0) = Inr tk"
    "s1 = s\<lparr>s_task := (s_task s)(t_task (sthr s rcv) := tk)\<rparr>"
    using e(1) by (auto simp: tkop_def)
  show thesis by (rule that [OF _ w tk(1)]) (use c mr_set_frame [OF e(2)] mr_set_frame [OF e(3)] tk(2) in auto)
qed


text \<open>Addresses inside one aligned block of at most a page have the same cells in every table.\<close>

lemma block_cell:
  assumes "va mod 2 ^ k = 0" "i < 2 ^ k" "k \<le> low"
  shows "(va + i) div 2 ^ low = va div (2 ^ low :: nat)" "(va + i) mod 2 ^ low = va mod 2 ^ low + i"
proof -
  obtain j where j: "low = k + j" using assms(3) le_Suc_ex by blast
  have p: "(2 ^ low :: nat) = 2 ^ k * 2 ^ j" unfolding j by (simp add: power_add)
  obtain q where q: "va = 2 ^ k * q" using assms(1) by (auto simp: mod_eq_0_iff_dvd)
  have "(va + i) div 2 ^ k = va div 2 ^ k" "(va + i) mod 2 ^ k = i" using assms(2) by (simp_all add: q)
  then show "(va + i) div 2 ^ low = va div 2 ^ low" "(va + i) mod 2 ^ low = va mod 2 ^ low + i"
    using assms(1) unfolding p div_mult2_eq mod_mult2_eq by simp_all
qed

lemma xlate_block:
  assumes "va mod 2 ^ k = 0" "i < 2 ^ k" "k \<le> 12"
  shows "xlate Sparc_levels tb (va + i) = map_option (\<lambda>(pa, r). (pa + of_nat i, r)) (xlate Sparc_levels tb va)"
proof -
  have c: "cell_index (hi, low) (va + i) = cell_index (hi, low) va" if "12 \<le> low" for hi low
    using block_cell(1) [OF assms(1,2), of low] assms(3) that by (simp add: cell_index_def drop_bit_eq_div)
  note m = block_cell(2) [OF assms(1,2)]
  show ?thesis using m [of 24] m [of 18] m [of 12] assms(3) by (simp add: Sparc_levels_def c split: cell.split)
qed

text \<open>The first page of a flexpage that its owner has mapped is one piece of physical memory.\<close>

lemma first_page:
  assumes "page_aligned va" "xlate Sparc_levels tb (unat va) \<noteq> None" "i < 0x1000"
  shows "pa_of Sparc_levels tb (unat va + i) = pa_of Sparc_levels tb (unat va) + of_nat i"
proof -
  have "unat va mod 2 ^ 12 = 0" using assms(1) by (simp add: page_aligned_iff pg_aligned_def Cfg_page_sz_def)
  then show ?thesis using assms(2,3) xlate_block [of "unat va" 12 i tb] by (auto simp: pa_of_def)
qed

text \<open>
  C3. A map item that is carried out for a sound flexpage: the flexpage lies in the sender's space with
  at least the rights it names; the receiver's space and its page table agree afterwards; in the
  window the receiver has chosen, byte \<open>i\<close> of the window leads to byte \<open>i\<close> of physical memory from
  the sender's first page on; every other address of the receiver and every other address space is as before. The rights are those
  the item names when the window was free, and otherwise those joined with the rights of the region that was there. The first
  page of the window is the sender's first page, and so is every later byte that the sender itself has at the
  same distance in physical memory; where the sender's pages are not contiguous, the receiver gets memory that is not the sender's.
\<close>

theorem map_item_exact:
  assumes oks: "as_ok Ks (tk_aspace (thr_task s sndr))" and okr: "as_ok Kr (tk_aspace (thr_task s rcv))"
    and w: "map_item_words sndr it s = Inr (w0, fp)" "mr_get sndr (it_i it) s = Inr g" "\<not> titem_is_grant g"
    and fp: "fpage_sound fp" "range_of (fpage_addr fp) (fpage_size fp) \<inter> Ks = {}"
    and va: "va = item_va (utcb_acceptor (t_utcb (sthr s rcv))) fp" "unat va + unat (fpage_size fp) < 2 ^ 32"
    and pa: "pa = pa_of Sparc_levels (as_root (tk_aspace (thr_task s sndr))) (unat (fpage_addr fp))"
      "unat pa + unat (fpage_size fp) \<le> 2 ^ 32"
    and r: "do_map_item again sndr rcv it s = Inr (I_next it' s')"
  shows "\<exists>(t::atype) m. as_ok Kr (tk_aspace (thr_task s' rcv)) \<and> acc2mmuacc (at_acc t) = Inr m
    \<and> (\<forall>x\<in>range_of (fpage_addr fp) (fpage_size fp). \<exists>o'. rg_map (as_uspace (tk_aspace (thr_task s sndr))) x = Some o'
          \<and> fpage_access fp AND at_acc o' = fpage_access fp)
    \<and> (at_acc t = map_acc (uacc2acc (fpage_access fp)) \<and> free_range (as_uspace (tk_aspace (thr_task s rcv))) (unat va) (unat (fpage_size fp))
       \<or> (\<exists>d. in_region (as_uspace (tk_aspace (thr_task s rcv))) va (fpage_size fp) d
            \<and> at_acc t = map_acc (uacc2acc (fpage_access fp)) OR at_acc (d_type d)))
    \<and> (\<forall>x<2 ^ 32. xlate Sparc_levels (as_root (tk_aspace (thr_task s' rcv))) x =
         (if x \<in> range_of va (fpage_size fp) then Some (pa + of_nat (x - unat va), m, of_bool (at_cached t))
          else xlate Sparc_levels (as_root (tk_aspace (thr_task s rcv))) x))
    \<and> (\<forall>i<unat (fpage_size fp). i < 0x1000 \<or> pa_of Sparc_levels (as_root (tk_aspace (thr_task s sndr))) (unat (fpage_addr fp) + i) = pa + of_nat i
          \<longrightarrow> pa_of Sparc_levels (as_root (tk_aspace (thr_task s' rcv))) (unat va + i)
            = pa_of Sparc_levels (as_root (tk_aspace (thr_task s sndr))) (unat (fpage_addr fp) + i))
    \<and> (\<forall>n. n \<noteq> t_task (sthr s rcv) \<longrightarrow> s_task s' n = s_task s n)"
proof -
  have nil: "\<not> fpage_is_nil fp" using fp(1) by (simp add: fpage_sound_def)
  let ?sr = "as_root (tk_aspace (thr_task s sndr))"
  obtain pa' tk where d: "as_cached (tk_aspace (thr_task s sndr)) fp \<ge> 0"
    "as_walk (tk_aspace (thr_task s sndr)) (fpage_addr fp) (fpage_size fp) = Inr pa'"
    "task_map (thr_task s rcv) va pa' (fpage_size fp) (uacc2acc (fpage_access fp))
       (as_cached (tk_aspace (thr_task s sndr)) fp \<noteq> 0) = Inr tk"
    "s_task s' = (s_task s)(t_task (sthr s rcv) := tk)" "t_task (sthr s' rcv) = t_task (sthr s rcv)"
    using do_map_item_cases [OF r w nil] va(1) by blast
  obtain o' where o': "\<forall>x\<in>range_of (fpage_addr fp) (fpage_size fp). rg_map (as_uspace (tk_aspace (thr_task s sndr))) x = Some o'
      \<and> xlate Sparc_levels ?sr x \<noteq> None"
    "fpage_access fp AND at_acc o' = fpage_access fp" and pa': "pa' = pa"
    using cached_backed [OF oks d(1)] fp d(2) pa(1) unfolding fpage_sound_def by fastforce
  have "unat (fpage_addr fp) \<in> range_of (fpage_addr fp) (fpage_size fp)" using fp(1) by (auto simp: fpage_sound_def range_of_def unat_gt_0)
  then have one: "i < 0x1000 \<Longrightarrow> pa_of Sparc_levels ?sr (unat (fpage_addr fp) + i) = pa + of_nat i" for i
    using first_page [of "fpage_addr fp" ?sr i] o'(1) fp(1) pa(1) by (simp add: fpage_sound_def)
  obtain a where a: "as_map (tk_aspace (thr_task s rcv)) va pa (fpage_size fp) (uacc2acc (fpage_access fp))
      (as_cached (tk_aspace (thr_task s sndr)) fp \<noteq> 0) = Inr a" "tk = (thr_task s rcv)\<lparr>tk_aspace := a\<rparr>"
    using d(3) pa' by (auto simp: task_map_def)
  have t': "tk_aspace (thr_task s' rcv) = a" using d(4,5) a(2) by (simp add: thr_task_def)
  show ?thesis
  proof (rule as_map_sound [OF okr va(2) pa(2) a(1)])
    fix t :: atype and m
    assume f: "as_ok Kr a" "acc2mmuacc (at_acc t) = Inr m" "at_cached t = (as_cached (tk_aspace (thr_task s sndr)) fp \<noteq> 0)"
      "at_acc t = map_acc (uacc2acc (fpage_access fp)) \<and> free_range (as_uspace (tk_aspace (thr_task s rcv))) (unat va) (unat (fpage_size fp))
     \<or> (\<exists>d. in_region (as_uspace (tk_aspace (thr_task s rcv))) va (fpage_size fp) d \<and> at_acc t = map_acc (uacc2acc (fpage_access fp)) OR at_acc (d_type d))"
      "\<And>x. x < 2 ^ 32 \<Longrightarrow> xlate Sparc_levels (as_root a) x =
       (if x \<in> range_of va (fpage_size fp) then Some (pa + of_nat (x - unat va), m, of_bool (as_cached (tk_aspace (thr_task s sndr)) fp \<noteq> 0))
        else xlate Sparc_levels (as_root (tk_aspace (thr_task s rcv))) x)"
    have rx: "pa_of Sparc_levels (as_root a) (unat va + i) = pa + of_nat i" if "i < unat (fpage_size fp)" for i
      using f(5) [of "unat va + i"] va(2) that by (simp add: pa_of_def range_of_def)
    have "\<forall>i<unat (fpage_size fp). i < 0x1000 \<or> pa_of Sparc_levels ?sr (unat (fpage_addr fp) + i) = pa + of_nat i \<longrightarrow>
        pa_of Sparc_levels (as_root a) (unat va + i) = pa_of Sparc_levels ?sr (unat (fpage_addr fp) + i)"
      using rx one by auto
    moreover have "\<forall>x\<in>range_of (fpage_addr fp) (fpage_size fp). \<exists>o'. rg_map (as_uspace (tk_aspace (thr_task s sndr))) x = Some o'
        \<and> fpage_access fp AND at_acc o' = fpage_access fp" using o' by auto
    moreover have "\<forall>x<2 ^ 32. xlate Sparc_levels (as_root a) x =
        (if x \<in> range_of va (fpage_size fp) then Some (pa + of_nat (x - unat va), m, of_bool (at_cached t))
         else xlate Sparc_levels (as_root (tk_aspace (thr_task s rcv))) x)" using f(5) unfolding f(3) by blast
    moreover have "\<forall>n. n \<noteq> t_task (sthr s rcv) \<longrightarrow> s_task s' n = s_task s n" using d(4) by simp
    ultimately show ?thesis unfolding t' using f(1,2,4) by blast
  qed
qed

section \<open>The copy of a string by words\<close>

lemma xlate_word:
  "va mod 4 = 0 \<Longrightarrow> i < 4 \<Longrightarrow> xlate Sparc_levels tb (va + i) = map_option (\<lambda>(pa, r). (pa + of_nat i, r)) (xlate Sparc_levels tb va)"
  using xlate_block [of va 2 i tb] by simp

lemma nat_mod4: "(a::nat) mod 4 = 0 \<Longrightarrow> (a + b) mod 4 = b mod 4" "(a::nat) mod 4 = 0 \<Longrightarrow> i < 4 \<Longrightarrow> a < 4294967296 \<Longrightarrow> a + i < 4294967296"
  by presburger+

lemma mod4_add: "unat ((x :: u64) + y) mod 4 = (unat x + unat y) mod 4"
  using mod_mod_cancel [of 4 "2 ^ 64" "unat x + unat y"] by (simp add: unat_word_ariths)

lemma mod4_of_nat: "unat (of_nat n :: u64) mod 4 = n mod 4"
  using mod_mod_cancel [of 4 "2 ^ 64" n] by (simp add: unat_of_nat take_bit_eq_mod)

lemma map_pa_aligned: "unat (mmu_get_map_pa w) mod 4 = 0"
proof -
  have "take_bit 2 (ucast (push_bit 4 x) :: u64) = 0" for x :: u32
    by (rule bit_word_eqI) (auto simp: bit_take_bit_iff bit_unsigned_iff bit_push_bit_iff)
  then have "take_bit 2 (mmu_get_map_pa w) = 0" by (simp only: mmu_get_map_pa_def)
  moreover have "unat (take_bit 2 (mmu_get_map_pa w)) = take_bit 2 (unat (mmu_get_map_pa w))" by (rule unsigned_take_bit_eq)
  ultimately have "take_bit 2 (unat (mmu_get_map_pa w)) = 0" by simp
  then show ?thesis by (simp add: take_bit_eq_mod)
qed

lemma xlate_aligned:
  assumes "va mod 4 = 0" "xlate Sparc_levels tb va = Some (pa, r)"
  shows "unat pa mod 4 = 0"
proof -
  have m: "va mod 2 ^ low mod 4 = 0" if "12 \<le> low" for low
    using assms(1) mod_mod_cancel [of 4 "2 ^ low" va] le_imp_power_dvd [of 2 low "2::nat"] that by simp
  have x: "unat (mmu_get_map_pa w + of_nat (va mod 2 ^ low)) mod 4 = 0" if "12 \<le> low" for w low
    unfolding mod4_add nat_mod4(1) [OF map_pa_aligned] mod4_of_nat by (rule m [OF that])
  show ?thesis using assms(2) x [of 24] x [of 18] x [of 12] by (auto simp: Sparc_levels_def split: cell.splits)
qed

text \<open>Aligned words that differ do not overlap.\<close>

lemma word_disjoint:
  fixes p d :: u64
  assumes "unat p mod 4 = 0" "unat d mod 4 = 0" "i < 4" "j < 4" "p + of_nat i = d + of_nat j"
  shows "i = j"
proof -
  have t: "unat (x + of_nat n) mod 4 = n" if "unat x mod 4 = 0" "n < 4" for x :: u64 and n
    unfolding mod4_add nat_mod4(1) [OF that(1)] mod4_of_nat using that(2) by simp
  show ?thesis using t [OF assms(1,3)] t [OF assms(2,4)] assms(5) by simp
qed

lemma aligned4_u32:
  assumes "is_aligned a 4"
  shows "unat a mod 4 = 0"
proof -
  have "a AND 3 = take_bit 2 a" by (simp add: take_bit_eq_mask mask_eq_exp_minus_1)
  then have "unat (take_bit 2 a) = 0" using assms by (simp add: is_aligned_def)
  moreover have "unat (take_bit 2 a) = take_bit 2 (unat a)" by (rule unsigned_take_bit_eq)
  ultimately have "take_bit 2 (unat a) = 0" by simp
  then show ?thesis by (simp add: take_bit_eq_mod)
qed

lemma aligned4_add:
  assumes "unat (a :: u32) mod 4 = 0" "i < 4"
  shows "unat (a + of_nat i) = unat a + i" "ucast (a + of_nat i) = (ucast a + of_nat i :: u64)"
proof -
  have b: "unat a + i < 2 ^ 32" using nat_mod4(2) [OF assms] u32_less [of a] by simp
  then have "unat (of_nat i :: u32) = i" by (simp add: unat_of_nat take_bit_nat_eq_self)
  then show u: "unat (a + of_nat i) = unat a + i" using b by (simp add: unat_word_ariths)
  have uu: "unat (ucast x :: u64) = unat x" for x :: u32
    using u32_less [of x] by (simp add: unsigned_ucast_eq take_bit_nat_eq_self)
  have "unat (ucast (a + of_nat i) :: u64) = unat (ucast a + of_nat i :: u64)"
    using u b by (simp add: unat_word_ariths unat_of_nat take_bit_nat_eq_self uu)
  then show "ucast (a + of_nat i) = (ucast a + of_nat i :: u64)" by (simp add: word_unat_eq_iff)
qed

section \<open>Bytes and words\<close>

lemma user_rd_word:
  assumes "unat src mod 4 = 0" "i < 4"
  shows "user_rd root (src + of_nat i) mem = (case xlate Sparc_levels root (unat src) of
      None \<Rightarrow> Inl Panic | Some (pa, acc, _) \<Rightarrow> if acc \<noteq> 4 then Inr (mem (pa + of_nat i)) else Inl Panic)"
  unfolding user_rd_def aligned4_add(1) [OF assms] xlate_word [OF assms] by (auto split: option.split)

lemma aligned_word:
  fixes pa :: u32
  shows "unat (pa AND NOT 3) mod 4 = 0" "pa - (pa AND NOT 3) = of_nat (unat pa mod 4)"
proof -
  have "(pa AND NOT 3) AND 3 = 0" by (simp add: and.assoc)
  then show "unat (pa AND NOT 3) mod 4 = 0" using aligned4_u32 [of "pa AND NOT 3"] by (simp add: is_aligned_def)
  have m: "(3 :: u32) = mask 2" by (simp add: mask_eq_exp_minus_1)
  have "pa AND NOT 3 = push_bit 2 (drop_bit 2 pa)" unfolding m
    by (rule bit_word_eqI) (auto simp: bit_and_iff bit_not_iff bit_mask_iff bit_push_bit_iff bit_drop_bit_eq not_less
        le_add_diff_inverse simp flip: add_2_eq_Suc)
  then have d: "pa - (pa AND NOT 3) = take_bit 2 pa" using bits_ident [of 2 pa] by (metis add_diff_cancel_left')
  have "unat (take_bit 2 pa) = take_bit 2 (unat pa)" by (rule unsigned_take_bit_eq)
  then have "unat (take_bit 2 pa) = unat pa mod 4" by (simp only: take_bit_eq_mod) simp
  moreover have "of_nat (unat (take_bit 2 pa)) = take_bit 2 pa" by simp
  ultimately have "take_bit 2 pa = of_nat (unat pa mod 4)" by metis
  then show "pa - (pa AND NOT 3) = of_nat (unat pa mod 4)" using d by simp
qed

text \<open>Writing one byte of a word by reading the word, replacing the byte and writing the word back changes that byte.\<close>

lemma store_phys_byte_exact: "store_phys_byte v pa mem = mem(ucast pa := v)"
proof -
  define b where "b = pa AND NOT 3"
  define i where "i = unat pa mod 4"
  have i: "i < 4" "pa - b = of_nat i" "unat b mod 4 = 0" using aligned_word [of pa] by (simp_all add: b_def i_def)
  have pa: "ucast pa = (ucast b + of_nat i :: u64)" using aligned4_add(2) [OF i(3,1)] i(2) by (metis add.commute diff_add_cancel)
  have u: "unat (pa - b) = i" using i(1,2) by (simp add: unat_of_nat take_bit_nat_eq_self)
  have "(if x - ucast b < 4 then ((load_phys_word mem b)[i := v]) ! unat (x - ucast b) else mem x) = (mem(ucast pa := v)) x" for x
  proof (cases "x - ucast b < (4 :: u64)")
    case True
    then have n: "unat (x - ucast b) < 4" by (simp add: word_less_nat_alt)
    have x: "ucast b + of_nat (unat (x - ucast b)) = x" by simp
    have "x = ucast pa \<longleftrightarrow> unat (x - ucast b) = i"
    proof
      assume "x = ucast pa"
      then show "unat (x - ucast b) = i" unfolding pa using i(1) by (simp add: unat_of_nat take_bit_nat_eq_self)
    qed (use x pa in metis)
    then show ?thesis using True n x by (simp add: load_phys_word_def nth_list_update)
  next
    case False
    then have "x \<noteq> ucast pa" unfolding pa using i(1) by (auto simp: word_less_nat_alt unat_of_nat take_bit_nat_eq_self)
    then show ?thesis using False by simp
  qed
  then show ?thesis unfolding store_phys_byte_def Let_def store_phys_word_def b_def [symmetric] u by blast
qed

lemma load_word:
  assumes "unat src mod 4 = 0"
  shows "load (user_rd root) 4 src mem = (case xlate Sparc_levels root (unat src) of
      None \<Rightarrow> Inl Panic
    | Some (pa, acc, _) \<Rightarrow> if acc \<noteq> 4 then Inr (map (\<lambda>i. mem (pa + of_nat i)) [0..<4]) else Inl Panic)"
proof -
  note r = user_rd_word [OF assms, of 0] user_rd_word [OF assms, of 1] user_rd_word [OF assms, of 2] user_rd_word [OF assms, of 3]
  have s: "src + 1 + 1 = src + 2" "src + 2 + 1 = src + 3" by simp_all
  have u: "[0..<4] = [0, 1, 2, 3::nat]" by (simp add: upt_rec)
  have e4: "(4::nat) = Suc (Suc (Suc (Suc 0)))" by simp
  show ?thesis using r unfolding e4 load.simps
    by (simp add: s u split: option.split prod.split)
qed

lemma store_word4: "store_phys_word [a, b, c, d] dst mem = mem(ucast dst := a, ucast dst + 1 := b, ucast dst + 2 := c, ucast dst + 3 := d)"
proof
  fix x
  define n where "n = unat (x - ucast dst :: u64)"
  have x: "x = ucast dst + of_nat n" by (simp add: n_def)
  have e: "x = ucast dst + of_nat k \<longleftrightarrow> n = k" if "k < 4" for k
    using that by (auto simp: n_def unat_of_nat take_bit_nat_eq_self)
  have l: "x - ucast dst < 4 \<longleftrightarrow> n < 4" by (simp add: n_def word_less_nat_alt)
  show "store_phys_word [a, b, c, d] dst mem x = (mem(ucast dst := a, ucast dst + 1 := b, ucast dst + 2 := c, ucast dst + 3 := d)) x"
    using e [of 0] e [of 1] e [of 2] e [of 3] unfolding store_phys_word_def l n_def [symmetric]
    by (auto simp: less_Suc_eq numeral_eq_Suc)
qed

lemma bytes_word:
  assumes "unat src mod 4 = 0" "unat dst mod 4 = 0"
  shows "phys_dst_bytes root 4 src dst mem = res_bind (load (user_rd root) 4 src mem) (\<lambda>w. Inr (store_phys_word w dst mem))"
proof -
  note r = user_rd_word [OF assms(1), of 0] user_rd_word [OF assms(1), of 1] user_rd_word [OF assms(1), of 2] user_rd_word [OF assms(1), of 3]
  note d = aligned4_add(2) [OF assms(2), of 1] aligned4_add(2) [OF assms(2), of 2] aligned4_add(2) [OF assms(2), of 3]
  have s: "src + 1 + 1 = src + 2" "src + 2 + 1 = src + 3" "dst + 1 + 1 = dst + 2" "dst + 2 + 1 = dst + 3" by simp_all
  have u: "[0..<4] = [0, 1, 2, 3::nat]" by (simp add: upt_rec)
  have e4: "phys_dst_bytes root 4 = phys_dst_bytes root (Suc (Suc (Suc (Suc 0))))" by (simp add: numeral_eq_Suc)
  show ?thesis
  proof (cases "xlate Sparc_levels root (unat src)")
    case None
    then show ?thesis unfolding load_word [OF assms(1)] e4 using r by simp
  next
    case (Some p)
    obtain pa acc c where p: "p = (pa, acc, c)" by (cases p)
    have al: "unat pa mod 4 = 0" using xlate_aligned [OF assms(1)] Some p by auto
    have "unat (ucast dst :: u64) mod 4 = 0"
      using assms(2) u32_less [of dst] by (simp add: unsigned_ucast_eq take_bit_nat_eq_self)
    from word_disjoint [OF al this]
    have n: "pa + of_nat i \<noteq> ucast dst + of_nat j" if "i < 4" "j < 4" "i \<noteq> j" for i j using that by blast
    note ns = n [of 1 0] n [of 2 0] n [of 2 1] n [of 3 0] n [of 3 1] n [of 3 2]
    show ?thesis
    proof (cases "acc = 4")
      case True
      then show ?thesis unfolding load_word [OF assms(1)] e4 using r Some p by simp
    next
      case False
      then show ?thesis unfolding load_word [OF assms(1)] e4 using r Some p d ns
        by (simp add: s u store_phys_byte_exact store_word4)
    qed
  qed
qed

lemma bytes_append:
  "phys_dst_bytes root (m + n) src dst mem =
     res_bind (phys_dst_bytes root m src dst mem) (phys_dst_bytes root n (src + of_nat m) (dst + of_nat m))"
  by (induction m arbitrary: src dst mem) (simp_all add: res_bind_assoc algebra_simps)

lemma aligned4_next: "unat (a :: u32) mod 4 = 0 \<Longrightarrow> unat (a + 4) mod 4 = 0"
proof -
  assume a: "unat a mod 4 = 0"
  have "unat (a + 4) = (unat a + 4) mod 2 ^ 32" by (simp add: unat_word_ariths)
  moreover have "(unat a + 4) mod 2 ^ 32 mod 4 = (unat a + 4) mod 4" by (rule mod_mod_cancel) simp
  ultimately show ?thesis using a by simp
qed

lemma words_step:
  assumes "unat src mod 4 = 0" "unat dst mod 4 = 0"
  shows "phys_dst_bytes root (4 + k) src dst mem = res_bind (load (user_rd root) 4 src mem)
           (\<lambda>w. phys_dst_bytes root k (src + 4) (dst + 4) (store_phys_word w dst mem))"
proof -
  have "phys_dst_bytes root (4 + k) src dst mem =
      res_bind (phys_dst_bytes root 4 src dst mem) (phys_dst_bytes root k (src + of_nat 4) (dst + of_nat 4))"
    by (rule bytes_append)
  also have "\<dots> = res_bind (load (user_rd root) 4 src mem) (\<lambda>w. phys_dst_bytes root k (src + 4) (dst + 4) (store_phys_word w dst mem))"
    by (simp only: bytes_word [OF assms] res_bind_assoc res_bind_simps of_nat_numeral)
  finally show ?thesis .
qed

lemma words_bytes:
  assumes "unat src mod 4 = 0" "unat dst mod 4 = 0"
  shows "phys_dst_words root n src dst mem = phys_dst_bytes root (n * 4) src dst mem"
  using assms
proof (induction n arbitrary: src dst mem)
  case (Suc n)
  have IH: "phys_dst_words root n (src + 4) (dst + 4) m = phys_dst_bytes root (n * 4) (src + 4) (dst + 4) m" for m
    by (rule Suc.IH [OF aligned4_next [OF Suc.prems(1)] aligned4_next [OF Suc.prems(2)]])
  show ?case by (simp only: mult_Suc words_step [OF Suc.prems] phys_dst_words.simps IH)
qed (simp only: phys_dst_words.simps phys_dst_bytes.simps mult_0)

text \<open>
  C8. The copy of \<open>memcpy_phys_dst\<close> by words is an optimisation only: for every page table, every length and
  every pair of addresses, overlapping or not, the routine does what the plain loop over bytes does, each
  byte written by reading the word around it, replacing one byte and writing the word back, and it faults
  exactly when that loop does.
\<close>

theorem memcpy_phys_dst_bytewise:
  "memcpy_phys_dst root src dst len mem = phys_dst_bytes root (unat len) src dst mem"
proof (cases "is_aligned src 4 \<and> is_aligned dst 4 \<and> is_aligned len 4")
  case True
  have "unat (len div 4) * 4 = unat len" using True aligned4_u32 [of len] by (simp add: unat_div_distrib unat_div) presburger
  then show ?thesis using True words_bytes [of src dst] aligned4_u32 unfolding memcpy_phys_dst_def by metis
qed (simp only: memcpy_phys_dst_def if_False)

section \<open>A concrete transfer\<close>

text \<open>Thread 4 of task 1 maps its page at \<open>0x11000000\<close> to thread 3 of task 2, whose space is empty.\<close>

definition map_sys :: sys where
  "map_sys = tiny_sys\<lparr>s_task := (\<lambda>n. if n = 1 then one_task else one_task\<lparr>tk_aspace := empty_space\<rparr>),
     s_k := thr_upd 3 (\<lambda>x. x\<lparr>t_task := 2, t_utcb := (t_utcb x)\<lparr>u_br := (u_br (t_utcb x))[0 := 0x10]\<rparr>\<rparr>)
       (thr_upd 4 (\<lambda>x. x\<lparr>t_task := 1, t_utcb := (t_utcb x)\<lparr>u_mr := (u_mr (t_utcb x))[1 := 8, 2 := one_fpage]\<rparr>\<rparr>) kernel_new)\<rparr>"

definition map_items :: items where "map_items = \<lparr>it_tag = 0x80, it_i = 1, it_buf = 1, it_copied = 0, it_saved = None\<rparr>"

lemma map_sys_fields:
  "tk_aspace (thr_task map_sys 4) = one_space" "tk_aspace (thr_task map_sys 3) = empty_space" "t_task (sthr map_sys 3) = 2"
  "mr_get 4 1 map_sys = Inr 8" "mr_get 4 2 map_sys = Inr one_fpage"
  "utcb_acceptor (t_utcb (sthr map_sys 3)) = 0x10" "length (u_mr (t_utcb (sthr map_sys 3))) = 256"
  by (simp_all add: map_sys_def thr_task_def kernel_new_def thread_new_def mr_get_def utcb_zero_def utcb_acceptor_def one_task_def)

lemma map_words: "\<not> titem_is_grant 8" "\<not> fpage_is_nil one_fpage" "\<not> fpage_is_complete one_fpage" "\<not> fpage_is_io one_fpage"
  "fpage_is_complete 0x10" "\<not> fpage_is_nil 0x10" "uacc2acc 6 = 6" "acc2mmuacc (map_acc 6) = Inr 1"
  by code_simp+


lemma one_fpage_sound: "fpage_sound one_fpage"
  by (simp add: fpage_sound_def map_words one_fpage_fields page_aligned_def is_aligned_def)

lemma one_space_pa: "pa_of Sparc_levels (as_root one_space) 0x11000000 = 0x40000000"
  using one_region_page(1) [of "0x11000000"] by (simp add: pa_of_def one_space_def)

lemma map_item_runs: "\<exists>it' s'. do_map_item False 4 3 map_items map_sys = Inr (I_next it' s')"
proof -
  have w: "as_walk one_space 0x11000000 0x1000 = Inr 0x40000000"
    using cached_backed [OF one_space_ok, of one_fpage] one_fpage_cached one_space_pa one_fpage_sound
    by (auto simp: one_fpage_fields fpage_sound_def)
  obtain a' where a': "as_map empty_space 0x11000000 0x40000000 Page_sz 6 True = Inr a'"
    using as_map_free_page [OF empty_space_ok, of "0x11000000" "0x40000000" 6 1 True] map_words
    by (auto simp: page_aligned_def is_aligned_def empty_space_def Aspace_regions_def)
  then have tk: "\<exists>s1. tkop (\<lambda>tk. task_map tk 0x11000000 0x40000000 0x1000 6 True) 3 map_sys = Inr s1 \<and> s_k s1 = s_k map_sys"
    by (auto simp: tkop_def task_map_def map_sys_fields Page_sz_def)
  then obtain s1 where s1: "tkop (\<lambda>tk. task_map tk 0x11000000 0x40000000 0x1000 6 True) 3 map_sys = Inr s1" "s_k s1 = s_k map_sys" by blast
  then have "\<exists>s2 s3. mr_set 3 1 8 s1 = Inr s2 \<and> mr_set 3 2 one_fpage s2 = Inr s3"
    using map_sys_fields(7) by (simp add: mr_set_def supd_def utcb_upd_def)
  moreover have "mr_get 4 1 s1 = Inr 8" using tkop_mr [OF s1(1)] map_sys_fields(4) by simp
  ultimately show ?thesis using w s1(1) map_words map_sys_fields one_fpage_cached
    by (auto simp: do_map_item_def map_item_words_def Let_def map_items_def one_fpage_fields numeral_2_eq_2 [symmetric])
qed

theorem map_item_exact_witness:
  "\<exists>it' s' m c. do_map_item False 4 3 map_items map_sys = Inr (I_next it' s')
    \<and> xlate Sparc_levels (as_root (tk_aspace (thr_task s' 3))) 0x11000004 = Some (0x40000004, m, c)"
proof -
  obtain it' s' where r: "do_map_item False 4 3 map_items map_sys = Inr (I_next it' s')" using map_item_runs by blast
  have oks: "as_ok {} (tk_aspace (thr_task map_sys 4))" "as_ok {} (tk_aspace (thr_task map_sys 3))"
    using one_space_ok empty_space_ok by (simp_all add: map_sys_fields)
  have w: "map_item_words 4 map_items map_sys = Inr (8, one_fpage)" "mr_get 4 (it_i map_items) map_sys = Inr 8"
    using map_sys_fields(4,5) by (simp_all add: map_item_words_def map_items_def numeral_2_eq_2 [symmetric])
  have va: "0x11000000 = item_va (utcb_acceptor (t_utcb (sthr map_sys 3))) one_fpage"
    "unat (0x11000000 :: u32) + unat (fpage_size one_fpage) < 2 ^ 32"
    by (simp_all add: map_sys_fields item_va_def map_words one_fpage_fields)
  have pa: "0x40000000 = pa_of Sparc_levels (as_root (tk_aspace (thr_task map_sys 4))) (unat (fpage_addr one_fpage))"
    "unat (0x40000000 :: u64) + unat (fpage_size one_fpage) \<le> 2 ^ 32"
    using one_space_pa by (simp_all add: map_sys_fields one_fpage_fields)
  from map_item_exact [OF oks w map_words(1) one_fpage_sound _ va pa r]
  obtain t m where "\<forall>x<2 ^ 32. xlate Sparc_levels (as_root (tk_aspace (thr_task s' 3))) x =
         (if x \<in> range_of 0x11000000 (fpage_size one_fpage) then Some (0x40000000 + of_nat (x - unat (0x11000000 :: u32)), m, of_bool (at_cached (t :: atype)))
          else xlate Sparc_levels (as_root (tk_aspace (thr_task map_sys 3))) x)" by blast
  then have "xlate Sparc_levels (as_root (tk_aspace (thr_task s' 3))) 0x11000004 = Some (0x40000004, m, of_bool (at_cached t))"
    by (simp add: range_of_def one_fpage_fields)
  then show ?thesis using r by blast
qed
end
