(* ===== verification/Sigma0.thy ===== *)
theory Sigma0
  imports Boot
begin

text \<open>
  The root pager: \<open>app/sigma0/main.cpp\<close>. It takes the lists of the root task's memory and of the free
  memory from the interface page and then serves two requests of the root task, page faults and
  requests for memory. A turn of its loop is a function from the message to the reply; starting the root
  task is a sequence of system calls and is left out, as is the output. A call of the debugger returns
  and is recorded in the answer.
\<close>

section \<open>Regions of memory\<close>

record mregion =
  mg_addr :: u32
  mg_size :: u32
  mg_acc :: u32

definition mg_end :: "mregion \<Rightarrow> u32" where "mg_end r = mg_addr r + mg_size r"

definition mg_is_inside :: "mregion \<Rightarrow> fpage \<Rightarrow> bool" where
  "mg_is_inside r p = (fpage_addr p \<ge> mg_addr r \<and> fpage_end p \<le> mg_end r)"

definition mg_is_acc_fit :: "mregion \<Rightarrow> u32 \<Rightarrow> bool" where
  "mg_is_acc_fit r acc = (acc AND mg_acc r = acc)"

definition mg_is_inside_acc :: "mregion \<Rightarrow> fpage \<Rightarrow> bool" where
  "mg_is_inside_acc r p = (mg_is_inside r p \<and> mg_is_acc_fit r (fpage_access p))"

record sigma0 =
  sg_root :: "mregion list"
  sg_conv :: "mregion list"
  sg_conv_size :: u32

definition Mregions_max :: nat where "Mregions_max = 16"

text \<open>\<open>push_back\<close> of a list of 16 items.\<close>

definition mg_push :: "mregion \<Rightarrow> mregion list \<Rightarrow> mregion list res" where
  "mg_push r rs = (if length rs < Mregions_max then Inr (rs @ [r]) else Inl Panic)"

text \<open>The rights of the root task to a boot module, none for the modules of sigma0 itself.\<close>

definition root_acc :: "nat \<Rightarrow> u32 option res" where
  "root_acc type_exact =
     (if type_exact = 1 \<or> type_exact = 2 \<or> type_exact = 3 then Inr None
      else if type_exact = 4 \<or> type_exact = 7 then Inr (Some Acc_rx)
      else if type_exact = 5 then Inr (Some Acc_r)
      else if type_exact = 6 then Inr (Some Acc_rw)
      else Inl Panic)"

fun read_mdesc :: "mem_desc list \<Rightarrow> sigma0 \<Rightarrow> sigma0 res" where
  "read_mdesc [] g = Inr g"
| "read_mdesc (d # ds) g =
     (let addr = push_bit 10 (md_low d); sz = push_bit 10 (md_high d + 1) - addr in
      res_bind
        (if md_type d = Md_bootloader then
           res_bind (root_acc (md_exact d)) (\<lambda>a.
           case a of
             None \<Rightarrow> Inr g
           | Some acc \<Rightarrow> res_bind (mg_push \<lparr>mg_addr = addr, mg_size = sz, mg_acc = acc\<rparr> (sg_root g)) (\<lambda>rs. Inr (g\<lparr>sg_root := rs\<rparr>)))
         else if md_type d = Md_conventional then
           res_bind (mg_push \<lparr>mg_addr = addr, mg_size = sz, mg_acc = Acc_rwx\<rparr> (sg_conv g)) (\<lambda>rs.
           Inr (g\<lparr>sg_conv := rs, sg_conv_size := sg_conv_size g + sz\<rparr>))
         else Inr g) (read_mdesc ds))"

definition sigma0_new :: sigma0 where "sigma0_new = \<lparr>sg_root = [], sg_conv = [], sg_conv_size = 0\<rparr>"

section \<open>Requests\<close>

text \<open>The first free region that has room for an aligned block: the address of the block in it.\<close>

definition conv_fit :: "fpage \<Rightarrow> mregion \<Rightarrow> u32 option" where
  "conv_fit req r =
     (if mg_size r \<ge> fpage_size req \<and> mg_is_acc_fit r (fpage_access req) then
        let va = round_up (mg_addr r) (fpage_size req); diff = va - mg_addr r in
        if mg_size r - diff \<ge> fpage_size req then Some va else None
      else None)"

text \<open>What is left of the region, with \<open>len\<close> items in the whole list and \<open>rs\<close> behind this one.\<close>

definition conv_cut :: "nat \<Rightarrow> u32 \<Rightarrow> u32 \<Rightarrow> mregion \<Rightarrow> mregion list \<Rightarrow> mregion list res" where
  "conv_cut len va sz r rs =
     (let diff = va - mg_addr r in
      if diff = 0 \<and> mg_size r = sz then Inr rs
      else if diff = 0 then Inr (r\<lparr>mg_addr := mg_addr r + sz, mg_size := mg_size r - sz\<rparr> # rs)
      else if mg_end r = va + sz then Inr (r\<lparr>mg_size := mg_size r - sz\<rparr> # rs)
      else if len < Mregions_max then
        Inr (r\<lparr>mg_addr := va + sz, mg_size := mg_size r - diff - sz\<rparr> # rs @ [r\<lparr>mg_size := diff\<rparr>])
      else Inl Panic)"

fun conv_take :: "nat \<Rightarrow> fpage \<Rightarrow> mregion list \<Rightarrow> (u32 \<times> mregion list) option res" where
  "conv_take len req [] = Inr None"
| "conv_take len req (r # rs) =
     (case conv_fit req r of
        Some va \<Rightarrow> res_bind (conv_cut len va (fpage_size req) r rs) (\<lambda>rs'. Inr (Some (va, rs')))
      | None \<Rightarrow> res_bind (conv_take len req rs) (\<lambda>x. Inr (map_option (\<lambda>(va, rs'). (va, r # rs')) x)))"

record answer =
  an_kdb :: bool
  an_words :: "u32 list"

text \<open>The tag of the reply and the map item behind it.\<close>

definition reply_tag :: "msgtag \<Rightarrow> msgtag" where
  "reply_tag tag = tag_set_typed 2 (tag_set_untyped 0 (tag_set_propagated False (bf_set 18 14 0 tag)))"

definition map_reply :: "u32 \<Rightarrow> msgtag \<Rightarrow> fpage \<Rightarrow> u32 list" where
  "map_reply stale tag fp = (let it = mitem_set stale fp False in [reply_tag tag, fst it, snd it])"

definition serve_pfault :: "u32 \<Rightarrow> msgtag \<Rightarrow> u32 \<Rightarrow> sigma0 \<Rightarrow> answer res" where
  "serve_pfault stale tag addr g =
     res_bind (wassert (tag_untyped tag = 2)) (\<lambda>_.
     res_bind (wassert (tag_typed tag = 0)) (\<lambda>_.
     let acc = tag_pfault_access tag; fault = fpage_set stale (pg_down addr) Page_sz acc in
     Inr (case find (\<lambda>r. mg_is_inside_acc r fault) (sg_root g) of
            Some _ \<Rightarrow> \<lparr>an_kdb = False, an_words = map_reply stale tag (bf_set 0 3 acc fault)\<rparr>
          | None \<Rightarrow> \<lparr>an_kdb = True, an_words = map_reply stale tag fault\<rparr>)))"

text \<open>A flexpage of size \<open>2^32\<close> or more asks for an undefined shift.\<close>

definition serve_memory :: "u32 \<Rightarrow> msgtag \<Rightarrow> fpage \<Rightarrow> sigma0 \<Rightarrow> (answer \<times> sigma0) res" where
  "serve_memory stale tag req g =
     res_bind (wassert (tag_untyped tag = 2)) (\<lambda>_.
     res_bind (wassert (tag_typed tag = 0)) (\<lambda>_.
     if bf_sget 10 22 req \<noteq> -1 then Inr (\<lparr>an_kdb = False, an_words = map_reply stale tag req\<rparr>, g)
     else if 32 \<le> fpage_log2sz req then Inl Bad_access
     else
       res_bind (conv_take (length (sg_conv g)) req (sg_conv g)) (\<lambda>x. Inr (
         case x of
           None \<Rightarrow> (\<lparr>an_kdb = False, an_words = map_reply stale tag fpage_Nil\<rparr>, g)
         | Some (va, rs) \<Rightarrow>
             let fp = fpage_set fpage_Nil va (fpage_size req) (fpage_access req) in
             (\<lparr>an_kdb = fpage_is_nil fp, an_words = map_reply stale tag fp\<rparr>,
              g\<lparr>sg_conv := rs, sg_conv_size := sg_conv_size g - fpage_size req\<rparr>)))))"

definition tag_Sigma0 :: int where "tag_Sigma0 = -8"

text \<open>
  One turn of the loop: the copy of the message to an array of 64 words, and the two protocols. The
  result of the receive is 0, otherwise the turn ends. Any other message only enters the debugger.
\<close>

definition sigma0_turn :: "u32 \<Rightarrow> thrid \<Rightarrow> u32 list \<Rightarrow> sigma0 \<Rightarrow> (answer option \<times> sigma0) res" where
  "sigma0_turn stale from mr g =
     (let tag = mr ! 0 in
      if unat (tag_untyped tag) + unat (tag_typed tag) \<ge> 64 then Inl Bad_access
      else if from = thrid_roottask \<and> tag_proto_label tag = tag_Pagefault then
        res_bind (serve_pfault stale tag (mr ! 1) g) (\<lambda>a. Inr (Some a, g))
      else if from = thrid_roottask \<and> tag_proto_label tag = tag_Sigma0 then
        res_bind (serve_memory stale tag (mr ! 1) g) (\<lambda>(a, g'). Inr (Some a, g'))
      else Inr (None, g))"

section \<open>The free memory\<close>

text \<open>The bytes of a region, and of a list of regions.\<close>

definition mg_bytes :: "mregion \<Rightarrow> nat set" where
  "mg_bytes r = {unat (mg_addr r) ..< unat (mg_addr r) + unat (mg_size r)}"

definition conv_bytes :: "mregion list \<Rightarrow> nat set" where "conv_bytes rs = (\<Union>r\<in>set rs. mg_bytes r)"

lemma conv_bytes_simps [simp]:
  "conv_bytes [] = {}" "conv_bytes (r # rs) = mg_bytes r \<union> conv_bytes rs" "conv_bytes (rs @ ss) = conv_bytes rs \<union> conv_bytes ss"
  by (auto simp: conv_bytes_def)

definition mg_ok :: "mregion \<Rightarrow> bool" where "mg_ok r \<longleftrightarrow> unat (mg_addr r) + unat (mg_size r) \<le> 2 ^ 32"

definition conv_ok :: "mregion list \<Rightarrow> bool" where
  "conv_ok rs \<longleftrightarrow> (\<forall>r\<in>set rs. mg_ok r) \<and> sorted_wrt (\<lambda>a b. mg_bytes a \<inter> mg_bytes b = {}) rs"

lemma conv_ok_Cons: "conv_ok (r # rs) \<longleftrightarrow> mg_ok r \<and> mg_bytes r \<inter> conv_bytes rs = {} \<and> conv_ok rs"
  by (auto simp: conv_ok_def conv_bytes_def)

lemma conv_ok_snoc: "conv_ok (rs @ [r]) \<longleftrightarrow> mg_ok r \<and> mg_bytes r \<inter> conv_bytes rs = {} \<and> conv_ok rs"
  by (auto simp: conv_ok_def conv_bytes_def sorted_wrt_append)

text \<open>A block of \<open>sz\<close> bytes at \<open>va\<close>.\<close>

abbreviation block :: "u32 \<Rightarrow> u32 \<Rightarrow> nat set" where "block va sz \<equiv> {unat va ..< unat va + unat sz}"

lemma conv_fit_sound:
  assumes "conv_fit req r = Some va" "mg_ok r" "fpage_log2sz req < 32"
  shows "unat (mg_addr r) \<le> unat va" "unat va + unat (fpage_size req) \<le> unat (mg_addr r) + unat (mg_size r)"
    "unat (fpage_size req) dvd unat va" "mg_is_acc_fit r (fpage_access req)"
proof -
  let ?sz = "fpage_size req"
  have f: "?sz \<le> mg_size r" "mg_is_acc_fit r (fpage_access req)" "va = round_up (mg_addr r) ?sz" "?sz \<le> mg_size r - (va - mg_addr r)"
    using assms(1) by (auto simp: conv_fit_def Let_def split: if_splits)
  have "unat (mg_addr r) + unat ?sz \<le> 2 ^ 32"
    using f(1) assms(2) by (simp add: mg_ok_def word_le_nat_alt)
  note R = round_up_least [OF fpage_size_def assms(3) this]
  show le: "unat (mg_addr r) \<le> unat va" using R(1) f(3) by simp
  show "unat ?sz dvd unat va" using R(2) f(3) by simp
  show "mg_is_acc_fit r (fpage_access req)" by (rule f)
  have d: "unat (va - mg_addr r) = unat va - unat (mg_addr r)" using le by (simp add: unat_sub word_le_nat_alt)
  moreover have lt: "unat va - unat (mg_addr r) < unat ?sz" using R(3) le unfolding f(3) [symmetric] by linarith
  ultimately have "unat (mg_size r - (va - mg_addr r)) = unat (mg_size r) - (unat va - unat (mg_addr r))"
    using f(1) by (simp add: unat_sub word_le_nat_alt)
  then show "unat va + unat ?sz \<le> unat (mg_addr r) + unat (mg_size r)" using f(1,4) le lt by (simp add: word_le_nat_alt)
qed

lemma conv_fit_complete:
  assumes "conv_fit req r = None" "mg_ok r" "fpage_log2sz req < 32" "mg_is_acc_fit r (fpage_access req)"
    and "unat (fpage_size req) dvd a" "unat (mg_addr r) \<le> a"
  shows "unat (mg_addr r) + unat (mg_size r) < a + unat (fpage_size req)"
proof (rule ccontr)
  let ?sz = "fpage_size req" and ?va = "round_up (mg_addr r) (fpage_size req)"
  assume "\<not> ?thesis"
  then have in_r: "a + unat ?sz \<le> unat (mg_addr r) + unat (mg_size r)" by simp
  then have sz: "?sz \<le> mg_size r" using assms(6) by (simp add: word_le_nat_alt)
  then have "unat (mg_addr r) + unat ?sz \<le> 2 ^ 32" using assms(2) by (simp add: mg_ok_def word_le_nat_alt)
  note R = round_up_least [OF fpage_size_def assms(3) this]
  have le: "unat ?va \<le> a" by (rule R(4) [OF assms(5,6)])
  have d: "unat (?va - mg_addr r) = unat ?va - unat (mg_addr r)" using R(1) by (simp add: unat_sub word_le_nat_alt)
  then have "unat (mg_size r - (?va - mg_addr r)) = unat (mg_size r) - (unat ?va - unat (mg_addr r))"
    using le in_r R(1) by (subst unat_sub) (simp_all add: word_le_nat_alt)
  then have "?sz \<le> mg_size r - (?va - mg_addr r)" using le in_r R(1) by (simp add: word_le_nat_alt)
  then show False using assms(1,4) sz by (simp add: conv_fit_def Let_def)
qed

lemma conv_cut_sound:
  assumes cut: "conv_cut len va sz r rs = Inr rs'" and ok: "conv_ok (r # rs)"
    and va: "unat (mg_addr r) \<le> unat va" "unat va + unat sz \<le> unat (mg_addr r) + unat (mg_size r)"
  shows "conv_ok rs'" "conv_bytes rs' = conv_bytes (r # rs) - block va sz" "length rs' \<le> length rs + 2"
proof -
  have r: "mg_ok r" "mg_bytes r \<inter> conv_bytes rs = {}" "conv_ok rs" using ok by (simp_all add: conv_ok_Cons)
  have e: "unat (mg_addr r) + unat (mg_size r) \<le> 2 ^ 32" using r(1) by (simp add: mg_ok_def)
  have d: "unat (va - mg_addr r) = unat va - unat (mg_addr r)" using va(1) by (simp add: unat_sub word_le_nat_alt)
  have s: "unat (mg_size r - sz) = unat (mg_size r) - unat sz" using va by (simp add: unat_sub word_le_nat_alt)
  have sub: "block va sz \<subseteq> mg_bytes r" using va by (auto simp: mg_bytes_def)
  then have out: "block va sz \<inter> conv_bytes rs = {}" using r(2) by blast
  consider "va = mg_addr r" "mg_size r = sz" "rs' = rs"
    | "va = mg_addr r" "mg_size r \<noteq> sz" "rs' = r\<lparr>mg_addr := mg_addr r + sz, mg_size := mg_size r - sz\<rparr> # rs"
    | "va \<noteq> mg_addr r" "mg_end r = va + sz" "rs' = r\<lparr>mg_size := mg_size r - sz\<rparr> # rs"
    | "va \<noteq> mg_addr r" "mg_end r \<noteq> va + sz"
      "rs' = r\<lparr>mg_addr := va + sz, mg_size := mg_size r - (va - mg_addr r) - sz\<rparr> # rs @ [r\<lparr>mg_size := va - mg_addr r\<rparr>]"
    using cut by (auto simp: conv_cut_def Let_def split: if_splits)
  then have "conv_ok rs' \<and> conv_bytes rs' = conv_bytes (r # rs) - block va sz \<and> length rs' \<le> length rs + 2"
  proof cases
    case 1
    then show ?thesis using r out by (auto simp: mg_bytes_def)
  next
    case 2
    let ?q = "r\<lparr>mg_addr := mg_addr r + sz, mg_size := mg_size r - sz\<rparr>"
    have "unat sz < unat (mg_size r)" using 2(1,2) va(2) by (simp add: le_neq_implies_less word_unat_eq_iff)
    then have a: "unat (mg_addr r + sz) = unat (mg_addr r) + unat sz" using e by (intro unat_sum) simp
    have q: "mg_bytes ?q = mg_bytes r - block va sz" using a s 2(1) va by (auto simp: mg_bytes_def)
    have "mg_ok ?q" using a s e va 2(1) by (simp add: mg_ok_def)
    then show ?thesis using q r out by (auto simp: 2(3) conv_ok_Cons)
  next
    case 3
    let ?q = "r\<lparr>mg_size := mg_size r - sz\<rparr>"
    have "unat va + unat sz = unat (mg_addr r) + unat (mg_size r)"
    proof -
      have "(unat (mg_addr r) + unat (mg_size r)) mod 2 ^ 32 = (unat va + unat sz) mod 2 ^ 32"
        using arg_cong [OF 3(2), of unat] by (simp add: mg_end_def unat_word_ariths)
      moreover have "unat va \<noteq> 0" using 3(1) va(1) by (auto simp: unat_eq_0)
      ultimately show ?thesis using e va(2) u32_less [of va] by (auto simp: le_less)
    qed
    then have q: "mg_bytes ?q = mg_bytes r - block va sz" using s va by (auto simp: mg_bytes_def)
    have "mg_ok ?q" using s e by (simp add: mg_ok_def)
    then show ?thesis using q r out by (auto simp: 3(3) conv_ok_Cons)
  next
    case 4
    let ?q = "r\<lparr>mg_addr := va + sz, mg_size := mg_size r - (va - mg_addr r) - sz\<rparr>" and ?l = "r\<lparr>mg_size := va - mg_addr r\<rparr>"
    have "unat va + unat sz \<noteq> unat (mg_addr r) + unat (mg_size r)"
      using 4(2) by (auto simp: mg_end_def word_unat_eq_iff unat_word_ariths)
    then have a: "unat (va + sz) = unat va + unat sz" using e va(2) by (intro unat_sum) simp
    have "unat (mg_size r - (va - mg_addr r)) = unat (mg_size r) - (unat va - unat (mg_addr r))"
      using d va by (subst unat_sub) (simp_all add: word_le_nat_alt)
    then have z: "unat (mg_size r - (va - mg_addr r) - sz) = unat (mg_size r) - (unat va - unat (mg_addr r)) - unat sz"
      using va by (subst unat_sub) (simp_all add: word_le_nat_alt)
    have q: "mg_bytes ?q = mg_bytes r - {..< unat va + unat sz}" "mg_bytes ?l = mg_bytes r \<inter> {..< unat va}"
      using a z d va by (auto simp: mg_bytes_def)
    have "mg_ok ?q" "mg_ok ?l" using a z d e va by (simp_all add: mg_ok_def)
    moreover have "mg_bytes r = mg_bytes ?q \<union> mg_bytes ?l \<union> block va sz" "mg_bytes ?q \<inter> mg_bytes ?l = {}"
      "block va sz \<inter> mg_bytes ?q = {}" "block va sz \<inter> mg_bytes ?l = {}"
      unfolding q using va by (auto simp: mg_bytes_def)
    ultimately show ?thesis using r out unfolding 4(3) conv_ok_Cons conv_ok_snoc conv_bytes_simps by auto
  qed
  then show "conv_ok rs'" "conv_bytes rs' = conv_bytes (r # rs) - block va sz" "length rs' \<le> length rs + 2" by blast+
qed


lemma conv_take_sound:
  assumes "conv_take len req rs = Inr (Some (va, rs'))" "conv_ok rs" "fpage_log2sz req < 32"
  shows "conv_ok rs' \<and> conv_bytes rs' = conv_bytes rs - block va (fpage_size req) \<and> block va (fpage_size req) \<subseteq> conv_bytes rs
    \<and> unat (fpage_size req) dvd unat va
    \<and> (\<exists>r\<in>set rs. mg_is_acc_fit r (fpage_access req) \<and> block va (fpage_size req) \<subseteq> mg_bytes r)"
  using assms(1,2)
proof (induction rs arbitrary: rs')
  case (Cons r rs)
  show ?case
  proof (cases "conv_fit req r")
    case None
    then obtain rs1 where t: "conv_take len req rs = Inr (Some (va, rs1))" "rs' = r # rs1" using Cons.prems(1) by auto
    note ih = Cons.IH [OF t(1)] and r = Cons.prems(2) [unfolded conv_ok_Cons]
    have sub: "block va (fpage_size req) \<subseteq> conv_bytes rs" using ih r by blast
    then have out: "mg_bytes r \<inter> block va (fpage_size req) = {}" using r by blast
    have "mg_bytes r \<inter> conv_bytes rs1 = {}" using ih r by blast
    then show ?thesis using ih r sub out unfolding t(2) conv_ok_Cons by auto
  next
    case (Some v)
    then have c: "v = va" "conv_cut len va (fpage_size req) r rs = Inr rs'" using Cons.prems(1) by auto
    have ok: "mg_ok r" using Cons.prems(2) by (simp add: conv_ok_Cons)
    note f = conv_fit_sound [OF Some [unfolded c(1)] ok assms(3)]
    note k = conv_cut_sound [OF c(2) Cons.prems(2) f(1,2)]
    have "block va (fpage_size req) \<subseteq> mg_bytes r" using f(1,2) by (auto simp: mg_bytes_def)
    then show ?thesis using k(1,2) f(3,4) by auto
  qed
qed simp

lemma conv_take_none:
  assumes "conv_take len req rs = Inr None" "conv_ok rs" "fpage_log2sz req < 32"
    and "r \<in> set rs" "mg_is_acc_fit r (fpage_access req)" "unat (fpage_size req) dvd a" "unat (mg_addr r) \<le> a"
  shows "unat (mg_addr r) + unat (mg_size r) < a + unat (fpage_size req)"
  using assms(1,2,4)
proof (induction rs)
  case (Cons q rs)
  have n: "conv_fit req q = None" "conv_take len req rs = Inr None" using Cons.prems(1) by (auto split: option.splits)
  then show ?case using Cons.IH Cons.prems conv_fit_complete [OF n(1) _ assms(3) _ assms(6)] assms(5,7)
    by (auto simp: conv_ok_Cons)
qed simp

lemma res_bind_Inl_iff: "res_bind m f = Inl e \<longleftrightarrow> m = Inl e \<or> (\<exists>x. m = Inr x \<and> f x = Inl e)"
  by (cases m) simp_all

lemma conv_take_error: "conv_take len req rs = Inl e \<Longrightarrow> e = Panic \<and> Mregions_max \<le> len"
  by (induction rs) (auto simp: conv_cut_def Let_def res_bind_Inl_iff split: option.splits if_splits)

lemma reply_tag_reads [simp]:
  "tag_is_pf_reply (reply_tag tag)" "\<not> tag_propagated (reply_tag tag)"
  by (simp_all add: reply_tag_def tag_is_pf_reply_def tag_ipc_label_def tag_typed_def tag_untyped_def tag_propagated_def
      tag_set_typed_def tag_set_untyped_def tag_set_propagated_def bf_sget_def bf_simps)

lemma aligned_dvd:
  assumes "fpage_log2sz req < 32" "unat (fpage_size req) dvd unat va"
  shows "is_aligned va (fpage_size req)"
proof -
  have "take_bit (fpage_log2sz req) (unat va) = 0"
    using assms(2) unat_push_bit_1 [OF assms(1)] by (simp add: fpage_size_def take_bit_eq_0_iff)
  then have "unat (take_bit (fpage_log2sz req) va) = 0" unfolding unsigned_take_bit_eq .
  then show ?thesis unfolding fpage_size_def is_aligned_exp [OF assms(1)] by (simp add: unat_eq_0)
qed

definition alloc_request :: "msgtag \<Rightarrow> fpage \<Rightarrow> bool" where
  "alloc_request tag req \<longleftrightarrow> tag_untyped tag = 2 \<and> tag_typed tag = 0 \<and> bf_sget 10 22 req = -1
     \<and> 12 \<le> fpage_log2sz req \<and> fpage_log2sz req < 32"

text \<open>
  C22. A request for free memory of a power of two of at least a page, for which the list of free regions
  is consistent, has one of three outcomes. A block is found: the reply maps a block of exactly that
  size, aligned to it, with the rights asked for, that lies in one free region whose rights cover these; afterwards exactly these
  bytes are no longer free, and the list is consistent again. No region with the rights has
  room for an aligned block: the reply is the nil flexpage and nothing changes. Or sigma0 stops; this
  happens only when the list holds all its 16 regions.
\<close>

theorem memory_request:
  assumes "conv_ok (sg_conv g)" "alloc_request tag req"
  shows "case serve_memory stale tag req g of
      Inl e \<Rightarrow> e = Panic \<and> Mregions_max \<le> length (sg_conv g)
    | Inr (a, g') \<Rightarrow> conv_ok (sg_conv g') \<and> sg_root g' = sg_root g \<and> \<not> an_kdb a \<and>
        (\<exists>fp. an_words a = map_reply stale tag fp \<and>
          (if fpage_is_nil fp
           then g' = g \<and> (\<forall>r\<in>set (sg_conv g). mg_is_acc_fit r (fpage_access req) \<longrightarrow>
             \<not> (\<exists>b. unat (fpage_size req) dvd b \<and> {b ..< b + unat (fpage_size req)} \<subseteq> mg_bytes r))
           else fpage_size fp = fpage_size req \<and> fpage_access fp = fpage_access req AND Acc_rwx
             \<and> unat (fpage_size req) dvd unat (fpage_addr fp)
             \<and> (\<exists>r\<in>set (sg_conv g). mg_is_acc_fit r (fpage_access req) \<and> block (fpage_addr fp) (fpage_size fp) \<subseteq> mg_bytes r)
             \<and> block (fpage_addr fp) (fpage_size fp) \<subseteq> conv_bytes (sg_conv g)
             \<and> conv_bytes (sg_conv g') = conv_bytes (sg_conv g) - block (fpage_addr fp) (fpage_size fp)
             \<and> sg_conv_size g' = sg_conv_size g - fpage_size fp))"
proof -
  let ?sz = "fpage_size req"
  have q: "tag_untyped tag = 2" "tag_typed tag = 0" "bf_sget 10 22 req = -1" "12 \<le> fpage_log2sz req" "fpage_log2sz req < 32"
    using assms(2) by (simp_all add: alloc_request_def)
  have pos: "0 < unat ?sz" using unat_push_bit_1 [OF q(5)] by (simp add: fpage_size_def)
  show ?thesis
  proof (cases "conv_take (length (sg_conv g)) req (sg_conv g)")
    case (Inl e)
    then show ?thesis using conv_take_error [OF Inl] q(1-3,5) by (simp add: serve_memory_def)
  next
    case (Inr x)
    show ?thesis
    proof (cases x)
      case None
      then have n: "conv_take (length (sg_conv g)) req (sg_conv g) = Inr None" using Inr by simp
      have "\<not> {b ..< b + unat ?sz} \<subseteq> mg_bytes r"
        if "r \<in> set (sg_conv g)" "mg_is_acc_fit r (fpage_access req)" "unat ?sz dvd b" for r b
      proof
        assume "{b ..< b + unat ?sz} \<subseteq> mg_bytes r"
        then have "b \<in> mg_bytes r" "b + unat ?sz - 1 \<in> mg_bytes r" using pos by auto
        then show False using conv_take_none [OF n assms(1) q(5) that] pos by (auto simp: mg_bytes_def)
      qed
      then show ?thesis using q(1-3,5) n assms(1) by (auto simp: serve_memory_def fpage_is_nil_def)
    next
      case (Some y)
      obtain va rs where y: "y = (va, rs)" by (cases y)
      have t: "conv_take (length (sg_conv g)) req (sg_conv g) = Inr (Some (va, rs))" using Inr Some y by simp
      note T = conv_take_sound [OF t assms(1) q(5)]
      have "is_aligned va ?sz" using T aligned_dvd [OF q(5)] by blast
      note F = fpage_set_made [OF q(4,5) fpage_size_def this, where g = fpage_Nil and acc = "fpage_access req"]
      show ?thesis using T F q(1-3,5) t
        by (simp add: serve_memory_def Let_def) (rule exI [of _ "fpage_set fpage_Nil va ?sz (fpage_access req)"], simp)
    qed
  qed
qed

section \<open>No byte is given twice\<close>

lemma map_reply_fpage [simp]: "map_reply stale tag fp ! 2 = fp"
  by (simp add: map_reply_def mitem_set_def numeral_2_eq_2)

lemma serve_memory_step:
  assumes "serve_memory stale tag req g = Inr (a, g')" "bf_sget 10 22 req = -1" "conv_ok (sg_conv g)"
  defines "fp \<equiv> an_words a ! 2"
  shows "conv_ok (sg_conv g') \<and> (if fpage_is_nil fp then conv_bytes (sg_conv g') \<subseteq> conv_bytes (sg_conv g)
    else block (fpage_addr fp) (fpage_size fp) \<subseteq> conv_bytes (sg_conv g)
      \<and> conv_bytes (sg_conv g') = conv_bytes (sg_conv g) - block (fpage_addr fp) (fpage_size fp))"
proof -
  have k: "fpage_log2sz req < 32" using assms(1,2) by (auto simp: serve_memory_def not_le split: if_splits)
  then obtain x where x: "conv_take (length (sg_conv g)) req (sg_conv g) = Inr x"
    and a: "(a, g') = (case x of
           None \<Rightarrow> (\<lparr>an_kdb = False, an_words = map_reply stale tag fpage_Nil\<rparr>, g)
         | Some (va, rs) \<Rightarrow>
             let fp = fpage_set fpage_Nil va (fpage_size req) (fpage_access req) in
             (\<lparr>an_kdb = fpage_is_nil fp, an_words = map_reply stale tag fp\<rparr>,
              g\<lparr>sg_conv := rs, sg_conv_size := sg_conv_size g - fpage_size req\<rparr>))"
    using assms(1,2) by (auto simp: serve_memory_def)
  show ?thesis
  proof (cases x)
    case None
    then show ?thesis using a assms(3) by (simp add: fp_def fpage_is_nil_def)
  next
    case (Some y)
    obtain va rs where y: "y = (va, rs)" by (cases y)
    note T = conv_take_sound [OF x [unfolded Some y] assms(3) k]
    have fp: "fp = fpage_set fpage_Nil va (fpage_size req) (fpage_access req)" "sg_conv g' = rs"
      using a by (simp_all add: Some y fp_def Let_def)
    show ?thesis
    proof (cases "12 \<le> fpage_log2sz req")
      case True
      have "is_aligned va (fpage_size req)" using T aligned_dvd [OF k] by blast
      note F = fpage_set_made [OF True k fpage_size_def this, where g = fpage_Nil and acc = "fpage_access req"]
      show ?thesis using T F unfolding fp by simp
    next
      case False
      have "\<nexists>n. 12 \<le> n \<and> n < 32 \<and> fpage_size req = push_bit n 1 \<and> is_aligned va (fpage_size req)"
      proof
        assume "\<exists>n. 12 \<le> n \<and> n < 32 \<and> fpage_size req = push_bit n 1 \<and> is_aligned va (fpage_size req)"
        then obtain n where n: "12 \<le> n" "n < 32" "push_bit (fpage_log2sz req) 1 = (push_bit n 1 :: u32)"
          by (auto simp: fpage_size_def simp del: push_bit_of_1)
        then have "(2::nat) ^ fpage_log2sz req = 2 ^ n" using unat_push_bit_1 [OF k] unat_push_bit_1 [OF n(2)] by argo
        then show False using False n(1) by simp
      qed
      then have "fpage_is_nil fp" unfolding fp by (simp add: fpage_set_nil fpage_is_nil_def)
      then show ?thesis using T fp(2) by auto
    qed
  qed
qed

text \<open>The memory that a turn of the loop hands out of the free regions.\<close>

definition granted :: "u32 list \<Rightarrow> answer option \<Rightarrow> fpage list" where
  "granted mr a =
     (case a of
        None \<Rightarrow> []
      | Some an \<Rightarrow>
          if tag_proto_label (mr ! 0) = tag_Sigma0 \<and> bf_sget 10 22 (mr ! 1) = -1 \<and> \<not> fpage_is_nil (an_words an ! 2)
          then [an_words an ! 2] else [])"

inductive given :: "sigma0 \<Rightarrow> fpage list \<Rightarrow> sigma0 \<Rightarrow> bool" for g0 where
  start: "given g0 [] g0"
| turn: "given g0 fps g \<Longrightarrow> sigma0_turn stale from mr g = Inr (a, g') \<Longrightarrow> given g0 (granted mr a @ fps) g'"

lemma turn_step:
  assumes "sigma0_turn stale sndr mr g = Inr (a, g')" "conv_ok (sg_conv g)"
  shows "conv_ok (sg_conv g') \<and> (case granted mr a of
      [] \<Rightarrow> conv_bytes (sg_conv g') \<subseteq> conv_bytes (sg_conv g)
    | fp # _ \<Rightarrow> block (fpage_addr fp) (fpage_size fp) \<subseteq> conv_bytes (sg_conv g)
        \<and> conv_bytes (sg_conv g') = conv_bytes (sg_conv g) - block (fpage_addr fp) (fpage_size fp))"
proof (cases "sndr = thrid_roottask \<and> tag_proto_label (mr ! 0) = tag_Sigma0")
  case True
  then obtain an where a: "a = Some an" "serve_memory stale (mr ! 0) (mr ! 1) g = Inr (an, g')"
    using assms(1) by (auto simp: sigma0_turn_def Let_def tag_Sigma0_def tag_Pagefault_def split: if_splits)
  show ?thesis
  proof (cases "bf_sget 10 22 (mr ! 1) = -1")
    case True
    then show ?thesis using serve_memory_step [OF a(2) True assms(2)] a(1) by (simp add: granted_def split: if_splits)
  next
    case False
    then show ?thesis using a assms(2) by (auto simp: granted_def serve_memory_def)
  qed
next
  case False
  then have "g' = g" "granted mr a = []"
    using assms(1) by (auto simp: sigma0_turn_def Let_def granted_def tag_Sigma0_def tag_Pagefault_def split: if_splits)
  then show ?thesis using assms(2) by simp
qed

text \<open>
  C21. Whatever requests the root task and others send, in whatever order: the blocks that sigma0 has handed
  out of its free memory lie in the memory that was free at the start, no two of them overlap, none
  overlaps what is still free, and the list of free regions stays consistent.
\<close>

theorem no_byte_twice:
  assumes "given g0 fps g" "conv_ok (sg_conv g0)"
  defines "bytes \<equiv> \<lambda>fp. block (fpage_addr fp) (fpage_size fp)"
  shows "conv_ok (sg_conv g) \<and> sorted_wrt (\<lambda>p q. bytes p \<inter> bytes q = {}) fps
    \<and> (\<forall>fp\<in>set fps. bytes fp \<subseteq> conv_bytes (sg_conv g0) \<and> bytes fp \<inter> conv_bytes (sg_conv g) = {})
    \<and> conv_bytes (sg_conv g) \<subseteq> conv_bytes (sg_conv g0)"
  using assms(1)
proof induction
  case (turn fps g stale sndr mr a g')
  note step = turn_step [OF turn.hyps(2)]
  show ?case
  proof (cases "granted mr a")
    case Nil
    then show ?thesis using turn.IH step by auto
  next
    case (Cons fp l)
    then have "granted mr a = [fp]" by (auto simp: granted_def split: option.splits if_splits)
    moreover from this have "conv_ok (sg_conv g')" "bytes fp \<subseteq> conv_bytes (sg_conv g)" "conv_bytes (sg_conv g') = conv_bytes (sg_conv g) - bytes fp"
      using turn.IH step by (simp_all add: bytes_def)
    ultimately show ?thesis using turn.IH by (auto simp: disjoint_iff)
  qed
qed (use assms(2) in simp)

section \<open>Page faults of the root task\<close>

lemma page_down_aligned: "is_aligned (pg_down a) 0x1000"
  by (simp add: pg_down_def is_aligned_def and.assoc)

lemma page_fpage:
  fixes stale tag addr :: u32
  defines "acc \<equiv> tag_pfault_access tag"
  defines "fp \<equiv> fpage_set stale (pg_down addr) Page_sz acc"
  shows "\<not> fpage_is_nil fp" "fpage_addr fp = pg_down addr" "fpage_size fp = Page_sz" "fpage_access fp = acc"
proof -
  have a: "acc AND Acc_rwx = acc"
  proof -
    have "Acc_rwx = mask 3" by code_simp
    then have "acc AND Acc_rwx = take_bit 3 acc" by (simp only: take_bit_eq_mask)
    then show ?thesis by (simp add: acc_def tag_pfault_access_def bf_get_def)
  qed
  show "\<not> fpage_is_nil fp" "fpage_addr fp = pg_down addr" "fpage_size fp = Page_sz" "fpage_access fp = acc"
    using fpage_set_made [of 12 Page_sz "pg_down addr" stale acc] page_down_aligned [of addr] a
    by (simp_all add: fp_def Page_sz_def)
qed

lemma bf_set_same: "bf_get off n p = v \<Longrightarrow> bf_set off n v p = (p :: u32)"
  by (rule bit_word_eqI) (auto simp: bit_bf_set bit_bf_get)

text \<open>
  To a page fault of the root task the reply is one that the kernel takes for the answer to a fault: a
  map item of exactly the page of the fault with the rights of the access. The debugger is entered exactly
  when no region of the root task holds that page with those rights; the page is mapped even then.
\<close>

theorem pfault_request:
  assumes "tag_untyped tag = 2" "tag_typed tag = 0"
  shows "\<exists>a fp. serve_pfault stale tag addr g = Inr a \<and> an_words a = map_reply stale tag fp
    \<and> tag_is_pf_reply (an_words a ! 0) \<and> titem_is_map (an_words a ! 1)
    \<and> fpage_addr fp = pg_down addr \<and> fpage_size fp = Page_sz \<and> fpage_access fp = tag_pfault_access tag
    \<and> (an_kdb a \<longleftrightarrow> \<not> (\<exists>r\<in>set (sg_root g). mg_is_inside_acc r fp))"
proof -
  define fp where "fp = fpage_set stale (pg_down addr) Page_sz (tag_pfault_access tag)"
  note f = page_fpage [of stale addr tag, folded fp_def]
  have w: "titem_is_map (map_reply stale tag fp ! 1)" "map_reply stale tag fp ! 0 = reply_tag tag"
    by (simp_all add: map_reply_def mitem_set_def titem_is_map_def titem_type_def bf_simps)
  have same: "bf_set 0 3 (tag_pfault_access tag) fp = fp" using f(4) by (intro bf_set_same) (simp add: fpage_access_def)
  show ?thesis
  proof (cases "find (\<lambda>r. mg_is_inside_acc r fp) (sg_root g)")
    case None
    then have "\<not> (\<exists>r\<in>set (sg_root g). mg_is_inside_acc r fp)" by (auto simp: find_None_iff)
    then show ?thesis using f w assms None by (auto simp: serve_pfault_def fp_def [symmetric] intro!: exI [of _ fp])
  next
    case (Some r)
    then have "r \<in> set (sg_root g)" "mg_is_inside_acc r fp" by (auto simp: find_Some_iff)
    then show ?thesis using f w assms Some same by (auto simp: serve_pfault_def fp_def [symmetric] intro!: exI [of _ fp])
  qed
qed

section \<open>The lists of the boot loader\<close>

definition desc_region :: "mem_desc \<Rightarrow> mregion" where
  "desc_region d = \<lparr>mg_addr = push_bit 10 (md_low d), mg_size = push_bit 10 (md_high d + 1) - push_bit 10 (md_low d), mg_acc = Acc_rwx\<rparr>"

text \<open>The free memory of sigma0 is what the descriptors call conventional, in their order.\<close>

lemma read_mdesc_conv:
  "read_mdesc ds g = Inr g' \<Longrightarrow> sg_conv g' = sg_conv g @ map desc_region (filter (\<lambda>d. md_type d = Md_conventional) ds)"
proof (induction ds arbitrary: g)
  case (Cons d ds)
  have n: "Md_bootloader \<noteq> Md_conventional" by (simp add: Md_bootloader_def Md_conventional_def)
  show ?case using Cons n
    by (auto simp: Let_def mg_push_def desc_region_def split: if_splits option.splits dest!: Cons.IH)
qed simp

section \<open>A concrete run\<close>

definition small_descs :: "mem_desc list" where
  "small_descs = [\<lparr>md_low = 0x100000, md_high = 0x100fff, md_type = 14, md_exact = 6\<rparr>,
     \<lparr>md_low = 0x101000, md_high = 0x101fff, md_type = 1, md_exact = 0\<rparr>]"

definition small_sigma0 :: sigma0 where
  "small_sigma0 = \<lparr>sg_root = [\<lparr>mg_addr = 0x40000000, mg_size = 0x400000, mg_acc = Acc_rw\<rparr>],
     sg_conv = [\<lparr>mg_addr = 0x40400000, mg_size = 0x400000, mg_acc = Acc_rwx\<rparr>], sg_conv_size = 0x400000\<rparr>"

definition mem_request :: "u32 list" where "mem_request = [0xfe000002, 0xfffffcc7, 0]"

lemma small_start: "read_mdesc small_descs sigma0_new = Inr small_sigma0"
  by (simp add: small_descs_def sigma0_new_def small_sigma0_def mg_push_def Mregions_max_def root_acc_def Md_bootloader_def Md_conventional_def)

lemma small_ok: "conv_ok (sg_conv small_sigma0)"
  by (simp add: conv_ok_def mg_ok_def small_sigma0_def)

lemma small_turn: "case sigma0_turn 0 thrid_roottask mem_request small_sigma0 of
    Inr (a, g) \<Rightarrow> granted mem_request a = [0x404000c7] | Inl _ \<Rightarrow> False"
  by code_simp

lemma small_request: "alloc_request 0xfe000002 0xfffffcc7" "length (sg_conv small_sigma0) < Mregions_max"
  by code_simp+

theorem memory_request_witness:
  "\<exists>a g. serve_memory 0 0xfe000002 0xfffffcc7 small_sigma0 = Inr (a, g) \<and> conv_ok (sg_conv g)"
proof (cases "serve_memory 0 0xfe000002 0xfffffcc7 small_sigma0")
  case (Inl e)
  then show ?thesis using memory_request [OF small_ok small_request(1), of 0] small_request(2) by simp
next
  case (Inr x)
  then show ?thesis using memory_request [OF small_ok small_request(1), of 0] by (cases x) simp
qed

theorem no_byte_twice_witness:
  "\<exists>g. given small_sigma0 [0x404000c7] g \<and> conv_ok (sg_conv g)
     \<and> block 0x40400000 0x1000 \<inter> conv_bytes (sg_conv g) = {}"
proof -
  obtain a g where t: "sigma0_turn 0 thrid_roottask mem_request small_sigma0 = Inr (a, g)"
    "granted mem_request a = [0x404000c7]" using small_turn by (auto split: sum.splits)
  have "given small_sigma0 [0x404000c7] g" using given.turn [OF given.start t(1)] t(2) by simp
  moreover have "fpage_addr 0x404000c7 = 0x40400000" "fpage_size 0x404000c7 = 0x1000" by code_simp+
  ultimately show ?thesis using no_byte_twice [of small_sigma0 "[0x404000c7]" g] small_ok by auto
qed

theorem pfault_request_witness:
  "\<exists>a. serve_pfault 0 0xff900002 0x40001234 small_sigma0 = Inr a \<and> \<not> an_kdb a"
proof -
  have t: "tag_untyped 0xff900002 = 2" "tag_typed 0xff900002 = 0" "tag_pfault_access 0xff900002 = 4" by code_simp+
  have p: "pg_down 0x40001234 = 0x40001000" by code_simp
  show ?thesis using pfault_request [OF t(1,2), of 0 "0x40001234" small_sigma0]
    by (auto simp: small_sigma0_def mg_is_inside_acc_def mg_is_inside_def mg_is_acc_fit_def mg_end_def fpage_end_def p t(3)
        Page_sz_def Acc_rw_def Acc_r_def Acc_w_def)
qed

end
