(* ===== verification/Wstdio.thy ===== *)
theory Wstdio
  imports L4_Types
begin

text \<open>
  Formatted output of the C library: \<open>vsnprintf\<close> of \<open>lib/wlibc/src/stdio.c\<close>, for the 32-bit target. Strings
  are lists of characters without the terminator, the output buffer is a list and \<open>sz\<close> the size the caller
  names; a write outside the list is \<open>Bad_access\<close>. The floating-point directives go through a
  parameter \<open>flt\<close> that gives their text; wide strings panic as in the code. The warning that is printed
  for a bad format is left out.
\<close>

section \<open>Output to a bounded buffer\<close>

definition put :: "nat \<Rightarrow> char \<Rightarrow> string \<Rightarrow> string res" where
  "put i ch buf = (if i < length buf then Inr (buf[i := ch]) else Inl Bad_access)"

text \<open>\<open>off\<close> is where the part of the buffer begins that the function was given, \<open>sz\<close> the size of that part.\<close>

definition add_char :: "nat \<Rightarrow> u32 \<Rightarrow> u32 \<Rightarrow> char \<Rightarrow> string \<Rightarrow> string res" where
  "add_char off sz buf_ptr ch buf = (if buf_ptr < sz then put (off + unat buf_ptr) ch buf else Inr buf)"

primrec add_text :: "nat \<Rightarrow> u32 \<Rightarrow> u32 \<Rightarrow> string \<Rightarrow> string \<Rightarrow> string res" where
  "add_text off sz buf_ptr [] buf = Inr buf"
| "add_text off sz buf_ptr (c # cs) buf = res_bind (add_char off sz buf_ptr c buf) (add_text off sz (buf_ptr + 1) cs)"

text \<open>The loops of \<open>add_chars\<close> and \<open>add_str\<close> count with an \<open>int\<close>.\<close>

definition add_chars :: "nat \<Rightarrow> u32 \<Rightarrow> u32 \<Rightarrow> char \<Rightarrow> u32 \<Rightarrow> string \<Rightarrow> (u32 \<times> string) res" where
  "add_chars off sz buf_ptr ch count buf =
     (if count < 0x80000000
      then res_bind (add_text off sz buf_ptr (replicate (unat count) ch) buf) (\<lambda>b. Inr (buf_ptr + count, b))
      else Inl Bad_access)"

section \<open>Directives\<close>

datatype length_spec = Length_none | Length_hh | Length_h | Length_l | Length_ll | Length_j | Length_z | Length_t | Length_L

record spec =
  sp_present :: u32
  sp_flags :: u32
  sp_width :: u32
  sp_precision :: u32
  sp_length :: length_spec
  sp_specifier :: char

definition Align_left :: u32 where "Align_left = 1"
definition Force_sign :: u32 where "Force_sign = 2"
definition Space_instead_plus :: u32 where "Space_instead_plus = 4"
definition Alternate :: u32 where "Alternate = 8"
definition Null_pad :: u32 where "Null_pad = 16"

definition Flags_present :: u32 where "Flags_present = 1"
definition Width_present :: u32 where "Width_present = 2"
definition Precision_present :: u32 where "Precision_present = 4"
definition Length_present :: u32 where "Length_present = 8"
definition Specifier_present :: u32 where "Specifier_present = 16"

definition has :: "u32 \<Rightarrow> u32 \<Rightarrow> bool" where "has w f \<longleftrightarrow> w AND f \<noteq> 0"

definition spec_new :: spec where
  "spec_new = \<lparr>sp_present = 0, sp_flags = 0, sp_width = 0, sp_precision = 0, sp_length = Length_none, sp_specifier = CHR 0x00\<rparr>"

definition digit_char :: "nat \<Rightarrow> char" where
  "digit_char n = (if n < 10 then char_of (48 + n) else char_of (97 + n - 10))"

definition Digits_len :: nat where "Digits_len = 22"

text \<open>The loop that fills \<open>digits\<close>, least significant first.\<close>

function digits_from :: "u64 \<Rightarrow> u64 \<Rightarrow> string \<Rightarrow> string res" where
  "digits_from base val ds =
     (if length ds < Digits_len then
        let ds' = ds @ [digit_char (unat (val mod base))]; v = val div base in
        if v \<noteq> 0 then digits_from base v ds' else Inr ds'
      else Inl Bad_access)"
  by pat_completeness auto
termination by (relation "measure (\<lambda>(_, _, ds). Digits_len - length ds)") auto

declare digits_from.simps [simp del]

definition int_sign :: "spec \<Rightarrow> u64 \<Rightarrow> bool \<Rightarrow> string" where
  "int_sign sp base positive =
     (if base = 10 then
        if positive then
          if has (sp_flags sp) Force_sign then ''+'' else if has (sp_flags sp) Space_instead_plus then '' '' else []
        else ''-''
      else [])"

definition int_prefix :: "spec \<Rightarrow> u64 \<Rightarrow> string" where
  "int_prefix sp base =
     (if has (sp_flags sp) Alternate then if base = 16 then ''0x'' else if base = 8 then ''0'' else [] else [])"

definition pad_chars :: "nat \<Rightarrow> u32 \<Rightarrow> spec \<Rightarrow> bool \<Rightarrow> char \<Rightarrow> u32 \<Rightarrow> u32 \<times> string \<Rightarrow> (u32 \<times> string) res" where
  "pad_chars off sz sp left pad len st =
     (let (buf_ptr, buf) = st in
      if has (sp_flags sp) Align_left = left \<and> len < sp_width sp
      then add_chars off sz buf_ptr pad (sp_width sp - len) buf else Inr st)"

definition add_all :: "nat \<Rightarrow> u32 \<Rightarrow> string \<Rightarrow> u32 \<times> string \<Rightarrow> (u32 \<times> string) res" where
  "add_all off sz text st =
     (let (buf_ptr, buf) = st in res_bind (add_text off sz buf_ptr text buf) (\<lambda>b. Inr (buf_ptr + of_nat (length text), b)))"

definition snprint_64bit_int :: "nat \<Rightarrow> u32 \<Rightarrow> u64 \<Rightarrow> spec \<Rightarrow> u64 \<Rightarrow> bool \<Rightarrow> string \<Rightarrow> (u32 \<times> string) res" where
  "snprint_64bit_int off sz val sp base positive buf =
     (if base \<noteq> 8 \<and> base \<noteq> 10 \<and> base \<noteq> 16 then Inr (0, buf)
      else
        res_bind (digits_from base val []) (\<lambda>digits.
        let num = of_nat (length digits); sign = int_sign sp base positive; prefix = int_prefix sp base;
            len = max num (sp_precision sp) + of_nat (length sign) + of_nat (length prefix);
            pad = (if has (sp_flags sp) Null_pad then CHR ''0'' else CHR '' '') in
        res_bind (pad_chars off sz sp False pad len (0, buf)) (\<lambda>s1.
        res_bind (add_all off sz sign s1) (\<lambda>s2.
        res_bind (add_all off sz prefix s2) (\<lambda>s3.
        res_bind (if num < sp_precision sp then add_chars off sz (fst s3) (CHR ''0'') (sp_precision sp - num) (snd s3) else Inr s3) (\<lambda>s4.
        res_bind (add_all off sz (rev digits) s4) (\<lambda>s5.
        pad_chars off sz sp True pad len s5)))))))"

definition snprint_int64 :: "nat \<Rightarrow> u32 \<Rightarrow> u64 \<Rightarrow> spec \<Rightarrow> u64 \<Rightarrow> string \<Rightarrow> (u32 \<times> string) res" where
  "snprint_int64 off sz val sp base buf = snprint_64bit_int off sz (if sint val < 0 then - val else val) sp base (sint val \<ge> 0) buf"

definition snprint_char :: "nat \<Rightarrow> u32 \<Rightarrow> char \<Rightarrow> spec \<Rightarrow> string \<Rightarrow> (u32 \<times> string) res" where
  "snprint_char off sz ch sp buf =
     res_bind (pad_chars off sz sp False (CHR '' '') 1 (0, buf)) (\<lambda>s1.
     res_bind (add_all off sz [ch] s1) (\<lambda>s2. pad_chars off sz sp True (CHR '' '') 1 s2))"

definition snprint_str :: "nat \<Rightarrow> u32 \<Rightarrow> string \<Rightarrow> spec \<Rightarrow> string \<Rightarrow> (u32 \<times> string) res" where
  "snprint_str off sz str sp buf =
     (let n = of_nat (length str); len = (if has (sp_present sp) Precision_present then min n (sp_precision sp) else n) in
      if len < 0x80000000 then
        res_bind (pad_chars off sz sp False (CHR '' '') len (0, buf)) (\<lambda>s1.
        res_bind (add_all off sz (take (unat len) str) s1) (\<lambda>s2. pad_chars off sz sp True (CHR '' '') len s2))
      else Inl Bad_access)"

section \<open>Arguments\<close>

text \<open>The variable arguments in order: words, double words, strings, floating-point numbers and pointers for \<open>%n\<close>.\<close>

datatype arg = A_word u32 | A_dword u64 | A_str string | A_flt u64 | A_ptr u32

fun va_word :: "arg list \<Rightarrow> (u32 \<times> arg list) res" where
  "va_word (A_word w # as) = Inr (w, as)"
| "va_word _ = Inl Bad_access"

fun va_dword :: "arg list \<Rightarrow> (u64 \<times> arg list) res" where
  "va_dword (A_dword w # as) = Inr (w, as)"
| "va_dword _ = Inl Bad_access"

fun va_str :: "arg list \<Rightarrow> (string \<times> arg list) res" where
  "va_str (A_str s # as) = Inr (s, as)"
| "va_str _ = Inl Bad_access"

fun va_flt :: "arg list \<Rightarrow> (u64 \<times> arg list) res" where
  "va_flt (A_flt w # as) = Inr (w, as)"
| "va_flt _ = Inl Bad_access"

fun va_ptr :: "arg list \<Rightarrow> (u32 \<times> arg list) res" where
  "va_ptr (A_ptr w # as) = Inr (w, as)"
| "va_ptr _ = Inl Bad_access"

definition map_arg :: "('a \<Rightarrow> 'b) \<Rightarrow> ('a \<times> arg list) res \<Rightarrow> ('b \<times> arg list) res" where
  "map_arg f r = res_bind r (\<lambda>(x, as). Inr (f x, as))"

definition signed_arg :: "length_spec \<Rightarrow> arg list \<Rightarrow> (u64 \<times> arg list) res" where
  "signed_arg l as =
     (case l of
        Length_hh \<Rightarrow> map_arg (\<lambda>w. scast (w AND 0xff)) (va_word as)
      | Length_h \<Rightarrow> map_arg (\<lambda>w. scast (w AND 0xffff)) (va_word as)
      | Length_z \<Rightarrow> map_arg ucast (va_word as)
      | Length_ll \<Rightarrow> va_dword as
      | Length_j \<Rightarrow> va_dword as
      | Length_L \<Rightarrow> va_dword as
      | _ \<Rightarrow> map_arg scast (va_word as))"

definition unsigned_arg :: "length_spec \<Rightarrow> arg list \<Rightarrow> (u64 \<times> arg list) res" where
  "unsigned_arg l as =
     (case l of
        Length_hh \<Rightarrow> map_arg (\<lambda>w. ucast (w AND 0xff)) (va_word as)
      | Length_h \<Rightarrow> map_arg (\<lambda>w. ucast (w AND 0xffff)) (va_word as)
      | Length_t \<Rightarrow> map_arg scast (va_word as)
      | Length_ll \<Rightarrow> va_dword as
      | Length_j \<Rightarrow> va_dword as
      | Length_L \<Rightarrow> va_dword as
      | _ \<Rightarrow> map_arg ucast (va_word as))"

text \<open>The bytes that \<open>%n\<close> writes through its pointer.\<close>

definition store_bytes :: "length_spec \<Rightarrow> nat" where
  "store_bytes l = (case l of Length_hh \<Rightarrow> 1 | Length_h \<Rightarrow> 2 | Length_ll \<Rightarrow> 8 | Length_j \<Rightarrow> 8 | Length_L \<Rightarrow> 8 | _ \<Rightarrow> 4)"

type_synonym stores = "(u32 \<times> nat \<times> u32) list"
type_synonym flt = "spec \<Rightarrow> u64 \<Rightarrow> string"

text \<open>The result with the arguments that are left and what was stored; \<open>-1\<close> is an error.\<close>

definition with_args :: "(u32 \<times> string) res \<Rightarrow> arg list \<Rightarrow> (u32 \<times> string \<times> arg list \<times> stores) res" where
  "with_args r as = res_bind r (\<lambda>(n, buf). Inr (n, buf, as, []))"

definition vsnprint_spec :: "flt \<Rightarrow> nat \<Rightarrow> u32 \<Rightarrow> arg list \<Rightarrow> u32 \<Rightarrow> spec \<Rightarrow> string \<Rightarrow> (u32 \<times> string \<times> arg list \<times> stores) res" where
  "vsnprint_spec flt off sz as written sp buf =
     (let c = sp_specifier sp; l = sp_length sp; unexpected = Inr (-1, buf, as, []) in
      if c = CHR ''d'' \<or> c = CHR ''i'' then
        res_bind (signed_arg l as) (\<lambda>(val, as'). with_args (snprint_int64 off sz val sp 10 buf) as')
      else if c = CHR ''u'' \<or> c = CHR ''o'' \<or> c = CHR ''x'' \<or> c = CHR ''X'' then
        res_bind (unsigned_arg l as) (\<lambda>(val, as').
        with_args (snprint_64bit_int off sz val sp (if c = CHR ''u'' then 10 else if c = CHR ''o'' then 8 else 16) True buf) as')
      else if c \<in> set ''fFeEgGaA'' then
        if l = Length_none then
          res_bind (va_flt as) (\<lambda>(val, as'). with_args (add_all off sz (flt sp val) (0, buf)) as')
        else unexpected
      else if c = CHR ''c'' then
        if l = Length_none \<or> l = Length_l then
          res_bind (va_word as) (\<lambda>(val, as'). with_args (snprint_char off sz (char_of (unat val)) sp buf) as')
        else unexpected
      else if c = CHR ''s'' then
        if l = Length_none then res_bind (va_str as) (\<lambda>(str, as'). with_args (snprint_str off sz str sp buf) as')
        else if l = Length_l then Inl Panic
        else unexpected
      else if c = CHR ''p'' then
        if l = Length_none then
          res_bind (va_word as) (\<lambda>(val, as'). with_args (snprint_64bit_int off sz (ucast val) sp 16 True buf) as')
        else unexpected
      else if c = CHR ''n'' then
        res_bind (va_ptr as) (\<lambda>(p, as'). Inr (0, buf, as', [(p, store_bytes l, written)]))
      else if c = CHR ''%'' then
        if sp_present sp = Specifier_present then
          res_bind (if sz > 0 then put off (CHR ''%'') buf else Inr buf) (\<lambda>b. Inr (1, b, as, []))
        else unexpected
      else unexpected)"

section \<open>The format\<close>

datatype parse_stage =
  P_none | P_flags | P_width_asterisk | P_width_digits | P_precision_dot | P_precision_asterisk | P_precision_digits
| P_length | P_length_h | P_length_l | P_specifier

record pf =
  pf_stage :: parse_stage
  pf_spec :: spec
  pf_ptr :: u32
  pf_buf :: string
  pf_args :: "arg list"
  pf_stores :: stores

definition sp_upd :: "(spec \<Rightarrow> spec) \<Rightarrow> pf \<Rightarrow> pf" where "sp_upd f s = s\<lparr>pf_spec := f (pf_spec s)\<rparr>"

text \<open>A test of the loop ends the turn, falls through to the next test, or leaves the loop.\<close>

datatype turn = Turn pf | Fall pf | Leave pf

definition stage_flags :: "char \<Rightarrow> pf \<Rightarrow> turn" where
  "stage_flags ch s =
     (if pf_stage s \<noteq> P_flags then Fall s
      else
        let flag = (\<lambda>f. Turn (sp_upd (\<lambda>sp. sp\<lparr>sp_present := sp_present sp OR Flags_present, sp_flags := sp_flags sp OR f\<rparr>) s)) in
        if ch = CHR ''-'' then flag Align_left
        else if ch = CHR ''+'' then flag Force_sign
        else if ch = CHR '' '' then flag Space_instead_plus
        else if ch = CHR ''#'' then flag Alternate
        else if ch = CHR ''0'' then flag Null_pad
        else Fall (s\<lparr>pf_stage := P_width_asterisk\<rparr>))"

definition is_digit :: "char \<Rightarrow> bool" where "is_digit ch \<longleftrightarrow> 48 \<le> (of_char ch :: nat) \<and> (of_char ch :: nat) \<le> 57"
definition digit_value :: "char \<Rightarrow> u32" where "digit_value ch = of_char ch - 48"

definition stage_width_asterisk :: "char \<Rightarrow> pf \<Rightarrow> turn res" where
  "stage_width_asterisk ch s =
     (if pf_stage s \<noteq> P_width_asterisk then Inr (Fall s)
      else if ch = CHR ''*'' then
        res_bind (va_word (pf_args s)) (\<lambda>(w, as).
        Inr (Turn (sp_upd (\<lambda>sp. sp\<lparr>sp_width := w, sp_present := sp_present sp OR Width_present\<rparr>)
          (s\<lparr>pf_args := as, pf_stage := P_precision_dot\<rparr>))))
      else Inr (Fall (s\<lparr>pf_stage := P_width_digits\<rparr>)))"

definition stage_width_digits :: "char \<Rightarrow> pf \<Rightarrow> turn" where
  "stage_width_digits ch s =
     (if pf_stage s \<noteq> P_width_digits then Fall s
      else if is_digit ch then
        Turn (sp_upd (\<lambda>sp. sp\<lparr>sp_width := sp_width sp * 10 + digit_value ch, sp_present := sp_present sp OR Width_present\<rparr>) s)
      else Fall (s\<lparr>pf_stage := P_precision_dot\<rparr>))"

definition stage_precision_dot :: "char \<Rightarrow> pf \<Rightarrow> turn" where
  "stage_precision_dot ch s =
     (if pf_stage s \<noteq> P_precision_dot then Fall s
      else if ch = CHR ''.'' then
        Turn (sp_upd (\<lambda>sp. sp\<lparr>sp_present := sp_present sp OR Precision_present\<rparr>) (s\<lparr>pf_stage := P_precision_asterisk\<rparr>))
      else Fall (s\<lparr>pf_stage := P_length\<rparr>))"

definition stage_precision_asterisk :: "char \<Rightarrow> pf \<Rightarrow> turn res" where
  "stage_precision_asterisk ch s =
     (if pf_stage s \<noteq> P_precision_asterisk then Inr (Fall s)
      else if ch = CHR ''*'' then
        res_bind (va_word (pf_args s)) (\<lambda>(w, as).
        Inr (Turn (sp_upd (\<lambda>sp. sp\<lparr>sp_precision := w\<rparr>) (s\<lparr>pf_args := as, pf_stage := P_length\<rparr>))))
      else Inr (Fall (s\<lparr>pf_stage := P_precision_digits\<rparr>)))"

definition stage_precision_digits :: "char \<Rightarrow> pf \<Rightarrow> turn" where
  "stage_precision_digits ch s =
     (if pf_stage s \<noteq> P_precision_digits then Fall s
      else if is_digit ch then Turn (sp_upd (\<lambda>sp. sp\<lparr>sp_precision := sp_precision sp * 10 + digit_value ch\<rparr>) s)
      else Fall (s\<lparr>pf_stage := P_length\<rparr>))"

definition stage_length :: "char \<Rightarrow> pf \<Rightarrow> turn" where
  "stage_length ch s =
     (if pf_stage s \<noteq> P_length then Fall s
      else
        let len = (\<lambda>l st. Turn (sp_upd (\<lambda>sp. sp\<lparr>sp_present := sp_present sp OR Length_present, sp_length := l\<rparr>) (s\<lparr>pf_stage := st\<rparr>))) in
        if ch = CHR ''h'' then len Length_h P_length_h
        else if ch = CHR ''l'' then len Length_l P_length_l
        else if ch = CHR ''j'' then len Length_j P_specifier
        else if ch = CHR ''z'' then len Length_z P_specifier
        else if ch = CHR ''t'' then len Length_t P_specifier
        else if ch = CHR ''L'' then len Length_L P_specifier
        else Fall (sp_upd (\<lambda>sp. sp\<lparr>sp_present := (sp_present sp OR Length_present) AND NOT Length_present\<rparr>) (s\<lparr>pf_stage := P_specifier\<rparr>)))"

definition stage_length_2 :: "parse_stage \<Rightarrow> char \<Rightarrow> length_spec \<Rightarrow> char \<Rightarrow> pf \<Rightarrow> turn" where
  "stage_length_2 st c l ch s =
     (if pf_stage s \<noteq> st then Fall s
      else if ch = c then Turn (sp_upd (\<lambda>sp. sp\<lparr>sp_length := l\<rparr>) (s\<lparr>pf_stage := P_specifier\<rparr>))
      else Fall (s\<lparr>pf_stage := P_specifier\<rparr>))"

definition stage_specifier :: "flt \<Rightarrow> u32 \<Rightarrow> char \<Rightarrow> pf \<Rightarrow> turn res" where
  "stage_specifier flt sz ch s =
     (if pf_stage s \<noteq> P_specifier then Inr (Fall s)
      else
        let sp = (pf_spec s)\<lparr>sp_present := sp_present (pf_spec s) OR Specifier_present, sp_specifier := ch\<rparr>;
            p = min sz (pf_ptr s) in
        res_bind (vsnprint_spec flt (unat p) (sz - p) (pf_args s) (pf_ptr s) sp (pf_buf s)) (\<lambda>(n, buf, as, st).
        let s1 = s\<lparr>pf_spec := sp, pf_buf := buf, pf_args := as, pf_stores := pf_stores s @ st\<rparr> in
        Inr (if sint n < 0 then Leave (s1\<lparr>pf_ptr := n\<rparr>) else Fall (s1\<lparr>pf_ptr := pf_ptr s + n, pf_stage := P_none\<rparr>))))"

definition and_then :: "turn \<Rightarrow> (pf \<Rightarrow> turn res) \<Rightarrow> turn res" where
  "and_then t f = (case t of Fall s \<Rightarrow> f s | _ \<Rightarrow> Inr t)"

definition pf_char :: "flt \<Rightarrow> u32 \<Rightarrow> char \<Rightarrow> pf \<Rightarrow> turn res" where
  "pf_char flt sz ch s =
     (if pf_stage s = P_none then
        if ch = CHR ''%'' then Inr (Turn (s\<lparr>pf_spec := spec_new, pf_stage := P_flags\<rparr>))
        else
          res_bind (add_all 0 sz [ch] (pf_ptr s, pf_buf s)) (\<lambda>s1.
          res_bind (if ch = CHR 0x0A then add_all 0 sz [CHR 0x0D] s1 else Inr s1) (\<lambda>(n, buf).
          Inr (Turn (s\<lparr>pf_ptr := n, pf_buf := buf\<rparr>))))
      else
        and_then (stage_flags ch s) (\<lambda>s1.
        res_bind (stage_width_asterisk ch s1) (\<lambda>t. and_then t (\<lambda>s2.
        and_then (stage_width_digits ch s2) (\<lambda>s3.
        and_then (stage_precision_dot ch s3) (\<lambda>s4.
        res_bind (stage_precision_asterisk ch s4) (\<lambda>t. and_then t (\<lambda>s5.
        and_then (stage_precision_digits ch s5) (\<lambda>s6.
        and_then (stage_length ch s6) (\<lambda>s7.
        and_then (stage_length_2 P_length_h (CHR ''h'') Length_hh ch s7) (\<lambda>s8.
        and_then (stage_length_2 P_length_l (CHR ''l'') Length_ll ch s8) (stage_specifier flt sz ch))))))))))))"

fun pf_loop :: "flt \<Rightarrow> u32 \<Rightarrow> string \<Rightarrow> pf \<Rightarrow> pf res" where
  "pf_loop flt sz [] s = Inr s"
| "pf_loop flt sz (ch # cs) s =
     res_bind (pf_char flt sz ch s) (\<lambda>t.
     case t of Turn s' \<Rightarrow> pf_loop flt sz cs s' | Fall s' \<Rightarrow> pf_loop flt sz cs s' | Leave s' \<Rightarrow> Inr s')"

definition vsnprintf :: "flt \<Rightarrow> u32 \<Rightarrow> string \<Rightarrow> arg list \<Rightarrow> string \<Rightarrow> (u32 \<times> string \<times> stores) res" where
  "vsnprintf flt sz format as buf0 =
     res_bind (pf_loop flt sz format
       \<lparr>pf_stage = P_none, pf_spec = spec_new, pf_ptr = 0, pf_buf = buf0, pf_args = as, pf_stores = []\<rparr>) (\<lambda>s.
     let n = pf_ptr s in
     res_bind (if sz \<noteq> 0 then put (if sint n < 0 then 0 else if n < sz then unat n else unat sz - 1) (CHR 0x00) (pf_buf s)
               else Inr (pf_buf s)) (\<lambda>buf.
     Inr (if sint n < 0 then 0 else n, buf, pf_stores s)))"

section \<open>What reaches the buffer\<close>

text \<open>
  What an operation writes does not depend on the size of the buffer: it is a sequence of characters with
  their positions, of which those below the limit reach the buffer.
\<close>

type_synonym writes = "(nat \<times> char) list"

definition wr :: "nat \<Rightarrow> writes \<Rightarrow> string \<Rightarrow> string" where
  "wr lim E b = foldl (\<lambda>b (i, c). if i < lim then b[i := c] else b) b E"

lemma wr_simps [simp]: "wr lim [] b = b" "wr lim (E @ E') b = wr lim E' (wr lim E b)"
  "wr lim ((i, c) # E) b = wr lim E (if i < lim then b[i := c] else b)"
  by (simp_all add: wr_def)

lemma length_wr [simp]: "length (wr lim E b) = length b"
  by (induction E arbitrary: b) (auto simp: wr_def)

lemma wr_above: "lim \<le> i \<Longrightarrow> wr lim E b ! i = b ! i"
  by (induction E arbitrary: b) auto

lemma wr_agree:
  assumes "i \<in> fst ` set E" "i < lim" "i < lim'" "lim \<le> length b" "lim' \<le> length b'"
  shows "wr lim E b ! i = wr lim' E b' ! i"
  using assms(1)
proof (induction E rule: rev_induct)
  case (snoc e E)
  obtain j c where e: "e = (j, c)" by fastforce
  show ?case using snoc assms(2-5) by (cases "i = j") (auto simp: e nth_list_update)
qed simp

text \<open>Every position before the next one has been written.\<close>

definition covered :: "u32 \<Rightarrow> writes \<Rightarrow> bool" where "covered p E \<longleftrightarrow> (\<forall>i<unat p. i \<in> fst ` set E)"

definition shown :: "nat \<Rightarrow> u32 \<Rightarrow> string \<Rightarrow> u32 \<times> writes \<Rightarrow> u32 \<times> string" where
  "shown off sz b = (\<lambda>(p, E). (p, wr (off + unat sz) (map (\<lambda>(i, c). (off + i, c)) E) b))"

text \<open>An operation on a position and the buffer whose result and writes are the same for all buffers.\<close>

definition steady :: "(nat \<Rightarrow> u32 \<Rightarrow> u32 \<times> string \<Rightarrow> (u32 \<times> string) res) \<Rightarrow> bool" where
  "steady f \<longleftrightarrow> (\<forall>p E. covered p E \<longrightarrow> (\<exists>r. (\<forall>off sz b. off + unat sz \<le> length b \<longrightarrow>
     f off sz (shown off sz b (p, E)) = map_sum id (shown off sz b) r) \<and> (\<forall>x. r = Inr x \<longrightarrow> covered (fst x) (snd x))))"

lemma steady_bind:
  assumes "steady f" "steady g"
  shows "steady (\<lambda>off sz st. res_bind (f off sz st) (g off sz))"
  unfolding steady_def
proof (intro allI impI)
  fix p E
  assume "covered p E"
  then obtain r where r: "\<And>off sz b. off + unat sz \<le> length b \<Longrightarrow> f off sz (shown off sz b (p, E)) = map_sum id (shown off sz b) r"
    "\<And>x. r = Inr x \<Longrightarrow> covered (fst x) (snd x)" using assms(1) unfolding steady_def by metis
  show "\<exists>r. (\<forall>off sz b. off + unat sz \<le> length b \<longrightarrow>
     res_bind (f off sz (shown off sz b (p, E))) (g off sz) = map_sum id (shown off sz b) r) \<and> (\<forall>x. r = Inr x \<longrightarrow> covered (fst x) (snd x))"
  proof (cases r)
    case (Inl e)
    then show ?thesis using r by (intro exI [of _ "Inl e"]) simp
  next
    case (Inr x)
    then have "covered (fst x) (snd x)" using r(2) by simp
    then obtain r' where "\<And>off sz b. off + unat sz \<le> length b \<Longrightarrow> g off sz (shown off sz b x) = map_sum id (shown off sz b) r'"
      "\<And>x. r' = Inr x \<Longrightarrow> covered (fst x) (snd x)" using assms(2) unfolding steady_def by (metis prod.collapse)
    then show ?thesis using r(1) Inr by (intro exI [of _ r']) simp
  qed
qed

lemma steady_Inr: "steady (\<lambda>off sz st. Inr st)"
  unfolding steady_def by (intro allI impI) (rule exI [of _ "Inr _"], auto)

lemma steady_Inl: "steady (\<lambda>off sz st. Inl e)"
  unfolding steady_def by (intro allI impI exI [of _ "Inl e"]) auto

lemma steady_if: "steady f \<Longrightarrow> steady g \<Longrightarrow> steady (\<lambda>off sz st. if c then f off sz st else g off sz st)"
  by (cases c) simp_all

definition text_writes :: "u32 \<Rightarrow> string \<Rightarrow> writes" where
  "text_writes p t = map (\<lambda>i. (unat (p + of_nat i), t ! i)) [0..<length t]"

lemma text_writes_Cons: "text_writes p (c # t) = (unat p, c) # text_writes (p + 1) t"
  by (simp add: text_writes_def upt_conv_Cons map_Suc_upt [symmetric] add.assoc del: map_Suc_upt upt_Suc)

lemma covered_text: "covered p E \<Longrightarrow> covered (p + of_nat (length t)) (E @ text_writes p t)"
proof (induction t arbitrary: p E)
  case (Cons c t)
  have "covered (p + 1) (E @ [(unat p, c)])"
  proof (cases "p + 1 = 0")
    case False
    have "unat (p + 1) = (unat p + 1) mod 2 ^ 32" by (simp add: unat_word_ariths)
    moreover have "unat (p + 1) \<noteq> 0" using False by (simp only: unat_eq_0) simp
    moreover have "unat p < 2 ^ 32" by (rule u32_less)
    ultimately have "unat (p + 1) = unat p + 1" by (cases "unat p + 1 = 2 ^ 32") simp_all
    then show ?thesis using Cons.prems by (auto simp: covered_def less_Suc_eq)
  qed (simp add: covered_def)
  from Cons.IH [OF this] show ?case by (simp add: text_writes_Cons add.assoc)
qed (simp add: text_writes_def)

lemma add_text_eq:
  "off + unat sz \<le> length b \<Longrightarrow> add_text off sz p t b = Inr (wr (off + unat sz) (map (\<lambda>(i, c). (off + i, c)) (text_writes p t)) b)"
proof (induction t arbitrary: p b)
  case (Cons c t)
  then show ?case by (auto simp: add_char_def put_def word_less_nat_alt text_writes_Cons)
qed (simp add: text_writes_def)

lemma steady_add_all: "steady (\<lambda>off sz. add_all off sz t)"
  unfolding steady_def
proof (intro allI impI)
  fix p E
  assume "covered p E"
  then show "\<exists>r. (\<forall>off sz b. off + unat sz \<le> length b \<longrightarrow>
     add_all off sz t (shown off sz b (p, E)) = map_sum id (shown off sz b) r) \<and> (\<forall>x. r = Inr x \<longrightarrow> covered (fst x) (snd x))"
    by (intro exI [of _ "Inr (p + of_nat (length t), E @ text_writes p t)"])
       (auto simp: add_all_def shown_def add_text_eq covered_text)
qed

lemma add_chars_all:
  "add_chars off sz p ch n b = (if n < 0x80000000 then add_all off sz (replicate (unat n) ch) (p, b) else Inl Bad_access)"
  by (simp add: add_chars_def add_all_def)

lemma steady_add_chars: "steady (\<lambda>off sz st. add_chars off sz (fst st) ch n (snd st))"
  using steady_add_all [of "replicate (unat n) ch"] by (cases "n < 0x80000000") (simp_all add: add_chars_all steady_Inl)

lemma pad_chars_eq:
  "pad_chars off sz sp left pad len = (\<lambda>st. if has (sp_flags sp) Align_left = left \<and> len < sp_width sp
     then add_chars off sz (fst st) pad (sp_width sp - len) (snd st) else Inr st)"
  by (simp add: pad_chars_def fun_eq_iff)

lemma steady_pad: "steady (\<lambda>off sz. pad_chars off sz sp left pad len)"
  unfolding pad_chars_eq by (rule steady_if [OF steady_add_chars steady_Inr])

lemmas steady_rules = steady_bind steady_Inr steady_Inl steady_if steady_add_all steady_add_chars steady_pad

text \<open>A directive, which begins with position 0 of its part of the buffer.\<close>

definition steady0 :: "(nat \<Rightarrow> u32 \<Rightarrow> string \<Rightarrow> (u32 \<times> string) res) \<Rightarrow> bool" where
  "steady0 f \<longleftrightarrow> (\<exists>r. (\<forall>off sz b. off + unat sz \<le> length b \<longrightarrow> f off sz b = map_sum id (shown off sz b) r)
     \<and> (\<forall>x. r = Inr x \<longrightarrow> covered (fst x) (snd x)))"

lemma steady0_start: "steady f \<Longrightarrow> steady0 (\<lambda>off sz b. f off sz (0, b))"
proof -
  assume "steady f"
  then have "covered 0 [] \<longrightarrow> (\<exists>r. (\<forall>off sz b. off + unat sz \<le> length b \<longrightarrow>
     f off sz (shown off sz b (0, [])) = map_sum id (shown off sz b) r) \<and> (\<forall>x. r = Inr x \<longrightarrow> covered (fst x) (snd x)))"
    unfolding steady_def by blast
  then show ?thesis by (simp add: steady0_def shown_def covered_def)
qed

lemma steady0_Inl: "steady0 (\<lambda>off sz b. Inl e)"
  by (auto simp: steady0_def intro!: exI [of _ "Inl e"])

lemma steady0_zero: "steady0 (\<lambda>off sz b. Inr (0, b))"
  by (auto simp: steady0_def shown_def covered_def intro!: exI [of _ "Inr (0, [])"])

lemma steady_int: "steady0 (\<lambda>off sz b. snprint_64bit_int off sz val sp base positive b)"
proof (cases "base \<noteq> 8 \<and> base \<noteq> 10 \<and> base \<noteq> 16")
  case True
  then show ?thesis using steady0_zero by (simp add: snprint_64bit_int_def)
next
  case False
  show ?thesis
  proof (cases "digits_from base val []")
    case (Inl e)
    then show ?thesis unfolding snprint_64bit_int_def if_not_P [OF False] by (simp add: steady0_Inl)
  next
    case (Inr ds)
    show ?thesis unfolding snprint_64bit_int_def if_not_P [OF False] Inr res_bind_simps Let_def
      by (intro steady0_start steady_rules)
  qed
qed

lemma steady_char: "steady0 (\<lambda>off sz b. snprint_char off sz ch sp b)"
  unfolding snprint_char_def by (intro steady0_start steady_rules)

lemma steady_str: "steady0 (\<lambda>off sz b. snprint_str off sz str sp b)"
proof -
  define len where "len = (if has (sp_present sp) Precision_present then min (of_nat (length str)) (sp_precision sp) else of_nat (length str))"
  have "snprint_str off sz str sp b = (if len < 0x80000000 then
      res_bind (pad_chars off sz sp False (CHR '' '') len (0, b)) (\<lambda>s1.
      res_bind (add_all off sz (take (unat len) str) s1) (\<lambda>s2. pad_chars off sz sp True (CHR '' '') len s2)) else Inl Bad_access)" for off sz b
    unfolding snprint_str_def Let_def len_def by (rule refl)
  moreover have "steady0 (\<lambda>off sz b. if len < 0x80000000 then
      res_bind (pad_chars off sz sp False (CHR '' '') len (0, b)) (\<lambda>s1.
      res_bind (add_all off sz (take (unat len) str) s1) (\<lambda>s2. pad_chars off sz sp True (CHR '' '') len s2)) else Inl Bad_access)"
    by (intro steady0_start steady_rules)
  ultimately show ?thesis by simp
qed

lemma steady_percent: "steady0 (\<lambda>off sz b. res_bind (if sz > 0 then put off (CHR ''%'') b else Inr b) (\<lambda>b. Inr (1, b)))"
  unfolding steady0_def
  by (rule exI [of _ "Inr (1, [(0, CHR ''%'')])"]) (auto simp: put_def shown_def covered_def word_less_nat_alt)

text \<open>A directive with its arguments: the same, with what is left of the arguments and the stores.\<close>

definition steady_spec :: "(nat \<Rightarrow> u32 \<Rightarrow> string \<Rightarrow> (u32 \<times> string \<times> 'a) res) \<Rightarrow> bool" where
  "steady_spec f \<longleftrightarrow> (\<exists>r. (\<forall>off sz b. off + unat sz \<le> length b \<longrightarrow>
     f off sz b = map_sum id (\<lambda>(x, y). (fst x, snd (shown off sz b x), y)) r) \<and> (\<forall>x y. r = Inr (x, y) \<longrightarrow> sint (fst x) < 0 \<or> covered (fst x) (snd x)))"

lemma steady_spec_Inl: "steady_spec (\<lambda>off sz b. Inl e)"
  unfolding steady_spec_def by (intro exI [of _ "Inl e"]) simp

lemma steady_spec_same: "sint n < 0 \<or> n = 0 \<Longrightarrow> steady_spec (\<lambda>off sz b. Inr (n, b, y))"
  unfolding steady_spec_def by (intro exI [of _ "Inr ((n, []), y)"]) (auto simp: shown_def covered_def)

lemma steady_spec_map:
  assumes "steady0 f"
  shows "steady_spec (\<lambda>off sz b. res_bind (f off sz b) (\<lambda>(n, b). Inr (n, b, y)))"
proof -
  obtain r where r: "\<And>off sz b. off + unat sz \<le> length b \<Longrightarrow> f off sz b = map_sum id (shown off sz b) r"
    "\<And>x. r = Inr x \<Longrightarrow> covered (fst x) (snd x)" using assms unfolding steady0_def by metis
  have "fst (shown off sz b x) = fst x" for off sz b x by (simp add: shown_def case_prod_beta)
  then show ?thesis using r unfolding steady_spec_def
    by (intro exI [of _ "map_sum id (\<lambda>x. (x, y)) r"], cases r) (auto simp: case_prod_beta)
qed

lemma steady_spec_arg: "(\<And>v as. steady_spec (g v as)) \<Longrightarrow> steady_spec (\<lambda>off sz b. res_bind (a :: ('v \<times> arg list) res) (\<lambda>(v, as). g v as off sz b))"
  by (cases a) (auto simp: steady_spec_Inl case_prod_beta)

lemma steady_with_args: "steady0 f \<Longrightarrow> steady_spec (\<lambda>off sz b. with_args (f off sz b) as)"
  unfolding with_args_def by (rule steady_spec_map)

lemma steady_spec_if: "steady_spec f \<Longrightarrow> steady_spec g \<Longrightarrow> steady_spec (\<lambda>off sz b. if c then f off sz b else g off sz b)"
  by (cases c) simp_all

lemma steady_flt: "steady0 (\<lambda>off sz b. add_all off sz t (0, b))"
  by (intro steady0_start steady_rules)

lemma steady_vsnprint: "steady_spec (\<lambda>off sz b. vsnprint_spec flt off sz as written sp b)"
proof -
  have p: "steady_spec (\<lambda>off sz b. res_bind (if sz > 0 then put off (CHR ''%'') b else Inr b) (\<lambda>b. Inr (1, b, as, [])))"
    using steady_spec_map [OF steady_percent, of "(as, [])"] by (simp add: res_bind_assoc)
  have neg: "steady_spec (\<lambda>off sz b. Inr (- 1, b, as, []))" by (rule steady_spec_same) simp
  have stor: "steady_spec (\<lambda>off sz b. Inr (0, b, as', st))" for as' st by (rule steady_spec_same) simp
  show ?thesis unfolding vsnprint_spec_def Let_def snprint_int64_def
    by (intro steady_spec_if steady_spec_arg steady_with_args steady_spec_Inl steady_int steady_char steady_str steady_flt p neg stor)
qed

section \<open>The loop over the format\<close>

text \<open>A state of the loop for a buffer, and the outcome of a turn for it.\<close>

definition conc :: "u32 \<Rightarrow> string \<Rightarrow> writes \<Rightarrow> pf \<Rightarrow> pf" where "conc sz b E s = s\<lparr>pf_buf := wr (unat sz) E b\<rparr>"

definition conc_turn :: "u32 \<Rightarrow> string \<Rightarrow> turn \<times> writes \<Rightarrow> turn" where
  "conc_turn sz b = (\<lambda>(t, E). case t of Turn s \<Rightarrow> Turn (conc sz b E s) | Fall s \<Rightarrow> Fall (conc sz b E s) | Leave s \<Rightarrow> Leave (conc sz b E s))"

definition turn_ok :: "turn \<Rightarrow> writes \<Rightarrow> bool" where
  "turn_ok t E = (case t of Turn s \<Rightarrow> covered (pf_ptr s) E | Fall s \<Rightarrow> covered (pf_ptr s) E | Leave s \<Rightarrow> sint (pf_ptr s) < 0)"

definition steady_stage :: "(u32 \<Rightarrow> pf \<Rightarrow> turn res) \<Rightarrow> bool" where
  "steady_stage g \<longleftrightarrow> (\<forall>s E. covered (pf_ptr s) E \<longrightarrow> (\<exists>r. (\<forall>sz b. unat sz \<le> length b \<longrightarrow>
     g sz (conc sz b E s) = map_sum id (conc_turn sz b) r) \<and> (\<forall>t E'. r = Inr (t, E') \<longrightarrow> turn_ok t E')))"

lemma steady_stageI:
  assumes "\<And>s E. covered (pf_ptr s) E \<Longrightarrow>
    \<exists>r. (\<forall>sz b. unat sz \<le> length b \<longrightarrow> g sz (conc sz b E s) = map_sum id (conc_turn sz b) r) \<and> (\<forall>t E'. r = Inr (t, E') \<longrightarrow> turn_ok t E')"
  shows "steady_stage g"
  using assms unfolding steady_stage_def by blast

text \<open>A stage that does not look at the buffer.\<close>

lemma steady_stage_pure:
  assumes "\<And>sz b E s. g (conc sz b E s) = map_sum id (\<lambda>t. conc_turn sz b (t, E)) (g s)"
    and "\<And>s t E. g s = Inr t \<Longrightarrow> covered (pf_ptr s) E \<Longrightarrow> turn_ok t E"
  shows "steady_stage (\<lambda>sz. g)"
proof (rule steady_stageI)
  fix s :: pf and E
  assume "covered (pf_ptr s) E"
  then show "\<exists>r. (\<forall>sz b. unat sz \<le> length b \<longrightarrow> g (conc sz b E s) = map_sum id (conc_turn sz b) r) \<and> (\<forall>t E'. r = Inr (t, E') \<longrightarrow> turn_ok t E')"
    using assms by (intro exI [of _ "map_sum id (\<lambda>t. (t, E)) (g s)"], cases "g s") auto
qed

lemma steady_stage_then:
  assumes "steady_stage f" "steady_stage g"
  shows "steady_stage (\<lambda>sz s. res_bind (f sz s) (\<lambda>t. and_then t (g sz)))"
proof (rule steady_stageI)
  fix s :: pf and E
  assume "covered (pf_ptr s) E"
  then obtain r where r: "\<And>sz b. unat sz \<le> length b \<Longrightarrow> f sz (conc sz b E s) = map_sum id (conc_turn sz b) r"
    "\<And>t E'. r = Inr (t, E') \<Longrightarrow> turn_ok t E'" using assms(1) unfolding steady_stage_def by metis
  show "\<exists>r. (\<forall>sz b. unat sz \<le> length b \<longrightarrow>
     res_bind (f sz (conc sz b E s)) (\<lambda>t. and_then t (g sz)) = map_sum id (conc_turn sz b) r) \<and> (\<forall>t E'. r = Inr (t, E') \<longrightarrow> turn_ok t E')"
  proof (cases "\<exists>s' E'. r = Inr (Fall s', E')")
    case True
    then obtain s' E' where x: "r = Inr (Fall s', E')" by blast
    then have "covered (pf_ptr s') E'" using r(2) by (fastforce simp: turn_ok_def)
    then obtain r' where "\<And>sz b. unat sz \<le> length b \<Longrightarrow> g sz (conc sz b E' s') = map_sum id (conc_turn sz b) r'"
      "\<And>t E'. r' = Inr (t, E') \<Longrightarrow> turn_ok t E'" using assms(2) unfolding steady_stage_def by metis
    then show ?thesis using r(1) x by (intro exI [of _ r']) (simp add: conc_turn_def and_then_def)
  next
    case False
    then show ?thesis using r
      by (intro exI [of _ r], cases r) (auto simp: conc_turn_def and_then_def split: turn.splits)
  qed
qed

lemmas stage_defs = stage_flags_def stage_width_asterisk_def stage_width_digits_def stage_precision_dot_def
  stage_precision_asterisk_def stage_precision_digits_def stage_length_def stage_length_2_def sp_upd_def Let_def

lemma conc_fields [simp]: "pf_stage (conc sz b E s) = pf_stage s" "pf_spec (conc sz b E s) = pf_spec s"
  "pf_ptr (conc sz b E s) = pf_ptr s" "pf_args (conc sz b E s) = pf_args s" "pf_stores (conc sz b E s) = pf_stores s"
  "pf_buf (conc sz b E s) = wr (unat sz) E b"
  by (simp_all add: conc_def)

lemma map_sum_bind: "map_sum id f (res_bind m g) = res_bind m (\<lambda>x. map_sum id f (g x))"
  by (cases m) simp_all

lemmas stage_simps = stage_defs conc_def conc_turn_def turn_ok_def map_sum_bind case_prod_beta'

lemma steady_flags: "steady_stage (\<lambda>sz s. Inr (stage_flags ch s))"
  by (rule steady_stage_pure) (auto simp: stage_simps split: if_splits)

lemma steady_width_asterisk: "steady_stage (\<lambda>sz. stage_width_asterisk ch)"
  by (rule steady_stage_pure) (auto simp: stage_simps split: if_splits intro!: res_bind_cong)

lemma steady_width_digits: "steady_stage (\<lambda>sz s. Inr (stage_width_digits ch s))"
  by (rule steady_stage_pure) (auto simp: stage_simps split: if_splits)

lemma steady_precision_dot: "steady_stage (\<lambda>sz s. Inr (stage_precision_dot ch s))"
  by (rule steady_stage_pure) (auto simp: stage_simps split: if_splits)

lemma steady_precision_asterisk: "steady_stage (\<lambda>sz. stage_precision_asterisk ch)"
  by (rule steady_stage_pure) (auto simp: stage_simps split: if_splits intro!: res_bind_cong)

lemma steady_precision_digits: "steady_stage (\<lambda>sz s. Inr (stage_precision_digits ch s))"
  by (rule steady_stage_pure) (auto simp: stage_simps split: if_splits)

lemma steady_length: "steady_stage (\<lambda>sz s. Inr (stage_length ch s))"
  by (rule steady_stage_pure) (auto simp: stage_simps split: if_splits)

lemma steady_length_2: "steady_stage (\<lambda>sz s. Inr (stage_length_2 st c l ch s))"
  by (rule steady_stage_pure) (auto simp: stage_simps split: if_splits)

text \<open>The writes of a directive at their places in the whole buffer.\<close>

lemma wr_local:
  "wr (unat (min sz p) + unat (sz - min sz p)) (map (\<lambda>(i, c). (unat (min sz p) + i, c)) E) b
    = wr (unat sz) (map (\<lambda>(i, c). (unat p + i, c)) E) b"
proof (cases "p \<le> sz")
  case True
  then show ?thesis by (simp add: min_def unat_sub word_le_nat_alt)
next
  case False
  have "wr lim (map (\<lambda>(i, c). (k + i, c)) E) b = b" if "lim \<le> k" for lim k
    using that by (induction E arbitrary: b) auto
  then show ?thesis using False by (simp add: min_def word_le_nat_alt)
qed

lemma covered_local:
  assumes "covered p E" "covered n F"
  shows "covered (p + n) (E @ map (\<lambda>(i, c). (unat p + i, c)) F)"
  unfolding covered_def
proof (intro allI impI)
  fix i
  assume i: "i < unat (p + n)"
  have "unat (p + n) = (unat p + unat n) mod 2 ^ 32" by (simp add: unat_word_ariths)
  then have "unat (p + n) \<le> unat p + unat n" by simp
  then have le: "i < unat p + unat n" using i by simp
  show "i \<in> fst ` set (E @ map (\<lambda>(i, c). (unat p + i, c)) F)"
  proof (cases "i < unat p")
    case True
    then show ?thesis using assms(1) by (auto simp: covered_def)
  next
    case False
    then have "i - unat p \<in> fst ` set F" using le assms(2) by (simp add: covered_def)
    then obtain c where "(i - unat p, c) \<in> set F" by auto
    then have "(i, c) \<in> set (map (\<lambda>(i, c). (unat p + i, c)) F)"
      using False by (auto simp: image_iff intro!: bexI [of _ "(i - unat p, c)"])
    then have "fst (i, c) \<in> fst ` set (map (\<lambda>(i, c). (unat p + i, c)) F)" by (rule imageI)
    then show ?thesis by (simp add: image_Un)
  qed
qed

lemma steady_specifier: "steady_stage (\<lambda>sz. stage_specifier flt sz ch)"
proof (rule steady_stageI)
  fix s :: pf and E
  assume c: "covered (pf_ptr s) E"
  let ?p = "pf_ptr s"
  define sp where "sp = (pf_spec s)\<lparr>sp_present := sp_present (pf_spec s) OR Specifier_present, sp_specifier := ch\<rparr>"
  obtain r where r: "\<And>off sz b. off + unat sz \<le> length b \<Longrightarrow> vsnprint_spec flt off sz (pf_args s) ?p sp b
      = map_sum id (\<lambda>(x, y). (fst x, snd (shown off sz b x), y)) r"
    "\<And>x y. r = Inr (x, y) \<Longrightarrow> sint (fst x) < 0 \<or> covered (fst x) (snd x)"
    using steady_vsnprint [of flt "pf_args s" ?p sp] unfolding steady_spec_def by blast
  define out where "out = (\<lambda>((n, F), as, st). 
    let s1 = s\<lparr>pf_spec := sp, pf_args := as, pf_stores := pf_stores s @ st\<rparr> in
    (if sint n < 0 then Leave (s1\<lparr>pf_ptr := n\<rparr>) else Fall (s1\<lparr>pf_ptr := ?p + n, pf_stage := P_none\<rparr>),
     E @ map (\<lambda>(i, c). (unat ?p + i, c)) F))"
  show "\<exists>r. (\<forall>sz b. unat sz \<le> length b \<longrightarrow> stage_specifier flt sz ch (conc sz b E s) = map_sum id (conc_turn sz b) r)
    \<and> (\<forall>t E'. r = Inr (t, E') \<longrightarrow> turn_ok t E')"
  proof (cases "pf_stage s = P_specifier")
    case False
    then show ?thesis using c by (intro exI [of _ "Inr (Fall s, E)"]) (simp add: stage_specifier_def conc_turn_def turn_ok_def)
  next
    case True
    have run: "stage_specifier flt sz ch (conc sz b E s) = map_sum id (conc_turn sz b) (map_sum id out r)" if "unat sz \<le> length b" for sz b
    proof -
      have "unat (min sz ?p) + unat (sz - min sz ?p) = unat sz" by (simp add: unat_sub min_def word_le_nat_alt)
      then have "vsnprint_spec flt (unat (min sz ?p)) (sz - min sz ?p) (pf_args s) ?p sp (wr (unat sz) E b)
        = map_sum id (\<lambda>(x, y). (fst x, snd (shown (unat (min sz ?p)) (sz - min sz ?p) (wr (unat sz) E b) x), y)) r"
        using that by (intro r(1)) simp
      then show ?thesis using True
        by (cases r) (auto simp: stage_specifier_def sp_def [symmetric] Let_def shown_def wr_local out_def conc_turn_def conc_def)
    qed
    have "turn_ok (fst (out x)) (snd (out x))" if "r = Inr x" for x
      using r(2) [of "fst x" "snd x"] that c
      by (auto simp: out_def turn_ok_def Let_def case_prod_beta intro: covered_local)
    then show ?thesis using run by (intro exI [of _ "map_sum id out r"], cases r) auto
  qed
qed

lemma steady_plain: "steady_stage (\<lambda>sz s.
    res_bind (add_all 0 sz t (pf_ptr s, pf_buf s)) (\<lambda>(n, buf). Inr (Turn (s\<lparr>pf_ptr := n, pf_buf := buf\<rparr>))))"
proof (rule steady_stageI)
  fix s :: pf and E
  assume "covered (pf_ptr s) E"
  then show "\<exists>r. (\<forall>sz b. unat sz \<le> length b \<longrightarrow> res_bind (add_all 0 sz t (pf_ptr (conc sz b E s), pf_buf (conc sz b E s)))
      (\<lambda>(n, buf). Inr (Turn ((conc sz b E s)\<lparr>pf_ptr := n, pf_buf := buf\<rparr>))) = map_sum id (conc_turn sz b) r)
    \<and> (\<forall>t E'. r = Inr (t, E') \<longrightarrow> turn_ok t E')"
    by (intro exI [of _ "Inr (Turn (s\<lparr>pf_ptr := pf_ptr s + of_nat (length t)\<rparr>), E @ text_writes (pf_ptr s) t)"])
       (auto simp: add_all_def add_text_eq conc_turn_def conc_def turn_ok_def covered_text case_prod_beta)
qed

lemma add_all_append: "res_bind (add_all off sz t st) (add_all off sz u) = add_all off sz (t @ u) st"
proof -
  have "add_text off sz p (t @ u) b = res_bind (add_text off sz p t b) (add_text off sz (p + of_nat (length t)) u)" for p b
    by (induction t arbitrary: p b) (auto simp: res_bind_assoc add.assoc intro!: res_bind_cong)
  then show ?thesis by (simp add: add_all_def case_prod_beta res_bind_assoc add.assoc)
qed

lemma res_bind_unit: "res_bind m Inr = m"
  by (cases m) simp_all

lemma steady_pf_char: "steady_stage (\<lambda>sz. pf_char flt sz ch)"
proof -
  let ?t = "if ch = CHR 0x0A then [ch, CHR 0x0D] else [ch]"
  let ?plain = "\<lambda>sz s. if ch = CHR ''%'' then Inr (Turn (s\<lparr>pf_spec := spec_new, pf_stage := P_flags\<rparr>))
    else res_bind (add_all 0 sz ?t (pf_ptr s, pf_buf s)) (\<lambda>(n, buf). Inr (Turn (s\<lparr>pf_ptr := n, pf_buf := buf\<rparr>)))"
  let ?dir = "\<lambda>sz s. 
        res_bind (Inr (stage_flags ch s)) (\<lambda>t. and_then t (\<lambda>s1.
        res_bind (stage_width_asterisk ch s1) (\<lambda>t. and_then t (\<lambda>s2.
        res_bind (Inr (stage_width_digits ch s2)) (\<lambda>t. and_then t (\<lambda>s3.
        res_bind (Inr (stage_precision_dot ch s3)) (\<lambda>t. and_then t (\<lambda>s4.
        res_bind (stage_precision_asterisk ch s4) (\<lambda>t. and_then t (\<lambda>s5.
        res_bind (Inr (stage_precision_digits ch s5)) (\<lambda>t. and_then t (\<lambda>s6.
        res_bind (Inr (stage_length ch s6)) (\<lambda>t. and_then t (\<lambda>s7.
        res_bind (Inr (stage_length_2 P_length_h (CHR ''h'') Length_hh ch s7)) (\<lambda>t. and_then t (\<lambda>s8.
        res_bind (Inr (stage_length_2 P_length_l (CHR ''l'') Length_ll ch s8)) (\<lambda>t. and_then t (stage_specifier flt sz ch))))))))))))))))))"
  have "steady_stage (\<lambda>sz s. Inr (Turn (s\<lparr>pf_spec := spec_new, pf_stage := P_flags\<rparr>)))"
    by (rule steady_stage_pure) (auto simp: stage_simps)
  then have p: "steady_stage ?plain" using steady_plain [of ?t] by (cases "ch = CHR ''%''") simp_all
  have d: "steady_stage ?dir"
    by (intro steady_stage_then steady_flags steady_width_asterisk steady_width_digits steady_precision_dot
        steady_precision_asterisk steady_precision_digits steady_length steady_length_2 steady_specifier)
  have e: "pf_char flt sz ch s = (if pf_stage s = P_none then ?plain sz s else ?dir sz s)" for sz s
    using add_all_append [of 0 sz "[ch]" "(pf_ptr s, pf_buf s)" "[CHR 0x0D]"]
    by (auto simp: pf_char_def res_bind_assoc [symmetric] res_bind_unit)
  show ?thesis
  proof (rule steady_stageI)
    fix s :: pf and E
    assume "covered (pf_ptr s) E"
    then show "\<exists>r. (\<forall>sz b. unat sz \<le> length b \<longrightarrow> pf_char flt sz ch (conc sz b E s) = map_sum id (conc_turn sz b) r)
      \<and> (\<forall>t E'. r = Inr (t, E') \<longrightarrow> turn_ok t E')"
      using p d unfolding e steady_stage_def by (cases "pf_stage s = P_none") simp_all
  qed
qed

lemma pf_loop_steady:
  "covered (pf_ptr s) E \<Longrightarrow> \<exists>r. (\<forall>sz b. unat sz \<le> length b \<longrightarrow>
     pf_loop flt sz fmt (conc sz b E s) = map_sum id (\<lambda>(s, E). conc sz b E s) r) \<and>
     (\<forall>s' E'. r = Inr (s', E') \<longrightarrow> sint (pf_ptr s') < 0 \<or> covered (pf_ptr s') E')"
proof (induction fmt arbitrary: s E)
  case Nil
  then show ?case by (intro exI [of _ "Inr (s, E)"]) simp
next
  case (Cons ch fmt)
  obtain r where r: "\<And>sz b. unat sz \<le> length b \<Longrightarrow> pf_char flt sz ch (conc sz b E s) = map_sum id (conc_turn sz b) r"
    "\<And>t E'. r = Inr (t, E') \<Longrightarrow> turn_ok t E'" using steady_pf_char [of flt ch] Cons.prems unfolding steady_stage_def by metis
  consider e where "r = Inl e" | s' E' where "r = Inr (Turn s', E') \<or> r = Inr (Fall s', E')" | s' E' where "r = Inr (Leave s', E')"
    by (metis obj_sumE surj_pair turn.exhaust)
  then show ?case
  proof cases
    case 1
    then show ?thesis using r(1) by (intro exI [of _ "Inl e"]) simp
  next
    case 2
    then have "covered (pf_ptr s') E'" using r(2) by (fastforce simp: turn_ok_def)
    then obtain r' where "\<And>sz b. unat sz \<le> length b \<Longrightarrow> pf_loop flt sz fmt (conc sz b E' s') = map_sum id (\<lambda>(s, E). conc sz b E s) r'"
      "\<And>s E. r' = Inr (s, E) \<Longrightarrow> sint (pf_ptr s) < 0 \<or> covered (pf_ptr s) E" using Cons.IH by metis
    then show ?thesis using 2 r(1) by (intro exI [of _ r']) (auto simp: conc_turn_def id_def)
  next
    case 3
    then have "sint (pf_ptr s') < 0" using r(2) by (fastforce simp: turn_ok_def)
    then show ?thesis using 3 r(1) by (intro exI [of _ "Inr (s', E')"]) (auto simp: conc_turn_def)
  qed
qed

text \<open>Where the terminator goes, for a final position.\<close>

definition end_pos :: "u32 \<Rightarrow> u32 \<Rightarrow> nat" where
  "end_pos sz n = (if sint n < 0 then 0 else if n < sz then unat n else unat sz - 1)"

lemma vsnprintf_steady:
  "\<exists>r. (\<forall>sz b. unat sz \<le> length b \<longrightarrow> vsnprintf flt sz fmt as b
      = map_sum id (\<lambda>(n, E, st). (if sint n < 0 then 0 else n,
          if sz \<noteq> 0 then (wr (unat sz) E b)[end_pos sz n := CHR 0x00] else b, st)) r)
    \<and> (\<forall>n E st. r = Inr (n, E, st) \<longrightarrow> sint n < 0 \<or> covered n E)"
proof -
  let ?s = "\<lparr>pf_stage = P_none, pf_spec = spec_new, pf_ptr = 0, pf_buf = [], pf_args = as, pf_stores = []\<rparr>"
  obtain r where r: "\<And>sz b. unat sz \<le> length b \<Longrightarrow> pf_loop flt sz fmt (conc sz b [] ?s) = map_sum id (\<lambda>(s, E). conc sz b E s) r"
    "\<And>s' E'. r = Inr (s', E') \<Longrightarrow> sint (pf_ptr s') < 0 \<or> covered (pf_ptr s') E'"
    using pf_loop_steady [of ?s "[]" flt fmt] by (auto simp: covered_def)
  have z: "wr 0 E b = b" for E b by (induction E arbitrary: b) auto
  have p: "put (end_pos sz n) c b = Inr (b[end_pos sz n := c])" if "sz \<noteq> 0" "unat sz \<le> length b" for sz n c b
  proof -
    have "0 < unat sz" using that(1) by (simp add: unat_gt_0)
    then show ?thesis using that by (auto simp: put_def end_pos_def word_less_nat_alt)
  qed
  show ?thesis
  proof (intro exI [of _ "map_sum id (\<lambda>(s, E). (pf_ptr s, E, pf_stores s)) r"] conjI allI impI)
    fix sz :: u32 and b :: string
    assume "unat sz \<le> length b"
    then show "vsnprintf flt sz fmt as b = map_sum id (\<lambda>(n, E, st). (if sint n < 0 then 0 else n,
          if sz \<noteq> 0 then (wr (unat sz) E b)[end_pos sz n := CHR 0x00] else b, st)) (map_sum id (\<lambda>(s, E). (pf_ptr s, E, pf_stores s)) r)"
      using r(1) [of sz b] p by (cases r) (auto simp: vsnprintf_def Let_def conc_def end_pos_def [symmetric] z)
  next
    fix n E st
    assume "map_sum id (\<lambda>(s, E). (pf_ptr s, E, pf_stores s)) r = Inr (n, E, st)"
    then show "sint n < 0 \<or> covered n E" using r(2) by (cases r) (auto split: prod.splits)
  qed
qed

text \<open>
  C33. The size of the buffer changes only how much of the text arrives. Take any run of \<open>vsnprintf\<close> with a
  buffer in which the whole text found room. With a buffer of any other size the same format and arguments
  give the same count and the same stores, nothing is written at or behind the size the caller named, and
  a buffer of at least one byte holds the longest part of the text that fits, with the terminator behind it.
  Where one run fails, for its arguments or its format, every run fails in the same way.
\<close>

theorem printf_truncation:
  assumes "unat N \<le> length big" "unat sz \<le> length buf"
  shows "case vsnprintf flt N fmt as big of
      Inl e \<Rightarrow> vsnprintf flt sz fmt as buf = Inl e
    | Inr (n, big', st) \<Rightarrow> n < N \<longrightarrow> (\<exists>buf'. vsnprintf flt sz fmt as buf = Inr (n, buf', st)
        \<and> length buf' = length buf \<and> drop (unat sz) buf' = drop (unat sz) buf
        \<and> (sz \<noteq> 0 \<longrightarrow> (let k = min (unat n) (unat sz - 1) in take k buf' = take k big' \<and> buf' ! k = CHR 0x00)))"
proof -
  obtain r where r: "\<And>sz b. unat sz \<le> length b \<Longrightarrow> vsnprintf flt sz fmt as b
      = map_sum id (\<lambda>(n, E, st). (if sint n < 0 then 0 else n,
          if sz \<noteq> 0 then (wr (unat sz) E b)[end_pos sz n := CHR 0x00] else b, st)) r"
    "\<And>n E st. r = Inr (n, E, st) \<Longrightarrow> sint n < 0 \<or> covered n E" using vsnprintf_steady [of flt fmt as] by blast
  show ?thesis
  proof (cases r)
    case (Inl e)
    then show ?thesis using r(1) [OF assms(1)] r(1) [OF assms(2)] by simp
  next
    case (Inr x)
    obtain m E st where x: "x = (m, E, st)" by (cases x)
    define n where "n = (if sint m < 0 then 0 else m)"
    define k where "k = min (unat n) (unat sz - 1)"
    let ?s = "(wr (unat sz) E buf)[end_pos sz m := CHR 0x00]" and ?b = "(wr (unat N) E big)[end_pos N m := CHR 0x00]"
    have "drop (unat sz) ?s = drop (unat sz) buf" if "sz \<noteq> 0"
    proof -
      have "0 < unat sz" using that by (simp add: unat_gt_0)
      then have "end_pos sz m < unat sz" by (auto simp: end_pos_def word_less_nat_alt)
      then show ?thesis by (auto simp: list_eq_iff_nth_eq wr_above)
    qed
    moreover have "take k ?s = take k ?b" "?s ! k = CHR 0x00" if "sz \<noteq> 0" "n < N"
    proof -
      have pos: "0 < unat sz" "unat n < unat N" using that by (auto simp: unat_gt_0 word_less_nat_alt)
      have e: "end_pos sz m = k" "end_pos N m = unat n"
        using that(2) pos(1) by (auto simp: end_pos_def k_def n_def word_less_nat_alt)
      have "k < unat sz" using pos by (auto simp: k_def)
      then show "?s ! k = CHR 0x00" using assms(2) by (simp add: e)
      have "i \<in> fst ` set E" if "i < k" for i
        using that r(2) Inr x by (fastforce simp: k_def n_def covered_def split: if_splits)
      then show "take k ?s = take k ?b" using assms pos by (auto simp: list_eq_iff_nth_eq e k_def intro!: wr_agree)
    qed
    ultimately show ?thesis using r(1) [OF assms(1)] r(1) [OF assms(2)] assms Inr x
      by (auto simp: n_def [symmetric] k_def Let_def)
  qed
qed

text \<open>The text \<open>-42!\<close> in a buffer of eight bytes and in one of four.\<close>

definition eight :: string where "eight = replicate 8 (CHR ''z'')"

lemma eight_run: "vsnprintf (\<lambda>_ _. []) 8 ''%d!'' [A_word (- 42)] eight = Inr (4, ''-42!'' @ [CHR 0x00] @ ''zzz'', [])"
  by code_simp

theorem printf_truncation_witness:
  "\<exists>buf'. vsnprintf (\<lambda>_ _. []) 3 ''%d!'' [A_word (- 42)] eight = Inr (4, buf', [])
     \<and> take 2 buf' = ''-4'' \<and> buf' ! 2 = CHR 0x00 \<and> drop 3 buf' = drop 3 eight"
  using printf_truncation [of 8 eight 3 eight "\<lambda>_ _. []" "''%d!''" "[A_word (- 42)]"] eight_run
  by (auto simp: eight_def Let_def)

text \<open>
  Where the text is not the one the C standard asks for: zeros come before the sign, a narrow signed
  argument is printed without its sign, and \<open>%X\<close> prints small letters.
\<close>

lemma printf_null_pad: "vsnprintf flt 8 ''%05d'' [A_word (- 3)] eight = Inr (5, ''000-3'' @ [CHR 0x00] @ ''zz'', [])"
  by code_simp

lemma printf_hh: "vsnprintf flt 8 ''%hhd'' [A_word (- 1)] eight = Inr (3, ''255'' @ [CHR 0x00] @ ''zzzz'', [])"
  by code_simp

lemma printf_X: "vsnprintf flt 8 ''%X'' [A_word 0xab] eight = Inr (2, ''ab'' @ [CHR 0x00] @ ''zzzzz'', [])"
  by code_simp

section \<open>Numbers\<close>

text \<open>The value of a sequence of digits, the first the most significant.\<close>

definition digits_value :: "nat \<Rightarrow> nat list \<Rightarrow> nat" where "digits_value base ds = foldl (\<lambda>v d. v * base + d) 0 ds"

lemma digits_value_snoc: "digits_value base (ds @ [d]) = digits_value base ds * base + d"
  by (simp add: digits_value_def)

text \<open>The loop writes no more than \<open>n\<close> digits of a number below \<open>base ^ n\<close>.\<close>

lemma digits_from_value:
  "unat val < unat base ^ n \<Longrightarrow> 2 \<le> unat base \<Longrightarrow> 0 < n \<Longrightarrow> length ds + n \<le> Digits_len \<Longrightarrow>
   \<exists>xs. digits_from base val ds = Inr (ds @ map digit_char (rev xs)) \<and> digits_value (unat base) xs = unat val
     \<and> xs \<noteq> [] \<and> length xs \<le> n \<and> (\<forall>x\<in>set xs. x < unat base)"
proof (induction n arbitrary: val ds)
  case (Suc n)
  let ?d = "unat (val mod base)" and ?v = "val div base"
  have d: "?d = unat val mod unat base" "unat ?v = unat val div unat base" by (simp_all add: unat_mod unat_div)
  have len: "length ds < Digits_len" using Suc.prems(4) by simp
  have lt: "?d < unat base" using d(1) Suc.prems(2) by simp
  show ?case
  proof (cases "?v = 0")
    case True
    then have "unat val = ?d" using d by (metis div_mult_mod_eq mult_zero_left add_0 unat_0)
    then show ?thesis using True len lt
      by (intro exI [of _ "[?d]"]) (simp add: digits_from.simps [of base val ds] Let_def digits_value_def)
  next
    case False
    have lt': "unat ?v < unat base ^ n" using d(2) Suc.prems(1,2) by (simp add: less_mult_imp_div_less mult.commute)
    moreover have "0 < n" using lt' False by (cases n) (auto simp: unat_eq_0)
    ultimately obtain xs where xs: "digits_from base ?v (ds @ [digit_char ?d]) = Inr ((ds @ [digit_char ?d]) @ map digit_char (rev xs))"
      "digits_value (unat base) xs = unat ?v" "xs \<noteq> []" "length xs \<le> n" "\<forall>x\<in>set xs. x < unat base"
      using Suc.IH [of ?v "ds @ [digit_char ?d]"] Suc.prems(2,4) by auto
    have "digits_value (unat base) (xs @ [?d]) = unat val" using xs(2) d by (simp add: digits_value_snoc div_mult_mod_eq)
    then show ?thesis using xs False len lt
      by (intro exI [of _ "xs @ [?d]"]) (auto simp: digits_from.simps [of base val ds] Let_def)
  qed
qed simp

text \<open>The array of 22 digits is enough for every base and value, and the digits are those of the value.\<close>

lemma digits_exact:
  assumes "base = 8 \<or> base = 10 \<or> base = 16"
  shows "\<exists>xs. digits_from base val [] = Inr (map digit_char (rev xs)) \<and> digits_value (unat base) xs = unat val
    \<and> xs \<noteq> [] \<and> length xs \<le> 22 \<and> (\<forall>x\<in>set xs. x < unat base)"
proof -
  have "unat val < 2 ^ 64" using unsigned_less [of val] by simp
  also have "(2::nat) ^ 64 \<le> 8 ^ 22" by simp
  also have "(8::nat) ^ 22 \<le> unat base ^ 22" using assms by (intro power_mono) auto
  finally show ?thesis using digits_from_value [of val base 22 "[]"] assms by (auto simp: Digits_len_def)
qed

end
