(* ===== verification/Wstdlib.thy ===== *)
theory Wstdlib
  imports Wstdio
begin

text \<open>
  Numbers in text: \<open>strtoul\<close>, \<open>atoi\<close> and \<open>itoa\<close> of \<open>lib/wlibc/src/stdlib.c\<close>, and \<open>sprintf\<close>, through which
  \<open>itoa\<close> prints. A string is its characters without the terminator; what \<open>strtoul\<close> stores through
  \<open>endptr\<close> is the number of characters it has passed.
\<close>

section \<open>From text to numbers\<close>

text \<open>The characters with the class \<open>_ISspace\<close> in the table of \<open>ctype.c\<close>.\<close>

definition isspace :: "char \<Rightarrow> bool" where
  "isspace ch \<longleftrightarrow> (of_char ch :: nat) \<in> {9, 10, 11, 12, 13, 32}"

definition char2digit :: "nat list" where
  "char2digit = [0..<10] @ replicate 7 99 @ [10..<36] @ replicate 6 99 @ [10..<36]"

text \<open>A character in front of \<open>0\<close> wraps to a large number.\<close>

definition digit_of :: "nat \<Rightarrow> char \<Rightarrow> nat option" where
  "digit_of base ch =
     (let digit = (of_char ch :: u32) - 48 in
      if base = 8 then if digit > 7 then None else Some (unat digit)
      else if base = 10 then if digit > 9 then None else Some (unat digit)
      else if digit > 122 - 48 then None
      else
        let d = char2digit ! unat digit in
        if base = 16 then if d > 15 then None else Some d
        else if d \<ge> base then None else Some d)"

definition ULONG_MAX :: u32 where "ULONG_MAX = - 1"

definition maxres :: "nat \<Rightarrow> u32" where
  "maxres base = (if base = 8 then drop_bit 3 ULONG_MAX else if base = 16 then drop_bit 4 ULONG_MAX else ULONG_MAX div of_nat base)"

definition scale :: "nat \<Rightarrow> u32 \<Rightarrow> u32" where
  "scale base r = (if base = 8 then push_bit 3 r else if base = 16 then push_bit 4 r else r * of_nat base)"

record ulong =
  ul_result :: u32
  ul_overflow :: bool
  ul_any :: bool

text \<open>The loop over the digits: the characters it passes and the state behind them.\<close>

fun ulong_digits :: "nat \<Rightarrow> string \<Rightarrow> nat \<Rightarrow> ulong \<Rightarrow> nat \<times> ulong" where
  "ulong_digits base [] n u = (n, u)"
| "ulong_digits base (ch # cs) n u =
     (case digit_of base ch of
        None \<Rightarrow> (n, u)
      | Some digit \<Rightarrow>
          let r = scale base (ul_result u) in
          ulong_digits base cs (n + 1)
            \<lparr>ul_result = r + of_nat digit,
             ul_overflow = (ul_overflow u \<or> ul_result u > maxres base \<or> of_nat digit > ULONG_MAX - r),
             ul_any = True\<rparr>)"

text \<open>The sign, and the base with the prefix that is skipped.\<close>

definition ulong_sign :: "string \<Rightarrow> bool \<times> nat" where
  "ulong_sign p = (case p of [] \<Rightarrow> (False, 0) | c # _ \<Rightarrow> if c = CHR ''-'' then (True, 1) else if c = CHR ''+'' then (False, 1) else (False, 0))"

definition starts_x :: "string \<Rightarrow> bool" where
  "starts_x p = (case p of [] \<Rightarrow> False | c # _ \<Rightarrow> c = CHR ''x'' \<or> c = CHR ''X'')"

definition ulong_base :: "int \<Rightarrow> string \<Rightarrow> int \<times> nat \<times> bool" where
  "ulong_base base p =
     (let zero = (case p of [] \<Rightarrow> False | c # _ \<Rightarrow> c = CHR ''0'') in
      if base = 0 then
        if zero then if starts_x (tl p) then (16, 2, False) else (8, 1, True)
        else (10, 0, False)
      else if base = 16 \<and> zero \<and> starts_x (tl p) then (16, 2, False)
      else (base, 0, False))"

definition strtoul :: "string \<Rightarrow> int \<Rightarrow> u32 \<times> nat" where
  "strtoul str base =
     (let spaces = length (takeWhile isspace str); p = drop spaces str;
          (negative, sg) = ulong_sign p;
          (b, pre, any) = ulong_base base (drop sg p);
          start = spaces + sg + pre;
          u0 = \<lparr>ul_result = 0, ul_overflow = False, ul_any = any\<rparr>;
          (n, u) = (if 2 \<le> b \<and> b \<le> 36 then ulong_digits (nat b) (drop start str) start u0 else (start, u0));
          passed = (if ul_any u then n else 0) in
      (if ul_overflow u then ULONG_MAX else if negative then - ul_result u else ul_result u, passed))"

definition atoi :: "string \<Rightarrow> u32" where "atoi str = fst (strtoul str 10)"

definition Big_sz :: u32 where "Big_sz = 0x7fffffff"

definition sprintf :: "flt \<Rightarrow> string \<Rightarrow> arg list \<Rightarrow> string \<Rightarrow> (u32 \<times> string \<times> stores) res" where
  "sprintf flt format as buf = vsnprintf flt Big_sz format as buf"

definition itoa :: "u32 \<Rightarrow> string \<Rightarrow> nat \<Rightarrow> string res" where
  "itoa val str base =
     (let flt = (\<lambda>_ _. []) in
      if base = 8 then res_bind (sprintf flt ''%o'' [A_word val] str) (\<lambda>(_, s, _). Inr s)
      else if base = 10 then res_bind (sprintf flt ''%d'' [A_word val] str) (\<lambda>(_, s, _). Inr s)
      else if base = 16 then res_bind (sprintf flt ''%x'' [A_word val] str) (\<lambda>(_, s, _). Inr s)
      else Inr str)"

section \<open>Overflow is found exactly\<close>

definition is_digit_of :: "nat \<Rightarrow> char \<Rightarrow> bool" where "is_digit_of base ch \<longleftrightarrow> digit_of base ch \<noteq> None"

definition text_value :: "nat \<Rightarrow> string \<Rightarrow> nat" where "text_value base t = digits_value base (map (\<lambda>c. the (digit_of base c)) t)"

lemma text_value_snoc: "text_value base (t @ [c]) = text_value base t * base + the (digit_of base c)"
  by (simp add: text_value_def digits_value_snoc)

lemma char2digit_36: "n < 75 \<Longrightarrow> char2digit ! n < 36 \<or> char2digit ! n = 99"
proof -
  have "\<forall>x\<in>set char2digit. x < 36 \<or> x = 99" by code_simp
  moreover have "length char2digit = 75" by (simp add: char2digit_def)
  ultimately show "n < 75 \<Longrightarrow> ?thesis" using nth_mem by fastforce
qed

lemma digit_of_less: "digit_of base ch = Some d \<Longrightarrow> d < base"
  by (auto simp: digit_of_def Let_def word_less_nat_alt split: if_splits)

lemma scale_mult: "base \<le> 36 \<Longrightarrow> scale base r = r * of_nat base"
  by (auto simp: scale_def push_bit_eq_mult mult.commute)

lemma unat_ULONG_MAX: "unat ULONG_MAX = 2 ^ 32 - 1"
  by (simp add: ULONG_MAX_def unsigned_minus_1_eq_mask mask_eq_exp_minus_1)

lemma maxres_div:
  assumes "2 \<le> base" "base \<le> 36"
  shows "unat (maxres base) = (2 ^ 32 - 1) div base"
proof -
  have "maxres base = ULONG_MAX div of_nat base" using assms by (auto simp: maxres_def drop_bit_eq_div)
  moreover have "unat (of_nat base :: u32) = base" using assms by (simp add: unat_of_nat)
  ultimately show ?thesis by (simp add: unat_div unat_ULONG_MAX)
qed

text \<open>One digit: the flag is set exactly when the true value leaves 32 bits.\<close>

lemma ulong_step:
  fixes r :: u32
  assumes b: "2 \<le> base" "base \<le> 36" and d: "d < base"
  defines "ov \<equiv> r > maxres base \<or> of_nat d > ULONG_MAX - scale base r"
  shows "ov \<longleftrightarrow> 2 ^ 32 \<le> unat r * base + d" "\<not> ov \<Longrightarrow> unat (scale base r + of_nat d) = unat r * base + d"
proof -
  have du: "unat (of_nat d :: u32) = d" using b d by (simp add: unat_of_nat)
  have "unat r > (2 ^ 32 - 1) div base \<longleftrightarrow> 2 ^ 32 - 1 < unat r * base"
    using b by (simp add: div_less_iff_less_mult)
  then have m: "r > maxres base \<longleftrightarrow> 2 ^ 32 \<le> unat r * base" using maxres_div [OF b] by (auto simp: word_less_nat_alt)
  have s: "unat (scale base r) = unat r * base" if "unat r * base < 2 ^ 32"
    using that b by (simp add: scale_mult unat_word_ariths unat_of_nat)
  have a: "of_nat d > ULONG_MAX - scale base r \<longleftrightarrow> 2 ^ 32 \<le> unat r * base + d" if lt: "unat r * base < 2 ^ 32"
  proof -
    have "unat (ULONG_MAX - scale base r) = 2 ^ 32 - 1 - unat r * base"
      using s [OF lt] lt by (subst unat_sub) (simp_all add: word_le_nat_alt unat_ULONG_MAX)
    then show ?thesis using lt du by (auto simp: word_less_nat_alt)
  qed
  show ov: "ov \<longleftrightarrow> 2 ^ 32 \<le> unat r * base + d"
    using m a unfolding ov_def by (cases "unat r * base < 2 ^ 32") auto
  show "unat (scale base r + of_nat d) = unat r * base + d" if "\<not> ov"
    using that s du unfolding ov by (simp add: unat_word_ariths)
qed

lemma text_value_mono: "0 < base \<Longrightarrow> text_value base t \<le> text_value base (t @ ds)"
proof (induction ds rule: rev_induct)
  case (snoc c ds)
  have "text_value base (t @ ds) \<le> text_value base (t @ ds) * base" using snoc.prems by simp
  then have "text_value base t \<le> text_value base (t @ ds) * base + the (digit_of base c)" using snoc by linarith
  then show ?case using text_value_snoc [of base "t @ ds" c] by simp
qed simp

text \<open>The state of the loop behind the digits \<open>t\<close>.\<close>

definition ulong_at :: "nat \<Rightarrow> string \<Rightarrow> ulong \<Rightarrow> bool" where
  "ulong_at base t u \<longleftrightarrow> (ul_overflow u \<longleftrightarrow> 2 ^ 32 \<le> text_value base t) \<and> (\<not> ul_overflow u \<longrightarrow> unat (ul_result u) = text_value base t)"

definition ends_number :: "nat \<Rightarrow> string \<Rightarrow> bool" where
  "ends_number base rest \<longleftrightarrow> (case rest of [] \<Rightarrow> True | c # _ \<Rightarrow> \<not> is_digit_of base c)"

lemma ulong_digits_exact:
  assumes b: "2 \<le> base" "base \<le> 36"
  shows "\<forall>c\<in>set ds. is_digit_of base c \<Longrightarrow> ends_number base rest \<Longrightarrow> ulong_at base t u \<Longrightarrow>
    \<exists>u'. ulong_digits base (ds @ rest) n u = (n + length ds, u') \<and> ulong_at base (t @ ds) u' \<and> (ul_any u' \<longleftrightarrow> ul_any u \<or> ds \<noteq> [])"
proof (induction ds arbitrary: t n u)
  case Nil
  then show ?case by (cases rest) (auto simp: ends_number_def is_digit_of_def)
next
  case (Cons c ds)
  obtain d where d: "digit_of base c = Some d" using Cons.prems(1) by (auto simp: is_digit_of_def)
  let ?r = "scale base (ul_result u)"
  define u1 where "u1 = \<lparr>ul_result = ?r + of_nat d, ul_overflow = (ul_overflow u \<or> ul_result u > maxres base \<or> of_nat d > ULONG_MAX - ?r),
    ul_any = True\<rparr>"
  have v: "text_value base (t @ [c]) = text_value base t * base + d" by (simp add: text_value_snoc d)
  note st = ulong_step [OF b digit_of_less [OF d], of "ul_result u"]
  have "ulong_at base (t @ [c]) u1"
  proof (cases "ul_overflow u")
    case True
    then have "2 ^ 32 \<le> text_value base (t @ [c])" using Cons.prems(3) text_value_mono [of base t "[c]"] b by (simp add: ulong_at_def)
    then show ?thesis using True by (simp add: ulong_at_def u1_def)
  next
    case False
    then have "unat (ul_result u) = text_value base t" using Cons.prems(3) by (simp add: ulong_at_def)
    then show ?thesis using False st by (simp add: ulong_at_def u1_def v)
  qed
  from Cons.IH [OF _ Cons.prems(2) this, of "n + 1"] Cons.prems(1)
  show ?case by (auto simp: d u1_def [symmetric] Let_def) (simp add: u1_def)
qed

lemma digit_range: "is_digit_of base c \<Longrightarrow> 48 \<le> (of_char c :: nat)"
proof (rule ccontr)
  assume c: "is_digit_of base c" "\<not> 48 \<le> (of_char c :: nat)"
  have e: "(of_char c :: u32) = of_nat (of_char c)" by (simp only: of_nat_of_char)
  have "unat ((of_char c :: u32) - 48) = (2 ^ 32 + of_char c - 48)"
  proof -
    have "(of_char c :: u32) - 48 = of_nat (2 ^ 32 + of_char c - 48)"
      using c(2) by (simp add: of_nat_diff of_nat_of_char)
    also have "unat \<dots> = 2 ^ 32 + of_char c - 48" using c(2) by (simp only: unat_of_nat) simp
    finally show ?thesis .
  qed
  then have "74 < (of_char c :: u32) - 48" "9 < (of_char c :: u32) - 48" "7 < (of_char c :: u32) - 48"
    by (simp_all add: word_less_nat_alt)
  then show False using c(1) by (auto simp: is_digit_of_def digit_of_def Let_def split: if_splits)
qed

lemma digit_no_space: "is_digit_of base c \<Longrightarrow> \<not> isspace c \<and> c \<noteq> CHR ''-'' \<and> c \<noteq> CHR ''+''"
  using digit_range [of base c] by (auto simp: isspace_def)

lemma strtoul_reads:
  assumes "2 \<le> base" "base \<le> 36" "\<forall>c\<in>set sp. isspace c" "sg \<in> {[], ''-'', ''+''}"
    and "pre = [] \<or> base = 16 \<and> pre \<in> {''0x'', ''0X''}"
    and "ds \<noteq> []" "\<forall>c\<in>set ds. is_digit_of base c" "ends_number base rest"
    and "pre = [] \<and> base = 16 \<longrightarrow> \<not> (hd ds = CHR ''0'' \<and> starts_x (tl ds @ rest))"
  shows "strtoul (sp @ sg @ pre @ ds @ rest) (int base) =
    (if 2 ^ 32 \<le> text_value base ds then ULONG_MAX
     else if sg = ''-'' then - of_nat (text_value base ds) else of_nat (text_value base ds),
     length (sp @ sg @ pre @ ds))"
proof -
  let ?s = "sp @ sg @ pre @ ds @ rest" and ?start = "length sp + length sg + length pre"
  let ?u0 = "\<lparr>ul_result = 0, ul_overflow = False, ul_any = False\<rparr>"
  obtain c cs where ds: "ds = c # cs" using assms(6) by (cases ds) auto
  then have c: "\<not> isspace c" "c \<noteq> CHR ''-''" "c \<noteq> CHR ''+''" using assms(7) digit_no_space by auto
  have n: "\<not> isspace (CHR ''-'')" "\<not> isspace (CHR ''+'')" "\<not> isspace (CHR ''0'')" by (simp_all add: isspace_def)
  have tw: "takeWhile isspace ?s = sp"
    using assms(3-5) c n ds by (auto simp: takeWhile_append)
  have sg: "ulong_sign (sg @ pre @ ds @ rest) = (sg = ''-'', length sg)"
    using assms(4,5) c ds by (auto simp: ulong_sign_def)
  have ba: "ulong_base (int base) (pre @ ds @ rest) = (int base, length pre, False)"
    using assms(1,5,9) ds by (auto simp: ulong_base_def starts_x_def)
  have "ulong_at base [] ?u0" by (simp add: ulong_at_def text_value_def digits_value_def)
  from ulong_digits_exact [OF assms(1,2,7,8) this, of ?start]
  obtain u where u: "ulong_digits base (ds @ rest) ?start ?u0 = (?start + length ds, u)" "ulong_at base ds u" "ul_any u"
    using assms(6) by auto
  have dr: "drop ?start ?s = ds @ rest" by simp
  have "strtoul ?s (int base) = (if ul_overflow u then ULONG_MAX else if sg = ''-'' then - ul_result u else ul_result u, ?start + length ds)"
    using tw sg ba u(1,3) assms(1,2) unfolding strtoul_def Let_def by (simp add: add.assoc)
  moreover have "ul_result u = of_nat (text_value base ds)" if "\<not> ul_overflow u"
  proof -
    have "of_nat (unat (ul_result u)) = ul_result u" by simp
    then show ?thesis using that u(2) unfolding ulong_at_def by metis
  qed
  ultimately show ?thesis using u(2) by (auto simp: ulong_at_def)
qed

text \<open>
  C35. \<open>strtoul\<close> reads a number exactly: for every base from 2 to 36, leading space, an optional sign, for
  base 16 an optional prefix, one or more digits and then anything that is no digit, it passes exactly to
  the end of the digits and returns the value, negated modulo \<open>2^32\<close> after a minus, or the largest number
  exactly when the value has more than 32 bits, however long the text is.
\<close>

theorem strtoul_exact:
  assumes "2 \<le> base" "base \<le> 36" "\<forall>c\<in>set sp. isspace c" "sg \<in> {[], ''-'', ''+''}"
    and "pre = [] \<or> base = 16 \<and> pre \<in> {''0x'', ''0X''}"
    and "ds \<noteq> []" "\<forall>c\<in>set ds. is_digit_of base c" "ends_number base rest"
    and "pre = [] \<and> base = 16 \<longrightarrow> \<not> (hd ds = CHR ''0'' \<and> starts_x (tl ds @ rest))"
  shows "strtoul (sp @ sg @ pre @ ds @ rest) (int base) =
    (if 2 ^ 32 \<le> text_value base ds then ULONG_MAX
     else if sg = ''-'' then - of_nat (text_value base ds) else of_nat (text_value base ds),
     length (sp @ sg @ pre @ ds))"
  by (rule strtoul_reads [OF assms])

theorem strtoul_exact_witness:
  "strtoul '' -4294967297x'' 10 = (ULONG_MAX, 12)"
proof -
  have "strtoul ('' '' @ ''-'' @ [] @ ''4294967297'' @ ''x'') (int 10) =
    (if 2 ^ 32 \<le> text_value 10 ''4294967297'' then ULONG_MAX
     else if ''-'' = ''-'' then - of_nat (text_value 10 ''4294967297'') else of_nat (text_value 10 ''4294967297''),
     length ('' '' @ ''-'' @ [] @ ''4294967297''))"
    by (rule strtoul_exact) (simp_all add: isspace_def ends_number_def is_digit_of_def digit_of_def Let_def word_less_nat_alt)
  moreover have "text_value 10 ''4294967297'' = 4294967297"
    by (simp add: text_value_def digits_value_def digit_of_def Let_def)
  ultimately show ?thesis by simp
qed

section \<open>Printing and reading back\<close>

lemma add_text_fits:
  "unat p + length t < 2 ^ 32 \<Longrightarrow> unat p + length t \<le> unat sz \<Longrightarrow> unat p + length t \<le> length b \<Longrightarrow>
   add_text 0 sz p t b = Inr (take (unat p) b @ t @ drop (unat p + length t) b)"
proof (induction t arbitrary: p b)
  case (Cons c t)
  have p: "unat (p + 1) = unat p + 1" using Cons.prems(1) by (simp add: unat_word_ariths)
  have "add_char 0 sz p c b = Inr (b[unat p := c])" using Cons.prems by (simp add: add_char_def put_def word_less_nat_alt)
  moreover have "take (unat p + 1) (b[unat p := c]) = take (unat p) b @ [c]"
    using Cons.prems(3) by (simp add: take_Suc_conv_app_nth)
  ultimately show ?case using Cons.IH [of "p + 1" "b[unat p := c]"] Cons.prems by (simp add: p)
qed simp

lemma add_all_fits:
  "length t < unat sz \<Longrightarrow> length t \<le> length b \<Longrightarrow> add_all 0 sz t (0, b) = Inr (of_nat (length t), t @ drop (length t) b)"
  using add_text_fits [of 0 t sz b] u32_less [of sz] by (simp add: add_all_def)

text \<open>A directive without flags, width and precision.\<close>

lemma plain_int:
  assumes "base = 8 \<or> base = 10 \<or> base = 16" "sp_flags sp = 0" "sp_width sp = 0" "sp_precision sp = 0" "digits_from base val [] = Inr ds"
  shows "snprint_64bit_int off sz val sp base positive b
    = add_all off sz ((if base = 10 \<and> \<not> positive then ''-'' else []) @ rev ds) (0, b)"
proof -
  have c: "\<not> (base \<noteq> 8 \<and> base \<noteq> 10 \<and> base \<noteq> 16)" using assms(1) by blast
  have f: "int_sign sp base positive = (if base = 10 \<and> \<not> positive then ''-'' else [])" "int_prefix sp base = []"
    using assms(2) by (auto simp: int_sign_def int_prefix_def has_def)
  have e: "add_all off sz [] st = Inr st" for st by (simp add: add_all_def)
  have p: "pad_chars off sz sp l pad len st = Inr st" for l pad len st using assms(3) by (simp add: pad_chars_eq)
  show ?thesis unfolding snprint_64bit_int_def if_not_P [OF c] assms(5) res_bind_simps Let_def f p e
    using assms(4) add_all_append [of off sz _ "(0, b)" "rev ds"] by (simp add: res_bind_unit)
qed

lemma digit_char_of:
  "base = 8 \<or> base = 10 \<or> base = 16 \<Longrightarrow> x < base \<Longrightarrow> digit_of base (digit_char x) = Some x"
proof -
  have "\<forall>b\<in>set [8, 10, 16]. \<forall>x\<in>set [0..<b]. digit_of b (digit_char x) = Some x" by code_simp
  then show "base = 8 \<or> base = 10 \<or> base = 16 \<Longrightarrow> x < base \<Longrightarrow> ?thesis" by auto
qed

definition plain_spec :: "char \<Rightarrow> spec" where
  "plain_spec c = \<lparr>sp_present = Specifier_present, sp_flags = 0, sp_width = 0, sp_precision = 0, sp_length = Length_none, sp_specifier = c\<rparr>"

lemma one_directive:
  assumes "c \<in> {CHR ''d'', CHR ''o'', CHR ''x''}"
    and "vsnprint_spec flt 0 sz as 0 (plain_spec c) b = Inr (of_nat (length t), t @ drop (length t) b, [], [])"
    and "length t < unat sz" "length t < length b" "length t < 2 ^ 31"
  shows "vsnprintf flt sz [CHR ''%'', c] as b = Inr (of_nat (length t), t @ CHR 0x00 # drop (length t + 1) b, [])"
proof -
  have n: "unat (of_nat (length t) :: u32) = length t" using assms(5) by (simp add: unat_of_nat)
  have s: "\<not> sint (of_nat (length t) :: u32) < 0" using assms(5) by (simp add: signed_of_nat signed_take_bit_int_eq_self)
  have p: "put (length t) (CHR 0x00) (t @ drop (length t) b) = Inr (t @ CHR 0x00 # drop (length t + 1) b)"
    using assms(4) by (simp add: put_def Cons_nth_drop_Suc [symmetric])
  have "sz \<noteq> 0" using assms(3) by auto
  have stages: "pf_char flt sz c \<lparr>pf_stage = P_flags, pf_spec = spec_new, pf_ptr = 0, pf_buf = b, pf_args = as, pf_stores = []\<rparr>
    = Inr (Fall \<lparr>pf_stage = P_none, pf_spec = plain_spec c, pf_ptr = of_nat (length t), pf_buf = t @ drop (length t) b, pf_args = [], pf_stores = []\<rparr>)"
  proof -
    have v: "vsnprint_spec flt 0 sz as 0 ((plain_spec c)\<lparr>sp_specifier := c\<rparr>) b = Inr (of_nat (length t), t @ drop (length t) b, [], [])"
      using assms(2) by (simp add: plain_spec_def)
    from assms(1) consider "c = CHR ''d''" | "c = CHR ''o''" | "c = CHR ''x''" by blast
    then show ?thesis
      by cases (use v s in \<open>simp_all add: pf_char_def stage_defs stage_specifier_def and_then_def spec_new_def plain_spec_def is_digit_def\<close>)
  qed
  show ?thesis using \<open>sz \<noteq> 0\<close> assms(3) n s p
    by (simp add: vsnprintf_def pf_char_def [of _ _ "CHR ''%''"] stages word_less_nat_alt)
qed

text \<open>The text of a number, and that \<open>strtoul\<close> reads it back.\<close>

lemma number_text:
  assumes "base = 8 \<or> base = 10 \<or> base = 16"
  shows "\<exists>ds. digits_from base val [] = Inr (rev ds) \<and> ds \<noteq> [] \<and> length ds \<le> 22 \<and> (\<forall>c\<in>set ds. is_digit_of (unat base) c)
    \<and> text_value (unat base) ds = unat val"
proof -
  obtain xs where xs: "digits_from base val [] = Inr (map digit_char (rev xs))" "digits_value (unat base) xs = unat val"
    "xs \<noteq> []" "length xs \<le> 22" "\<forall>x\<in>set xs. x < unat base" using digits_exact [OF assms, of val] by blast
  have b: "unat base = 8 \<or> unat base = 10 \<or> unat base = 16" using assms by auto
  have "map (\<lambda>x. the (digit_of (unat base) (digit_char x))) xs = xs"
    using xs(5) digit_char_of [OF b] by (intro map_idI) simp
  then show ?thesis using xs digit_char_of [OF b]
    by (intro exI [of _ "map digit_char xs"]) (auto simp: rev_map text_value_def comp_def is_digit_of_def)
qed

lemma digits_no_x: "\<forall>c\<in>set ds. is_digit_of 16 c \<Longrightarrow> \<not> starts_x (tl ds)"
proof -
  assume d: "\<forall>c\<in>set ds. is_digit_of 16 c"
  have x: "\<not> is_digit_of 16 (CHR ''x'')" "\<not> is_digit_of 16 (CHR ''X'')" by code_simp+
  show ?thesis
  proof (cases "tl ds")
    case (Cons c cs)
    then have "c \<in> set ds" by (metis list.set_intros(1) list.set_sel(2) tl_Nil)
    then show ?thesis using d x Cons by (auto simp: starts_x_def)
  qed (simp add: starts_x_def)
qed

lemma strtoul_number:
  assumes "base \<in> {8, 10, 16}" "ds \<noteq> []" "\<forall>c\<in>set ds. is_digit_of base c" "text_value base ds < 2 ^ 32" "sg \<in> {[], ''-''}"
  shows "strtoul (sg @ ds) (int base) = (if sg = ''-'' then - of_nat (text_value base ds) else of_nat (text_value base ds), length (sg @ ds))"
  using strtoul_reads [of base "[]" sg "[]" ds "[]"] assms digits_no_x [of ds] by (auto simp: ends_number_def)

text \<open>The string that begins a buffer.\<close>

definition cstring :: "string \<Rightarrow> string" where "cstring b = takeWhile (\<lambda>c. c \<noteq> CHR 0x00) b"

lemma cstring_text: "CHR 0x00 \<notin> set t \<Longrightarrow> cstring (t @ CHR 0x00 # r) = t"
  unfolding cstring_def by (subst takeWhile_append2) auto

lemma digits_no_nul: "\<forall>c\<in>set ds. is_digit_of base c \<Longrightarrow> CHR 0x00 \<notin> set ds"
  using digit_range [of base "CHR 0x00"] by auto

text \<open>The absolute value of a number as \<open>int64_t\<close>.\<close>

lemma sint_scast: "sint (scast (v :: u32) :: u64) = sint v"
proof -
  have "- (2 ^ 63) \<le> sint v" "sint v < 2 ^ 63" using sint_greater_eq [of v] sint_less [of v] by simp_all
  then have "signed_take_bit 63 (sint v) = sint v" by (intro signed_take_bit_int_eq_self) simp_all
  then show ?thesis by (simp add: signed_scast_eq)
qed

lemma unat_ucast_64: "unat (ucast (v :: u32) :: u64) = unat v"
  using u32_less [of v] by (simp add: unsigned_ucast_eq take_bit_nat_eq_self)

lemma abs_word:
  fixes v :: u32
  defines "w \<equiv> scast v :: u64"
  defines "a \<equiv> if sint w < 0 then - w else w"
  shows "unat a < 2 ^ 32" "(if sint w < 0 then - of_nat (unat a) else of_nat (unat a)) = v"
proof -
  have r: "- (2 ^ 31) \<le> sint v" "sint v < 2 ^ 31" using sint_greater_eq [of v] sint_less [of v] by simp_all
  have s: "sint w = sint v" by (simp only: w_def sint_scast)
  have k: "uint (word_of_int k :: u64) = k" if "0 \<le> k" "k < 2 ^ 32" for k
    using that by (simp add: uint_word_of_int)
  have "a = word_of_int \<bar>sint v\<bar>" unfolding a_def s by (simp add: w_def)
  moreover have "0 \<le> \<bar>sint v\<bar>" "\<bar>sint v\<bar> < 2 ^ 32" using r by simp_all
  ultimately have "uint a = \<bar>sint v\<bar>" using k by blast
  then have u: "unat a = nat \<bar>sint v\<bar>" by (simp add: unat_eq_nat_uint)
  then show "unat a < 2 ^ 32" using r by simp
  have "of_nat (unat a) = (of_int \<bar>sint v\<bar> :: u32)" unfolding u by (simp add: of_nat_nat)
  then show "(if sint w < 0 then - of_nat (unat a) else of_nat (unat a)) = v" by (auto simp: s)
qed

text \<open>What \<open>itoa\<close> leaves in a buffer that is large enough.\<close>

lemma itoa_text:
  fixes v :: u32
  assumes "base \<in> {8, 10, 16}" "24 \<le> length buf"
  defines "w \<equiv> if base = 10 then scast v else ucast v :: u64"
  defines "neg \<equiv> base = 10 \<and> sint w < 0"
  defines "val \<equiv> if neg then - w else w"
  shows "\<exists>ds. itoa v buf base = Inr ((if neg then ''-'' else []) @ ds @ CHR 0x00 # drop (length ds + (if neg then 2 else 1)) buf)
    \<and> ds \<noteq> [] \<and> length ds \<le> 22 \<and> (\<forall>c\<in>set ds. is_digit_of base c) \<and> text_value base ds = unat val"
proof -
  define c where "c = (if base = 8 then CHR ''o'' else if base = 10 then CHR ''d'' else CHR ''x'')"
  define flt :: flt where "flt = (\<lambda>_ _. [])"
  let ?b = "of_nat base :: u64"
  have b: "?b = 8 \<or> ?b = 10 \<or> ?b = 16" "unat ?b = base" using assms(1) by auto
  obtain ds where ds: "digits_from ?b val [] = Inr (rev ds)" "ds \<noteq> []" "length ds \<le> 22" "\<forall>c\<in>set ds. is_digit_of base c"
    "text_value base ds = unat val" using number_text [OF b(1), of val] b(2) by auto
  let ?t = "(if neg then ''-'' else []) @ ds"
  have "vsnprint_spec flt 0 Big_sz [A_word v] 0 (plain_spec c) buf
      = with_args (snprint_64bit_int 0 Big_sz val (plain_spec c) ?b (\<not> neg) buf) []"
    using assms(1) by (auto simp: vsnprint_spec_def c_def w_def val_def neg_def plain_spec_def signed_arg_def unsigned_arg_def
        map_arg_def snprint_int64_def)
  also have "snprint_64bit_int 0 Big_sz val (plain_spec c) ?b (\<not> neg) buf = add_all 0 Big_sz ?t (0, buf)"
    using plain_int [OF b(1), of "plain_spec c" val "rev ds" 0 Big_sz "\<not> neg" buf] ds(1) assms(1)
    by (auto simp: plain_spec_def neg_def)
  also have "\<dots> = Inr (of_nat (length ?t), ?t @ drop (length ?t) buf)"
    using ds(3) assms(2) by (intro add_all_fits) (auto simp: Big_sz_def)
  finally have "vsnprintf flt Big_sz [CHR ''%'', c] [A_word v] buf = Inr (of_nat (length ?t), ?t @ CHR 0x00 # drop (length ?t + 1) buf, [])"
    using ds(3) assms(2) by (intro one_directive) (auto simp: c_def with_args_def Big_sz_def)
  then have "itoa v buf base = Inr (?t @ CHR 0x00 # drop (length ?t + 1) buf)"
    using assms(1) by (auto simp: itoa_def sprintf_def c_def flt_def)
  then show ?thesis using ds by (intro exI [of _ ds]) auto
qed

text \<open>
  C34. Numbers survive printing and reading. For base 8, 10 and 16 and a buffer of at least 24 bytes, \<open>itoa\<close>
  of any 32-bit number succeeds, keeps the length of the buffer, and \<open>strtoul\<close> of the string in the buffer
  passes over all of it and returns the number; with base 10 it is printed with its sign.
\<close>

theorem itoa_strtoul:
  assumes "base \<in> {8, 10, 16}" "24 \<le> length buf"
  shows "\<exists>buf'. itoa v buf base = Inr buf' \<and> length buf' = length buf
    \<and> strtoul (cstring buf') (int base) = (v, length (cstring buf'))
    \<and> (hd (cstring buf') = CHR ''-'' \<longleftrightarrow> base = 10 \<and> sint v < 0)"
proof -
  define w where "w = (if base = 10 then scast v else ucast v :: u64)"
  define neg where "neg = (base = 10 \<and> sint w < 0)"
  define val where "val = (if neg then - w else w)"
  obtain ds where ds: "itoa v buf base = Inr ((if neg then ''-'' else []) @ ds @ CHR 0x00 # drop (length ds + (if neg then 2 else 1)) buf)"
    "ds \<noteq> []" "length ds \<le> 22" "\<forall>c\<in>set ds. is_digit_of base c" "text_value base ds = unat val"
    using itoa_text [OF assms, of v] unfolding w_def neg_def val_def by blast
  let ?sg = "if neg then ''-'' else []" and ?r = "drop (length ds + (if neg then 2 else 1)) buf"
  have num: "unat val < 2 ^ 32 \<and> (if neg then - of_nat (unat val) else of_nat (unat val)) = v"
  proof (cases "base = 10")
    case True
    then show ?thesis using abs_word [of v] by (auto simp: val_def neg_def w_def)
  next
    case False
    then have "unat val = unat v" "\<not> neg" by (simp_all add: val_def neg_def w_def unat_ucast_64)
    then show ?thesis using u32_less [of v] by (simp only: if_False) simp
  qed
  have sgn: "neg \<longleftrightarrow> base = 10 \<and> sint v < 0" by (auto simp: neg_def w_def sint_scast)
  have cs: "cstring (?sg @ ds @ CHR 0x00 # ?r) = ?sg @ ds"
    using digits_no_nul [OF ds(4)] cstring_text [of "?sg @ ds" ?r] by auto
  have "strtoul (?sg @ ds) (int base) = (v, length (?sg @ ds))"
    using strtoul_number [OF assms(1) ds(2,4), of ?sg] num ds(5) by (auto split: if_splits)
  moreover have "hd ds \<noteq> CHR ''-''" using ds(2,4) digit_no_space by (metis hd_in_set)
  moreover have "length (?sg @ ds @ CHR 0x00 # ?r) = length buf" using ds(3) assms(2) by auto
  ultimately show ?thesis using ds(1,2) cs sgn by (intro exI [of _ "?sg @ ds @ CHR 0x00 # ?r"]) auto
qed

theorem itoa_strtoul_witness:
  "\<exists>buf'. itoa (- 42) (replicate 32 (CHR ''z'')) 10 = Inr buf' \<and> fst (strtoul (cstring buf') 10) = - 42"
  using itoa_strtoul [of 10 "replicate 32 (CHR ''z'')" "- 42"] by auto

end
