(* ===== verification/Mpool.thy ===== *)
theory Mpool
  imports Regions
begin

text \<open>
  The memory pool of user programs, on which \<open>malloc\<close> rests: \<open>Memory_pool_t\<close> of
  \<open>lib/containers/memory_pool.h\<close>, a buddy allocator whose descriptors lie at the beginning of their blocks.
  The memory is a function from addresses to the descriptors that lie there. The list of all
  regions is kept with its pointers, because the code does not keep them all up to date; the
  lists of free blocks by size are sequences of addresses. Descriptors take 24 bytes, blocks at least 32, so
  descriptors of different blocks do not overlap.
\<close>

section \<open>Descriptors and lists\<close>

record descr =
  de_prev :: "u32 option"
  de_next :: "u32 option"
  de_lgsz :: nat
  de_busy :: bool

record mpool =
  mp_mem :: "u32 \<Rightarrow> descr"
  mp_regions :: "u32 option"
  mp_blocks :: "nat \<Rightarrow> u32 list"
  mp_size :: u32

definition Lgsz_min :: nat where "Lgsz_min = 5"
definition Lgsz_max :: nat where "Lgsz_max = 31"
definition Descr_sz :: u32 where "Descr_sz = 24"

definition size_of :: "nat \<Rightarrow> u32" where "size_of l = push_bit l 1"

definition de_upd :: "u32 \<Rightarrow> (descr \<Rightarrow> descr) \<Rightarrow> mpool \<Rightarrow> mpool" where
  "de_upd d f p = p\<lparr>mp_mem := (mp_mem p)(d := f (mp_mem p d))\<rparr>"

definition de_init :: "nat \<Rightarrow> descr" where
  "de_init l = \<lparr>de_prev = None, de_next = None, de_lgsz = l, de_busy = False\<rparr>"

definition insert_region_after :: "u32 \<Rightarrow> u32 \<Rightarrow> mpool \<Rightarrow> mpool" where
  "insert_region_after d base p =
     (let p1 = de_upd d (\<lambda>x. x\<lparr>de_next := de_next (mp_mem p base), de_prev := Some base\<rparr>) p in
      de_upd base (\<lambda>x. x\<lparr>de_next := Some d\<rparr>) p1)"

definition remove_region :: "u32 \<Rightarrow> mpool \<Rightarrow> mpool" where
  "remove_region d p =
     (let prev = de_prev (mp_mem p d); nxt = de_next (mp_mem p d);
          p1 = (case prev of Some a \<Rightarrow> de_upd a (\<lambda>x. x\<lparr>de_next := nxt\<rparr>) p | None \<Rightarrow> p\<lparr>mp_regions := nxt\<rparr>);
          p2 = (case nxt of Some b \<Rightarrow> de_upd b (\<lambda>x. x\<lparr>de_prev := prev\<rparr>) p1 | None \<Rightarrow> p1) in
      de_upd d (\<lambda>x. x\<lparr>de_prev := None, de_next := None\<rparr>) p2)"

text \<open>The lists of free blocks. An index outside of the array, or a block that is not in the list, is an error.\<close>

definition add_block :: "nat \<Rightarrow> u32 \<Rightarrow> mpool \<Rightarrow> mpool res" where
  "add_block l d p =
     (if Lgsz_min \<le> l \<and> l \<le> Lgsz_max then Inr (p\<lparr>mp_blocks := (mp_blocks p)(l := d # mp_blocks p l)\<rparr>) else Inl Bad_access)"

definition remove_block :: "nat \<Rightarrow> u32 \<Rightarrow> mpool \<Rightarrow> mpool res" where
  "remove_block l d p =
     (if Lgsz_min \<le> l \<and> l \<le> Lgsz_max \<and> d \<in> set (mp_blocks p l)
      then Inr (p\<lparr>mp_blocks := (mp_blocks p)(l := remove1 d (mp_blocks p l))\<rparr>) else Inl Bad_access)"

section \<open>Splitting and combining\<close>

definition split_first :: "nat \<Rightarrow> mpool \<Rightarrow> (bool \<times> mpool) res" where
  "split_first lgsz p =
     (case mp_blocks p lgsz of
        [] \<Rightarrow> Inr (False, p)
      | d1 # _ \<Rightarrow>
          res_bind (wassert (\<not> de_busy (mp_mem p d1))) (\<lambda>_.
          res_bind (remove_block lgsz d1 p) (\<lambda>p1.
          let new = de_lgsz (mp_mem p1 d1) - 1; d2 = d1 + size_of new;
              p2 = de_upd d2 (\<lambda>_. de_init new) (de_upd d1 (\<lambda>x. x\<lparr>de_lgsz := new\<rparr>) p1) in
          res_bind (add_block new d1 p2) (\<lambda>p3.
          res_bind (add_block new d2 p3) (\<lambda>p4.
          Inr (True, insert_region_after d2 d1 p4))))))"

function split :: "nat \<Rightarrow> mpool \<Rightarrow> (bool \<times> mpool) res" where
  "split lgsz p =
     (if lgsz \<le> Lgsz_min \<or> lgsz > Lgsz_max then Inr (False, p)
      else
        res_bind (if mp_blocks p lgsz = [] then split (lgsz + 1) p else Inr (False, p)) (\<lambda>(_, p1). split_first lgsz p1))"
  by pat_completeness auto
termination by (relation "measure (\<lambda>(l, _). 32 - l)") (auto simp: Lgsz_max_def)

declare split.simps [simp del]

text \<open>The buddy of a block, and one step of \<open>combine\<close>: the joined block, or nothing to join.\<close>

definition buddy :: "mpool \<Rightarrow> u32 \<Rightarrow> u32 option" where
  "buddy p d = (let e = mp_mem p d in if is_aligned d (size_of (de_lgsz e) * 2) then de_next e else de_prev e)"

definition combine_step :: "u32 \<Rightarrow> mpool \<Rightarrow> (u32 \<times> mpool) option res" where
  "combine_step d p =
     (case buddy p d of
        None \<Rightarrow> Inr None
      | Some b \<Rightarrow>
          let lgsz = de_lgsz (mp_mem p d) in
          if lgsz \<noteq> de_lgsz (mp_mem p b) \<or> de_busy (mp_mem p b) then Inr None
          else
            let (d1, d2) = (if d > b then (b, d) else (d, b));
                p1 = remove_region d2 (de_upd d1 (\<lambda>x. x\<lparr>de_lgsz := lgsz + 1\<rparr>) p) in
            res_bind (remove_block lgsz d1 p1) (\<lambda>p2.
            res_bind (remove_block lgsz d2 p2) (\<lambda>p3.
            res_bind (add_block (lgsz + 1) d1 p3) (\<lambda>p4. Inr (Some (d1, p4))))))"

lemma remove_region_lgsz: "de_lgsz (mp_mem (remove_region d p) x) = de_lgsz (mp_mem p x)"
  by (auto simp: remove_region_def de_upd_def Let_def split: option.splits)

lemma combine_step_lgsz:
  "combine_step d p = Inr (Some (d1, p')) \<Longrightarrow> de_lgsz (mp_mem p' d1) = de_lgsz (mp_mem p d) + 1 \<and> de_lgsz (mp_mem p d) < 31"
  by (auto simp: combine_step_def Let_def remove_block_def add_block_def remove_region_lgsz de_upd_def Lgsz_max_def
      split: option.splits if_splits)

function combine :: "u32 \<Rightarrow> mpool \<Rightarrow> mpool res" where
  "combine d p = res_bind (combine_step d p) (\<lambda>x. case x of None \<Rightarrow> Inr p | Some (d1, p1) \<Rightarrow> combine d1 p1)"
  by pat_completeness auto
termination by (relation "measure (\<lambda>(d, p). 32 - de_lgsz (mp_mem p d))") (auto dest!: combine_step_lgsz)

declare combine.simps [simp del]

section \<open>Adding memory\<close>

definition find_max_block :: "u32 \<Rightarrow> u32 \<Rightarrow> nat" where
  "find_max_block addr sz =
     (let e = addr + sz in
      case find (\<lambda>i. size_of i \<le> sz \<and> is_aligned addr (size_of i) \<and> addr + size_of i \<le> e) (rev [Lgsz_min..<Lgsz_max + 1]) of
        Some i \<Rightarrow> i | None \<Rightarrow> 0)"

text \<open>The search for the place of the new memory in the list of regions; it ends with the list.\<close>

partial_function (option) find_place :: "(u32 \<Rightarrow> descr) \<Rightarrow> u32 \<Rightarrow> u32 \<Rightarrow> u32 option \<Rightarrow> u32 option option" where
  "find_place m s e p =
     (if p = None then Some None
      else
        let d = the p in
        if s \<ge> d + size_of (de_lgsz (m d)) \<and> (case de_next (m d) of None \<Rightarrow> True | Some n \<Rightarrow> e \<le> n)
        then Some (Some d) else find_place m s e (de_next (m d)))"

definition add_one :: "u32 \<Rightarrow> nat \<Rightarrow> u32 option \<Rightarrow> mpool \<Rightarrow> mpool res" where
  "add_one start lgsz prev p =
     (let p1 = de_upd start (\<lambda>_. de_init lgsz) p in
      res_bind (case mp_regions p1 of
          None \<Rightarrow> Inr (p1\<lparr>mp_regions := Some start\<rparr>)
        | Some _ \<Rightarrow> (case prev of Some b \<Rightarrow> Inr (insert_region_after start b p1) | None \<Rightarrow> Inl Bad_access)) (\<lambda>p2.
      res_bind (add_block lgsz start p2) (\<lambda>p3.
      Inr (p3\<lparr>mp_size := mp_size p3 + size_of lgsz\<rparr>))))"

lemma find_max_block_pos:
  assumes "find_max_block a sz = l" "l \<noteq> 0"
  shows "5 \<le> l" "l \<le> 31" "size_of l \<le> sz" "is_aligned a (size_of l)" "a + size_of l \<le> a + sz"
proof -
  let ?P = "\<lambda>i. size_of i \<le> sz \<and> is_aligned a (size_of i) \<and> a + size_of i \<le> a + sz"
  have "find ?P (rev [Lgsz_min..<Lgsz_max + 1]) = Some l"
    using assms unfolding find_max_block_def Let_def by (auto split: option.splits simp del: upt_Suc)
  then have "l \<in> set (rev [Lgsz_min..<Lgsz_max + 1]) \<and> ?P l" by (rule find_SomeD)
  then show "5 \<le> l" "l \<le> 31" "size_of l \<le> sz" "is_aligned a (size_of l)" "a + size_of l \<le> a + sz"
    by (simp_all add: Lgsz_min_def Lgsz_max_def del: upt_Suc upt_rec_numeral)
qed

lemma unat_size_of: "l < 32 \<Longrightarrow> unat (size_of l) = 2 ^ l"
  by (simp add: size_of_def unat_push_bit_1 del: push_bit_of_1)

function add_loop :: "u32 \<Rightarrow> u32 \<Rightarrow> u32 option \<Rightarrow> mpool \<Rightarrow> mpool res" where
  "add_loop start e prev p =
     (let lgsz = find_max_block start (e - start) in
      if lgsz = 0 then Inr p
      else res_bind (add_one start lgsz prev p) (add_loop (start + size_of lgsz) e (Some start)))"
  by pat_completeness auto
termination
proof (relation "measure (\<lambda>(start, e, _). unat (e - start))", goal_cases)
  case (2 start e prev p l x)
  then have l: "l < 32" "size_of l \<le> e - start" using find_max_block_pos [OF 2(1) [symmetric]] by auto
  have "unat (e - start - size_of l) = unat (e - start) - 2 ^ l" using l by (subst unat_sub) (simp_all add: unat_size_of)
  moreover have "0 < (2::nat) ^ l \<and> 2 ^ l \<le> unat (e - start)" using l by (simp add: word_le_nat_alt unat_size_of)
  ultimately have "unat (e - start - size_of l) < unat (e - start)" by linarith
  moreover have "e - start - size_of l = e - (start + size_of l)" by simp
  ultimately have "unat (e - (start + size_of l)) < unat (e - start)" by metis
  then show ?case by simp
qed simp

declare add_loop.simps [simp del]

definition round_down :: "u32 \<Rightarrow> u32 \<Rightarrow> u32" where "round_down n a = n AND NOT (a - 1)"

definition mp_add :: "u32 \<Rightarrow> u32 \<Rightarrow> mpool \<Rightarrow> (int \<times> mpool) res option" where
  "mp_add buf sz p =
     (let start = round_up buf (size_of Lgsz_min); e = round_down (buf + sz) (size_of Lgsz_min) in
      if start \<ge> e then Some (Inr (- 1, p))
      else
        Option.bind (find_place (mp_mem p) start e (mp_regions p)) (\<lambda>q.
        let prev = (case q of Some d \<Rightarrow> Some d | None \<Rightarrow> mp_regions p) in
        Some (res_bind (add_loop start e prev p) (\<lambda>p1. Inr (0, p1)))))"

section \<open>Allocation and release\<close>

definition get_log2sz_top_range :: "u32 \<Rightarrow> nat" where
  "get_log2sz_top_range sz =
     (if sz = 0 then 0
      else
        let l = (case find (\<lambda>i. drop_bit i sz \<noteq> 0) (rev [0..<32]) of Some i \<Rightarrow> i | None \<Rightarrow> 0) in
        if size_of l \<noteq> sz then l + 1 else l)"

definition alloc_block :: "nat \<Rightarrow> mpool \<Rightarrow> (u32 option \<times> mpool) res" where
  "alloc_block lgsz0 p =
     (if lgsz0 > Lgsz_max then Inr (None, p)
      else
        let lgsz = max lgsz0 Lgsz_min in
        if mp_size p < size_of lgsz then Inr (None, p)
        else
          res_bind (if mp_blocks p lgsz = [] then split (lgsz + 1) p else Inr (False, p)) (\<lambda>(_, p1).
          case mp_blocks p1 lgsz of
            [] \<Rightarrow> Inr (None, p1)
          | d # _ \<Rightarrow>
              res_bind (remove_block lgsz d p1) (\<lambda>p2.
              let p3 = de_upd d (\<lambda>x. x\<lparr>de_busy := True\<rparr>) p2 in
              Inr (Some d, p3\<lparr>mp_size := mp_size p3 - size_of (de_lgsz (mp_mem p3 d))\<rparr>))))"

definition mp_alloc :: "u32 \<Rightarrow> mpool \<Rightarrow> (u32 option \<times> mpool) res" where
  "mp_alloc sz p =
     (if sz = 0 then Inr (None, p)
      else
        res_bind (alloc_block (get_log2sz_top_range (sz + Descr_sz)) p) (\<lambda>(d, p1).
        Inr (map_option (\<lambda>d. d + Descr_sz) d, p1)))"

definition free_block :: "u32 \<Rightarrow> mpool \<Rightarrow> (u32 \<times> mpool) res" where
  "free_block d p =
     res_bind (wassert (de_busy (mp_mem p d))) (\<lambda>_.
     let lgsz = de_lgsz (mp_mem p d) in
     if lgsz < Lgsz_min \<or> lgsz > Lgsz_max then Inr (0, p)
     else
       res_bind (add_block lgsz d p) (\<lambda>p1.
       let p2 = de_upd d (\<lambda>x. x\<lparr>de_busy := False\<rparr>) p1; free_sz = size_of lgsz in
       res_bind (combine d p2) (\<lambda>p3. Inr (free_sz, p3\<lparr>mp_size := mp_size p3 + free_sz\<rparr>))))"

definition mp_free :: "u32 option \<Rightarrow> mpool \<Rightarrow> (u32 \<times> mpool) res" where
  "mp_free ptr p = (case ptr of None \<Rightarrow> Inr (0, p) | Some a \<Rightarrow> free_block (a - Descr_sz) p)"

text \<open>A pool in cleared memory.\<close>

definition mp_new :: mpool where
  "mp_new = \<lparr>mp_mem = (\<lambda>_. de_init 0), mp_regions = None, mp_blocks = (\<lambda>_. []), mp_size = 0\<rparr>"

section \<open>The blocks of a pool\<close>

text \<open>Blocks one behind the other from \<open>a\<close> to \<open>b\<close>, each aligned to its size.\<close>

abbreviation lg :: "mpool \<Rightarrow> u32 \<Rightarrow> nat" where "lg p d \<equiv> de_lgsz (mp_mem p d)"

primrec tiled :: "(u32 \<Rightarrow> nat) \<Rightarrow> nat \<Rightarrow> u32 list \<Rightarrow> nat \<Rightarrow> bool" where
  "tiled l a [] b = (a = b)"
| "tiled l a (d # ds) b = (unat d = a \<and> 5 \<le> l d \<and> l d \<le> 31 \<and> 2 ^ l d dvd unat d \<and> tiled l (a + 2 ^ l d) ds b)"

lemma tiled_append: "tiled l a (xs @ ys) b \<longleftrightarrow> (\<exists>c. tiled l a xs c \<and> tiled l c ys b)"
  by (induction xs arbitrary: a) auto

lemma tiled_cong: "(\<And>d. d \<in> set ds \<Longrightarrow> l d = l' d) \<Longrightarrow> tiled l a ds b = tiled l' a ds b"
  by (induction ds arbitrary: a) auto

lemma tiled_le: "tiled l a ds b \<Longrightarrow> a \<le> b"
  by (induction ds arbitrary: a) (auto, fastforce)

lemma tiled_member: "tiled l a ds b \<Longrightarrow> d \<in> set ds \<Longrightarrow> a \<le> unat d \<and> unat d + 2 ^ l d \<le> b \<and> 5 \<le> l d \<and> l d \<le> 31 \<and> 2 ^ l d dvd unat d"
proof (induction ds arbitrary: a)
  case (Cons x ds)
  have "a + 2 ^ l x \<le> b" using Cons.prems(1) tiled_le by auto
  then show ?case using Cons by fastforce
qed simp

lemma tiled_distinct: "tiled l a ds b \<Longrightarrow> distinct ds"
proof (induction ds arbitrary: a)
  case (Cons x ds)
  then have t: "tiled l (a + 2 ^ l x) ds b" "unat x = a" by auto
  then have "x \<notin> set ds" using tiled_member [OF t(1)] by fastforce
  then show ?case using Cons t by auto
qed simp

lemma tiled_apart: "tiled l a ds b \<Longrightarrow> x \<in> set ds \<Longrightarrow> y \<in> set ds \<Longrightarrow> unat x < unat y \<Longrightarrow> unat x + 2 ^ l x \<le> unat y"
proof (induction ds arbitrary: a)
  case (Cons d ds)
  then have t: "tiled l (a + 2 ^ l d) ds b" "unat d = a" by auto
  note m = tiled_member [OF t(1)]
  consider "x = d" "y \<in> set ds" | "y = d" "x \<in> set ds" | "x \<in> set ds" "y \<in> set ds" using Cons.prems by auto
  then show ?case
  proof cases
    case 1
    then show ?thesis using m [of y] t(2) by simp
  next
    case 2
    then show ?thesis using m [of x] t(2) Cons.prems(4) by simp
  next
    case 3
    then show ?thesis using Cons.IH [OF t(1)] Cons.prems(4) by blast
  qed
qed simp

text \<open>The chain of the next pointers.\<close>

primrec chain :: "(u32 \<Rightarrow> u32 option) \<Rightarrow> u32 option \<Rightarrow> u32 list \<Rightarrow> u32 option \<Rightarrow> bool" where
  "chain nx h [] t = (h = t)"
| "chain nx h (d # ds) t = (h = Some d \<and> chain nx (nx d) ds t)"

lemma chain_append: "chain nx h (xs @ ys) t \<longleftrightarrow> (\<exists>m. chain nx h xs m \<and> chain nx m ys t)"
  by (induction xs arbitrary: h) auto

lemma chain_cong: "(\<And>d. d \<in> set ds \<Longrightarrow> nx d = nx' d) \<Longrightarrow> chain nx h ds t = chain nx' h ds t"
  by (induction ds arbitrary: h) auto

text \<open>
  The pointer to the previous region need not be that of the neighbour: a block that is split leaves the
  pointer of the block behind it. It leads to a block at an aligned distance that is a power of two.
\<close>

definition prev_ok :: "mpool \<Rightarrow> u32 list \<Rightarrow> u32 \<Rightarrow> bool" where
  "prev_ok p rs n \<longleftrightarrow> (\<exists>y k. de_prev (mp_mem p n) = Some y \<and> y \<in> set rs \<and> unat n = unat y + 2 ^ k \<and> 2 ^ k dvd unat y)"

definition is_free :: "mpool \<Rightarrow> u32 list \<Rightarrow> nat \<Rightarrow> u32 set" where
  "is_free p rs l = {d \<in> set rs. \<not> de_busy (mp_mem p d) \<and> lg p d = l}"

text \<open>The pool without its count of free bytes, and with it.\<close>

definition blocks_ok :: "u32 list \<Rightarrow> nat \<Rightarrow> nat \<Rightarrow> mpool \<Rightarrow> bool" where
  "blocks_ok rs a b p \<longleftrightarrow> 0 < a \<and> b \<le> 2 ^ 32 \<and> rs \<noteq> [] \<and> tiled (lg p) a rs b
     \<and> chain (\<lambda>d. de_next (mp_mem p d)) (mp_regions p) rs None
     \<and> de_prev (mp_mem p (hd rs)) = None \<and> (\<forall>n\<in>set (tl rs). prev_ok p rs n)
     \<and> (\<forall>l. distinct (mp_blocks p l) \<and> set (mp_blocks p l) = is_free p rs l)"

definition free_bytes :: "u32 list \<Rightarrow> mpool \<Rightarrow> nat" where
  "free_bytes rs p = (\<Sum>d\<leftarrow>rs. if de_busy (mp_mem p d) then 0 else 2 ^ lg p d)"

lemma free_bytes_simps [simp]:
  "free_bytes [] p = 0" "free_bytes (xs @ ys) p = free_bytes xs p + free_bytes ys p"
  "free_bytes (d # xs) p = (if de_busy (mp_mem p d) then 0 else 2 ^ lg p d) + free_bytes xs p"
  by (simp_all add: free_bytes_def)

lemma free_bytes_cong:
  "(\<And>d. d \<in> set ds \<Longrightarrow> de_busy (mp_mem q d) = de_busy (mp_mem p d) \<and> lg q d = lg p d) \<Longrightarrow> free_bytes ds q = free_bytes ds p"
  by (induction ds) simp_all

definition pool_ok :: "u32 list \<Rightarrow> nat \<Rightarrow> nat \<Rightarrow> mpool \<Rightarrow> bool" where
  "pool_ok rs a b p \<longleftrightarrow> blocks_ok rs a b p \<and> unat (mp_size p) = free_bytes rs p"

text \<open>The busy blocks with their extents.\<close>

definition busy_blocks :: "u32 list \<Rightarrow> mpool \<Rightarrow> (u32 \<times> nat) set" where
  "busy_blocks rs p = {(d, lg p d) |d. d \<in> set rs \<and> de_busy (mp_mem p d)}"

text \<open>A block whose address is not a multiple of twice its size: its previous pointer leads at most its size back.\<close>

lemma prev_near:
  assumes "unat n = unat y + 2 ^ k" "2 ^ k dvd unat y" "\<not> 2 ^ (s + 1) dvd unat n"
  shows "k \<le> s"
proof (rule ccontr)
  assume "\<not> k \<le> s"
  then have "(2::nat) ^ (s + 1) dvd 2 ^ k" by (intro le_imp_power_dvd) simp
  moreover have "2 ^ k dvd unat n" using assms(1,2) by simp
  ultimately show False using assms(3) dvd_trans by blast
qed

section \<open>Splitting keeps the pool\<close>

text \<open>The state after the split of \<open>d1\<close>, of size \<open>2^(e + 1)\<close>.\<close>

definition cut_block :: "nat \<Rightarrow> u32 \<Rightarrow> u32 list \<Rightarrow> mpool \<Rightarrow> mpool" where
  "cut_block e d1 ds p =
     (let d2 = d1 + size_of e in
      p\<lparr>mp_mem := (mp_mem p)
          (d1 := (mp_mem p d1)\<lparr>de_lgsz := e, de_next := Some d2\<rparr>,
           d2 := \<lparr>de_prev = Some d1, de_next = de_next (mp_mem p d1), de_lgsz = e, de_busy = False\<rparr>),
        mp_blocks := (mp_blocks p)(Suc e := ds, e := d2 # d1 # mp_blocks p e)\<rparr>)"

lemma split_first_eq:
  assumes "mp_blocks p (Suc e) = d1 # ds" "\<not> de_busy (mp_mem p d1)" "lg p d1 = Suc e" "5 \<le> e" "e < 31" "d1 + size_of e \<noteq> d1"
  shows "split_first (Suc e) p = Inr (True, cut_block e d1 ds p)"
  using assms by (simp add: split_first_def remove_block_def add_block_def Let_def Lgsz_min_def Lgsz_max_def
      insert_region_after_def de_upd_def de_init_def cut_block_def fun_upd_twist)

lemma cut_facts:
  assumes ok: "blocks_ok (xs @ d1 # ys) a b p" and free: "mp_blocks p (Suc e) = d1 # ds"
  defines "d2 \<equiv> d1 + size_of e"
  shows "\<not> de_busy (mp_mem p d1)" "lg p d1 = Suc e" "e < 31" "2 ^ e dvd unat d1" "unat d2 = unat d1 + 2 ^ e"
    "d2 \<notin> set (xs @ d1 # ys)" "distinct (xs @ d1 # ys)"
proof -
  let ?rs = "xs @ d1 # ys"
  note inv = ok [unfolded blocks_ok_def]
  have t: "tiled (lg p) a ?rs b" and b: "b \<le> 2 ^ 32" using inv by auto
  have "d1 \<in> is_free p ?rs (Suc e)" using inv free by (metis list.set_intros(1))
  then show f: "\<not> de_busy (mp_mem p d1)" "lg p d1 = Suc e" by (auto simp: is_free_def)
  have m: "unat d1 + 2 ^ Suc e \<le> b" "Suc e \<le> 31" "2 ^ Suc e dvd unat d1" using tiled_member [OF t, of d1] f(2) by auto
  show "e < 31" using m(2) by simp
  show "2 ^ e dvd unat d1" by (rule power_le_dvd [OF m(3)]) simp
  have "(0::nat) < 2 ^ e" "(2::nat) ^ Suc e = 2 ^ e + 2 ^ e" by simp_all
  then have "unat d1 + 2 ^ e < 2 ^ 32" using m(1) b by linarith
  then show u2: "unat d2 = unat d1 + 2 ^ e"
    unfolding d2_def using m(2) by (subst unat_sum) (simp_all add: unat_size_of)
  show "d2 \<notin> set ?rs"
  proof
    assume "d2 \<in> set ?rs"
    then have "unat d1 + 2 ^ Suc e \<le> unat d2" using tiled_apart [OF t, of d1 d2] u2 f(2) by simp
    then show False using u2 by simp
  qed
  show "distinct ?rs" by (rule tiled_distinct [OF t])
qed

lemma cut_mem:
  assumes "d2 = d1 + size_of e" "d2 \<notin> set (xs @ d1 # ys)" "distinct (xs @ d1 # ys)"
  shows "mp_mem (cut_block e d1 ds p) d1 = (mp_mem p d1)\<lparr>de_lgsz := e, de_next := Some d2\<rparr>"
    "mp_mem (cut_block e d1 ds p) d2 = \<lparr>de_prev = Some d1, de_next = de_next (mp_mem p d1), de_lgsz = e, de_busy = False\<rparr>"
    "x \<noteq> d1 \<Longrightarrow> x \<noteq> d2 \<Longrightarrow> mp_mem (cut_block e d1 ds p) x = mp_mem p x"
    "x \<in> set xs \<or> x \<in> set ys \<Longrightarrow> mp_mem (cut_block e d1 ds p) x = mp_mem p x"
    "mp_regions (cut_block e d1 ds p) = mp_regions p"
  using assms by (auto simp: cut_block_def Let_def)

lemma cut_regions:
  assumes ok: "blocks_ok (xs @ d1 # ys) a b p" and free: "mp_blocks p (Suc e) = d1 # ds" and e: "5 \<le> e"
  defines "d2 \<equiv> d1 + size_of e" and "q \<equiv> cut_block e d1 ds p"
  shows "tiled (lg q) a (xs @ d1 # d2 # ys) b" "chain (\<lambda>d. de_next (mp_mem q d)) (mp_regions q) (xs @ d1 # d2 # ys) None"
proof -
  note inv = ok [unfolded blocks_ok_def] and f = cut_facts [OF ok free, folded d2_def]
  note mem = cut_mem [OF meta_eq_to_obj_eq [OF d2_def] f(6,7), where ds = ds and p = p, folded q_def]
  obtain c where c: "tiled (lg p) a xs c" "unat d1 = c" "tiled (lg p) (c + 2 ^ Suc e) ys b"
    using inv f(2) by (auto simp: tiled_append)
  have "tiled (lg q) a xs c" "tiled (lg q) (c + 2 ^ Suc e) ys b" using c mem(4) by (simp_all cong: tiled_cong)
  moreover have "2 ^ e dvd unat d2" using f(4) unfolding f(5) by simp
  ultimately show "tiled (lg q) a (xs @ d1 # d2 # ys) b"
    using c(2) f(3-5) e by (auto simp: tiled_append mem(1,2) mult_2 add.assoc)
  obtain h where h: "chain (\<lambda>d. de_next (mp_mem p d)) (mp_regions p) xs h" "h = Some d1"
    "chain (\<lambda>d. de_next (mp_mem p d)) (de_next (mp_mem p d1)) ys None" using inv by (auto simp: chain_append)
  have "chain (\<lambda>d. de_next (mp_mem q d)) (mp_regions p) xs h" "chain (\<lambda>d. de_next (mp_mem q d)) (de_next (mp_mem p d1)) ys None"
    using h mem(4) by (simp_all cong: chain_cong)
  then show "chain (\<lambda>d. de_next (mp_mem q d)) (mp_regions q) (xs @ d1 # d2 # ys) None"
    using h(2) by (auto simp: chain_append mem(1,2,5))
qed

lemma cut_prev:
  assumes ok: "blocks_ok (xs @ d1 # ys) a b p" and free: "mp_blocks p (Suc e) = d1 # ds"
  defines "d2 \<equiv> d1 + size_of e" and "q \<equiv> cut_block e d1 ds p"
  shows "de_prev (mp_mem q (hd (xs @ d1 # d2 # ys))) = None" "\<forall>n\<in>set (tl (xs @ d1 # d2 # ys)). prev_ok q (xs @ d1 # d2 # ys) n"
proof -
  let ?rs = "xs @ d1 # ys" and ?rs' = "xs @ d1 # d2 # ys"
  note inv = ok [unfolded blocks_ok_def] and f = cut_facts [OF ok free, folded d2_def]
  note mem = cut_mem [OF meta_eq_to_obj_eq [OF d2_def] f(6,7), where ds = ds and p = p, folded q_def]
  show "de_prev (mp_mem q (hd ?rs')) = None" using inv mem(1,4) by (cases xs) auto
  show "\<forall>n\<in>set (tl ?rs'). prev_ok q ?rs' n"
  proof
    fix n
    assume n: "n \<in> set (tl ?rs')"
    show "prev_ok q ?rs' n"
    proof (cases "n = d2")
      case True
      then show ?thesis using f(4,5) mem(2) unfolding prev_ok_def by (intro exI [of _ d1] exI [of _ e]) simp
    next
      case False
      then have "n \<in> set (tl ?rs)" using n by (cases xs) auto
      then obtain y k where "de_prev (mp_mem p n) = Some y" "y \<in> set ?rs" "unat n = unat y + 2 ^ k" "2 ^ k dvd unat y"
        using inv unfolding prev_ok_def by blast
      moreover have "de_prev (mp_mem q n) = de_prev (mp_mem p n)" using False mem(1,3) by (cases "n = d1") auto
      ultimately show ?thesis unfolding prev_ok_def by (intro exI [of _ y] exI [of _ k]) auto
    qed
  qed
qed

lemma cut_free:
  assumes ok: "blocks_ok (xs @ d1 # ys) a b p" and free: "mp_blocks p (Suc e) = d1 # ds"
  defines "d2 \<equiv> d1 + size_of e" and "q \<equiv> cut_block e d1 ds p"
  shows "distinct (mp_blocks q l)" "set (mp_blocks q l) = is_free q (xs @ d1 # d2 # ys) l"
proof -
  let ?rs = "xs @ d1 # ys" and ?rs' = "xs @ d1 # d2 # ys"
  note f = cut_facts [OF ok free, folded d2_def]
  note mem = cut_mem [OF meta_eq_to_obj_eq [OF d2_def] f(6,7), where ds = ds and p = p, folded q_def]
  have old: "distinct (mp_blocks p l)" "set (mp_blocks p l) = is_free p ?rs l" for l using ok by (auto simp: blocks_ok_def)
  have bl: "mp_blocks q = (mp_blocks p)(Suc e := ds, e := d2 # d1 # mp_blocks p e)" by (simp add: q_def cut_block_def Let_def d2_def)
  have d1: "x \<in> is_free p ?rs l \<Longrightarrow> x = d1 \<Longrightarrow> l = Suc e" "d2 \<notin> is_free p ?rs l" for x l using f(2,6) by (auto simp: is_free_def)
  have "x \<in> is_free q ?rs' l \<longleftrightarrow> x \<in> is_free p ?rs l" if "x \<noteq> d1" "x \<noteq> d2" for x
    using that mem(3) [OF that] by (auto simp: is_free_def)
  moreover have "x \<in> is_free q ?rs' l \<longleftrightarrow> l = e" if "x = d1 \<or> x = d2" for x
    using that f(1) mem(1,2) by (auto simp: is_free_def)
  ultimately have fr: "is_free q ?rs' l = (if l = e then {d1, d2} \<union> is_free p ?rs l else is_free p ?rs l - {d1})"
    using d1 by (intro set_eqI) (metis (no_types, lifting) Diff_iff Un_iff insert_iff empty_iff n_not_Suc_n)
  have "d1 \<notin> set (mp_blocks p e)" "d2 \<notin> set (mp_blocks p l)" "d2 \<noteq> d1" for l
    using d1(1) [of d1 e] d1(2) [of l] old(2) f(6) by auto
  then show "distinct (mp_blocks q l)" using old(1) [of l] old(1) [of "Suc e"] free by (auto simp: bl)
  have "set ds = is_free p ?rs (Suc e) - {d1}" using old [of "Suc e"] free by auto
  then show "set (mp_blocks q l) = is_free q ?rs' l" unfolding fr bl using old(2) [of l] d1(1) by auto
qed

lemma cut_ok:
  assumes ok: "blocks_ok (xs @ d1 # ys) a b p" and free: "mp_blocks p (Suc e) = d1 # ds" and e: "5 \<le> e"
  defines "rs' \<equiv> xs @ d1 # (d1 + size_of e) # ys" and "q \<equiv> cut_block e d1 ds p"
  shows "blocks_ok rs' a b q" "free_bytes rs' q = free_bytes (xs @ d1 # ys) p" "busy_blocks rs' q = busy_blocks (xs @ d1 # ys) p"
proof -
  let ?rs = "xs @ d1 # ys"
  note f = cut_facts [OF ok free]
  note mem = cut_mem [OF refl f(6,7), where ds = ds and p = p, folded q_def]
  show "blocks_ok rs' a b q"
    using ok cut_regions [OF ok free e] cut_prev [OF ok free] cut_free [OF ok free]
    unfolding blocks_ok_def rs'_def q_def by auto
  have "free_bytes zs q = free_bytes zs p" if "set zs \<subseteq> set xs \<union> set ys" for zs
    using that mem(4) by (intro free_bytes_cong) auto
  then show "free_bytes rs' q = free_bytes ?rs p" using f(1,2) mem(1,2) by (simp add: rs'_def)
  have "x \<in> set rs' \<and> de_busy (mp_mem q x) \<longleftrightarrow> x \<in> set ?rs \<and> de_busy (mp_mem p x)" "de_busy (mp_mem p x) \<Longrightarrow> x \<in> set ?rs \<Longrightarrow> lg q x = lg p x" for x
    using f(1,6) mem(1,2) mem(3) [of x] by (cases "x = d1"; cases "x = d1 + size_of e"; auto simp: rs'_def)+
  then show "busy_blocks rs' q = busy_blocks ?rs p" unfolding busy_blocks_def by (auto; metis)
qed

section \<open>Combining keeps the pool\<close>

text \<open>The state after the join of the neighbours \<open>d1\<close> and \<open>d2\<close>, each of size \<open>2^e\<close>.\<close>

definition join_blocks :: "nat \<Rightarrow> u32 \<Rightarrow> u32 \<Rightarrow> mpool \<Rightarrow> mpool" where
  "join_blocks e d1 d2 p =
     (let nxt = de_next (mp_mem p d2);
          m1 = (mp_mem p)(d1 := (mp_mem p d1)\<lparr>de_lgsz := Suc e, de_next := nxt\<rparr>);
          m2 = (case nxt of Some n \<Rightarrow> m1(n := (m1 n)\<lparr>de_prev := Some d1\<rparr>) | None \<Rightarrow> m1) in
      p\<lparr>mp_mem := m2(d2 := (m2 d2)\<lparr>de_prev := None, de_next := None\<rparr>),
        mp_blocks := (mp_blocks p)(e := remove1 d2 (remove1 d1 (mp_blocks p e)), Suc e := d1 # mp_blocks p (Suc e))\<rparr>)"

lemma combine_step_eq:
  assumes "buddy p d = Some b" "lg p d = e" "lg p b = e" "\<not> de_busy (mp_mem p b)" "(d1, d2) = (if d > b then (b, d) else (d, b))"
    and "de_prev (mp_mem p d2) = Some d1" "d1 \<noteq> d2" "d1 \<in> set (mp_blocks p e)" "d2 \<in> set (mp_blocks p e)" "5 \<le> e" "e < 31"
  shows "combine_step d p = Inr (Some (d1, join_blocks e d1 d2 p))"
proof -
  have "remove_region d2 (de_upd d1 (\<lambda>x. x\<lparr>de_lgsz := Suc e\<rparr>) p) = p\<lparr>mp_mem := mp_mem (join_blocks e d1 d2 p)\<rparr>"
    using assms(6,7) by (auto simp: remove_region_def de_upd_def join_blocks_def Let_def split: option.splits)
  moreover have "d2 \<in> set (remove1 d1 (mp_blocks p e))" using assms(7,9) by (simp add: in_set_remove1)
  ultimately show ?thesis using assms(1-5,8,10,11)
    by (auto simp: combine_step_def Let_def remove_block_def add_block_def Lgsz_min_def Lgsz_max_def join_blocks_def split: if_splits)
qed

text \<open>The neighbours that a free block is joined with.\<close>

definition pair_in :: "u32 list \<Rightarrow> u32 \<Rightarrow> u32 \<Rightarrow> nat \<Rightarrow> mpool \<Rightarrow> bool" where
  "pair_in rs d1 d2 e p \<longleftrightarrow> (\<exists>xs ys. rs = xs @ d1 # d2 # ys) \<and> lg p d1 = e \<and> lg p d2 = e
     \<and> \<not> de_busy (mp_mem p d1) \<and> \<not> de_busy (mp_mem p d2) \<and> 2 ^ Suc e dvd unat d1"

lemma chain_next:
  "chain nx h (xs @ d # ys) None \<Longrightarrow> nx d = (case ys of [] \<Rightarrow> None | n # _ \<Rightarrow> Some n)"
  by (auto simp: chain_append split: list.splits)

lemma is_aligned_dvd: "k < 32 \<Longrightarrow> is_aligned d (size_of k) \<longleftrightarrow> 2 ^ k dvd unat d"
proof -
  assume k: "k < 32"
  have "is_aligned d (size_of k) \<longleftrightarrow> take_bit k d = 0" unfolding size_of_def using is_aligned_exp k by blast
  also have "\<dots> \<longleftrightarrow> take_bit k (unat d) = 0" by (metis unat_0 unat_eq_0 unsigned_take_bit_eq)
  also have "\<dots> \<longleftrightarrow> 2 ^ k dvd unat d" by (simp add: take_bit_eq_0_iff)
  finally show ?thesis .
qed

lemma odd_neighbour:
  assumes "tiled l a (xs @ d1 # d2 # ys) b" "l d1 = e" "2 ^ Suc e dvd unat d1"
  shows "unat d2 = unat d1 + 2 ^ e" "\<not> 2 ^ Suc e dvd unat d2"
proof -
  show u: "unat d2 = unat d1 + 2 ^ e" using assms(1,2) by (auto simp: tiled_append)
  show "\<not> 2 ^ Suc e dvd unat d2"
  proof
    assume "2 ^ Suc e dvd unat d2"
    then have "(2::nat) ^ Suc e dvd 2 ^ e" using assms(3) u by (simp add: dvd_add_right_iff)
    then show False by (simp add: dvd_def) 
  qed
qed

lemma even_half:
  assumes "2 ^ e dvd (n::nat)" "\<not> 2 ^ Suc e dvd n + 2 ^ e"
  shows "2 ^ Suc e dvd n"
proof -
  obtain q where q: "n = 2 ^ e * q" using assms(1) by (elim dvdE)
  then have "n + 2 ^ e = 2 ^ e * (q + 1)" by simp
  then have "\<not> 2 dvd q + 1" using assms(2) by (metis mult_dvd_mono dvd_refl power_Suc2)
  then have "2 dvd q" by simp
  then show ?thesis unfolding q by (metis mult_dvd_mono dvd_refl power_Suc2)
qed

lemma prev_of_neighbour:
  assumes ok: "blocks_ok rs a b p" and rs: "rs = xs @ d1 # d2 # ys" and e: "lg p d1 = e" "2 ^ Suc e dvd unat d1"
  shows "de_prev (mp_mem p d2) = Some d1"
proof -
  have t: "tiled (lg p) a rs b" using ok by (simp add: blocks_ok_def)
  note o = odd_neighbour [OF t [unfolded rs] e]
  have "d2 \<in> set (tl rs)" unfolding rs by (cases xs) auto
  then obtain y k where y: "de_prev (mp_mem p d2) = Some y" "y \<in> set rs" "unat d2 = unat y + 2 ^ k" "2 ^ k dvd unat y"
    using ok by (auto simp: blocks_ok_def prev_ok_def)
  have "k \<le> e" using prev_near [OF y(3,4), of e] o(2) by simp
  then have "(2::nat) ^ k \<le> 2 ^ e" by (rule power_increasing) simp
  then have "unat d1 \<le> unat y" using y(3) o(1) by linarith
  moreover have "\<not> unat d1 < unat y"
  proof
    assume "unat d1 < unat y"
    then have "unat d1 + 2 ^ e \<le> unat y" using tiled_apart [OF t, of d1 y] y(2) e(1) rs by simp
    then show False using y(3) o(1) by simp
  qed
  ultimately show ?thesis using y(1) by (simp add: word_unat_eq_iff)
qed

lemma next_block:
  assumes "tiled l a (us @ x # vs) b" "y \<in> set (us @ x # vs)" "unat y = unat x + 2 ^ l x"
  shows "\<exists>ys. vs = y # ys"
proof -
  have "y \<in> set vs"
  proof (rule ccontr)
    assume "y \<notin> set vs"
    then consider "y \<in> set us" | "y = x" using assms(2) by auto
    then show False
    proof cases
      case 1
      obtain c where "tiled l a us c" "c = unat x" using assms(1) by (auto simp: tiled_append)
      then have "unat y \<le> unat x" using tiled_member [of l a us c y] 1 by simp
      then show ?thesis using assms(3) by simp
    qed (use assms(3) in simp)
  qed
  then obtain w ys where w: "vs = w # ys" by (cases vs) auto
  then have "unat w = unat x + 2 ^ l x" using assms(1) by (auto simp: tiled_append)
  then show ?thesis using w assms(3) by (simp add: word_unat_eq_iff)
qed

text \<open>The two ways to a buddy: the next region of an aligned block, and the previous one of another.\<close>

lemma buddy_next:
  assumes ok: "blocks_ok rs a b p" and d: "d \<in> set rs" "lg p d = e" "is_aligned d (size_of e * 2)" "de_next (mp_mem p d) = Some c"
  shows "\<exists>xs ys. rs = xs @ d # c # ys" "e < 31" "2 ^ Suc e dvd unat d" "d < c"
proof -
  have t: "tiled (lg p) a rs b" and a: "0 < a" and ch: "chain (\<lambda>d. de_next (mp_mem p d)) (mp_regions p) rs None"
    using ok by (auto simp: blocks_ok_def)
  have m: "e \<le> 31" "a \<le> unat d" using tiled_member [OF t d(1)] d(2) by auto
  show e: "e < 31"
  proof (rule ccontr)
    assume "\<not> e < 31"
    then have "size_of e * 2 = 0" using m(1) by (simp add: size_of_def)
    then have "d = 0" using d(3) by (simp add: is_aligned_def)
    then show False using m(2) a by simp
  qed
  have "size_of e * 2 = size_of (Suc e)" by (simp add: size_of_def)
  then show al: "2 ^ Suc e dvd unat d" using d(3) e is_aligned_dvd [of "Suc e" d] by simp
  obtain us vs where rs: "rs = us @ d # vs" using d(1) by (meson split_list)
  then obtain ys where vs: "vs = c # ys" using chain_next [OF ch [unfolded rs]] d(4) by (auto split: list.splits)
  then show "\<exists>xs ys. rs = xs @ d # c # ys" using rs by blast
  show "d < c" using odd_neighbour(1) [of "lg p" a us d c ys b e] t rs vs al d(2) by (simp add: word_less_nat_alt)
qed

lemma buddy_prev:
  assumes ok: "blocks_ok rs a b p" and d: "d \<in> set rs" "lg p d = e" "\<not> is_aligned d (size_of e * 2)"
    and c: "de_prev (mp_mem p d) = Some c" "lg p c = e"
  shows "\<exists>xs ys. rs = xs @ c # d # ys" "e < 31" "2 ^ Suc e dvd unat c" "c < d"
proof -
  have t: "tiled (lg p) a rs b" and a: "0 < a" using ok by (auto simp: blocks_ok_def)
  have "d \<noteq> hd rs" using ok c(1) by (auto simp: blocks_ok_def)
  then have "d \<in> set (tl rs)" using d(1) by (cases rs) auto
  then obtain k where k: "c \<in> set rs" "unat d = unat c + 2 ^ k" "2 ^ k dvd unat c"
    using ok c(1) by (auto simp: blocks_ok_def prev_ok_def)
  have far: "unat c + 2 ^ e \<le> unat d" using tiled_apart [OF t k(1) d(1)] k(2) c(2) by simp
  then have ek: "e \<le> k" using k(2) by (metis add_le_cancel_left power_increasing_iff one_less_numeral_iff semiring_norm(76))
  have m: "e \<le> 31" "2 ^ e dvd unat c" "a \<le> unat c" using tiled_member [OF t k(1)] c(2) by auto
  show e: "e < 31"
  proof (rule ccontr)
    assume "\<not> e < 31"
    then have "e = 31" using m(1) by simp
    moreover have "2 ^ e \<le> unat c" using dvd_imp_le [OF m(2)] m(3) a by simp
    ultimately show False using u32_less [of d] far by simp
  qed
  have nal: "\<not> 2 ^ Suc e dvd unat d" using d(3) e is_aligned_dvd [of "Suc e" d] by (simp add: size_of_def mult.commute)
  then have "k = e" using prev_near [OF k(2,3), of e] ek by simp
  then have u: "unat d = unat c + 2 ^ e" using k(2) by simp
  then show "2 ^ Suc e dvd unat c" using even_half [OF m(2)] nal by simp
  obtain us vs where "rs = us @ c # vs" using k(1) by (meson split_list)
  then show "\<exists>xs ys. rs = xs @ c # d # ys" using next_block [of "lg p" a us c vs b d] t d(1) u c(2) by auto
  show "c < d" using u by (simp add: word_less_nat_alt)
qed

text \<open>The buddy that \<open>combine\<close> finds really is the other half of an aligned pair.\<close>

lemma buddy_pair:
  assumes ok: "blocks_ok rs a b p" and d: "d \<in> set rs" "\<not> de_busy (mp_mem p d)" "lg p d = e"
    and bd: "buddy p d = Some c" "lg p c = e" "\<not> de_busy (mp_mem p c)"
  shows "\<exists>d1 d2. (d1, d2) = (if d > c then (c, d) else (d, c)) \<and> pair_in rs d1 d2 e p \<and> e < 31"
proof (cases "is_aligned d (size_of e * 2)")
  case True
  then have "de_next (mp_mem p d) = Some c" using bd(1) d(3) by (simp add: buddy_def Let_def)
  note n = buddy_next [OF ok d(1,3) True this]
  then show ?thesis using d bd by (auto simp: pair_in_def)
next
  case False
  then have "de_prev (mp_mem p d) = Some c" using bd(1) d(3) by (simp add: buddy_def Let_def)
  note n = buddy_prev [OF ok d(1,3) False this bd(2)]
  then show ?thesis using d bd by (auto simp: pair_in_def)
qed

lemma join_facts:
  assumes ok: "blocks_ok (xs @ d1 # d2 # ys) a b p" and pr: "pair_in (xs @ d1 # d2 # ys) d1 d2 e p"
  shows "lg p d1 = e" "lg p d2 = e" "\<not> de_busy (mp_mem p d1)" "\<not> de_busy (mp_mem p d2)" "2 ^ Suc e dvd unat d1"
    "unat d2 = unat d1 + 2 ^ e" "\<not> 2 ^ Suc e dvd unat d2" "distinct (xs @ d1 # d2 # ys)" "de_prev (mp_mem p d2) = Some d1"
    "de_next (mp_mem p d2) = (case ys of [] \<Rightarrow> None | n # _ \<Rightarrow> Some n)"
proof -
  have t: "tiled (lg p) a (xs @ d1 # d2 # ys) b" using ok by (simp add: blocks_ok_def)
  show f: "lg p d1 = e" "lg p d2 = e" "\<not> de_busy (mp_mem p d1)" "\<not> de_busy (mp_mem p d2)" "2 ^ Suc e dvd unat d1"
    using pr by (auto simp: pair_in_def)
  show "unat d2 = unat d1 + 2 ^ e" "\<not> 2 ^ Suc e dvd unat d2" using odd_neighbour [OF t f(1,5)] .
  show "distinct (xs @ d1 # d2 # ys)" by (rule tiled_distinct [OF t])
  show "de_prev (mp_mem p d2) = Some d1" by (rule prev_of_neighbour [OF ok refl f(1,5)])
  show "de_next (mp_mem p d2) = (case ys of [] \<Rightarrow> None | n # _ \<Rightarrow> Some n)"
    using ok chain_next [of "\<lambda>d. de_next (mp_mem p d)" "mp_regions p" "xs @ [d1]" d2 ys] by (simp add: blocks_ok_def)
qed

lemma join_mem:
  assumes "distinct (xs @ d1 # d2 # ys)" "de_next (mp_mem p d2) = (case ys of [] \<Rightarrow> None | n # _ \<Rightarrow> Some n)"
  shows "mp_mem (join_blocks e d1 d2 p) d1 = (mp_mem p d1)\<lparr>de_lgsz := Suc e, de_next := de_next (mp_mem p d2)\<rparr>"
    "x \<in> set xs \<Longrightarrow> mp_mem (join_blocks e d1 d2 p) x = mp_mem p x"
    "x \<in> set ys \<Longrightarrow> mp_mem (join_blocks e d1 d2 p) x = (if x = hd ys then (mp_mem p x)\<lparr>de_prev := Some d1\<rparr> else mp_mem p x)"
    "mp_regions (join_blocks e d1 d2 p) = mp_regions p"
    "x \<in> set xs \<union> set ys \<Longrightarrow> lg (join_blocks e d1 d2 p) x = lg p x \<and> de_busy (mp_mem (join_blocks e d1 d2 p) x) = de_busy (mp_mem p x)
       \<and> de_next (mp_mem (join_blocks e d1 d2 p) x) = de_next (mp_mem p x)"
  using assms by (auto simp: join_blocks_def Let_def split: list.splits)

lemma join_regions:
  assumes ok: "blocks_ok (xs @ d1 # d2 # ys) a b p" and pr: "pair_in (xs @ d1 # d2 # ys) d1 d2 e p" and e: "e < 31"
  defines "q \<equiv> join_blocks e d1 d2 p"
  shows "tiled (lg q) a (xs @ d1 # ys) b" "chain (\<lambda>d. de_next (mp_mem q d)) (mp_regions q) (xs @ d1 # ys) None"
proof -
  note inv = ok [unfolded blocks_ok_def] and f = join_facts [OF ok pr]
  note mem = join_mem [OF f(8,10), where e = e, folded q_def]
  obtain c where c: "tiled (lg p) a xs c" "unat d1 = c" "5 \<le> e" "tiled (lg p) (c + 2 ^ e + 2 ^ e) ys b"
    using inv f(1,2) by (auto simp: tiled_append)
  have "tiled (lg q) a xs c" "tiled (lg q) (c + 2 ^ e + 2 ^ e) ys b" using c mem(5) by (simp_all cong: tiled_cong)
  then show "tiled (lg q) a (xs @ d1 # ys) b"
    using c(2,3) e f(5) by (auto simp: tiled_append mem(1) mult_2 add.assoc)
  obtain h where h: "chain (\<lambda>d. de_next (mp_mem p d)) (mp_regions p) xs h" "h = Some d1"
    "chain (\<lambda>d. de_next (mp_mem p d)) (de_next (mp_mem p d2)) ys None" using inv by (auto simp: chain_append)
  have "chain (\<lambda>d. de_next (mp_mem q d)) (mp_regions p) xs h" "chain (\<lambda>d. de_next (mp_mem q d)) (de_next (mp_mem p d2)) ys None"
    using h mem(5) by (simp_all cong: chain_cong)
  then show "chain (\<lambda>d. de_next (mp_mem q d)) (mp_regions q) (xs @ d1 # ys) None"
    using h(2) by (auto simp: chain_append mem(1,4))
qed

text \<open>No other block than the neighbour leads back to the right half of the pair.\<close>

lemma prev_not_right:
  assumes ok: "blocks_ok (xs @ d1 # d2 # ys) a b p" and pr: "pair_in (xs @ d1 # d2 # ys) d1 d2 e p"
    and n: "n \<in> set (xs @ d1 # d2 # ys)" "unat n = unat d2 + 2 ^ k" "2 ^ k dvd unat d2"
  shows "ys \<noteq> [] \<and> n = hd ys"
proof -
  note f = join_facts [OF ok pr]
  have t: "tiled (lg p) a (xs @ d1 # d2 # ys) b" using ok by (simp add: blocks_ok_def)
  have "unat d2 + 2 ^ e \<le> unat n" using tiled_apart [OF t, of d2 n] n(1,2) f(2) by simp
  then have "e \<le> k" using n(2) by (metis add_le_cancel_left power_increasing_iff one_less_numeral_iff semiring_norm(76))
  moreover have "k \<le> e" using f(7) n(3) power_le_dvd [of 2 k "unat d2" "Suc e"] not_less_eq_eq by blast
  ultimately show ?thesis using next_block [of "lg p" a "xs @ [d1]" d2 ys b n] t n(1,2) f(2) by auto
qed

lemma join_prev:
  assumes ok: "blocks_ok (xs @ d1 # d2 # ys) a b p" and pr: "pair_in (xs @ d1 # d2 # ys) d1 d2 e p"
  defines "q \<equiv> join_blocks e d1 d2 p"
  shows "de_prev (mp_mem q (hd (xs @ d1 # ys))) = None" "\<forall>n\<in>set (tl (xs @ d1 # ys)). prev_ok q (xs @ d1 # ys) n"
proof -
  let ?rs = "xs @ d1 # d2 # ys" and ?rs' = "xs @ d1 # ys"
  note inv = ok [unfolded blocks_ok_def] and f = join_facts [OF ok pr]
  note mem = join_mem [OF f(8,10), where e = e, folded q_def]
  show "de_prev (mp_mem q (hd ?rs')) = None" using inv mem(1,2) by (cases xs) auto
  show "\<forall>n\<in>set (tl ?rs'). prev_ok q ?rs' n"
  proof
    fix n
    assume n: "n \<in> set (tl ?rs')"
    then have ns: "n \<in> set (tl ?rs)" "n \<in> set ?rs" "n \<in> set xs \<or> n = d1 \<or> n \<in> set ys" by (cases xs; auto)+
    show "prev_ok q ?rs' n"
    proof (cases "ys \<noteq> [] \<and> n = hd ys")
      case True
      then obtain zs where ys: "ys = n # zs" by (cases ys) auto
      then have "unat n = unat d1 + 2 ^ Suc e" using inv f(1,2,6) by (auto simp: tiled_append)
      then show ?thesis using mem(3) [of n] ys f(5) unfolding prev_ok_def by (intro exI [of _ d1] exI [of _ "Suc e"]) auto
    next
      case False
      obtain y k where y: "de_prev (mp_mem p n) = Some y" "y \<in> set ?rs" "unat n = unat y + 2 ^ k" "2 ^ k dvd unat y"
        using inv ns(1) unfolding prev_ok_def by blast
      then have "y \<noteq> d2" using prev_not_right [OF ok pr ns(2)] False by blast
      moreover have "de_prev (mp_mem q n) = de_prev (mp_mem p n)" using False ns(3) mem by auto
      ultimately show ?thesis using y unfolding prev_ok_def by (intro exI [of _ y] exI [of _ k]) auto
    qed
  qed
qed

lemma join_free:
  assumes ok: "blocks_ok (xs @ d1 # d2 # ys) a b p" and pr: "pair_in (xs @ d1 # d2 # ys) d1 d2 e p"
  defines "q \<equiv> join_blocks e d1 d2 p"
  shows "distinct (mp_blocks q l)" "set (mp_blocks q l) = is_free q (xs @ d1 # ys) l"
proof -
  let ?rs = "xs @ d1 # d2 # ys" and ?rs' = "xs @ d1 # ys"
  note f = join_facts [OF ok pr]
  note mem = join_mem [OF f(8,10), where e = e, folded q_def]
  have old: "distinct (mp_blocks p l)" "set (mp_blocks p l) = is_free p ?rs l" for l using ok by (auto simp: blocks_ok_def)
  have bl: "mp_blocks q = (mp_blocks p)(e := remove1 d2 (remove1 d1 (mp_blocks p e)), Suc e := d1 # mp_blocks p (Suc e))"
    by (simp add: q_def join_blocks_def Let_def)
  have d12: "d1 \<in> is_free p ?rs l \<longleftrightarrow> l = e" "d2 \<in> is_free p ?rs l \<longleftrightarrow> l = e" for l using f(1-4) by (auto simp: is_free_def)
  have "x \<in> is_free q ?rs' l \<longleftrightarrow> x \<in> is_free p ?rs l" if "x \<noteq> d1" "x \<noteq> d2" for x
    using that mem(5) [of x] by (auto simp: is_free_def)
  moreover have "d1 \<in> is_free q ?rs' l \<longleftrightarrow> l = Suc e" "d2 \<notin> is_free q ?rs' l" using mem(1) f(3,8) by (auto simp: is_free_def)
  ultimately have fr: "is_free q ?rs' l = (if l = Suc e then insert d1 (is_free p ?rs l) else is_free p ?rs l - {d1, d2})"
    using d12 [of l] by (intro set_eqI) (metis (no_types, lifting) Diff_iff insert_iff empty_iff n_not_Suc_n)
  show "distinct (mp_blocks q l)" using old(1) [of l] old(1) [of e] old [of "Suc e"] d12(1) [of "Suc e"] by (simp add: bl)
  consider "l = e" | "l = Suc e" | "l \<noteq> e" "l \<noteq> Suc e" by blast
  then show "set (mp_blocks q l) = is_free q ?rs' l"
  proof cases
    case 1
    then show ?thesis unfolding fr using old [of e] by (simp add: bl) blast
  next
    case 2
    then show ?thesis unfolding fr using old(2) [of l] by (simp add: bl)
  next
    case 3
    then show ?thesis unfolding fr using old(2) [of l] d12 [of l] by (simp add: bl)
  qed
qed

lemma join_ok:
  assumes ok: "blocks_ok (xs @ d1 # d2 # ys) a b p" and pr: "pair_in (xs @ d1 # d2 # ys) d1 d2 e p" and e: "e < 31"
  defines "rs' \<equiv> xs @ d1 # ys" and "q \<equiv> join_blocks e d1 d2 p"
  shows "blocks_ok rs' a b q" "free_bytes rs' q = free_bytes (xs @ d1 # d2 # ys) p"
    "busy_blocks rs' q = busy_blocks (xs @ d1 # d2 # ys) p" "mp_size q = mp_size p"
    "d1 \<in> set rs' \<and> \<not> de_busy (mp_mem q d1)"
proof -
  let ?rs = "xs @ d1 # d2 # ys"
  note f = join_facts [OF ok pr]
  note mem = join_mem [OF f(8,10), where e = e, folded q_def]
  show "blocks_ok rs' a b q"
    using ok join_regions [OF ok pr e] join_prev [OF ok pr] join_free [OF ok pr]
    unfolding blocks_ok_def rs'_def q_def by auto
  have "free_bytes xs q = free_bytes xs p" "free_bytes ys q = free_bytes ys p"
    using mem(5) by (intro free_bytes_cong; simp)+
  then show "free_bytes rs' q = free_bytes ?rs p" using f(1-4) mem(1) by (simp add: rs'_def)
  have "x \<in> set rs' \<and> de_busy (mp_mem q x) \<longleftrightarrow> x \<in> set ?rs \<and> de_busy (mp_mem p x)"
    "de_busy (mp_mem p x) \<Longrightarrow> x \<in> set ?rs \<Longrightarrow> lg q x = lg p x" for x
    using f(3,4,8) mem(1) mem(5) [of x] by (cases "x = d1"; cases "x = d2"; auto simp: rs'_def)+
  then show "busy_blocks rs' q = busy_blocks ?rs p" unfolding busy_blocks_def by (auto; metis)
  show "mp_size q = mp_size p" by (simp add: q_def join_blocks_def Let_def)
  show "d1 \<in> set rs' \<and> \<not> de_busy (mp_mem q d1)" using mem(1) f(3) by (simp add: rs'_def)
qed

section \<open>Allocation and release keep the pool\<close>

text \<open>The blocks may be other ones, but the busy ones and the number of free bytes are the same.\<close>

definition kept :: "nat \<Rightarrow> nat \<Rightarrow> u32 list \<Rightarrow> mpool \<Rightarrow> u32 list \<Rightarrow> mpool \<Rightarrow> bool" where
  "kept a b rs p rs' q \<longleftrightarrow> blocks_ok rs' a b q \<and> free_bytes rs' q = free_bytes rs p \<and> busy_blocks rs' q = busy_blocks rs p
     \<and> mp_size q = mp_size p"

lemma kept_refl: "blocks_ok rs a b p \<Longrightarrow> kept a b rs p rs p"
  by (simp add: kept_def)

lemma kept_trans: "kept a b rs p rs' q \<Longrightarrow> kept a b rs' q rs'' r \<Longrightarrow> kept a b rs p rs'' r"
  by (simp add: kept_def)

text \<open>A split, down from the next larger free block.\<close>

lemma split_first_ok:
  assumes ok: "blocks_ok rs a b p" and e: "5 \<le> e" and free: "mp_blocks p (Suc e) \<noteq> []"
  shows "\<exists>rs' q. split_first (Suc e) p = Inr (True, q) \<and> kept a b rs p rs' q \<and> mp_blocks q e \<noteq> [] \<and> (\<forall>j<e. mp_blocks q j = mp_blocks p j)"
proof -
  obtain d1 ds where d: "mp_blocks p (Suc e) = d1 # ds" using free by (cases "mp_blocks p (Suc e)") auto
  then have "d1 \<in> set rs" using ok by (metis (no_types, lifting) blocks_ok_def is_free_def list.set_intros(1) mem_Collect_eq)
  then obtain xs ys where rs: "rs = xs @ d1 # ys" by (meson split_list)
  let ?q = "cut_block e d1 ds p" and ?rs = "xs @ d1 # (d1 + size_of e) # ys"
  note f = cut_facts [OF ok [unfolded rs] d] and k = cut_ok [OF ok [unfolded rs] d e, folded rs]
  have "d1 + size_of e \<noteq> d1" using f(6) by auto
  then have "split_first (Suc e) p = Inr (True, ?q)" using split_first_eq [OF d f(1,2) e f(3)] by blast
  moreover have "mp_size ?q = mp_size p" "mp_blocks ?q e \<noteq> []" "\<forall>j<e. mp_blocks ?q j = mp_blocks p j"
    by (simp_all add: cut_block_def Let_def)
  ultimately show ?thesis using k unfolding kept_def by blast
qed

lemma split_ok:
  "blocks_ok rs a b p \<Longrightarrow> 5 < l \<Longrightarrow> l \<le> 32 \<Longrightarrow> \<exists>rs' q r. split l p = Inr (r, q) \<and> kept a b rs p rs' q
    \<and> (mp_blocks q (l - 1) \<noteq> [] \<longleftrightarrow> mp_blocks p (l - 1) \<noteq> [] \<or> (\<exists>k. l \<le> k \<and> k \<le> 31 \<and> mp_blocks p k \<noteq> []))
    \<and> (\<forall>j<l - 1. mp_blocks q j = mp_blocks p j)"
proof (induction "32 - l" arbitrary: l p rs rule: less_induct)
  case less
  show ?case
  proof (cases "l = 32")
    case True
    then show ?thesis using kept_refl [OF less.prems(1)]
      by (intro exI [of _ rs] exI [of _ p] exI [of _ False]) (auto simp: split.simps [of 32] Lgsz_max_def)
  next
    case False
    then have l: "5 < l" "l \<le> 31" using less.prems by auto
    have s: "split l p = res_bind (if mp_blocks p l = [] then split (l + 1) p else Inr (False, p)) (\<lambda>(_, p1). split_first l p1)"
      using l by (simp add: split.simps [of l p] Lgsz_min_def Lgsz_max_def)
    have "\<exists>rs1 q1 r. (if mp_blocks p l = [] then split (l + 1) p else Inr (False, p)) = Inr (r, q1) \<and> kept a b rs p rs1 q1
      \<and> (mp_blocks q1 l \<noteq> [] \<longleftrightarrow> (\<exists>k. l \<le> k \<and> k \<le> 31 \<and> mp_blocks p k \<noteq> [])) \<and> (\<forall>j<l. mp_blocks q1 j = mp_blocks p j)"
    proof (cases "mp_blocks p l = []")
      case True
      have up: "(\<exists>k. l \<le> k \<and> k \<le> 31 \<and> mp_blocks p k \<noteq> []) \<longleftrightarrow> (\<exists>k. l + 1 \<le> k \<and> k \<le> 31 \<and> mp_blocks p k \<noteq> [])"
        using True by (metis Suc_eq_plus1 Suc_leD le_antisym not_less_eq_eq)
      have "32 - (l + 1) < 32 - l" using l by simp
      from less.hyps [OF this less.prems(1)] l obtain rs' q r where "split (l + 1) p = Inr (r, q)" "kept a b rs p rs' q"
        "mp_blocks q l \<noteq> [] \<longleftrightarrow> mp_blocks p l \<noteq> [] \<or> (\<exists>k. l + 1 \<le> k \<and> k \<le> 31 \<and> mp_blocks p k \<noteq> [])" "\<forall>j<l. mp_blocks q j = mp_blocks p j"
        by auto
      then show ?thesis unfolding up using True by auto
    next
      case False
      then show ?thesis using kept_refl [OF less.prems(1)] l by auto
    qed
    then obtain rs1 q1 r where r: "(if mp_blocks p l = [] then split (l + 1) p else Inr (False, p)) = Inr (r, q1)" and "kept a b rs p rs1 q1"
      "mp_blocks q1 l \<noteq> [] \<longleftrightarrow> (\<exists>k. l \<le> k \<and> k \<le> 31 \<and> mp_blocks p k \<noteq> [])" "\<forall>j<l. mp_blocks q1 j = mp_blocks p j" by blast
    moreover have "split l p = split_first l q1" unfolding s r by simp
    ultimately have q1: "split l p = split_first l q1" "kept a b rs p rs1 q1"
      "mp_blocks q1 l \<noteq> [] \<longleftrightarrow> (\<exists>k. l \<le> k \<and> k \<le> 31 \<and> mp_blocks p k \<noteq> [])" "\<forall>j<l. mp_blocks q1 j = mp_blocks p j" by blast+
    show ?thesis
    proof (cases "mp_blocks q1 l = []")
      case True
      then show ?thesis using q1 l by (intro exI [of _ rs1] exI [of _ q1] exI [of _ False]) (auto simp: split_first_def)
    next
      case False
      have "blocks_ok rs1 a b q1" "5 \<le> l - 1" "mp_blocks q1 (Suc (l - 1)) \<noteq> []" using q1(2) l False by (auto simp: kept_def)
      from split_first_ok [OF this] obtain rs2 q2 where "split_first l q1 = Inr (True, q2)" "kept a b rs1 q1 rs2 q2"
        "mp_blocks q2 (l - 1) \<noteq> []" "\<forall>j<l - 1. mp_blocks q2 j = mp_blocks q1 j" using l by auto
      then show ?thesis using q1 False kept_trans [OF q1(2)] l
        by (intro exI [of _ rs2] exI [of _ q2] exI [of _ True]) auto
    qed
  qed
qed

text \<open>Taking the first free block of a size.\<close>

lemma take_ok:
  assumes ok: "blocks_ok rs a b p" and d: "mp_blocks p l = d # ds"
  defines "q \<equiv> de_upd d (\<lambda>x. x\<lparr>de_busy := True\<rparr>) (p\<lparr>mp_blocks := (mp_blocks p)(l := ds)\<rparr>)"
  shows "blocks_ok rs a b q" "free_bytes rs p = free_bytes rs q + 2 ^ l" "busy_blocks rs q = insert (d, l) (busy_blocks rs p)"
    "(d, l) \<notin> busy_blocks rs p" "lg q d = l" "5 \<le> l \<and> l \<le> 31" "mp_size q = mp_size p"
proof -
  have "d \<in> is_free p rs l" using ok d by (metis blocks_ok_def list.set_intros(1))
  then have f: "d \<in> set rs" "\<not> de_busy (mp_mem p d)" "lg p d = l" by (auto simp: is_free_def)
  have t: "tiled (lg p) a rs b" using ok by (simp add: blocks_ok_def)
  show "5 \<le> l \<and> l \<le> 31" using tiled_member [OF t f(1)] f(3) by auto
  have mem: "mp_mem q x = (if x = d then (mp_mem p d)\<lparr>de_busy := True\<rparr> else mp_mem p x)" for x by (simp add: q_def de_upd_def)
  then have fld: "lg q x = lg p x" "de_next (mp_mem q x) = de_next (mp_mem p x)" "de_prev (mp_mem q x) = de_prev (mp_mem p x)" for x by auto
  have "set (mp_blocks q j) = is_free q rs j \<and> distinct (mp_blocks q j)" for j
  proof -
    have "is_free q rs j = is_free p rs j - {d}" using mem by (auto simp: is_free_def)
    moreover have "set (mp_blocks p j) = is_free p rs j" "distinct (mp_blocks p j)" using ok by (auto simp: blocks_ok_def)
    moreover have "d \<notin> is_free p rs j" if "j \<noteq> l" using that f(3) by (auto simp: is_free_def)
    moreover have "mp_blocks q j = (if j = l then ds else mp_blocks p j)" by (simp add: q_def de_upd_def)
    ultimately show ?thesis using d by (cases "j = l") auto
  qed
  then show "blocks_ok rs a b q" using ok unfolding blocks_ok_def prev_ok_def fld by (simp add: q_def de_upd_def)
  show "free_bytes rs p = free_bytes rs q + 2 ^ l"
  proof -
    obtain xs ys where rs: "rs = xs @ d # ys" using f(1) by (meson split_list)
    then have "d \<notin> set xs \<union> set ys" using tiled_distinct [OF t] by auto
    then have "free_bytes xs q = free_bytes xs p" "free_bytes ys q = free_bytes ys p" using mem by (intro free_bytes_cong; auto)+
    then show ?thesis unfolding rs using f mem by simp
  qed
  show "busy_blocks rs q = insert (d, l) (busy_blocks rs p)" using f mem by (auto simp: busy_blocks_def)
  show "(d, l) \<notin> busy_blocks rs p" "lg q d = l" "mp_size q = mp_size p" using f mem by (auto simp: busy_blocks_def q_def de_upd_def)
qed

lemma combine_ok:
  "blocks_ok rs a b p \<Longrightarrow> d \<in> set rs \<Longrightarrow> \<not> de_busy (mp_mem p d) \<Longrightarrow> \<exists>rs' q. combine d p = Inr q \<and> kept a b rs p rs' q"
proof (induction d p arbitrary: rs rule: combine.induct)
  case (1 d p)
  let ?e = "lg p d"
  consider "combine_step d p = Inr None" | c where "buddy p d = Some c" "lg p c = ?e" "\<not> de_busy (mp_mem p c)"
  proof (cases "buddy p d")
    case None
    then show ?thesis using that by (simp add: combine_step_def)
  next
    case (Some c)
    then show ?thesis using that by (cases "?e \<noteq> lg p c \<or> de_busy (mp_mem p c)") (simp_all add: combine_step_def Let_def)
  qed
  then show ?case
  proof cases
    case 1
    then show ?thesis using kept_refl [OF "1.prems"(1)] by (auto simp: combine.simps [of d p])
  next
    case 2
    obtain d1 d2 where d: "(d1, d2) = (if d > c then (c, d) else (d, c))" "pair_in rs d1 d2 ?e p" "?e < 31"
      using buddy_pair [OF "1.prems" refl 2] by blast
    then obtain xs ys where rs: "rs = xs @ d1 # d2 # ys" by (auto simp: pair_in_def)
    note ok = "1.prems"(1) [unfolded rs] and pr = d(2) [unfolded rs]
    note f = join_facts [OF ok pr] and j = join_ok [OF ok pr d(3)]
    have "d1 \<in> is_free p rs ?e" "d2 \<in> is_free p rs ?e" using f(1-4) rs by (auto simp: is_free_def)
    then have m: "d1 \<in> set (mp_blocks p ?e)" "d2 \<in> set (mp_blocks p ?e)" using "1.prems"(1) by (auto simp: blocks_ok_def)
    have "5 \<le> ?e" using tiled_member [of "lg p" a rs b d] "1.prems"(1,2) by (auto simp: blocks_ok_def)
    moreover have "d1 \<noteq> d2" using f(8) by auto
    ultimately have st: "combine_step d p = Inr (Some (d1, join_blocks ?e d1 d2 p))"
      using combine_step_eq [OF 2(1) refl 2(2,3) d(1) f(9)] m d(3) by blast
    obtain rs' q where q: "combine d1 (join_blocks ?e d1 d2 p) = Inr q" "kept a b (xs @ d1 # ys) (join_blocks ?e d1 d2 p) rs' q"
      using "1.IH" [OF st refl refl j(1)] j(5) by blast
    moreover have "kept a b rs p (xs @ d1 # ys) (join_blocks ?e d1 d2 p)" using j by (simp add: kept_def rs)
    ultimately have "kept a b rs p rs' q" using kept_trans by blast
    then show ?thesis using st q(1) by (auto simp: combine.simps [of d p])
  qed
qed

text \<open>Releasing a block before it is combined.\<close>

lemma release_ok:
  assumes ok: "blocks_ok rs a b p" and d: "(d, l) \<in> busy_blocks rs p"
  defines "q \<equiv> de_upd d (\<lambda>x. x\<lparr>de_busy := False\<rparr>) (p\<lparr>mp_blocks := (mp_blocks p)(l := d # mp_blocks p l)\<rparr>)"
  shows "blocks_ok rs a b q" "free_bytes rs q = free_bytes rs p + 2 ^ l" "busy_blocks rs q = busy_blocks rs p - {(d, l)}"
    "mp_size q = mp_size p" "d \<in> set rs" "de_busy (mp_mem p d)" "lg p d = l" "5 \<le> l \<and> l \<le> 31" "\<not> de_busy (mp_mem q d)"
proof -
  show f: "d \<in> set rs" "de_busy (mp_mem p d)" "lg p d = l" using d by (auto simp: busy_blocks_def)
  have t: "tiled (lg p) a rs b" using ok by (simp add: blocks_ok_def)
  show "5 \<le> l \<and> l \<le> 31" using tiled_member [OF t f(1)] f(3) by auto
  have mem: "mp_mem q x = (if x = d then (mp_mem p d)\<lparr>de_busy := False\<rparr> else mp_mem p x)" for x by (simp add: q_def de_upd_def)
  then have fld: "lg q x = lg p x" "de_next (mp_mem q x) = de_next (mp_mem p x)" "de_prev (mp_mem q x) = de_prev (mp_mem p x)" for x by auto
  have "set (mp_blocks q j) = is_free q rs j \<and> distinct (mp_blocks q j)" for j
  proof -
    have "is_free q rs j = (if j = l then insert d (is_free p rs j) else is_free p rs j)" "d \<notin> is_free p rs j"
      using mem f by (auto simp: is_free_def)
    moreover have "set (mp_blocks p j) = is_free p rs j" "distinct (mp_blocks p j)" using ok by (auto simp: blocks_ok_def)
    moreover have "mp_blocks q j = (if j = l then d # mp_blocks p j else mp_blocks p j)" by (simp add: q_def de_upd_def)
    ultimately show ?thesis by (cases "j = l") auto
  qed
  then show "blocks_ok rs a b q" using ok unfolding blocks_ok_def prev_ok_def fld by (simp add: q_def de_upd_def)
  show "free_bytes rs q = free_bytes rs p + 2 ^ l"
  proof -
    obtain xs ys where rs: "rs = xs @ d # ys" using f(1) by (meson split_list)
    then have "d \<notin> set xs \<union> set ys" using tiled_distinct [OF t] by auto
    then have "free_bytes xs q = free_bytes xs p" "free_bytes ys q = free_bytes ys p" using mem by (intro free_bytes_cong; auto)+
    then show ?thesis unfolding rs using f mem by simp
  qed
  have "(x, k) \<in> busy_blocks rs q \<longleftrightarrow> (x, k) \<in> busy_blocks rs p - {(d, l)}" for x k
    using f mem by (cases "x = d") (auto simp: busy_blocks_def)
  then show "busy_blocks rs q = busy_blocks rs p - {(d, l)}" by auto
  show "mp_size q = mp_size p" "\<not> de_busy (mp_mem q d)" using mem by (auto simp: q_def de_upd_def)
qed

section \<open>The allocator\<close>

lemma free_bytes_ge: "d \<in> set rs \<Longrightarrow> \<not> de_busy (mp_mem p d) \<Longrightarrow> 2 ^ lg p d \<le> free_bytes rs p"
  by (induction rs) auto

lemma free_bytes_le: "tiled (lg p) a rs b \<Longrightarrow> free_bytes rs p \<le> b - a"
proof (induction rs arbitrary: a)
  case (Cons d rs)
  then have t: "tiled (lg p) (a + 2 ^ lg p d) rs b" by auto
  then show ?case using Cons.IH [OF t] tiled_le [OF t] by auto
qed simp

lemma free_size:
  assumes "pool_ok rs a b p" "mp_blocks p k \<noteq> []" "l \<le> k" "l < 32"
  shows "size_of l \<le> mp_size p"
proof -
  obtain d where "d \<in> is_free p rs k" using assms(1,2) by (metis blocks_ok_def last_in_set pool_ok_def)
  then have "2 ^ k \<le> free_bytes rs p" using free_bytes_ge by (auto simp: is_free_def)
  moreover have "(2::nat) ^ l \<le> 2 ^ k" using assms(3) by (intro power_increasing) auto
  ultimately show ?thesis using assms(1,4) unfolding pool_ok_def word_le_nat_alt unat_size_of [OF assms(4)] by linarith
qed

text \<open>What an allocation of \<open>2^l\<close> bytes does: nothing, when no block is large enough, or one block becomes busy.\<close>

definition alloc_spec :: "nat \<Rightarrow> u32 list \<Rightarrow> mpool \<Rightarrow> u32 list \<Rightarrow> u32 option \<Rightarrow> mpool \<Rightarrow> bool" where
  "alloc_spec l rs p rs' r q \<longleftrightarrow> (case r of
      None \<Rightarrow> busy_blocks rs' q = busy_blocks rs p \<and> (\<forall>d\<in>set rs. \<not> de_busy (mp_mem p d) \<longrightarrow> lg p d < l)
    | Some d \<Rightarrow> (d, l) \<notin> busy_blocks rs p \<and> busy_blocks rs' q = insert (d, l) (busy_blocks rs p))"

lemma none_free:
  "blocks_ok rs a b p \<Longrightarrow> (\<And>k. l \<le> k \<Longrightarrow> k \<le> 31 \<Longrightarrow> mp_blocks p k = []) \<Longrightarrow> d \<in> set rs \<Longrightarrow> \<not> de_busy (mp_mem p d) \<Longrightarrow> lg p d < l"
proof (rule ccontr)
  assume a: "blocks_ok rs a b p" "\<And>k. l \<le> k \<Longrightarrow> k \<le> 31 \<Longrightarrow> mp_blocks p k = []" "d \<in> set rs" "\<not> de_busy (mp_mem p d)" "\<not> lg p d < l"
  then have "lg p d \<le> 31" using tiled_member [of "lg p" a rs b d] by (auto simp: blocks_ok_def)
  then have "mp_blocks p (lg p d) = []" using a(2,5) by simp
  moreover have "d \<in> is_free p rs (lg p d)" using a(3,4) by (simp add: is_free_def)
  ultimately show False using a(1) by (metis blocks_ok_def empty_iff list.set(1))
qed

lemma size_irrelevant [simp]:
  "blocks_ok rs a b (p\<lparr>mp_size := s\<rparr>) = blocks_ok rs a b p" "free_bytes rs (p\<lparr>mp_size := s\<rparr>) = free_bytes rs p"
  "busy_blocks rs (p\<lparr>mp_size := s\<rparr>) = busy_blocks rs p"
  by (simp_all add: blocks_ok_def prev_ok_def is_free_def busy_blocks_def free_bytes_cong [of rs "p\<lparr>mp_size := s\<rparr>" p])

text \<open>After the splits there is a free block of the size exactly when there was one of at least the size.\<close>

lemma level_ok:
  assumes bl: "blocks_ok rs a b p" and l: "5 \<le> l" "l \<le> 31"
  shows "\<exists>rs1 r q1. (if mp_blocks p l = [] then split (l + 1) p else Inr (False, p)) = Inr (r, q1) \<and> kept a b rs p rs1 q1
      \<and> (mp_blocks q1 l \<noteq> [] \<longleftrightarrow> (\<exists>k. l \<le> k \<and> k \<le> 31 \<and> mp_blocks p k \<noteq> []))"
proof (cases "mp_blocks p l = []")
  case True
  have up: "(\<exists>k. l \<le> k \<and> k \<le> 31 \<and> mp_blocks p k \<noteq> []) \<longleftrightarrow> (\<exists>k. l + 1 \<le> k \<and> k \<le> 31 \<and> mp_blocks p k \<noteq> [])"
    using True by (metis Suc_eq_plus1 Suc_leD le_antisym not_less_eq_eq)
  from split_ok [OF bl, of "l + 1"] l True show ?thesis unfolding up by auto
next
  case False
  then show ?thesis using kept_refl [OF bl] l by auto
qed

lemma alloc_block_ok:
  assumes ok: "pool_ok rs a b p" and l: "l0 \<le> 31" "l = max l0 5"
  shows "\<exists>rs' r q. alloc_block l0 p = Inr (r, q) \<and> pool_ok rs' a b q \<and> alloc_spec l rs p rs' r q"
proof -
  have l5: "5 \<le> l" "l \<le> 31" "max l0 Lgsz_min = l" "\<not> Lgsz_max < l0" using l by (auto simp: Lgsz_min_def Lgsz_max_def)
  have bl: "blocks_ok rs a b p" and sz: "unat (mp_size p) = free_bytes rs p" using ok by (auto simp: pool_ok_def)
  show ?thesis
  proof (cases "mp_size p < size_of l")
    case True
    have "mp_blocks p k = []" if "l \<le> k" for k
    proof (rule ccontr)
      assume "mp_blocks p k \<noteq> []"
      then have "size_of l \<le> mp_size p" using free_size [OF ok _ that] l5 by simp
      then show False using True by simp
    qed
    then have "alloc_spec l rs p rs None p" using none_free [OF bl] by (auto simp: alloc_spec_def)
    then show ?thesis using ok True l5 by (auto simp: alloc_block_def)
  next
    case False
    obtain rs1 r q1 where r: "(if mp_blocks p l = [] then split (l + 1) p else Inr (False, p)) = Inr (r, q1)"
      and k: "kept a b rs p rs1 q1" and ne: "mp_blocks q1 l \<noteq> [] \<longleftrightarrow> (\<exists>k. l \<le> k \<and> k \<le> 31 \<and> mp_blocks p k \<noteq> [])"
      using level_ok [OF bl l5(1,2)] by blast
    have ok1: "pool_ok rs1 a b q1" "blocks_ok rs1 a b q1" "busy_blocks rs1 q1 = busy_blocks rs p" using k ok by (auto simp: kept_def pool_ok_def)
    have run: "alloc_block l0 p = (case mp_blocks q1 l of [] \<Rightarrow> Inr (None, q1) | d # _ \<Rightarrow>
        res_bind (remove_block l d q1) (\<lambda>p2. let p3 = de_upd d (\<lambda>x. x\<lparr>de_busy := True\<rparr>) p2 in
        Inr (Some d, p3\<lparr>mp_size := mp_size p3 - size_of (lg p3 d)\<rparr>)))"
      using False r unfolding alloc_block_def Let_def l5(3) if_not_P [OF l5(4)] by simp
    show ?thesis
    proof (cases "mp_blocks q1 l")
      case Nil
      then have "alloc_spec l rs p rs1 None q1" using ne none_free [OF bl] ok1(3) by (auto simp: alloc_spec_def)
      then show ?thesis using ok1(1) Nil run by auto
    next
      case (Cons d ds)
      define q where "q = de_upd d (\<lambda>x. x\<lparr>de_busy := True\<rparr>) (q1\<lparr>mp_blocks := (mp_blocks q1)(l := ds)\<rparr>)"
      note t = take_ok [OF ok1(2) Cons, folded q_def]
      have "alloc_block l0 p = Inr (Some d, q\<lparr>mp_size := mp_size q - size_of l\<rparr>)"
        using l5 Cons t(5) unfolding run by (simp add: Lgsz_max_def Lgsz_min_def remove_block_def Let_def q_def [symmetric])
      moreover have "unat (mp_size q - size_of l) = free_bytes rs1 q"
        using ok1(1) t(2,7) l5 unfolding pool_ok_def by (subst unat_sub) (simp_all add: word_le_nat_alt unat_size_of)
      moreover have "alloc_spec l rs p rs1 (Some d) (q\<lparr>mp_size := mp_size q - size_of l\<rparr>)"
        using t(3,4) ok1(3) by (simp add: alloc_spec_def)
      ultimately show ?thesis using t(1) unfolding pool_ok_def by fastforce
    qed
  qed
qed

lemma free_block_ok:
  assumes ok: "pool_ok rs a b p" and d: "(d, l) \<in> busy_blocks rs p"
  shows "\<exists>rs' q. free_block d p = Inr (size_of l, q) \<and> pool_ok rs' a b q \<and> busy_blocks rs' q = busy_blocks rs p - {(d, l)}"
proof -
  have bl: "blocks_ok rs a b p" and sz: "unat (mp_size p) = free_bytes rs p" using ok by (auto simp: pool_ok_def)
  define q where "q = de_upd d (\<lambda>x. x\<lparr>de_busy := False\<rparr>) (p\<lparr>mp_blocks := (mp_blocks p)(l := d # mp_blocks p l)\<rparr>)"
  note t = release_ok [OF bl d, folded q_def]
  obtain rs' q' where c: "combine d q = Inr q'" and k: "kept a b rs q rs' q'" using combine_ok [OF t(1,5,9)] by blast
  have "free_block d p = Inr (size_of l, q'\<lparr>mp_size := mp_size q' + size_of l\<rparr>)"
    using t(6-8) c by (simp add: free_block_def add_block_def Lgsz_min_def Lgsz_max_def Let_def q_def [symmetric])
  moreover have "unat (mp_size q' + size_of l) = free_bytes rs' q'"
  proof -
    have f: "free_bytes rs' q' = unat (mp_size p) + 2 ^ l" "mp_size q' = mp_size p" using k t(2,4) sz by (auto simp: kept_def)
    have "free_bytes rs' q' \<le> b - a" using free_bytes_le [of q' a rs' b] k by (simp add: kept_def blocks_ok_def)
    then have "free_bytes rs' q' < 2 ^ 32" using bl k by (auto simp: blocks_ok_def kept_def)
    then show ?thesis using f t(8) by (subst unat_sum) (simp_all add: unat_size_of)
  qed
  ultimately show ?thesis using k t(3) unfolding pool_ok_def kept_def by fastforce
qed

text \<open>The number of binary digits a request needs.\<close>

lemma find_last_hit:
  "P i \<Longrightarrow> i < n \<Longrightarrow> \<exists>j. find P (rev [0..<n]) = Some j \<and> P j \<and> i \<le> j \<and> j < n \<and> (\<forall>k. j < k \<and> k < n \<longrightarrow> \<not> P k)"
proof (induction n)
  case (Suc n)
  show ?case
  proof (cases "P n")
    case False
    then have "i < n" using Suc.prems less_Suc_eq by auto
    then show ?thesis using Suc.IH Suc.prems(1) False by (auto simp: less_Suc_eq)
  qed (use Suc.prems in auto)
qed simp

lemma top_range:
  fixes sz :: u32
  assumes "sz \<noteq> 0"
  shows "unat sz \<le> 2 ^ get_log2sz_top_range sz" "unat sz \<le> 2 ^ k \<Longrightarrow> get_log2sz_top_range sz \<le> k"
proof -
  have nz: "drop_bit i sz \<noteq> 0 \<longleftrightarrow> 2 ^ i \<le> unat sz" for i
  proof -
    have "unat (drop_bit i sz) = unat sz div 2 ^ i" by (simp only: unsigned_drop_bit_eq) (simp add: drop_bit_eq_div take_bit_nat_eq_self u32_less [simplified])
    then show ?thesis by (metis div_eq_0_iff linorder_not_less power_eq_0_iff unat_eq_0 zero_neq_numeral)
  qed
  have "drop_bit 0 sz \<noteq> 0" "(0::nat) < 32" using assms by simp_all
  from find_last_hit [where P = "\<lambda>i. drop_bit i sz \<noteq> 0", OF this]
  obtain j where j: "find (\<lambda>i. drop_bit i sz \<noteq> 0) (rev [0..<32]) = Some j" "2 ^ j \<le> unat sz" "j < 32"
    "\<forall>k. j < k \<and> k < 32 \<longrightarrow> \<not> 2 ^ k \<le> unat sz" unfolding nz by blast
  have up: "unat sz < 2 ^ (j + 1)" using j(3,4) u32_less [of sz] by (cases "j = 31") auto
  have g: "get_log2sz_top_range sz = (if unat sz = 2 ^ j then j else j + 1)"
    using assms j(1) unat_size_of [OF j(3)] unfolding get_log2sz_top_range_def Let_def by (auto simp: word_unat_eq_iff)
  then show "unat sz \<le> 2 ^ get_log2sz_top_range sz" using up by auto
  show "get_log2sz_top_range sz \<le> k" if k: "unat sz \<le> 2 ^ k"
  proof -
    have "j \<le> k" using k j(2) by (metis le_trans one_less_numeral_iff power_increasing_iff semiring_norm(76))
    moreover have "j \<noteq> k" if "unat sz \<noteq> 2 ^ j" using that k j(2) by auto
    ultimately show ?thesis using g by (auto simp: le_less)
  qed
qed

text \<open>The bytes of a block.\<close>

abbreviation extent :: "u32 \<times> nat \<Rightarrow> nat set" where "extent \<equiv> \<lambda>(d, l). {unat d ..< unat d + 2 ^ l}"

lemma busy_inside: "blocks_ok rs a b p \<Longrightarrow> x \<in> busy_blocks rs p \<Longrightarrow> extent x \<subseteq> {a ..< b}"
  using tiled_member [of "lg p" a rs b] by (fastforce simp: blocks_ok_def busy_blocks_def)

lemma busy_apart:
  assumes "blocks_ok rs a b p" "x \<in> busy_blocks rs p" "y \<in> busy_blocks rs p" "x \<noteq> y"
  shows "extent x \<inter> extent y = {}"
proof -
  have t: "tiled (lg p) a rs b" using assms(1) by (simp add: blocks_ok_def)
  obtain d c where d: "x = (d, lg p d)" "y = (c, lg p c)" "d \<in> set rs" "c \<in> set rs" using assms(2,3) by (auto simp: busy_blocks_def)
  then have "d \<noteq> c" using assms(4) by auto
  then have "unat d < unat c \<or> unat c < unat d" by (simp add: word_unat_eq_iff linorder_neq_iff)
  then show ?thesis using tiled_apart [OF t d(3,4)] tiled_apart [OF t d(4,3)] d(1,2) by auto
qed

text \<open>
  C30. \<open>alloc\<close> on a consistent pool: it always returns and keeps the pool consistent. Either it returns null and every
  free block is too small for the request with its descriptor, while all allocated blocks stay as they
  are; or it returns an address behind a descriptor such that the request fits into the block, the block
  lies inside the memory of the pool and is disjoint from every block that was allocated before, and all
  of these stay allocated.
\<close>

theorem pool_alloc:
  assumes ok: "pool_ok rs a b p" and sz: "0 < unat sz" "unat sz + 24 < 2 ^ 32"
  shows "\<exists>rs' r q. mp_alloc sz p = Inr (r, q) \<and> pool_ok rs' a b q \<and> (case r of
      None \<Rightarrow> busy_blocks rs' q = busy_blocks rs p \<and> (\<forall>d\<in>set rs. \<not> de_busy (mp_mem p d) \<longrightarrow> 2 ^ lg p d < unat sz + 24)
    | Some ptr \<Rightarrow> \<exists>d l. ptr = d + 24 \<and> busy_blocks rs' q = insert (d, l) (busy_blocks rs p)
        \<and> unat sz + 24 \<le> 2 ^ l \<and> extent (d, l) \<subseteq> {a ..< b} \<and> (\<forall>x\<in>busy_blocks rs p. extent x \<inter> extent (d, l) = {}))"
proof -
  let ?s = "sz + Descr_sz"
  have u: "unat ?s = unat sz + 24" using sz(2) by (subst unat_sum) (simp_all add: Descr_sz_def)
  then have "?s \<noteq> 0" by auto
  note top = top_range [OF this, unfolded u]
  define l0 where "l0 = get_log2sz_top_range ?s"
  have mp: "mp_alloc sz p = res_bind (alloc_block l0 p) (\<lambda>(d, p1). Inr (map_option (\<lambda>d. d + Descr_sz) d, p1))"
    using sz(1) by (auto simp: mp_alloc_def l0_def)
  have bl: "blocks_ok rs a b p" using ok by (simp add: pool_ok_def)
  have small: "2 ^ lg p d < unat sz + 24" if "d \<in> set rs" "lg p d < max l0 5 \<or> 31 < l0" for d
  proof (rule ccontr)
    assume "\<not> ?thesis"
    then have "l0 \<le> lg p d" using top(2) [of "lg p d"] by (simp add: l0_def)
    moreover have "5 \<le> lg p d" "lg p d \<le> 31" using tiled_member [of "lg p" a rs b d] bl that(1) by (auto simp: blocks_ok_def)
    ultimately show False using that(2) by auto
  qed
  show ?thesis
  proof (cases "31 < l0")
    case True
    then show ?thesis using ok mp small by (auto simp: alloc_block_def Lgsz_max_def)
  next
    case False
    then obtain rs' r q where r: "alloc_block l0 p = Inr (r, q)" "pool_ok rs' a b q" "alloc_spec (max l0 5) rs p rs' r q"
      using alloc_block_ok [OF ok _ refl, of l0] by auto
    show ?thesis
    proof (cases r)
      case None
      then show ?thesis using r mp small by (auto simp: alloc_spec_def)
    next
      case (Some d)
      define l where "l = max l0 5"
      have s: "(d, l) \<notin> busy_blocks rs p" "busy_blocks rs' q = insert (d, l) (busy_blocks rs p)"
        using r(3) Some by (auto simp: alloc_spec_def l_def)
      have "(2::nat) ^ l0 \<le> 2 ^ l" by (intro power_increasing) (auto simp: l_def)
      then have fits: "unat sz + 24 \<le> 2 ^ l" using top(1) unfolding l0_def by (rule order_trans [rotated])
      have "extent x \<inter> extent (d, l) = {}" if "x \<in> busy_blocks rs p" for x
        using busy_apart [of rs' a b q x "(d, l)"] r(2) s that by (auto simp: pool_ok_def)
      moreover have "extent (d, l) \<subseteq> {a ..< b}"
        using busy_inside [of rs' a b q "(d, l)"] r(2) s by (simp add: pool_ok_def)
      moreover have "mp_alloc sz p = Inr (Some (d + 24), q)" using mp r(1) Some by (simp add: Descr_sz_def)
      ultimately show ?thesis using r(2) s(2) fits by (intro exI [of _ rs'] exI [of _ "Some (d + 24)"] exI [of _ q]) auto
    qed
  qed
qed

text \<open>
  C31. \<open>free\<close> of an allocated block always returns, keeps the pool consistent whatever it joins, and takes exactly
  this block out of the allocated ones; the address of a free block stops at the assertion.
\<close>

theorem pool_free:
  assumes ok: "pool_ok rs a b p"
  shows "((d, l) \<in> busy_blocks rs p \<longrightarrow> (\<exists>rs' q. mp_free (Some (d + 24)) p = Inr (size_of l, q) \<and> pool_ok rs' a b q
      \<and> busy_blocks rs' q = busy_blocks rs p - {(d, l)}))
    \<and> (\<not> de_busy (mp_mem p d) \<longrightarrow> mp_free (Some (d + 24)) p = Inl Assert_failed)"
  using free_block_ok [OF ok, of d l] by (auto simp: mp_free_def Descr_sz_def free_block_def wassert_def)

section \<open>The start of a pool\<close>

text \<open>The largest block at an address: there is one as long as there is memory.\<close>

lemma find_max_block_some:
  assumes "32 dvd unat s" "32 dvd unat e" "unat s < unat e"
  shows "find_max_block s (e - s) \<noteq> 0" "unat s + 2 ^ find_max_block s (e - s) \<le> unat e"
proof -
  have d: "unat (e - s) = unat e - unat s" using assms(3) by (simp add: unat_sub word_le_nat_alt)
  have "32 \<le> unat e - unat s" using assms by (meson dvd_diff_nat dvd_imp_le zero_less_diff)
  then have "size_of 5 \<le> e - s" using d by (simp add: word_le_nat_alt unat_size_of)
  moreover have "is_aligned s (size_of 5)" using is_aligned_dvd [of 5 s] assms(1) by simp
  moreover have "s + size_of 5 \<le> s + (e - s)"
  proof -
    have "unat s + 32 \<le> unat e" using \<open>32 \<le> unat e - unat s\<close> assms(3) by linarith
    then have "unat (s + size_of 5) = unat s + 32" using u32_less [of e] by (subst unat_sum) (simp_all add: unat_size_of)
    then show ?thesis using \<open>unat s + 32 \<le> unat e\<close> by (simp add: word_le_nat_alt)
  qed
  ultimately have "find (\<lambda>i. size_of i \<le> e - s \<and> is_aligned s (size_of i) \<and> s + size_of i \<le> s + (e - s)) (rev [Lgsz_min..<Lgsz_max + 1]) \<noteq> None"
    unfolding find_None_iff by (auto simp: Lgsz_min_def Lgsz_max_def)
  then obtain i where i: "find (\<lambda>i. size_of i \<le> e - s \<and> is_aligned s (size_of i) \<and> s + size_of i \<le> s + (e - s)) (rev [Lgsz_min..<Lgsz_max + 1]) = Some i" by blast
  then have "find_max_block s (e - s) = i" by (simp add: find_max_block_def Let_def)
  moreover have "i \<in> set (rev [Lgsz_min..<Lgsz_max + 1])" using find_SomeD [OF i] by blast
  ultimately show nz: "find_max_block s (e - s) \<noteq> 0" by (auto simp: Lgsz_min_def)
  note m = find_max_block_pos [OF refl nz]
  show "unat s + 2 ^ find_max_block s (e - s) \<le> unat e" using m(2,3) d assms(3) by (simp add: word_le_nat_alt unat_size_of)
qed

lemma chain_last: "chain nx h (rs @ [d]) t \<longleftrightarrow> chain nx h rs (Some d) \<and> nx d = t"
  by (auto simp: chain_append)

text \<open>One more block behind the last one.\<close>

definition appended :: "u32 \<Rightarrow> nat \<Rightarrow> u32 \<Rightarrow> mpool \<Rightarrow> mpool" where
  "appended s l y p =
     p\<lparr>mp_mem := (mp_mem p)(s := \<lparr>de_prev = Some y, de_next = None, de_lgsz = l, de_busy = False\<rparr>, y := (mp_mem p y)\<lparr>de_next := Some s\<rparr>),
       mp_blocks := (mp_blocks p)(l := s # mp_blocks p l), mp_size := mp_size p + size_of l\<rparr>"

lemma add_one_eq:
  assumes "mp_regions p \<noteq> None" "de_next (mp_mem p y) = None" "y \<noteq> s" "5 \<le> l" "l \<le> 31"
  shows "add_one s l (Some y) p = Inr (appended s l y p)"
  using assms by (auto simp: add_one_def de_upd_def insert_region_after_def add_block_def Lgsz_min_def Lgsz_max_def
      de_init_def appended_def Let_def)

lemma append_start:
  assumes ok: "pool_ok (zs @ [y]) a (unat s) p"
  shows "s \<notin> set (zs @ [y])" "distinct (zs @ [y])" "mp_regions p \<noteq> None" "de_next (mp_mem p y) = None"
proof -
  have t: "tiled (lg p) a (zs @ [y]) (unat s)" using ok by (simp add: pool_ok_def blocks_ok_def)
  show "s \<notin> set (zs @ [y])" "distinct (zs @ [y])" using tiled_member [OF t] tiled_distinct [OF t] by fastforce+
  have "chain (\<lambda>d. de_next (mp_mem p d)) (mp_regions p) (zs @ [y]) None" using ok by (simp add: pool_ok_def blocks_ok_def)
  then show "mp_regions p \<noteq> None" "de_next (mp_mem p y) = None" by (cases zs; auto simp: chain_last)+
qed

lemma append_mem:
  assumes "s \<notin> set (zs @ [y])" "distinct (zs @ [y])"
  shows "mp_mem (appended s l y p) s = \<lparr>de_prev = Some y, de_next = None, de_lgsz = l, de_busy = False\<rparr>"
    "x \<in> set (zs @ [y]) \<Longrightarrow> lg (appended s l y p) x = lg p x \<and> de_busy (mp_mem (appended s l y p) x) = de_busy (mp_mem p x)
       \<and> de_prev (mp_mem (appended s l y p) x) = de_prev (mp_mem p x)"
    "x \<in> set zs \<Longrightarrow> de_next (mp_mem (appended s l y p) x) = de_next (mp_mem p x)"
    "de_next (mp_mem (appended s l y p) y) = Some s" "mp_regions (appended s l y p) = mp_regions p"
  using assms by (auto simp: appended_def)

lemma append_regions:
  assumes ok: "pool_ok (zs @ [y]) a (unat s) p" and l: "5 \<le> l" "l \<le> 31" "2 ^ l dvd unat s"
  defines "q \<equiv> appended s l y p"
  shows "tiled (lg q) a (zs @ [y, s]) (unat s + 2 ^ l)" "chain (\<lambda>d. de_next (mp_mem q d)) (mp_regions q) (zs @ [y, s]) None"
    "de_prev (mp_mem q (hd (zs @ [y, s]))) = None" "\<forall>n\<in>set (tl (zs @ [y, s])). prev_ok q (zs @ [y, s]) n"
proof -
  let ?rs = "zs @ [y]"
  note inv = ok [unfolded pool_ok_def blocks_ok_def] and g = append_start [OF ok]
  note f = append_mem [OF g(1,2), where l = l and p = p, folded q_def]
  have t: "tiled (lg p) a ?rs (unat s)" using inv by blast
  have "tiled (lg q) a ?rs (unat s)" using t f(2) tiled_cong [of ?rs "lg q" "lg p"] by blast
  then have "tiled (lg q) a (?rs @ [s]) (unat s + 2 ^ l)" using l f(1) by (subst tiled_append) auto
  then show "tiled (lg q) a (zs @ [y, s]) (unat s + 2 ^ l)" by simp
  have "chain (\<lambda>d. de_next (mp_mem p d)) (mp_regions p) zs (Some y)" using inv by (auto simp: chain_last)
  then have "chain (\<lambda>d. de_next (mp_mem q d)) (mp_regions p) zs (Some y)"
    using f(3) chain_cong [of zs "\<lambda>d. de_next (mp_mem q d)" "\<lambda>d. de_next (mp_mem p d)"] by blast
  then show "chain (\<lambda>d. de_next (mp_mem q d)) (mp_regions q) (zs @ [y, s]) None" using f(1,4,5) by (simp add: chain_append)
  show "de_prev (mp_mem q (hd (zs @ [y, s]))) = None" using inv f(2) [of "hd ?rs"] by (cases zs) auto
  show "\<forall>n\<in>set (tl (zs @ [y, s])). prev_ok q (zs @ [y, s]) n"
  proof
    fix n
    assume n: "n \<in> set (tl (zs @ [y, s]))"
    show "prev_ok q (zs @ [y, s]) n"
    proof (cases "n = s")
      case True
      have "unat s = unat y + 2 ^ lg p y" "2 ^ lg p y dvd unat y" using t by (auto simp: tiled_append)
      then show ?thesis unfolding prev_ok_def using True f(1) by (intro exI [of _ y] exI [of _ "lg p y"]) simp
    next
      case False
      then have n: "n \<in> set (tl ?rs)" using n by (cases zs) auto
      then have "prev_ok p ?rs n" "n \<in> set ?rs" using inv by (auto dest: list.set_sel(2) [rotated])
      then show ?thesis unfolding prev_ok_def using f(2) [of n] by auto
    qed
  qed
qed

lemma append_ok:
  assumes ok: "pool_ok (zs @ [y]) a (unat s) p" and l: "5 \<le> l" "l \<le> 31" "2 ^ l dvd unat s" "unat s + 2 ^ l \<le> 2 ^ 32"
  defines "q \<equiv> appended s l y p"
  shows "add_one s l (Some y) p = Inr q" "pool_ok (zs @ [y, s]) a (unat s + 2 ^ l) q" "busy_blocks (zs @ [y, s]) q = busy_blocks (zs @ [y]) p"
proof -
  let ?rs = "zs @ [y]"
  note inv = ok [unfolded pool_ok_def blocks_ok_def] and g = append_start [OF ok]
  note f = append_mem [OF g(1,2), where l = l and p = p, folded q_def]
  have "y \<noteq> s" using g(1) by auto
  then show "add_one s l (Some y) p = Inr q" unfolding q_def using add_one_eq [OF g(3,4) _ l(1,2)] by blast
  have "distinct (mp_blocks q j) \<and> set (mp_blocks q j) = is_free q (zs @ [y, s]) j" for j
  proof -
    have "is_free q (?rs @ [s]) j = (if j = l then insert s (is_free p ?rs j) else is_free p ?rs j)" "s \<notin> is_free p ?rs j"
      using g(1) f(1,2) by (auto simp: is_free_def)
    moreover have "distinct (mp_blocks p j)" "set (mp_blocks p j) = is_free p ?rs j" using inv by auto
    ultimately show ?thesis by (auto simp: q_def appended_def)
  qed
  moreover have "unat (mp_size q) = free_bytes (zs @ [y, s]) q"
  proof -
    have "free_bytes ?rs q = free_bytes ?rs p" using f(2) by (intro free_bytes_cong) auto
    moreover have "free_bytes ?rs p \<le> unat s - a" using inv by (intro free_bytes_le) blast
    moreover have sz: "unat (mp_size p) = free_bytes ?rs p" "0 < a" "a \<le> unat s" using inv by (auto dest: tiled_le)
    moreover have "unat (mp_size p + size_of l) = unat (mp_size p) + 2 ^ l"
    proof -
      have "unat (mp_size p) + 2 ^ l < 2 ^ 32" using calculation l(4) by linarith
      then show ?thesis using l(2) by (subst unat_sum) (simp_all add: unat_size_of)
    qed
    ultimately show ?thesis using f(1) by (simp add: q_def appended_def)
  qed
  ultimately show "pool_ok (zs @ [y, s]) a (unat s + 2 ^ l) q"
    using append_regions [OF ok l(1-3), folded q_def] l(4) inv unfolding pool_ok_def blocks_ok_def by simp
  show "busy_blocks (zs @ [y, s]) q = busy_blocks ?rs p" using f(1,2) by (auto simp: busy_blocks_def)
qed

lemma add_loop_ok:
  "pool_ok (zs @ [y]) a (unat s) p \<Longrightarrow> 32 dvd unat s \<Longrightarrow> 32 dvd unat e \<Longrightarrow> unat s \<le> unat e \<Longrightarrow>
   \<exists>rs' q. add_loop s e (Some y) p = Inr q \<and> pool_ok rs' a (unat e) q \<and> busy_blocks rs' q = busy_blocks (zs @ [y]) p"
proof (induction "unat e - unat s" arbitrary: zs y s p rule: less_induct)
  case less
  show ?case
  proof (cases "unat s = unat e")
    case True
    have "find_max_block s (e - s) = 0"
    proof (rule ccontr)
      assume nz: "find_max_block s (e - s) \<noteq> 0"
      have "s = e" using True by (simp add: word_unat_eq_iff)
      then have "size_of (find_max_block s (e - s)) = 0" using find_max_block_pos(3) [OF refl nz] by simp
      then show False using find_max_block_pos(2) [OF refl nz] unat_size_of [of "find_max_block s (e - s)"] by simp
    qed
    then show ?thesis using less.prems True by (auto simp: add_loop.simps [of s e])
  next
    case False
    then have lt: "unat s < unat e" using less.prems(4) by simp
    define l where "l = find_max_block s (e - s)"
    note some = find_max_block_some [OF less.prems(2,3) lt, folded l_def] and pos = find_max_block_pos [OF l_def [symmetric]]
    have l: "5 \<le> l" "l \<le> 31" "2 ^ l dvd unat s" using pos(1,2,4) [OF some(1)] is_aligned_dvd [of l s] by auto
    have le: "unat s + 2 ^ l \<le> 2 ^ 32" "unat s + 2 ^ l < 2 ^ 32" using some(2) u32_less [of e] by linarith+
    note ap = append_ok [OF less.prems(1) l le(1)]
    have u: "unat (s + size_of l) = unat s + 2 ^ l" using le(2) l(2) by (subst unat_sum) (simp_all add: unat_size_of)
    have "32 dvd (2::nat) ^ l" using le_imp_power_dvd [of 5 l "2::nat"] l(1) by simp
    then have d: "32 dvd unat (s + size_of l)" using less.prems(2) u by simp
    have "(0::nat) < 2 ^ l" by simp
    then have "unat e - unat (s + size_of l) < unat e - unat s" using u lt by linarith
    moreover have "pool_ok ((zs @ [y]) @ [s]) a (unat (s + size_of l)) (appended s l y p)" using ap(2) u by simp
    moreover have "unat (s + size_of l) \<le> unat e" using some(2) u by simp
    ultimately obtain rs' q where q: "add_loop (s + size_of l) e (Some s) (appended s l y p) = Inr q" "pool_ok rs' a (unat e) q"
      "busy_blocks rs' q = busy_blocks ((zs @ [y]) @ [s]) (appended s l y p)" using less.hyps [OF _ _ d less.prems(3)] by blast
    have "add_loop s e (Some y) p = Inr q" using ap(1) q(1) some(1) by (simp add: add_loop.simps [of s e] l_def [symmetric])
    then show ?thesis using q(2,3) ap(3) by auto
  qed
qed

text \<open>The first block of an empty pool.\<close>

lemma first_ok:
  assumes "mp_regions p = None" "\<forall>l. mp_blocks p l = []" "mp_size p = 0" "5 \<le> l" "l \<le> 31" "0 < unat s" "2 ^ l dvd unat s" "unat s + 2 ^ l \<le> 2 ^ 32"
  shows "\<exists>q. add_one s l prev p = Inr q \<and> pool_ok [s] (unat s) (unat s + 2 ^ l) q \<and> busy_blocks [s] q = {}"
proof -
  define q where "q = p\<lparr>mp_mem := (mp_mem p)(s := de_init l), mp_regions := Some s, mp_blocks := (mp_blocks p)(l := [s]), mp_size := size_of l\<rparr>"
  have "add_one s l prev p = Inr q"
    using assms by (simp add: add_one_def de_upd_def add_block_def Lgsz_min_def Lgsz_max_def Let_def q_def)
  moreover have "pool_ok [s] (unat s) (unat s + 2 ^ l) q"
    using assms by (auto simp: pool_ok_def blocks_ok_def q_def de_init_def is_free_def unat_size_of)
  moreover have "busy_blocks [s] q = {}" by (simp add: busy_blocks_def q_def de_init_def)
  ultimately show ?thesis by blast
qed

text \<open>
  \<open>add\<close> to an empty pool, whatever the memory held before: it returns, and the memory between the rounded addresses
  becomes a consistent pool in which nothing is allocated; an area without one aligned unit of 32 bytes
  is refused.
\<close>

theorem pool_add:
  assumes p: "mp_regions p = None" "\<forall>l. mp_blocks p l = []" "mp_size p = 0"
    and buf: "0 < unat buf" "32 \<le> unat sz" "unat buf + unat sz < 2 ^ 32"
  defines "a \<equiv> unat (round_up buf 32)" and "b \<equiv> unat (round_down (buf + sz) 32)"
  shows "unat buf \<le> a \<and> b \<le> unat buf + unat sz \<and> (if a < b
    then \<exists>q rs. mp_add buf sz p = Some (Inr (0, q)) \<and> pool_ok rs a b q \<and> busy_blocks rs q = {}
    else mp_add buf sz p = Some (Inr (- 1, p)))"
proof -
  let ?s = "round_up buf 32" and ?e = "round_down (buf + sz) 32"
  have k: "size_of Lgsz_min = 32" "(32 :: u32) = push_bit 5 1" "(32 :: u32) - 1 = mask 5"
    by (simp_all add: size_of_def Lgsz_min_def mask_eq_exp_minus_1)
  have "unat buf + unat (32 :: u32) \<le> 2 ^ 32" using buf by simp
  note up = round_up_least [OF k(2) _ this]
  have a: "unat buf \<le> a" "32 dvd a" using up(1,2) by (simp_all add: a_def)
  have un: "unat (buf + sz) = unat buf + unat sz" using buf(3) by (intro unat_sum) simp
  have b: "b = (unat buf + unat sz) div 32 * 32"
    unfolding b_def round_down_def k(3) unat_and_not_mask un by simp
  have mp: "mp_add buf sz p = (if ?s \<ge> ?e then Some (Inr (- 1, p)) else Some (res_bind (add_loop ?s ?e None p) (\<lambda>p1. Inr (0, p1))))"
    using p(1) by (simp add: mp_add_def k(1) find_place.simps [of _ _ _ None])
  have "\<exists>q rs. mp_add buf sz p = Some (Inr (0, q)) \<and> pool_ok rs a b q \<and> busy_blocks rs q = {}" if lt: "a < b"
  proof -
    define l where "l = find_max_block ?s (?e - ?s)"
    have al: "32 dvd unat ?s" "32 dvd unat ?e" "unat ?s < unat ?e" using a(2) b lt by (simp_all add: a_def b_def)
    note some = find_max_block_some [OF al, folded l_def] and pos = find_max_block_pos [OF l_def [symmetric]]
    have l: "5 \<le> l" "l \<le> 31" "2 ^ l dvd unat ?s" using pos(1,2,4) [OF some(1)] is_aligned_dvd [of l ?s] by auto
    have le: "unat ?s + 2 ^ l \<le> 2 ^ 32" "unat ?s + 2 ^ l < 2 ^ 32" "0 < unat ?s" using some(2) u32_less [of ?e] a(1) buf(1) by (simp_all add: a_def)
    obtain q where q: "add_one ?s l None p = Inr q" "pool_ok [?s] (unat ?s) (unat ?s + 2 ^ l) q" "busy_blocks [?s] q = {}"
      using first_ok [OF p l(1,2) le(3) l(3) le(1)] by blast
    have u: "unat (?s + size_of l) = unat ?s + 2 ^ l" using le(2) l(2) by (subst unat_sum) (simp_all add: unat_size_of)
    have "32 dvd (2::nat) ^ l" using le_imp_power_dvd [of 5 l "2::nat"] l(1) by simp
    then have "32 dvd unat (?s + size_of l)" using al(1) u by simp
    then obtain rs' q' where q': "add_loop (?s + size_of l) ?e (Some ?s) q = Inr q'" "pool_ok rs' (unat ?s) (unat ?e) q'"
      "busy_blocks rs' q' = busy_blocks [?s] q"
      using add_loop_ok [of "[]" ?s "unat ?s" "?s + size_of l" q ?e] q(2) u some(2) al(2) by auto
    have "add_loop ?s ?e None p = Inr q'" using q(1) q'(1) some(1) by (simp add: add_loop.simps [of ?s ?e None] l_def [symmetric])
    then show ?thesis using q' q(3) mp al(3) by (auto simp: a_def b_def word_le_nat_alt)
  qed
  moreover have "mp_add buf sz p = Some (Inr (- 1, p))" if "\<not> a < b" using that mp by (simp add: a_def b_def word_le_nat_alt)
  ultimately show ?thesis using a(1) b by auto
qed

section \<open>A small pool\<close>

text \<open>Two blocks of 32 bytes, of which the first is allocated.\<close>

definition demo :: mpool where
  "demo = \<lparr>mp_mem = (\<lambda>d. if d = 0x1000 then \<lparr>de_prev = None, de_next = Some 0x1020, de_lgsz = 5, de_busy = True\<rparr>
       else if d = 0x1020 then \<lparr>de_prev = Some 0x1000, de_next = None, de_lgsz = 5, de_busy = False\<rparr> else de_init 0),
     mp_regions = Some 0x1000, mp_blocks = (\<lambda>l. if l = 5 then [0x1020] else []), mp_size = 32\<rparr>"

lemma demo_ok: "pool_ok [0x1000, 0x1020] 0x1000 0x1040 demo"
proof -
  have "prev_ok demo [0x1000, 0x1020] 0x1020"
    unfolding prev_ok_def by (rule exI [of _ "0x1000"], rule exI [of _ 5]) (simp add: demo_def)
  then show ?thesis by (auto simp: pool_ok_def blocks_ok_def is_free_def demo_def)
qed

lemma demo_busy: "(0x1000, 5) \<in> busy_blocks [0x1000, 0x1020] demo"
  by (simp add: busy_blocks_def demo_def)

theorem pool_alloc_witness: "\<exists>rs r q. mp_alloc 8 demo = Inr (r, q) \<and> pool_ok rs 0x1000 0x1040 q"
proof -
  have "0 < unat (8 :: u32)" "unat (8 :: u32) + 24 < 2 ^ 32" by simp_all
  from pool_alloc [OF demo_ok this] show ?thesis by blast
qed

theorem pool_free_witness: "\<exists>rs q. mp_free (Some 0x1018) demo = Inr (size_of 5, q) \<and> pool_ok rs 0x1000 0x1040 q"
  using pool_free [OF demo_ok, of "0x1000" 5] demo_busy by auto

theorem pool_add_witness: "\<exists>q rs. mp_add 0x1000 0x100 mp_new = Some (Inr (0, q)) \<and> pool_ok rs 0x1000 0x1100 q"
proof -
  have r: "unat (round_up 0x1000 32) = 0x1000" "unat (round_down (0x1000 + 0x100) 32) = 0x1100" by code_simp+
  have "mp_regions mp_new = None" "\<forall>l. mp_blocks mp_new l = []" "mp_size mp_new = 0" by (simp_all add: mp_new_def)
  from pool_add [OF this, of "0x1000" "0x100"] show ?thesis unfolding r by auto
qed

section \<open>Blocks that are no neighbours\<close>

text \<open>
  A busy block \<open>d\<close> of size \<open>2^l\<close>, aligned to the double, and the free block \<open>b\<close> of the same size that follows it in the list of regions but
  not in memory, as after adding two areas. One size up there is nothing to join with.
\<close>

definition strangers :: "mpool \<Rightarrow> nat \<Rightarrow> u32 \<Rightarrow> u32 \<Rightarrow> bool" where
  "strangers p l d b \<longleftrightarrow> 5 \<le> l \<and> l < 31 \<and> lg p d = l \<and> lg p b = l \<and> de_busy (mp_mem p d) \<and> \<not> de_busy (mp_mem p b)
     \<and> is_aligned d (size_of l * 2) \<and> unat d + 2 ^ l < unat b \<and> de_next (mp_mem p d) = Some b \<and> de_prev (mp_mem p b) = Some d
     \<and> de_next (mp_mem p b) \<noteq> Some d \<and> de_next (mp_mem p b) \<noteq> Some b
     \<and> b \<in> set (mp_blocks p l) \<and> d \<notin> set (mp_blocks p l) \<and> 2 ^ l \<le> unat (mp_size p) \<and> unat (mp_size p) + 2 ^ l < 2 ^ 32
     \<and> (case if is_aligned d (size_of (l + 1) * 2) then de_next (mp_mem p b) else de_prev (mp_mem p d) of
          None \<Rightarrow> True | Some c \<Rightarrow> c \<noteq> d \<and> c \<noteq> b \<and> (lg p c \<noteq> l + 1 \<or> de_busy (mp_mem p c)))"

lemma remove_second:
  assumes "de_next (mp_mem p d) = Some b" "de_prev (mp_mem p b) = Some d" "d \<noteq> b" "de_next (mp_mem p b) \<noteq> Some d" "de_next (mp_mem p b) \<noteq> Some b"
  shows "mp_mem (remove_region b p) x = (if x = d then (mp_mem p d)\<lparr>de_next := de_next (mp_mem p b)\<rparr>
      else if x = b then (mp_mem p b)\<lparr>de_prev := None, de_next := None\<rparr>
      else if de_next (mp_mem p b) = Some x then (mp_mem p x)\<lparr>de_prev := Some d\<rparr> else mp_mem p x)"
    "mp_blocks (remove_region b p) = mp_blocks p" "mp_size (remove_region b p) = mp_size p"
  using assms by (auto simp: remove_region_def de_upd_def Let_def split: option.splits)

lemma join_strangers:
  assumes "strangers p l d b"
  shows "\<exists>q. mp_free (Some (d + Descr_sz)) p = Inr (size_of l, q) \<and> lg q d = l + 1 \<and> mp_blocks q (l + 1) = d # mp_blocks p (l + 1)
    \<and> mp_size q = mp_size p + size_of l"
proof -
  have h: "5 \<le> l" "l < 31" "lg p d = l" "lg p b = l" "de_busy (mp_mem p d)" "\<not> de_busy (mp_mem p b)" "is_aligned d (size_of l * 2)"
    "de_next (mp_mem p d) = Some b" "de_prev (mp_mem p b) = Some d" "b \<in> set (mp_blocks p l)" "d \<notin> set (mp_blocks p l)"
    and lt: "unat d + 2 ^ l < unat b" and nx: "de_next (mp_mem p b) \<noteq> Some d" "de_next (mp_mem p b) \<noteq> Some b"
    and stop: "case if is_aligned d (size_of (l + 1) * 2) then de_next (mp_mem p b) else de_prev (mp_mem p d) of
          None \<Rightarrow> True | Some c \<Rightarrow> c \<noteq> d \<and> c \<noteq> b \<and> (lg p c \<noteq> l + 1 \<or> de_busy (mp_mem p c))"
    using assms by (simp_all add: strangers_def)
  have ne: "d \<noteq> b" "\<not> d > b" using lt by (auto simp: word_less_nat_alt)
  define p2 where "p2 = de_upd d (\<lambda>x. x\<lparr>de_busy := False\<rparr>) (p\<lparr>mp_blocks := (mp_blocks p)(l := d # mp_blocks p l)\<rparr>)"
  define p3 where "p3 = remove_region b (de_upd d (\<lambda>x. x\<lparr>de_lgsz := Suc l\<rparr>) p2)"
  define q where "q = p3\<lparr>mp_blocks := (mp_blocks p)(l := remove1 b (mp_blocks p l), l + 1 := d # mp_blocks p (l + 1))\<rparr>"
  have m2: "mp_mem p2 x = (if x = d then (mp_mem p d)\<lparr>de_busy := False\<rparr> else mp_mem p x)" "mp_blocks p2 = (mp_blocks p)(l := d # mp_blocks p l)" for x
    by (simp_all add: p2_def de_upd_def)
  note r = remove_second [of "de_upd d (\<lambda>x. x\<lparr>de_lgsz := Suc l\<rparr>) p2" d b, folded p3_def]
  have u: "mp_mem (de_upd d f p2) x = (if x = d then f ((mp_mem p d)\<lparr>de_busy := False\<rparr>) else mp_mem p x)" for f x
    using ne by (simp add: de_upd_def m2)
  have p3: "mp_mem p3 x = (if x = d then (mp_mem p d)\<lparr>de_busy := False, de_lgsz := l + 1, de_next := de_next (mp_mem p b)\<rparr>
      else if x = b then (mp_mem p b)\<lparr>de_prev := None, de_next := None\<rparr>
      else if de_next (mp_mem p b) = Some x then (mp_mem p x)\<lparr>de_prev := Some d\<rparr> else mp_mem p x)"
    "mp_blocks p3 = mp_blocks p2" "mp_size p3 = mp_size p" for x
    using r(1) [of x] r(2,3) h ne nx by (simp_all add: u) (simp_all add: de_upd_def p2_def)
  have "combine_step d p2 = Inr (Some (d, q))"
    unfolding combine_step_def buddy_def using h ne
    by (simp add: m2 Let_def p3_def [symmetric] p3(2) remove_block_def add_block_def Lgsz_min_def Lgsz_max_def q_def)
  moreover have "combine_step d q = Inr None"
    unfolding combine_step_def buddy_def using stop h ne by (auto simp: q_def p3(1) Let_def split: option.splits if_splits)
  ultimately have "combine d p2 = Inr q" by (simp add: combine.simps [of d p2] combine.simps [of d q])
  then have "mp_free (Some (d + Descr_sz)) p = Inr (size_of l, q\<lparr>mp_size := mp_size q + size_of l\<rparr>)"
    using h by (simp add: mp_free_def free_block_def add_block_def Lgsz_min_def Lgsz_max_def Let_def p2_def)
  then show ?thesis by (intro exI [of _ "q\<lparr>mp_size := mp_size q + size_of l\<rparr>"]) (simp add: q_def p3)
qed


text \<open>Two areas of 32 bytes are added and a block of each is allocated; the second is freed.\<close>

definition two_areas :: "mpool res" where
  "two_areas =
     (case mp_add 0x1000 0x20 mp_new of
        Some (Inr (_, p1)) \<Rightarrow>
          (case mp_add 0x2000 0x20 p1 of
             Some (Inr (_, p2)) \<Rightarrow>
               res_bind (mp_alloc 8 p2) (\<lambda>(x, p3). res_bind (mp_alloc 8 p3) (\<lambda>(y, p4). res_bind (mp_free (Some 0x2018) p4) (\<lambda>(_, p5). Inr p5)))
           | _ \<Rightarrow> Inl Panic)
      | _ \<Rightarrow> Inl Panic)"

declare find_place.simps [code]


end
