(* ===== verification/Wsem.thy ===== *)
theory Wsem
  imports L4_Types
begin

text \<open>
  Semaphores and mutexes of user programs: \<open>lib/wrmos/src/sem.cpp\<close>, \<open>wrm_sem.h\<close>, \<open>wrm_mtx.h\<close>. Each stretch
  of the code between taking and giving back the spin lock is one operation on the semaphore; between
  them other threads run. \<open>suspend\<close>, which waits for a software interrupt of the kernel, returns at any time, with
  success, a timeout or another error; \<open>resume\<close>, which raises it, is left out, so that the theorems hold
  even for interrupts that come too early or for another reason.
\<close>

section \<open>The semaphore\<close>

record sem =
  sm_value :: nat
  sm_owner :: thrid
  sm_queue :: "thrid list"
  sm_rp :: nat
  sm_wp :: nat
  sm_mode :: u32

definition Queue_length :: nat where "Queue_length = 8"
definition Value_max :: nat where "Value_max = 256"
definition Err_timeout :: int where "Err_timeout = 99"
definition Timeout_infinite :: int where "Timeout_infinite = -1"

definition is_binary :: "u32 \<Rightarrow> bool" where "is_binary m \<longleftrightarrow> m AND 1 \<noteq> 0"
definition is_recursive :: "u32 \<Rightarrow> bool" where "is_recursive m \<longleftrightarrow> m AND 2 \<noteq> 0"

definition sem_zero :: sem where
  "sem_zero = \<lparr>sm_value = 0, sm_owner = thrid_Nil, sm_queue = replicate Queue_length thrid_Nil, sm_rp = 0, sm_wp = 0, sm_mode = 0\<rparr>"

definition sem_init :: "u32 \<Rightarrow> nat \<Rightarrow> sem \<Rightarrow> int \<times> sem" where
  "sem_init mode val s =
     (if is_recursive mode \<and> \<not> is_binary mode then (1, s)
      else if val > Value_max then (2, s)
      else (0, sem_zero\<lparr>sm_mode := mode, sm_value := if is_binary mode \<and> val \<noteq> 0 then 1 else val\<rparr>))"

definition sem_destroy :: "sem \<Rightarrow> int \<times> sem" where "sem_destroy s = (0, sem_zero)"

definition sem_setvalue :: "nat \<Rightarrow> sem \<Rightarrow> int \<times> sem" where
  "sem_setvalue val s =
     (if val > Value_max then (2, s) else (0, s\<lparr>sm_value := if is_binary (sm_mode s) \<and> val \<noteq> 0 then 1 else val\<rparr>))"

definition sem_getvalue :: "sem \<Rightarrow> int \<times> nat" where "sem_getvalue s = (0, sm_value s)"

section \<open>The queue\<close>

definition ring_next :: "nat \<Rightarrow> nat" where "ring_next p = (if p + 1 = Queue_length then 0 else p + 1)"

text \<open>The steps from one index of the ring to another.\<close>

definition ring_dist :: "nat \<Rightarrow> nat \<Rightarrow> nat" where "ring_dist p w = (if p \<le> w then w - p else w + Queue_length - p)"

lemma ring_dist_next: "p < Queue_length \<Longrightarrow> w < Queue_length \<Longrightarrow> p \<noteq> w \<Longrightarrow> ring_dist p w = Suc (ring_dist (ring_next p) w)"
  by (auto simp: ring_dist_def ring_next_def Queue_length_def)

text \<open>The two loops over the ring; outside of the array they have no result.\<close>

function exist_from :: "thrid list \<Rightarrow> thrid \<Rightarrow> nat \<Rightarrow> nat \<Rightarrow> bool option" where
  "exist_from q thr p w =
     (if p \<ge> Queue_length \<or> w \<ge> Queue_length then None
      else if p = w then Some False
      else if q ! p = thr then Some True
      else exist_from q thr (ring_next p) w)"
  by pat_completeness auto
termination by (relation "measure (\<lambda>(_, _, p, w). ring_dist p w)") (auto simp: ring_dist_next)

function dequeue_from :: "thrid list \<Rightarrow> thrid \<Rightarrow> bool \<Rightarrow> nat \<Rightarrow> nat \<Rightarrow> (bool \<times> thrid list) option" where
  "dequeue_from q thr found p w =
     (if p \<ge> Queue_length \<or> w \<ge> Queue_length then None
      else if p = w then Some (found, q)
      else
        let f = (found \<or> q ! p = thr) in
        dequeue_from (if f then q[p := q ! ring_next p] else q) thr f (ring_next p) w)"
  by pat_completeness auto
termination by (relation "measure (\<lambda>(_, _, _, p, w). ring_dist p w)") (auto simp: ring_dist_next)

declare exist_from.simps [simp del] dequeue_from.simps [simp del]

definition exist_in_queue :: "thrid \<Rightarrow> sem \<Rightarrow> bool option" where
  "exist_in_queue thr s = exist_from (sm_queue s) thr (sm_rp s) (sm_wp s)"

definition dequeue :: "thrid \<Rightarrow> sem \<Rightarrow> (bool \<times> sem) option" where
  "dequeue thr s =
     map_option (\<lambda>(found, q).
       (found, s\<lparr>sm_queue := q, sm_wp := if found then if sm_wp s = 0 then Queue_length - 1 else sm_wp s - 1 else sm_wp s\<rparr>))
     (dequeue_from (sm_queue s) thr False (sm_rp s) (sm_wp s))"

section \<open>Waiting and posting\<close>

datatype wait_res = Returns int | Suspends

text \<open>\<open>wait\<close> until it returns or suspends the thread.\<close>

definition wait_enter :: "thrid \<Rightarrow> int \<Rightarrow> sem \<Rightarrow> wait_res \<times> sem" where
  "wait_enter self timeout_usec s =
     (if timeout_usec < 0 \<and> timeout_usec \<noteq> Timeout_infinite then (Returns 1, s)
      else if is_recursive (sm_mode s) \<and> sm_owner s = self then (Returns 0, s)
      else if sm_value s \<noteq> 0 then
        (Returns 0, s\<lparr>sm_owner := if is_binary (sm_mode s) then self else sm_owner s, sm_value := sm_value s - 1\<rparr>)
      else if timeout_usec = 0 then (Returns Err_timeout, s)
      else if ring_next (sm_wp s) = sm_rp s then (Returns 2, s)
      else (Suspends, s\<lparr>sm_queue := (sm_queue s)[sm_wp s := self], sm_wp := ring_next (sm_wp s)\<rparr>))"

text \<open>After \<open>suspend\<close> returned without an error: the thread waits on while it is in the queue.\<close>

definition wait_woken :: "thrid \<Rightarrow> sem \<Rightarrow> int option option" where
  "wait_woken self s = map_option (\<lambda>exist. if exist then None else Some 0) (exist_in_queue self s)"

text \<open>
  After \<open>suspend\<close> returned with an error. A thread that is no longer in the queue after a timeout has got the semaphore all
  the same; after any other error it reports a failure, also when a post has already handed the semaphore over to it.
\<close>

definition wait_failed :: "bool \<Rightarrow> thrid \<Rightarrow> sem \<Rightarrow> (int \<times> sem) option" where
  "wait_failed timed_out self s =
     map_option (\<lambda>(found, s'). (if timed_out then if found then Err_timeout else 0 else 3, s')) (dequeue self s)"

text \<open>\<open>post\<close>: the code and the thread to resume.\<close>

definition sem_post :: "thrid \<Rightarrow> sem \<Rightarrow> (int \<times> thrid \<times> sem) res" where
  "sem_post self s =
     (if sm_value s = Value_max then Inr (1, thrid_Nil, s)
      else
        res_bind
          (if sm_wp s \<noteq> sm_rp s then
             res_bind (wassert (sm_value s = 0)) (\<lambda>_.
             let thr = sm_queue s ! sm_rp s in
             res_bind (wassert (thr \<noteq> self)) (\<lambda>_. Inr (thr, s\<lparr>sm_rp := ring_next (sm_rp s)\<rparr>)))
           else Inr (thrid_Nil, s\<lparr>sm_value := if is_binary (sm_mode s) then 1 else sm_value s + 1\<rparr>)) (\<lambda>(thr, s1).
        Inr (0, thr, if is_binary (sm_mode s1) then s1\<lparr>sm_owner := thr\<rparr> else s1)))"

definition mtx_init :: "sem \<Rightarrow> int \<times> sem" where "mtx_init s = sem_init 1 1 s"
definition mtx_init_recursive :: "sem \<Rightarrow> int \<times> sem" where "mtx_init_recursive s = sem_init 3 1 s"
definition mtx_destroy :: "sem \<Rightarrow> int \<times> sem" where "mtx_destroy s = sem_destroy s"
definition mtx_lock :: "thrid \<Rightarrow> int \<Rightarrow> sem \<Rightarrow> wait_res \<times> sem" where "mtx_lock self timeout_usec s = wait_enter self timeout_usec s"
definition mtx_unlock :: "thrid \<Rightarrow> sem \<Rightarrow> (int \<times> thrid \<times> sem) res" where "mtx_unlock self s = sem_post self s"

section \<open>The ring is a queue\<close>

text \<open>The threads in the ring, in the order of their arrival.\<close>

definition ring_list :: "thrid list \<Rightarrow> nat \<Rightarrow> nat \<Rightarrow> thrid list" where
  "ring_list q p w = map (\<lambda>i. q ! ((p + i) mod Queue_length)) [0..<ring_dist p w]"

definition waiters :: "sem \<Rightarrow> thrid list" where "waiters s = ring_list (sm_queue s) (sm_rp s) (sm_wp s)"

definition ring_ok :: "sem \<Rightarrow> bool" where
  "ring_ok s \<longleftrightarrow> length (sm_queue s) = Queue_length \<and> sm_rp s < Queue_length \<and> sm_wp s < Queue_length"

lemma ring_next_mod: "p < Queue_length \<Longrightarrow> ring_next p = Suc p mod Queue_length"
  by (auto simp: ring_next_def Queue_length_def mod_Suc)

lemma ring_next_less: "p < Queue_length \<Longrightarrow> ring_next p < Queue_length"
  by (auto simp: ring_next_def)

lemma ring_list_Nil [simp]: "ring_list q p p = []"
  by (simp add: ring_list_def ring_dist_def)

lemma ring_list_Cons:
  assumes "p < Queue_length" "w < Queue_length" "p \<noteq> w"
  shows "ring_list q p w = q ! p # ring_list q (ring_next p) w"
proof -
  have "(ring_next p + i) mod Queue_length = (p + Suc i) mod Queue_length" for i
    using assms(1) by (simp add: ring_next_mod mod_simps)
  then show ?thesis unfolding ring_list_def ring_dist_next [OF assms] using assms(1)
    by (simp add: upt_conv_Cons map_Suc_upt [symmetric] del: upt_Suc map_Suc_upt)
qed

lemma exist_from_eq:
  "p < Queue_length \<Longrightarrow> w < Queue_length \<Longrightarrow> exist_from q thr p w = Some (thr \<in> set (ring_list q p w))"
proof (induction q thr p w rule: exist_from.induct)
  case (1 q thr p w)
  then show ?case by (cases "p = w"; cases "q ! p = thr")
      (simp_all add: exist_from.simps [of q thr p w] exist_from.simps [of q thr w w] ring_list_Cons ring_next_less)
qed

lemma ring_list_snoc:
  assumes "p < Queue_length" "w < Queue_length" "ring_next w \<noteq> p"
  shows "ring_list q p (ring_next w) = ring_list q p w @ [q ! w]"
proof -
  have d: "ring_dist p (ring_next w) = Suc (ring_dist p w)" "(p + ring_dist p w) mod Queue_length = w"
    using assms by (auto simp: ring_dist_def ring_next_def Queue_length_def)
  then show ?thesis by (simp add: ring_list_def)
qed

lemma ring_mod: "k < 2 * Queue_length \<Longrightarrow> k mod Queue_length = (if k < Queue_length then k else k - Queue_length)"
  by (simp add: le_mod_geq)

lemma ring_outside_put:
  assumes "p < Queue_length" "w < Queue_length" "i < ring_dist p w"
  shows "(p + i) mod Queue_length \<noteq> w"
  using assms ring_mod [of "p + i"] by (auto simp: ring_dist_def split: if_splits)

lemma ring_outside:
  assumes "p < Queue_length" "w < Queue_length" "p \<noteq> w" "i < ring_dist (ring_next p) w"
  shows "(ring_next p + i) mod Queue_length \<noteq> p"
  using assms ring_mod [of "ring_next p + i"] by (auto simp: ring_dist_def ring_next_def split: if_splits)

lemma ring_list_upd:
  assumes "p < Queue_length" "w < Queue_length" "p \<noteq> w"
  shows "ring_list (q[p := x]) (ring_next p) w = ring_list q (ring_next p) w"
proof -
  have "q[p := x] ! ((ring_next p + i) mod Queue_length) = q ! ((ring_next p + i) mod Queue_length)" if "i < ring_dist (ring_next p) w" for i
    using ring_outside [OF assms that] by (intro nth_list_update_neq) simp
  then show ?thesis by (simp add: ring_list_def)
qed

text \<open>From the place of the thread on, the loop moves every entry one place forward.\<close>

lemma dequeue_from_eq:
  "p < Queue_length \<Longrightarrow> w < Queue_length \<Longrightarrow> length q = Queue_length \<Longrightarrow> \<exists>q'. dequeue_from q thr found p w = Some (found \<or> thr \<in> set (ring_list q p w), q')
     \<and> length q' = Queue_length \<and> (\<forall>j<Queue_length. (\<forall>i<ring_dist p w. (p + i) mod Queue_length \<noteq> j) \<longrightarrow> q' ! j = q ! j)
     \<and> ring_list q' p w = (if found then tl (ring_list q p w @ [q ! w]) else if thr \<in> set (ring_list q p w) then remove1 thr (ring_list q p w) @ [q ! w]
          else ring_list q p w)"
proof (induction q thr found p w rule: dequeue_from.induct)
  case (1 q thr found p w)
  show ?case
  proof (cases "p = w")
    case True
    then show ?thesis using "1.prems" by (simp add: dequeue_from.simps [of q thr found w w])
  next
    case False
    define f where "f = (found \<or> q ! p = thr)"
    define q1 where "q1 = (if f then q[p := q ! ring_next p] else q)"
    have "\<not> (Queue_length \<le> p \<or> Queue_length \<le> w)" using "1.prems" by auto
    note IH = "1.IH" [OF this False f_def, folded q1_def]
    have l1: "length q1 = Queue_length" "ring_list q1 (ring_next p) w = ring_list q (ring_next p) w" "q1 ! w = q ! w"
      using "1.prems" False ring_list_upd by (auto simp: q1_def)
    obtain q' where q': "dequeue_from q1 thr f (ring_next p) w = Some (f \<or> thr \<in> set (ring_list q (ring_next p) w), q')" "length q' = Queue_length"
      "\<forall>j<Queue_length. (\<forall>i<ring_dist (ring_next p) w. (ring_next p + i) mod Queue_length \<noteq> j) \<longrightarrow> q' ! j = q1 ! j"
      "ring_list q' (ring_next p) w = (if f then tl (ring_list q (ring_next p) w @ [q ! w])
         else if thr \<in> set (ring_list q (ring_next p) w) then remove1 thr (ring_list q (ring_next p) w) @ [q ! w] else ring_list q (ring_next p) w)"
      using IH ring_next_less "1.prems" l1 by auto
    have "dequeue_from q thr found p w = dequeue_from q1 thr f (ring_next p) w"
      using "1.prems" False by (simp add: dequeue_from.simps [of q thr found p w] f_def [symmetric] q1_def [symmetric] Let_def)
    moreover have L: "ring_list q p w = q ! p # ring_list q (ring_next p) w" "ring_list q' p w = q' ! p # ring_list q' (ring_next p) w"
      using "1.prems" False by (simp_all add: ring_list_Cons)
    moreover have "q' ! p = q1 ! p" using q'(3) ring_outside "1.prems" False by blast
    moreover have "f \<Longrightarrow> q1 ! p = hd (ring_list q (ring_next p) w @ [q ! w])"
      using "1.prems" ring_list_Cons [OF ring_next_less "1.prems"(2), of p] by (cases "ring_next p = w") (auto simp: q1_def)
    moreover have "q' ! j = q ! j" if j: "j < Queue_length" "\<forall>i<ring_dist p w. (p + i) mod Queue_length \<noteq> j" for j
    proof -
      note d = ring_dist_next [OF "1.prems"(1,2) False]
      have "j \<noteq> p" using j(2) "1.prems"(1) unfolding d by force
      moreover have "(ring_next p + i) mod Queue_length \<noteq> j" if "i < ring_dist (ring_next p) w" for i
      proof -
        have "(ring_next p + i) mod Queue_length = (p + Suc i) mod Queue_length" using "1.prems"(1) by (simp add: ring_next_mod mod_simps)
        then show ?thesis using j(2) that unfolding d by (metis Suc_less_eq)
      qed
      ultimately show ?thesis using q'(3) j(1) by (simp add: q1_def)
    qed
    ultimately show ?thesis using q' by (cases found; cases "q ! p = thr") (auto simp: f_def q1_def)
  qed
qed

lemma exist_eq: "ring_ok s \<Longrightarrow> exist_in_queue thr s = Some (thr \<in> set (waiters s))"
  by (simp add: exist_in_queue_def ring_ok_def exist_from_eq waiters_def)

lemma dequeue_eq:
  assumes "ring_ok s"
  shows "\<exists>s'. dequeue thr s = Some (thr \<in> set (waiters s), s') \<and> ring_ok s' \<and> waiters s' = remove1 thr (waiters s)
    \<and> sm_value s' = sm_value s \<and> sm_mode s' = sm_mode s"
proof -
  let ?q = "sm_queue s" and ?p = "sm_rp s" and ?w = "sm_wp s"
  have r: "?p < Queue_length" "?w < Queue_length" "length ?q = Queue_length" using assms by (auto simp: ring_ok_def)
  obtain q' where q: "dequeue_from ?q thr False ?p ?w = Some (thr \<in> set (waiters s), q')" "length q' = Queue_length"
    "ring_list q' ?p ?w = (if thr \<in> set (waiters s) then remove1 thr (waiters s) @ [?q ! ?w] else waiters s)"
    using dequeue_from_eq [OF r, of thr False] by (auto simp: waiters_def)
  define w' where "w' = (if thr \<in> set (waiters s) then if ?w = 0 then Queue_length - 1 else ?w - 1 else ?w)"
  have w': "w' < Queue_length" using r(2) by (auto simp: w'_def Queue_length_def)
  have "ring_list q' ?p w' = remove1 thr (waiters s)"
  proof (cases "thr \<in> set (waiters s)")
    case True
    then have ne: "?p \<noteq> ?w" by (auto simp: waiters_def)
    have n: "ring_next w' = ?w" using True r(2) by (auto simp: w'_def ring_next_def Queue_length_def)
    then have "ring_list q' ?p ?w = ring_list q' ?p w' @ [q' ! w']" using ring_list_snoc [OF r(1) w', of q'] ne by simp
    then show ?thesis using q(3) True by simp
  next
    case False
    then show ?thesis using q(3) by (simp add: w'_def remove1_idem)
  qed
  then show ?thesis using q(1,2) r w' by (auto simp: dequeue_def w'_def ring_ok_def waiters_def)
qed

section \<open>Threads at work\<close>

text \<open>
  A thread is outside of the semaphore's code or suspended in \<open>wait\<close>. Any thread that is outside may wait or post, whether it
  has got the semaphore before or not: drivers post from one thread what another waits for. Three counts follow the run:
  the successful waits of each thread, its successful posts, and the posts without effect, which are those to a binary semaphore
  that has its value already and those handed over to a thread whose \<open>suspend\<close> then fails.
\<close>

record world =
  wd_sem :: sem
  wd_waits :: "thrid set"
  wd_got :: "thrid \<Rightarrow> nat"
  wd_posts :: "thrid \<Rightarrow> nat"
  wd_lost :: nat

definition count :: "bool \<Rightarrow> thrid \<Rightarrow> (thrid \<Rightarrow> nat) \<Rightarrow> thrid \<Rightarrow> nat" where
  "count b t f = f(t := f t + of_bool b)"

definition no_effect :: "sem \<Rightarrow> bool" where
  "no_effect s \<longleftrightarrow> is_binary (sm_mode s) \<and> sm_value s \<noteq> 0"

inductive run :: "world \<Rightarrow> world \<Rightarrow> bool" where
  enter: "t \<notin> wd_waits w \<Longrightarrow> wait_enter t tmo (wd_sem w) = (Returns rc, s) \<Longrightarrow>
    run w (w\<lparr>wd_sem := s, wd_got := count (rc = 0) t (wd_got w)\<rparr>)"
| suspend: "t \<notin> wd_waits w \<Longrightarrow> wait_enter t tmo (wd_sem w) = (Suspends, s) \<Longrightarrow>
    run w (w\<lparr>wd_sem := s, wd_waits := insert t (wd_waits w)\<rparr>)"
| woken: "t \<in> wd_waits w \<Longrightarrow> wait_woken t (wd_sem w) = Some (Some rc) \<Longrightarrow>
    run w (w\<lparr>wd_waits := wd_waits w - {t}, wd_got := count (rc = 0) t (wd_got w)\<rparr>)"
| failed: "t \<in> wd_waits w \<Longrightarrow> wait_failed timed_out t (wd_sem w) = Some (rc, s) \<Longrightarrow>
    run w (w\<lparr>wd_sem := s, wd_waits := wd_waits w - {t}, wd_got := count (rc = 0) t (wd_got w),
      wd_lost := wd_lost w + of_bool (rc \<noteq> 0 \<and> t \<notin> set (waiters (wd_sem w)))\<rparr>)"
| post: "t \<notin> wd_waits w \<Longrightarrow> sem_post t (wd_sem w) = Inr (rc, thr, s) \<Longrightarrow>
    run w (w\<lparr>wd_sem := s, wd_posts := count (rc = 0) t (wd_posts w), wd_lost := wd_lost w + of_bool (rc = 0 \<and> no_effect (wd_sem w))\<rparr>)"

text \<open>The threads that a post has taken out of the queue and that have not run since.\<close>

definition handed :: "world \<Rightarrow> thrid set" where "handed w = wd_waits w - set (waiters (wd_sem w))"

definition all_got :: "world \<Rightarrow> nat" where "all_got w = (\<Sum>t\<in>UNIV. wd_got w t)"
definition all_posts :: "world \<Rightarrow> nat" where "all_posts w = (\<Sum>t\<in>UNIV. wd_posts w t)"

definition world_ok :: "nat \<Rightarrow> world \<Rightarrow> bool" where
  "world_ok n w \<longleftrightarrow> ring_ok (wd_sem w) \<and> \<not> is_recursive (sm_mode (wd_sem w)) \<and> distinct (waiters (wd_sem w))
     \<and> set (waiters (wd_sem w)) \<subseteq> wd_waits w \<and> (sm_value (wd_sem w) \<noteq> 0 \<longrightarrow> waiters (wd_sem w) = [])
     \<and> sm_value (wd_sem w) \<le> (if is_binary (sm_mode (wd_sem w)) then 1 else Value_max)
     \<and> all_got w + card (handed w) + sm_value (wd_sem w) + wd_lost w = n + all_posts w"

lemma sum_upd: "(\<Sum>x\<in>UNIV. (f(t := v)) x) + f t = (\<Sum>x\<in>UNIV. f x) + (v::nat)" for f :: "thrid \<Rightarrow> nat"
proof -
  have "(\<Sum>x\<in>UNIV. (f(t := v)) x) = v + (\<Sum>x\<in>UNIV - {t}. f x)" "(\<Sum>x\<in>UNIV. f x) = f t + (\<Sum>x\<in>UNIV - {t}. f x)"
    by (simp_all add: sum.remove [of UNIV t])
  then show ?thesis by simp
qed

lemma waiters_take:
  assumes "ring_ok s" "sm_wp s \<noteq> sm_rp s"
  shows "waiters s = sm_queue s ! sm_rp s # waiters (s\<lparr>sm_rp := ring_next (sm_rp s)\<rparr>)" "ring_ok (s\<lparr>sm_rp := ring_next (sm_rp s)\<rparr>)"
  using assms ring_list_Cons [of "sm_rp s" "sm_wp s"] ring_next_less by (auto simp: ring_ok_def waiters_def)

lemma waiters_put:
  fixes t :: thrid
  assumes "ring_ok s" "ring_next (sm_wp s) \<noteq> sm_rp s"
  defines "s' \<equiv> s\<lparr>sm_queue := (sm_queue s)[sm_wp s := t], sm_wp := ring_next (sm_wp s)\<rparr>"
  shows "waiters s' = waiters s @ [t]" "ring_ok s'"
proof -
  let ?q = "(sm_queue s)[sm_wp s := t]"
  have r: "sm_rp s < Queue_length" "sm_wp s < Queue_length" "length (sm_queue s) = Queue_length" using assms(1) by (auto simp: ring_ok_def)
  have same: "ring_list ?q (sm_rp s) (sm_wp s) = ring_list (sm_queue s) (sm_rp s) (sm_wp s)"
  proof -
    have "?q ! ((sm_rp s + i) mod Queue_length) = sm_queue s ! ((sm_rp s + i) mod Queue_length)"
      if "i < ring_dist (sm_rp s) (sm_wp s)" for i
      using ring_outside_put [OF r(1,2) that] by simp
    then show ?thesis by (simp add: ring_list_def)
  qed
  show "waiters s' = waiters s @ [t]"
    using ring_list_snoc [OF r(1,2) assms(2), of ?q] same r by (simp add: waiters_def s'_def)
  show "ring_ok s'" using r ring_next_less by (simp add: ring_ok_def s'_def)
qed

lemma sum_count: "(\<Sum>x\<in>UNIV. count b t f x) = (\<Sum>x\<in>UNIV. f x) + of_bool b"
  using sum_upd [of f t "f t + of_bool b"] by (simp add: count_def)

lemma post_ok:
  assumes ok: "world_ok n w" and t: "t \<notin> wd_waits w"
  shows "\<exists>rc thr s. sem_post t (wd_sem w) = Inr (rc, thr, s) \<and> ring_ok s \<and> sm_mode s = sm_mode (wd_sem w) \<and>
    (if sm_value (wd_sem w) = Value_max then rc = 1 \<and> s = wd_sem w
     else rc = 0 \<and> (if waiters (wd_sem w) = [] then waiters s = [] \<and> sm_value s = (if is_binary (sm_mode s) then 1 else sm_value (wd_sem w) + 1)
       else waiters (wd_sem w) = thr # waiters s \<and> sm_value s = 0 \<and> sm_value (wd_sem w) = 0))"
proof -
  let ?s = "wd_sem w"
  have r: "ring_ok ?s" using ok by (simp add: world_ok_def)
  show ?thesis
  proof (cases "sm_value ?s = Value_max \<or> sm_wp ?s = sm_rp ?s")
    case True
    then have "sm_value ?s = Value_max \<or> waiters ?s = []" by (auto simp: waiters_def)
    then show ?thesis using True r by (auto simp: sem_post_def waiters_def ring_ok_def)
  next
    case False
    note k = waiters_take [OF r]
    then have "sm_value ?s = 0" "sm_queue ?s ! sm_rp ?s \<noteq> t" using ok t False by (auto simp: world_ok_def)
    then show ?thesis using False k by (auto simp: sem_post_def waiters_def ring_ok_def)
  qed
qed

text \<open>A thread leaves \<open>wait\<close>; one that was no longer in the queue has got the semaphore or reports an error.\<close>

lemma leave_keeps:
  assumes ok: "world_ok n w" and t: "t \<in> wd_waits w"
    and s: "ring_ok s" "waiters s = remove1 t (waiters (wd_sem w))" "sm_value s = sm_value (wd_sem w)" "sm_mode s = sm_mode (wd_sem w)"
    and g: "of_bool g + k = of_bool (t \<notin> set (waiters (wd_sem w)))"
  shows "world_ok n (w\<lparr>wd_sem := s, wd_waits := wd_waits w - {t}, wd_got := count g t (wd_got w), wd_lost := wd_lost w + k\<rparr>)"
    (is "world_ok n ?w")
proof -
  have d: "distinct (waiters (wd_sem w))" "set (waiters (wd_sem w)) \<subseteq> wd_waits w" using ok by (auto simp: world_ok_def)
  have sw: "set (waiters s) = set (waiters (wd_sem w)) - {t}" using s(2) d(1) by simp
  have "handed ?w = handed w - {t}" using sw by (auto simp: handed_def)
  moreover have "t \<in> handed w \<longleftrightarrow> t \<notin> set (waiters (wd_sem w))" using t by (auto simp: handed_def)
  moreover have "card (handed w) = card (handed w - {t}) + of_bool (t \<in> handed w)" using card.remove [of "handed w" t] by simp
  ultimately have "all_got ?w + card (handed ?w) + wd_lost ?w = all_got w + card (handed w) + wd_lost w"
    using g by (auto simp: all_got_def sum_count)
  then show ?thesis using ok s sw d by (auto simp: world_ok_def all_posts_def)
qed

lemma post_keeps:
  assumes ok: "world_ok n w" and t: "t \<notin> wd_waits w" and p: "sem_post t (wd_sem w) = Inr (rc, thr, s)"
  shows "world_ok n (w\<lparr>wd_sem := s, wd_posts := count (rc = 0) t (wd_posts w), wd_lost := wd_lost w + of_bool (rc = 0 \<and> no_effect (wd_sem w))\<rparr>)"
    (is "world_ok n ?w")
proof (cases "sm_value (wd_sem w) = Value_max")
  case True
  then have "rc = 1" "s = wd_sem w" using post_ok [OF ok t] p by auto
  then show ?thesis using ok by (simp add: world_ok_def all_posts_def all_got_def handed_def sum_count)
next
  case False
  have k: "rc = 0" "ring_ok s" "sm_mode s = sm_mode (wd_sem w)"
    "if waiters (wd_sem w) = [] then waiters s = [] \<and> sm_value s = (if is_binary (sm_mode s) then 1 else sm_value (wd_sem w) + 1)
     else waiters (wd_sem w) = thr # waiters s \<and> sm_value s = 0 \<and> sm_value (wd_sem w) = 0"
    using post_ok [OF ok t] p False by auto
  have d: "distinct (waiters (wd_sem w))" "set (waiters (wd_sem w)) \<subseteq> wd_waits w"
    "is_binary (sm_mode (wd_sem w)) \<Longrightarrow> sm_value (wd_sem w) \<le> 1" using ok by (auto simp: world_ok_def)
  have "sm_value s + card (handed ?w) + of_bool (no_effect (wd_sem w)) = sm_value (wd_sem w) + card (handed w) + 1"
  proof (cases "waiters (wd_sem w) = []")
    case True
    then show ?thesis using k(3,4) d(3) by (auto simp: handed_def no_effect_def)
  next
    case False
    then have e: "waiters (wd_sem w) = thr # waiters s" "sm_value s = 0" "sm_value (wd_sem w) = 0" using k(4) by auto
    then have "handed ?w = insert thr (handed w)" "thr \<notin> handed w" using d by (auto simp: handed_def)
    then show ?thesis using e by (simp add: no_effect_def)
  qed
  moreover have "all_got ?w = all_got w" "all_posts ?w = all_posts w + 1" using k(1) by (simp_all add: all_got_def all_posts_def sum_count)
  ultimately show ?thesis using ok k d False by (auto simp: world_ok_def split: if_splits)
qed

lemma run_keeps:
  assumes "run w w'" "world_ok n w"
  shows "world_ok n w'"
  using assms
proof induction
  case (enter t w tmo rc s)
  have s: "rc = 0 \<and> sm_value (wd_sem w) \<noteq> 0 \<and> sm_value s + 1 = sm_value (wd_sem w) \<or> rc \<noteq> 0 \<and> sm_value s = sm_value (wd_sem w)"
    "waiters s = waiters (wd_sem w)" "ring_ok s = ring_ok (wd_sem w)" "sm_mode s = sm_mode (wd_sem w)"
    using enter by (auto simp: wait_enter_def world_ok_def waiters_def ring_ok_def Err_timeout_def split: if_splits)
  then show ?case using enter.prems by (auto simp: world_ok_def all_got_def all_posts_def handed_def sum_count)
next
  case (suspend t w tmo s)
  have v: "sm_value (wd_sem w) = 0" "ring_next (sm_wp (wd_sem w)) \<noteq> sm_rp (wd_sem w)"
    "s = (wd_sem w)\<lparr>sm_queue := (sm_queue (wd_sem w))[sm_wp (wd_sem w) := t], sm_wp := ring_next (sm_wp (wd_sem w))\<rparr>"
    using suspend by (auto simp: wait_enter_def split: if_splits)
  have "ring_ok (wd_sem w)" using suspend.prems by (simp add: world_ok_def)
  note k = waiters_put [OF this v(2), of t, folded v(3)]
  have "insert t (wd_waits w) - set (waiters s) = handed w" using k suspend.hyps(1) by (auto simp: handed_def)
  moreover have "t \<notin> set (waiters (wd_sem w))" using suspend by (auto simp: world_ok_def)
  moreover have "sm_value s = sm_value (wd_sem w)" "sm_mode s = sm_mode (wd_sem w)" using v(3) by simp_all
  ultimately show ?case using suspend.prems k v(1) by (auto simp: world_ok_def all_got_def all_posts_def handed_def)
next
  case (woken t w rc)
  have r: "ring_ok (wd_sem w)" using woken.prems by (simp add: world_ok_def)
  then have "t \<notin> set (waiters (wd_sem w))" "rc = 0"
    using exist_eq [OF r, of t] woken.hyps(2) by (auto simp: wait_woken_def split: if_splits)
  then show ?case using leave_keeps [OF woken.prems woken.hyps(1) r _ refl refl, of True 0] by (simp add: remove1_idem)
next
  case (failed t w timed_out rc s)
  have r: "ring_ok (wd_sem w)" using failed.prems by (simp add: world_ok_def)
  then have k: "ring_ok s" "waiters s = remove1 t (waiters (wd_sem w))" "sm_value s = sm_value (wd_sem w)" "sm_mode s = sm_mode (wd_sem w)"
    "rc = 0 \<Longrightarrow> t \<notin> set (waiters (wd_sem w))"
    using dequeue_eq [OF r, of t] failed.hyps(2) by (auto simp: wait_failed_def Err_timeout_def split: if_splits)
  show ?case by (rule leave_keeps [OF failed.prems failed.hyps(1) k(1-4)]) (use k(5) in auto)
next
  case (post t w rc thr s)
  then show ?case using post_keeps by blast
qed

text \<open>The start: a semaphore just initialised, and no thread near it.\<close>

definition started :: "u32 \<Rightarrow> nat \<Rightarrow> world \<Rightarrow> bool" where
  "started mode v w \<longleftrightarrow> (\<exists>s. sem_init mode v s = (0, wd_sem w)) \<and> wd_waits w = {} \<and> wd_got w = (\<lambda>_. 0) \<and> wd_posts w = (\<lambda>_. 0) \<and> wd_lost w = 0"

definition initial_value :: "u32 \<Rightarrow> nat \<Rightarrow> nat" where "initial_value mode v = (if is_binary mode then min 1 v else v)"

lemma started_ok:
  assumes "started mode v w" "\<not> is_recursive mode"
  shows "world_ok (initial_value mode v) w"
proof -
  have "v \<le> Value_max" "wd_sem w = sem_zero\<lparr>sm_mode := mode, sm_value := if is_binary mode \<and> v \<noteq> 0 then 1 else v\<rparr>"
    using assms by (auto simp: started_def sem_init_def split: if_splits)
  then show ?thesis using assms
    by (simp add: started_def world_ok_def all_got_def all_posts_def handed_def ring_ok_def sem_zero_def waiters_def Queue_length_def initial_value_def)
qed

lemma reach_keeps: "run\<^sup>*\<^sup>* w w' \<Longrightarrow> world_ok n w \<Longrightarrow> world_ok n w'"
  by (induction rule: rtranclp_induct) (auto intro: run_keeps)

text \<open>What the threads hold, when each has posted at most as often as it got the semaphore.\<close>

lemma holders_le:
  assumes "world_ok n w" "\<forall>t. wd_posts w t \<le> wd_got w t"
  shows "(\<Sum>t\<in>UNIV. wd_got w t - wd_posts w t) + card (handed w) + sm_value (wd_sem w) \<le> n"
proof -
  have "(\<Sum>t\<in>UNIV. wd_got w t - wd_posts w t) + (\<Sum>t\<in>UNIV. wd_posts w t) = (\<Sum>t\<in>UNIV. wd_got w t)"
    using assms(2) by (simp add: sum.distrib [symmetric])
  then show ?thesis using assms(1) by (simp add: world_ok_def all_got_def all_posts_def)
qed


text \<open>
  A mutex that one thread holds while another waits for it, and a semaphore made with the value 0 that one thread waits on
  and another posts without ever having waited.
\<close>

definition world_of :: "sem \<Rightarrow> world" where
  "world_of s = \<lparr>wd_sem = s, wd_waits = {}, wd_got = (\<lambda>_. 0), wd_posts = (\<lambda>_. 0), wd_lost = 0\<rparr>"

lemma started_world: "sem_init mode v s = (0, s') \<Longrightarrow> started mode v (world_of s')"
  by (auto simp: started_def world_of_def)


text \<open>
  A recursive mutex keeps no count: however often its owner locks it, each time successfully, the first unlock
  frees it, and the next thread to lock it gets it while the first is still inside.
\<close>

theorem recursive_released:
  "\<exists>m1 m2 m3. wait_enter t Timeout_infinite (snd (mtx_init_recursive s)) = (Returns 0, m1)
     \<and> ((\<lambda>m. snd (wait_enter t Timeout_infinite m)) ^^ n) m1 = m1 \<and> fst (wait_enter t Timeout_infinite m1) = Returns 0
     \<and> sem_post t m1 = Inr (0, thrid_Nil, m2) \<and> wait_enter u Timeout_infinite m2 = (Returns 0, m3)"
proof -
  let ?m = "snd (mtx_init_recursive s)" and ?m1 = "snd (wait_enter t Timeout_infinite (snd (mtx_init_recursive s)))"
  note ev = mtx_init_recursive_def sem_init_def sem_zero_def is_binary_def is_recursive_def Value_max_def wait_enter_def
      sem_post_def Timeout_infinite_def
  have once: "snd (wait_enter t Timeout_infinite ?m1) = ?m1" by (simp add: ev)
  have "((\<lambda>m. snd (wait_enter t Timeout_infinite m)) ^^ n) ?m1 = ?m1" by (induction n) (simp_all add: once)
  moreover have "wait_enter t Timeout_infinite ?m = (Returns 0, ?m1)" "fst (wait_enter t Timeout_infinite ?m1) = Returns 0"
    by (simp_all add: ev)
  moreover obtain m2 where "sem_post t ?m1 = Inr (0, thrid_Nil, m2)" "\<exists>m3. wait_enter u Timeout_infinite m2 = (Returns 0, m3)"
    by (auto simp: ev)
  ultimately show ?thesis by blast
qed

text \<open>
  A value set while threads wait makes the next post fail: the code asserts that the value is zero when the queue is not empty.
\<close>

lemma setvalue_then_post:
  assumes "ring_ok s" "waiters s \<noteq> []" "0 < v" "v < Value_max"
  shows "fst (sem_setvalue v s) = 0 \<and> isl (sem_post t (snd (sem_setvalue v s)))"
proof -
  have "sm_wp s \<noteq> sm_rp s" using assms(2) by (auto simp: waiters_def)
  then show ?thesis using assms by (auto simp: sem_setvalue_def sem_post_def wassert_def Value_max_def)
qed

end
