(* ===== verification/Netpkt.thy ===== *)
theory Netpkt
  imports Prelude
begin

text \<open>
  Packets of the network stack (\<open>app/tcpip/helpers.h\<close>, \<open>mac.h\<close>, \<open>packets.h\<close>): the Internet checksum and the headers
  that the code lays over a buffer, on the big-endian target. A pointer into a buffer is the list of the bytes from
  there to the end of the buffer.
\<close>

section \<open>The checksum\<close>

text \<open>
  The loop over the 16-bit values. The bound \<open>len - 1\<close> is unsigned: with \<open>len = 0\<close> it is \<open>2 ^ 32 - 1\<close>, and the
  loop runs out of the buffer.
\<close>

function sum_words :: "u8 list \<Rightarrow> u32 \<Rightarrow> nat \<Rightarrow> u32 \<Rightarrow> u32 res" where
  "sum_words data len i acc =
     (if i < unat (len - 1) then
        if i + 1 < length data then
          sum_words data len (i + 2) (acc + (push_bit 8 (ucast (data ! i)) + ucast (data ! (i + 1))))
        else Inl Bad_access
      else Inr acc)"
  by pat_completeness auto
termination by (relation "measure (\<lambda>(data, _, i, _). length data - i)") auto

declare sum_words.simps [simp del]

definition sum_data :: "u8 list \<Rightarrow> u32 \<Rightarrow> u32 \<Rightarrow> u32 res" where
  "sum_data data len acc =
     res_bind (sum_words data len 0 acc) (\<lambda>acc.
     if len AND 1 \<noteq> 0 then
       if unat (len - 1) < length data then Inr (acc + push_bit 8 (ucast (data ! unat (len - 1)))) else Inl Bad_access
     else Inr acc)"

lemma fold_split:
  fixes s :: u32
  shows "unat ((s AND 0xffff) + drop_bit 16 s) = unat s mod 65536 + unat s div 65536"
    "drop_bit 16 s = 0 \<longleftrightarrow> unat s < 65536"
proof -
  have m: "(0xffff::u32) = mask 16" by (simp add: mask_eq_exp_minus_1)
  have "unat (s AND 0xffff) = unat s mod 65536" "unat (drop_bit 16 s) = unat s div 65536"
    unfolding m
    by (simp_all add: take_bit_eq_mask [symmetric] unsigned_take_bit_eq unsigned_drop_bit_eq take_bit_eq_mod drop_bit_eq_div unat_mod unat_div)
  moreover have "unat s < 2 ^ 32" by (rule u32_less)
  ultimately show "unat ((s AND 0xffff) + drop_bit 16 s) = unat s mod 65536 + unat s div 65536" "drop_bit 16 s = 0 \<longleftrightarrow> unat s < 65536"
    by (simp_all add: unat_word_ariths unat_eq_0 [symmetric] div_eq_0_iff)
qed

function fold_sum :: "u32 \<Rightarrow> u32" where
  "fold_sum acc = (if drop_bit 16 acc \<noteq> 0 then fold_sum ((acc AND 0xffff) + drop_bit 16 acc) else acc)"
  by pat_completeness auto
termination
proof (relation "measure unat", simp, unfold in_measure)
  fix s :: u32
  assume "drop_bit 16 s \<noteq> 0"
  then have "\<not> unat s < 65536" using fold_split(2) by blast
  then have "0 < unat s div 65536" by (simp add: div_greater_zero_iff)
  moreover have "unat s = unat s div 65536 * 65536 + unat s mod 65536" by simp
  ultimately show "unat ((s AND 0xffff) + drop_bit 16 s) < unat s" unfolding fold_split(1) by linarith
qed

declare fold_sum.simps [simp del]

text \<open>The second block of data is optional; an empty one is not read.\<close>

definition inet_checksum :: "u8 list \<Rightarrow> u32 \<Rightarrow> u8 list \<Rightarrow> u32 \<Rightarrow> u16 res" where
  "inet_checksum data1 len1 data2 len2 =
     res_bind (sum_data data1 len1 0) (\<lambda>acc.
     res_bind (if len2 \<noteq> 0 then sum_data data2 len2 acc else Inr acc) (\<lambda>acc.
     Inr (NOT (ucast (fold_sum acc)))))"

section \<open>Headers\<close>

text \<open>A 16-bit and a 32-bit field in the order of the network, which is that of the machine.\<close>

definition be16 :: "u16 \<Rightarrow> u8 list" where "be16 w = [ucast (drop_bit 8 w), ucast w]"
definition be32 :: "u32 \<Rightarrow> u8 list" where
  "be32 w = [ucast (drop_bit 24 w), ucast (drop_bit 16 w), ucast (drop_bit 8 w), ucast w]"
definition get16 :: "u8 list \<Rightarrow> nat \<Rightarrow> u16" where
  "get16 p i = push_bit 8 (ucast (p ! i)) + ucast (p ! (i + 1))"
definition get32 :: "u8 list \<Rightarrow> nat \<Rightarrow> u32" where
  "get32 p i = push_bit 24 (ucast (p ! i)) + push_bit 16 (ucast (p ! (i + 1))) + push_bit 8 (ucast (p ! (i + 2))) + ucast (p ! (i + 3))"

text \<open>Ethernet addresses are lists of six bytes.\<close>

type_synonym mac = "u8 list"

definition mac_nil :: mac where "mac_nil = replicate 6 0"
definition mac_bcast :: mac where "mac_bcast = replicate 6 0xff"
definition mac_is_nil :: "mac \<Rightarrow> bool" where "mac_is_nil m \<longleftrightarrow> m = mac_nil"
definition mac_is_bcast :: "mac \<Rightarrow> bool" where "mac_is_bcast m \<longleftrightarrow> m = mac_bcast"

definition eth_dst :: "u8 list \<Rightarrow> mac" where "eth_dst p = take 6 p"
definition eth_src :: "u8 list \<Rightarrow> mac" where "eth_src p = take 6 (drop 6 p)"
definition eth_etype :: "u8 list \<Rightarrow> u16" where "eth_etype p = get16 p 12"
definition Etype_ip :: u16 where "Etype_ip = 0x0800"
definition Etype_arp :: u16 where "Etype_arp = 0x0806"
definition Eth_hdrlen :: nat where "Eth_hdrlen = 14"
definition eth_header :: "mac \<Rightarrow> mac \<Rightarrow> u16 \<Rightarrow> u8 list" where "eth_header dst src etype = dst @ src @ be16 etype"

definition ip_hdrlen :: "u8 list \<Rightarrow> nat" where "ip_hdrlen p = unat (p ! 0 AND 0xf) * 4"
definition ip_total_length :: "u8 list \<Rightarrow> u16" where "ip_total_length p = get16 p 2"
definition ip_protocol :: "u8 list \<Rightarrow> u8" where "ip_protocol p = p ! 9"
definition ip_src :: "u8 list \<Rightarrow> u32" where "ip_src p = get32 p 12"
definition ip_dst :: "u8 list \<Rightarrow> u32" where "ip_dst p = get32 p 16"
definition Ip_Length_min :: nat where "Ip_Length_min = 20"
definition Proto_icmp :: u8 where "Proto_icmp = 1"
definition Proto_tcp :: u8 where "Proto_tcp = 6"
definition Proto_udp :: u8 where "Proto_udp = 17"
definition ip_calc_checksum :: "u8 list \<Rightarrow> u16 res" where
  "ip_calc_checksum p = inet_checksum p (of_nat (ip_hdrlen p)) [] 0"

text \<open>The header of every packet the stack builds: no options, do not fragment, 64 hops; first with checksum 0.\<close>

definition ip_header :: "u16 \<Rightarrow> u8 \<Rightarrow> u32 \<Rightarrow> u32 \<Rightarrow> u16 \<Rightarrow> u8 list" where
  "ip_header tlen proto src dst chk = [0x45, 0] @ be16 tlen @ [0, 0, 0x40, 0, 64, proto] @ be16 chk @ be32 src @ be32 dst"

definition build_ip :: "u16 \<Rightarrow> u8 \<Rightarrow> u32 \<Rightarrow> u32 \<Rightarrow> u8 list res" where
  "build_ip tlen proto src dst =
     res_bind (inet_checksum (ip_header tlen proto src dst 0) 20 [] 0) (\<lambda>c. Inr (ip_header tlen proto src dst c))"

definition icmp_type :: "u8 list \<Rightarrow> u8" where "icmp_type p = p ! 0"
definition Icmp_Length_min :: nat where "Icmp_Length_min = 4"
definition icmp_calc_checksum :: "u8 list \<Rightarrow> u32 \<Rightarrow> u16 res" where "icmp_calc_checksum p pktlen = inet_checksum p pktlen [] 0"

definition pseudo_hdr :: "u32 \<Rightarrow> u32 \<Rightarrow> u8 \<Rightarrow> u16 \<Rightarrow> u8 list" where
  "pseudo_hdr ipsrc ipdst proto len = be32 ipsrc @ be32 ipdst @ be32 (push_bit 16 (ucast proto) + ucast len)"

definition udp_src :: "u8 list \<Rightarrow> u16" where "udp_src p = get16 p 0"
definition udp_dst :: "u8 list \<Rightarrow> u16" where "udp_dst p = get16 p 2"
definition udp_length :: "u8 list \<Rightarrow> u16" where "udp_length p = get16 p 4"
definition Udp_hdrlen :: nat where "Udp_hdrlen = 8"
definition udp_payload_len :: "u8 list \<Rightarrow> u32" where "udp_payload_len p = ucast (udp_length p) - of_nat Udp_hdrlen"
definition udp_calc_checksum :: "u8 list \<Rightarrow> u32 \<Rightarrow> u32 \<Rightarrow> u8 \<Rightarrow> u16 res" where
  "udp_calc_checksum p ipsrc ipdst proto = inet_checksum p (ucast (udp_length p)) (pseudo_hdr ipsrc ipdst proto (udp_length p)) 12"

definition tcp_src :: "u8 list \<Rightarrow> u16" where "tcp_src p = get16 p 0"
definition tcp_dst :: "u8 list \<Rightarrow> u16" where "tcp_dst p = get16 p 2"
definition tcp_seq :: "u8 list \<Rightarrow> u32" where "tcp_seq p = get32 p 4"
definition tcp_ack :: "u8 list \<Rightarrow> u32" where "tcp_ack p = get32 p 8"
definition tcp_flags :: "u8 list \<Rightarrow> u16" where "tcp_flags p = get16 p 12 AND 0x1ff"
definition tcp_hdrlen :: "u8 list \<Rightarrow> nat" where "tcp_hdrlen p = unat (drop_bit 4 (p ! 12)) * 4"
definition Tcp_Length_min :: nat where "Tcp_Length_min = 20"
definition Tcp_Typically_hdr_len :: nat where "Tcp_Typically_hdr_len = 40"
definition Tcp_Fin :: u16 where "Tcp_Fin = 1"
definition Tcp_Syn :: u16 where "Tcp_Syn = 2"
definition Tcp_Rst :: u16 where "Tcp_Rst = 4"
definition Tcp_Psh :: u16 where "Tcp_Psh = 8"
definition Tcp_Ack :: u16 where "Tcp_Ack = 0x10"
definition has_flag :: "u8 list \<Rightarrow> u16 \<Rightarrow> bool" where "has_flag p f \<longleftrightarrow> tcp_flags p AND f \<noteq> 0"

text \<open>The length is cut to 16 bits by the type of the parameter.\<close>

definition tcp_calc_checksum :: "u8 list \<Rightarrow> u16 \<Rightarrow> u32 \<Rightarrow> u32 \<Rightarrow> u8 \<Rightarrow> u16 res" where
  "tcp_calc_checksum p tcplen ipsrc ipdst proto = inet_checksum p (ucast tcplen) (pseudo_hdr ipsrc ipdst proto tcplen) 12"

text \<open>
  The TCP header the stack builds has 20 bytes of options, of which only the first is written; \<open>opts\<close> is what was in the
  buffer behind it, and \<open>res\<close> the three reserved bits.
\<close>

definition tcp_header :: "u16 \<Rightarrow> u16 \<Rightarrow> u32 \<Rightarrow> u32 \<Rightarrow> u16 \<Rightarrow> u16 \<Rightarrow> u16 \<Rightarrow> u8 list" where
  "tcp_header src dst seq ack res flags chk =
     be16 src @ be16 dst @ be32 seq @ be32 ack @ be16 (push_bit 12 10 + push_bit 9 res + flags) @ be16 100 @ be16 chk @ be16 0 @ [0]"

definition build_tcp :: "u16 \<Rightarrow> u16 \<Rightarrow> u32 \<Rightarrow> u32 \<Rightarrow> u16 \<Rightarrow> u16 \<Rightarrow> u8 list \<Rightarrow> u32 \<Rightarrow> u32 \<Rightarrow> u8 list res" where
  "build_tcp src dst seq ack res flags opts ipsrc ipdst =
     (let h = tcp_header src dst seq ack res flags in
      res_bind (tcp_calc_checksum (h 0 @ opts) (of_nat (length (h 0 @ opts))) ipsrc ipdst Proto_tcp) (\<lambda>c. Inr (h c @ opts)))"

definition udp_header :: "u16 \<Rightarrow> u16 \<Rightarrow> u16 \<Rightarrow> u16 \<Rightarrow> u8 list" where
  "udp_header src dst len chk = be16 src @ be16 dst @ be16 len @ be16 chk"

definition build_udp :: "u16 \<Rightarrow> u16 \<Rightarrow> u8 list \<Rightarrow> u32 \<Rightarrow> u32 \<Rightarrow> u8 list res" where
  "build_udp src dst payload ipsrc ipdst =
     (let h = udp_header src dst (of_nat (Udp_hdrlen + length payload)) in
      res_bind (udp_calc_checksum (h 0 @ payload) ipsrc ipdst Proto_udp) (\<lambda>c. Inr (h c @ payload)))"

definition arp_htype :: "u8 list \<Rightarrow> u16" where "arp_htype p = get16 p 0"
definition arp_ptype :: "u8 list \<Rightarrow> u16" where "arp_ptype p = get16 p 2"
definition arp_oper :: "u8 list \<Rightarrow> u16" where "arp_oper p = get16 p 6"
definition arp_sha :: "u8 list \<Rightarrow> mac" where "arp_sha p = take 6 (drop 8 p)"
definition arp_spa :: "u8 list \<Rightarrow> u32" where "arp_spa p = get32 p 14"
definition arp_tpa :: "u8 list \<Rightarrow> u32" where "arp_tpa p = get32 p 24"
definition Opcode_req :: u16 where "Opcode_req = 1"
definition Opcode_rep :: u16 where "Opcode_rep = 2"
definition Arp_size :: nat where "Arp_size = 28"
definition arp_packet :: "u16 \<Rightarrow> mac \<Rightarrow> u32 \<Rightarrow> mac \<Rightarrow> u32 \<Rightarrow> u8 list" where
  "arp_packet oper sha spa tha tpa = be16 1 @ be16 0x0800 @ [6, 4] @ be16 oper @ sha @ be32 spa @ tha @ be32 tpa"

section \<open>What the checksum is\<close>

fun wsum :: "u8 list \<Rightarrow> nat" where
  "wsum [] = 0"
| "wsum [a] = 256 * unat a"
| "wsum (a # b # r) = 256 * unat a + unat b + wsum r"

lemma pair_bound: "256 * unat a + unat b \<le> 65535" for a b :: u8
proof -
  have "unat a < 256" "unat b < 256" by (rule u8_less)+
  then show ?thesis by linarith
qed

lemma wsum_bound: "2 * wsum xs \<le> 65535 * (length xs + 1)"
proof (induction xs rule: wsum.induct)
  case (2 a)
  show ?case using pair_bound [of a 0] by simp
next
  case (3 a b r)
  show ?case using 3 pair_bound [of a b] by simp
qed simp

lemma wsum_append: "even (length xs) \<Longrightarrow> wsum (xs @ ys) = wsum xs + wsum ys"
  by (induction xs rule: wsum.induct) auto

lemma pair_value: "push_bit 8 (ucast a) + ucast b = (of_nat (256 * unat a + unat b) :: u32)" for a b :: u8
  by (simp add: push_bit_eq_mult)

text \<open>The loop reads the 16-bit values from \<open>i\<close> on; an odd last byte is left.\<close>

lemma sum_words_eq:
  assumes "0 < unat len" "unat len \<le> length data" "even i" "i \<le> unat len"
  shows "sum_words data len i acc = Inr (acc + of_nat (wsum (drop i (take (unat len - unat len mod 2) data))))"
  using assms
proof (induction data len i acc rule: sum_words.induct)
  case (1 data len i acc)
  have l1: "unat (len - 1) = unat len - 1"
    using "1.prems"(1) by (intro unat_minus_one) (auto simp: unat_gt_0 [symmetric])
  show ?case
  proof (cases "i < unat len - 1")
    case True
    have e: "i + 2 \<le> unat len - unat len mod 2" using True "1.prems"(3) by presburger
    then have d: "drop i (take (unat len - unat len mod 2) data)
        = data ! i # data ! (i + 1) # drop (i + 2) (take (unat len - unat len mod 2) data)"
      using "1.prems"(2) by (simp add: Cons_nth_drop_Suc [symmetric])
    show ?thesis using True "1.prems" "1.IH" unfolding sum_words.simps [of data len i acc] l1
      by (simp add: d pair_value add.assoc)
  next
    case False
    then have "unat len - unat len mod 2 \<le> i" using "1.prems"(3) by presburger
    then show ?thesis using False "1.prems" by (simp add: sum_words.simps [of data len i acc] l1)
  qed
qed

lemma wsum_odd:
  assumes "odd n" "n \<le> length xs"
  shows "wsum (take n xs) = wsum (take (n - 1) xs) + 256 * unat (xs ! (n - 1))"
proof -
  have "take n xs = take (n - 1) xs @ [xs ! (n - 1)]"
    using assms take_Suc_conv_app_nth [of "n - 1" xs] by (cases n) auto
  moreover have "even (length (take (n - 1) xs))" using assms by simp
  ultimately show ?thesis by (simp add: wsum_append)
qed

lemma sum_data_eq:
  assumes "0 < unat len" "unat len \<le> length data"
  shows "sum_data data len acc = Inr (acc + of_nat (wsum (take (unat len) data)))"
proof -
  have l1: "unat (len - 1) = unat len - 1"
    using assms(1) by (intro unat_minus_one) (auto simp: unat_gt_0 [symmetric])
  have o: "len AND 1 \<noteq> 0 \<longleftrightarrow> odd (unat len)" by (simp add: and_one_eq odd_iff_mod_2_eq_one unat_mod word_unat_eq_iff)
  have p: "push_bit 8 (ucast (data ! (unat len - 1))) = (of_nat (256 * unat (data ! (unat len - 1))) :: u32)"
    using pair_value [of "data ! (unat len - 1)" 0] by simp
  show ?thesis
  proof (cases "odd (unat len)")
    case True
    then have "unat len mod 2 = 1" by presburger
    then show ?thesis using assms True o p unfolding sum_data_def sum_words_eq [OF assms even_zero le0] l1
      by (simp add: wsum_odd [OF True assms(2)])
  next
    case False
    then show ?thesis using assms o unfolding sum_data_def sum_words_eq [OF assms even_zero le0] by simp
  qed
qed

text \<open>The sum with end-around carry.\<close>

definition ones_sum :: "nat \<Rightarrow> nat" where "ones_sum t = (if t = 0 then 0 else (t - 1) mod 65535 + 1)"

lemma ones_sum_split: "ones_sum t = ones_sum (t mod 65536 + t div 65536)"
proof (cases "t = 0")
  case False
  let ?d = "t div 65536" and ?m = "t mod 65536"
  have t: "t = ?m + ?d + ?d * 65535" by simp
  have "0 < ?m + ?d" using False by (metis add_gr_0 div_greater_zero_iff mod_less not_le zero_less_iff_neq_zero zero_less_numeral)
  then have "t - 1 = (?m + ?d - 1) + ?d * 65535" using t by linarith
  then have "(t - 1) mod 65535 = (?m + ?d - 1) mod 65535" by (metis mod_mult_self1)
  then show ?thesis using False \<open>0 < ?m + ?d\<close> by (simp add: ones_sum_def)
qed simp

lemma fold_sum_eq: "unat (fold_sum s) = ones_sum (unat s)"
proof (induction s rule: fold_sum.induct)
  case (1 s)
  show ?case
  proof (cases "drop_bit 16 s = 0")
    case True
    then have "unat s < 65536" using fold_split(2) by blast
    then show ?thesis using True by (simp add: fold_sum.simps [of s] ones_sum_def)
  next
    case False
    then show ?thesis using 1 ones_sum_split [of "unat s"] by (simp add: fold_sum.simps [of s] fold_split)
  qed
qed

lemma ones_sum_less: "ones_sum t < 65536"
proof -
  have "(t - 1) mod 65535 < 65535" by simp
  then show ?thesis by (simp add: ones_sum_def)
qed

lemma unat_not16: "unat (NOT x) = 65535 - unat x" for x :: u16
proof -
  have "NOT x = - 1 - x" by (simp add: not_eq_complement)
  moreover have "unat (- 1 - x) = unat (- 1 :: u16) - unat x" by (rule unat_sub) simp
  moreover have "unat (- 1 :: u16) = 65535" by (simp add: unsigned_minus_1_eq_mask mask_eq_exp_minus_1)
  ultimately show ?thesis by simp
qed

lemma wsum_take_bound:
  assumes "n \<le> length xs" "n \<le> 65535"
  shows "wsum (take n xs) \<le> 2147450880"
proof -
  have "2 * wsum (take n xs) \<le> 65535 * (n + 1)" using wsum_bound [of "take n xs"] assms(1) by (simp add: min_absorb2)
  then show ?thesis using assms(2) by simp
qed

text \<open>The checksum of blocks of at most 64 KiB is the complement of the sum of their 16-bit values.\<close>

lemma inet_checksum_eq:
  assumes "0 < n" "n \<le> length d1" "n \<le> 65535" "m \<le> length d2" "m \<le> 65535"
  shows "inet_checksum d1 (of_nat n) d2 (of_nat m) = Inr (of_nat (65535 - ones_sum (wsum (take n d1) + wsum (take m d2))))"
proof -
  let ?t = "wsum (take n d1) + wsum (take m d2)"
  have nm: "unat (of_nat n :: u32) = n" "unat (of_nat m :: u32) = m" using assms by (simp_all add: unat_of_nat take_bit_eq_mod)
  have "wsum (take n d1) \<le> 2147450880" "wsum (take m d2) \<le> 2147450880" using wsum_take_bound assms by blast+
  then have t: "unat (of_nat ?t :: u32) = ?t" by (simp only: unat_of_nat take_bit_eq_mod) simp
  have 1: "sum_data d1 (of_nat n) 0 = Inr (of_nat (wsum (take n d1)))" using sum_data_eq [of "of_nat n" d1 0] assms nm by simp
  have 2: "(if (of_nat m :: u32) \<noteq> 0 then sum_data d2 (of_nat m) acc else Inr acc) = Inr (acc + of_nat (wsum (take m d2)))" for acc
  proof (cases "m = 0")
    case False
    then have "(of_nat m :: u32) \<noteq> 0" using nm(2) by (metis unat_0)
    then show ?thesis using sum_data_eq [of "of_nat m" d2 acc] assms nm False by simp
  qed simp
  let ?f = "fold_sum (of_nat ?t)"
  have f: "unat ?f = ones_sum ?t" using fold_sum_eq [of "of_nat ?t"] t by simp
  then have u: "unat (ucast ?f :: u16) = ones_sum ?t"
    using ones_sum_less [of ?t] by (simp add: unsigned_ucast_eq take_bit_eq_mod)
  have "unat (NOT (ucast ?f :: u16)) = 65535 - ones_sum ?t" unfolding u [symmetric] by (rule unat_not16)
  then have "NOT (ucast ?f :: u16) = of_nat (65535 - ones_sum ?t)" by (simp add: word_unat_eq_iff unat_of_nat take_bit_eq_mod)
  then show ?thesis unfolding inet_checksum_def 1 res_bind_simps 2 by simp
qed

lemma be16_value: "256 * unat (ucast (drop_bit 8 w) :: u8) + unat (ucast w :: u8) = unat (w::u16)"
proof -
  have w: "unat w < 65536" using unsigned_less [of w] by simp
  have "unat (ucast w :: u8) = unat w mod 256" by (simp add: unsigned_ucast_eq take_bit_eq_mod)
  moreover have "unat (ucast (drop_bit 8 w) :: u8) = unat w div 256"
    using w by (simp add: unsigned_ucast_eq take_bit_eq_mod drop_bit_eq_div unat_div)
  ultimately show ?thesis by simp
qed

lemma pair_value16: "push_bit 8 (ucast a) + ucast b = (of_nat (256 * unat a + unat b) :: u16)" for a b :: u8
  by (simp add: push_bit_eq_mult)

lemma wsum_field: "even (length pre) \<Longrightarrow> wsum (pre @ be16 w @ post) = wsum pre + unat w + wsum post"
  by (simp add: wsum_append be16_def be16_value)

lemma length_be16 [simp]: "length (be16 w) = 2" and length_be32 [simp]: "length (be32 v) = 4"
  by (simp_all add: be16_def be32_def)

lemma ones_sum_rest: "\<exists>q. t = ones_sum t + q * 65535"
proof (cases t)
  case (Suc k)
  have "k = k mod 65535 + k div 65535 * 65535" by simp
  then show ?thesis using Suc by (intro exI [of _ "k div 65535"]) (simp add: ones_sum_def)
qed (simp add: ones_sum_def)

lemma ones_sum_full: "ones_sum t = 65535 \<longleftrightarrow> 0 < t \<and> 65535 dvd t"
proof (cases t)
  case (Suc k)
  then show ?thesis by (simp add: ones_sum_def dvd_eq_mod_eq_0 mod_Suc)
qed (simp add: ones_sum_def)

lemma same_or_ends:
  fixes v w T :: nat
  assumes "65535 dvd T + v" "65535 dvd T + w" "v < 65536" "w < 65536"
  shows "v = w \<or> v = 0 \<and> w = 65535 \<or> v = 65535 \<and> w = 0"
proof -
  have *: "y = 0 \<or> y = 65535 \<and> x = 0" if "65535 dvd y - x" "x < y" "y < 65536" for x y :: nat
  proof -
    have "65535 \<le> y - x" using that(1,2) by (meson dvd_imp_le zero_less_diff)
    then show ?thesis using that(3) by linarith
  qed
  have "65535 dvd w - v" "65535 dvd v - w" using dvd_diff_nat [OF assms(2,1)] dvd_diff_nat [OF assms(1,2)] by simp_all
  then show ?thesis using * [of w v] * [of v w] assms(3,4) by (cases v w rule: linorder_cases) auto
qed

definition field_checksum :: "u8 list \<Rightarrow> u8 list \<Rightarrow> u8 list \<Rightarrow> u8 list \<Rightarrow> u16 \<Rightarrow> u16 res" where
  "field_checksum pre post rest d2 w =
     inet_checksum (pre @ be16 w @ post @ rest) (of_nat (length pre + 2 + length post)) d2 (of_nat (length d2))"

lemma field_checksum_eq:
  assumes "even (length pre)" "length pre + 2 + length post \<le> 65535" "length d2 \<le> 65535"
  shows "field_checksum pre post rest d2 w = Inr (of_nat (65535 - ones_sum (wsum pre + wsum post + wsum d2 + unat w)))"
proof -
  have "take (length pre + 2 + length post) (pre @ be16 w @ post @ rest) = pre @ be16 w @ post" by simp
  then show ?thesis
    using inet_checksum_eq [of "length pre + 2 + length post" "pre @ be16 w @ post @ rest" "length d2" d2] assms
    by (simp add: field_checksum_def wsum_field algebra_simps)
qed

lemma field_pass:
  assumes "even (length pre)" "length pre + 2 + length post \<le> 65535" "length d2 \<le> 65535"
  shows "field_checksum pre post rest d2 w = Inr 0 \<longleftrightarrow>
    0 < wsum pre + wsum post + wsum d2 + unat w \<and> 65535 dvd wsum pre + wsum post + wsum d2 + unat w"
proof -
  let ?t = "wsum pre + wsum post + wsum d2 + unat w"
  have "unat (of_nat (65535 - ones_sum ?t) :: u16) = 65535 - ones_sum ?t" by (simp add: unat_of_nat take_bit_eq_mod)
  then have "field_checksum pre post rest d2 w = Inr 0 \<longleftrightarrow> 65535 - ones_sum ?t = 0"
    unfolding field_checksum_eq [OF assms] sum.inject by (simp only: word_unat_eq_iff unat_0)
  then show ?thesis using ones_sum_less [of ?t] ones_sum_full [of ?t] by auto
qed

lemma field_roundtrip:
  assumes "even (length pre)" "length pre + 2 + length post \<le> 65535" "length d2 \<le> 65535"
  shows "\<exists>c. field_checksum pre post rest' d2 0 = Inr c \<and> field_checksum pre post rest d2 c = Inr 0"
proof -
  let ?T = "wsum pre + wsum post + wsum d2"
  obtain q where q: "?T = ones_sum ?T + q * 65535" using ones_sum_rest by blast
  have "unat (of_nat (65535 - ones_sum ?T) :: u16) = 65535 - ones_sum ?T" by (simp add: unat_of_nat take_bit_eq_mod)
  moreover have "t + (65535 - u) = 65535 * (q + 1)" if "t = u + q * 65535" "u < 65536" for t u using that by simp
  then have "?T + (65535 - ones_sum ?T) = 65535 * (q + 1)" using q ones_sum_less [of ?T] by blast
  ultimately have "field_checksum pre post rest d2 (of_nat (65535 - ones_sum ?T)) = Inr 0" unfolding field_pass [OF assms] by simp
  then show ?thesis using field_checksum_eq [OF assms, of rest' 0] by simp
qed

text \<open>
  C28. The Internet checksum over a block with a field at an even place, and over a second block as the pseudo header: computed
  with the field zero and put into the field, it makes the checksum of the whole 0, which is what the receiver
  tests; and if the test passes for two blocks that differ only in one 16-bit value, that value is 0 in one of
  them and 0xffff in the other.
\<close>

theorem checksum_field:
  assumes "even (length pre)" "length pre + 2 + length post \<le> 65535" "length d2 \<le> 65535"
  shows "(\<exists>c. field_checksum pre post rest d2 0 = Inr c \<and> field_checksum pre post rest d2 c = Inr 0)
    \<and> (\<forall>v w. field_checksum pre post rest d2 v = Inr 0 \<and> field_checksum pre post rest d2 w = Inr 0
         \<longrightarrow> v = w \<or> {v, w} = {0, 0xffff})"
proof -
  have "v = w \<or> {v, w} = {0, 0xffff}"
    if "field_checksum pre post rest d2 v = Inr 0" "field_checksum pre post rest d2 w = Inr 0" for v w
  proof -
    have "unat v < 65536" "unat w < 65536" using unsigned_less [of v] unsigned_less [of w] by simp_all
    then have "unat v = unat w \<or> unat v = 0 \<and> unat w = 65535 \<or> unat v = 65535 \<and> unat w = 0"
      using same_or_ends [of "wsum pre + wsum post + wsum d2" "unat v" "unat w"] that unfolding field_pass [OF assms] by blast
    moreover have "unat x = 65535 \<Longrightarrow> x = 0xffff" for x :: u16 by (simp add: word_unat_eq_iff)
    ultimately show ?thesis by (auto simp: unat_eq_0 word_unat_eq_iff [of v w])
  qed
  then show ?thesis using field_roundtrip [OF assms] by blast
qed

theorem checksum_field_witness:
  "even (length [0x45::u8, 0]) \<and> (\<exists>c. field_checksum [0x45, 0] [0xc0, 0xa8] [1, 2, 3] [6] 0 = Inr c
     \<and> field_checksum [0x45, 0] [0xc0, 0xa8] [1, 2, 3] [6] c = Inr 0)"
  using checksum_field [of "[0x45, 0]" "[0xc0, 0xa8]" "[6]" "[1, 2, 3]"] by simp

text \<open>Reading what a header builder wrote.\<close>

lemma be32_value: "2 ^ 24 * unat (ucast (drop_bit 24 w) :: u8) + 2 ^ 16 * unat (ucast (drop_bit 16 w) :: u8)
    + 2 ^ 8 * unat (ucast (drop_bit 8 w) :: u8) + unat (ucast w :: u8) = unat (w::u32)"
proof -
  define a b c where "a = unat w div 256" and "b = a div 256" and "c = b div 256"
  have "unat w < 2 ^ 32" by (rule u32_less)
  then have c: "c < 256" by (simp add: a_def b_def c_def less_mult_imp_div_less)
  have u: "unat (ucast (drop_bit n w) :: u8) = unat w div 2 ^ n mod 256" for n
  proof -
    have "unat (drop_bit n w) = unat w div 2 ^ n" by (metis drop_bit_eq_div unat_drop_bit_eq)
    then show ?thesis by (simp add: unsigned_ucast_eq take_bit_eq_mod)
  qed
  have d: "unat w div 2 ^ 8 = a" "unat w div 2 ^ 16 = b" "unat w div 2 ^ 24 = c"
    by (simp_all add: a_def b_def c_def div_mult2_eq [symmetric])
  have "unat w = 256 * a + unat w mod 256" "a = 256 * b + a mod 256" "b = 256 * c + b mod 256" by (simp_all add: a_def b_def c_def)
  moreover have "unat (ucast w :: u8) = unat w mod 256" using u [of 0] by simp
  ultimately show ?thesis using c u [of 8] u [of 16] u [of 24] unfolding d by simp
qed

lemma comb16: "push_bit 8 (ucast (ucast (drop_bit 8 w) :: u8)) + ucast (ucast w :: u8) = (w::u16)"
  unfolding pair_value16 be16_value by simp

lemma comb32:
  "push_bit 24 (ucast (ucast (drop_bit 24 w) :: u8)) + push_bit 16 (ucast (ucast (drop_bit 16 w) :: u8))
     + push_bit 8 (ucast (ucast (drop_bit 8 w) :: u8)) + ucast (ucast w :: u8) = (w::u32)"
proof -
  have e: "push_bit 24 (ucast a) + push_bit 16 (ucast b) + push_bit 8 (ucast c) + ucast d
      = (of_nat (2 ^ 24 * unat a + 2 ^ 16 * unat b + 2 ^ 8 * unat c + unat d) :: u32)" for a b c d :: u8
    by (simp add: push_bit_eq_mult)
  show ?thesis unfolding e be32_value by simp
qed

lemmas header_simps = get16_def get32_def be16_def be32_def comb16 comb32

lemma length_pseudo_hdr [simp]: "length (pseudo_hdr ipsrc ipdst proto len) = 12"
  by (simp add: pseudo_hdr_def)

lemma build_ip_ok:
  "\<exists>h. build_ip tlen proto src dst = Inr h \<and> length h = 20 \<and> ip_calc_checksum (h @ rest) = Inr 0 \<and> ip_hdrlen (h @ rest) = 20
    \<and> ip_total_length (h @ rest) = tlen \<and> ip_protocol (h @ rest) = proto \<and> ip_src (h @ rest) = src \<and> ip_dst (h @ rest) = dst"
proof -
  let ?pre = "[0x45, 0] @ be16 tlen @ [0, 0, 0x40, 0, 64, proto]" and ?post = "be32 src @ be32 dst"
  have f: "field_checksum ?pre ?post rest [] c = inet_checksum (ip_header tlen proto src dst c @ rest) 20 [] 0" for c rest
    by (simp add: field_checksum_def ip_header_def)
  obtain c where c: "inet_checksum (ip_header tlen proto src dst 0) 20 [] 0 = Inr c"
    "inet_checksum (ip_header tlen proto src dst c @ rest) 20 [] 0 = Inr 0"
    using field_roundtrip [of ?pre ?post "[]" "[]" rest] f [of "[]"] f [of rest] by auto
  have l: "ip_hdrlen (ip_header tlen proto src dst c @ rest) = 20" by (simp add: ip_hdrlen_def ip_header_def)
  then have "ip_calc_checksum (ip_header tlen proto src dst c @ rest) = Inr 0" using c(2) by (simp add: ip_calc_checksum_def)
  then show ?thesis using c(1) l
    by (simp add: build_ip_def ip_total_length_def ip_protocol_def ip_src_def ip_dst_def ip_header_def header_simps)
qed

lemma unat_of_nat16: "n < 65536 \<Longrightarrow> unat (of_nat n :: u16) = n"
  by (simp add: unat_of_nat take_bit_eq_mod)

lemma ucast_of_nat16: "n < 65536 \<Longrightarrow> (ucast (of_nat n :: u16) :: u32) = of_nat n"
  by (simp add: word_unat_eq_iff unsigned_ucast_eq unat_of_nat take_bit_eq_mod)

lemma hlen_word:
  assumes "unat res < 8" "unat flags < 512"
  defines "w \<equiv> push_bit 12 10 + push_bit 9 res + flags :: u16"
  shows "w AND 0x1ff = flags" "unat (drop_bit 4 (ucast (drop_bit 8 w) :: u8)) = 10"
proof -
  have "w = of_nat (40960 + 512 * unat res + unat flags)" by (simp add: w_def push_bit_eq_mult)
  then have w: "unat w = 40960 + 512 * unat res + unat flags" using assms(1,2) unat_of_nat16 [of "40960 + 512 * unat res + unat flags"] by (simp del: of_nat_add of_nat_mult)
  have m: "(0x1ff::u16) = mask 9" by (simp add: mask_eq_exp_minus_1)
  have "unat (w AND 0x1ff) = unat w mod 512" unfolding m by (simp add: take_bit_eq_mask [symmetric] take_bit_eq_mod unat_mod)
  moreover have "40960 + 512 * unat res + unat flags = unat flags + 512 * (80 + unat res)" by simp
  then have "(40960 + 512 * unat res + unat flags) mod 512 = unat flags" using assms(2) by (metis mod_less mod_mult_self2)
  ultimately show "w AND 0x1ff = flags" using w by (simp add: word_unat_eq_iff)
  have "unat (drop_bit 8 w) = unat w div 256" using unat_drop_bit_eq [of 8 w] drop_bit_eq_div [of 8 "unat w"] by simp
  then have "unat (ucast (drop_bit 8 w) :: u8) = unat w div 256" using w assms by (simp add: unsigned_ucast_eq take_bit_eq_mod)
  moreover have "unat (drop_bit 4 b) = unat b div 16" for b :: u8 using unat_drop_bit_eq [of 4 b] drop_bit_eq_div [of 4 "unat b"] by simp
  moreover have "(40960 + 512 * unat res + unat flags) div 256 div 16 = 10" using assms(1,2) by (simp add: div_mult2_eq [symmetric])
  ultimately show "unat (drop_bit 4 (ucast (drop_bit 8 w) :: u8)) = 10" using w by simp
qed

lemma build_tcp_ok:
  assumes "unat res < 8" "unat flags < 512" "length opts \<le> 65000"
  shows "\<exists>h. build_tcp src dst seq ack res flags opts ipsrc ipdst = Inr h \<and> length h = 21 + length opts
    \<and> tcp_calc_checksum (h @ rest) (of_nat (21 + length opts)) ipsrc ipdst Proto_tcp = Inr 0
    \<and> tcp_src (h @ rest) = src \<and> tcp_dst (h @ rest) = dst \<and> tcp_seq (h @ rest) = seq \<and> tcp_ack (h @ rest) = ack
    \<and> tcp_flags (h @ rest) = flags \<and> tcp_hdrlen (h @ rest) = 40 \<and> drop 21 h = opts"
proof -
  let ?pre = "be16 src @ be16 dst @ be32 seq @ be32 ack @ be16 (push_bit 12 10 + push_bit 9 res + flags) @ be16 100"
    and ?post = "be16 0 @ [0] @ opts" and ?n = "21 + length opts" and ?h = "tcp_header src dst seq ack res flags"
  let ?d = "pseudo_hdr ipsrc ipdst Proto_tcp (of_nat ?n)"
  have n: "(ucast (of_nat ?n :: u16) :: u32) = of_nat ?n" using assms(3) by (intro ucast_of_nat16) simp
  have d: "length ?d = 12" by (rule length_pseudo_hdr)
  have f: "field_checksum ?pre ?post rest ?d c = tcp_calc_checksum (?h c @ opts @ rest) (of_nat ?n) ipsrc ipdst Proto_tcp" for c rest
    unfolding tcp_calc_checksum_def n by (simp add: field_checksum_def tcp_header_def)
  obtain c where c: "tcp_calc_checksum (?h 0 @ opts) (of_nat ?n) ipsrc ipdst Proto_tcp = Inr c"
    "tcp_calc_checksum (?h c @ opts @ rest) (of_nat ?n) ipsrc ipdst Proto_tcp = Inr 0"
    using field_roundtrip [of ?pre ?post ?d "[]" rest] f [where c = 0 and rest = "[]"] f [where rest = rest] assms(3) d by auto
  have l: "length (?h c) = 21" for c by (simp add: tcp_header_def)
  show ?thesis
  proof (intro exI conjI)
    show "build_tcp src dst seq ack res flags opts ipsrc ipdst = Inr (?h c @ opts)" using c(1) l by (simp add: build_tcp_def Let_def)
    show "tcp_calc_checksum ((?h c @ opts) @ rest) (of_nat ?n) ipsrc ipdst Proto_tcp = Inr 0" using c(2) by simp
  qed (use l hlen_word [OF assms(1,2)] in \<open>simp_all add: tcp_src_def tcp_dst_def tcp_seq_def tcp_ack_def tcp_flags_def tcp_hdrlen_def tcp_header_def header_simps\<close>)
qed

lemma build_udp_ok:
  assumes "length payload \<le> 65000"
  shows "\<exists>h. build_udp src dst payload ipsrc ipdst = Inr h \<and> length h = 8 + length payload
    \<and> udp_calc_checksum (h @ rest) ipsrc ipdst Proto_udp = Inr 0
    \<and> udp_src (h @ rest) = src \<and> udp_dst (h @ rest) = dst \<and> unat (udp_length (h @ rest)) = 8 + length payload \<and> drop 8 h = payload"
proof -
  let ?n = "8 + length payload" and ?h = "udp_header src dst (of_nat (8 + length payload))"
  let ?pre = "be16 src @ be16 dst @ be16 (of_nat ?n)" and ?d = "pseudo_hdr ipsrc ipdst Proto_udp (of_nat ?n)"
  have u: "unat (of_nat ?n :: u16) = ?n" using assms by (intro unat_of_nat16) simp
  have n: "(ucast (of_nat ?n :: u16) :: u32) = of_nat ?n" using assms by (intro ucast_of_nat16) simp
  have d: "length ?d = 12" by (rule length_pseudo_hdr)
  have ul: "udp_length (?h c @ r) = of_nat ?n" for c r by (simp add: udp_length_def udp_header_def header_simps)
  have f: "field_checksum ?pre payload rest ?d c = udp_calc_checksum (?h c @ payload @ rest) ipsrc ipdst Proto_udp" for c rest
    unfolding udp_calc_checksum_def ul n by (simp add: field_checksum_def udp_header_def)
  obtain c where c: "udp_calc_checksum (?h 0 @ payload) ipsrc ipdst Proto_udp = Inr c"
    "udp_calc_checksum (?h c @ payload @ rest) ipsrc ipdst Proto_udp = Inr 0"
    using field_roundtrip [of ?pre payload ?d "[]" rest] f [where c = 0 and rest = "[]"] f [where rest = rest] assms d by auto
  have l: "length (?h c) = 8" for c by (simp add: udp_header_def)
  show ?thesis
  proof (intro exI conjI)
    show "build_udp src dst payload ipsrc ipdst = Inr (?h c @ payload)" using c(1) by (simp add: build_udp_def Let_def Udp_hdrlen_def)
    show "udp_calc_checksum ((?h c @ payload) @ rest) ipsrc ipdst Proto_udp = Inr 0" using c(2) by simp
    show "unat (udp_length ((?h c @ payload) @ rest)) = ?n" using ul u by (metis append.assoc)
  qed (use l in \<open>simp_all add: udp_src_def udp_dst_def udp_header_def header_simps\<close>)
qed

end
