(* ===== verification/Netstack.thy ===== *)
theory Netstack
  imports Netpkt L4_Types
begin

text \<open>
  The state of the network server (\<open>app/tcpip/main.cpp\<close>, \<open>socket.h\<close>): interfaces, the pool of frames, the cache of
  Ethernet addresses, TCP streams and the tables of sockets. A socket is referred to by its place in the table; a stream by
  its item in the pool of \<open>list_t\<close>, whose freed items are taken again first. What the server sends to the driver and to its
  clients is the list \<open>n_out\<close>.
\<close>

section \<open>Data\<close>

datatype tcp_state = Closed | Listen | Syn_sent | Syn_received | Established | Fin_wait1 | Close_wait | Fin_wait2
  | Last_ack | Time_wait | Closing

record stream =
  st_state :: tcp_state
  st_rem_addr :: u32
  st_rem_port :: u16
  st_seq_rx :: u32
  st_seq_tx :: u32
  st_init_seq_rx :: u32
  st_init_seq_tx :: u32
  st_buf :: "u8 list"
  st_wp :: nat

definition Stream_sz :: nat where "Stream_sz = 0x100"

record ip_iface =
  if_addr :: u32
  if_mask :: u32
  if_mac :: mac

record frame =
  fr_buf :: nat
  fr_busy :: bool
  fr_data :: "u8 list"

definition Frame_sz :: nat where "Frame_sz = 1518"

record arp_record =
  ar_ip :: u32
  ar_mac :: mac
  ar_timeout :: u64

text \<open>
  The part common to all sockets. The states are the numbers of the enumerations in the code, which differ for
  UDP and TCP; 0 is idle in both.
\<close>

record socket =
  so_owner :: thrid
  so_thrno_begin :: u32
  so_thrno_end :: u32
  so_client :: thrid
  so_recv_client :: thrid
  so_id :: int
  so_net_state :: nat
  so_cli_state :: nat
  so_bound :: bool
  so_addr :: u32
  so_port :: u16
  so_wait_arp :: bool
  so_tx_frame :: nat
  so_tx_len :: nat

text \<open>The address of a packet is missing when the packet was too large to be stored; see \<open>save_received_packet\<close>.\<close>

record pkt =
  pk_from :: "(u32 \<times> u16) option"
  pk_data :: "u8 list"

record udp_socket = socket +
  us_pkts :: "pkt list"

record tcp_socket = socket +
  ts_streams :: "nat list"
  ts_connected :: "nat list"
  ts_queue_sz :: nat
  ts_stream :: "nat option"

definition Udp_Cli_send :: nat where "Udp_Cli_send = 1"
definition Udp_Cli_recv :: nat where "Udp_Cli_recv = 2"
definition Net_listen :: nat where "Net_listen = 1"
definition Net_connection :: nat where "Net_connection = 2"
definition Cli_connect :: nat where "Cli_connect = 1"
definition Cli_accept :: nat where "Cli_accept = 2"
definition Cli_recv :: nat where "Cli_recv = 3"
definition Cli_send :: nat where "Cli_send = 4"
definition Cli_close :: nat where "Cli_close = 5"
definition Cli_closed :: nat where "Cli_closed = 6"

datatype event = Tx "u8 list" | Reply thrid int "u32 list" "u8 list"

record net =
  n_eth :: "mac list"
  n_ip :: "ip_iface list"
  n_frames :: "frame list"
  n_arp :: "arp_record list"
  n_udp :: "udp_socket list"
  n_tcp :: "tcp_socket list"
  n_sbusy :: "nat list"
  n_sfree :: "nat list"
  n_sdata :: "nat \<Rightarrow> stream"
  n_cnt :: int
  n_udp_port :: nat
  n_tcp_port :: nat
  n_out :: "event list"

text \<open>
  What the server learns from outside: the clock, whether the driver takes a whole frame, how many bytes of a buffer reach a
  client (none when the send fails), the threads of the program of a client (\<open>wrm_app_threads\<close>), and what memory holds
  that is sent without having been written.
\<close>

record env =
  e_clock :: u64
  e_tx :: "u8 list \<Rightarrow> bool"
  e_reply :: "thrid \<Rightarrow> nat \<Rightarrow> nat option"
  e_threads :: "thrid \<Rightarrow> (u32 \<times> u32) option"
  e_stale :: "nat \<Rightarrow> u32"

section \<open>Interfaces, frames, addresses\<close>

definition ip_find :: "u32 \<Rightarrow> net \<Rightarrow> ip_iface option" where
  "ip_find a n = find (\<lambda>i. if_addr i = a) (n_ip n)"

definition ip_find_masked :: "u32 \<Rightarrow> net \<Rightarrow> ip_iface option" where
  "ip_find_masked a n = find (\<lambda>i. if_addr i AND if_mask i = a AND if_mask i) (n_ip n)"

definition eth_find :: "mac \<Rightarrow> net \<Rightarrow> mac option" where "eth_find m n = find (\<lambda>a. a = m) (n_eth n)"

fun take_frame :: "frame list \<Rightarrow> (frame \<times> frame list) option" where
  "take_frame [] = None"
| "take_frame (f # fs) =
     (if \<not> fr_busy f then Some (f, f\<lparr>fr_busy := True\<rparr> # fs)
      else map_option (\<lambda>(g, fs'). (g, f # fs')) (take_frame fs))"

definition frames_get :: "net \<Rightarrow> (frame \<times> net) option" where
  "frames_get n = map_option (\<lambda>(f, fs). (f, n\<lparr>n_frames := fs\<rparr>)) (take_frame (n_frames n))"

text \<open>A frame is freed by any pointer into it.\<close>

fun free_frame :: "nat \<Rightarrow> frame list \<Rightarrow> frame list res" where
  "free_frame b [] = Inl Assert_failed"
| "free_frame b (f # fs) =
     (if fr_buf f \<le> b \<and> b < fr_buf f + Frame_sz then
        res_bind (wassert (fr_busy f)) (\<lambda>_. Inr (f\<lparr>fr_busy := False\<rparr> # fs))
      else res_bind (free_frame b fs) (\<lambda>fs'. Inr (f # fs')))"

definition frames_free :: "nat \<Rightarrow> net \<Rightarrow> net res" where
  "frames_free b n = res_bind (free_frame b (n_frames n)) (\<lambda>fs. Inr (n\<lparr>n_frames := fs\<rparr>))"

definition frame_write :: "nat \<Rightarrow> u8 list \<Rightarrow> net \<Rightarrow> net" where
  "frame_write b d n = n\<lparr>n_frames := map (\<lambda>f. if fr_buf f = b then f\<lparr>fr_data := d\<rparr> else f) (n_frames n)\<rparr>"

text \<open>\<open>init\<close>: frames of 1518 bytes at addresses divisible by four.\<close>

definition up4 :: "nat \<Rightarrow> nat" where "up4 a = (a + 3) div 4 * 4"

function frames_init :: "nat \<Rightarrow> nat \<Rightarrow> frame list" where
  "frames_init ptr e =
     (if ptr + Frame_sz \<le> e then \<lparr>fr_buf = ptr, fr_busy = False, fr_data = replicate Frame_sz 0\<rparr> # frames_init (up4 (ptr + Frame_sz)) e
      else [])"
  by pat_completeness auto
termination
proof (relation "measure (\<lambda>(ptr, e). e - ptr)", simp)
  fix ptr e
  assume "ptr + Frame_sz \<le> e"
  moreover have "ptr + 1 \<le> up4 (ptr + Frame_sz)" by (simp add: up4_def Frame_sz_def)
  ultimately show "((up4 (ptr + Frame_sz), e), ptr, e) \<in> measure (\<lambda>(ptr, e). e - ptr)" by (simp add: Frame_sz_def)
qed

declare frames_init.simps [simp del]

definition Arp_timeout :: u64 where "Arp_timeout = 30000000"
definition Arp_capacity :: nat where "Arp_capacity = 8"

fun erase_first :: "('a \<Rightarrow> bool) \<Rightarrow> 'a list \<Rightarrow> 'a list" where
  "erase_first P [] = []"
| "erase_first P (x # xs) = (if P x then xs else x # erase_first P xs)"

fun update_first :: "('a \<Rightarrow> bool) \<Rightarrow> ('a \<Rightarrow> 'a) \<Rightarrow> 'a list \<Rightarrow> 'a list" where
  "update_first P f [] = []"
| "update_first P f (x # xs) = (if P x then f x # xs else x # update_first P f xs)"

definition arp_find :: "u32 \<Rightarrow> u64 \<Rightarrow> net \<Rightarrow> mac \<times> net" where
  "arp_find ip clock n =
     (case find (\<lambda>r. ar_ip r = ip) (n_arp n) of
        None \<Rightarrow> (mac_nil, n)
      | Some r \<Rightarrow>
          if clock > ar_timeout r then (mac_nil, n\<lparr>n_arp := erase_first (\<lambda>r. ar_ip r = ip) (n_arp n)\<rparr>)
          else (ar_mac r, n))"

definition arp_add :: "u32 \<Rightarrow> mac \<Rightarrow> u64 \<Rightarrow> net \<Rightarrow> net" where
  "arp_add ip m clock n =
     (let rs = n_arp n in
      n\<lparr>n_arp :=
          if find (\<lambda>r. ar_ip r = ip) rs \<noteq> None then
            update_first (\<lambda>r. ar_ip r = ip) (\<lambda>r. r\<lparr>ar_mac := m, ar_timeout := clock + Arp_timeout\<rparr>) rs
          else (if length rs = Arp_capacity then tl rs else rs) @ [\<lparr>ar_ip = ip, ar_mac = m, ar_timeout = clock + Arp_timeout\<rparr>]\<rparr>)"

section \<open>Streams\<close>

definition new_stream :: "u32 \<Rightarrow> u16 \<Rightarrow> stream" where
  "new_stream a p = \<lparr>st_state = Closed, st_rem_addr = a, st_rem_port = p, st_seq_rx = 0, st_seq_tx = 0, st_init_seq_rx = 0,
     st_init_seq_tx = 0, st_buf = replicate Stream_sz 0, st_wp = 0\<rparr>"

text \<open>
  \<open>Streams_t::add\<close>, behind the check of \<open>free_sz\<close> in its callers. The bytes of the buffer of a new stream are not
  set by the code; none of them is read before it is written.
\<close>

definition streams_add :: "u32 \<Rightarrow> u16 \<Rightarrow> net \<Rightarrow> (nat \<times> net) res" where
  "streams_add a p n =
     (case n_sfree n of
        [] \<Rightarrow> Inl Panic
      | s # fs \<Rightarrow> Inr (s, n\<lparr>n_sfree := fs, n_sbusy := n_sbusy n @ [s], n_sdata := (n_sdata n)(s := new_stream a p)\<rparr>))"

definition streams_remove :: "nat \<Rightarrow> net \<Rightarrow> bool \<times> net" where
  "streams_remove s n =
     (if s \<in> set (n_sbusy n) then (True, n\<lparr>n_sbusy := remove1 s (n_sbusy n), n_sfree := s # n_sfree n\<rparr>) else (False, n))"

definition upd_stream :: "nat \<Rightarrow> (stream \<Rightarrow> stream) \<Rightarrow> net \<Rightarrow> net" where
  "upd_stream s f n = n\<lparr>n_sdata := (n_sdata n)(s := f (n_sdata n s))\<rparr>"

section \<open>Sockets\<close>

definition is_owner :: "('a socket_scheme) \<Rightarrow> thrid \<Rightarrow> bool" where
  "is_owner s t \<longleftrightarrow> so_thrno_begin s \<le> thrid_number t \<and> thrid_number t < so_thrno_end s"

definition upd_tcp :: "nat \<Rightarrow> (tcp_socket \<Rightarrow> tcp_socket) \<Rightarrow> net \<Rightarrow> net" where
  "upd_tcp i f n = n\<lparr>n_tcp := (n_tcp n)[i := f (n_tcp n ! i)]\<rparr>"

definition upd_udp :: "nat \<Rightarrow> (udp_socket \<Rightarrow> udp_socket) \<Rightarrow> net \<Rightarrow> net" where
  "upd_udp i f n = n\<lparr>n_udp := (n_udp n)[i := f (n_udp n ! i)]\<rparr>"

text \<open>The place of the first socket with a property.\<close>

fun find_idx :: "('a \<Rightarrow> bool) \<Rightarrow> 'a list \<Rightarrow> nat option" where
  "find_idx P [] = None"
| "find_idx P (x # xs) = (if P x then Some 0 else map_option Suc (find_idx P xs))"

definition udp_find :: "int \<Rightarrow> net \<Rightarrow> nat option" where "udp_find sid n = find_idx (\<lambda>s. so_id s = sid) (n_udp n)"
definition tcp_find :: "int \<Rightarrow> net \<Rightarrow> nat option" where "tcp_find sid n = find_idx (\<lambda>s. so_id s = sid) (n_tcp n)"

definition INADDR_ANY :: u32 where "INADDR_ANY = 0"

definition udp_find_port :: "u32 \<Rightarrow> u16 \<Rightarrow> net \<Rightarrow> nat option" where
  "udp_find_port a p n = find_idx (\<lambda>s. (so_addr s = INADDR_ANY \<or> so_addr s = a) \<and> so_port s = p) (n_udp n)"

definition find_connected_socket :: "u32 \<Rightarrow> u16 \<Rightarrow> u32 \<Rightarrow> u16 \<Rightarrow> net \<Rightarrow> nat option" where
  "find_connected_socket la lp ra rp n =
     find_idx (\<lambda>s. (so_addr s = INADDR_ANY \<or> so_addr s = la) \<and> so_port s = lp
       \<and> (case ts_stream s of None \<Rightarrow> False | Some t \<Rightarrow> st_rem_addr (n_sdata n t) = ra \<and> st_rem_port (n_sdata n t) = rp)) (n_tcp n)"

definition find_listening_socket :: "u32 \<Rightarrow> u16 \<Rightarrow> net \<Rightarrow> nat option" where
  "find_listening_socket a p n = find_idx (\<lambda>s. (so_addr s = INADDR_ANY \<or> so_addr s = a) \<and> so_port s = p) (n_tcp n)"

definition Sockets_max :: nat where "Sockets_max = 8"
definition Backlog_max :: nat where "Backlog_max = 3"
definition Pkts_max :: nat where "Pkts_max = 16"
definition Pkt_sz :: nat where "Pkt_sz = 0x100"

text \<open>\<open>++_cnt\<close> on a C \<open>int\<close>; past \<open>2^31 - 1\<close> the language leaves it open, and the machine wraps.\<close>

definition next_id :: "int \<Rightarrow> int" where "next_id c = signed_take_bit 31 (c + 1)"

definition udp_add :: "thrid \<Rightarrow> u32 \<Rightarrow> u32 \<Rightarrow> net \<Rightarrow> (int \<times> net) option" where
  "udp_add owner b e n =
     (if length (n_udp n) \<noteq> Sockets_max then
        Some (next_id (n_cnt n), n\<lparr>n_cnt := next_id (n_cnt n), n_udp := n_udp n @
          [\<lparr>so_owner = owner, so_thrno_begin = b, so_thrno_end = e, so_client = thrid_Nil, so_recv_client = thrid_Nil,
            so_id = next_id (n_cnt n), so_net_state = 0, so_cli_state = 0, so_bound = False, so_addr = 0, so_port = 0,
            so_wait_arp = False, so_tx_frame = 0, so_tx_len = 0, us_pkts = []\<rparr>]\<rparr>)
      else None)"

definition tcp_add :: "thrid \<Rightarrow> u32 \<Rightarrow> u32 \<Rightarrow> nat option \<Rightarrow> net \<Rightarrow> (int \<times> net) option" where
  "tcp_add owner b e strm n =
     (if length (n_tcp n) \<noteq> Sockets_max then
        Some (next_id (n_cnt n), n\<lparr>n_cnt := next_id (n_cnt n), n_tcp := n_tcp n @
          [\<lparr>so_owner = owner, so_thrno_begin = b, so_thrno_end = e, so_client = thrid_Nil, so_recv_client = thrid_Nil,
            so_id = next_id (n_cnt n), so_net_state = if strm \<noteq> None then Net_connection else 0, so_cli_state = 0, so_bound = False,
            so_addr = 0, so_port = 0, so_wait_arp = False, so_tx_frame = 0, so_tx_len = 0,
            ts_streams = [], ts_connected = [], ts_queue_sz = 0, ts_stream = strm\<rparr>]\<rparr>)
      else None)"

definition udp_remove :: "int \<Rightarrow> thrid \<Rightarrow> net \<Rightarrow> bool \<times> net" where
  "udp_remove sid owner n =
     (case udp_find sid n of
        None \<Rightarrow> (False, n)
      | Some i \<Rightarrow>
          if so_owner (n_udp n ! i) = owner then (True, n\<lparr>n_udp := take i (n_udp n) @ drop (i + 1) (n_udp n)\<rparr>) else (False, n))"

definition tcp_remove :: "int \<Rightarrow> thrid \<Rightarrow> net \<Rightarrow> bool \<times> net" where
  "tcp_remove sid owner n =
     (case tcp_find sid n of
        None \<Rightarrow> (False, n)
      | Some i \<Rightarrow>
          if so_owner (n_tcp n ! i) = owner then (True, n\<lparr>n_tcp := take i (n_tcp n) @ drop (i + 1) (n_tcp n)\<rparr>) else (False, n))"

text \<open>The static counters of ports; \<open>port++\<close> after the check, so that 3000 and 3001 come up too.\<close>

definition next_port :: "nat \<Rightarrow> nat \<times> nat" where
  "next_port p = (let q = if p > 3000 then 2000 else p in (q, q + 1))"

text \<open>\<open>bind\<close> with an interface address takes a free port when the socket is not yet bound.\<close>

definition auto_bind_tcp :: "nat \<Rightarrow> u32 \<Rightarrow> net \<Rightarrow> net" where
  "auto_bind_tcp i a n =
     (if so_bound (n_tcp n ! i) then n
      else
        let (p, p') = next_port (n_tcp_port n) in
        (upd_tcp i (\<lambda>s. s\<lparr>so_addr := a, so_port := of_nat p, so_bound := True\<rparr>) n)\<lparr>n_tcp_port := p'\<rparr>)"

definition auto_bind_udp :: "nat \<Rightarrow> u32 \<Rightarrow> net \<Rightarrow> net" where
  "auto_bind_udp i a n =
     (if so_bound (n_udp n ! i) then n
      else
        let (p, p') = next_port (n_udp_port n) in
        (upd_udp i (\<lambda>s. s\<lparr>so_addr := a, so_port := of_nat p, so_bound := True\<rparr>) n)\<lparr>n_udp_port := p'\<rparr>)"

section \<open>Packets kept for a UDP socket\<close>

text \<open>
  \<open>save_received_packet\<close>: the new item stays in the list when the packet does not fit into it; its length is then 0 and its
  address what the memory held. Only a packet that fits is read from the buffer \<open>bf\<close>.
\<close>

definition save_received_packet :: "(u32 \<times> u16) \<Rightarrow> u8 list \<Rightarrow> nat \<Rightarrow> udp_socket \<Rightarrow> (int \<times> udp_socket) res" where
  "save_received_packet from bf sz s =
     (if length (us_pkts s) = Pkts_max then Inr (1, s)
      else if sz > Pkt_sz then Inr (2, s\<lparr>us_pkts := us_pkts s @ [\<lparr>pk_from = None, pk_data = []\<rparr>]\<rparr>)
      else if sz > length bf then Inl Bad_access
      else Inr (0, s\<lparr>us_pkts := us_pkts s @ [\<lparr>pk_from = Some from, pk_data = take sz bf\<rparr>]\<rparr>))"

definition get_received_packet :: "udp_socket \<Rightarrow> pkt option" where
  "get_received_packet s = (case us_pkts s of [] \<Rightarrow> None | p # _ \<Rightarrow> Some p)"

definition free_received_packet :: "udp_socket \<Rightarrow> udp_socket" where
  "free_received_packet s = s\<lparr>us_pkts := tl (us_pkts s)\<rparr>"

section \<open>Streams of a TCP socket\<close>

definition tcp_listen :: "nat \<Rightarrow> int \<Rightarrow> net \<Rightarrow> net res" where
  "tcp_listen i backlog n =
     (let s = n_tcp n ! i in
      res_bind (wassert (so_net_state s = 0 \<and> so_cli_state s = 0 \<and> so_bound s)) (\<lambda>_.
      Inr (upd_tcp i (\<lambda>s. s\<lparr>ts_queue_sz := if backlog \<le> 0 then 1 else if backlog > int Backlog_max then Backlog_max else nat backlog,
             so_net_state := Net_listen\<rparr>) n)))"

definition move_to_connected_queue :: "nat \<Rightarrow> nat \<Rightarrow> net \<Rightarrow> (int \<times> net) res" where
  "move_to_connected_queue i strm n =
     (let s = n_tcp n ! i in
      res_bind (wassert (so_net_state s = Net_listen \<and> so_cli_state s = Cli_accept \<and> so_bound s)) (\<lambda>_.
      Inr (if length (ts_connected s) \<noteq> ts_queue_sz s then
             if strm \<in> set (ts_streams s) then
               (0, upd_tcp i (\<lambda>s. s\<lparr>ts_connected := ts_connected s @ [strm], ts_streams := remove1 strm (ts_streams s)\<rparr>) n)
             else (2, n)
           else (1, n))))"

definition get_connected_stream :: "nat \<Rightarrow> net \<Rightarrow> (nat option \<times> net) res" where
  "get_connected_stream i n =
     (let s = n_tcp n ! i in
      res_bind (wassert (so_net_state s = Net_listen \<and> so_cli_state s = Cli_accept \<and> so_bound s)) (\<lambda>_.
      Inr (case ts_connected s of
             [] \<Rightarrow> (None, n)
           | t # r \<Rightarrow> (Some t, upd_tcp i (\<lambda>s. s\<lparr>ts_connected := r\<rparr>) n))))"

text \<open>\<open>find_stream\<close> by the address of the peer.\<close>

definition find_stream :: "nat list \<Rightarrow> u32 \<Rightarrow> u16 \<Rightarrow> net \<Rightarrow> nat option" where
  "find_stream ss a p n = find (\<lambda>t. st_rem_addr (n_sdata n t) = a \<and> st_rem_port (n_sdata n t) = p) ss"

definition add_stream :: "nat \<Rightarrow> u32 \<Rightarrow> u16 \<Rightarrow> net \<Rightarrow> (nat option \<times> net) res" where
  "add_stream i a p n =
     (let s = n_tcp n ! i in
      res_bind (wassert (so_net_state s = Net_listen \<and> so_bound s)) (\<lambda>_.
      if n_sfree n \<noteq> [] \<and> length (ts_streams s) \<noteq> Backlog_max then
        res_bind (wassert (find_stream (ts_streams s) a p n = None)) (\<lambda>_.
        res_bind (streams_add a p n) (\<lambda>(t, n1).
        Inr (Some t, upd_tcp i (\<lambda>s. s\<lparr>ts_streams := ts_streams s @ [t]\<rparr>) n1)))
      else Inr (None, n)))"

definition get_stream :: "nat \<Rightarrow> u32 \<Rightarrow> u16 \<Rightarrow> net \<Rightarrow> nat option res" where
  "get_stream i a p n =
     (let s = n_tcp n ! i in
      res_bind (wassert (so_net_state s = Net_listen \<and> so_bound s)) (\<lambda>_. Inr (find_stream (ts_streams s) a p n)))"

text \<open>\<open>rem_stream (stream)\<close> of a listening socket: the first entry of the queue with the address of the stream.\<close>

definition rem_connected :: "nat \<Rightarrow> nat \<Rightarrow> net \<Rightarrow> net res" where
  "rem_connected i t n =
     (let s = n_tcp n ! i; x = n_sdata n t in
      res_bind (wassert (so_net_state s = Net_listen \<and> so_bound s)) (\<lambda>_.
      Inr (upd_tcp i (\<lambda>s. s\<lparr>ts_connected :=
             erase_first (\<lambda>u. st_rem_addr (n_sdata n u) = st_rem_addr x \<and> st_rem_port (n_sdata n u) = st_rem_port x) (ts_connected s)\<rparr>) n)))"

text \<open>\<open>stream (addr, port)\<close> of a connecting socket.\<close>

definition create_stream :: "nat \<Rightarrow> u32 \<Rightarrow> u16 \<Rightarrow> net \<Rightarrow> (nat option \<times> net) res" where
  "create_stream i a p n =
     (let s = n_tcp n ! i in
      res_bind (wassert (so_net_state s = Net_connection \<and> so_bound s)) (\<lambda>_.
      if n_sfree n \<noteq> [] \<and> length (ts_streams s) \<noteq> Backlog_max then
        res_bind (streams_add a p n) (\<lambda>(t, n1). Inr (Some t, upd_tcp i (\<lambda>s. s\<lparr>ts_stream := Some t\<rparr>) n1))
      else Inr (None, n)))"

text \<open>\<open>rem_stream ()\<close> of a connected socket, whose result the callers assert to be success.\<close>

definition rem_stream :: "nat \<Rightarrow> net \<Rightarrow> net res" where
  "rem_stream i n =
     (let s = n_tcp n ! i in
      res_bind (wassert (so_net_state s = Net_connection \<and> so_cli_state s = Cli_closed \<and> so_bound s)) (\<lambda>_.
      case ts_stream s of
        None \<Rightarrow> Inl Assert_failed
      | Some t \<Rightarrow> (let (ok, n1) = streams_remove t n in res_bind (wassert ok) (\<lambda>_. Inr n1))))"

section \<open>Frames and addresses are kept\<close>

text \<open>The frames of the pool do not overlap and lie in its memory; a pointer into a frame that was taken gives it back.\<close>

definition frames_ok :: "frame list \<Rightarrow> bool" where
  "frames_ok fs \<longleftrightarrow> sorted_wrt (\<lambda>f g. fr_buf f + Frame_sz \<le> fr_buf g) fs"

lemma up4_ge: "a \<le> up4 a"
proof -
  have "a + 3 = (a + 3) div 4 * 4 + (a + 3) mod 4" by simp
  moreover have "(a + 3) mod 4 \<le> 3" by simp
  ultimately show ?thesis unfolding up4_def by linarith
qed

lemma frames_init_ok: "frames_ok (frames_init ptr e) \<and> (\<forall>f \<in> set (frames_init ptr e). ptr \<le> fr_buf f \<and> fr_buf f + Frame_sz \<le> e \<and> \<not> fr_busy f)"
proof (induction ptr e rule: frames_init.induct)
  case (1 ptr e)
  show ?case
  proof (cases "ptr + Frame_sz \<le> e")
    case True
    have "ptr + Frame_sz \<le> fr_buf f" if "f \<in> set (frames_init (up4 (ptr + Frame_sz)) e)" for f
      using 1 [OF True] that up4_ge [of "ptr + Frame_sz"] by force
    then show ?thesis using True 1 [OF True] by (auto simp: frames_init.simps [of ptr e] frames_ok_def intro: add_leD1)
  qed (simp add: frames_init.simps [of ptr e] frames_ok_def)
qed

lemma frame_get_free:
  "take_frame fs = Some (f, fs') \<Longrightarrow> frames_ok fs \<Longrightarrow> fr_buf f \<le> b \<Longrightarrow> b < fr_buf f + Frame_sz \<Longrightarrow> free_frame b fs' = Inr fs"
proof (induction fs arbitrary: fs')
  case (Cons g gs)
  show ?case
  proof (cases "fr_busy g")
    case True
    then obtain gs' where t: "take_frame gs = Some (f, gs')" "fs' = g # gs'" using Cons.prems(1) by (auto split: if_splits)
    have "f \<in> set gs" using t(1) by (induction gs arbitrary: gs') (auto split: if_splits)
    then have "\<not> b < fr_buf g + Frame_sz" using Cons.prems(2,3) by (auto simp: frames_ok_def)
    moreover have "free_frame b gs' = Inr gs" using Cons.IH [OF t(1)] Cons.prems(2-4) by (simp add: frames_ok_def)
    ultimately show ?thesis using t(2) by simp
  next
    case False
    then show ?thesis using Cons.prems by auto
  qed
qed simp

text \<open>The cache holds at most one entry for an address and at most eight; an address just added is found until its time is over.\<close>

definition arp_ok :: "net \<Rightarrow> bool" where
  "arp_ok n \<longleftrightarrow> distinct (map ar_ip (n_arp n)) \<and> length (n_arp n) \<le> Arp_capacity"

lemma length_update_first [simp]: "length (update_first P f xs) = length xs"
  by (induction xs) auto

lemma update_first_map: "(\<And>x. g (f x) = g x) \<Longrightarrow> map g (update_first P f xs) = map g xs"
  by (induction xs) auto

lemma find_update_first:
  "find P xs \<noteq> None \<Longrightarrow> (\<And>x. P (f x) = P x) \<Longrightarrow> find P (update_first P f xs) = map_option f (find P xs)"
  by (induction xs) auto

lemma erase_first_subset: "set (erase_first P xs) \<subseteq> set xs"
  by (induction xs) auto

lemma erase_first_distinct: "distinct (map f xs) \<Longrightarrow> distinct (map f (erase_first P xs)) \<and> length (erase_first P xs) \<le> length xs"
proof (induction xs)
  case (Cons x xs)
  then have "f x \<notin> f ` set (erase_first P xs)" using erase_first_subset [of P xs] by auto
  then show ?case using Cons by auto
qed simp

lemma arp_find_ok: "arp_ok n \<Longrightarrow> arp_ok (snd (arp_find ip clk n))"
  using erase_first_distinct [of ar_ip "n_arp n"] by (auto simp: arp_ok_def arp_find_def split: option.splits intro: le_trans)

lemma arp_add_ok:
  assumes "arp_ok n"
  shows "arp_ok (arp_add ip m clk n)"
proof (cases "find (\<lambda>r. ar_ip r = ip) (n_arp n)")
  case None
  then have "ip \<notin> ar_ip ` set (n_arp n)" by (auto simp: find_None_iff)
  moreover have "set (tl (n_arp n)) \<subseteq> set (n_arp n)" by (cases "n_arp n") auto
  ultimately show ?thesis using None assms
    by (auto simp: arp_add_def arp_ok_def Let_def distinct_tl map_tl Arp_capacity_def)
next
  case (Some r)
  have "map ar_ip (update_first P (\<lambda>r. r\<lparr>ar_mac := m, ar_timeout := t\<rparr>) rs) = map ar_ip rs" for P t and rs :: "arp_record list"
    by (rule update_first_map) simp
  then show ?thesis using Some assms by (simp add: arp_add_def arp_ok_def Let_def)
qed

lemma arp_add_find:
  assumes "\<not> clk' > clk + Arp_timeout"
  shows "fst (arp_find ip clk' (arp_add ip m clk n)) = m"
proof (cases "find (\<lambda>r. ar_ip r = ip) (n_arp n)")
  case None
  have "find (\<lambda>r. ar_ip r = ip) (rs @ [r]) = Some r" if "set rs \<subseteq> set (n_arp n)" "ar_ip r = ip" for rs r
    using None that by (induction rs) (auto simp: find_None_iff)
  moreover have "set (tl (n_arp n)) \<subseteq> set (n_arp n)" by (cases "n_arp n") auto
  ultimately show ?thesis using None assms by (simp add: arp_find_def arp_add_def Let_def)
next
  case (Some r)
  then show ?thesis using assms by (simp add: arp_find_def arp_add_def Let_def find_update_first)
qed

end
