(* ===== verification/Tcpip.thy ===== *)
theory Tcpip
  imports Netstack
begin

text \<open>
  The network server at work (\<open>app/tcpip/main.cpp\<close>): what it does with a frame from the driver and with a request
  of a client. Both run under the mutex of the server and to their end.
\<close>

section \<open>Sending\<close>

text \<open>\<open>send_to_eth_drv\<close> with the assertions that follow each of its calls.\<close>

definition send_to_eth_drv :: "env \<Rightarrow> u8 list \<Rightarrow> net \<Rightarrow> net res" where
  "send_to_eth_drv E d n = res_bind (wassert (e_tx E d)) (\<lambda>_. Inr (n\<lparr>n_out := n_out n @ [Tx d]\<rparr>))"

text \<open>\<open>reply_to_client\<close>; the result is the number of bytes of the buffer that the client got.\<close>

definition reply_to_client :: "env \<Rightarrow> thrid \<Rightarrow> int \<Rightarrow> u32 list \<Rightarrow> u8 list \<Rightarrow> net \<Rightarrow> (nat \<times> net) res" where
  "reply_to_client E cli ecode words bf n =
     res_bind (wassert (\<not> thrid_is_nil cli)) (\<lambda>_.
     case e_reply E cli (length bf) of
       None \<Rightarrow> Inl Assert_failed
     | Some k \<Rightarrow> Inr (min k (length bf), n\<lparr>n_out := n_out n @ [Reply cli ecode words (take k bf)]\<rparr>))"

definition reply_code :: "env \<Rightarrow> thrid \<Rightarrow> int \<Rightarrow> u32 list \<Rightarrow> net \<Rightarrow> net res" where
  "reply_code E cli ecode words n = res_bind (reply_to_client E cli ecode words [] n) (\<lambda>(_, n1). Inr n1)"

definition AF_INET :: u16 where "AF_INET = 2"

definition saddr_words :: "u16 \<Rightarrow> u32 \<Rightarrow> u32 list" where
  "saddr_words port a = [push_bit 16 (ucast AF_INET) + ucast port, a, 0, 0]"

definition send_arp_request :: "env \<Rightarrow> ip_iface \<Rightarrow> u32 \<Rightarrow> net \<Rightarrow> net res" where
  "send_arp_request E ifc iaddr n =
     (case frames_get n of
        None \<Rightarrow> Inl Assert_failed
      | Some (f, n1) \<Rightarrow>
          let d = eth_header mac_bcast (if_mac ifc) Etype_arp @ arp_packet Opcode_req (if_mac ifc) (if_addr ifc) mac_nil iaddr in
          res_bind (send_to_eth_drv E d (frame_write (fr_buf f) (blit (fr_data f) 0 d) n1)) (frames_free (fr_buf f)))"

text \<open>The interface for a stream: by the peer's network when the socket is bound to any address.\<close>

definition out_iface :: "'a socket_scheme \<Rightarrow> stream \<Rightarrow> net \<Rightarrow> ip_iface option" where
  "out_iface s x n = (if so_addr s = INADDR_ANY then ip_find_masked (st_rem_addr x) n else ip_find (so_addr s) n)"

text \<open>A TCP message without data. The bytes of the options that are not written are what the frame held.\<close>

definition send_tcp_msg :: "env \<Rightarrow> nat \<Rightarrow> nat \<Rightarrow> u16 \<Rightarrow> net \<Rightarrow> net res" where
  "send_tcp_msg E i t flags n =
     (let s = n_tcp n ! i; x = n_sdata n t; (m, n1) = arp_find (st_rem_addr x) (e_clock E) n in
      case frames_get n1 of
        None \<Rightarrow> Inl Assert_failed
      | Some (f, n2) \<Rightarrow>
          (case out_iface s x n2 of
             None \<Rightarrow> Inl Assert_failed
           | Some ifc \<Rightarrow>
               res_bind (build_ip 60 Proto_tcp (if_addr ifc) (st_rem_addr x)) (\<lambda>ip.
               res_bind (build_tcp (so_port s) (st_rem_port x) (st_seq_tx x) (st_seq_rx x) 0 flags (seg 55 74 (fr_data f))
                           (if_addr ifc) (st_rem_addr x)) (\<lambda>tcp.
               let d = eth_header m (if_mac ifc) Etype_ip @ ip @ tcp;
                   n3 = frame_write (fr_buf f) (blit (fr_data f) 0 d) n2 in
               if mac_is_nil m then
                 res_bind (wassert (\<not> so_wait_arp s)) (\<lambda>_.
                 send_arp_request E ifc (st_rem_addr x)
                   (upd_tcp i (\<lambda>s. s\<lparr>so_tx_frame := fr_buf f, so_tx_len := 74, so_wait_arp := True\<rparr>) n3))
               else res_bind (send_to_eth_drv E d n3) (frames_free (fr_buf f))))))"

text \<open>
  \<open>send_icmp_dest_unreach\<close> copies the whole packet behind its headers, into a frame of 1518 bytes; it does not set the
  checksum of the message.
\<close>

definition send_icmp_dest_unreach :: "env \<Rightarrow> ip_iface \<Rightarrow> u8 list \<Rightarrow> nat \<Rightarrow> u8 \<Rightarrow> net \<Rightarrow> net res" where
  "send_icmp_dest_unreach E ifc rx len code n =
     (case frames_get n of
        None \<Rightarrow> Inr n
      | Some (f, n1) \<Rightarrow>
          let ipreq = drop Eth_hdrlen rx in
          res_bind (build_ip (of_nat (28 + len)) Proto_icmp (if_addr ifc) (ip_src ipreq)) (\<lambda>ip.
          if 42 + len > Frame_sz \<or> len > length ipreq then Inl Bad_access
          else
            let d = eth_header (eth_src rx) (if_mac ifc) Etype_ip @ ip @ [3, code] @ seg 36 42 (fr_data f) @ take len ipreq in
            res_bind (send_to_eth_drv E d (frame_write (fr_buf f) (blit (fr_data f) 0 d) n1)) (frames_free (fr_buf f))))"

section \<open>Frames that wait for an Ethernet address\<close>

text \<open>The frame a pointer is in, and the place in it.\<close>

definition frame_at :: "nat \<Rightarrow> net \<Rightarrow> frame option" where
  "frame_at b n = find (\<lambda>f. fr_buf f \<le> b \<and> b < fr_buf f + Frame_sz) (n_frames n)"

text \<open>
  \<open>check_arp_waiting_sockets\<close>: \<open>sending\<close> is the state of a client that waits for its send, \<open>hlen\<close> the length of the
  transport header.
\<close>

definition arp_wake :: "env \<Rightarrow> u32 \<Rightarrow> mac \<Rightarrow> nat \<Rightarrow> (u8 list \<Rightarrow> nat) \<Rightarrow> 'a socket_scheme \<Rightarrow> net \<Rightarrow> ('a socket_scheme \<times> net) res" where
  "arp_wake E iaddr m sending hlen s n =
     (if \<not> so_wait_arp s then Inr (s, n)
      else
        case frame_at (so_tx_frame s) n of
          None \<Rightarrow> Inl Bad_access
        | Some f \<Rightarrow>
            let o1 = so_tx_frame s - fr_buf f; eth = drop o1 (fr_data f); ip = drop Eth_hdrlen eth in
            if ip_dst ip \<noteq> iaddr then Inr (s, n)
            else
              let d = take (so_tx_len s) (m @ drop 6 eth) in
              res_bind (send_to_eth_drv E d (frame_write (fr_buf f) (blit (fr_data f) o1 m) n)) (\<lambda>n1.
              res_bind (frames_free (so_tx_frame s) n1) (\<lambda>n2.
              if so_cli_state s = sending then
                res_bind (reply_code E (so_client s) 0
                  [of_nat (so_tx_len s - Eth_hdrlen - ip_hdrlen ip - hlen (drop (ip_hdrlen ip) ip))] n2) (\<lambda>n3.
                Inr (s\<lparr>so_wait_arp := False, so_cli_state := 0, so_client := thrid_Nil\<rparr>, n3))
              else Inr (s\<lparr>so_wait_arp := False\<rparr>, n2))))"

fun wake_udp :: "env \<Rightarrow> u32 \<Rightarrow> mac \<Rightarrow> nat list \<Rightarrow> net \<Rightarrow> net res" where
  "wake_udp E iaddr m [] n = Inr n"
| "wake_udp E iaddr m (i # is) n =
     res_bind (arp_wake E iaddr m Udp_Cli_send (\<lambda>_. Udp_hdrlen) (n_udp n ! i) n) (\<lambda>(s, n1).
     wake_udp E iaddr m is (upd_udp i (\<lambda>_. s) n1))"

fun wake_tcp :: "env \<Rightarrow> u32 \<Rightarrow> mac \<Rightarrow> nat list \<Rightarrow> net \<Rightarrow> net res" where
  "wake_tcp E iaddr m [] n = Inr n"
| "wake_tcp E iaddr m (i # is) n =
     res_bind (arp_wake E iaddr m Cli_send tcp_hdrlen (n_tcp n ! i) n) (\<lambda>(s, n1).
     wake_tcp E iaddr m is (upd_tcp i (\<lambda>_. s) n1))"

section \<open>TCP: a segment for a socket\<close>

text \<open>The reply to a client ends its blocking operation.\<close>

definition end_cli :: "env \<Rightarrow> nat \<Rightarrow> int \<Rightarrow> u32 list \<Rightarrow> net \<Rightarrow> net res" where
  "end_cli E i ecode words n =
     res_bind (reply_code E (so_client (n_tcp n ! i)) ecode words n) (\<lambda>n1.
     Inr (upd_tcp i (\<lambda>s. s\<lparr>so_cli_state := 0, so_client := thrid_Nil\<rparr>) n1))"

text \<open>
  \<open>accept_connected_stream\<close>. Of the reply's five words the code sets the three given here; the rest of the address is what
  the stack held.
\<close>

definition accept_connected_stream :: "env \<Rightarrow> nat \<Rightarrow> nat \<Rightarrow> net \<Rightarrow> net res" where
  "accept_connected_stream E i t n =
     (let s = n_tcp n ! i; x = n_sdata n t in
      res_bind (wassert (so_cli_state s = Cli_accept \<and> st_state x = Established)) (\<lambda>_.
      res_bind (if so_addr s = INADDR_ANY then
                  case ip_find_masked (st_rem_addr x) n of None \<Rightarrow> Inl Assert_failed | Some ifc \<Rightarrow> Inr (if_addr ifc)
                else Inr (so_addr s)) (\<lambda>iaddr.
      res_bind (wassert (so_net_state s = Net_listen)) (\<lambda>_.
      case tcp_add (so_owner s) (so_thrno_begin s) (so_thrno_end s) (Some t) n of
        None \<Rightarrow> end_cli E i 7 [] n
      | Some (sid, n1) \<Rightarrow>
          res_bind (rem_connected i t n1) (\<lambda>n2.
          let n3 = upd_tcp (length (n_tcp n2) - 1) (\<lambda>c. c\<lparr>so_addr := iaddr, so_port := so_port s, so_bound := True\<rparr>) n2 in
          end_cli E i 0 [of_int sid, push_bit 16 (ucast AF_INET) + ucast (st_rem_port x), st_rem_addr x] n3)))))"

text \<open>The stream the segment belongs to; a listening socket makes a new one for a \<open>Syn\<close>.\<close>

definition stream_for :: "nat \<Rightarrow> u32 \<Rightarrow> u8 list \<Rightarrow> net \<Rightarrow> (nat option \<times> net) res" where
  "stream_for i src tcp n =
     (let s = n_tcp n ! i in
      if so_net_state s = Net_listen then
        res_bind (get_stream i src (tcp_src tcp) n) (\<lambda>st.
        if st = None \<and> has_flag tcp Tcp_Syn then
          res_bind (add_stream i src (tcp_src tcp) n) (\<lambda>(st1, n1).
          case st1 of
            None \<Rightarrow> Inl Assert_failed
          | Some t \<Rightarrow> Inr (Some t, upd_stream t (\<lambda>x. x\<lparr>st_init_seq_tx := 123, st_seq_tx := 123\<rparr>) n1))
        else Inr (st, n))
      else if so_net_state s = Net_connection then
        res_bind (wassert (ts_stream s \<noteq> None)) (\<lambda>_. Inr (ts_stream s, n))
      else Inl Assert_failed)"

text \<open>Received data goes to the client's buffer as far as it fits; what it did not take stays.\<close>

definition give_data :: "env \<Rightarrow> thrid \<Rightarrow> nat \<Rightarrow> net \<Rightarrow> net res" where
  "give_data E cli t n =
     (let x = n_sdata n t in
      res_bind (reply_to_client E cli 0 (saddr_words (st_rem_port x) (st_rem_addr x)) (take (st_wp x) (st_buf x)) n) (\<lambda>(sent, n1).
      if sent \<noteq> st_wp x then
        res_bind (wassert (sent < st_wp x)) (\<lambda>_.
        Inr (upd_stream t (\<lambda>x. x\<lparr>st_buf := blit (st_buf x) 0 (seg sent (st_wp x) (st_buf x)), st_wp := st_wp x - sent\<rparr>) n1))
      else Inr (upd_stream t (\<lambda>x. x\<lparr>st_wp := 0\<rparr>) n1)))"

definition established_rx :: "env \<Rightarrow> nat \<Rightarrow> nat \<Rightarrow> u8 list \<Rightarrow> u32 \<Rightarrow> net \<Rightarrow> net res" where
  "established_rx E i t tcp tcplen n =
     (let x = n_sdata n t; len = unat (tcplen - of_nat (tcp_hdrlen tcp)) in
      res_bind (wassert (len \<le> Stream_sz - st_wp x)) (\<lambda>_.
      let n1 = upd_stream t (\<lambda>x. x\<lparr>st_buf := blit (st_buf x) (st_wp x) (take len (drop (tcp_hdrlen tcp) tcp)), st_wp := st_wp x + len\<rparr>) n in
      res_bind (if has_flag tcp Tcp_Psh \<and> so_cli_state (n_tcp n1 ! i) = Cli_recv then
                  res_bind (give_data E (so_client (n_tcp n1 ! i)) t n1) (\<lambda>n2.
                  Inr (upd_tcp i (\<lambda>s. s\<lparr>so_cli_state := 0, so_client := thrid_Nil\<rparr>) n2))
                else Inr n1) (\<lambda>n3.
      if has_flag tcp Tcp_Fin then
        res_bind (send_tcp_msg E i t (Tcp_Fin + Tcp_Ack) (upd_stream t (\<lambda>x. x\<lparr>st_seq_rx := st_seq_rx x + 1\<rparr>) n3)) (\<lambda>n4.
        let n5 = upd_stream t (\<lambda>x. x\<lparr>st_state := Last_ack\<rparr>) n4 in
        if so_cli_state (n_tcp n5 ! i) = Cli_recv then
          end_cli E i 0 (saddr_words (st_rem_port x) (st_rem_addr x)) (upd_stream t (\<lambda>x. x\<lparr>st_wp := 0\<rparr>) n5)
        else Inr n5)
      else Inr n3)))"

text \<open>Removal of a socket and its stream, at the end of a connection.\<close>

definition drop_socket :: "nat \<Rightarrow> thrid \<Rightarrow> net \<Rightarrow> net res" where
  "drop_socket i cli n =
     (let sid = so_id (n_tcp n ! i) in
      res_bind (rem_stream i n) (\<lambda>n1.
      let (ok, n2) = tcp_remove sid cli n1 in res_bind (wassert ok) (\<lambda>_. Inr n2)))"

definition tcp_switch :: "env \<Rightarrow> nat \<Rightarrow> nat \<Rightarrow> u8 list \<Rightarrow> u32 \<Rightarrow> net \<Rightarrow> net res" where
  "tcp_switch E i t tcp tcplen n =
     (case st_state (n_sdata n t) of
        Closed \<Rightarrow>
          if has_flag tcp Tcp_Syn then
            res_bind (send_tcp_msg E i t (Tcp_Syn + Tcp_Ack) n) (\<lambda>n1.
            Inr (upd_stream t (\<lambda>x. x\<lparr>st_seq_tx := st_seq_tx x + 1, st_state := Syn_received\<rparr>) n1))
          else Inr n
      | Syn_sent \<Rightarrow>
          if has_flag tcp Tcp_Ack then
            res_bind (send_tcp_msg E i t Tcp_Ack (upd_stream t (\<lambda>x. x\<lparr>st_state := Established, st_seq_tx := st_seq_tx x + 1\<rparr>) n)) (\<lambda>n1.
            res_bind (wassert (so_cli_state (n_tcp n1 ! i) = Cli_connect)) (\<lambda>_. end_cli E i 0 [] n1))
          else Inl Assert_failed
      | Syn_received \<Rightarrow>
          if has_flag tcp Tcp_Ack then
            res_bind (move_to_connected_queue i t (upd_stream t (\<lambda>x. x\<lparr>st_state := Established\<rparr>) n)) (\<lambda>(rc, n1).
            res_bind (wassert (rc = 0)) (\<lambda>_.
            if so_cli_state (n_tcp n1 ! i) = Cli_accept then accept_connected_stream E i t n1 else Inr n1))
          else Inl Assert_failed
      | Established \<Rightarrow> established_rx E i t tcp tcplen n
      | Fin_wait1 \<Rightarrow>
          if has_flag tcp Tcp_Fin \<and> has_flag tcp Tcp_Ack then
            res_bind (send_tcp_msg E i t Tcp_Ack
              (upd_stream t (\<lambda>x. x\<lparr>st_state := Time_wait, st_seq_rx := st_seq_rx x + 1, st_seq_tx := st_seq_tx x + 1\<rparr>) n)) (\<lambda>n1.
            res_bind (wassert (so_cli_state (n_tcp n1 ! i) = Cli_close)) (\<lambda>_.
            let cli = so_client (n_tcp n1 ! i) in
            res_bind (reply_code E cli 0 [] n1) (\<lambda>n2.
            drop_socket i cli (upd_tcp i (\<lambda>s. s\<lparr>so_cli_state := Cli_closed\<rparr>) n2))))
          else Inr n
      | Last_ack \<Rightarrow>
          if has_flag tcp Tcp_Ack then
            let n1 = upd_stream t (\<lambda>x. x\<lparr>st_state := Closed\<rparr>) n; cli = so_client (n_tcp n1 ! i) in
            if so_cli_state (n_tcp n1 ! i) = Cli_close then
              res_bind (drop_socket i cli n1) (reply_code E cli 0 [])
            else Inr n1
          else Inl Assert_failed
      | Listen \<Rightarrow> Inr n
      | _ \<Rightarrow> Inl Assert_failed)"

definition process_tcp_to_socket :: "env \<Rightarrow> nat \<Rightarrow> u32 \<Rightarrow> u8 list \<Rightarrow> u32 \<Rightarrow> net \<Rightarrow> net res" where
  "process_tcp_to_socket E i src tcp tcplen n =
     res_bind (stream_for i src tcp n) (\<lambda>(st, n1).
     case st of
       None \<Rightarrow> Inr n1
     | Some t \<Rightarrow>
         let x = n_sdata n1 t in
         if \<not> (st_state x = Closed \<or> st_state x = Syn_sent) \<and> tcp_seq tcp \<noteq> st_seq_rx x then Inr n1
         else
           let n2 =
             (if has_flag tcp Tcp_Syn then upd_stream t (\<lambda>x. x\<lparr>st_init_seq_rx := tcp_seq tcp + 1, st_seq_rx := tcp_seq tcp + 1\<rparr>) n1
              else upd_stream t (\<lambda>x. x\<lparr>st_seq_rx := st_seq_rx x + (tcplen - of_nat (tcp_hdrlen tcp))\<rparr>) n1) in
           res_bind
             (if has_flag tcp Tcp_Rst then
                res_bind (send_tcp_msg E i t (Tcp_Rst + Tcp_Ack)
                  (upd_stream t (\<lambda>x. x\<lparr>st_seq_tx := st_seq_tx x + 1, st_seq_rx := st_seq_rx x + 1\<rparr>) n2)) (\<lambda>n3.
                let n4 = upd_stream t (\<lambda>x. x\<lparr>st_state := Closed\<rparr>) n3 in
                res_bind (wassert (so_cli_state (n_tcp n4 ! i) = Cli_connect)) (\<lambda>_. end_cli E i 11 [] n4))
              else Inr n2) (\<lambda>n5.
           tcp_switch E i t tcp tcplen n5))"

section \<open>Frames from the driver\<close>

definition Code_dst_proto_unreach :: u8 where "Code_dst_proto_unreach = 2"
definition Code_dst_port_inreach :: u8 where "Code_dst_port_inreach = 3"

definition process_tcp_packet :: "env \<Rightarrow> ip_iface \<Rightarrow> u8 list \<Rightarrow> u32 \<Rightarrow> net \<Rightarrow> net res" where
  "process_tcp_packet E ifc rx tcplen n =
     (let ip = drop Eth_hdrlen rx; tcp = drop (ip_hdrlen ip) ip in
      if tcplen < of_nat Tcp_Length_min \<or> tcplen < of_nat (tcp_hdrlen tcp) then Inr n
      else
        res_bind (tcp_calc_checksum tcp (ucast tcplen) (ip_src ip) (ip_dst ip) (ip_protocol ip)) (\<lambda>c.
        if c \<noteq> 0 then Inr n
        else
          case find_connected_socket (ip_dst ip) (tcp_dst tcp) (ip_src ip) (tcp_src tcp) n of
            Some i \<Rightarrow> process_tcp_to_socket E i (ip_src ip) tcp tcplen n
          | None \<Rightarrow>
              (case find_listening_socket (ip_dst ip) (tcp_dst tcp) n of
                 Some i \<Rightarrow> process_tcp_to_socket E i (ip_src ip) tcp tcplen n
               | None \<Rightarrow> send_icmp_dest_unreach E ifc rx (unat (of_nat (ip_hdrlen ip) + tcplen)) Code_dst_port_inreach n)))"

definition process_udp_packet :: "env \<Rightarrow> ip_iface \<Rightarrow> u8 list \<Rightarrow> u32 \<Rightarrow> net \<Rightarrow> net res" where
  "process_udp_packet E ifc rx udplen n =
     (let ip = drop Eth_hdrlen rx; udp = drop (ip_hdrlen ip) ip in
      if udplen < of_nat Udp_hdrlen \<or> udplen < ucast (udp_length udp) then Inr n
      else
        res_bind (udp_calc_checksum udp (ip_src ip) (ip_dst ip) (ip_protocol ip)) (\<lambda>c.
        if c \<noteq> 0 then Inr n
        else
          case udp_find_port (ip_dst ip) (udp_dst udp) n of
            None \<Rightarrow> send_icmp_dest_unreach E ifc rx (unat (of_nat (ip_hdrlen ip) + udplen)) Code_dst_port_inreach n
          | Some i \<Rightarrow>
              let s = n_udp n ! i; len = unat (udp_payload_len udp) in
              if so_cli_state s = Udp_Cli_recv \<or> \<not> thrid_is_nil (so_recv_client s) then
                if Udp_hdrlen + len > length udp then Inl Bad_access
                else
                  let n1 = upd_udp i (\<lambda>s. s\<lparr>so_cli_state := if so_cli_state s = Udp_Cli_recv then 0 else so_cli_state s,
                                          so_recv_client := thrid_Nil\<rparr>) n in
                  res_bind (reply_to_client E (so_recv_client s) 0 (saddr_words (udp_src udp) (ip_src ip)) (take len (drop Udp_hdrlen udp)) n1)
                    (\<lambda>(_, n2). Inr n2)
              else
                res_bind (save_received_packet (ip_src ip, udp_src udp) (drop Udp_hdrlen udp) len s) (\<lambda>(_, s1).
                Inr (upd_udp i (\<lambda>_. s1) n))))"

definition process_icmp_packet :: "env \<Rightarrow> u8 list \<Rightarrow> u32 \<Rightarrow> net \<Rightarrow> net res" where
  "process_icmp_packet E rx icmplen n =
     (let ip = drop Eth_hdrlen rx; k = Eth_hdrlen + ip_hdrlen ip in
      if icmplen < of_nat Icmp_Length_min then Inr n
      else
        res_bind (icmp_calc_checksum (drop k rx) icmplen) (\<lambda>c.
        if c \<noteq> 0 \<or> icmp_type (drop k rx) \<noteq> 8 then Inr n
        else
          let rx1 = blit rx k [0, 0, 0, 0] in
          res_bind (inet_checksum (drop k rx1) icmplen [] 0) (\<lambda>c1.
          let rx2 = blit rx1 (k + 2) (be16 c1);
              ip2 = drop Eth_hdrlen rx2;
              rx3 = blit rx2 (Eth_hdrlen + 12) (be32 (ip_dst ip2) @ be32 (ip_src ip2));
              rx4 = blit rx3 0 (eth_src rx3 @ eth_dst rx3) in
          send_to_eth_drv E (take (k + unat icmplen) rx4) n)))"

definition process_ip_packet :: "env \<Rightarrow> u8 list \<Rightarrow> nat \<Rightarrow> net \<Rightarrow> net res" where
  "process_ip_packet E rx iplen n =
     (let ip = drop Eth_hdrlen rx in
      if iplen < Ip_Length_min \<or> iplen < unat (ip_total_length ip) then Inr n
      else
        case ip_find (ip_dst ip) n of
          None \<Rightarrow> Inr n
        | Some ifc \<Rightarrow>
            let n1 = arp_add (ip_src ip) (eth_src rx) (e_clock E) n; plen = ucast (ip_total_length ip) - of_nat (ip_hdrlen ip) in
            res_bind (ip_calc_checksum ip) (\<lambda>c.
            if c \<noteq> 0 then Inr n1
            else if ip_protocol ip = Proto_icmp then process_icmp_packet E rx plen n1
            else if ip_protocol ip = Proto_tcp then process_tcp_packet E ifc rx plen n1
            else if ip_protocol ip = Proto_udp then process_udp_packet E ifc rx plen n1
            else send_icmp_dest_unreach E ifc rx iplen Code_dst_proto_unreach n1))"

definition process_arp_packet :: "env \<Rightarrow> u8 list \<Rightarrow> nat \<Rightarrow> net \<Rightarrow> net res" where
  "process_arp_packet E rx arplen n =
     (let arp = drop Eth_hdrlen rx in
      if arplen < Arp_size \<or> arp_htype arp \<noteq> 1 \<or> arp_ptype arp \<noteq> 0x0800 then Inr n
      else if arp_oper arp = Opcode_req then
        case ip_find (arp_tpa arp) n of
          None \<Rightarrow> Inr n
        | Some ifc \<Rightarrow>
            let rx1 = blit rx (Eth_hdrlen + 6) (be16 Opcode_rep @ if_mac ifc @ be32 (arp_tpa arp) @ mac_nil @ be32 0);
                rx2 = blit rx1 0 (eth_src rx1 @ eth_dst rx1) in
            send_to_eth_drv E (take (arplen + Eth_hdrlen) rx2) n
      else if arp_oper arp = Opcode_rep then
        let n1 = arp_add (arp_spa arp) (arp_sha arp) (e_clock E) n in
        res_bind (wake_udp E (arp_spa arp) (arp_sha arp) [0..<length (n_udp n1)] n1) (\<lambda>n2.
        wake_tcp E (arp_spa arp) (arp_sha arp) [0..<length (n_tcp n2)] n2)
      else Inr n)"

text \<open>\<open>process_eth_frame\<close>: the buffer of the driver's thread holds \<open>Frame_sz\<close> bytes, of which \<open>len\<close> were received.\<close>

definition process_eth_frame :: "env \<Rightarrow> u8 list \<Rightarrow> nat \<Rightarrow> net \<Rightarrow> net res" where
  "process_eth_frame E rx len n =
     (if len < Eth_hdrlen then Inr n
      else if eth_find (eth_dst rx) n = None \<and> \<not> mac_is_bcast (eth_dst rx) then Inr n
      else if eth_etype rx = Etype_ip then process_ip_packet E rx (len - Eth_hdrlen) n
      else if eth_etype rx = Etype_arp then process_arp_packet E rx (len - Eth_hdrlen) n
      else Inr n)"

section \<open>Requests of clients\<close>

text \<open>A socket of either kind; identifiers are searched among the UDP sockets first.\<close>

datatype sref = Udp_ref nat | Tcp_ref nat

definition find_socket :: "int \<Rightarrow> net \<Rightarrow> sref option" where
  "find_socket sid n =
     (case udp_find sid n of
        Some i \<Rightarrow> Some (Udp_ref i)
      | None \<Rightarrow> map_option Tcp_ref (tcp_find sid n))"

definition sock_of :: "sref \<Rightarrow> net \<Rightarrow> socket" where
  "sock_of r n = (case r of Udp_ref i \<Rightarrow> socket.truncate (n_udp n ! i) | Tcp_ref i \<Rightarrow> socket.truncate (n_tcp n ! i))"

type_synonym msg = "u32 list"

definition SOCK_STREAM :: int where "SOCK_STREAM = 1"
definition SOCK_DGRAM :: int where "SOCK_DGRAM = 2"
definition IPPROTO_TCP :: int where "IPPROTO_TCP = 6"
definition IPPROTO_UDP :: int where "IPPROTO_UDP = 17"

text \<open>Every handler returns 1, except a send that keeps its frame; the number of untyped and typed words is \<open>(u, t)\<close>.\<close>

definition fails :: "env \<Rightarrow> thrid \<Rightarrow> int \<Rightarrow> net \<Rightarrow> (int \<times> net) res" where
  "fails E cli ecode n = res_bind (reply_code E cli ecode [] n) (\<lambda>n1. Inr (1, n1))"

definition returns1 :: "net res \<Rightarrow> (int \<times> net) res" where "returns1 r = res_bind r (\<lambda>n. Inr (1, n))"

definition process_cli_socket :: "env \<Rightarrow> nat \<times> nat \<Rightarrow> msg \<Rightarrow> thrid \<Rightarrow> net \<Rightarrow> (int \<times> net) res" where
  "process_cli_socket E ut mr cli n =
     (if ut \<noteq> (6, 0) then fails E cli 2 n
      else
        let domain = sint (mr ! 4); typ = sint (mr ! 5); proto = sint (mr ! 6) in
        if domain \<noteq> sint AF_INET then fails E cli 3 n
        else
          case e_threads E cli of
            None \<Rightarrow> fails E cli 4 n
          | Some (b, e) \<Rightarrow>
              if typ = SOCK_DGRAM then
                if proto \<noteq> 0 \<and> proto \<noteq> IPPROTO_UDP then fails E cli 5 n
                else
                  (case udp_add cli b e n of
                     None \<Rightarrow> fails E cli 6 n
                   | Some (sid, n1) \<Rightarrow> returns1 (reply_code E cli 0 [of_int sid] n1))
              else if typ = SOCK_STREAM then
                if proto \<noteq> 0 \<and> proto \<noteq> IPPROTO_TCP then fails E cli 7 n
                else
                  (case tcp_add cli b e None n of
                     None \<Rightarrow> fails E cli 8 n
                   | Some (sid, n1) \<Rightarrow> returns1 (reply_code E cli 0 [of_int sid] n1))
              else fails E cli 9 n)"

definition process_cli_close_tcp :: "env \<Rightarrow> nat \<Rightarrow> thrid \<Rightarrow> net \<Rightarrow> net res" where
  "process_cli_close_tcp E i cli n =
     (let s = n_tcp n ! i in
      if so_net_state s = Net_listen then
        if ts_streams s \<noteq> [] \<or> ts_connected s \<noteq> [] then Inl Assert_failed
        else
          let (ok, n1) = tcp_remove (so_id s) cli (upd_tcp i (\<lambda>s. s\<lparr>so_cli_state := Cli_closed\<rparr>) n) in
          res_bind (wassert ok) (\<lambda>_. reply_code E cli 0 [] n1)
      else if so_net_state s = Net_connection then
        case ts_stream s of
          None \<Rightarrow> Inl Assert_failed
        | Some t \<Rightarrow>
            if st_state (n_sdata n t) = Closed then
              res_bind (drop_socket i cli (upd_tcp i (\<lambda>s. s\<lparr>so_cli_state := Cli_closed\<rparr>) n)) (reply_code E cli 0 [])
            else if st_state (n_sdata n t) = Established then
              send_tcp_msg E i t (Tcp_Fin + Tcp_Ack)
                (upd_stream t (\<lambda>x. x\<lparr>st_state := Fin_wait1\<rparr>) (upd_tcp i (\<lambda>s. s\<lparr>so_cli_state := Cli_close, so_client := cli\<rparr>) n))
            else Inl Assert_failed
      else Inl Assert_failed)"

definition process_cli_close :: "env \<Rightarrow> nat \<times> nat \<Rightarrow> msg \<Rightarrow> thrid \<Rightarrow> net \<Rightarrow> (int \<times> net) res" where
  "process_cli_close E ut mr cli n =
     (if ut \<noteq> (4, 0) then fails E cli 2 n
      else
        case find_socket (sint (mr ! 4)) n of
          None \<Rightarrow> fails E cli 3 n
        | Some r \<Rightarrow>
            if \<not> is_owner (sock_of r n) cli then fails E cli 4 n
            else if so_cli_state (sock_of r n) \<noteq> 0 then fails E cli 5 n
            else
              (case r of
                 Udp_ref i \<Rightarrow>
                   (let (ok, n1) = udp_remove (sint (mr ! 4)) cli n in
                    if \<not> ok then fails E cli 6 n1 else returns1 (reply_code E cli 0 [] n1))
               | Tcp_ref i \<Rightarrow> returns1 (process_cli_close_tcp E i cli n)))"

text \<open>The address in four words of a message: family and port in the first, the address in the second.\<close>

definition sa_family :: "msg \<Rightarrow> u16" where "sa_family a = ucast (drop_bit 16 (a ! 0))"
definition sa_port :: "msg \<Rightarrow> u16" where "sa_port a = ucast (a ! 0)"
definition sa_addr :: "msg \<Rightarrow> u32" where "sa_addr a = a ! 1"

definition process_cli_bind :: "env \<Rightarrow> nat \<times> nat \<Rightarrow> msg \<Rightarrow> thrid \<Rightarrow> net \<Rightarrow> (int \<times> net) res" where
  "process_cli_bind E ut mr cli n =
     (if ut \<noteq> (8, 0) then fails E cli 2 n
      else
        let sa = drop 5 mr in
        case find_socket (sint (mr ! 4)) n of
          None \<Rightarrow> fails E cli 3 n
        | Some r \<Rightarrow>
            let s = sock_of r n in
            if \<not> is_owner s cli then fails E cli 4 n
            else if sa_family sa \<noteq> AF_INET then fails E cli 5 n
            else if so_cli_state s \<noteq> 0 then fails E cli 6 n
            else if so_net_state s \<noteq> 0 then fails E cli 6 n
            else if sa_addr sa \<noteq> INADDR_ANY \<and> ip_find (sa_addr sa) n = None then fails E cli 8 n
            else if so_bound s then fails E cli 9 n
            else
              returns1 (reply_code E cli 0 []
                (case r of
                   Udp_ref i \<Rightarrow> upd_udp i (\<lambda>s. s\<lparr>so_addr := sa_addr sa, so_port := sa_port sa, so_bound := True\<rparr>) n
                 | Tcp_ref i \<Rightarrow> upd_tcp i (\<lambda>s. s\<lparr>so_addr := sa_addr sa, so_port := sa_port sa, so_bound := True\<rparr>) n)))"

definition process_cli_listen :: "env \<Rightarrow> nat \<times> nat \<Rightarrow> msg \<Rightarrow> thrid \<Rightarrow> net \<Rightarrow> (int \<times> net) res" where
  "process_cli_listen E ut mr cli n =
     (if ut \<noteq> (5, 0) then fails E cli 2 n
      else
        case tcp_find (sint (mr ! 4)) n of
          None \<Rightarrow> fails E cli 3 n
        | Some i \<Rightarrow>
            let s = n_tcp n ! i in
            if \<not> is_owner s cli then fails E cli 4 n
            else if so_cli_state s \<noteq> 0 then fails E cli 6 n
            else if so_net_state s \<noteq> 0 then fails E cli 6 n
            else res_bind (tcp_listen i (sint (mr ! 5)) n) (\<lambda>n1. returns1 (reply_code E cli 0 [] n1)))"

definition process_cli_accept :: "env \<Rightarrow> nat \<times> nat \<Rightarrow> msg \<Rightarrow> thrid \<Rightarrow> net \<Rightarrow> (int \<times> net) res" where
  "process_cli_accept E ut mr cli n =
     (if ut \<noteq> (4, 0) then fails E cli 2 n
      else
        case tcp_find (sint (mr ! 4)) n of
          None \<Rightarrow> fails E cli 3 n
        | Some i \<Rightarrow>
            let s = n_tcp n ! i in
            if \<not> is_owner s cli then fails E cli 4 n
            else if so_cli_state s \<noteq> 0 then fails E cli 6 n
            else if so_net_state s \<noteq> Net_listen then fails E cli 7 n
            else
              res_bind (get_connected_stream i (upd_tcp i (\<lambda>s. s\<lparr>so_cli_state := Cli_accept, so_client := cli\<rparr>) n)) (\<lambda>(st, n1).
              case st of
                None \<Rightarrow> Inr (1, n1)
              | Some t \<Rightarrow> returns1 (accept_connected_stream E i t n1)))"

definition process_cli_connect :: "env \<Rightarrow> nat \<times> nat \<Rightarrow> msg \<Rightarrow> thrid \<Rightarrow> net \<Rightarrow> (int \<times> net) res" where
  "process_cli_connect E ut mr cli n =
     (if ut \<noteq> (8, 0) then fails E cli 2 n
      else
        let sa = drop 5 mr in
        case tcp_find (sint (mr ! 4)) n of
          None \<Rightarrow> fails E cli 3 n
        | Some i \<Rightarrow>
            let s = n_tcp n ! i in
            if \<not> is_owner s cli then fails E cli 4 n
            else if so_cli_state s \<noteq> 0 then fails E cli 5 n
            else if so_net_state s \<noteq> 0 then fails E cli 6 n
            else
              res_bind (wassert (ts_stream s = None)) (\<lambda>_.
              case ip_find_masked (sa_addr sa) n of
                None \<Rightarrow> fails E cli 7 n
              | Some ifc \<Rightarrow>
                  let n1 = upd_tcp i (\<lambda>s. s\<lparr>so_net_state := Net_connection, so_cli_state := Cli_connect, so_client := cli\<rparr>)
                             (auto_bind_tcp i (if_addr ifc) n) in
                  res_bind (create_stream i (sa_addr sa) (sa_port sa) n1) (\<lambda>(st, n2).
                  case st of
                    None \<Rightarrow> Inl Assert_failed
                  | Some t \<Rightarrow> returns1 (send_tcp_msg E i t Tcp_Syn (upd_stream t (\<lambda>x. x\<lparr>st_state := Syn_sent\<rparr>) n2)))))"

text \<open>
  Sends: \<open>fb\<close> is the frame of the clients' thread, into which the kernel has put the data at \<open>ptr\<close>. The headers are
  built in front of the data. The checksums read the data, so they must lie in the frame.
\<close>

definition process_cli_sendto_udp :: "env \<Rightarrow> nat \<Rightarrow> msg \<Rightarrow> u32 \<Rightarrow> nat \<Rightarrow> thrid \<Rightarrow> nat \<Rightarrow> net \<Rightarrow> (int \<times> net) res" where
  "process_cli_sendto_udp E i sa ptr len cli fb n =
     (if so_net_state (n_udp n ! i) \<noteq> 0 then fails E cli 7 n
      else if sa_family sa \<noteq> AF_INET then fails E cli 8 n
      else
        case ip_find_masked (sa_addr sa) n of
          None \<Rightarrow> fails E cli 9 n
        | Some ifc \<Rightarrow>
            let n1 = auto_bind_udp i (if_addr ifc) n; s = n_udp n1 ! i; (m, n2) = arp_find (sa_addr sa) (e_clock E) n1;
                space = unat (ptr - of_nat fb) in
            res_bind (wassert (space \<le> Frame_sz \<and> space \<ge> 42)) (\<lambda>_.
            case find (\<lambda>f. fr_buf f = fb) (n_frames n2) of
              None \<Rightarrow> Inl Bad_access
            | Some f \<Rightarrow>
                if space + len > length (fr_data f) then Inl Bad_access
                else
                  res_bind (build_ip (of_nat (28 + len)) Proto_udp (if_addr ifc) (sa_addr sa)) (\<lambda>ip.
                  res_bind (build_udp (so_port s) (sa_port sa) (seg space (space + len) (fr_data f)) (if_addr ifc) (sa_addr sa)) (\<lambda>udp.
                  let d = eth_header m (if_mac ifc) Etype_ip @ ip @ udp;
                      n3 = frame_write fb (blit (fr_data f) (space - 42) d) n2 in
                  if mac_is_nil m then
                    if so_wait_arp s then fails E cli 11 n3
                    else
                      res_bind (send_arp_request E ifc (sa_addr sa)
                        (upd_udp i (\<lambda>s. s\<lparr>so_tx_frame := fb + (space - 42), so_tx_len := 42 + len, so_wait_arp := True,
                                         so_cli_state := Udp_Cli_send, so_client := cli\<rparr>) n3)) (\<lambda>n4. Inr (0, n4))
                  else
                    res_bind (send_to_eth_drv E d n3) (\<lambda>n4. returns1 (reply_code E cli 0 [of_nat len] n4))))))"

definition process_cli_sendto_tcp :: "env \<Rightarrow> nat \<Rightarrow> u32 \<Rightarrow> nat \<Rightarrow> thrid \<Rightarrow> nat \<Rightarrow> net \<Rightarrow> (int \<times> net) res" where
  "process_cli_sendto_tcp E i ptr len cli fb n =
     (if so_net_state (n_tcp n ! i) \<noteq> Net_connection then fails E cli 7 n
      else
        case ts_stream (n_tcp n ! i) of
          None \<Rightarrow> Inl Assert_failed
        | Some t \<Rightarrow>
            let x = n_sdata n t in
            if st_state x \<noteq> Established then fails E cli 8 n
            else
              (case out_iface (n_tcp n ! i) x n of
                 None \<Rightarrow> fails E cli 9 n
               | Some ifc \<Rightarrow>
                   let n1 = auto_bind_tcp i (if_addr ifc) n; s = n_tcp n1 ! i; (m, n2) = arp_find (st_rem_addr x) (e_clock E) n1;
                       space = unat (ptr - of_nat fb) in
                   res_bind (wassert (space \<le> Frame_sz \<and> space \<ge> 74)) (\<lambda>_.
                   case find (\<lambda>f. fr_buf f = fb) (n_frames n2) of
                     None \<Rightarrow> Inl Bad_access
                   | Some f \<Rightarrow>
                       if space + len > length (fr_data f) then Inl Bad_access
                       else
                         res_bind (build_ip (of_nat (60 + len)) Proto_tcp (if_addr ifc) (st_rem_addr x)) (\<lambda>ip.
                         res_bind (build_tcp (so_port s) (st_rem_port x) (st_seq_tx x) (st_seq_rx x)
                                     (ucast (drop_bit 1 (fr_data f ! (space - 28)) AND 7)) (Tcp_Psh + Tcp_Ack)
                                     (seg (space - 19) (space + len) (fr_data f)) (if_addr ifc) (st_rem_addr x)) (\<lambda>tcp.
                         let d = eth_header m (if_mac ifc) Etype_ip @ ip @ tcp;
                             n3 = upd_stream t (\<lambda>x. x\<lparr>st_seq_tx := st_seq_tx x + of_nat len\<rparr>)
                                    (frame_write fb (blit (fr_data f) (space - 74) d) n2) in
                         if mac_is_nil m then
                           if so_wait_arp s then fails E cli 11 n3
                           else
                             res_bind (send_arp_request E ifc (st_rem_addr x)
                               (upd_tcp i (\<lambda>s. s\<lparr>so_tx_frame := fb + (space - 74), so_tx_len := 74 + len, so_wait_arp := True,
                                                so_cli_state := Cli_send, so_client := cli\<rparr>) n3)) (\<lambda>n4. Inr (0, n4))
                         else
                           res_bind (send_to_eth_drv E d n3) (\<lambda>n4. returns1 (reply_code E cli 0 [of_nat len] n4)))))))"

definition process_cli_sendto :: "env \<Rightarrow> nat \<times> nat \<Rightarrow> msg \<Rightarrow> thrid \<Rightarrow> nat \<Rightarrow> net \<Rightarrow> (int \<times> net) res" where
  "process_cli_sendto E ut mr cli fb n =
     (if ut \<noteq> (9, 2) then fails E cli 2 n
      else
        res_bind (wassert (titem_is_string (mr ! 10))) (\<lambda>_.
        case find_socket (sint (mr ! 4)) n of
          None \<Rightarrow> fails E cli 3 n
        | Some r \<Rightarrow>
            let s = sock_of r n; len = unat (sitem_length (mr ! 10)); ptr = mr ! 11 in
            if \<not> is_owner s cli then fails E cli 4 n
            else if so_cli_state s \<noteq> 0 \<and> so_cli_state s \<noteq> (case r of Udp_ref _ \<Rightarrow> Udp_Cli_recv | Tcp_ref _ \<Rightarrow> Cli_recv) then fails E cli 5 n
            else
              (case r of
                 Udp_ref i \<Rightarrow> process_cli_sendto_udp E i (drop 6 mr) ptr len cli fb n
               | Tcp_ref i \<Rightarrow> process_cli_sendto_tcp E i ptr len cli fb n)))"

text \<open>A stream that is no longer established is reported to \<open>socket->client ()\<close>, not to the client that asks.\<close>

definition process_cli_recvfrom_tcp :: "env \<Rightarrow> nat \<Rightarrow> thrid \<Rightarrow> net \<Rightarrow> net res" where
  "process_cli_recvfrom_tcp E i cli n =
     (let s = n_tcp n ! i in
      case ts_stream s of
        None \<Rightarrow> Inl Assert_failed
      | Some t \<Rightarrow>
          let x = n_sdata n t in
          res_bind (wassert (so_net_state s = Net_connection \<and> so_cli_state s = 0)) (\<lambda>_.
          if st_state x = Established then
            if st_wp x \<noteq> 0 then give_data E cli t n
            else Inr (upd_tcp i (\<lambda>s. s\<lparr>so_cli_state := Cli_recv, so_client := cli\<rparr>) n)
          else reply_code E (so_client s) 0 (saddr_words (st_rem_port x) (st_rem_addr x)) n))"

definition process_cli_recvfrom :: "env \<Rightarrow> nat \<times> nat \<Rightarrow> msg \<Rightarrow> thrid \<Rightarrow> net \<Rightarrow> (int \<times> net) res" where
  "process_cli_recvfrom E ut mr cli n =
     (if ut \<noteq> (5, 0) then fails E cli 2 n
      else
        case find_socket (sint (mr ! 4)) n of
          None \<Rightarrow> fails E cli 3 n
        | Some r \<Rightarrow>
            let s = sock_of r n in
            if \<not> is_owner s cli then fails E cli 4 n
            else if so_cli_state s \<noteq> 0 then fails E cli 5 n
            else
              (case r of
                 Udp_ref i \<Rightarrow>
                   if so_net_state s \<noteq> 0 then fails E cli 6 n
                   else
                     (case get_received_packet (n_udp n ! i) of
                        Some p \<Rightarrow>
                          res_bind (reply_to_client E cli 0 (case pk_from p of None \<Rightarrow> map (e_stale E) [0..<4] | Some (a, q) \<Rightarrow> saddr_words q a) (pk_data p) n) (\<lambda>(_, n1).
                          Inr (1, upd_udp i free_received_packet n1))
                      | None \<Rightarrow> Inr (1, upd_udp i (\<lambda>s. s\<lparr>so_cli_state := Udp_Cli_recv, so_recv_client := cli\<rparr>) n))
               | Tcp_ref i \<Rightarrow>
                   if so_net_state s \<noteq> Net_connection then fails E cli 6 n
                   else returns1 (process_cli_recvfrom_tcp E i cli n)))"

definition process_client_request :: "env \<Rightarrow> nat \<times> nat \<Rightarrow> msg \<Rightarrow> thrid \<Rightarrow> nat \<Rightarrow> net \<Rightarrow> (int \<times> net) res" where
  "process_client_request E ut mr cli fb n =
     (let reqid = mr ! 3 in
      if reqid = 1 then process_cli_socket E ut mr cli n
      else if reqid = 2 then process_cli_close E ut mr cli n
      else if reqid = 3 then process_cli_bind E ut mr cli n
      else if reqid = 4 then process_cli_listen E ut mr cli n
      else if reqid = 5 then process_cli_accept E ut mr cli n
      else if reqid = 6 then process_cli_connect E ut mr cli n
      else if reqid = 7 then process_cli_sendto E ut mr cli fb n
      else if reqid = 8 then process_cli_recvfrom E ut mr cli n
      else fails E cli 1 n)"

text \<open>The body of the clients' thread for one message: the format and the keys come first.\<close>

definition client_turn :: "env \<Rightarrow> u32 \<times> u32 \<Rightarrow> nat \<times> nat \<Rightarrow> msg \<Rightarrow> thrid \<Rightarrow> nat \<Rightarrow> net \<Rightarrow> (int \<times> net) res" where
  "client_turn E keys ut mr from fb n =
     (if fst ut < 3 then res_bind (reply_code E from 1 [] n) (\<lambda>n1. Inr (1, n1))
      else if mr ! 1 \<noteq> fst keys \<or> mr ! 2 \<noteq> snd keys then res_bind (reply_code E from 2 [] n) (\<lambda>n1. Inr (2, n1))
      else process_client_request E ut mr from fb n)"

end
