(* ===== verification/Tcpip_Props.thy ===== *)
theory Tcpip_Props
  imports Tcpip
begin

text \<open>
  What the network server promises: its clients are kept apart, TCP data arrive in order and once, what it sends passes
  its own checks; and the packets and requests that stop it.
\<close>

section \<open>Clients\<close>

text \<open>The sockets that do not belong to the program of a thread.\<close>

definition foreign :: "thrid \<Rightarrow> net \<Rightarrow> udp_socket list \<times> tcp_socket list" where
  "foreign cli n = (filter (\<lambda>s. \<not> is_owner s cli) (n_udp n), filter (\<lambda>s. \<not> is_owner s cli) (n_tcp n))"

definition own_tcp :: "thrid \<Rightarrow> nat \<Rightarrow> net \<Rightarrow> bool" where
  "own_tcp cli i n \<longleftrightarrow> i < length (n_tcp n) \<and> is_owner (n_tcp n ! i) cli"

definition own_udp :: "thrid \<Rightarrow> nat \<Rightarrow> net \<Rightarrow> bool" where
  "own_udp cli i n \<longleftrightarrow> i < length (n_udp n) \<and> is_owner (n_udp n ! i) cli"

text \<open>A step of the server on behalf of a client: it leaves the sockets of the others and keeps its own.\<close>

definition keeps :: "thrid \<Rightarrow> net \<Rightarrow> net \<Rightarrow> bool" where
  "keeps cli n n' \<longleftrightarrow> foreign cli n' = foreign cli n \<and> (\<forall>i. own_tcp cli i n \<longrightarrow> own_tcp cli i n') \<and> (\<forall>i. own_udp cli i n \<longrightarrow> own_udp cli i n')"

lemma keeps_refl [simp]: "keeps cli n n" by (simp add: keeps_def)

lemma keeps_trans: "keeps cli n n1 \<Longrightarrow> keeps cli n1 n2 \<Longrightarrow> keeps cli n n2" by (simp add: keeps_def)

lemma keeps_same: "n_udp n' = n_udp n \<Longrightarrow> n_tcp n' = n_tcp n \<Longrightarrow> keeps cli n n'"
  by (simp add: keeps_def foreign_def own_tcp_def own_udp_def)

lemma filter_update: "i < length xs \<Longrightarrow> \<not> P (xs ! i) \<Longrightarrow> \<not> P x \<Longrightarrow> filter P (xs[i := x]) = filter P xs"
  by (induction xs arbitrary: i) (auto split: nat.splits)

lemma keeps_upd_tcp:
  "own_tcp cli i n \<Longrightarrow> is_owner (f (n_tcp n ! i)) cli \<Longrightarrow> keeps cli n (upd_tcp i f n)"
  by (auto simp: keeps_def foreign_def own_tcp_def own_udp_def upd_tcp_def filter_update nth_list_update)

lemma keeps_upd_udp:
  "own_udp cli i n \<Longrightarrow> is_owner (f (n_udp n ! i)) cli \<Longrightarrow> keeps cli n (upd_udp i f n)"
  by (auto simp: keeps_def foreign_def own_tcp_def own_udp_def upd_udp_def filter_update nth_list_update)

lemma own_keeps: "keeps cli n n' \<Longrightarrow> own_tcp cli i n \<Longrightarrow> own_tcp cli i n'" "keeps cli n n' \<Longrightarrow> own_udp cli i n \<Longrightarrow> own_udp cli i n'"
  by (simp_all add: keeps_def)

text \<open>Operations that touch no socket.\<close>

definition no_socket :: "net \<Rightarrow> net \<Rightarrow> bool" where "no_socket n n' \<longleftrightarrow> n_udp n' = n_udp n \<and> n_tcp n' = n_tcp n"

lemma keeps_no_socket: "no_socket n n' \<Longrightarrow> keeps cli n n'" by (simp add: no_socket_def keeps_same)

lemma no_socket_ops:
  "frames_get n = Some (f, n') \<Longrightarrow> no_socket n n'"
  "frames_free b n = Inr n' \<Longrightarrow> no_socket n n'"
  "no_socket n (frame_write b d n)"
  "no_socket n (snd (arp_find ip clk n))"
  "no_socket n (upd_stream t g n)"
  "send_to_eth_drv E d n = Inr n' \<Longrightarrow> no_socket n n'"
  "reply_to_client E c ec ws bf n = Inr (k, n') \<Longrightarrow> no_socket n n'"
  "reply_code E c ec ws n = Inr n' \<Longrightarrow> no_socket n n'"
  "streams_add a p n = Inr (t, n') \<Longrightarrow> no_socket n n'"
  "no_socket n (snd (streams_remove t n))"
  by (auto simp: no_socket_def frames_get_def frames_free_def frame_write_def arp_find_def upd_stream_def send_to_eth_drv_def
      reply_to_client_def reply_code_def streams_add_def streams_remove_def split: option.splits list.splits if_splits)

lemma no_socket_trans: "no_socket n n1 \<Longrightarrow> no_socket n1 n2 \<Longrightarrow> no_socket n n2" by (simp add: no_socket_def)

lemma send_arp_no_socket: "send_arp_request E ifc a n = Inr n' \<Longrightarrow> no_socket n n'"
  unfolding send_arp_request_def Let_def
  by (auto split: option.splits dest!: no_socket_ops(1,2,6) simp: no_socket_def frame_write_def)

lemma is_owner_cong: "so_thrno_begin s' = so_thrno_begin s \<Longrightarrow> so_thrno_end s' = so_thrno_end s \<Longrightarrow> is_owner s' c = is_owner s c"
  by (simp add: is_owner_def)

text \<open>The ways in which a message is sent: at once, or kept until the address of the peer is known.\<close>

lemma send_tcp_msgE:
  assumes "send_tcp_msg E i t flags n = Inr n'"
  obtains m n1 f n2 ifc ip tcp d where
    "arp_find (st_rem_addr (n_sdata n t)) (e_clock E) n = (m, n1)" "frames_get n1 = Some (f, n2)"
    "out_iface (n_tcp n ! i) (n_sdata n t) n2 = Some ifc" "build_ip 60 Proto_tcp (if_addr ifc) (st_rem_addr (n_sdata n t)) = Inr ip"
    "build_tcp (so_port (n_tcp n ! i)) (st_rem_port (n_sdata n t)) (st_seq_tx (n_sdata n t)) (st_seq_rx (n_sdata n t)) 0 flags
       (seg 55 74 (fr_data f)) (if_addr ifc) (st_rem_addr (n_sdata n t)) = Inr tcp"
    "d = eth_header m (if_mac ifc) Etype_ip @ ip @ tcp"
    "mac_is_nil m \<Longrightarrow> send_arp_request E ifc (st_rem_addr (n_sdata n t))
       (upd_tcp i (\<lambda>s. s\<lparr>so_tx_frame := fr_buf f, so_tx_len := 74, so_wait_arp := True\<rparr>) (frame_write (fr_buf f) (blit (fr_data f) 0 d) n2)) = Inr n'"
    "\<not> mac_is_nil m \<Longrightarrow> res_bind (send_to_eth_drv E d (frame_write (fr_buf f) (blit (fr_data f) 0 d) n2)) (frames_free (fr_buf f)) = Inr n'"
proof -
  obtain m n1 where a: "arp_find (st_rem_addr (n_sdata n t)) (e_clock E) n = (m, n1)" by fastforce
  obtain f n2 where g: "frames_get n1 = Some (f, n2)" using assms by (auto simp: send_tcp_msg_def a Let_def split: option.splits)
  note r = assms [unfolded send_tcp_msg_def Let_def a g prod.case option.case]
  obtain ifc where o: "out_iface (n_tcp n ! i) (n_sdata n t) n2 = Some ifc" using r by (auto split: option.splits)
  obtain ip tcp where b: "build_ip 60 Proto_tcp (if_addr ifc) (st_rem_addr (n_sdata n t)) = Inr ip"
    "build_tcp (so_port (n_tcp n ! i)) (st_rem_port (n_sdata n t)) (st_seq_tx (n_sdata n t)) (st_seq_rx (n_sdata n t)) 0 flags
       (seg 55 74 (fr_data f)) (if_addr ifc) (st_rem_addr (n_sdata n t)) = Inr tcp"
    using r unfolding o by auto
  show thesis by (rule that [OF a g o b refl]) (use r [unfolded o option.case b res_bind_simps] in \<open>auto split: if_splits\<close>)
qed

text \<open>A step after another on the client's own socket.\<close>

lemma keeps_tcp_then:
  "own_tcp cli i n \<Longrightarrow> keeps cli n n1 \<Longrightarrow> (own_tcp cli i n1 \<Longrightarrow> keeps cli n1 n2) \<Longrightarrow> keeps cli n n2"
  using own_keeps keeps_trans by blast

lemma keeps_udp_then:
  "own_udp cli i n \<Longrightarrow> keeps cli n n1 \<Longrightarrow> (own_udp cli i n1 \<Longrightarrow> keeps cli n1 n2) \<Longrightarrow> keeps cli n n2"
  using own_keeps keeps_trans by blast

lemma send_tcp_msg_keeps:
  assumes "own_tcp cli i n" "send_tcp_msg E i t flags n = Inr n'"
  shows "keeps cli n n'"
proof -
  from assms(2) obtain m n1 f n2 ifc d where a: "arp_find (st_rem_addr (n_sdata n t)) (e_clock E) n = (m, n1)" and g: "frames_get n1 = Some (f, n2)"
    and nil: "mac_is_nil m \<Longrightarrow> send_arp_request E ifc (st_rem_addr (n_sdata n t))
       (upd_tcp i (\<lambda>s. s\<lparr>so_tx_frame := fr_buf f, so_tx_len := 74, so_wait_arp := True\<rparr>) (frame_write (fr_buf f) (blit (fr_data f) 0 d) n2)) = Inr n'"
    and tx: "\<not> mac_is_nil m \<Longrightarrow> res_bind (send_to_eth_drv E d (frame_write (fr_buf f) (blit (fr_data f) 0 d) n2)) (frames_free (fr_buf f)) = Inr n'"
    by (rule send_tcp_msgE) blast
  let ?n3 = "frame_write (fr_buf f) (blit (fr_data f) 0 d) n2"
  have "no_socket n n1" using no_socket_ops(4) a by (metis snd_conv)
  then have 3: "no_socket n ?n3" using no_socket_ops(1) [OF g] no_socket_ops(3) no_socket_trans by blast
  show ?thesis
  proof (rule keeps_tcp_then [OF assms(1) keeps_no_socket [OF 3]])
    assume o: "own_tcp cli i ?n3"
    show "keeps cli ?n3 n'"
    proof (cases "mac_is_nil m")
      case True
      have "keeps cli ?n3 (upd_tcp i (\<lambda>s. s\<lparr>so_tx_frame := fr_buf f, so_tx_len := 74, so_wait_arp := True\<rparr>) ?n3)"
        using o by (intro keeps_upd_tcp) (auto simp: own_tcp_def is_owner_def)
      then show ?thesis using send_arp_no_socket [OF nil [OF True]] keeps_no_socket keeps_trans by blast
    next
      case False
      then obtain n4 where "send_to_eth_drv E d ?n3 = Inr n4" "frames_free (fr_buf f) n4 = Inr n'" using tx by auto
      then show ?thesis using no_socket_ops(2,6) no_socket_trans keeps_no_socket by blast
    qed
  qed
qed

lemma end_cli_keeps:
  assumes "own_tcp cli i n" "end_cli E i ec ws n = Inr n'"
  shows "keeps cli n n'"
proof -
  obtain n1 where r: "reply_code E (so_client (n_tcp n ! i)) ec ws n = Inr n1"
    and u: "n' = upd_tcp i (\<lambda>s. s\<lparr>so_cli_state := 0, so_client := thrid_Nil\<rparr>) n1"
    using assms(2) by (auto simp: end_cli_def)
  show ?thesis
    by (rule keeps_tcp_then [OF assms(1) keeps_no_socket [OF no_socket_ops(8) [OF r]]], unfold u, rule keeps_upd_tcp)
      (auto simp: own_tcp_def is_owner_def)
qed

lemma keeps_append_tcp:
  assumes "is_owner s cli" "n_udp n' = n_udp n" "n_tcp n' = n_tcp n @ [s]"
  shows "keeps cli n n'"
  using assms by (auto simp: keeps_def foreign_def own_tcp_def own_udp_def nth_append)

lemma keeps_append_udp:
  assumes "is_owner s cli" "n_tcp n' = n_tcp n" "n_udp n' = n_udp n @ [s]"
  shows "keeps cli n n'"
  using assms by (auto simp: keeps_def foreign_def own_tcp_def own_udp_def nth_append)

lemma tcp_add_socket:
  "tcp_add owner b e strm n = Some (sid, n') \<Longrightarrow>
   \<exists>s. so_thrno_begin s = b \<and> so_thrno_end s = e \<and> n_udp n' = n_udp n \<and> n_tcp n' = n_tcp n @ [s]"
  by (auto simp: tcp_add_def split: if_splits)

lemma udp_add_socket:
  "udp_add owner b e n = Some (sid, n') \<Longrightarrow>
   \<exists>s. so_thrno_begin s = b \<and> so_thrno_end s = e \<and> n_tcp n' = n_tcp n \<and> n_udp n' = n_udp n @ [s]"
  by (auto simp: udp_add_def split: if_splits)

lemma accept_keeps:
  assumes o: "own_tcp cli i n" and r: "accept_connected_stream E i t n = Inr n'"
  shows "keeps cli n n'"
proof (cases "tcp_add (so_owner (n_tcp n ! i)) (so_thrno_begin (n_tcp n ! i)) (so_thrno_end (n_tcp n ! i)) (Some t) n")
  case None
  then have "end_cli E i 7 [] n = Inr n'" using r by (auto simp: accept_connected_stream_def Let_def split: option.splits if_splits)
  then show ?thesis using end_cli_keeps [OF o] by blast
next
  case (Some p)
  obtain sid n1 where p: "p = (sid, n1)" by fastforce
  obtain iaddr n2 ws where 2: "rem_connected i t n1 = Inr n2"
    and e: "end_cli E i 0 ws (upd_tcp (length (n_tcp n2) - 1)
        (\<lambda>c. c\<lparr>so_addr := iaddr, so_port := so_port (n_tcp n ! i), so_bound := True\<rparr>) n2) = Inr n'"
    using r Some p by (auto simp: accept_connected_stream_def Let_def split: option.splits if_splits)
  obtain s where s: "is_owner s cli" "n_udp n1 = n_udp n" "n_tcp n1 = n_tcp n @ [s]"
    using tcp_add_socket [OF Some [unfolded p]] o unfolding own_tcp_def by (metis is_owner_cong)
  let ?j = "length (n_tcp n)"
  have j: "own_tcp cli ?j n1" using s by (simp add: own_tcp_def)
  have 12: "keeps cli n1 n2" "length (n_tcp n2) = Suc ?j"
  proof -
    have "own_tcp cli i n1" using own_keeps(1) [OF keeps_append_tcp [OF s] o] .
    then show "keeps cli n1 n2" using 2 by (auto simp: rem_connected_def Let_def intro!: keeps_upd_tcp) (simp add: own_tcp_def is_owner_def)
  qed (use 2 s in \<open>auto simp: rem_connected_def Let_def upd_tcp_def own_tcp_def\<close>)
  have j2: "own_tcp cli ?j n2" using own_keeps(1) [OF 12(1) j] .
  let ?n3 = "upd_tcp ?j (\<lambda>c. c\<lparr>so_addr := iaddr, so_port := so_port (n_tcp n ! i), so_bound := True\<rparr>) n2"
  have "keeps cli n2 ?n3" using j2 by (intro keeps_upd_tcp) (auto simp: own_tcp_def is_owner_def)
  then have 3: "keeps cli n ?n3" using keeps_append_tcp [OF s] 12(1) keeps_trans by blast
  show ?thesis by (rule keeps_tcp_then [OF o 3]) (use e 12(2) end_cli_keeps in \<open>auto\<close>)
qed

lemma find_idx_SomeD: "find_idx P xs = Some i \<Longrightarrow> i < length xs \<and> P (xs ! i)"
  by (induction xs arbitrary: i) (auto split: if_splits)

lemma find_idx_map: "map f ys = map f xs \<Longrightarrow> find_idx (\<lambda>x. f x = v) ys = find_idx (\<lambda>x. f x = v) xs"
proof (induction xs arbitrary: ys)
  case (Cons x xs)
  then obtain y zs where "ys = y # zs" "f y = f x" "map f zs = map f xs" by (cases ys) simp_all
  then show ?case using Cons.IH [of zs] by simp
qed simp

lemma filter_delete: "i < length xs \<Longrightarrow> \<not> P (xs ! i) \<Longrightarrow> filter P (take i xs @ drop (Suc i) xs) = filter P xs"
proof (induction xs arbitrary: i)
  case (Cons x xs)
  then show ?case by (cases i) auto
qed simp

lemma rem_stream_no_socket: "rem_stream i n = Inr n' \<Longrightarrow> no_socket n n'"
  by (auto simp: rem_stream_def Let_def streams_remove_def no_socket_def split: option.splits if_splits)

text \<open>What a client finds by its identifier and closes is its own.\<close>

lemma drop_keeps:
  assumes "tcp_find sid n = Some i" "own_tcp cli i n" "drop_socket i c n = Inr n'" "so_id (n_tcp n ! i) = sid"
  shows "foreign cli n' = foreign cli n"
proof -
  obtain n1 where r1: "rem_stream i n = Inr n1" using assms(3) by (auto simp: drop_socket_def Let_def)
  obtain ok n2 where "tcp_remove sid c n1 = (ok, n2)" by fastforce
  then have r: "tcp_remove sid c n1 = (True, n')" using assms(3,4) r1 by (simp add: drop_socket_def Let_def)
  have s: "no_socket n n1" using rem_stream_no_socket [OF r1] .
  then have "tcp_find sid n1 = Some i" using assms(1) by (simp add: tcp_find_def no_socket_def)
  then show ?thesis using r s assms(2) filter_delete [of i "n_tcp n" "\<lambda>s. \<not> is_owner s cli"]
    by (auto simp: tcp_remove_def foreign_def own_tcp_def no_socket_def split: if_splits)
qed

lemma tcp_find_upd: "(\<And>s. so_id (f s) = so_id s) \<Longrightarrow> tcp_find sid (upd_tcp i f n) = tcp_find sid n"
  unfolding tcp_find_def upd_tcp_def by (cases "i < length (n_tcp n)") (auto intro!: find_idx_map simp: map_update list_update_beyond list_update_same_conv)

lemma close_tcp_foreign:
  assumes f: "tcp_find sid n = Some i" and o: "own_tcp cli i n" and r: "process_cli_close_tcp E i cli n = Inr n'"
  shows "foreign cli n' = foreign cli n"
proof -
  let ?n1 = "upd_tcp i (\<lambda>s. s\<lparr>so_cli_state := Cli_closed\<rparr>) n"
  have sid: "so_id (n_tcp n ! i) = sid" using find_idx_SomeD f by (fastforce simp: tcp_find_def)
  have k: "keeps cli n ?n1" using o by (intro keeps_upd_tcp) (auto simp: own_tcp_def is_owner_def)
  have f1: "tcp_find sid ?n1 = Some i" using tcp_find_upd f by simp
  have o1: "own_tcp cli i ?n1" using k o own_keeps by blast
  have sid1: "so_id (n_tcp ?n1 ! i) = sid" using o sid by (simp add: upd_tcp_def own_tcp_def)
  consider (listen) n2 where "tcp_remove sid cli ?n1 = (True, n2)" "reply_code E cli 0 [] n2 = Inr n'"
    | (closed) n2 where "drop_socket i cli ?n1 = Inr n2" "reply_code E cli 0 [] n2 = Inr n'"
    | (fin) t where "send_tcp_msg E i t (Tcp_Fin + Tcp_Ack)
                (upd_stream t (\<lambda>x. x\<lparr>st_state := Fin_wait1\<rparr>) (upd_tcp i (\<lambda>s. s\<lparr>so_cli_state := Cli_close, so_client := cli\<rparr>) n)) = Inr n'"
    using r sid by (auto simp: process_cli_close_tcp_def Let_def split: if_splits option.splits prod.splits)
  then show ?thesis
  proof cases
    case listen
    then have "foreign cli n2 = foreign cli ?n1" using f1 o1 filter_delete [of i "n_tcp ?n1" "\<lambda>s. \<not> is_owner s cli"]
      by (auto simp: tcp_remove_def foreign_def own_tcp_def split: if_splits)
    then show ?thesis using k no_socket_ops(8) [OF listen(2)] by (simp add: keeps_def no_socket_def foreign_def)
  next
    case closed
    then show ?thesis using drop_keeps [OF f1 o1 closed(1) sid1] k no_socket_ops(8) [OF closed(2)] by (simp add: keeps_def no_socket_def foreign_def)
  next
    case fin
    let ?n2 = "upd_tcp i (\<lambda>s. s\<lparr>so_cli_state := Cli_close, so_client := cli\<rparr>) n"
    have "keeps cli n ?n2" using o by (intro keeps_upd_tcp) (auto simp: own_tcp_def is_owner_def)
    then have "keeps cli n n'"
      using keeps_tcp_then [OF o] send_tcp_msg_keeps [OF _ fin] keeps_no_socket [OF no_socket_ops(5)] own_keeps keeps_trans by meson
    then show ?thesis by (simp add: keeps_def)
  qed
qed

lemma give_data_no_socket: "give_data E c t n = Inr n' \<Longrightarrow> no_socket n n'"
  by (auto simp: give_data_def Let_def no_socket_def upd_stream_def dest!: no_socket_ops(7) split: if_splits)

lemma fails_no_socket: "fails E c ec n = Inr (rc, n') \<Longrightarrow> no_socket n n'"
  by (auto simp: fails_def dest!: no_socket_ops(8))

lemma returns1D: "returns1 r = Inr (rc, n') \<Longrightarrow> r = Inr n'"
  by (auto simp: returns1_def)

lemma keeps_fails: "fails E c ec n = Inr (rc, n') \<Longrightarrow> keeps cli n n'"
  using fails_no_socket keeps_no_socket by blast

lemma keeps_reply: "reply_code E c ec ws n = Inr n' \<Longrightarrow> keeps cli n n'"
  using no_socket_ops(8) keeps_no_socket by blast

lemma find_socket_cases:
  "find_socket sid n = Some (Udp_ref i) \<Longrightarrow> udp_find sid n = Some i \<and> i < length (n_udp n)"
  "find_socket sid n = Some (Tcp_ref i) \<Longrightarrow> tcp_find sid n = Some i \<and> i < length (n_tcp n)"
  by (auto simp: find_socket_def udp_find_def tcp_find_def dest: find_idx_SomeD split: option.splits)

lemma sock_of_own:
  "find_socket sid n = Some r \<Longrightarrow> is_owner (sock_of r n) cli \<Longrightarrow> (case r of Udp_ref i \<Rightarrow> own_udp cli i n | Tcp_ref i \<Rightarrow> own_tcp cli i n)"
  by (auto simp: sock_of_def own_udp_def own_tcp_def is_owner_def socket.defs dest: find_socket_cases split: sref.splits)

lemma keeps_port:
  "keeps cli n (m\<lparr>n_tcp_port := p\<rparr>) = keeps cli n m" "keeps cli n (m\<lparr>n_udp_port := p\<rparr>) = keeps cli n m"
  by (simp_all add: keeps_def foreign_def own_tcp_def own_udp_def)

lemma auto_bind_keeps:
  "own_tcp cli i n \<Longrightarrow> keeps cli n (auto_bind_tcp i a n)" "own_udp cli i n \<Longrightarrow> keeps cli n (auto_bind_udp i a n)"
proof -
  assume o: "own_tcp cli i n"
  then have "keeps cli n (upd_tcp i (\<lambda>s. s\<lparr>so_addr := a, so_port := p, so_bound := True\<rparr>) n)" for p
    by (intro keeps_upd_tcp) (auto simp: own_tcp_def is_owner_def)
  then show "keeps cli n (auto_bind_tcp i a n)"
    by (auto simp: auto_bind_tcp_def next_port_def Let_def keeps_port)
next
  assume o: "own_udp cli i n"
  then have "keeps cli n (upd_udp i (\<lambda>s. s\<lparr>so_addr := a, so_port := p, so_bound := True\<rparr>) n)" for p
    by (intro keeps_upd_udp) (auto simp: own_udp_def is_owner_def)
  then show "keeps cli n (auto_bind_udp i a n)"
    by (auto simp: auto_bind_udp_def next_port_def Let_def keeps_port)
qed

lemma socket_foreign:
  assumes "\<And>b e. e_threads E cli = Some (b, e) \<Longrightarrow> b \<le> thrid_number cli \<and> thrid_number cli < e"
    and "process_cli_socket E ut mr cli n = Inr (rc, n')"
  shows "keeps cli n n'"
proof -
  consider ec where "fails E cli ec n = Inr (rc, n')"
    | (udp) b e sid n1 where "e_threads E cli = Some (b, e)" "udp_add cli b e n = Some (sid, n1)" "reply_code E cli 0 [of_int sid] n1 = Inr n'"
    | (tcp) b e sid n1 where "e_threads E cli = Some (b, e)" "tcp_add cli b e None n = Some (sid, n1)" "reply_code E cli 0 [of_int sid] n1 = Inr n'"
    using assms(2) by (auto simp: process_cli_socket_def Let_def split: if_splits option.splits dest!: returns1D)
  then show ?thesis
  proof cases
    case udp
    then have "keeps cli n n1" using udp_add_socket [OF udp(2)] assms(1) [OF udp(1)] keeps_append_udp by (metis is_owner_def)
    then show ?thesis using keeps_reply [OF udp(3)] keeps_trans by blast
  next
    case tcp
    then have "keeps cli n n1" using tcp_add_socket [OF tcp(2)] assms(1) [OF tcp(1)] keeps_append_tcp by (metis is_owner_def)
    then show ?thesis using keeps_reply [OF tcp(3)] keeps_trans by blast
  qed (rule keeps_fails)
qed

lemma close_foreign:
  assumes r: "process_cli_close E ut mr cli n = Inr (rc, n')"
  shows "foreign cli n' = foreign cli n"
proof -
  consider ec where "fails E cli ec n = Inr (rc, n')"
    | (udp) i n1 ok where "find_socket (sint (mr ! 4)) n = Some (Udp_ref i)" "is_owner (sock_of (Udp_ref i) n) cli"
        "udp_remove (sint (mr ! 4)) cli n = (ok, n1)" "keeps cli n1 n'"
    | (tcp) i where "find_socket (sint (mr ! 4)) n = Some (Tcp_ref i)" "is_owner (sock_of (Tcp_ref i) n) cli"
        "process_cli_close_tcp E i cli n = Inr n'"
    using r by (auto simp: process_cli_close_def Let_def split: if_splits option.splits sref.splits prod.splits
        dest!: returns1D intro: keeps_fails keeps_reply)
  then show ?thesis
  proof cases
    case 1
    then show ?thesis using keeps_fails by (auto simp: keeps_def)
  next
    case udp
    then have u: "udp_find (sint (mr ! 4)) n = Some i" "own_udp cli i n" using find_socket_cases(1) sock_of_own by fastforce+
    then have "foreign cli n1 = foreign cli n" using udp(3) filter_delete [of i "n_udp n" "\<lambda>s. \<not> is_owner s cli"]
      by (auto simp: udp_remove_def foreign_def own_udp_def split: if_splits)
    then show ?thesis using udp(4) by (simp add: keeps_def)
  next
    case tcp
    then have "tcp_find (sint (mr ! 4)) n = Some i" "own_tcp cli i n" using find_socket_cases(2) sock_of_own by fastforce+
    then show ?thesis using close_tcp_foreign tcp(3) by blast
  qed
qed

lemma bind_keeps:
  assumes r: "process_cli_bind E ut mr cli n = Inr (rc, n')"
  shows "keeps cli n n'"
proof -
  consider ec where "fails E cli ec n = Inr (rc, n')"
    | (udp) i f where "own_udp cli i n" "\<And>s. is_owner (f s) cli = is_owner s cli" "reply_code E cli 0 [] (upd_udp i f n) = Inr n'"
    | (tcp) i f where "own_tcp cli i n" "\<And>s. is_owner (f s) cli = is_owner s cli" "reply_code E cli 0 [] (upd_tcp i f n) = Inr n'"
    using r sock_of_own [of "sint (mr ! 4)" n _ cli]
    by (fastforce simp: process_cli_bind_def Let_def is_owner_def split: if_splits option.splits sref.splits dest!: returns1D)
  then show ?thesis
  proof cases
    case udp
    then have "keeps cli n (upd_udp i f n)" by (intro keeps_upd_udp) (auto simp: own_udp_def)
    then show ?thesis using keeps_reply [OF udp(3)] keeps_trans by blast
  next
    case tcp
    then have "keeps cli n (upd_tcp i f n)" by (intro keeps_upd_tcp) (auto simp: own_tcp_def)
    then show ?thesis using keeps_reply [OF tcp(3)] keeps_trans by blast
  qed (rule keeps_fails)
qed

lemma tcp_find_own: "tcp_find sid n = Some i \<Longrightarrow> is_owner (n_tcp n ! i) cli \<Longrightarrow> own_tcp cli i n"
  by (auto simp: tcp_find_def own_tcp_def dest: find_idx_SomeD)

lemma listen_keeps:
  assumes r: "process_cli_listen E ut mr cli n = Inr (rc, n')"
  shows "keeps cli n n'"
proof -
  consider ec where "fails E cli ec n = Inr (rc, n')"
    | (ok) i n1 where "own_tcp cli i n" "tcp_listen i (sint (mr ! 5)) n = Inr n1" "reply_code E cli 0 [] n1 = Inr n'"
    using r tcp_find_own by (fastforce simp: process_cli_listen_def Let_def split: if_splits option.splits dest!: returns1D)
  then show ?thesis
  proof cases
    case ok
    then have "keeps cli n n1" by (auto simp: tcp_listen_def Let_def own_tcp_def is_owner_def intro!: keeps_upd_tcp)
    then show ?thesis using keeps_reply [OF ok(3)] keeps_trans by blast
  qed (rule keeps_fails)
qed

lemma accept_request_keeps:
  assumes r: "process_cli_accept E ut mr cli n = Inr (rc, n')"
  shows "keeps cli n n'"
proof -
  consider ec where "fails E cli ec n = Inr (rc, n')"
    | (ok) i st n1 where "own_tcp cli i n"
        "get_connected_stream i (upd_tcp i (\<lambda>s. s\<lparr>so_cli_state := Cli_accept, so_client := cli\<rparr>) n) = Inr (st, n1)"
        "case st of None \<Rightarrow> n' = n1 | Some t \<Rightarrow> accept_connected_stream E i t n1 = Inr n'"
    using r tcp_find_own by (fastforce simp: process_cli_accept_def Let_def split: if_splits option.splits dest!: returns1D)
  then show ?thesis
  proof cases
    case ok
    let ?n0 = "upd_tcp i (\<lambda>s. s\<lparr>so_cli_state := Cli_accept, so_client := cli\<rparr>) n"
    have 0: "keeps cli n ?n0" using ok(1) by (intro keeps_upd_tcp) (auto simp: own_tcp_def is_owner_def)
    have 1: "keeps cli ?n0 n1" if "own_tcp cli i ?n0"
      using ok(2) that by (auto simp: get_connected_stream_def Let_def split: list.splits intro!: keeps_upd_tcp) (simp add: own_tcp_def is_owner_def)
    show ?thesis
      by (rule keeps_tcp_then [OF ok(1) keeps_tcp_then [OF ok(1) 0 1]]) (use ok(3) accept_keeps in \<open>auto split: option.splits\<close>)
  qed (rule keeps_fails)
qed

lemma connect_keeps:
  assumes r: "process_cli_connect E ut mr cli n = Inr (rc, n')"
  shows "keeps cli n n'"
proof -
  let ?f = "\<lambda>s. s\<lparr>so_net_state := Net_connection, so_cli_state := Cli_connect, so_client := cli\<rparr>"
  consider ec where "fails E cli ec n = Inr (rc, n')"
    | (ok) i a p q t n2 where "own_tcp cli i n" "create_stream i p q (upd_tcp i ?f (auto_bind_tcp i a n)) = Inr (Some t, n2)"
        "send_tcp_msg E i t Tcp_Syn (upd_stream t (\<lambda>x. x\<lparr>st_state := Syn_sent\<rparr>) n2) = Inr n'"
    using r tcp_find_own by (fastforce simp: process_cli_connect_def Let_def split: if_splits option.splits dest!: returns1D)
  then show ?thesis
  proof cases
    case ok
    let ?n0 = "auto_bind_tcp i a n"
    have 1: "keeps cli ?n0 (upd_tcp i ?f ?n0)" if "own_tcp cli i ?n0" using that by (intro keeps_upd_tcp) (auto simp: own_tcp_def is_owner_def)
    have 2: "keeps cli (upd_tcp i ?f ?n0) n2" if "own_tcp cli i (upd_tcp i ?f ?n0)"
    proof -
      obtain n1 where "streams_add p q (upd_tcp i ?f ?n0) = Inr (t, n1)" and n2: "n2 = upd_tcp i (\<lambda>s. s\<lparr>ts_stream := Some t\<rparr>) n1"
        using ok(2) by (auto simp: create_stream_def Let_def split: if_splits)
      then have k: "keeps cli (upd_tcp i ?f ?n0) n1" using no_socket_ops(9) keeps_no_socket by blast
      show ?thesis unfolding n2 by (rule keeps_tcp_then [OF that k]) (auto intro!: keeps_upd_tcp simp: own_tcp_def is_owner_def)
    qed
    show ?thesis
      using keeps_tcp_then [OF ok(1) keeps_tcp_then [OF ok(1) keeps_tcp_then [OF ok(1) auto_bind_keeps(1) [OF ok(1)] 1] 2]]
        keeps_tcp_then [OF _ keeps_no_socket [OF no_socket_ops(5)] send_tcp_msg_keeps [OF _ ok(3)]] by blast
  qed (rule keeps_fails)
qed

lemma recvfrom_tcp_keeps:
  assumes o: "own_tcp cli i n" and r: "process_cli_recvfrom_tcp E i cli n = Inr n'"
  shows "keeps cli n n'"
proof -
  obtain t where t: "ts_stream (n_tcp n ! i) = Some t"
    using r unfolding process_cli_recvfrom_tcp_def Let_def by (cases "ts_stream (n_tcp n ! i)") simp_all
  consider (data) "give_data E cli t n = Inr n'" | (wait) "n' = upd_tcp i (\<lambda>s. s\<lparr>so_cli_state := Cli_recv, so_client := cli\<rparr>) n"
    | (gone) c ws where "reply_code E c 0 ws n = Inr n'"
    using r unfolding process_cli_recvfrom_tcp_def Let_def t option.case res_bind_Inr_iff wassert_simps(3)
    by (metis (full_types) Inr_inject)
  then show ?thesis
  proof cases
    case data
    show ?thesis by (rule keeps_no_socket [OF give_data_no_socket [OF data]])
  next
    case wait
    then show ?thesis using o by (auto intro!: keeps_upd_tcp simp: own_tcp_def is_owner_def)
  next
    case gone
    show ?thesis by (rule keeps_reply [OF gone])
  qed
qed

lemma recvfrom_keeps:
  assumes r: "process_cli_recvfrom E ut mr cli n = Inr (rc, n')"
  shows "keeps cli n n'"
proof -
  let ?f = "\<lambda>s. s\<lparr>so_cli_state := Udp_Cli_recv, so_recv_client := cli\<rparr>"
  consider ec where "fails E cli ec n = Inr (rc, n')"
    | (got) i ws d k n1 where "find_socket (sint (mr ! 4)) n = Some (Udp_ref i)" "is_owner (sock_of (Udp_ref i) n) cli"
        "reply_to_client E cli 0 ws d n = Inr (k, n1)" "n' = upd_udp i free_received_packet n1"
    | (wait) i where "find_socket (sint (mr ! 4)) n = Some (Udp_ref i)" "is_owner (sock_of (Udp_ref i) n) cli" "n' = upd_udp i ?f n"
    | (tcp) i where "find_socket (sint (mr ! 4)) n = Some (Tcp_ref i)" "is_owner (sock_of (Tcp_ref i) n) cli"
        "process_cli_recvfrom_tcp E i cli n = Inr n'"
    using r unfolding process_cli_recvfrom_def Let_def
    by (auto split: if_splits option.split_asm sref.split_asm dest!: returns1D)
  then show ?thesis
  proof cases
    case got
    have o: "own_udp cli i n" using sock_of_own [OF got(1,2)] by simp
    show ?thesis unfolding got(4)
      by (rule keeps_udp_then [OF o keeps_no_socket [OF no_socket_ops(7) [OF got(3)]]])
        (auto intro!: keeps_upd_udp simp: own_udp_def is_owner_def free_received_packet_def)
  next
    case wait
    then show ?thesis using sock_of_own [OF wait(1,2)] by (auto intro!: keeps_upd_udp simp: own_udp_def is_owner_def)
  next
    case tcp
    then show ?thesis using sock_of_own [OF tcp(1,2)] recvfrom_tcp_keeps by simp
  qed (rule keeps_fails)
qed

text \<open>The end of a send: keep the frame until the address is known, or send at once.\<close>

lemma keeps_arp_udp:
  assumes "own_udp cli i n" "\<And>s. is_owner (f s) cli = is_owner s cli" "send_arp_request E ifc a (upd_udp i f n) = Inr n'"
  shows "keeps cli n n'"
proof -
  have "keeps cli n (upd_udp i f n)" using assms(1,2) by (intro keeps_upd_udp) (auto simp: own_udp_def)
  then show ?thesis using keeps_no_socket [OF send_arp_no_socket [OF assms(3)]] keeps_trans by blast
qed

lemma keeps_arp_tcp:
  assumes "own_tcp cli i n" "\<And>s. is_owner (f s) cli = is_owner s cli" "send_arp_request E ifc a (upd_tcp i f n) = Inr n'"
  shows "keeps cli n n'"
proof -
  have "keeps cli n (upd_tcp i f n)" using assms(1,2) by (intro keeps_upd_tcp) (auto simp: own_tcp_def)
  then show ?thesis using keeps_no_socket [OF send_arp_no_socket [OF assms(3)]] keeps_trans by blast
qed

lemma keeps_tx:
  assumes "send_to_eth_drv E d n = Inr n4" "returns1 (reply_code E c ec ws n4) = Inr (rc, n')"
  shows "keeps cli n n'"
proof -
  have "reply_code E c ec ws n4 = Inr n'" using returns1D [OF assms(2)] .
  then show ?thesis using assms(1) keeps_no_socket [OF no_socket_ops(6)] keeps_reply keeps_trans by blast
qed

lemma sendto_udp_keeps:
  assumes o: "own_udp cli i n" and r: "process_cli_sendto_udp E i sa ptr len cli fb n = Inr (rc, n')"
  shows "keeps cli n n'"
proof (cases "\<exists>ec. fails E cli ec n = Inr (rc, n')")
  case False
  then have c: "so_net_state (n_udp n ! i) = 0" "sa_family sa = AF_INET"
    using r by (auto simp: process_cli_sendto_udp_def split: if_splits)
  obtain ifc where i: "ip_find_masked (sa_addr sa) n = Some ifc"
    using r False c by (auto simp: process_cli_sendto_udp_def split: option.splits)
  let ?n1 = "auto_bind_udp i (if_addr ifc) n" and ?space = "unat (ptr - of_nat fb)"
  obtain m n2 where a: "arp_find (sa_addr sa) (e_clock E) ?n1 = (m, n2)" by fastforce
  have "no_socket ?n1 n2" using no_socket_ops(4) a by (metis snd_conv)
  then have 2: "keeps cli n n2" using auto_bind_keeps(2) [OF o] keeps_no_socket keeps_trans by blast
  note r1 = r [unfolded process_cli_sendto_udp_def Let_def i a option.case prod.case c simp_thms if_False]
  obtain f where f: "find (\<lambda>f. fr_buf f = fb) (n_frames n2) = Some f" using r1 by (cases "find (\<lambda>f. fr_buf f = fb) (n_frames n2)") (simp_all add: c)
  have l: "\<not> length (fr_data f) < ?space + len" using r1 unfolding f option.case by (auto split: if_splits)
  obtain ip where ip: "build_ip (of_nat (28 + len)) Proto_udp (if_addr ifc) (sa_addr sa) = Inr ip" using r1 l unfolding f option.case by auto
  obtain udp where u: "build_udp (so_port (n_udp ?n1 ! i)) (sa_port sa) (seg ?space (?space + len) (fr_data f)) (if_addr ifc) (sa_addr sa) = Inr udp"
    using r1 l ip unfolding f option.case by auto
  define d where "d = blit (fr_data f) (?space - 42) (eth_header m (if_mac ifc) Etype_ip @ ip @ udp)"
  have 3: "keeps cli n (frame_write fb d n2)" using 2 keeps_no_socket [OF no_socket_ops(3)] keeps_trans by blast
  show ?thesis
  proof (rule keeps_udp_then [OF o 3])
    assume o3: "own_udp cli i (frame_write fb d n2)"
    note r2 = r1 [unfolded f option.case ip u res_bind_simps, folded d_def]
    show "keeps cli (frame_write fb d n2) n'"
    proof (cases "mac_is_nil m")
      case True
      show ?thesis
      proof (cases "so_wait_arp (n_udp ?n1 ! i)")
        case True
        then show ?thesis using r2 \<open>mac_is_nil m\<close> l by (auto intro: keeps_fails)
      next
        case False
        then show ?thesis using r2 \<open>mac_is_nil m\<close> l by (auto elim!: keeps_arp_udp [OF o3, rotated] simp: is_owner_def)
      qed
    next
      case False
      then show ?thesis using r2 l by (auto intro: keeps_tx)
    qed
  qed
qed (use keeps_fails in blast)

lemma sendto_tcp_keeps:
  assumes o: "own_tcp cli i n" and r: "process_cli_sendto_tcp E i ptr len cli fb n = Inr (rc, n')"
  shows "keeps cli n n'"
proof (cases "\<exists>ec. fails E cli ec n = Inr (rc, n')")
  case False
  then have c: "(so_net_state (n_tcp n ! i) \<noteq> Net_connection) = False" using r by (auto simp: process_cli_sendto_tcp_def split: if_splits)
  obtain t where t: "ts_stream (n_tcp n ! i) = Some t" using r c by (auto simp: process_cli_sendto_tcp_def split: option.splits)
  let ?x = "n_sdata n t"
  have c2: "(st_state ?x \<noteq> Established) = False" using r c t False by (auto simp: process_cli_sendto_tcp_def Let_def split: if_splits)
  obtain ifc where i: "out_iface (n_tcp n ! i) ?x n = Some ifc"
    using r c t c2 False by (auto simp: process_cli_sendto_tcp_def Let_def split: option.splits)
  let ?n1 = "auto_bind_tcp i (if_addr ifc) n" and ?space = "unat (ptr - of_nat fb)"
  obtain m n2 where a: "arp_find (st_rem_addr ?x) (e_clock E) ?n1 = (m, n2)" by fastforce
  have "no_socket ?n1 n2" using no_socket_ops(4) a by (metis snd_conv)
  then have 2: "keeps cli n n2" using auto_bind_keeps(1) [OF o] keeps_no_socket keeps_trans by blast
  note r1 = r [unfolded process_cli_sendto_tcp_def Let_def c t option.case c2 if_False i a prod.case]
  obtain f where f: "find (\<lambda>f. fr_buf f = fb) (n_frames n2) = Some f" using r1 by (cases "find (\<lambda>f. fr_buf f = fb) (n_frames n2)") simp_all
  have l: "\<not> length (fr_data f) < ?space + len" using r1 unfolding f option.case by (auto split: if_splits)
  obtain ip where ip: "build_ip (of_nat (60 + len)) Proto_tcp (if_addr ifc) (st_rem_addr ?x) = Inr ip" using r1 l unfolding f option.case by auto
  obtain tcp where u: "build_tcp (so_port (n_tcp ?n1 ! i)) (st_rem_port ?x) (st_seq_tx ?x) (st_seq_rx ?x)
      (ucast (drop_bit 1 (fr_data f ! (?space - 28)) AND 7)) (Tcp_Psh + Tcp_Ack) (seg (?space - 19) (?space + len) (fr_data f)) (if_addr ifc) (st_rem_addr ?x) = Inr tcp"
    using r1 l ip unfolding f option.case by auto
  define d where "d = blit (fr_data f) (?space - 74) (eth_header m (if_mac ifc) Etype_ip @ ip @ tcp)"
  let ?n3 = "upd_stream t (\<lambda>x. x\<lparr>st_seq_tx := st_seq_tx x + of_nat len\<rparr>) (frame_write fb d n2)"
  have "no_socket n2 ?n3" using no_socket_ops(3,5) no_socket_trans by blast
  then have 3: "keeps cli n ?n3" using 2 keeps_no_socket keeps_trans by blast
  show ?thesis
  proof (rule keeps_tcp_then [OF o 3])
    assume o3: "own_tcp cli i ?n3"
    note r2 = r1 [unfolded f option.case ip u res_bind_simps, folded d_def]
    show "keeps cli ?n3 n'"
    proof (cases "mac_is_nil m")
      case True
      show ?thesis
      proof (cases "so_wait_arp (n_tcp ?n1 ! i)")
        case True
        then show ?thesis using r2 \<open>mac_is_nil m\<close> l by (auto intro: keeps_fails)
      next
        case False
        then show ?thesis using r2 \<open>mac_is_nil m\<close> l by (auto elim!: keeps_arp_tcp [OF o3, rotated] simp: is_owner_def)
      qed
    next
      case False
      then show ?thesis using r2 l by (auto intro: keeps_tx)
    qed
  qed
qed (use keeps_fails in blast)

lemma sendto_keeps:
  assumes r: "process_cli_sendto E ut mr cli fb n = Inr (rc, n')"
  shows "keeps cli n n'"
proof -
  consider ec where "fails E cli ec n = Inr (rc, n')"
    | (udp) i where "find_socket (sint (mr ! 4)) n = Some (Udp_ref i)" "is_owner (sock_of (Udp_ref i) n) cli"
        "process_cli_sendto_udp E i (drop 6 mr) (mr ! 11) (unat (sitem_length (mr ! 10))) cli fb n = Inr (rc, n')"
    | (tcp) i where "find_socket (sint (mr ! 4)) n = Some (Tcp_ref i)" "is_owner (sock_of (Tcp_ref i) n) cli"
        "process_cli_sendto_tcp E i (mr ! 11) (unat (sitem_length (mr ! 10))) cli fb n = Inr (rc, n')"
    using r unfolding process_cli_sendto_def Let_def by (auto split: if_splits option.split_asm sref.split_asm)
  then show ?thesis
  proof cases
    case udp
    then show ?thesis using sock_of_own [OF udp(1,2)] sendto_udp_keeps by simp
  next
    case tcp
    then show ?thesis using sock_of_own [OF tcp(1,2)] sendto_tcp_keeps by simp
  qed (rule keeps_fails)
qed

text \<open>
  C25. Whatever a client asks of the network server, with any message: if the request is served at all, the sockets that do not
  belong to the client's program are the same as before, in the same order and in every field. The only assumption is that
  the range of threads that the system reports for a client contains the client.
\<close>

theorem client_isolation:
  assumes "\<And>b e. e_threads E cli = Some (b, e) \<Longrightarrow> b \<le> thrid_number cli \<and> thrid_number cli < e"
    and "client_turn E keys ut mr cli fb n = Inr (rc, n')"
  shows "filter (\<lambda>s. \<not> is_owner s cli) (n_udp n') = filter (\<lambda>s. \<not> is_owner s cli) (n_udp n)
    \<and> filter (\<lambda>s. \<not> is_owner s cli) (n_tcp n') = filter (\<lambda>s. \<not> is_owner s cli) (n_tcp n)"
proof -
  have "foreign cli n' = foreign cli n"
    using assms(2) socket_foreign [OF assms(1)] close_foreign bind_keeps listen_keeps accept_request_keeps connect_keeps sendto_keeps
      recvfrom_keeps keeps_fails keeps_reply
    by (simp add: client_turn_def process_client_request_def Let_def keeps_def split: if_splits) (metis Inr_inject prod.inject)+
  then show ?thesis by (simp add: foreign_def)
qed

section \<open>The data of a connection\<close>

text \<open>What is stored for the client, and what the server has given to clients so far.\<close>

definition stream_data :: "stream \<Rightarrow> u8 list" where "stream_data x = take (st_wp x) (st_buf x)"

fun event_data :: "event \<Rightarrow> u8 list" where
  "event_data (Tx _) = []"
| "event_data (Reply _ _ _ d) = d"

definition replied :: "net \<Rightarrow> u8 list" where "replied n = concat (map event_data (n_out n))"

definition conn :: "nat \<Rightarrow> nat \<Rightarrow> net \<Rightarrow> bool" where
  "conn i t n \<longleftrightarrow> i < length (n_tcp n) \<and> so_net_state (n_tcp n ! i) = Net_connection \<and> ts_stream (n_tcp n ! i) = Some t
     \<and> st_state (n_sdata n t) = Established \<and> st_wp (n_sdata n t) \<le> Stream_sz \<and> length (st_buf (n_sdata n t)) = Stream_sz"

text \<open>A segment that carries data or acknowledges; its payload.\<close>

definition plain :: "u8 list \<Rightarrow> u32 \<Rightarrow> bool" where
  "plain tcp tcplen \<longleftrightarrow> \<not> has_flag tcp Tcp_Syn \<and> \<not> has_flag tcp Tcp_Rst \<and> \<not> has_flag tcp Tcp_Fin
     \<and> tcp_hdrlen tcp \<le> unat tcplen \<and> unat tcplen \<le> length tcp"

definition tcp_payload :: "u8 list \<Rightarrow> u32 \<Rightarrow> u8 list" where
  "tcp_payload tcp tcplen = take (unat tcplen - tcp_hdrlen tcp) (drop (tcp_hdrlen tcp) tcp)"

text \<open>Segments for the connection and receives of its client, one after the other; the specification of the data.\<close>

datatype conn_op = Segment u32 "u8 list" u32 | Recv thrid

fun conn_step :: "env \<Rightarrow> nat \<Rightarrow> conn_op \<Rightarrow> net \<Rightarrow> net res" where
  "conn_step E i (Segment src tcp tcplen) n = process_tcp_to_socket E i src tcp tcplen n"
| "conn_step E i (Recv cli) n = process_cli_recvfrom_tcp E i cli n"

fun conn_run :: "(env \<times> conn_op) list \<Rightarrow> nat \<Rightarrow> net \<Rightarrow> net res" where
  "conn_run [] i n = Inr n"
| "conn_run ((E, a) # as) i n = res_bind (conn_step E i a n) (conn_run as i)"

text \<open>
  The data that a run takes from the network: the payload of every segment that arrives with the number \<open>nx\<close> expected next. A segment
  that arrives early or again is dropped; the peer has to send it again.
\<close>

fun accepted :: "u32 \<Rightarrow> conn_op list \<Rightarrow> u8 list" where
  "accepted nx [] = []"
| "accepted nx (Recv _ # as) = accepted nx as"
| "accepted nx (Segment _ tcp tcplen # as) =
     (if tcp_seq tcp = nx then tcp_payload tcp tcplen @ accepted (nx + of_nat (length (tcp_payload tcp tcplen))) as else accepted nx as)"

text \<open>A segment cut out of the bytes \<open>D\<close> that the peer sends, the first of which has the number \<open>s0\<close>.\<close>

fun cut_from :: "u8 list \<Rightarrow> u32 \<Rightarrow> conn_op \<Rightarrow> bool" where
  "cut_from D s0 (Recv _) = True"
| "cut_from D s0 (Segment _ tcp tcplen) = (\<exists>off len. off + len \<le> length D \<and> tcp_seq tcp = s0 + of_nat off \<and> tcp_payload tcp tcplen = take len (drop off D))"

text \<open>However such segments are dropped, repeated, reordered and cut anew, what is taken continues what was taken before.\<close>

lemma accepted_prefix:
  assumes "length D < 2 ^ 32" "\<forall>a\<in>set as. cut_from D s0 a" "k \<le> length D" "nx = s0 + of_nat k"
  shows "\<exists>j. k + j \<le> length D \<and> accepted nx as = take j (drop k D)"
  using assms(2-4)
proof (induction as arbitrary: k nx)
  case (Cons a as)
  show ?case
  proof (cases a)
    case (Segment src tcp tcplen)
    then obtain off len where o: "off + len \<le> length D" "tcp_seq tcp = s0 + of_nat off" "tcp_payload tcp tcplen = take len (drop off D)"
      using Cons.prems(1) by auto
    show ?thesis
    proof (cases "tcp_seq tcp = nx")
      case True
      then have "of_nat off = (of_nat k :: u32)" using o(2) Cons.prems(3) by simp
      then have "unat (of_nat off :: u32) = unat (of_nat k :: u32)" by simp
      then have k: "off = k" using o(1) Cons.prems(2) assms(1) by (simp add: unat_of_nat take_bit_nat_eq_self)
      then have l: "length (tcp_payload tcp tcplen) = len" using o(1,3) by simp
      then obtain j where "k + len + j \<le> length D" "accepted (nx + of_nat len) as = take j (drop (k + len) D)"
        using Cons.IH [of "k + len" "nx + of_nat len"] Cons.prems o(1) k by auto
      moreover have "take (len + j) (drop k D) = take len (drop k D) @ take j (drop (k + len) D)"
        using take_add [of len j "drop k D"] by (simp add: add.commute)
      ultimately show ?thesis using True l o(3) k Segment by (intro exI [of _ "len + j"]) simp
    next
      case False
      then show ?thesis using Cons.IH [of k nx] Cons.prems Segment by auto
    qed
  next
    case (Recv cli)
    then show ?thesis using Cons.IH [of k nx] Cons.prems by auto
  qed
qed (auto intro: exI [of _ 0])

lemma give_data_exact:
  assumes "give_data E cli t n = Inr n'" "st_wp (n_sdata n t) \<le> length (st_buf (n_sdata n t))"
  shows "replied n' @ stream_data (n_sdata n' t) = replied n @ stream_data (n_sdata n t)
    \<and> n_tcp n' = n_tcp n \<and> st_state (n_sdata n' t) = st_state (n_sdata n t) \<and> st_seq_rx (n_sdata n' t) = st_seq_rx (n_sdata n t)
    \<and> st_wp (n_sdata n' t) \<le> st_wp (n_sdata n t) \<and> length (st_buf (n_sdata n' t)) = length (st_buf (n_sdata n t))"
proof -
  let ?x = "n_sdata n t"
  obtain sent n1 where r: "reply_to_client E cli 0 (saddr_words (st_rem_port ?x) (st_rem_addr ?x)) (take (st_wp ?x) (st_buf ?x)) n = Inr (sent, n1)"
    and n': "n' = (if sent \<noteq> st_wp ?x then upd_stream t (\<lambda>x. x\<lparr>st_buf := blit (st_buf x) 0 (seg sent (st_wp x) (st_buf x)), st_wp := st_wp x - sent\<rparr>) n1
                else upd_stream t (\<lambda>x. x\<lparr>st_wp := 0\<rparr>) n1)"
    using assms(1) by (auto simp: give_data_def Let_def split: if_splits)
  obtain k where k: "sent = min k (st_wp ?x)" "replied n1 = replied n @ take k (take (st_wp ?x) (st_buf ?x))" "n_sdata n1 = n_sdata n" "n_tcp n1 = n_tcp n"
    using r assms(2) by (auto simp: reply_to_client_def replied_def min_absorb2 split: option.splits)
  let ?D = "take (st_wp ?x) (st_buf ?x)"
  have b: "take (st_wp ?x - sent) (blit (st_buf ?x) 0 (seg sent (st_wp ?x) (st_buf ?x))) = drop sent ?D"
    "length (blit (st_buf ?x) 0 (seg sent (st_wp ?x) (st_buf ?x))) = length (st_buf ?x)"
    using assms(2) by (simp_all add: blit_def seg_def)
  have "take k ?D = take sent ?D" by (simp add: k(1) min.commute)
  then have D: "replied n1 @ drop sent ?D = replied n @ ?D" unfolding k(2) by (metis append.assoc append_take_drop_id)
  have 1: "replied n' = replied n1" "n_tcp n' = n_tcp n1" by (simp_all add: n' replied_def upd_stream_def)
  have x: "n_sdata n' t = (if sent \<noteq> st_wp ?x
      then ?x\<lparr>st_buf := blit (st_buf ?x) 0 (seg sent (st_wp ?x) (st_buf ?x)), st_wp := st_wp ?x - sent\<rparr> else ?x\<lparr>st_wp := 0\<rparr>)"
    by (simp add: n' upd_stream_def k(3))
  show ?thesis
  proof (cases "sent = st_wp ?x")
    case True
    then show ?thesis using x D 1 k(4) by (simp add: stream_data_def)
  next
    case False
    then show ?thesis using x D 1 k(4) b by (simp add: stream_data_def)
  qed
qed

text \<open>A plain segment: ignored out of order, otherwise its payload is appended to what is stored, and given on.\<close>

lemma segment_exact:
  assumes c: "conn i t n" and p: "plain tcp tcplen" and r: "process_tcp_to_socket E i src tcp tcplen n = Inr n'"
  shows "conn i t n' \<and> (if tcp_seq tcp = st_seq_rx (n_sdata n t) then
       replied n' @ stream_data (n_sdata n' t) = replied n @ stream_data (n_sdata n t) @ tcp_payload tcp tcplen
       \<and> st_seq_rx (n_sdata n' t) = st_seq_rx (n_sdata n t) + of_nat (length (tcp_payload tcp tcplen))
     else n' = n)"
proof (cases "tcp_seq tcp = st_seq_rx (n_sdata n t)")
  case False
  then have "n' = n" using c r by (simp add: process_tcp_to_socket_def stream_for_def Let_def conn_def Net_connection_def Net_listen_def)
  then show ?thesis using c False by simp
next
  case True
  let ?x = "n_sdata n t" and ?d = "tcp_payload tcp tcplen"
  have le: "of_nat (tcp_hdrlen tcp) \<le> tcplen" using p by (simp add: plain_def word_le_nat_alt unat_of_nat take_bit_eq_mod) (meson le_trans mod_less_eq_dividend)
  have h: "unat (of_nat (tcp_hdrlen tcp) :: u32) = tcp_hdrlen tcp"
    using p u32_less [of tcplen] by (simp add: plain_def unat_of_nat take_bit_eq_mod)
  have L: "unat (tcplen - of_nat (tcp_hdrlen tcp)) = length ?d"
    using le h p by (auto simp: unat_sub tcp_payload_def plain_def min_def)
  then have Lw: "tcplen - of_nat (tcp_hdrlen tcp) = of_nat (length ?d)" unfolding L [symmetric] by simp
  define n2 where "n2 = upd_stream t (\<lambda>x. x\<lparr>st_seq_rx := st_seq_rx x + (tcplen - of_nat (tcp_hdrlen tcp))\<rparr>) n"
  define n3 where "n3 = upd_stream t (\<lambda>x. x\<lparr>st_buf := blit (st_buf x) (st_wp x) ?d, st_wp := st_wp x + length ?d\<rparr>) n2"
  have e: "established_rx E i t tcp tcplen n2 = Inr n'"
    using r c p True by (simp add: process_tcp_to_socket_def stream_for_def Let_def conn_def Net_connection_def Net_listen_def plain_def tcp_switch_def n2_def upd_stream_def)
  have pd: "take (length ?d) (drop (tcp_hdrlen tcp) tcp) = ?d" unfolding tcp_payload_def by (simp add: min_def)
  have fit: "length ?d \<le> Stream_sz - st_wp ?x" using e L by (simp add: established_rx_def Let_def n2_def upd_stream_def)
  have w: "st_wp ?x + length ?d \<le> Stream_sz" "st_wp ?x \<le> Stream_sz" "length (st_buf ?x) = Stream_sz"
    using fit c unfolding conn_def by linarith+
  have c3: "conn i t n3" using c w by (simp add: conn_def n3_def n2_def upd_stream_def)
  have q3: "st_seq_rx (n_sdata n3 t) = st_seq_rx ?x + of_nat (length ?d)"
    and d3: "replied n3 = replied n" "stream_data (n_sdata n3 t) = stream_data ?x @ ?d"
    using w Lw by (simp_all add: n3_def n2_def upd_stream_def replied_def stream_data_def blit_def)
  show ?thesis
  proof (cases "has_flag tcp Tcp_Psh \<and> so_cli_state (n_tcp n3 ! i) = Cli_recv")
    case True
    then obtain n4 where g: "give_data E (so_client (n_tcp n3 ! i)) t n3 = Inr n4"
      and n': "n' = upd_tcp i (\<lambda>s. s\<lparr>so_cli_state := 0, so_client := thrid_Nil\<rparr>) n4"
      using e p by (auto simp: established_rx_def Let_def L pd plain_def n3_def [symmetric])
    have "st_wp (n_sdata n3 t) \<le> length (st_buf (n_sdata n3 t))" using c3 by (simp add: conn_def)
    note G = give_data_exact [OF g this]
    then show ?thesis using c3 q3 d3 \<open>tcp_seq tcp = st_seq_rx ?x\<close>
      by (simp add: n' conn_def upd_tcp_def replied_def)
  next
    case False
    then have "n' = n3" using e p by (auto simp: established_rx_def Let_def L pd plain_def n3_def [symmetric])
    then show ?thesis using c3 q3 d3 \<open>tcp_seq tcp = st_seq_rx ?x\<close> by simp
  qed
qed

lemma recv_exact:
  assumes c: "conn i t n" and r: "process_cli_recvfrom_tcp E i cli n = Inr n'"
  shows "conn i t n' \<and> replied n' @ stream_data (n_sdata n' t) = replied n @ stream_data (n_sdata n t)
    \<and> st_seq_rx (n_sdata n' t) = st_seq_rx (n_sdata n t)"
proof (cases "st_wp (n_sdata n t) = 0")
  case True
  then have "n' = upd_tcp i (\<lambda>s. s\<lparr>so_cli_state := Cli_recv, so_client := cli\<rparr>) n"
    using r c by (simp add: process_cli_recvfrom_tcp_def Let_def conn_def)
  then show ?thesis using c by (simp add: conn_def upd_tcp_def replied_def)
next
  case False
  then have g: "give_data E cli t n = Inr n'" using r c by (simp add: process_cli_recvfrom_tcp_def Let_def conn_def)
  have "st_wp (n_sdata n t) \<le> length (st_buf (n_sdata n t))" using c by (simp add: conn_def)
  from give_data_exact [OF g this] show ?thesis using c by (simp add: conn_def)
qed

fun plain_op :: "conn_op \<Rightarrow> bool" where
  "plain_op (Segment _ tcp tcplen) = plain tcp tcplen"
| "plain_op (Recv _) = True"

lemma conn_run_exact:
  assumes "conn i t n" "\<forall>(E, a) \<in> set as. plain_op a" "conn_run as i n = Inr n'"
  shows "replied n' @ stream_data (n_sdata n' t) = replied n @ stream_data (n_sdata n t) @ accepted (st_seq_rx (n_sdata n t)) (map snd as)
    \<and> st_seq_rx (n_sdata n' t) = st_seq_rx (n_sdata n t) + of_nat (length (accepted (st_seq_rx (n_sdata n t)) (map snd as)))"
  using assms
proof (induction as arbitrary: n)
  case (Cons p as)
  obtain E a where p: "p = (E, a)" by fastforce
  obtain n1 where s: "conn_step E i a n = Inr n1" "conn_run as i n1 = Inr n'" using Cons.prems(3) p by auto
  have pl: "plain_op a" "\<forall>(E, a) \<in> set as. plain_op a" using Cons.prems(2) p by auto
  show ?case
  proof (cases a)
    case (Segment src tcp tcplen)
    note S = segment_exact [OF Cons.prems(1), of tcp tcplen E src n1]
    have k: "plain tcp tcplen" "process_tcp_to_socket E i src tcp tcplen n = Inr n1" using pl(1) s(1) Segment by simp_all
    show ?thesis using S [OF k] Cons.IH [OF _ pl(2) s(2)] p Segment by (cases "tcp_seq tcp = st_seq_rx (n_sdata n t)") auto
  next
    case (Recv cli)
    have k: "process_cli_recvfrom_tcp E i cli n = Inr n1" using s(1) Recv by simp
    show ?thesis using recv_exact [OF Cons.prems(1) k] Cons.IH [OF _ pl(2) s(2)] p Recv by simp
  qed
qed simp

text \<open>
  C26. An established connection, over any sequence of segments from the network (in order, early, repeated, cut differently each time)
  and receives of its client, with any answers of the driver and of the clients, as long as the server runs. The bytes that clients got, followed
  by those still stored, grow by exactly the payloads of the segments that arrived with the number expected next, each once and in this order,
  whatever part of the data a client's buffer takes at a time; segments that arrive early or again are dropped. The number expected next, which
  is what the server acknowledges, grows by the number of these bytes. So if all the segments are cut from one sequence of
  bytes of the peer, of less than 4 GB, what the client gets and what is stored is an initial part of it, as long as what is acknowledged:
  nothing wrong, nothing out of order, nothing twice, and nothing acknowledged that is not there. Segments with the flags
  Syn, Rst or Fin are not part of the run.
\<close>

theorem tcp_in_order:
  assumes "conn i t n" "\<forall>(E, a) \<in> set as. plain_op a" "conn_run as i n = Inr n'"
  shows "replied n' @ stream_data (n_sdata n' t) = replied n @ stream_data (n_sdata n t) @ accepted (st_seq_rx (n_sdata n t)) (map snd as)
    \<and> st_seq_rx (n_sdata n' t) = st_seq_rx (n_sdata n t) + of_nat (length (accepted (st_seq_rx (n_sdata n t)) (map snd as)))
    \<and> (\<forall>D. length D < 2 ^ 32 \<and> (\<forall>a\<in>set (map snd as). cut_from D (st_seq_rx (n_sdata n t)) a) \<longrightarrow>
         (\<exists>j\<le>length D. replied n' @ stream_data (n_sdata n' t) = replied n @ stream_data (n_sdata n t) @ take j D
            \<and> st_seq_rx (n_sdata n' t) = st_seq_rx (n_sdata n t) + of_nat j))"
proof -
  note R = conn_run_exact [OF assms]
  have "\<exists>j\<le>length D. replied n' @ stream_data (n_sdata n' t) = replied n @ stream_data (n_sdata n t) @ take j D
      \<and> st_seq_rx (n_sdata n' t) = st_seq_rx (n_sdata n t) + of_nat j"
    if "length D < 2 ^ 32" "\<forall>a\<in>set (map snd as). cut_from D (st_seq_rx (n_sdata n t)) a" for D
    using accepted_prefix [OF that, of 0] R by auto
  then show ?thesis using R by blast
qed

text \<open>A server with one connected socket of the thread 12, and an environment in which everything succeeds.\<close>

definition env_ok :: env where
  "env_ok = \<lparr>e_clock = 0, e_tx = \<lambda>_. True, e_reply = \<lambda>_ k. Some k, e_threads = \<lambda>_. Some (10, 20), e_stale = \<lambda>_. 0\<rparr>"

definition cli12 :: thrid where "cli12 = 0x30001"

definition sock0 :: tcp_socket where
  "sock0 = \<lparr>so_owner = cli12, so_thrno_begin = 10, so_thrno_end = 20, so_client = thrid_Nil, so_recv_client = thrid_Nil, so_id = 1,
     so_net_state = Net_connection, so_cli_state = 0, so_bound = True, so_addr = 0xc0a80064, so_port = 80, so_wait_arp = False,
     so_tx_frame = 0, so_tx_len = 0, ts_streams = [], ts_connected = [], ts_queue_sz = 0, ts_stream = Some 0\<rparr>"

definition net0 :: net where
  "net0 = \<lparr>n_eth = [], n_ip = [\<lparr>if_addr = 0xc0a80064, if_mask = 0xffffff00, if_mac = [0x22, 0x33, 0x44, 0x55, 0x66, 0x77]\<rparr>],
     n_frames = frames_init 0x1000 0x2000, n_arp = [], n_udp = [], n_tcp = [sock0], n_sbusy = [0], n_sfree = [1, 2, 3, 4, 5, 6, 7],
     n_sdata = (\<lambda>_. (new_stream 0xc0a80001 2000)\<lparr>st_state := Established, st_seq_rx := 0xffffffff\<rparr>), n_cnt = 1,
     n_udp_port = 2000, n_tcp_port = 2000, n_out = []\<rparr>"

definition seg1 :: "u8 list" where "seg1 = [7, 0xd0, 0, 80, 0xff, 0xff, 0xff, 0xff, 0, 0, 0, 0, 0x50, 0x18, 0, 100, 0, 0, 0, 0, 104, 105]"
definition seg2 :: "u8 list" where "seg2 = [7, 0xd0, 0, 80, 0, 0, 0, 1, 0, 0, 0, 0, 0x50, 0x18, 0, 100, 0, 0, 0, 0, 33]"

lemmas tcp_eval = has_flag_def tcp_flags_def tcp_hdrlen_def tcp_seq_def get16_def get32_def Tcp_Syn_def Tcp_Rst_def Tcp_Fin_def Tcp_Psh_def Tcp_Ack_def

lemma seg_plain: "plain seg1 22" "plain seg2 21"
  by (simp_all add: plain_def tcp_eval seg1_def seg2_def)

lemma seg_data: "tcp_seq seg1 = -1" "tcp_seq seg2 = 1" "tcp_payload seg1 22 = [104, 105]" "tcp_payload seg2 21 = [33]"
  by (simp_all add: tcp_payload_def tcp_eval seg1_def seg2_def)

lemma run0: "\<exists>n. conn_run [(env_ok, Segment 1 seg2 21), (env_ok, Segment 1 seg1 22), (env_ok, Recv cli12), (env_ok, Segment 1 seg2 21)] 0 net0 = Inr n"
  by (simp add: net0_def sock0_def process_tcp_to_socket_def stream_for_def Let_def Net_connection_def Net_listen_def new_stream_def
     seg_data tcp_switch_def established_rx_def upd_stream_def process_cli_recvfrom_tcp_def give_data_def reply_to_client_def env_ok_def cli12_def
     thrid_is_nil_def thrid_Nil_def Cli_recv_def Stream_sz_def blit_def seg1_def seg2_def tcp_eval)

text \<open>The last segment of the text \<open>hi!\<close> comes early and is dropped, the first is taken, the last comes again and is taken.\<close>

theorem tcp_in_order_witness:
  "conn 0 0 net0 \<and> (\<exists>n. conn_run [(env_ok, Segment 1 seg2 21), (env_ok, Segment 1 seg1 22), (env_ok, Recv cli12), (env_ok, Segment 1 seg2 21)] 0 net0 = Inr n
     \<and> replied n @ stream_data (n_sdata n 0) = [104, 105, 33] \<and> st_seq_rx (n_sdata n 0) = 2
     \<and> (\<exists>j\<le>length [104, 105, 33::u8]. replied n @ stream_data (n_sdata n 0) = take j [104, 105, 33]))"
proof -
  have c: "conn 0 0 net0" by (simp add: conn_def net0_def sock0_def new_stream_def Stream_sz_def)
  let ?as = "[(env_ok, Segment 1 seg2 21), (env_ok, Segment 1 seg1 22), (env_ok, Recv cli12), (env_ok, Segment 1 seg2 21)]"
  obtain n where n: "conn_run ?as 0 net0 = Inr n" using run0 by blast
  have z: "replied net0 = []" "stream_data (n_sdata net0 0) = []" "st_seq_rx (n_sdata net0 0) = -1"
    by (simp_all add: replied_def stream_data_def net0_def new_stream_def)
  have "cut_from [104, 105, 33] (-1) (Segment 1 seg1 22)" "cut_from [104, 105, 33] (-1) (Segment 1 seg2 21)"
    unfolding cut_from.simps by (rule exI [of _ 0], rule exI [of _ 2], simp add: seg_data) (rule exI [of _ 2], rule exI [of _ 1], simp add: seg_data)
  then have d: "\<forall>a\<in>set (map snd ?as). cut_from [104, 105, 33] (st_seq_rx (n_sdata net0 0)) a" using z by simp
  have p: "\<forall>(E, a) \<in> set ?as. plain_op a" using seg_plain by simp
  note T = tcp_in_order [OF c p n]
  have "replied n @ stream_data (n_sdata n 0) = [104, 105, 33]" "st_seq_rx (n_sdata n 0) = 2" using T z by (simp_all add: seg_data)
  moreover have "\<exists>j\<le>length [104, 105, 33::u8]. replied n @ stream_data (n_sdata n 0) = replied net0 @ stream_data (n_sdata net0 0) @ take j [104, 105, 33]"
    using T [THEN conjunct2, THEN conjunct2, rule_format, OF conjI [OF _ d]] by auto
  ultimately show ?thesis using c n unfolding z append_Nil by blast
qed

section \<open>What is sent\<close>

lemma take_frame_mem: "take_frame fs = Some (f, fs') \<Longrightarrow> f \<in> set fs"
  by (induction fs arbitrary: fs') (auto split: if_splits)

lemma drop_eth: "length m = 6 \<Longrightarrow> length m' = 6 \<Longrightarrow> drop Eth_hdrlen (eth_header m m' e @ x) = x"
  by (simp add: eth_header_def Eth_hdrlen_def)

text \<open>
  C27. A TCP message to a peer whose Ethernet address is known: one frame goes to the driver, and it passes every check that
  the stack itself makes on reception; it is addressed to the peer, has the IP and the Ethernet address of the interface chosen for the
  socket and the ports of the stream, the flags asked for, the sequence number of the stream and, as acknowledged, the number
  expected next, for every content that the frame had before.
\<close>

theorem tcp_msg_verifies:
  assumes "send_tcp_msg E i t flags n = Inr n'" "arp_find (st_rem_addr (n_sdata n t)) (e_clock E) n = (m, n1)" "\<not> mac_is_nil m"
    "length m = 6" "\<forall>c \<in> set (n_ip n). length (if_mac c) = 6" "\<forall>f \<in> set (n_frames n). length (fr_data f) = Frame_sz" "unat flags < 512"
  shows "\<exists>d ifc. out_iface (n_tcp n ! i) (n_sdata n t) n = Some ifc
    \<and> n_out n' = n_out n @ [Tx d] \<and> length d = 74 \<and> eth_dst d = m \<and> eth_src d = if_mac ifc \<and> eth_etype d = Etype_ip \<and>
    (let ip = drop Eth_hdrlen d; tcp = drop (ip_hdrlen ip) ip; x = n_sdata n t in
       ip_calc_checksum ip = Inr 0 \<and> ip_protocol ip = Proto_tcp \<and> unat (ip_total_length ip) = length ip
       \<and> ip_src ip = if_addr ifc \<and> ip_dst ip = st_rem_addr x
       \<and> tcp_calc_checksum tcp (of_nat (length tcp)) (ip_src ip) (ip_dst ip) (ip_protocol ip) = Inr 0
       \<and> tcp_src tcp = so_port (n_tcp n ! i) \<and> tcp_dst tcp = st_rem_port x \<and> tcp_seq tcp = st_seq_tx x \<and> tcp_ack tcp = st_seq_rx x
       \<and> tcp_flags tcp = flags \<and> tcp_hdrlen tcp = length tcp)"
proof -
  from assms(1) obtain m' n1' f n2 ifc ip tcp d where a: "arp_find (st_rem_addr (n_sdata n t)) (e_clock E) n = (m', n1')" and g: "frames_get n1' = Some (f, n2)"
    and o: "out_iface (n_tcp n ! i) (n_sdata n t) n2 = Some ifc"
    and bi: "build_ip 60 Proto_tcp (if_addr ifc) (st_rem_addr (n_sdata n t)) = Inr ip"
    and bt: "build_tcp (so_port (n_tcp n ! i)) (st_rem_port (n_sdata n t)) (st_seq_tx (n_sdata n t)) (st_seq_rx (n_sdata n t)) 0 flags
       (seg 55 74 (fr_data f)) (if_addr ifc) (st_rem_addr (n_sdata n t)) = Inr tcp"
    and d: "d = eth_header m' (if_mac ifc) Etype_ip @ ip @ tcp"
    and tx: "\<not> mac_is_nil m' \<Longrightarrow> res_bind (send_to_eth_drv E d (frame_write (fr_buf f) (blit (fr_data f) 0 d) n2)) (frames_free (fr_buf f)) = Inr n'"
    by (rule send_tcp_msgE) blast
  have m: "m' = m" "n1' = n1" using a assms(2) by simp_all
  have n1: "n_ip n1 = n_ip n" "n_frames n1 = n_frames n" "n_out n1 = n_out n"
    using assms(2) by (auto simp: arp_find_def split: option.splits if_splits)
  have fr: "length (fr_data f) = Frame_sz" "n_ip n2 = n_ip n" "n_out n2 = n_out n"
    using g m n1 assms(6) take_frame_mem by (auto simp: frames_get_def)
  have mac: "length (if_mac ifc) = 6" using o fr(2) assms(5) by (auto simp: out_iface_def ip_find_def ip_find_masked_def find_Some_iff split: if_splits)
  have out: "n_out n' = n_out n @ [Tx d]"
    using tx assms(3) m fr(3) by (auto simp: send_to_eth_drv_def frames_free_def frame_write_def)
  have opts: "length (seg 55 74 (fr_data f)) = 19" using fr(1) by (simp add: Frame_sz_def)
  obtain ip' where I: "ip' = ip" "length ip' = 20" "ip_calc_checksum (ip' @ tcp) = Inr 0" "ip_hdrlen (ip' @ tcp) = 20" "ip_total_length (ip' @ tcp) = 60"
    "ip_protocol (ip' @ tcp) = Proto_tcp" "ip_src (ip' @ tcp) = if_addr ifc" "ip_dst (ip' @ tcp) = st_rem_addr (n_sdata n t)"
    using build_ip_ok [of 60 Proto_tcp "if_addr ifc" "st_rem_addr (n_sdata n t)" tcp] bi by auto
  have z: "unat (0::u16) < 8" by simp
  note T = build_tcp_ok [OF z assms(7), of "seg 55 74 (fr_data f)" "so_port (n_tcp n ! i)" "st_rem_port (n_sdata n t)" "st_seq_tx (n_sdata n t)"
      "st_seq_rx (n_sdata n t)" "if_addr ifc" "st_rem_addr (n_sdata n t)" "[]", unfolded bt opts]
  have de: "drop Eth_hdrlen d = ip @ tcp" unfolding d m using drop_eth [OF assms(4) mac] by blast
  have l: "length tcp = 40" using T by auto
  have e: "eth_dst d = m" "eth_src d = if_mac ifc" "eth_etype d = Etype_ip" "length d = 74"
    using assms(4) mac I(1,2) l m by (simp_all add: d eth_dst_def eth_src_def eth_etype_def eth_header_def get16_def be16_def nth_append comb16)
  have oi: "out_iface (n_tcp n ! i) (n_sdata n t) n = Some ifc" using o by (simp only: out_iface_def ip_find_def ip_find_masked_def fr(2))
  show ?thesis
    by (rule exI [of _ d], rule exI [of _ ifc]) (use oi out e de I T l in \<open>auto simp: Let_def\<close>)
qed

text \<open>A peer with a known address, and a socket that sends it an acknowledgement.\<close>

definition net1 :: net where
  "net1 = net0\<lparr>n_frames := [\<lparr>fr_buf = 0x1000, fr_busy = False, fr_data = replicate Frame_sz 7\<rparr>],
     n_arp := [\<lparr>ar_ip = 0xc0a80001, ar_mac = [1, 2, 3, 4, 5, 6], ar_timeout = 5\<rparr>]\<rparr>"

lemma net1_arp: "arp_find (st_rem_addr (n_sdata net1 0)) (e_clock env_ok) net1 = ([1, 2, 3, 4, 5, 6], net1)"
  by (simp add: arp_find_def net1_def net0_def new_stream_def env_ok_def)

lemma mac_not_nil: "\<not> mac_is_nil [1, 2, 3, 4, 5, 6]"
  by (simp add: mac_is_nil_def mac_nil_def eval_nat_numeral)

lemma net1_send: "\<exists>n'. send_tcp_msg env_ok 0 0 Tcp_Ack net1 = Inr n'"
proof -
  obtain ip where ip: "build_ip 60 Proto_tcp 0xc0a80064 0xc0a80001 = Inr ip" using build_ip_ok by blast
  have "unat (0::u16) < 8" "unat Tcp_Ack < 512" "length (replicate 19 (7::u8)) \<le> 65000" by (simp_all add: Tcp_Ack_def)
  then obtain tcp where tcp: "build_tcp 80 2000 0 0xffffffff 0 Tcp_Ack (replicate 19 7) 0xc0a80064 0xc0a80001 = Inr tcp" using build_tcp_ok by blast
  show ?thesis
    using ip tcp by (simp add: send_tcp_msg_def net1_arp Let_def mac_not_nil) (simp add: net1_def net0_def sock0_def new_stream_def frames_get_def out_iface_def INADDR_ANY_def
      ip_find_def Frame_sz_def seg_def mac_not_nil send_to_eth_drv_def env_ok_def frames_free_def frame_write_def Let_def)
qed

theorem tcp_msg_verifies_witness:
  "\<exists>n' d. send_tcp_msg env_ok 0 0 Tcp_Ack net1 = Inr n' \<and> n_out n' = [Tx d] \<and> ip_calc_checksum (drop Eth_hdrlen d) = Inr 0
     \<and> ip_src (drop Eth_hdrlen d) = 0xc0a80064 \<and> eth_src d = [0x22, 0x33, 0x44, 0x55, 0x66, 0x77]"
proof -
  obtain n' where r: "send_tcp_msg env_ok 0 0 Tcp_Ack net1 = Inr n'" using net1_send by blast
  have "\<not> mac_is_nil [1, 2, 3, 4, 5, 6]" "length [1, 2, 3, 4, 5, 6::u8] = 6" "\<forall>c \<in> set (n_ip net1). length (if_mac c) = 6"
    "\<forall>f \<in> set (n_frames net1). length (fr_data f) = Frame_sz" "unat Tcp_Ack < 512" "n_out net1 = []"
    by (simp_all add: mac_not_nil net1_def net0_def Tcp_Ack_def)
  moreover have "out_iface (n_tcp net1 ! 0) (n_sdata net1 0) net1 = Some \<lparr>if_addr = 0xc0a80064, if_mask = 0xffffff00, if_mac = [0x22, 0x33, 0x44, 0x55, 0x66, 0x77]\<rparr>"
    by (simp add: out_iface_def ip_find_def net1_def net0_def sock0_def INADDR_ANY_def)
  ultimately show ?thesis using tcp_msg_verifies [OF r net1_arp] r by (auto simp: Let_def)
qed

theorem client_isolation_witness:
  "\<exists>n'. client_turn env_ok (7, 8) (6, 0) [0, 7, 8, 1, 2, 1, 0] cli12 0 (net0\<lparr>n_tcp := [sock0\<lparr>so_thrno_begin := 1, so_thrno_end := 5\<rparr>]\<rparr>) = Inr (1, n')
     \<and> length (n_tcp n') = 2 \<and> filter (\<lambda>s. \<not> is_owner s cli12) (n_tcp n') = [sock0\<lparr>so_thrno_begin := 1, so_thrno_end := 5\<rparr>]"
proof -
  let ?n = "net0\<lparr>n_tcp := [sock0\<lparr>so_thrno_begin := 1, so_thrno_end := 5\<rparr>]\<rparr>"
  have nr: "thrid_number cli12 = 12" by (simp add: cli12_def thrid_number_def thrid_is_global_def thrid_is_single_def thrid_is_nil_def thrid_is_any_def
      thrid_is_any_local_def thrid_Nil_def thrid_Any_def thrid_Any_local_def bf_get_def)
  have "\<exists>n'. client_turn env_ok (7, 8) (6, 0) [0, 7, 8, 1, 2, 1, 0] cli12 0 ?n = Inr (1, n') \<and> length (n_tcp n') = 2"
    by (simp add: client_turn_def process_client_request_def process_cli_socket_def Let_def AF_INET_def env_ok_def SOCK_DGRAM_def SOCK_STREAM_def
      tcp_add_def net0_def Sockets_max_def returns1_def reply_code_def reply_to_client_def cli12_def thrid_is_nil_def thrid_Nil_def)
  then obtain n' where r: "client_turn env_ok (7, 8) (6, 0) [0, 7, 8, 1, 2, 1, 0] cli12 0 ?n = Inr (1, n')" "length (n_tcp n') = 2" by blast
  have e: "b \<le> thrid_number cli12 \<and> thrid_number cli12 < e" if "e_threads env_ok cli12 = Some (b, e)" for b e
    using that nr by (auto simp: env_ok_def)
  show ?thesis using client_isolation [OF e r(1)] r nr by (auto simp: is_owner_def net0_def)
qed

section \<open>What stops the server\<close>

text \<open>
  C29. Three connections half open are all that a listening socket can have: the next \<open>Syn\<close> from another peer, with any
  other content, stops the server at an assertion.
\<close>

theorem syn_flood_stops:
  assumes "so_net_state (n_tcp n ! i) = Net_listen" "so_bound (n_tcp n ! i)" "length (ts_streams (n_tcp n ! i)) = Backlog_max"
    "\<forall>t \<in> set (ts_streams (n_tcp n ! i)). (st_rem_addr (n_sdata n t), st_rem_port (n_sdata n t)) \<noteq> (src, tcp_src tcp)"
    "has_flag tcp Tcp_Syn"
  shows "process_tcp_to_socket E i src tcp tcplen n = Inl Assert_failed"
proof -
  have "find_stream (ts_streams (n_tcp n ! i)) src (tcp_src tcp) n = None" using assms(4) by (auto simp: find_stream_def find_None_iff)
  then show ?thesis using assms by (simp add: process_tcp_to_socket_def stream_for_def Let_def get_stream_def add_stream_def Net_listen_def)
qed

theorem syn_flood_stops_witness:
  "process_tcp_to_socket env_ok 0 5 [0, 1, 0, 80, 0, 0, 0, 0, 0, 0, 0, 0, 0x50, 2, 0, 0, 0, 0, 0, 0] 20
     (net0\<lparr>n_tcp := [sock0\<lparr>so_net_state := Net_listen, ts_streams := [0, 1, 2]\<rparr>]\<rparr>) = Inl Assert_failed"
  by (rule syn_flood_stops) (simp_all add: sock0_def net0_def new_stream_def Backlog_max_def tcp_eval)

text \<open>A peer that answers the handshake while no thread is in \<open>accept\<close>.\<close>

lemma handshake_stops:
  assumes "so_net_state (n_tcp n ! i) = Net_listen" "so_bound (n_tcp n ! i)" "so_cli_state (n_tcp n ! i) \<noteq> Cli_accept"
    "find_stream (ts_streams (n_tcp n ! i)) src (tcp_src tcp) n = Some t" "st_state (n_sdata n t) = Syn_received"
    "tcp_seq tcp = st_seq_rx (n_sdata n t)" "has_flag tcp Tcp_Ack" "\<not> has_flag tcp Tcp_Rst"
  shows "process_tcp_to_socket E i src tcp tcplen n = Inl Assert_failed"
  using assms by (simp add: process_tcp_to_socket_def stream_for_def Let_def get_stream_def Net_listen_def Net_connection_def tcp_switch_def
      upd_stream_def move_to_connected_queue_def)

text \<open>A reset of any connection that is not being opened.\<close>

lemma send_tcp_msg_cli: "send_tcp_msg E i t flags n = Inr n' \<Longrightarrow> i < length (n_tcp n) \<Longrightarrow> so_cli_state (n_tcp n' ! i) = so_cli_state (n_tcp n ! i)"
proof (elim send_tcp_msgE)
  fix m n1 f n2 ifc and d :: "u8 list"
  assume i: "i < length (n_tcp n)" and a: "arp_find (st_rem_addr (n_sdata n t)) (e_clock E) n = (m, n1)" and g: "frames_get n1 = Some (f, n2)"
    and nil: "mac_is_nil m \<Longrightarrow> send_arp_request E ifc (st_rem_addr (n_sdata n t))
       (upd_tcp i (\<lambda>s. s\<lparr>so_tx_frame := fr_buf f, so_tx_len := 74, so_wait_arp := True\<rparr>) (frame_write (fr_buf f) (blit (fr_data f) 0 d) n2)) = Inr n'"
    and tx: "\<not> mac_is_nil m \<Longrightarrow> res_bind (send_to_eth_drv E d (frame_write (fr_buf f) (blit (fr_data f) 0 d) n2)) (frames_free (fr_buf f)) = Inr n'"
  have s: "n_tcp n2 = n_tcp n" using no_socket_ops(1) [OF g] no_socket_ops(4) [of n "st_rem_addr (n_sdata n t)" "e_clock E"] a by (simp add: no_socket_def)
  show ?thesis
  proof (cases "mac_is_nil m")
    case True
    from send_arp_no_socket [OF nil [OF True]] show ?thesis using s i by (simp add: no_socket_def upd_tcp_def frame_write_def)
  next
    case False
    then show ?thesis using tx s by (auto simp: no_socket_def frame_write_def dest!: no_socket_ops(2,6))
  qed
qed

lemma reset_stops:
  assumes c: "conn i t n" and "has_flag tcp Tcp_Rst" "tcp_seq tcp = st_seq_rx (n_sdata n t)" "so_cli_state (n_tcp n ! i) \<noteq> Cli_connect"
  shows "isl (process_tcp_to_socket E i src tcp tcplen n)"
proof (rule ccontr)
  assume "\<not> ?thesis"
  then obtain n' where r: "process_tcp_to_socket E i src tcp tcplen n = Inr n'" by (cases "process_tcp_to_socket E i src tcp tcplen n") auto
  obtain g n3 where s: "send_tcp_msg E i t (Tcp_Rst + Tcp_Ack) (upd_stream t g n) = Inr n3" "so_cli_state (n_tcp n3 ! i) = Cli_connect"
    using r assms by (auto simp: process_tcp_to_socket_def stream_for_def Let_def conn_def Net_connection_def Net_listen_def upd_stream_def split: if_splits)
  then show False using send_tcp_msg_cli [OF s(1)] c assms(4) by (simp add: conn_def upd_stream_def)
qed

text \<open>A receive on a connection that the peer has closed: the answer goes to no thread.\<close>

lemma recv_after_close_stops:
  assumes "ts_stream (n_tcp n ! i) = Some t" "st_state (n_sdata n t) \<noteq> Established" "so_client (n_tcp n ! i) = thrid_Nil"
  shows "process_cli_recvfrom_tcp E i cli n = Inl Assert_failed"
  using assms by (cases "so_net_state (n_tcp n ! i) = Net_connection \<and> so_cli_state (n_tcp n ! i) = 0")
    (simp_all add: process_cli_recvfrom_tcp_def Let_def reply_code_def reply_to_client_def thrid_is_nil_def wassert_def)

text \<open>A close by another thread of the same program than the one that made the socket.\<close>

lemma close_by_other_stops:
  assumes "tcp_find (so_id (n_tcp n ! i)) n = Some i" "so_net_state (n_tcp n ! i) = Net_listen" "so_owner (n_tcp n ! i) \<noteq> cli"
  shows "process_cli_close_tcp E i cli n = Inl Assert_failed"
proof -
  have i: "i < length (n_tcp n)" using assms(1) by (auto simp: tcp_find_def dest: find_idx_SomeD)
  let ?n = "upd_tcp i (\<lambda>s. s\<lparr>so_cli_state := Cli_closed\<rparr>) n"
  have "tcp_find (so_id (n_tcp n ! i)) ?n = Some i" "so_owner (n_tcp ?n ! i) \<noteq> cli"
    using tcp_find_upd assms i by (simp_all add: upd_tcp_def)
  then show ?thesis using assms by (simp add: process_cli_close_tcp_def Let_def tcp_remove_def)
qed

text \<open>A UDP datagram whose length field is 0: the checksum reads on to the end of the buffer and beyond.\<close>

lemma sum_words_zero: "i \<le> length data + 1 \<Longrightarrow> length data < 2 ^ 31 \<Longrightarrow> sum_words data 0 i acc = Inl Bad_access"
proof (induction data "0::u32" i acc rule: sum_words.induct)
  case (1 data i acc)
  have "i < unat (0 - 1 :: u32)" using "1.prems" by (simp add: unsigned_minus_1_eq_mask mask_eq_exp_minus_1)
  then show ?case using 1 by (simp add: sum_words.simps [of data 0 i acc])
qed

lemma udp_zero_length_stops:
  assumes "udp_length (drop (ip_hdrlen (drop Eth_hdrlen rx)) (drop Eth_hdrlen rx)) = 0" "8 \<le> udplen" "length rx < 2 ^ 31"
  shows "process_udp_packet E ifc rx udplen n = Inl Bad_access"
proof -
  have "sum_words (drop k rx) 0 0 0 = Inl Bad_access" for k using sum_words_zero [of 0 "drop k rx" 0] assms(3) by simp
  then show ?thesis using assms(1,2) by (simp add: process_udp_packet_def Let_def udp_calc_checksum_def inet_checksum_def sum_data_def Udp_hdrlen_def)
qed

end
