(* ===== verification/Spec2Isabelle.thy ===== *)
theory Spec2Isabelle
  imports Prelude Fifo Cbuf Bitmap Klist L4_Types Threads Sched Regions Kmem Ptable Aspace Wstring Intc Ipc Ipc_Inv Syscalls Boot Ipc_Props Ipc_Map Sigma0 Wstdio Wstdlib Mpool Wsem Netpkt Netstack Tcpip Tcpip_Props
begin

text \<open>
  A verification development of WrmOS: an L4 microkernel for SPARC, ARM and x86 (\<open>krn\<close>), the containers and
  the C library it is built with (\<open>lib/containers\<close>, \<open>lib/wlibc\<close>), the L4 data types that kernel and programs
  exchange (\<open>lib/l4\<close>), the root pager sigma0 (\<open>app/sigma0\<close>) and the network server (\<open>app/tcpip\<close>). The target of the development is the 32-bit
  big-endian SPARC (LEON3) in the build with \<open>DEBUG\<close>, in which failed assertions stop execution.

  \<^bold>\<open>How the parts work together.\<close> A trap enters the kernel (\<open>krn/sparc/entry.cpp\<close>, \<open>krn/kentry.cpp\<close>): a system
  call goes to the dispatcher and from there to \<open>krn/syscalls.cpp\<close> or to IPC (\<open>krn/ipc.cpp\<close>), a page fault
  becomes a message to the pager of the thread, an interrupt a message to its handler, the timer wakes
  threads whose time is up. IPC moves words, memory (map items, through the address spaces of
  \<open>krn/kmem.h\<close> and \<open>krn/task.h\<close> and the page tables of \<open>krn/ptable.h\<close>) and bytes (string items), and puts threads
  to sleep and wakes them in the lists of \<open>krn/threads.h\<close>; these are \<open>list_t\<close>s. Where the kernel switches to
  another thread in the middle of a function, the rest of that function stays on the kernel stack.
  At the start \<open>krn/startup.cpp\<close> makes sigma0 the owner of all memory that is not the kernel's; sigma0 starts the
  root task, answers its page faults and hands out free memory.

  \<^bold>\<open>Theories, bottom up.\<close>

  \<^item> \<open>Prelude\<close>: machine types, error values (\<open>Assert_failed\<close>, \<open>Panic\<close>, \<open>Bad_access\<close> for what C leaves undefined),
    sequencing of fallible steps (\<open>res_bind\<close>), shared lemmas on lists, bits and words.

  \<^item> \<open>Fifo\<close>, \<open>Cbuf\<close>: the contract of a bounded byte queue as the locale \<open>byte_fifo\<close>, and \<open>Cbuf_t\<close>
    (\<open>lib/containers/cbuf.h\<close>), which interprets it: no run of writes and reads loses or reorders a byte. The two
    cases in which \<open>overwrite\<close> breaks the buffer are proved.

  \<^item> \<open>Bitmap\<close>: \<open>bitmap_t\<close> and \<open>Static_pool_t\<close>. The locale \<open>slot_alloc\<close> is the contract of an allocator of slots; the
    bitmap interprets it, and the pool and the UTCB space of a task rest on it.

  \<^item> \<open>Klist\<close>: \<open>Xlist\<close> and \<open>list_t\<close> (\<open>lib/containers/list.h\<close>) on the level of pointers in a store. Each operation
    is the corresponding one on the sequence of values; the locale \<open>item_queue\<close> is what the clients use.

  \<^item> \<open>L4_Types\<close>: identifiers, times, flexpages, items, tags (\<open>lib/l4/inc/l4_types.h\<close>) as words with bit fields.

  \<^item> \<open>Threads\<close>, \<open>Sched\<close>: thread records, the ready queues with their bitmap, waiting lists, timeouts, priority
    inheritance, the timer tick (\<open>krn/thread.h\<close>, \<open>krn/threads.h\<close>, \<open>krn/sched.h\<close>). A thread is its index, a kernel list a
    sequence of indices with the capacity written out. \<open>Sched\<close> has the invariant \<open>sched_inv\<close> of all lists,
    that every operation keeps it (the step relation \<open>kstep\<close>), what the scheduler picks and whom the timer wakes.

  \<^item> \<open>Regions\<close>, \<open>Kmem\<close>: the region lists \<open>Address_space_t\<close> with splitting and joining, and the kernel memory pool.

  \<^item> \<open>Ptable\<close>, \<open>Aspace\<close>: three-level page tables over the cells of the SPARC MMU, and address spaces, in which the
    list of regions and the page table agree; tasks, their KIP and UTCB areas.

  \<^item> \<open>Intc\<close>: the interrupt controller and its wrapper.

  \<^item> \<open>Ipc\<close>: the whole state of the system (\<open>sys\<close>: threads, tasks, physical memory, interrupt controller, kernel
    stacks as continuations \<open>s_cont\<close>) and \<open>do_ipc\<close> with all it calls. \<open>Syscalls\<close>: the other system calls and
    the dispatcher. \<open>Boot\<close>: the start of the system and the step relation \<open>sstep\<close>: user code and devices
    change what they may, traps run a kernel entry, resumed threads run their continuations.

  \<^item> \<open>Ipc_Inv\<close>, \<open>Ipc_Props\<close>, \<open>Ipc_Map\<close>: the invariant of the whole system over every path of the IPC code, with its
    consequence for every reachable state in \<open>Boot\<close>; delivery, errors, the choice of the sender,
    interrupts, isolation of tasks; exactness of map items and of the copies of strings.

  \<^item> \<open>Sigma0\<close>: the root pager, its lists of memory, a turn of its loop; over any run no byte is handed out twice.

  \<^item> \<open>Wstring\<close>: \<open>lib/wlibc/src/string.c\<close>. The mem functions work over any memory of single bytes
    (locale \<open>byte_mem\<close>), interpreted on a flat memory here and used by the kernel through its page tables.

  \<^item> \<open>Wstdio\<close>, \<open>Wstdlib\<close>: \<open>vsnprintf\<close> with its parser of formats, \<open>strtoul\<close>, \<open>itoa\<close>: truncation to any buffer,
    exact numbers, and that printed numbers read back.

  \<^item> \<open>Mpool\<close>: \<open>Memory_pool_t\<close>, the buddy allocator behind \<open>malloc\<close> (\<open>lib/containers/memory_pool.h\<close>): allocated blocks
    never overlap in a pool of one area, and how a second area breaks this.

  \<^item> \<open>Wsem\<close>: semaphores and mutexes of user programs (\<open>lib/wrmos/src/sem.cpp\<close>) with their ring of waiting threads, and a
    step relation \<open>run\<close> of threads that wait, time out, fail and post in any order: no wait without a post or initial value
    for it, exclusion when threads post only what they got, and hand-over in order of arrival.

  \<^item> \<open>Netpkt\<close>, \<open>Netstack\<close>, \<open>Tcpip\<close>, \<open>Tcpip_Props\<close>: the network server (\<open>app/tcpip\<close>). Headers and checksum over bytes; frames,
    address cache, streams and sockets; the handlers of every frame and of every request of a client as functions on the state
    \<open>net\<close>, with the driver and the clients as the parameter \<open>env\<close>. The checksum detects and verifies, what is sent passes the
    checks, what a client gets of a TCP connection is an initial part of what the peer sends, clients cannot touch the sockets of others; and which packets and
    requests stop the server at an assertion or outside a buffer.

  \<^bold>\<open>Loops, bounds and fuel.\<close> Loops with a bound are \<open>fun\<close>s, or \<open>function\<close>s with a measure (page table walks, the
  digits of a number, splits and joins of blocks, the search in a bitmap). The only count handed down is that of the 32
  bits in which \<open>L4_fpage_t::set\<close> searches the size of a flexpage. The string functions and the walks of
  \<open>list_t\<close>, which need not end on bad data, are \<open>partial_function (option)\<close>, and that they return on good data
  is part of their theorems. Machine words keep their width; constants such as \<open>Threads_max\<close> are those of the code.

  \<^bold>\<open>Not modelled.\<close> The other processors (the same interfaces once more), assembly (trap table, context switch,
  register windows), device drivers, whose meaning is that of the device registers, and the boot loader; the
  kernel debugger, log and other output (the system call that lists the threads through a pointer of the caller has no result
  in the model); floating point (a directive for a floating-point number goes
  through a parameter of \<open>vsnprintf\<close>) and scanning; the root task, the console and the client libraries, which are clients of the system calls. In the
  kernel: the kernel's own mappings, cache and TLB control, time accounting, more than one processor,
  and the stop of the kernel when its memory is exhausted inside a page table operation.
\<close>

end
